(* ===== verification/Prelude.thy ===== *)
theory Prelude
  imports Main "HOL-Library.Word" "HOL-Library.Monad_Syntax"
begin

text \<open>
  Shared vocabulary of the development.

  The C code is modelled as functions that may have undefined behaviour: a step that reads
  or writes outside an allocated block, reads a byte that was never written, or hits
  \<open>assert\<close>, \<open>SEGFAULT()\<close> or signed overflow has the value \<open>None\<close>; every other step has the
  value \<open>Some\<close>.  The total-correctness judgement \<open>valid m Q\<close> says that \<open>m\<close> is defined and
  its result satisfies \<open>Q\<close>, so each lemma in this form is also a memory-safety statement.
  Memory blocks are lists of cells, a cell being \<open>None\<close> until it is written.
\<close>

unbundle bit_operations_syntax

named_theorems mem_simps \<open>reads, writes and block copies of the memory model\<close>
named_theorems wp \<open>introduction rules for the judgement \<open>valid\<close>\<close>

section \<open>Defined results\<close>

definition valid :: "'a option \<Rightarrow> ('a \<Rightarrow> bool) \<Rightarrow> bool" where
  "valid m Q \<longleftrightarrow> (\<exists>x. m = Some x \<and> Q x)"

lemma valid_Some [simp]: "valid (Some x) Q \<longleftrightarrow> Q x"
  by (simp add: valid_def)

lemma valid_None [simp]: "\<not> valid None Q"
  by (simp add: valid_def)

lemma valid_bind [wp]:
  assumes "valid m P" and "\<And>x. P x \<Longrightarrow> valid (f x) Q"
  shows "valid (m \<bind> f) Q"
  using assms by (auto simp: valid_def)

lemma valid_bind_iff: "valid (m \<bind> f) Q \<longleftrightarrow> valid m (\<lambda>x. valid (f x) Q)"
  by (cases m) auto

lemma valid_weaken: "valid m P \<Longrightarrow> (\<And>x. P x \<Longrightarrow> Q x) \<Longrightarrow> valid m Q"
  by (auto simp: valid_def)

lemma valid_defined: "valid m Q \<Longrightarrow> m \<noteq> None"
  by (auto simp: valid_def)

lemma valid_eq: "valid m (\<lambda>x. x = y) \<longleftrightarrow> m = Some y"
  by (auto simp: valid_def)

definition guard :: "bool \<Rightarrow> unit option" where
  "guard b = (if b then Some () else None)"

lemma guard_simps [simp]: "guard True = Some ()" "guard False = None"
  by (simp_all add: guard_def)

lemma bind_guard [simp]: "(guard b \<bind> f) = Some x \<longleftrightarrow> b \<and> f () = Some x"
  by (cases b) auto

section \<open>Characters\<close>

text \<open>
  \<open>char\<close> is the 8-bit byte.  \<open>uchar\<close> reads it as \<open>unsigned char\<close>, \<open>schar\<close> as the signed
  \<open>char\<close> of the platforms the server is built for.
\<close>

abbreviation NUL :: char where "NUL \<equiv> CHR 0x00"
abbreviation TAB :: char where "TAB \<equiv> CHR 0x09"
abbreviation LF :: char where "LF \<equiv> CHR 0x0A"
abbreviation CR :: char where "CR \<equiv> CHR 0x0D"
abbreviation DQUOTE :: char where "DQUOTE \<equiv> CHR 0x22"
abbreviation BACKSLASH :: char where "BACKSLASH \<equiv> CHR 0x5C"

definition uchar :: "char \<Rightarrow> nat" where
  "uchar c = of_char c"

definition schar :: "char \<Rightarrow> int" where
  "schar c = (if uchar c < 128 then int (uchar c) else int (uchar c) - 256)"

lemma uchar_less: "uchar c < 256"
  by (simp add: uchar_def)

lemma uchar_inj [simp]: "uchar a = uchar b \<longleftrightarrow> a = b"
  by (simp add: uchar_def)

lemma schar_bounds: "-128 \<le> schar c" "schar c < 128"
  using uchar_less[of c] by (simp_all add: schar_def)

lemma schar_inj [simp]: "schar a = schar b \<longleftrightarrow> a = b"
proof
  assume "schar a = schar b"
  then have "uchar a = uchar b"
    using uchar_less[of a] uchar_less[of b] by (auto simp: schar_def split: if_splits)
  then show "a = b" by simp
qed simp

text \<open>A property of every byte: the 256 instances.\<close>

lemma all_char_bits:
  "(\<forall>c. P c) \<longleftrightarrow> (\<forall>b0 b1 b2 b3 b4 b5 b6 b7. P (Char b0 b1 b2 b3 b4 b5 b6 b7))"
  by (metis char.exhaust)

lemmas char_cases = all_char_bits all_bool_eq

section \<open>C strings\<close>

text \<open>The bytes a C function sees through a \<open>const char *\<close>: those before the first NUL.\<close>

definition cstr :: "char list \<Rightarrow> char list" where
  "cstr s = takeWhile (\<lambda>c. c \<noteq> NUL) s"

lemma cstr_Nil [simp]: "cstr [] = []"
  by (simp add: cstr_def)

lemma cstr_append_NUL [simp]: "cstr (s @ NUL # t) = cstr s"
  by (induction s) (auto simp: cstr_def)

lemma cstr_id [simp]: "NUL \<notin> set s \<Longrightarrow> cstr s = s"
  by (auto simp: cstr_def takeWhile_eq_all_conv)

lemma NUL_cstr [simp]: "NUL \<notin> set (cstr s)"
  by (auto simp: cstr_def dest: set_takeWhileD)

lemma cstr_cstr [simp]: "cstr (cstr s) = cstr s"
  by simp

section \<open>Memory blocks\<close>

type_synonym mem = "char option list"

definition rd :: "mem \<Rightarrow> nat \<Rightarrow> char option" where
  "rd m i = (if i < length m then m ! i else None)"

definition wr :: "mem \<Rightarrow> nat \<Rightarrow> char \<Rightarrow> mem option" where
  "wr m i c = (if i < length m then Some (m[i := Some c]) else None)"

definition blit :: "mem \<Rightarrow> nat \<Rightarrow> char list \<Rightarrow> mem option" where
  "blit m off s =
     (if off + length s \<le> length m
      then Some (take off m @ map Some s @ drop (off + length s) m) else None)"

definition malloc :: "nat \<Rightarrow> mem" where
  "malloc n = replicate n None"

definition realloc :: "mem \<Rightarrow> nat \<Rightarrow> mem" where
  "realloc m n = take n m @ replicate (n - length m) None"

lemma length_malloc [simp]: "length (malloc n) = n"
  by (simp add: malloc_def)

lemma length_realloc [simp]: "length (realloc m n) = n"
  by (simp add: realloc_def)

lemma take_realloc [mem_simps]: "k \<le> length m \<Longrightarrow> k \<le> n \<Longrightarrow> take k (realloc m n) = take k m"
  by (simp add: realloc_def min_def)

lemma blit_Some: "off + length s \<le> length m \<Longrightarrow>
    blit m off s = Some (take off m @ map Some s @ drop (off + length s) m)"
  by (simp add: blit_def)

lemma length_blit: "blit m off s = Some m' \<Longrightarrow> length m' = length m"
  by (auto simp: blit_def split: if_splits)

lemma wr_Some: "i < length m \<Longrightarrow> wr m i c = Some (m[i := Some c])"
  by (simp add: wr_def)

lemma length_wr: "wr m i c = Some m' \<Longrightarrow> length m' = length m"
  by (auto simp: wr_def split: if_splits)

text \<open>A block that starts with the bytes \<open>bs\<close>.\<close>

definition holds :: "mem \<Rightarrow> char list \<Rightarrow> bool" where
  "holds m bs \<longleftrightarrow> length bs \<le> length m \<and> take (length bs) m = map Some bs"

lemma holds_Nil [simp]: "holds m []"
  by (simp add: holds_def)

lemma holds_rd: "holds m bs \<Longrightarrow> i < length bs \<Longrightarrow> rd m i = Some (bs ! i)"
proof -
  assume h: "holds m bs" and i: "i < length bs"
  then have "m ! i = map Some bs ! i" by (metis holds_def nth_take)
  with h i show ?thesis by (simp add: holds_def rd_def)
qed

lemma holds_take: "holds m bs \<Longrightarrow> holds m (take k bs)"
  by (auto simp: holds_def min_def take_map dest: arg_cong[where f = "take k"])

lemma holds_blit:
  assumes "holds m bs" and "off \<le> length bs" and "off + length s \<le> length m"
  shows "valid (blit m off s) (\<lambda>m'. length m' = length m \<and> holds m' (take off bs @ s))"
proof -
  from assms have "take off m = map Some (take off bs)"
    by (metis holds_def min.absorb1 take_map take_take)
  with assms show ?thesis
    by (auto simp: blit_def holds_def)
qed

lemma holds_wr:
  assumes "holds m bs" and "i \<le> length bs" and "i < length m"
  shows "valid (wr m i c) (\<lambda>m'. length m' = length m \<and> holds m' (take i bs @ [c]))"
proof -
  have "take (Suc i) (m[i := Some c]) = take i m @ [Some c]"
    using assms by (simp add: take_Suc_conv_app_nth)
  moreover from assms have "take i m = map Some (take i bs)"
    by (metis holds_def min.absorb1 take_map take_take)
  ultimately show ?thesis using assms by (auto simp: wr_def holds_def min_def)
qed

lemma holds_realloc: "holds m bs \<Longrightarrow> length bs \<le> n \<Longrightarrow> holds (realloc m n) bs"
  by (simp add: holds_def mem_simps)

lemma holds_all: "holds m bs \<Longrightarrow> length m = length bs \<Longrightarrow> m = map Some bs"
  by (simp add: holds_def)

text \<open>
  The C string that starts at offset \<open>i\<close> of a block: undefined when the block ends, or an
  unwritten cell is met, before the terminating NUL.
\<close>

fun mem_str :: "mem \<Rightarrow> char list option" where
  "mem_str [] = None"
| "mem_str (None # m) = None"
| "mem_str (Some c # m) = (if c = NUL then Some [] else map_option ((#) c) (mem_str m))"

lemma mem_str_bytes: "NUL \<in> set bs \<Longrightarrow> mem_str (map Some bs @ m) = Some (cstr bs)"
  by (induction bs) (auto simp: cstr_def)

lemma holds_mem_str: "holds m bs \<Longrightarrow> NUL \<in> set bs \<Longrightarrow> mem_str m = Some (cstr bs)"
  by (metis append_take_drop_id holds_def mem_str_bytes)

section \<open>Bit operations on signed integers\<close>

text \<open>A C \<open>int\<close> is 32 bits wide; an expression is converted to it by truncation.\<close>

definition to_int32 :: "int \<Rightarrow> int" where
  "to_int32 x = sint (word_of_int x :: 32 word)"

lemma to_int32_id: "- (2 ^ 31) \<le> x \<Longrightarrow> x < 2 ^ 31 \<Longrightarrow> to_int32 x = x"
  by (simp add: to_int32_def signed_of_int signed_take_bit_int_eq_self)

section \<open>Lists\<close>

lemma take_list_update_le [simp]: "i \<le> k \<Longrightarrow> take i (xs[k := y]) = take i xs"
  by simp

lemma nth_append_right_simp [mem_simps]: "(xs @ y # ys) ! length xs = y"
  by simp

lemma list_all2_same: "list_all2 P xs xs \<longleftrightarrow> (\<forall>x \<in> set xs. P x x)"
  by (induction xs) auto

end
