(* ===== verification/Buffer.thy ===== *)
theory Buffer
  imports Prelude
begin

text \<open>
  The growable byte buffer of \<open>buffer.c\<close>, at the level of its allocation: a record with the
  struct's three fields, the block being a list of cells.  A \<open>buffer *\<close> argument is a
  \<open>buffer option\<close> (\<open>None\<close> is \<open>NULL\<close>), a \<open>const char *\<close> argument a \<open>char list option\<close>.
  Each operation returns the C return value and the updated buffer, or \<open>None\<close> where the C
  code would leave its block, read an unwritten byte, dereference \<open>NULL\<close> or abort.

  \<open>buf_rep b bs\<close> says that \<open>b\<close> is well formed and its \<open>used\<close> bytes are \<open>bs\<close>; the lemmas
  show that every operation is defined on well-formed buffers and state the bytes it leaves.
  \<open>malloc\<close> and \<open>realloc\<close> are taken to succeed (the code asserts it), so sizes are
  unbounded naturals.
\<close>

section \<open>The structure\<close>

record buffer =
  ptr :: "mem option"
  used :: nat
  bsize :: nat

definition block :: "buffer \<Rightarrow> mem" where
  "block b = (case ptr b of None \<Rightarrow> [] | Some m \<Rightarrow> m)"

definition buf_rep :: "buffer \<Rightarrow> char list \<Rightarrow> bool" where
  "buf_rep b bs \<longleftrightarrow>
     length (block b) = bsize b \<and> (ptr b = None \<longleftrightarrow> bsize b = 0) \<and>
     used b = length bs \<and> holds (block b) bs"

lemma block_ptr [simp]: "ptr b = Some m \<Longrightarrow> block b = m"
  by (simp add: block_def)

lemma block_update [simp]: "block (b\<lparr>ptr := p\<rparr>) = (case p of None \<Rightarrow> [] | Some m \<Rightarrow> m)"
  by (simp add: block_def)

lemma block_used [simp]: "block (b\<lparr>used := n\<rparr>) = block b"
  by (simp add: block_def)

lemma block_bsize [simp]: "block (b\<lparr>bsize := n\<rparr>) = block b"
  by (simp add: block_def)

lemma buf_rep_used: "buf_rep b bs \<Longrightarrow> used b = length bs"
  by (simp add: buf_rep_def)

lemma buf_rep_length: "buf_rep b bs \<Longrightarrow> length bs \<le> bsize b"
  by (auto simp: buf_rep_def holds_def)

lemma buf_rep_unique: "buf_rep b bs \<Longrightarrow> buf_rep b cs \<Longrightarrow> bs = cs"
  by (auto simp: buf_rep_def holds_def intro: map_injective)

text \<open>The usual result of an operation: return value 0 and a buffer that holds \<open>bs\<close>.\<close>

definition ok_rep :: "char list \<Rightarrow> int \<times> buffer option \<Rightarrow> bool" where
  "ok_rep bs r \<longleftrightarrow> fst r = 0 \<and> (\<exists>b. snd r = Some b \<and> buf_rep b bs)"

lemma ok_rep_pair [simp]: "ok_rep bs (r, bp) \<longleftrightarrow> r = 0 \<and> (\<exists>b. bp = Some b \<and> buf_rep b bs)"
  by (simp add: ok_rep_def)

section \<open>Creation, reset, growth\<close>

definition BUFFER_MAX_REUSE_SIZE :: nat where
  "BUFFER_MAX_REUSE_SIZE = 4 * 1024"

definition BUFFER_PIECE_SIZE :: nat where
  "BUFFER_PIECE_SIZE = 64"

definition buffer_init :: buffer where
  "buffer_init = \<lparr>ptr = None, used = 0, bsize = 0\<rparr>"

definition buffer_reset :: "buffer option \<Rightarrow> buffer option" where
  "buffer_reset bp = (case bp of None \<Rightarrow> None | Some b \<Rightarrow>
     let b = (if bsize b > BUFFER_MAX_REUSE_SIZE then b\<lparr>ptr := None, bsize := 0\<rparr> else b)
     in Some (b\<lparr>used := 0\<rparr>))"

definition buffer_prepare_copy :: "buffer option \<Rightarrow> nat \<Rightarrow> (int \<times> buffer option) option" where
  "buffer_prepare_copy bp n = (case bp of None \<Rightarrow> Some (-1, None) | Some b \<Rightarrow>
     let b = (if bsize b = 0 \<or> n > bsize b
              then let sz = n + (BUFFER_PIECE_SIZE - n mod BUFFER_PIECE_SIZE)
                   in b\<lparr>bsize := sz, ptr := Some (malloc sz)\<rparr>
              else b)
     in Some (0, Some (b\<lparr>used := 0\<rparr>)))"

definition buffer_prepare_append :: "buffer option \<Rightarrow> nat \<Rightarrow> (int \<times> buffer option) option" where
  "buffer_prepare_append bp n = (case bp of None \<Rightarrow> Some (-1, None) | Some b \<Rightarrow>
     if bsize b = 0 then
       let sz = n + (BUFFER_PIECE_SIZE - n mod BUFFER_PIECE_SIZE)
       in Some (0, Some (b\<lparr>bsize := sz, ptr := Some (malloc sz), used := 0\<rparr>))
     else if used b + n > bsize b then
       let sz0 = bsize b + n; sz = sz0 + (BUFFER_PIECE_SIZE - sz0 mod BUFFER_PIECE_SIZE)
       in do { m \<leftarrow> ptr b; Some (0, Some (b\<lparr>bsize := sz, ptr := Some (realloc m sz)\<rparr>)) }
     else Some (0, Some b))"

lemma piece_pos [simp]: "n < n + (BUFFER_PIECE_SIZE - n mod BUFFER_PIECE_SIZE)"
  by (simp add: BUFFER_PIECE_SIZE_def)

lemma BUFFER_PIECE_SIZE_pos [simp]: "0 < BUFFER_PIECE_SIZE" "BUFFER_PIECE_SIZE \<noteq> 0"
  by (simp_all add: BUFFER_PIECE_SIZE_def)

lemma piece_neq_0 [simp]: "n + (BUFFER_PIECE_SIZE - n mod BUFFER_PIECE_SIZE) \<noteq> 0"
  using piece_pos[of n] by linarith

lemma buffer_init_rep [simp, intro]: "buf_rep buffer_init []"
  by (simp add: buffer_init_def buf_rep_def block_def)

lemma buffer_reset_rep: "buf_rep b bs \<Longrightarrow> \<exists>b'. buffer_reset (Some b) = Some b' \<and> buf_rep b' []"
  by (auto simp: buffer_reset_def buf_rep_def Let_def)

text \<open>
  Between growing and finishing, \<open>has b bs n\<close> describes the block alone: it starts with
  the bytes \<open>bs\<close> and has room for \<open>n\<close> more; the \<open>used\<close> counter is tracked separately.
\<close>

definition has :: "buffer \<Rightarrow> char list \<Rightarrow> nat \<Rightarrow> bool" where
  "has b bs n \<longleftrightarrow> 0 < bsize b \<and> length bs + n \<le> bsize b \<and>
     (\<exists>m. ptr b = Some m \<and> length m = bsize b \<and> holds m bs)"

lemma has_used [simp]: "has (b\<lparr>used := k\<rparr>) bs n = has b bs n"
  by (simp add: has_def)

lemma has_rep: "has b bs n \<Longrightarrow> used b = length bs \<Longrightarrow> buf_rep b bs"
  by (auto simp: has_def buf_rep_def)

lemma prepare_copy_wp [wp]:
  assumes "buf_rep b bs" and "\<And>b'. used b' = 0 \<Longrightarrow> has b' [] n \<Longrightarrow> Q (0, Some b')"
  shows "valid (buffer_prepare_copy (Some b) n) Q"
proof -
  have "valid (buffer_prepare_copy (Some b) n)
      (\<lambda>r. fst r = 0 \<and> (\<exists>b'. snd r = Some b' \<and> used b' = 0 \<and> has b' [] n))"
    using assms(1)
    by (auto simp: buffer_prepare_copy_def has_def buf_rep_def Let_def BUFFER_PIECE_SIZE_def)
  then show ?thesis by (rule valid_weaken) (use assms(2) in auto)
qed

lemma prepare_append_grow:
  assumes "buf_rep b bs" and "bsize b \<noteq> 0" and "used b + n > bsize b"
  shows "valid (buffer_prepare_append (Some b) n)
      (\<lambda>r. fst r = 0 \<and> (\<exists>b'. snd r = Some b' \<and> used b' = length bs \<and> has b' bs n))"
proof -
  from assms obtain m where m: "ptr b = Some m" "length m = bsize b" "holds m bs"
    by (auto simp: buf_rep_def)
  let ?sz = "bsize b + n + (BUFFER_PIECE_SIZE - (bsize b + n) mod BUFFER_PIECE_SIZE)"
  have sz: "bsize b + n < ?sz" by (rule piece_pos)
  have "buffer_prepare_append (Some b) n =
      Some (0, Some (b\<lparr>bsize := ?sz, ptr := Some (realloc m ?sz)\<rparr>))"
    using assms m by (simp add: buffer_prepare_append_def Let_def)
  moreover have "holds (realloc m ?sz) bs"
    using m sz buf_rep_length[OF assms(1)] by (intro holds_realloc) auto
  ultimately show ?thesis
    using assms sz buf_rep_length[OF assms(1)] by (auto simp: has_def buf_rep_def)
qed

lemma prepare_append_wp [wp]:
  assumes "buf_rep b bs" and "\<And>b'. used b' = length bs \<Longrightarrow> has b' bs n \<Longrightarrow> Q (0, Some b')"
  shows "valid (buffer_prepare_append (Some b) n) Q"
proof -
  have "valid (buffer_prepare_append (Some b) n)
      (\<lambda>r. fst r = 0 \<and> (\<exists>b'. snd r = Some b' \<and> used b' = length bs \<and> has b' bs n))"
  proof (cases "bsize b \<noteq> 0 \<and> used b + n > bsize b")
    case True
    then show ?thesis using assms(1) by (intro prepare_append_grow) auto
  next
    case False
    then show ?thesis using assms(1)
      by (auto simp: buffer_prepare_append_def has_def buf_rep_def holds_def Let_def BUFFER_PIECE_SIZE_def)
  qed
  then show ?thesis by (rule valid_weaken) (use assms(2) in auto)
qed

section \<open>Copying and appending\<close>

text \<open>
  \<open>memcpy\<close> from a caller's bytes: undefined if fewer than \<open>n\<close> are there.
  \<open>put\<close> writes a byte string into the block of a buffer at an offset.
\<close>

definition put :: "buffer \<Rightarrow> nat \<Rightarrow> char list \<Rightarrow> buffer option" where
  "put b off s = do { m \<leftarrow> ptr b; m \<leftarrow> blit m off s; Some (b\<lparr>ptr := Some m\<rparr>) }"

definition buffer_copy_string :: "buffer option \<Rightarrow> char list option \<Rightarrow> (int \<times> buffer option) option" where
  "buffer_copy_string bp s = (case (s, bp) of (Some s, Some _) \<Rightarrow> do {
       let s_len = length s + 1;
       (_, bp) \<leftarrow> buffer_prepare_copy bp s_len;
       b \<leftarrow> bp;
       b \<leftarrow> put b 0 (s @ [NUL]);
       Some (0, Some (b\<lparr>used := s_len\<rparr>)) }
     | _ \<Rightarrow> Some (-1, bp))"

definition buffer_copy_string_len ::
    "buffer option \<Rightarrow> char list option \<Rightarrow> nat \<Rightarrow> (int \<times> buffer option) option" where
  "buffer_copy_string_len bp s s_len = (case (s, bp) of (Some s, Some _) \<Rightarrow> do {
       (_, bp) \<leftarrow> buffer_prepare_copy bp (s_len + 1);
       b \<leftarrow> bp;
       guard (s_len \<le> length s);
       b \<leftarrow> put b 0 (take s_len s);
       b \<leftarrow> put b s_len [NUL];
       Some (0, Some (b\<lparr>used := s_len + 1\<rparr>)) }
     | _ \<Rightarrow> Some (-1, bp))"

text \<open>The first \<open>n\<close> bytes of a buffer's block, as a caller's byte string.\<close>

definition block_bytes :: "buffer \<Rightarrow> nat \<Rightarrow> char list option" where
  "block_bytes b n =
     (if n \<le> length (block b) \<and> None \<notin> set (take n (block b))
      then Some (map the (take n (block b))) else None)"

definition buffer_copy_string_buffer :: "buffer option \<Rightarrow> buffer option \<Rightarrow> (int \<times> buffer option) option" where
  "buffer_copy_string_buffer bp src = (case src of None \<Rightarrow> Some (-1, bp) | Some src \<Rightarrow>
     if used src = 0 then do { b \<leftarrow> bp; Some (0, Some (b\<lparr>used := 0\<rparr>)) }
     else do {
       s \<leftarrow> block_bytes src (used src - 1);
       buffer_copy_string_len bp (Some s) (used src - 1) })"

definition buffer_append_string :: "buffer option \<Rightarrow> char list option \<Rightarrow> (int \<times> buffer option) option" where
  "buffer_append_string bp s = (case (s, bp) of (Some s, Some _) \<Rightarrow> do {
       let s_len = length s;
       (_, bp) \<leftarrow> buffer_prepare_append bp (s_len + 1);
       b \<leftarrow> bp;
       let b = (if used b = 0 then b\<lparr>used := 1\<rparr> else b);
       b \<leftarrow> put b (used b - 1) (s @ [NUL]);
       Some (0, Some (b\<lparr>used := used b + s_len\<rparr>)) }
     | _ \<Rightarrow> Some (-1, bp))"

definition buffer_append_string_rfill ::
    "buffer option \<Rightarrow> char list option \<Rightarrow> nat \<Rightarrow> (int \<times> buffer option) option" where
  "buffer_append_string_rfill bp s maxlen = (case (s, bp) of (Some s, Some _) \<Rightarrow> do {
       let s_len = length s;
       (_, bp) \<leftarrow> buffer_prepare_append bp (maxlen + 1);
       b \<leftarrow> bp;
       let b = (if used b = 0 then b\<lparr>used := 1\<rparr> else b);
       b \<leftarrow> put b (used b - 1) s;
       b \<leftarrow> (if maxlen > s_len
             then put b (used b - 1 + s_len) (replicate (maxlen - s_len) (CHR '' '')) else Some b);
       let b = b\<lparr>used := used b + maxlen\<rparr>;
       b \<leftarrow> put b (used b - 1) [NUL];
       Some (0, Some b) }
     | _ \<Rightarrow> Some (-1, bp))"

definition buffer_append_string_len ::
    "buffer option \<Rightarrow> char list option \<Rightarrow> nat \<Rightarrow> (int \<times> buffer option) option" where
  "buffer_append_string_len bp s s_len = (case (s, bp) of (Some s, Some _) \<Rightarrow>
       if s_len = 0 then Some (0, bp)
       else do {
         (_, bp) \<leftarrow> buffer_prepare_append bp (s_len + 1);
         b \<leftarrow> bp;
         let b = (if used b = 0 then b\<lparr>used := 1\<rparr> else b);
         guard (s_len \<le> length s);
         b \<leftarrow> put b (used b - 1) (take s_len s);
         let b = b\<lparr>used := used b + s_len\<rparr>;
         b \<leftarrow> put b (used b - 1) [NUL];
         Some (0, Some b) }
     | _ \<Rightarrow> Some (-1, bp))"

definition buffer_append_string_buffer :: "buffer option \<Rightarrow> buffer option \<Rightarrow> (int \<times> buffer option) option" where
  "buffer_append_string_buffer bp src = (case src of None \<Rightarrow> Some (-1, bp) | Some src \<Rightarrow>
     if used src = 0 then Some (0, bp)
     else do {
       s \<leftarrow> block_bytes src (used src - 1);
       buffer_append_string_len bp (Some s) (used src - 1) })"

definition buffer_append_memory ::
    "buffer option \<Rightarrow> char list option \<Rightarrow> nat \<Rightarrow> (int \<times> buffer option) option" where
  "buffer_append_memory bp s s_len = (case (s, bp) of (Some s, Some _) \<Rightarrow>
       if s_len = 0 then Some (0, bp)
       else do {
         (_, bp) \<leftarrow> buffer_prepare_append bp s_len;
         b \<leftarrow> bp;
         guard (s_len \<le> length s);
         b \<leftarrow> put b (used b) (take s_len s);
         Some (0, Some (b\<lparr>used := used b + s_len\<rparr>)) }
     | _ \<Rightarrow> Some (-1, bp))"

definition buffer_copy_memory ::
    "buffer option \<Rightarrow> char list option \<Rightarrow> nat \<Rightarrow> (int \<times> buffer option) option" where
  "buffer_copy_memory bp s s_len = (case (s, bp) of (Some s, Some b) \<Rightarrow>
       buffer_append_memory (Some (b\<lparr>used := 0\<rparr>)) (Some s) s_len
     | _ \<Rightarrow> Some (-1, bp))"

definition buffer_init_buffer :: "buffer option \<Rightarrow> buffer option option" where
  "buffer_init_buffer src = do {
     (_, bp) \<leftarrow> buffer_copy_string_buffer (Some buffer_init) src; Some bp }"

definition buffer_init_string :: "char list option \<Rightarrow> buffer option option" where
  "buffer_init_string s = do { (_, bp) \<leftarrow> buffer_copy_string (Some buffer_init) s; Some bp }"

definition buffer_is_empty :: "buffer option \<Rightarrow> bool" where
  "buffer_is_empty bp = (case bp of None \<Rightarrow> True | Some b \<Rightarrow> used b = 0)"

section \<open>What the operations leave in the buffer\<close>

text \<open>
  A string buffer holds a string and its terminating NUL, or nothing at all.
  \<open>terminated\<close> is the value of a buffer after a string was copied into it; \<open>appended\<close>
  is the value after a string was appended: the old terminator is overwritten.
\<close>

definition terminated :: "char list \<Rightarrow> char list" where
  "terminated s = s @ [NUL]"

definition appended :: "char list \<Rightarrow> char list \<Rightarrow> char list" where
  "appended bs s = butlast bs @ s @ [NUL]"

lemma appended_terminated [simp]: "appended (terminated s) t = terminated (s @ t)"
  by (simp add: appended_def terminated_def)

lemma appended_Nil [simp]: "appended [] t = terminated t"
  by (simp add: appended_def terminated_def)

lemma length_terminated [simp]: "length (terminated s) = Suc (length s)"
  by (simp add: terminated_def)

lemma terminated_inj [simp]: "terminated s = terminated t \<longleftrightarrow> s = t"
  by (simp add: terminated_def)

lemma terminated_neq_Nil [simp]: "terminated s \<noteq> []" "[] \<noteq> terminated s"
  by (simp_all add: terminated_def)

lemma butlast_terminated [simp]: "butlast (terminated s) = s"
  by (simp add: terminated_def)

lemma put_wp [wp]:
  assumes "has b bs n" and "off \<le> length bs" and "off + length s \<le> length bs + n"
    and "\<And>b'. used b' = used b \<Longrightarrow> has b' (take off bs @ s) (length bs + n - (off + length s)) \<Longrightarrow> Q b'"
  shows "valid (put b off s) Q"
proof -
  from assms(1) obtain m where m: "ptr b = Some m" "length m = bsize b" "holds m bs"
    by (auto simp: has_def)
  have "valid (blit m off s) (\<lambda>m'. length m' = length m \<and> holds m' (take off bs @ s))"
    using m assms by (intro holds_blit) (auto simp: has_def)
  then obtain m' where "blit m off s = Some m'" "length m' = length m" "holds m' (take off bs @ s)"
    by (auto simp: valid_def)
  moreover from this have "has (b\<lparr>ptr := Some m'\<rparr>) (take off bs @ s) (length bs + n - (off + length s))"
    using m assms(1-3) by (auto simp: has_def)
  ultimately show ?thesis
    using m assms(4)[of "b\<lparr>ptr := Some m'\<rparr>"] by (simp add: put_def)
qed

lemma block_bytes_rep: "buf_rep b bs \<Longrightarrow> n \<le> length bs \<Longrightarrow> block_bytes b n = Some (take n bs)"
proof -
  assume a: "buf_rep b bs" "n \<le> length bs"
  then have "take n (block b) = map Some (take n bs)"
    by (metis buf_rep_def holds_def min.absorb1 take_map take_take)
  with a show ?thesis
    by (auto simp: block_bytes_def buf_rep_def holds_def o_def)
qed

lemma ok_repI: "has b cs n \<Longrightarrow> cs = bs \<Longrightarrow> used b = length bs \<Longrightarrow> ok_rep bs (0, Some b)"
  by (auto intro: has_rep)

lemma copy_string_ok:
  assumes "buf_rep b bs"
  shows "valid (buffer_copy_string (Some b) (Some s)) (ok_rep (terminated s))"
  using assms
  by (auto simp: buffer_copy_string_def valid_bind_iff terminated_def Let_def
      simp del: ok_rep_pair intro!: prepare_copy_wp put_wp ok_repI)

lemma copy_string_len_ok:
  assumes "buf_rep b bs" and "n \<le> length s"
  shows "valid (buffer_copy_string_len (Some b) (Some s) n) (ok_rep (terminated (take n s)))"
  using assms
  by (auto simp: buffer_copy_string_len_def valid_bind_iff terminated_def Let_def
      simp del: ok_rep_pair intro!: prepare_copy_wp put_wp ok_repI)

lemma append_string_ok:
  assumes "buf_rep b bs"
  shows "valid (buffer_append_string (Some b) (Some s)) (ok_rep (appended bs s))"
  using assms
  by (auto simp: buffer_append_string_def valid_bind_iff appended_def butlast_conv_take Let_def
      simp del: ok_rep_pair intro!: prepare_append_wp put_wp ok_repI)

lemma append_string_rfill_ok:
  assumes "buf_rep b bs" and "length s \<le> n"
  shows "valid (buffer_append_string_rfill (Some b) (Some s) n)
           (ok_rep (appended bs (s @ replicate (n - length s) (CHR '' ''))))"
  using assms
  by (auto simp: buffer_append_string_rfill_def valid_bind_iff appended_def butlast_conv_take Let_def
      simp del: ok_rep_pair intro!: prepare_append_wp put_wp ok_repI)

lemma append_string_len_ok:
  assumes "buf_rep b bs" and "n \<le> length s"
  shows "valid (buffer_append_string_len (Some b) (Some s) n)
           (ok_rep (if n = 0 then bs else appended bs (take n s)))"
proof (cases "n = 0")
  case False
  then show ?thesis using assms
    by (auto simp: buffer_append_string_len_def valid_bind_iff appended_def butlast_conv_take Let_def
        simp del: ok_rep_pair intro!: prepare_append_wp put_wp ok_repI)
qed (use assms in \<open>simp add: buffer_append_string_len_def\<close>)

lemma append_memory_ok:
  assumes "buf_rep b bs" and "n \<le> length s"
  shows "valid (buffer_append_memory (Some b) (Some s) n) (ok_rep (bs @ take n s))"
proof (cases "n = 0")
  case False
  then show ?thesis using assms
    by (auto simp: buffer_append_memory_def valid_bind_iff Let_def
        simp del: ok_rep_pair intro!: prepare_append_wp put_wp ok_repI)
qed (use assms in \<open>simp add: buffer_append_memory_def\<close>)

lemma used_0_rep: "buf_rep b bs \<Longrightarrow> buf_rep (b\<lparr>used := 0\<rparr>) []"
  by (simp add: buf_rep_def)

lemma copy_memory_ok:
  assumes "buf_rep b bs" and "n \<le> length s"
  shows "valid (buffer_copy_memory (Some b) (Some s) n) (ok_rep (take n s))"
  using append_memory_ok[OF used_0_rep[OF assms(1)] assms(2)]
  by (simp add: buffer_copy_memory_def)

text \<open>
  A well-formed source buffer is empty or holds a string and its terminator.  Copying and
  appending from one keep exactly its bytes.
\<close>

lemma copy_string_buffer_ok:
  assumes "buf_rep b bs" and "buf_rep src (terminated s)"
  shows "valid (buffer_copy_string_buffer (Some b) (Some src)) (ok_rep (terminated s))"
  using copy_string_len_ok[OF assms(1), of "length s" s] block_bytes_rep[OF assms(2), of "length s"]
    buf_rep_used[OF assms(2)]
  by (simp add: buffer_copy_string_buffer_def terminated_def)

lemma copy_string_buffer_empty:
  assumes "buf_rep b bs" and "buf_rep src []"
  shows "valid (buffer_copy_string_buffer (Some b) (Some src)) (ok_rep [])"
  using used_0_rep[OF assms(1)] buf_rep_used[OF assms(2)]
  by (simp add: buffer_copy_string_buffer_def)

lemma append_string_buffer_ok:
  assumes "buf_rep b bs" and "buf_rep src (terminated s)"
  shows "valid (buffer_append_string_buffer (Some b) (Some src))
           (ok_rep (if s = [] then bs else appended bs s))"
  using append_string_len_ok[OF assms(1), of "length s" s] block_bytes_rep[OF assms(2), of "length s"]
    buf_rep_used[OF assms(2)]
  by (auto simp: buffer_append_string_buffer_def terminated_def)

lemma init_string_ok: "valid (buffer_init_string (Some s)) (\<lambda>bp. \<exists>b. bp = Some b \<and> buf_rep b (terminated s))"
  using copy_string_ok[OF buffer_init_rep, of s]
  by (auto simp: buffer_init_string_def valid_bind_iff elim!: valid_weaken)

lemma init_buffer_ok:
  "buf_rep src (terminated s) \<Longrightarrow> valid (buffer_init_buffer (Some src)) (\<lambda>bp. \<exists>b. bp = Some b \<and> buf_rep b (terminated s))"
  using copy_string_buffer_ok[OF buffer_init_rep, of src s]
  by (auto simp: buffer_init_buffer_def valid_bind_iff elim!: valid_weaken)

lemma is_empty_rep: "buf_rep b bs \<Longrightarrow> buffer_is_empty (Some b) \<longleftrightarrow> bs = []"
  by (simp add: buffer_is_empty_def buf_rep_used)

section \<open>The interface\<close>

text \<open>
  What the rest of the server relies on: a representation \<open>rep\<close> of byte strings with a
  fresh value, a copy and an append.  Any sequence of appends is then defined and leaves
  the concatenation of the pieces, whatever the growth of the block underneath.
\<close>

locale string_buffer =
  fixes rep :: "'b \<Rightarrow> char list \<Rightarrow> bool"
    and fresh :: 'b
    and copy :: "'b option \<Rightarrow> char list option \<Rightarrow> (int \<times> 'b option) option"
    and append :: "'b option \<Rightarrow> char list option \<Rightarrow> (int \<times> 'b option) option"
  assumes fresh_rep: "rep fresh []"
    and copy_rep: "rep b bs \<Longrightarrow>
      valid (copy (Some b) (Some s)) (\<lambda>(r, bp). r = 0 \<and> (\<exists>b'. bp = Some b' \<and> rep b' (terminated s)))"
    and append_rep: "rep b bs \<Longrightarrow>
      valid (append (Some b) (Some s)) (\<lambda>(r, bp). r = 0 \<and> (\<exists>b'. bp = Some b' \<and> rep b' (appended bs s)))"
begin

fun appends :: "'b option \<Rightarrow> char list list \<Rightarrow> 'b option option" where
  "appends bp [] = Some bp"
| "appends bp (s # ss) = do { (_, bp) \<leftarrow> append bp (Some s); appends bp ss }"

lemma appends_rep:
  "rep b (terminated t) \<Longrightarrow>
   valid (appends (Some b) ss) (\<lambda>bp. \<exists>b'. bp = Some b' \<and> rep b' (terminated (t @ concat ss)))"
proof (induction ss arbitrary: b t)
  case (Cons s ss)
  have "valid (append (Some b) (Some s))
      (\<lambda>(r, bp). r = 0 \<and> (\<exists>b'. bp = Some b' \<and> rep b' (terminated (t @ s))))"
    using append_rep[OF Cons.prems, of s] by simp
  then show ?case
    by (auto simp: valid_bind_iff dest: Cons.IH elim!: valid_weaken)
qed simp

lemma copy_appends_rep:
  assumes "rep b bs"
  shows "valid (do { (_, bp) \<leftarrow> copy (Some b) (Some s); appends bp ss })
           (\<lambda>bp. \<exists>b'. bp = Some b' \<and> rep b' (terminated (s @ concat ss)))"
  using copy_rep[OF assms, of s]
  by (auto simp: valid_bind_iff dest: appends_rep elim!: valid_weaken)

end

interpretation buf: string_buffer buf_rep buffer_init buffer_copy_string buffer_append_string
proof unfold_locales
  show "buf_rep buffer_init []" by simp
next
  fix b bs s assume "buf_rep b bs"
  then show "valid (buffer_copy_string (Some b) (Some s))
      (\<lambda>(r, bp). r = 0 \<and> (\<exists>b'. bp = Some b' \<and> buf_rep b' (terminated s)))"
    using copy_string_ok[of b bs s] by (auto elim!: valid_weaken)
next
  fix b bs s assume "buf_rep b bs"
  then show "valid (buffer_append_string (Some b) (Some s))
      (\<lambda>(r, bp). r = 0 \<and> (\<exists>b'. bp = Some b' \<and> buf_rep b' (appended bs s)))"
    using append_string_ok[of b bs s] by (auto elim!: valid_weaken)
qed

end
