(* ===== verification/CharClass.thy ===== *)
theory CharClass
  imports Prelude "HOL-Library.List_Lexorder"
begin

text \<open>
  The byte classifications of \<open>buffer.c\<close> (\<open>light_isdigit\<close> and its kin, \<open>int2hex\<close>,
  \<open>hex2int\<close>) and the case-insensitive comparison \<open>buffer_caseless_compare\<close>, with its
  word-at-a-time fast path.  A (pointer, length) argument pair is the list of its bytes.
\<close>

section \<open>Classification\<close>

text \<open>The arguments are C \<open>int\<close>s; callers pass a (sign-extended) \<open>char\<close>.\<close>

definition light_isdigit :: "int \<Rightarrow> bool" where
  "light_isdigit c \<longleftrightarrow> c \<ge> 48 \<and> c \<le> 57"

definition light_isxdigit :: "int \<Rightarrow> bool" where
  "light_isxdigit c \<longleftrightarrow> (if light_isdigit c then True else let c = c OR 32 in c \<ge> 97 \<and> c \<le> 102)"

definition light_isalpha :: "int \<Rightarrow> bool" where
  "light_isalpha c \<longleftrightarrow> (let c = c OR 32 in c \<ge> 97 \<and> c \<le> 122)"

definition light_isalnum :: "int \<Rightarrow> bool" where
  "light_isalnum c \<longleftrightarrow> light_isdigit c \<or> light_isalpha c"

definition upper_letters :: "char list" where
  "upper_letters = ''ABCDEFGHIJKLMNOPQRSTUVWXYZ''"

definition lower_letters :: "char list" where
  "lower_letters = ''abcdefghijklmnopqrstuvwxyz''"

definition digit_chars :: "char list" where
  "digit_chars = ''0123456789''"

lemmas char_eval = uchar_def schar_def light_isdigit_def light_isxdigit_def light_isalpha_def
  light_isalnum_def upper_letters_def lower_letters_def digit_chars_def Let_def

lemma light_classes:
  "\<forall>c. (light_isdigit (schar c) \<longleftrightarrow> c \<in> set digit_chars) \<and>
       (light_isxdigit (schar c) \<longleftrightarrow> c \<in> set (digit_chars @ ''abcdefABCDEF'')) \<and>
       (light_isalpha (schar c) \<longleftrightarrow> c \<in> set (upper_letters @ lower_letters))"
  by (simp only: char_cases) (simp add: char_eval)

lemma light_isdigit_char: "light_isdigit (schar c) \<longleftrightarrow> c \<in> set digit_chars"
  and light_isxdigit_char: "light_isxdigit (schar c) \<longleftrightarrow> c \<in> set (digit_chars @ ''abcdefABCDEF'')"
  and light_isalpha_char: "light_isalpha (schar c) \<longleftrightarrow> c \<in> set (upper_letters @ lower_letters)"
  using light_classes by blast+

lemma light_isalnum_char:
  "light_isalnum (schar c) \<longleftrightarrow> c \<in> set (digit_chars @ upper_letters @ lower_letters)"
  by (simp add: light_isalnum_def light_isdigit_char light_isalpha_char)

section \<open>Hexadecimal digits\<close>

definition hex_chars :: "char list" where
  "hex_chars = ''0123456789abcdef''"

definition int2hex :: "char \<Rightarrow> char" where
  "int2hex c = hex_chars ! (uchar c mod 16)"

text \<open>\<open>hex2int\<close> works on \<open>unsigned char\<close>; its result 0xFF marks an invalid digit.\<close>

definition hex2int :: "8 word \<Rightarrow> 8 word" where
  "hex2int hex =
     (let hex = hex - 48;
          hex = (if hex > 9 then let hex = (hex + 48 - 1) OR 0x20 in hex - 97 + 11 else hex)
      in if hex > 15 then 0xFF else hex)"

definition byte_of :: "char \<Rightarrow> 8 word" where
  "byte_of c = word_of_nat (uchar c)"

definition char_of_byte :: "8 word \<Rightarrow> char" where
  "char_of_byte w = char_of (unat w)"

lemma char_of_byte_of [simp]: "char_of_byte (byte_of c) = c"
  by (simp add: char_of_byte_def byte_of_def uchar_def unsigned_of_nat take_bit_nat_def)

lemma byte_of_char_of [simp]: "byte_of (char_of_byte w) = w"
proof -
  have "unat w < 2 ^ LENGTH(8)" by (rule unsigned_less)
  then show ?thesis by (simp add: char_of_byte_def byte_of_def uchar_def)
qed

definition digit_value :: "char \<Rightarrow> nat option" where
  "digit_value c =
     (if c \<in> set digit_chars then Some (uchar c - 48)
      else if c \<in> set ''ABCDEF'' then Some (uchar c - 55)
      else if c \<in> set ''abcdef'' then Some (uchar c - 87) else None)"

lemma hex2int_spec:
  "\<forall>c. hex2int (byte_of c) = (case digit_value c of None \<Rightarrow> 0xFF | Some n \<Rightarrow> word_of_nat n)"
  by (simp only: char_cases) (simp add: char_eval hex2int_def byte_of_def digit_value_def)

lemma hex2int_char: "hex2int (byte_of c) = (case digit_value c of None \<Rightarrow> 0xFF | Some n \<Rightarrow> word_of_nat n)"
  using hex2int_spec by blast

section \<open>Case-insensitive comparison\<close>

definition is_upper :: "char \<Rightarrow> bool" where
  "is_upper c \<longleftrightarrow> schar c \<ge> 65 \<and> schar c \<le> 90"

definition is_lower :: "char \<Rightarrow> bool" where
  "is_lower c \<longleftrightarrow> schar c \<ge> 97 \<and> schar c \<le> 122"

definition set_bit5 :: "char \<Rightarrow> char" where
  "set_bit5 c = char_of (uchar c OR 32)"

definition clear_bit5 :: "char \<Rightarrow> char" where
  "clear_bit5 c = char_of (uchar c AND 223)"

text \<open>The body of the byte loop for two different bytes: the difference it tests.\<close>

definition caseless_diff :: "char \<Rightarrow> char \<Rightarrow> int" where
  "caseless_diff a1 b1 =
     (if is_upper a1 \<and> is_lower b1 then schar (set_bit5 a1) - schar b1
      else if is_lower a1 \<and> is_upper b1 then schar a1 - schar (set_bit5 b1)
      else schar a1 - schar b1)"

text \<open>
  The fast path compares 8-byte words while both pointers are aligned; it returns the
  index of the first word that differs, or \<open>max_ndx\<close>.
\<close>

function word_skip :: "char list \<Rightarrow> char list \<Rightarrow> nat \<Rightarrow> nat \<Rightarrow> nat" where
  "word_skip a b ndx max_ndx =
     (if ndx < max_ndx
      then if take 8 (drop ndx a) \<noteq> take 8 (drop ndx b) then ndx
           else word_skip a b (ndx + 8) max_ndx
      else ndx)"
  by pat_completeness auto
termination
  by (relation "measure (\<lambda>(a, b, ndx, max_ndx). max_ndx - ndx)") auto

declare word_skip.simps [simp del]

function caseless_loop :: "char list \<Rightarrow> char list \<Rightarrow> nat \<Rightarrow> nat \<Rightarrow> int option" where
  "caseless_loop a b ndx max_ndx =
     (if ndx < max_ndx
      then let a1 = a ! ndx; b1 = b ! ndx in
           if a1 \<noteq> b1 \<and> caseless_diff a1 b1 \<noteq> 0 then Some (caseless_diff a1 b1)
           else caseless_loop a b (ndx + 1) max_ndx
      else None)"
  by pat_completeness auto
termination
  by (relation "measure (\<lambda>(a, b, ndx, max_ndx). max_ndx - ndx)") auto

declare caseless_loop.simps [simp del]

definition buffer_caseless_compare :: "bool \<Rightarrow> char list \<Rightarrow> char list \<Rightarrow> int" where
  "buffer_caseless_compare aligned a b =
     (let a_len = length a; b_len = length b;
          max_ndx = (if a_len < b_len then a_len else b_len);
          ndx = (if aligned then word_skip a b 0 (max_ndx - max_ndx mod 8) else 0)
      in case caseless_loop a b ndx max_ndx of
           Some d \<Rightarrow> d
         | None \<Rightarrow> if a_len = b_len then 0 else to_int32 (int a_len - int b_len))"

subsection \<open>The reference comparison\<close>

fun ccmp :: "char list \<Rightarrow> char list \<Rightarrow> int option" where
  "ccmp (a # as) (b # bs) = (if caseless_diff a b \<noteq> 0 then Some (caseless_diff a b) else ccmp as bs)"
| "ccmp _ _ = None"

lemma caseless_diff_same [simp]: "caseless_diff a a = 0"
  by (auto simp: caseless_diff_def is_upper_def is_lower_def)

lemma caseless_loop_eq: "caseless_loop a b ndx (min (length a) (length b)) = ccmp (drop ndx a) (drop ndx b)"
proof (induction "min (length a) (length b) - ndx" arbitrary: ndx)
  case 0
  then have "drop ndx a = [] \<or> drop ndx b = []" by auto
  with 0 show ?case by (auto simp: caseless_loop.simps)
next
  case (Suc n)
  then have lt: "ndx < length a" "ndx < length b" by auto
  then have d: "drop ndx a = a ! ndx # drop (Suc ndx) a" "drop ndx b = b ! ndx # drop (Suc ndx) b"
    by (simp_all add: Cons_nth_drop_Suc)
  have "caseless_loop a b (Suc ndx) (min (length a) (length b)) = ccmp (drop (Suc ndx) a) (drop (Suc ndx) b)"
    using Suc by simp
  with lt show ?case unfolding d
    by (subst caseless_loop.simps) (auto simp: Let_def)
qed

lemma word_skip_prefix:
  "take ndx a = take ndx b \<Longrightarrow> take (word_skip a b ndx m) a = take (word_skip a b ndx m) b"
proof (induction "m - ndx" arbitrary: ndx rule: less_induct)
  case less
  show ?case
  proof (cases "ndx < m \<and> take 8 (drop ndx a) = take 8 (drop ndx b)")
    case True
    then have "take (ndx + 8) a = take (ndx + 8) b"
      using less.prems by (simp add: take_add)
    with True less.hyps[of "ndx + 8"] show ?thesis
      by (subst word_skip.simps, subst (2) word_skip.simps) auto
  next
    case False
    with less.prems show ?thesis
      by (subst word_skip.simps, subst (2) word_skip.simps) auto
  qed
qed

lemma ccmp_same_prefix: "take n a = take n b \<Longrightarrow> ccmp (drop n a) (drop n b) = ccmp a b"
proof (induction a b arbitrary: n rule: ccmp.induct)
  case (1 x as y bs)
  then show ?case by (cases n) auto
qed (auto simp: take_eq_Nil drop_Nil)

lemma caseless_compare_eq:
  "buffer_caseless_compare aligned a b =
     (case ccmp a b of Some d \<Rightarrow> d | None \<Rightarrow> to_int32 (int (length a) - int (length b)))"
proof -
  have m: "(if length a < length b then length a else length b) = min (length a) (length b)" by simp
  have z: "to_int32 0 = 0" by (simp add: to_int32_id)
  have "ccmp (drop (word_skip a b 0 k) a) (drop (word_skip a b 0 k) b) = ccmp a b" for k
    by (intro ccmp_same_prefix word_skip_prefix) simp
  then show ?thesis
    by (auto simp: buffer_caseless_compare_def Let_def m caseless_loop_eq z
        simp del: min_less_iff_conj split: option.splits)
qed

text \<open>Zero exactly when the strings agree up to the case of ASCII letters.\<close>

definition to_lower_char :: "char \<Rightarrow> char" where
  "to_lower_char c = (if is_upper c then set_bit5 c else c)"

lemma to_lower_char_table:
  "\<forall>c. to_lower_char c =
     (if c \<in> set upper_letters then lower_letters ! (uchar c - 65) else c)"
  by (simp only: char_cases) (simp add: char_eval to_lower_char_def is_upper_def set_bit5_def char_of_def bit_0)

lemma bit5_facts:
  "\<forall>c. (is_upper c \<longrightarrow> schar (set_bit5 c) = schar c + 32) \<and> (is_lower c \<longrightarrow> \<not> is_upper c)"
  by (simp only: char_cases) (simp add: char_eval is_upper_def is_lower_def set_bit5_def)

lemma schar_set_bit5: "is_upper c \<Longrightarrow> schar (set_bit5 c) = schar c + 32"
  using bit5_facts by blast

lemma schar_to_lower: "schar (to_lower_char c) = (if is_upper c then schar c + 32 else schar c)"
  by (simp add: to_lower_char_def schar_set_bit5)

lemma caseless_diff_0: "caseless_diff a b = 0 \<longleftrightarrow> to_lower_char a = to_lower_char b"
proof -
  have "caseless_diff a b = 0 \<longleftrightarrow> schar (to_lower_char a) = schar (to_lower_char b)"
    by (auto simp: caseless_diff_def schar_to_lower schar_set_bit5 is_upper_def is_lower_def)
  then show ?thesis by simp
qed

lemma ccmp_None: "ccmp a b = None \<longleftrightarrow>
    map to_lower_char (take (length b) a) = map to_lower_char (take (length a) b)"
  by (induction a b rule: ccmp.induct) (auto simp: caseless_diff_0)

lemma ccmp_Some_neq_0: "ccmp a b = Some d \<Longrightarrow> d \<noteq> 0"
  by (induction a b rule: ccmp.induct) (auto split: if_splits)

lemma caseless_compare_0:
  assumes "length a < 2 ^ 31" and "length b < 2 ^ 31"
  shows "buffer_caseless_compare aligned a b = 0 \<longleftrightarrow> map to_lower_char a = map to_lower_char b"
proof (cases "ccmp a b")
  case None
  have len: "to_int32 (int (length a) - int (length b)) = int (length a) - int (length b)"
    using assms by (intro to_int32_id) auto
  have "map to_lower_char a = map to_lower_char b \<longleftrightarrow> length a = length b"
    using None unfolding ccmp_None by (metis length_map order_refl take_all)
  with None show ?thesis by (simp add: caseless_compare_eq len)
next
  case (Some d)
  then have "map to_lower_char a \<noteq> map to_lower_char b"
    by (metis ccmp_None length_map option.distinct(1) order_refl take_all)
  with Some ccmp_Some_neq_0[OF Some] show ?thesis by (simp add: caseless_compare_eq)
qed

subsection \<open>When the comparison is an order\<close>

text \<open>
  The six bytes between \<open>Z\<close> and \<open>a\<close> sort after an upper-case letter and before a
  lower-case one, so on strings that contain them the comparison is not transitive.
  Without them it is the lexicographic order of the lower-case (signed) bytes.
\<close>

definition tame :: "char list \<Rightarrow> bool" where
  "tame s \<longleftrightarrow> list_all (\<lambda>c. \<not> (90 < uchar c \<and> uchar c < 97)) s \<and> length s < 2 ^ 31"

definition fold_key :: "char list \<Rightarrow> int list" where
  "fold_key s = map (\<lambda>c. schar (to_lower_char c)) s"

lemma not_between: "\<not> (90 < uchar a \<and> uchar a < 97) \<Longrightarrow> schar a \<le> 90 \<or> 97 \<le> schar a"
  using uchar_less[of a] by (auto simp: schar_def)

lemma caseless_diff_less:
  assumes "\<not> (90 < uchar a \<and> uchar a < 97)" and "\<not> (90 < uchar b \<and> uchar b < 97)"
  shows "caseless_diff a b < 0 \<longleftrightarrow> schar (to_lower_char a) < schar (to_lower_char b)"
  using not_between[OF assms(1)] not_between[OF assms(2)]
  by (auto simp: caseless_diff_def schar_to_lower schar_set_bit5 is_upper_def is_lower_def)

lemma ccmp_order:
  assumes "list_all (\<lambda>c. \<not> (90 < uchar c \<and> uchar c < 97)) a"
    and "list_all (\<lambda>c. \<not> (90 < uchar c \<and> uchar c < 97)) b"
  shows "(case ccmp a b of Some d \<Rightarrow> d | None \<Rightarrow> int (length a) - int (length b)) < 0
           \<longleftrightarrow> fold_key a < fold_key b"
  using assms
proof (induction a b rule: list_induct2')
  case (4 a as b bs)
  have less: "caseless_diff a b < 0 \<longleftrightarrow> schar (to_lower_char a) < schar (to_lower_char b)"
    using 4 by (intro caseless_diff_less) auto
  show ?case
  proof (cases "caseless_diff a b = 0")
    case True
    with 4 show ?thesis by (auto simp: fold_key_def caseless_diff_0 split: option.splits)
  next
    case False
    then have "schar (to_lower_char a) \<noteq> schar (to_lower_char b)" by (simp add: caseless_diff_0)
    with False less show ?thesis by (auto simp: fold_key_def)
  qed
qed (auto simp: fold_key_def)

lemma caseless_compare_less:
  assumes "tame a" and "tame b"
  shows "buffer_caseless_compare aligned a b < 0 \<longleftrightarrow> fold_key a < fold_key b"
proof -
  have "to_int32 (int (length a) - int (length b)) = int (length a) - int (length b)"
    using assms by (intro to_int32_id) (auto simp: tame_def)
  then show ?thesis
    using ccmp_order[of a b] assms
    by (cases "ccmp a b") (simp_all add: caseless_compare_eq tame_def del: not_less)
qed

lemma fold_key_eq: "fold_key a = fold_key b \<longleftrightarrow> map to_lower_char a = map to_lower_char b"
proof -
  have "fold_key s = map schar (map to_lower_char s)" for s by (simp add: fold_key_def)
  moreover have "inj schar" by (rule injI) simp
  ultimately show ?thesis by (metis inj_map_eq_map)
qed

lemma caseless_compare_equal:
  "tame a \<Longrightarrow> tame b \<Longrightarrow> buffer_caseless_compare aligned a b = 0 \<longleftrightarrow> fold_key a = fold_key b"
  by (simp add: caseless_compare_0 tame_def fold_key_eq)

text \<open>\<open>Z_\<close>, \<open>ZA\<close> and \<open>Za\<close>: the second and third are equal, yet the first lies between.\<close>

lemma caseless_compare_not_an_order:
  "buffer_caseless_compare al ''Z_'' ''ZA'' > 0 \<and>
   buffer_caseless_compare al ''ZA'' ''Za'' = 0 \<and>
   buffer_caseless_compare al ''Z_'' ''Za'' < 0"
  by (simp add: caseless_compare_eq caseless_diff_def char_eval is_upper_def is_lower_def
      set_bit5_def to_int32_id)

section \<open>Properties\<close>

text \<open>
  C6: the word-at-a-time comparison gives the same result as the byte loop, whatever the
  alignment of the two pointers.
\<close>

theorem caseless_compare_alignment:
  "buffer_caseless_compare True a b = buffer_caseless_compare False a b"
  by (simp add: caseless_compare_eq)

text \<open>
  C5: on strings without the bytes between \<open>Z\<close> and \<open>a\<close> the comparison is the lexicographic
  order of the lower-case strings, so binary search over such keys is sound.
\<close>

theorem caseless_compare_order:
  assumes "tame a" and "tame b"
  shows "(buffer_caseless_compare al a b < 0 \<longleftrightarrow> fold_key a < fold_key b) \<and>
         (buffer_caseless_compare al a b = 0 \<longleftrightarrow> map to_lower_char a = map to_lower_char b)"
  using caseless_compare_less[OF assms] caseless_compare_equal[OF assms] by (simp add: fold_key_eq)

lemma caseless_compare_order_witness:
  "(buffer_caseless_compare True ''Host'' ''hosts'' < 0 \<longleftrightarrow> fold_key ''Host'' < fold_key ''hosts'') \<and>
   (buffer_caseless_compare True ''Host'' ''hosts'' = 0 \<longleftrightarrow> map to_lower_char ''Host'' = map to_lower_char ''hosts'')"
  by (rule caseless_compare_order) (simp_all add: tame_def uchar_def)

end
