(* ===== verification/Numbers.thy ===== *)
theory Numbers
  imports Buffer CharClass
begin

text \<open>
  Numbers in text: \<open>LI_ltostr\<close> and the decimal and hexadecimal appends of \<open>buffer.c\<close>,
  and the value a digit string denotes.  A \<open>long\<close> (and an \<open>off_t\<close>) has 64 bits; negating
  its least value is signed overflow, so \<open>LI_ltostr\<close> is undefined there.
\<close>

section \<open>Decimal output\<close>

definition digit_char :: "int \<Rightarrow> char" where
  "digit_char d = char_of (nat (48 + d))"

text \<open>The first loop writes the digits least significant first, the second reverses them.\<close>

function ltostr_digits :: "int \<Rightarrow> char list \<Rightarrow> char list" where
  "ltostr_digits val buf =
     (if val > 9 then ltostr_digits (val div 10) (buf @ [digit_char (val mod 10)])
      else buf @ [digit_char val])"
  by pat_completeness auto
termination
  by (relation "measure (\<lambda>(val, buf). nat val)") auto

declare ltostr_digits.simps [simp del]

function ltostr_swap :: "char list \<Rightarrow> nat \<Rightarrow> nat \<Rightarrow> char list" where
  "ltostr_swap xs i j =
     (if i < j then ltostr_swap (xs[j := xs ! i, i := xs ! j]) (i + 1) (j - 1) else xs)"
  by pat_completeness auto
termination
  by (relation "measure (\<lambda>(xs, i, j). j - i)") auto

declare ltostr_swap.simps [simp del]

definition LI_ltostr :: "int \<Rightarrow> (char list \<times> nat) option" where
  "LI_ltostr val = do {
     guard (val \<noteq> - (2 ^ 63));
     let len = (if val < 0 then 2 else 1);
     let sign = (if val < 0 then [CHR ''-''] else []);
     let val = (if val < 0 then - val else val);
     let buf = ltostr_digits val [];
     let len = len + (length buf - 1);
     Some (sign @ ltostr_swap buf 0 (length buf - 1) @ [NUL], len) }"

subsection \<open>The swap loop reverses\<close>

lemma ltostr_swap_rev:
  "ltostr_swap (us @ xs @ vs) (length us) (length us + length xs - 1) = us @ rev xs @ vs"
proof (induction "length xs" arbitrary: us xs vs rule: less_induct)
  case less
  show ?case
  proof (cases "length xs < 2")
    case True
    then have "xs = [] \<or> (\<exists>x. xs = [x])" by (cases xs) auto
    then show ?thesis by (subst ltostr_swap.simps) auto
  next
    case False
    then obtain x ys where xs: "xs = x # ys" and ys: "ys \<noteq> []" by (cases xs) auto
    then obtain zs y where xy: "xs = x # zs @ [y]" by (cases ys rule: rev_cases) auto
    let ?l = "us @ x # zs @ y # vs" and ?i = "length us" and ?j = "length us + Suc (length zs)"
    have nth: "?l ! ?i = x" "?l ! ?j = y"
      by (simp_all add: nth_append)
    have upd: "?l[?j := x, ?i := y] = us @ y # zs @ x # vs"
      by (simp add: list_update_append)
    have "ltostr_swap (us @ xs @ vs) (length us) (length us + length xs - 1) = ltostr_swap ?l ?i ?j"
      by (simp add: xy)
    also have "\<dots> = ltostr_swap (?l[?j := ?l ! ?i, ?i := ?l ! ?j]) (?i + 1) (?j - 1)"
      by (subst ltostr_swap.simps) simp
    also have "\<dots> = ltostr_swap ((us @ [y]) @ zs @ (x # vs)) (length (us @ [y])) (length (us @ [y]) + length zs - 1)"
      unfolding nth upd by simp
    also have "\<dots> = (us @ [y]) @ rev zs @ (x # vs)"
      by (rule less) (simp add: xy)
    finally show ?thesis by (simp add: xy)
  qed
qed

lemma ltostr_swap_all: "ltostr_swap xs 0 (length xs - 1) = rev xs"
  using ltostr_swap_rev[of "[]" xs "[]"] by simp

subsection \<open>The value of a digit string\<close>

fun dec_value :: "nat \<Rightarrow> char list \<Rightarrow> nat" where
  "dec_value acc [] = acc"
| "dec_value acc (c # cs) = dec_value (acc * 10 + (uchar c - 48)) cs"

lemma dec_value_append: "dec_value acc (s @ t) = dec_value (dec_value acc s) t"
  by (induction acc s rule: dec_value.induct) auto

lemma digit_char_facts:
  assumes "0 \<le> d" "d \<le> 9"
  shows "uchar (digit_char d) = nat (48 + d)" and "digit_char d \<in> set digit_chars"
proof -
  show u: "uchar (digit_char d) = nat (48 + d)"
    using assms by (simp add: digit_char_def uchar_def of_char_of)
  with assms have "light_isdigit (schar (digit_char d))"
    by (simp add: schar_def light_isdigit_def)
  then show "digit_char d \<in> set digit_chars" by (simp add: light_isdigit_char)
qed

text \<open>The digits, least significant first, without the buffer.\<close>

function lsd :: "int \<Rightarrow> char list" where
  "lsd v = (if v > 9 then digit_char (v mod 10) # lsd (v div 10) else [digit_char v])"
  by pat_completeness auto
termination
  by (relation "measure nat") auto

declare lsd.simps [simp del]

lemma ltostr_digits_lsd: "ltostr_digits v buf = buf @ lsd v"
  by (induction v buf rule: ltostr_digits.induct)
    (subst ltostr_digits.simps, subst lsd.simps, simp)

lemma lsd_digits: "0 \<le> v \<Longrightarrow> set (lsd v) \<subseteq> set digit_chars"
proof (induction v rule: lsd.induct)
  case (1 v)
  then show ?case
    by (subst lsd.simps) (auto simp: digit_char_facts)
qed

lemma lsd_neq_Nil [simp]: "lsd v \<noteq> []"
  by (subst lsd.simps) simp

lemma lsd_value: "0 \<le> v \<Longrightarrow> dec_value 0 (rev (lsd v)) = nat v"
proof (induction v rule: lsd.induct)
  case (1 v)
  show ?case
  proof (cases "v > 9")
    case True
    with 1 have "dec_value 0 (rev (lsd (v div 10))) = nat (v div 10)" by simp
    moreover have "nat (v div 10) * 10 + nat (v mod 10) = nat v"
      using "1.prems" by (simp add: nat_div_distrib nat_mod_distrib)
    ultimately show ?thesis using True "1.prems" digit_char_facts[of "v mod 10"]
      by (subst lsd.simps) (simp add: dec_value_append nat_add_distrib)
  next
    case False
    with "1.prems" digit_char_facts[of v] show ?thesis
      by (subst lsd.simps) (simp add: nat_add_distrib)
  qed
qed

lemma lsd_length: "0 \<le> v \<Longrightarrow> v < 10 ^ n \<Longrightarrow> 0 < n \<Longrightarrow> length (lsd v) \<le> n"
proof (induction v arbitrary: n rule: lsd.induct)
  case (1 v)
  show ?case
  proof (cases "v > 9")
    case True
    with "1.prems" have "n \<noteq> 1" by auto
    with "1.prems" obtain k where n: "n = Suc k" "0 < k" by (cases n) auto
    with 1 True have "length (lsd (v div 10)) \<le> k" by (intro "1.IH") auto
    with True n show ?thesis by (subst lsd.simps) simp
  next
    case False
    with "1.prems" show ?thesis by (subst lsd.simps) simp
  qed
qed

definition decimal :: "int \<Rightarrow> char list" where
  "decimal v = (if v < 0 then CHR ''-'' # rev (lsd (- v)) else rev (lsd v))"

lemma LI_ltostr_eq:
  assumes "- (2 ^ 63) < v"
  shows "LI_ltostr v = Some (decimal v @ [NUL], length (decimal v))"
proof -
  have "0 < length (lsd u)" for u by simp
  with assms show ?thesis
    by (auto simp: LI_ltostr_def decimal_def ltostr_digits_lsd ltostr_swap_all[unfolded One_nat_def] Let_def Suc_leI
        simp del: lsd_neq_Nil length_greater_0_conv)
qed

lemma decimal_no_NUL: "NUL \<notin> set (decimal v)"
proof -
  have "NUL \<notin> set digit_chars" by (simp add: digit_chars_def)
  then have "0 \<le> u \<Longrightarrow> NUL \<notin> set (lsd u)" for u using lsd_digits[of u] by blast
  then show ?thesis by (auto simp: decimal_def)
qed

lemma decimal_length: "- (2 ^ 63) < v \<Longrightarrow> v < 2 ^ 63 \<Longrightarrow> length (decimal v) \<le> 20"
  using lsd_length[of v 19] lsd_length[of "- v" 19] by (auto simp: decimal_def)

section \<open>Appending numbers to a buffer\<close>

definition buffer_append_long :: "buffer option \<Rightarrow> int \<Rightarrow> (int \<times> buffer option) option" where
  "buffer_append_long bp val = (case bp of None \<Rightarrow> Some (-1, None) | Some _ \<Rightarrow> do {
     (_, bp) \<leftarrow> buffer_prepare_append bp 32;
     b \<leftarrow> bp;
     let b = (if used b = 0 then b\<lparr>used := 1\<rparr> else b);
     (s, len) \<leftarrow> LI_ltostr val;
     b \<leftarrow> put b (used b - 1) s;
     Some (0, Some (b\<lparr>used := used b + len\<rparr>)) })"

definition buffer_copy_long :: "buffer option \<Rightarrow> int \<Rightarrow> (int \<times> buffer option) option" where
  "buffer_copy_long bp val = (case bp of None \<Rightarrow> Some (-1, None) | Some b \<Rightarrow>
     buffer_append_long (Some (b\<lparr>used := 0\<rparr>)) val)"

text \<open>
  \<open>buffer_append_off_t\<close> repeats the digit loops of \<open>LI_ltostr\<close> in place, starting at the
  terminator of the buffer.
\<close>

definition buffer_append_off_t :: "buffer option \<Rightarrow> int \<Rightarrow> (int \<times> buffer option) option" where
  "buffer_append_off_t bp val = (case bp of None \<Rightarrow> Some (-1, None) | Some _ \<Rightarrow> do {
     (_, bp) \<leftarrow> buffer_prepare_append bp 32;
     b \<leftarrow> bp;
     let b = (if used b = 0 then b\<lparr>used := 1\<rparr> else b);
     let start = used b - 1;
     guard (val \<noteq> - (2 ^ 63));
     b \<leftarrow> (if val < 0 then put b start [CHR ''-''] else Some b);
     let len = (if val < 0 then 2 else 1);
     let start = (if val < 0 then start + 1 else start);
     let val = (if val < 0 then - val else val);
     let digits = ltostr_digits val [];
     b \<leftarrow> put b start (ltostr_swap digits 0 (length digits - 1) @ [NUL]);
     let len = len + (length digits - 1);
     Some (0, Some (b\<lparr>used := used b + len\<rparr>)) })"

definition buffer_copy_off_t :: "buffer option \<Rightarrow> int \<Rightarrow> (int \<times> buffer option) option" where
  "buffer_copy_off_t bp val = (case bp of None \<Rightarrow> Some (-1, None) | Some b \<Rightarrow>
     buffer_append_off_t (Some (b\<lparr>used := 0\<rparr>)) val)"

lemma append_long_ok:
  assumes "buf_rep b bs" and "- (2 ^ 63) < v" and "v < 2 ^ 63"
  shows "valid (buffer_append_long (Some b) v) (ok_rep (appended bs (decimal v)))"
  using assms decimal_length[OF assms(2,3)]
  by (auto simp: buffer_append_long_def LI_ltostr_eq valid_bind_iff appended_def butlast_conv_take Let_def
      simp del: ok_rep_pair intro!: prepare_append_wp put_wp ok_repI)

lemma copy_long_ok:
  assumes "buf_rep b bs" and "- (2 ^ 63) < v" and "v < 2 ^ 63"
  shows "valid (buffer_copy_long (Some b) v) (ok_rep (terminated (decimal v)))"
  using append_long_ok[OF used_0_rep[OF assms(1)] assms(2,3)]
  by (simp add: buffer_copy_long_def)

text \<open>Writing the sign and then the digits is writing the signed number.\<close>

lemma put_put: "put b off [c] \<bind> (\<lambda>b. put b (off + 1) s) = put b off (c # s)"
proof (cases "ptr b")
  case (Some m)
  show ?thesis
  proof (cases "off + Suc (length s) \<le> length m")
    case True
    let ?m1 = "take off m @ [Some c] @ drop (Suc off) m"
    have "blit m off [c] = Some ?m1" using True by (simp add: blit_Some)
    moreover have "blit ?m1 (off + 1) s = blit m off (c # s)"
      using True by (simp add: blit_Some min_def add.commute)
    ultimately show ?thesis using Some by (simp add: put_def)
  next
    case False
    then show ?thesis using Some by (cases "off < length m") (simp_all add: put_def blit_def)
  qed
qed (simp add: put_def)

lemma put_put_bind: "put b off [c] \<bind> (\<lambda>b. put b (Suc off) s \<bind> f) = put b off (c # s) \<bind> f"
proof -
  have "(put b off [c] \<bind> (\<lambda>b. put b (off + 1) s)) \<bind> f = put b off (c # s) \<bind> f"
    by (simp only: put_put)
  then show ?thesis by simp
qed

lemma append_off_t_eq: "buffer_append_off_t bp v = buffer_append_long bp v"
proof (cases "v < 0")
  case True
  then show ?thesis
    by (simp add: buffer_append_off_t_def buffer_append_long_def LI_ltostr_def Let_def put_put_bind
        del: bind_guard cong: option.case_cong)
next
  case False
  then show ?thesis
    by (simp add: buffer_append_off_t_def buffer_append_long_def LI_ltostr_def Let_def
        del: bind_guard cong: option.case_cong)
qed

section \<open>Hexadecimal output\<close>

function hex_count :: "nat \<Rightarrow> nat \<Rightarrow> nat" where
  "hex_count copy shift = (if copy \<noteq> 0 then hex_count (drop_bit 4 copy) (shift + 1) else shift)"
  by pat_completeness auto
termination
  by (relation "measure fst") (auto simp: drop_bit_eq_div)

declare hex_count.simps [simp del]

function hex_emit :: "nat \<Rightarrow> nat \<Rightarrow> char list" where
  "hex_emit value shift =
     (if shift > 0 then hex_chars ! (drop_bit (shift - 4) value AND 15) # hex_emit value (shift - 4) else [])"
  by pat_completeness auto
termination
  by (relation "measure snd") auto

declare hex_emit.simps [simp del]

definition buffer_append_long_hex :: "buffer option \<Rightarrow> nat \<Rightarrow> (int \<times> buffer option) option" where
  "buffer_append_long_hex bp value = do {
     let shift = hex_count value 0;
     let shift = (if shift = 0 then shift + 1 else shift);
     let shift = (if odd shift then shift + 1 else shift);
     (_, bp) \<leftarrow> buffer_prepare_append bp (shift + 1);
     b \<leftarrow> bp;
     let b = (if used b = 0 then b\<lparr>used := 1\<rparr> else b);
     let buf = used b - 1;
     let b = b\<lparr>used := used b + shift\<rparr>;
     b \<leftarrow> put b buf (hex_emit value (4 * shift) @ [NUL]);
     Some (0, Some b) }"

text \<open>
  \<open>buffer_copy_string_hex\<close>: two digits per byte, a byte being shifted as a signed \<open>char\<close>.
  The guard is on the \<open>size_t\<close> product, which wraps around.
\<close>

definition byte_hex :: "char \<Rightarrow> char list" where
  "byte_hex c = [hex_chars ! nat (drop_bit 4 (schar c) AND 15), hex_chars ! nat (schar c AND 15)]"

fun copy_hex_loop :: "buffer \<Rightarrow> char list \<Rightarrow> buffer option" where
  "copy_hex_loop b [] = Some b"
| "copy_hex_loop b (c # cs) = do {
     b \<leftarrow> put b (used b) [byte_hex c ! 0];
     let b = b\<lparr>used := used b + 1\<rparr>;
     b \<leftarrow> put b (used b) [byte_hex c ! 1];
     copy_hex_loop (b\<lparr>used := used b + 1\<rparr>) cs }"

definition buffer_copy_string_hex :: "buffer option \<Rightarrow> char list \<Rightarrow> (int \<times> buffer option) option" where
  "buffer_copy_string_hex bp inp =
     (let in_len = length inp in
      if (in_len * 2) mod 2 ^ 64 < in_len then Some (-1, bp)
      else do {
        (_, bp) \<leftarrow> buffer_prepare_copy bp (in_len * 2 + 1);
        b \<leftarrow> bp;
        b \<leftarrow> copy_hex_loop b inp;
        b \<leftarrow> put b (used b) [NUL];
        Some (0, Some (b\<lparr>used := used b + 1\<rparr>)) })"

subsection \<open>The digits denote the value\<close>

fun hex_value :: "nat \<Rightarrow> char list \<Rightarrow> nat" where
  "hex_value acc [] = acc"
| "hex_value acc (c # cs) = hex_value (acc * 16 + the (digit_value c)) cs"

lemma hex_digit_facts:
  "n < 16 \<Longrightarrow> digit_value (hex_chars ! n) = Some n \<and> hex_chars ! n \<noteq> NUL"
proof -
  have "list_all (\<lambda>n. digit_value (hex_chars ! n) = Some n \<and> hex_chars ! n \<noteq> NUL) [0..<16]"
    by (simp add: upt_rec hex_chars_def digit_value_def char_eval)
  then show "n < 16 \<Longrightarrow> ?thesis" by (simp add: list_all_iff)
qed

lemma and_15: "(n :: nat) AND 15 = n mod 16"
  using take_bit_eq_mask[of 4 n] by (simp add: take_bit_eq_mod mask_eq_exp_minus_1)

lemma hex_count_acc: "hex_count v k = k + hex_count v 0"
proof (induction v arbitrary: k rule: less_induct)
  case (less v)
  show ?case
  proof (cases "v = 0")
    case False
    then have "drop_bit 4 v < v" by (simp add: drop_bit_eq_div)
    from less[OF this, of "Suc k"] less[OF this, of "Suc 0"] False show ?thesis
      by (subst (1 2) hex_count.simps) simp
  qed (simp add: hex_count.simps)
qed

lemma hex_count_bound: "v < 16 ^ hex_count v 0"
proof (induction v rule: less_induct)
  case (less v)
  show ?case
  proof (cases "v = 0")
    case False
    then have "drop_bit 4 v < v" by (simp add: drop_bit_eq_div)
    from less[OF this] have "v div 16 < 16 ^ hex_count (v div 16) 0" by (simp add: drop_bit_eq_div)
    moreover have "hex_count v 0 = Suc (hex_count (v div 16) 0)"
      using False hex_count_acc[of "v div 16" 1] by (subst hex_count.simps) (simp add: drop_bit_eq_div)
    ultimately show ?thesis by (simp add: div_less_iff_less_mult mult.commute)
  qed simp
qed

lemma hex_emit_Suc: "hex_emit v (4 * Suc k) = hex_chars ! (v div 16 ^ k mod 16) # hex_emit v (4 * k)"
  by (subst hex_emit.simps) (simp add: and_15 drop_bit_eq_div power_mult)

lemma hex_emit_0 [simp]: "hex_emit v 0 = []"
  by (simp add: hex_emit.simps)

lemma length_hex_emit [simp]: "length (hex_emit v (4 * k)) = k"
  by (induction k) (auto simp: hex_emit_Suc simp del: mult_Suc_right)

lemma hex_emit_value: "hex_value acc (hex_emit v (4 * k)) = acc * 16 ^ k + v mod 16 ^ k"
proof (induction k arbitrary: acc)
  case (Suc k)
  let ?d = "v div 16 ^ k mod 16"
  have m: "v mod (16 ^ k * 16) = v div 16 ^ k mod 16 * 16 ^ k + v mod 16 ^ k"
    using mod_mult2_eq[of v "16 ^ k" 16] by (simp add: mult.commute)
  have "hex_value acc (hex_emit v (4 * Suc k)) = hex_value (acc * 16 + ?d) (hex_emit v (4 * k))"
    using hex_digit_facts[of ?d] by (simp add: hex_emit_Suc del: mult_Suc_right)
  also have "\<dots> = (acc * 16 + ?d) * 16 ^ k + v mod 16 ^ k" by (rule Suc.IH)
  finally show ?case using m by (simp add: algebra_simps)
qed simp

text \<open>The width \<open>buffer_append_long_hex\<close> chooses: even, at least two, and wide enough.\<close>

definition hex_width :: "nat \<Rightarrow> nat" where
  "hex_width v = (let k = max 1 (hex_count v 0) in k + k mod 2)"

lemma hex_width_bound: "v < 16 ^ hex_width v"
proof -
  have "hex_count v 0 \<le> hex_width v" by (simp add: hex_width_def Let_def)
  then have "(16 :: nat) ^ hex_count v 0 \<le> 16 ^ hex_width v" by (rule power_increasing) simp
  with hex_count_bound[of v] show ?thesis by linarith
qed

definition hexadecimal :: "nat \<Rightarrow> char list" where
  "hexadecimal v = hex_emit v (4 * hex_width v)"

lemma hexadecimal_value: "hex_value 0 (hexadecimal v) = v"
  using hex_width_bound[of v] by (simp add: hexadecimal_def hex_emit_value)

lemma append_long_hex_ok:
  assumes "buf_rep b bs"
  shows "valid (buffer_append_long_hex (Some b) v) (ok_rep (appended bs (hexadecimal v)))"
proof -
  let ?k = "hex_count v 0"
  let ?w = "(let s = (if ?k = 0 then ?k + 1 else ?k) in if odd s then s + 1 else s)"
  have w: "?w = hex_width v"
    by (auto simp: hex_width_def Let_def max_def odd_iff_mod_2_eq_one)
  show ?thesis
    unfolding buffer_append_long_hex_def Let_def[of _ "\<lambda>s. let t = if odd s then _ else _ in _"]
    using assms w
    by (auto simp: Let_def valid_bind_iff appended_def hexadecimal_def butlast_conv_take
        simp del: ok_rep_pair intro!: prepare_append_wp put_wp ok_repI)
qed

lemma length_byte_hex [simp]: "length (byte_hex c) = 2"
  by (simp add: byte_hex_def)

lemma copy_hex_loop_ok:
  assumes "has b bs n" and "used b = length bs" and "2 * length cs \<le> n"
  shows "valid (copy_hex_loop b cs) (\<lambda>b'. used b' = length (bs @ concat (map byte_hex cs)) \<and>
           has b' (bs @ concat (map byte_hex cs)) (n - 2 * length cs))"
  using assms
proof (induction cs arbitrary: b bs n)
  case (Cons c cs)
  have h: "[byte_hex c ! 0, byte_hex c ! Suc 0] = byte_hex c"
    by (simp add: byte_hex_def)
  show ?case
    unfolding copy_hex_loop.simps valid_bind_iff Let_def
  proof (rule put_wp[OF Cons.prems(1)])
    show "used b \<le> length bs" "used b + length [byte_hex c ! 0] \<le> length bs + n"
      using Cons.prems by auto
  next
    fix b1
    assume "used b1 = used b"
      and "has b1 (take (used b) bs @ [byte_hex c ! 0]) (length bs + n - (used b + length [byte_hex c ! 0]))"
    then have 1: "used b1 = length bs" "has b1 (bs @ [byte_hex c ! 0]) (n - 1)"
      using Cons.prems by auto
    show "valid (put (b1\<lparr>used := used b1 + 1\<rparr>) (used (b1\<lparr>used := used b1 + 1\<rparr>)) [byte_hex c ! 1])
        (\<lambda>x. valid (copy_hex_loop (x\<lparr>used := used x + 1\<rparr>) cs)
          (\<lambda>b'. used b' = length (bs @ concat (map byte_hex (c # cs))) \<and>
             has b' (bs @ concat (map byte_hex (c # cs))) (n - 2 * length (c # cs))))"
    proof (rule put_wp)
      show "has (b1\<lparr>used := used b1 + 1\<rparr>) (bs @ [byte_hex c ! 0]) (n - 1)" using 1 by simp
    next
      fix b2
      assume "used b2 = used (b1\<lparr>used := used b1 + 1\<rparr>)"
        and "has b2 (take (used (b1\<lparr>used := used b1 + 1\<rparr>)) (bs @ [byte_hex c ! 0]) @ [byte_hex c ! 1])
               (length (bs @ [byte_hex c ! 0]) + (n - 1) - (used (b1\<lparr>used := used b1 + 1\<rparr>) + length [byte_hex c ! 1]))"
      then have 2: "used b2 = Suc (length bs)" "has b2 ((bs @ byte_hex c)) (n - 2)"
        using 1 h Cons.prems by (simp_all add: numeral_2_eq_2)
      then have "valid (copy_hex_loop (b2\<lparr>used := used b2 + 1\<rparr>) cs)
          (\<lambda>b'. used b' = length ((bs @ byte_hex c) @ concat (map byte_hex cs)) \<and>
             has b' ((bs @ byte_hex c) @ concat (map byte_hex cs)) (n - 2 - 2 * length cs))"
        using Cons.prems by (intro Cons.IH) auto
      then show "valid (copy_hex_loop (b2\<lparr>used := used b2 + 1\<rparr>) cs)
          (\<lambda>b'. used b' = length (bs @ concat (map byte_hex (c # cs))) \<and>
             has b' (bs @ concat (map byte_hex (c # cs))) (n - 2 * length (c # cs)))"
        by simp
    qed (use 1 Cons.prems in auto)
  qed
qed (auto)

lemma copy_string_hex_ok:
  assumes "buf_rep b bs" and "2 * length s < 2 ^ 64"
  shows "valid (buffer_copy_string_hex (Some b) s) (ok_rep (terminated (concat (map byte_hex s))))"
proof -
  let ?h = "concat (map byte_hex s)"
  have "valid (buffer_prepare_copy (Some b) (length s * 2 + 1)) (\<lambda>(r, bp). valid (do {
      b \<leftarrow> bp; b \<leftarrow> copy_hex_loop b s; b \<leftarrow> put b (used b) [NUL];
      Some (0, Some (b\<lparr>used := used b + 1\<rparr>)) }) (ok_rep (terminated ?h)))"
  proof (rule prepare_copy_wp[OF assms(1)], simp only: prod.case)
    fix b1 assume b1: "used b1 = 0" "has b1 [] (length s * 2 + 1)"
    have "valid (copy_hex_loop b1 s)
        (\<lambda>b'. used b' = length ([] @ ?h) \<and> has b' ([] @ ?h) (length s * 2 + 1 - 2 * length s))"
      using b1 by (intro copy_hex_loop_ok) auto
    then show "valid (do { b \<leftarrow> Some b1; b \<leftarrow> copy_hex_loop b s; b \<leftarrow> put b (used b) [NUL];
        Some (0, Some (b\<lparr>used := used b + 1\<rparr>)) }) (ok_rep (terminated ?h))"
      unfolding valid_bind_iff valid_Some
    proof (rule valid_weaken)
      fix b2
      assume "used b2 = length ([] @ ?h) \<and> has b2 ([] @ ?h) (length s * 2 + 1 - 2 * length s)"
      then show "valid (put b2 (used b2) [NUL]) (\<lambda>b. ok_rep (terminated ?h) (0, Some (b\<lparr>used := used b + 1\<rparr>)))"
        by (intro put_wp) (auto simp: terminated_def simp del: ok_rep_pair intro!: ok_repI)
    qed
  qed
  then show ?thesis
    using assms(2) by (simp add: buffer_copy_string_hex_def valid_bind_iff case_prod_unfold)
qed

section \<open>Properties\<close>

text \<open>
  C7: a number appended in decimal is an optional minus sign and digits whose value is the
  number, for every \<open>long\<close> but the least, whose negation overflows.
\<close>

theorem append_long_text:
  assumes "buf_rep b bs" and "- (2 ^ 63) < v" and "v < 2 ^ 63"
  shows "valid (buffer_append_long (Some b) v) (\<lambda>(r, bp). r = 0 \<and> (\<exists>b' sign ds. bp = Some b' \<and>
     buf_rep b' (appended bs (sign @ ds)) \<and> sign = (if v < 0 then ''-'' else '''') \<and> ds \<noteq> [] \<and>
     set ds \<subseteq> set digit_chars \<and> int (dec_value 0 ds) = \<bar>v\<bar>))"
proof -
  define ds where "ds = rev (lsd \<bar>v\<bar>)"
  have ds: "ds \<noteq> []" "set ds \<subseteq> set digit_chars" "int (dec_value 0 ds) = \<bar>v\<bar>"
    using lsd_digits[of "\<bar>v\<bar>"] lsd_value[of "\<bar>v\<bar>"] by (simp_all add: ds_def)
  have dec: "decimal v = (if v < 0 then ''-'' else '''') @ ds" by (simp add: decimal_def ds_def)
  obtain b' where "buffer_append_long (Some b) v = Some (0, Some b')" "buf_rep b' (appended bs (decimal v))"
    using append_long_ok[OF assms] by (auto simp: valid_def ok_rep_def)
  with ds dec show ?thesis unfolding valid_def by auto
qed

lemma append_long_text_witness:
  "valid (buffer_append_long (Some buffer_init) (- 42)) (\<lambda>(r, bp). r = 0 \<and> (\<exists>b' sign ds. bp = Some b' \<and>
     buf_rep b' (appended [] (sign @ ds)) \<and> sign = (if - 42 < (0 :: int) then ''-'' else '''') \<and> ds \<noteq> [] \<and>
     set ds \<subseteq> set digit_chars \<and> int (dec_value 0 ds) = \<bar>- 42\<bar>))"
  by (rule append_long_text) simp_all

text \<open>
  The routine for file offsets writes the same bytes as the one for \<open>long\<close>, in the same
  allocation, although it emits the sign separately.
\<close>

theorem append_off_t_equivalent: "buffer_append_off_t bp v = buffer_append_long bp v"
  by (rule append_off_t_eq)

text \<open>
  A number appended in hexadecimal is an even, positive number of digits whose value is
  the number; this is what the chunked transfer coding sends as a chunk's length.
\<close>

theorem append_long_hex_text:
  assumes "buf_rep b bs"
  shows "valid (buffer_append_long_hex (Some b) v) (\<lambda>(r, bp). r = 0 \<and> (\<exists>b' ds. bp = Some b' \<and>
     buf_rep b' (appended bs ds) \<and> ds \<noteq> [] \<and> even (length ds) \<and> hex_value 0 ds = v))"
proof -
  obtain b' where "buffer_append_long_hex (Some b) v = Some (0, Some b')"
    "buf_rep b' (appended bs (hexadecimal v))"
    using append_long_hex_ok[OF assms, of v] by (auto simp: valid_def ok_rep_def)
  moreover have "length (hexadecimal v) = hex_width v" by (simp add: hexadecimal_def)
  moreover have "even (hex_width v)" "hex_width v > 0"
    by (simp_all add: hex_width_def Let_def) presburger
  ultimately show ?thesis using hexadecimal_value[of v] unfolding valid_def by fastforce
qed

lemma append_long_hex_text_witness:
  "valid (buffer_append_long_hex (Some buffer_init) 4096) (\<lambda>(r, bp). r = 0 \<and> (\<exists>b' ds. bp = Some b' \<and>
     buf_rep b' (appended [] ds) \<and> ds \<noteq> [] \<and> even (length ds) \<and> hex_value 0 ds = 4096))"
  by (rule append_long_hex_text) simp

end
