(* ===== verification/BufferText.thy ===== *)
theory BufferText
  imports Numbers
begin

text \<open>
  The read-only and in-place text operations of \<open>buffer.c\<close>: search, equality, suffix
  comparison, case conversion, and the \<open>buffer_array\<close> pool.
\<close>

section \<open>Search and equality\<close>

text \<open>\<open>memcmp\<close> against \<open>len\<close> bytes at an offset of a block.\<close>

definition bytes_at :: "mem \<Rightarrow> nat \<Rightarrow> nat \<Rightarrow> char list option" where
  "bytes_at m off n =
     (if off + n \<le> length m \<and> None \<notin> set (take n (drop off m))
      then Some (map the (take n (drop off m))) else None)"

function search_loop :: "mem \<Rightarrow> char list \<Rightarrow> nat \<Rightarrow> nat \<Rightarrow> nat option option" where
  "search_loop m needle i lim =
     (if i < lim then do {
        s \<leftarrow> bytes_at m i (length needle);
        if s = needle then Some (Some i) else search_loop m needle (i + 1) lim }
      else Some None)"
  by pat_completeness auto
termination
  by (relation "measure (\<lambda>(m, needle, i, lim). lim - i)") auto

declare search_loop.simps [simp del]

text \<open>The result is the offset of the match in the block; \<open>None\<close> inside is \<open>NULL\<close>.\<close>

definition buffer_search_string_len :: "buffer \<Rightarrow> char list option \<Rightarrow> nat \<Rightarrow> nat option option" where
  "buffer_search_string_len b needle len =
     (if len = 0 then Some None else case needle of None \<Rightarrow> Some None | Some needle \<Rightarrow>
        if used b < len then Some None
        else do { guard (len \<le> length needle); search_loop (block b) (take len needle) 0 (used b - len) })"

definition buffer_is_equal :: "buffer \<Rightarrow> buffer \<Rightarrow> bool option" where
  "buffer_is_equal a b =
     (if used a \<noteq> used b then Some False
      else if used a = 0 then Some True
      else do { s \<leftarrow> mem_str (block a); t \<leftarrow> mem_str (block b); Some (s = t) })"

text \<open>The stack buffer of \<open>buffer_is_equal_string\<close> points at the caller's C string.\<close>

definition buffer_is_equal_string :: "buffer \<Rightarrow> char list \<Rightarrow> nat \<Rightarrow> bool option" where
  "buffer_is_equal_string a s b_len =
     buffer_is_equal a \<lparr>ptr = Some (map Some (s @ [NUL])), used = b_len + 1, bsize = 0\<rparr>"

text \<open>\<open>strncmp\<close> for equality, from signed offsets into two blocks.\<close>

definition rd_int :: "mem \<Rightarrow> int \<Rightarrow> char option" where
  "rd_int m i = (if 0 \<le> i then rd m (nat i) else None)"

fun strncmp_eq :: "mem \<Rightarrow> int \<Rightarrow> mem \<Rightarrow> int \<Rightarrow> nat \<Rightarrow> bool option" where
  "strncmp_eq m i m' j 0 = Some True"
| "strncmp_eq m i m' j (Suc n) = do {
     c \<leftarrow> rd_int m i; d \<leftarrow> rd_int m' j;
     if c \<noteq> d then Some False
     else if c = NUL then Some True
     else strncmp_eq m (i + 1) m' (j + 1) n }"

definition buffer_is_equal_right_len :: "buffer \<Rightarrow> buffer \<Rightarrow> nat \<Rightarrow> bool option" where
  "buffer_is_equal_right_len b1 b2 len =
     (if len = 0 then Some True
      else if used b1 = 0 \<or> used b2 = 0 then Some False
      else if used b1 - 1 < len \<or> used b1 - 1 < len then Some False
      else strncmp_eq (block b1) (int (used b1) - 1 - int len)
                      (block b2) (int (used b2) - 1 - int len) len)"

lemma holds_bytes_at:
  assumes "holds m bs" and "off + n \<le> length bs"
  shows "bytes_at m off n = Some (take n (drop off bs))"
proof -
  have "take n (drop off m) = drop off (take (off + n) (take (length bs) m))"
    using assms by (simp add: drop_take min_def)
  also have "\<dots> = map Some (take n (drop off bs))"
    using assms by (simp add: holds_def drop_take take_map drop_map)
  finally show ?thesis using assms by (auto simp: bytes_at_def holds_def o_def)
qed

lemma search_loop_eq:
  assumes "holds m bs" and "lim + length needle \<le> length bs"
  shows "search_loop m needle i lim =
    Some (find (\<lambda>j. take (length needle) (drop j bs) = needle) [i..<lim])"
proof (induction "lim - i" arbitrary: i)
  case 0
  then show ?case by (subst search_loop.simps) simp
next
  case (Suc k)
  then have "i < lim" "search_loop m needle (i + 1) lim =
      Some (find (\<lambda>j. take (length needle) (drop j bs) = needle) [i + 1..<lim])" by auto
  with assms show ?case
    by (subst search_loop.simps) (simp add: holds_bytes_at upt_conv_Cons)
qed

lemma is_equal_ok:
  assumes "buf_rep a (terminated s)" and "buf_rep b (terminated t)"
    and "NUL \<notin> set s" and "NUL \<notin> set t"
  shows "buffer_is_equal a b = Some (s = t)"
proof -
  have "mem_str (block a) = Some s" "mem_str (block b) = Some t"
    using assms holds_mem_str[of "block a" "terminated s"] holds_mem_str[of "block b" "terminated t"]
    by (auto simp: buf_rep_def terminated_def)
  then show ?thesis
    using assms by (auto simp: buffer_is_equal_def buf_rep_used)
qed

lemma is_equal_string_ok:
  assumes "buf_rep a (terminated s)" and "NUL \<notin> set s" and "NUL \<notin> set t"
  shows "buffer_is_equal_string a t (length t) = Some (s = t)"
proof -
  have "mem_str (block a) = Some s"
    using assms holds_mem_str[of "block a" "terminated s"] by (auto simp: buf_rep_def terminated_def)
  moreover have "mem_str (map Some (t @ [NUL])) = Some t"
    using mem_str_bytes[of "t @ [NUL]" "[]"] assms(3) by simp
  ultimately show ?thesis
    using assms by (auto simp: buffer_is_equal_string_def buffer_is_equal_def buf_rep_used)
qed

lemma search_string_ok:
  assumes "buf_rep b (terminated s)" and "0 < length needle"
  shows "buffer_search_string_len b (Some needle) (length needle) =
    Some (if length s + 1 < length needle then None
          else find (\<lambda>j. take (length needle) (drop j (terminated s)) = needle) [0..<length s + 1 - length needle])"
  using assms search_loop_eq[of "block b" "terminated s" "length s + 1 - length needle" needle 0]
  by (auto simp: buffer_search_string_len_def buf_rep_def)

lemma strncmp_eq_ok:
  assumes "holds m bs" and "holds m' cs" and "i + n \<le> length bs" and "j + n \<le> length cs"
    and "NUL \<notin> set (take n (drop i bs))"
  shows "strncmp_eq m (int i) m' (int j) n = Some (take n (drop i bs) = take n (drop j cs))"
  using assms
proof (induction n arbitrary: i j)
  case (Suc n)
  from Suc.prems have lt: "i < length bs" "j < length cs" by auto
  then have d: "drop i bs = bs ! i # drop (Suc i) bs" "drop j cs = cs ! j # drop (Suc j) cs"
    by (simp_all add: Cons_nth_drop_Suc)
  have "strncmp_eq m (int (Suc i)) m' (int (Suc j)) n =
      Some (take n (drop (Suc i) bs) = take n (drop (Suc j) cs))"
    using Suc.prems d by (intro Suc.IH) auto
  moreover have "rd_int m (int i) = Some (bs ! i)" "rd_int m' (int j) = Some (cs ! j)"
    using Suc.prems lt by (simp_all add: rd_int_def holds_rd)
  ultimately show ?case using Suc.prems d by (auto simp: add.commute)
qed simp

lemma is_equal_right_len_ok:
  assumes "buf_rep b1 (terminated s)" and "buf_rep b2 (terminated t)"
    and "NUL \<notin> set s" and "n \<le> length t"
  shows "buffer_is_equal_right_len b1 b2 n =
    Some (n \<le> length s \<and> drop (length s - n) s = drop (length t - n) t)"
proof (cases "n = 0 \<or> length s < n")
  case True
  then show ?thesis using assms by (auto simp: buffer_is_equal_right_len_def buf_rep_used)
next
  case False
  let ?i = "length s - n" and ?j = "length t - n"
  have sub: "take n (drop ?i (terminated s)) = drop ?i s" "take n (drop ?j (terminated t)) = drop ?j t"
    using False assms(4) by (simp_all add: terminated_def)
  have "NUL \<notin> set (drop ?i s)" using assms(3) by (auto dest: in_set_dropD)
  then have "strncmp_eq (block b1) (int ?i) (block b2) (int ?j) n =
      Some (take n (drop ?i (terminated s)) = take n (drop ?j (terminated t)))"
    using assms False by (intro strncmp_eq_ok) (auto simp: buf_rep_def sub)
  moreover have "int (used b1) - 1 - int n = int ?i" "int (used b2) - 1 - int n = int ?j"
    using False assms by (simp_all add: buf_rep_used)
  moreover have "n \<noteq> 0" "\<not> (used b1 = 0 \<or> used b2 = 0)" "\<not> (used b1 - 1 < n \<or> used b1 - 1 < n)"
    using False assms by (simp_all add: buf_rep_used)
  ultimately have "buffer_is_equal_right_len b1 b2 n = Some (drop ?i s = drop ?j t)"
    unfolding buffer_is_equal_right_len_def by (simp only: if_False sub)
  then show ?thesis using False by simp
qed

text \<open>
  The bound on the second buffer is not tested (the test of the first is written twice):
  a shorter second buffer is read before its start.
\<close>

lemma is_equal_right_len_underrun:
  assumes "buf_rep b1 (terminated s)" and "buf_rep b2 (terminated t)"
    and "n \<le> length s" and "length t < n"
  shows "buffer_is_equal_right_len b1 b2 n = None"
proof -
  obtain k where n: "n = Suc k" using assms(4) by (cases n) auto
  have "rd_int (block b2) (int (used b2) - 1 - int n) = None"
    using assms by (simp add: rd_int_def buf_rep_used)
  then have "strncmp_eq (block b1) i (block b2) (int (used b2) - 1 - int n) n = None" for i
    unfolding n by (simp add: bind_rzero)
  moreover have "\<not> (used b1 = 0 \<or> used b2 = 0)" "\<not> used b1 - 1 < n"
    using assms by (simp_all add: buf_rep_used)
  ultimately show ?thesis using n by (simp add: buffer_is_equal_right_len_def)
qed

section \<open>Case conversion in place\<close>

function lower_loop :: "mem \<Rightarrow> nat \<Rightarrow> mem option" where
  "lower_loop m i = (case rd m i of None \<Rightarrow> None | Some c \<Rightarrow>
     if c = NUL then Some m
     else lower_loop (if is_upper c then m[i := Some (set_bit5 c)] else m) (i + 1))"
  by pat_completeness auto
termination
  by (relation "measure (\<lambda>(m, i). length m - i)") (auto simp: rd_def split: if_splits)

declare lower_loop.simps [simp del]

definition buffer_to_lower :: "buffer \<Rightarrow> (int \<times> buffer) option" where
  "buffer_to_lower b =
     (if used b = 0 then Some (0, b)
      else do { m \<leftarrow> ptr b; m \<leftarrow> lower_loop m 0; Some (0, b\<lparr>ptr := Some m\<rparr>) })"

function upper_loop :: "mem \<Rightarrow> nat \<Rightarrow> mem option" where
  "upper_loop m i = (case rd m i of None \<Rightarrow> None | Some c \<Rightarrow>
     if c = NUL then Some m
     else upper_loop (if is_lower c then m[i := Some (clear_bit5 c)] else m) (i + 1))"
  by pat_completeness auto
termination
  by (relation "measure (\<lambda>(m, i). length m - i)") (auto simp: rd_def split: if_splits)

declare upper_loop.simps [simp del]

definition buffer_to_upper :: "buffer \<Rightarrow> (int \<times> buffer) option" where
  "buffer_to_upper b =
     (if used b = 0 then Some (0, b)
      else do { m \<leftarrow> ptr b; m \<leftarrow> upper_loop m 0; Some (0, b\<lparr>ptr := Some m\<rparr>) })"

definition to_upper_char :: "char \<Rightarrow> char" where
  "to_upper_char c = (if is_lower c then clear_bit5 c else c)"

lemma lower_loop_eq:
  "NUL \<notin> set s \<Longrightarrow> lower_loop (pre @ map Some s @ Some NUL # rest) (length pre) =
     Some (pre @ map Some (map to_lower_char s) @ Some NUL # rest)"
proof (induction s arbitrary: pre)
  case Nil
  then show ?case by (subst lower_loop.simps) (simp add: rd_def)
next
  case (Cons c s)
  let ?m = "pre @ map Some (c # s) @ Some NUL # rest"
  have "rd ?m (length pre) = Some c" by (simp add: rd_def)
  moreover have "(if is_upper c then ?m[length pre := Some (set_bit5 c)] else ?m) =
      (pre @ [Some (to_lower_char c)]) @ map Some s @ Some NUL # rest"
    by (simp add: to_lower_char_def)
  moreover have "lower_loop ((pre @ [Some (to_lower_char c)]) @ map Some s @ Some NUL # rest)
      (length (pre @ [Some (to_lower_char c)])) =
      Some ((pre @ [Some (to_lower_char c)]) @ map Some (map to_lower_char s) @ Some NUL # rest)"
    using Cons.prems by (intro Cons.IH) auto
  ultimately show ?case using Cons.prems by (subst lower_loop.simps) auto
qed

lemma upper_loop_eq:
  "NUL \<notin> set s \<Longrightarrow> upper_loop (pre @ map Some s @ Some NUL # rest) (length pre) =
     Some (pre @ map Some (map to_upper_char s) @ Some NUL # rest)"
proof (induction s arbitrary: pre)
  case Nil
  then show ?case by (subst upper_loop.simps) (simp add: rd_def)
next
  case (Cons c s)
  let ?m = "pre @ map Some (c # s) @ Some NUL # rest"
  have "rd ?m (length pre) = Some c" by (simp add: rd_def)
  moreover have "(if is_lower c then ?m[length pre := Some (clear_bit5 c)] else ?m) =
      (pre @ [Some (to_upper_char c)]) @ map Some s @ Some NUL # rest"
    by (simp add: to_upper_char_def)
  moreover have "upper_loop ((pre @ [Some (to_upper_char c)]) @ map Some s @ Some NUL # rest)
      (length (pre @ [Some (to_upper_char c)])) =
      Some ((pre @ [Some (to_upper_char c)]) @ map Some (map to_upper_char s) @ Some NUL # rest)"
    using Cons.prems by (intro Cons.IH) auto
  ultimately show ?case using Cons.prems by (subst upper_loop.simps) auto
qed

text \<open>The block of a buffer that holds a C string, split at the terminator.\<close>

lemma rep_split:
  assumes "buf_rep b (terminated s)"
  obtains m rest where "ptr b = Some m" "m = map Some s @ Some NUL # rest" "length m = bsize b"
proof -
  from assms obtain m where m: "ptr b = Some m" "length m = bsize b" "holds m (terminated s)"
    by (cases "ptr b") (auto simp: buf_rep_def holds_def)
  have "m = take (length (terminated s)) m @ drop (length (terminated s)) m" by simp
  also have "\<dots> = map Some s @ Some NUL # drop (length (terminated s)) m"
    using m(3) unfolding holds_def by (simp add: terminated_def)
  finally show thesis using m that by blast
qed

lemma rep_rebuild:
  assumes "length m = bsize b" and "m = map Some s @ Some NUL # rest" and "used b = Suc (length s)"
  shows "buf_rep (b\<lparr>ptr := Some m\<rparr>) (terminated s)"
  using assms by (auto simp: buf_rep_def holds_def terminated_def)

lemma to_lower_ok:
  assumes "buf_rep b (terminated s)" and "NUL \<notin> set s"
  shows "valid (buffer_to_lower b) (\<lambda>(r, b'). r = 0 \<and> buf_rep b' (terminated (map to_lower_char s)))"
proof -
  obtain m rest where m: "ptr b = Some m" "m = map Some s @ Some NUL # rest" "length m = bsize b"
    using assms(1) by (rule rep_split)
  let ?m' = "map Some (map to_lower_char s) @ Some NUL # rest"
  have "lower_loop m 0 = Some ?m'" using lower_loop_eq[OF assms(2), of "[]" rest] m by simp
  moreover have "buf_rep (b\<lparr>ptr := Some ?m'\<rparr>) (terminated (map to_lower_char s))"
    using assms m by (intro rep_rebuild) (auto simp: buf_rep_used)
  ultimately show ?thesis using assms m by (simp add: buffer_to_lower_def buf_rep_used)
qed

lemma to_upper_ok:
  assumes "buf_rep b (terminated s)" and "NUL \<notin> set s"
  shows "valid (buffer_to_upper b) (\<lambda>(r, b'). r = 0 \<and> buf_rep b' (terminated (map to_upper_char s)))"
proof -
  obtain m rest where m: "ptr b = Some m" "m = map Some s @ Some NUL # rest" "length m = bsize b"
    using assms(1) by (rule rep_split)
  let ?m' = "map Some (map to_upper_char s) @ Some NUL # rest"
  have "upper_loop m 0 = Some ?m'" using upper_loop_eq[OF assms(2), of "[]" rest] m by simp
  moreover have "buf_rep (b\<lparr>ptr := Some ?m'\<rparr>) (terminated (map to_upper_char s))"
    using assms m by (intro rep_rebuild) (auto simp: buf_rep_used)
  ultimately show ?thesis using assms m by (simp add: buffer_to_upper_def buf_rep_used)
qed

section \<open>The buffer pool\<close>

text \<open>
  A \<open>buffer_array\<close>: \<open>ba_ptr\<close> is the pointer table (its cells may be \<open>NULL\<close>), \<open>ba_used\<close>
  and \<open>ba_size\<close> the counters.  \<open>buffer_array_append_get_buffer\<close> returns the index of the
  buffer it hands out.
\<close>

record buffer_array =
  ba_ptr :: "buffer option list"
  ba_used :: nat
  ba_size :: nat

definition buffer_array_init :: buffer_array where
  "buffer_array_init = \<lparr>ba_ptr = [], ba_used = 0, ba_size = 0\<rparr>"

definition buffer_array_reset :: "buffer_array option \<Rightarrow> buffer_array option" where
  "buffer_array_reset bp = (case bp of None \<Rightarrow> None | Some b \<Rightarrow>
     Some (b\<lparr>ba_ptr := map buffer_reset (take (ba_used b) (ba_ptr b)) @ drop (ba_used b) (ba_ptr b),
             ba_used := 0\<rparr>))"

definition buffer_array_append_get_buffer :: "buffer_array \<Rightarrow> (nat \<times> buffer_array) option" where
  "buffer_array_append_get_buffer b = do {
     let b = (if ba_size b = 0 then b\<lparr>ba_size := 16, ba_ptr := replicate 16 None\<rparr>
              else if ba_size b = ba_used b
              then b\<lparr>ba_size := ba_size b + 16, ba_ptr := take (ba_used b) (ba_ptr b) @ replicate 16 None\<rparr>
              else b);
     guard (ba_used b < length (ba_ptr b));
     let cell = (case ba_ptr b ! ba_used b of None \<Rightarrow> buffer_init | Some c \<Rightarrow> c);
     Some (ba_used b, b\<lparr>ba_ptr := (ba_ptr b)[ba_used b := Some (cell\<lparr>used := 0\<rparr>)], ba_used := ba_used b + 1\<rparr>) }"

definition ba_inv :: "buffer_array \<Rightarrow> bool" where
  "ba_inv b \<longleftrightarrow> length (ba_ptr b) = ba_size b \<and> ba_used b \<le> ba_size b \<and>
     (\<forall>i < ba_used b. \<exists>c. ba_ptr b ! i = Some c)"

lemma ba_init_inv: "ba_inv buffer_array_init"
  by (simp add: ba_inv_def buffer_array_init_def)

lemma ba_append_ok:
  assumes "ba_inv b"
  shows "valid (buffer_array_append_get_buffer b) (\<lambda>(i, b'). ba_inv b' \<and> i = ba_used b \<and>
    ba_used b' = ba_used b + 1 \<and> (\<exists>c. ba_ptr b' ! i = Some c \<and> used c = 0) \<and>
    (\<forall>j < ba_used b. ba_ptr b' ! j = ba_ptr b ! j))"
proof -
  have nth: "i < ba_used b \<Longrightarrow> \<exists>c. ba_ptr b ! i = Some c" for i
    using assms by (simp add: ba_inv_def)
  show ?thesis
    using assms nth
    by (auto simp: buffer_array_append_get_buffer_def ba_inv_def Let_def valid_bind_iff
        nth_list_update nth_append less_Suc_eq)
qed

section \<open>Properties\<close>

text \<open>
  The suffix comparison, used to match host names and file extensions, decides equality
  of the last \<open>n\<close> bytes when \<open>n\<close> is within the second string.
\<close>

theorem is_equal_right_len_decides:
  assumes "buf_rep b1 (terminated s)" and "buf_rep b2 (terminated t)" and "NUL \<notin> set s" and "n \<le> length t"
  shows "buffer_is_equal_right_len b1 b2 n = Some (n \<le> length s \<and> drop (length s - n) s = drop (length t - n) t)"
  by (rule is_equal_right_len_ok[OF assms])

lemma is_equal_right_len_decides_witness:
  "buffer_is_equal_right_len \<lparr>ptr = Some (map Some (terminated ''a.b'')), used = 4, bsize = 4\<rparr>
     \<lparr>ptr = Some (map Some (terminated ''c.b'')), used = 4, bsize = 4\<rparr> 2
   = Some (2 \<le> length ''a.b'' \<and> drop (length ''a.b'' - 2) ''a.b'' = drop (length ''c.b'' - 2) ''c.b'')"
  by (rule is_equal_right_len_decides) (simp_all add: buf_rep_def holds_def terminated_def)

end
