(* ===== verification/BufferCodec.thy ===== *)
theory BufferCodec
  imports BufferText
begin

text \<open>
  The text encodings of \<open>buffer.c\<close>: the six byte tables, \<open>buffer_append_string_encoded\<close>
  and the in-place URL decoder.  Each table is given row by row as in the source; entry
  \<open>c\<close> says whether the byte \<open>c\<close> has to be encoded.
\<close>

section \<open>The tables\<close>

definition encoded_chars_rel_uri_part :: "nat list list" where
  "encoded_chars_rel_uri_part = [
     [1,1,1,1,1,1,1,1,1,1,1,1,1,1,1,1],
     [1,1,1,1,1,1,1,1,1,1,1,1,1,1,1,1],
     [1,0,1,1,1,1,1,1,0,0,0,1,1,0,0,1],
     [0,0,0,0,0,0,0,0,0,0,1,1,1,1,1,1],
     [0,0,0,0,0,0,0,0,0,0,0,0,0,0,0,0],
     [0,0,0,0,0,0,0,0,0,0,0,0,0,0,0,0],
     [0,0,0,0,0,0,0,0,0,0,0,0,0,0,0,0],
     [0,0,0,0,0,0,0,0,0,0,0,0,0,0,0,1],
     [1,1,1,1,1,1,1,1,1,1,1,1,1,1,1,1],
     [1,1,1,1,1,1,1,1,1,1,1,1,1,1,1,1],
     [1,1,1,1,1,1,1,1,1,1,1,1,1,1,1,1],
     [1,1,1,1,1,1,1,1,1,1,1,1,1,1,1,1],
     [1,1,1,1,1,1,1,1,1,1,1,1,1,1,1,1],
     [1,1,1,1,1,1,1,1,1,1,1,1,1,1,1,1],
     [1,1,1,1,1,1,1,1,1,1,1,1,1,1,1,1],
     [1,1,1,1,1,1,1,1,1,1,1,1,1,1,1,1]]"

definition encoded_chars_rel_uri :: "nat list list" where
  "encoded_chars_rel_uri = [
     [1,1,1,1,1,1,1,1,1,1,1,1,1,1,1,1],
     [1,1,1,1,1,1,1,1,1,1,1,1,1,1,1,1],
     [1,0,1,1,1,1,1,1,0,0,0,1,1,0,0,0],
     [0,0,0,0,0,0,0,0,0,0,1,1,1,1,1,1],
     [0,0,0,0,0,0,0,0,0,0,0,0,0,0,0,0],
     [0,0,0,0,0,0,0,0,0,0,0,0,0,0,0,0],
     [0,0,0,0,0,0,0,0,0,0,0,0,0,0,0,0],
     [0,0,0,0,0,0,0,0,0,0,0,0,0,0,0,1],
     [1,1,1,1,1,1,1,1,1,1,1,1,1,1,1,1],
     [1,1,1,1,1,1,1,1,1,1,1,1,1,1,1,1],
     [1,1,1,1,1,1,1,1,1,1,1,1,1,1,1,1],
     [1,1,1,1,1,1,1,1,1,1,1,1,1,1,1,1],
     [1,1,1,1,1,1,1,1,1,1,1,1,1,1,1,1],
     [1,1,1,1,1,1,1,1,1,1,1,1,1,1,1,1],
     [1,1,1,1,1,1,1,1,1,1,1,1,1,1,1,1],
     [1,1,1,1,1,1,1,1,1,1,1,1,1,1,1,1]]"

definition encoded_chars_html :: "nat list list" where
  "encoded_chars_html = [
     [1,1,1,1,1,1,1,1,1,1,1,1,1,1,1,1],
     [1,1,1,1,1,1,1,1,1,1,1,1,1,1,1,1],
     [0,0,0,0,0,0,1,0,0,0,0,0,0,0,0,0],
     [0,0,0,0,0,0,0,0,0,0,0,0,1,0,1,0],
     [0,0,0,0,0,0,0,0,0,0,0,0,0,0,0,0],
     [0,0,0,0,0,0,0,0,0,0,0,0,0,0,0,0],
     [0,0,0,0,0,0,0,0,0,0,0,0,0,0,0,0],
     [0,0,0,0,0,0,0,0,0,0,0,0,0,0,0,1],
     [1,1,1,1,1,1,1,1,1,1,1,1,1,1,1,1],
     [1,1,1,1,1,1,1,1,1,1,1,1,1,1,1,1],
     [1,1,1,1,1,1,1,1,1,1,1,1,1,1,1,1],
     [1,1,1,1,1,1,1,1,1,1,1,1,1,1,1,1],
     [1,1,1,1,1,1,1,1,1,1,1,1,1,1,1,1],
     [1,1,1,1,1,1,1,1,1,1,1,1,1,1,1,1],
     [1,1,1,1,1,1,1,1,1,1,1,1,1,1,1,1],
     [1,1,1,1,1,1,1,1,1,1,1,1,1,1,1,1]]"

definition encoded_chars_minimal_xml :: "nat list list" where
  "encoded_chars_minimal_xml = [
     [1,1,1,1,1,1,1,1,1,1,1,1,1,1,1,1],
     [1,1,1,1,1,1,1,1,1,1,1,1,1,1,1,1],
     [0,0,0,0,0,0,1,0,0,0,0,0,0,0,0,0],
     [0,0,0,0,0,0,0,0,0,0,0,0,1,0,1,0],
     [0,0,0,0,0,0,0,0,0,0,0,0,0,0,0,0],
     [0,0,0,0,0,0,0,0,0,0,0,0,0,0,0,0],
     [0,0,0,0,0,0,0,0,0,0,0,0,0,0,0,0],
     [0,0,0,0,0,0,0,0,0,0,0,0,0,0,0,1],
     [0,0,0,0,0,0,0,0,0,0,0,0,0,0,0,0],
     [0,0,0,0,0,0,0,0,0,0,0,0,0,0,0,0],
     [0,0,0,0,0,0,0,0,0,0,0,0,0,0,0,0],
     [0,0,0,0,0,0,0,0,0,0,0,0,0,0,0,0],
     [0,0,0,0,0,0,0,0,0,0,0,0,0,0,0,0],
     [0,0,0,0,0,0,0,0,0,0,0,0,0,0,0,0],
     [0,0,0,0,0,0,0,0,0,0,0,0,0,0,0,0],
     [0,0,0,0,0,0,0,0,0,0,0,0,0,0,0,0]]"

definition encoded_chars_hex :: "nat list list" where
  "encoded_chars_hex = [
     [1,1,1,1,1,1,1,1,1,1,1,1,1,1,1,1],
     [1,1,1,1,1,1,1,1,1,1,1,1,1,1,1,1],
     [1,1,1,1,1,1,1,1,1,1,1,1,1,1,1,1],
     [1,1,1,1,1,1,1,1,1,1,1,1,1,1,1,1],
     [1,1,1,1,1,1,1,1,1,1,1,1,1,1,1,1],
     [1,1,1,1,1,1,1,1,1,1,1,1,1,1,1,1],
     [1,1,1,1,1,1,1,1,1,1,1,1,1,1,1,1],
     [1,1,1,1,1,1,1,1,1,1,1,1,1,1,1,1],
     [1,1,1,1,1,1,1,1,1,1,1,1,1,1,1,1],
     [1,1,1,1,1,1,1,1,1,1,1,1,1,1,1,1],
     [1,1,1,1,1,1,1,1,1,1,1,1,1,1,1,1],
     [1,1,1,1,1,1,1,1,1,1,1,1,1,1,1,1],
     [1,1,1,1,1,1,1,1,1,1,1,1,1,1,1,1],
     [1,1,1,1,1,1,1,1,1,1,1,1,1,1,1,1],
     [1,1,1,1,1,1,1,1,1,1,1,1,1,1,1,1],
     [1,1,1,1,1,1,1,1,1,1,1,1,1,1,1,1]]"

definition encoded_chars_http_header :: "nat list list" where
  "encoded_chars_http_header = [
     [0,0,0,0,0,0,0,0,0,0,1,0,0,0,0,0],
     [0,0,0,0,0,0,0,0,0,0,0,0,0,0,0,0],
     [0,0,0,0,0,0,0,0,0,0,0,0,0,0,0,0],
     [0,0,0,0,0,0,0,0,0,0,0,0,0,0,0,0],
     [0,0,0,0,0,0,0,0,0,0,0,0,0,0,0,0],
     [0,0,0,0,0,0,0,0,0,0,0,0,0,0,0,0],
     [0,0,0,0,0,0,0,0,0,0,0,0,0,0,0,0],
     [0,0,0,0,0,0,0,0,0,0,0,0,0,0,0,0],
     [0,0,0,0,0,0,0,0,0,0,0,0,0,0,0,0],
     [0,0,0,0,0,0,0,0,0,0,0,0,0,0,0,0],
     [0,0,0,0,0,0,0,0,0,0,0,0,0,0,0,0],
     [0,0,0,0,0,0,0,0,0,0,0,0,0,0,0,0],
     [0,0,0,0,0,0,0,0,0,0,0,0,0,0,0,0],
     [0,0,0,0,0,0,0,0,0,0,0,0,0,0,0,0],
     [0,0,0,0,0,0,0,0,0,0,0,0,0,0,0,0],
     [0,0,0,0,0,0,0,0,0,0,0,0,0,0,0,0]]"

datatype buffer_encoding_t =
  ENCODING_UNSET | ENCODING_REL_URI | ENCODING_REL_URI_PART | ENCODING_HTML
| ENCODING_MINIMAL_XML | ENCODING_HEX | ENCODING_HTTP_HEADER

definition table_bit :: "nat list list \<Rightarrow> char \<Rightarrow> bool" where
  "table_bit t c \<longleftrightarrow> (t ! (uchar c div 16)) ! (uchar c mod 16) \<noteq> 0"

fun encoding_map :: "buffer_encoding_t \<Rightarrow> nat list list option" where
  "encoding_map ENCODING_REL_URI = Some encoded_chars_rel_uri"
| "encoding_map ENCODING_REL_URI_PART = Some encoded_chars_rel_uri_part"
| "encoding_map ENCODING_HTML = Some encoded_chars_html"
| "encoding_map ENCODING_MINIMAL_XML = Some encoded_chars_minimal_xml"
| "encoding_map ENCODING_HEX = Some encoded_chars_hex"
| "encoding_map ENCODING_HTTP_HEADER = Some encoded_chars_http_header"
| "encoding_map ENCODING_UNSET = None"

text \<open>The bytes the tables leave alone, in closed form.\<close>

definition uri_plain :: "char list" where
  "uri_plain = digit_chars @ upper_letters @ lower_letters @
     ''!()*-.@[]^_`{|}~'' @ [BACKSLASH]"

lemmas table_eval = table_bit_def encoded_chars_rel_uri_part_def encoded_chars_rel_uri_def
  encoded_chars_html_def encoded_chars_minimal_xml_def encoded_chars_hex_def
  encoded_chars_http_header_def

lemma uri_tables:
  "\<forall>c. (table_bit encoded_chars_rel_uri_part c \<longleftrightarrow> c \<notin> set uri_plain) \<and>
       (table_bit encoded_chars_rel_uri c \<longleftrightarrow> c \<notin> set (CHR ''/'' # uri_plain))"
  by (simp only: char_cases) (simp add: table_eval uri_plain_def char_eval)

lemma html_tables:
  "\<forall>c. (table_bit encoded_chars_minimal_xml c \<longleftrightarrow> uchar c < 32 \<or> uchar c = 127 \<or> c \<in> set ''&<>'') \<and>
       (table_bit encoded_chars_html c \<longleftrightarrow> uchar c < 32 \<or> 127 \<le> uchar c \<or> c \<in> set ''&<>'')"
  by (simp only: char_cases) (simp add: table_eval char_eval)

lemma hex_http_tables:
  "\<forall>c. table_bit encoded_chars_hex c \<and> (table_bit encoded_chars_http_header c \<longleftrightarrow> c = LF)"
  by (simp only: char_cases) (simp add: table_eval char_eval)

section \<open>Encoding\<close>

text \<open>The two loops of \<open>buffer_append_string_encoded\<close> switch on the encoding per byte.\<close>

definition enc_count :: "buffer_encoding_t \<Rightarrow> nat list list \<Rightarrow> char \<Rightarrow> nat" where
  "enc_count encoding tbl c =
     (if table_bit tbl c then
        (case encoding of
           ENCODING_REL_URI \<Rightarrow> 3 | ENCODING_REL_URI_PART \<Rightarrow> 3
         | ENCODING_HTML \<Rightarrow> 6 | ENCODING_MINIMAL_XML \<Rightarrow> 6
         | ENCODING_HTTP_HEADER \<Rightarrow> 2 | ENCODING_HEX \<Rightarrow> 2
         | ENCODING_UNSET \<Rightarrow> 0)
      else 1)"

definition hi_digit :: "char \<Rightarrow> char" where
  "hi_digit c = hex_chars ! (drop_bit 4 (uchar c) AND 15)"

definition lo_digit :: "char \<Rightarrow> char" where
  "lo_digit c = hex_chars ! (uchar c AND 15)"

definition enc_bytes :: "buffer_encoding_t \<Rightarrow> nat list list \<Rightarrow> char \<Rightarrow> char list" where
  "enc_bytes encoding tbl c =
     (if table_bit tbl c then
        (case encoding of
           ENCODING_REL_URI \<Rightarrow> [CHR ''%'', hi_digit c, lo_digit c]
         | ENCODING_REL_URI_PART \<Rightarrow> [CHR ''%'', hi_digit c, lo_digit c]
         | ENCODING_HTML \<Rightarrow> ''&#x'' @ [hi_digit c, lo_digit c, CHR '';'']
         | ENCODING_MINIMAL_XML \<Rightarrow> ''&#x'' @ [hi_digit c, lo_digit c, CHR '';'']
         | ENCODING_HEX \<Rightarrow> [hi_digit c, lo_digit c]
         | ENCODING_HTTP_HEADER \<Rightarrow> [c, TAB]
         | ENCODING_UNSET \<Rightarrow> [])
      else [c])"

fun encode_loop :: "buffer_encoding_t \<Rightarrow> nat list list \<Rightarrow> buffer \<Rightarrow> nat \<Rightarrow> char list \<Rightarrow> (buffer \<times> nat) option" where
  "encode_loop encoding tbl b d_len [] = Some (b, d_len)"
| "encode_loop encoding tbl b d_len (c # s) = do {
     b \<leftarrow> put b (used b - 1 + d_len) (enc_bytes encoding tbl c);
     encode_loop encoding tbl b (d_len + length (enc_bytes encoding tbl c)) s }"

definition buffer_append_string_encoded ::
    "buffer option \<Rightarrow> char list option \<Rightarrow> buffer_encoding_t \<Rightarrow> (int \<times> buffer option) option" where
  "buffer_append_string_encoded bp s encoding = (case (s, bp) of (Some s, Some b) \<Rightarrow> do {
       last \<leftarrow> rd_int (block b) (int (used b) - 1);
       guard (last = NUL);
       if s = [] then Some (0, bp)
       else do {
         tbl \<leftarrow> encoding_map encoding;
         let d_len = sum_list (map (enc_count encoding tbl) s);
         (_, bp) \<leftarrow> buffer_prepare_append bp d_len;
         b \<leftarrow> bp;
         (b, d_len) \<leftarrow> encode_loop encoding tbl b 0 s;
         b \<leftarrow> put b (used b + d_len - 1) [NUL];
         Some (0, Some (b\<lparr>used := used b + d_len\<rparr>)) } }
     | _ \<Rightarrow> Some (-1, bp))"

lemma enc_count_length: "enc_count e tbl c = length (enc_bytes e tbl c)"
  by (cases e) (auto simp: enc_count_def enc_bytes_def)

lemma nibble_NUL: "hi_digit c \<noteq> NUL" "lo_digit c \<noteq> NUL"
  using hex_digit_facts by (simp_all add: hi_digit_def lo_digit_def and_15)

lemma enc_bytes_NUL: "c \<noteq> NUL \<Longrightarrow> NUL \<notin> set (enc_bytes e tbl c)"
  using nibble_NUL[of c] by (cases e) (auto simp: enc_bytes_def dest: sym)

lemma encode_loop_ok:
  assumes "has b bs n" and "0 < used b" and "length bs = used b - 1 + k"
    and "sum_list (map (enc_count e tbl) s) \<le> n"
  shows "valid (encode_loop e tbl b k s) (\<lambda>(b', k'). used b' = used b \<and>
           k' = k + sum_list (map (enc_count e tbl) s) \<and>
           has b' (bs @ concat (map (enc_bytes e tbl) s)) (n - sum_list (map (enc_count e tbl) s)))"
  using assms
proof (induction s arbitrary: b bs n k)
  case (Cons c s)
  let ?e = "enc_bytes e tbl c"
  show ?case
    unfolding encode_loop.simps valid_bind_iff
  proof (rule put_wp[OF Cons.prems(1)])
    show "used b - 1 + k \<le> length bs" "used b - 1 + k + length ?e \<le> length bs + n"
      using Cons.prems by (simp_all add: enc_count_length)
  next
    fix b1
    assume "used b1 = used b"
      and "has b1 (take (used b - 1 + k) bs @ ?e) (length bs + n - (used b - 1 + k + length ?e))"
    then have 1: "used b1 = used b" "has b1 (bs @ ?e) (n - length ?e)"
      using Cons.prems(3) by (simp_all add: diff_add_assoc)
    have "valid (encode_loop e tbl b1 (k + length ?e) s) (\<lambda>(b', k'). used b' = used b1 \<and>
        k' = k + length ?e + sum_list (map (enc_count e tbl) s) \<and>
        has b' ((bs @ ?e) @ concat (map (enc_bytes e tbl) s))
          (n - length ?e - sum_list (map (enc_count e tbl) s)))"
      using 1 Cons.prems by (intro Cons.IH) (auto simp: enc_count_length)
    then show "valid (encode_loop e tbl b1 (k + length ?e) s) (\<lambda>(b', k'). used b' = used b \<and>
        k' = k + sum_list (map (enc_count e tbl) (c # s)) \<and>
        has b' (bs @ concat (map (enc_bytes e tbl) (c # s)))
          (n - sum_list (map (enc_count e tbl) (c # s))))"
      using 1 by (auto simp: enc_count_length add.assoc elim!: valid_weaken)
  qed
qed auto

lemma encoded_length: "length (concat (map (enc_bytes e tbl) s)) = sum_list (map (enc_count e tbl) s)"
  by (induction s) (auto simp: enc_count_length)

lemma has_shrink: "has b (bs @ cs) n \<Longrightarrow> has b bs (length cs + n)"
proof -
  assume h: "has b (bs @ cs) n"
  then obtain m where "ptr b = Some m" "length m = bsize b" "holds m (bs @ cs)"
    by (auto simp: has_def)
  moreover from this have "holds m bs"
    using holds_take[of m "bs @ cs" "length bs"] by simp
  ultimately show ?thesis using h by (auto simp: has_def)
qed

lemma append_string_encoded_ok:
  assumes "buf_rep b (terminated t)" and "encoding_map e = Some tbl"
  shows "valid (buffer_append_string_encoded (Some b) (Some s) e)
           (ok_rep (terminated (t @ concat (map (enc_bytes e tbl) s))))"
proof -
  let ?n = "sum_list (map (enc_count e tbl) s)" and ?o = "concat (map (enc_bytes e tbl) s)"
  have u: "used b = Suc (length t)" using assms(1) by (simp add: buf_rep_used)
  have "rd (block b) (length t) = Some NUL"
    using assms(1) holds_rd[of "block b" "terminated t" "length t"]
    by (simp add: buf_rep_def terminated_def)
  then have last: "rd_int (block b) (int (used b) - 1) = Some NUL"
    by (simp add: u rd_int_def)
  have "valid (buffer_prepare_append (Some b) ?n) (\<lambda>(r, bp). valid (do {
         b \<leftarrow> bp; (b, d_len) \<leftarrow> encode_loop e tbl b 0 s; b \<leftarrow> put b (used b + d_len - 1) [NUL];
         Some (0, Some (b\<lparr>used := used b + d_len\<rparr>)) }) (ok_rep (terminated (t @ ?o))))"
  proof (rule prepare_append_wp[OF assms(1)], simp only: prod.case)
    fix b1 assume 1: "used b1 = length (terminated t)" "has b1 (terminated t) ?n"
    then have 2: "has b1 t (Suc ?n)"
      using has_shrink[of b1 t "[NUL]" ?n] by (simp add: terminated_def)
    have "valid (encode_loop e tbl b1 0 s) (\<lambda>(b', k'). used b' = used b1 \<and> k' = 0 + ?n \<and>
           has b' (t @ ?o) (Suc ?n - ?n))"
      using 1 2 by (intro encode_loop_ok) auto
    then show "valid (do { b \<leftarrow> Some b1; (b, d_len) \<leftarrow> encode_loop e tbl b 0 s;
         b \<leftarrow> put b (used b + d_len - 1) [NUL];
         Some (0, Some (b\<lparr>used := used b + d_len\<rparr>)) }) (ok_rep (terminated (t @ ?o)))"
      unfolding valid_bind_iff valid_Some
    proof (rule valid_weaken)
      fix x
      assume "case x of (b', k') \<Rightarrow> used b' = used b1 \<and> k' = 0 + ?n \<and> has b' (t @ ?o) (Suc ?n - ?n)"
      then obtain b2 where x: "x = (b2, ?n)" and b2: "used b2 = used b1" "has b2 (t @ ?o) 1"
        by (cases x) auto
      have "valid (put b2 (used b2 + ?n - 1) [NUL])
          (\<lambda>x. ok_rep (terminated (t @ ?o)) (0, Some (x\<lparr>used := used x + ?n\<rparr>)))"
        using 1 b2 by (intro put_wp) (auto simp: terminated_def encoded_length[symmetric]
            simp del: ok_rep_pair length_concat intro!: ok_repI)
      then show "valid (case x of (b, d_len) \<Rightarrow> put b (used b + d_len - 1) [NUL] \<bind>
            (\<lambda>b. Some (0, Some (b\<lparr>used := used b + d_len\<rparr>)))) (ok_rep (terminated (t @ ?o)))"
        by (simp add: x valid_bind_iff)
    qed
  qed
  then show ?thesis
    using assms last by (auto simp: buffer_append_string_encoded_def valid_bind_iff case_prod_unfold)
qed

end
