(* ===== verification/UrlDecode.thy ===== *)
theory UrlDecode
  imports BufferCodec
begin

text \<open>
  \<open>buffer_urldecode_internal\<close>: the URL decoder that rewrites its buffer in place, reading at
  \<open>src\<close> and writing at \<open>dst \<le> src\<close> of the same block; its specification on strings; and the
  round trip with the encoder.
\<close>

section \<open>The decoder\<close>

function urldec_loop :: "bool \<Rightarrow> mem \<Rightarrow> nat \<Rightarrow> nat \<Rightarrow> (mem \<times> nat) option" where
  "urldec_loop is_query m src dst = (case rd m src of None \<Rightarrow> None | Some c \<Rightarrow>
     if c = NUL then Some (m, dst)
     else if is_query \<and> c = CHR ''+'' then
       (case wr m dst (CHR '' '') of None \<Rightarrow> None | Some m' \<Rightarrow>
          urldec_loop is_query m' (src + 1) (dst + 1))
     else if c = CHR ''%'' then
       (case wr m dst (CHR ''%'') of None \<Rightarrow> None | Some m1 \<Rightarrow>
        case rd m1 (src + 1) of None \<Rightarrow> None | Some hc \<Rightarrow>
          let high = hex2int (byte_of hc) in
          if high \<noteq> 0xFF then
            (case rd m1 (src + 2) of None \<Rightarrow> None | Some lc \<Rightarrow>
               let low = hex2int (byte_of lc) in
               if low \<noteq> 0xFF then
                 let high = push_bit 4 high OR low;
                     high = (if high < 32 \<or> high = 127 then byte_of (CHR ''_'') else high)
                 in case wr m1 dst (char_of_byte high) of None \<Rightarrow> None | Some m2 \<Rightarrow>
                      urldec_loop is_query m2 (src + 3) (dst + 1)
               else urldec_loop is_query m1 (src + 1) (dst + 1))
          else urldec_loop is_query m1 (src + 1) (dst + 1))
     else
       (case wr m dst c of None \<Rightarrow> None | Some m' \<Rightarrow>
          urldec_loop is_query m' (src + 1) (dst + 1)))"
  by pat_completeness auto
termination
  by (relation "measure (\<lambda>(q, m, src, dst). length m - src)")
    (auto simp: rd_def dest!: length_wr split: if_splits)

declare urldec_loop.simps [simp del]

definition buffer_urldecode_internal :: "buffer option \<Rightarrow> bool \<Rightarrow> (int \<times> buffer option) option" where
  "buffer_urldecode_internal url is_query = (case url of None \<Rightarrow> Some (-1, url) | Some u \<Rightarrow>
     case ptr u of None \<Rightarrow> Some (-1, url) | Some m \<Rightarrow> do {
       (m, dst) \<leftarrow> urldec_loop is_query m 0 0;
       m \<leftarrow> wr m dst NUL;
       Some (0, Some (u\<lparr>ptr := Some m, used := dst + 1\<rparr>)) })"

definition buffer_urldecode_path :: "buffer option \<Rightarrow> (int \<times> buffer option) option" where
  "buffer_urldecode_path url = buffer_urldecode_internal url False"

definition buffer_urldecode_query :: "buffer option \<Rightarrow> (int \<times> buffer option) option" where
  "buffer_urldecode_query url = buffer_urldecode_internal url True"

section \<open>What it computes\<close>

text \<open>An escape denotes its byte, except that control characters become an underscore.\<close>

definition unescape :: "nat \<Rightarrow> nat \<Rightarrow> char" where
  "unescape h l = (let n = 16 * h + l in if n < 32 \<or> n = 127 then CHR ''_'' else char_of n)"

fun urldec :: "bool \<Rightarrow> char list \<Rightarrow> char list" where
  "urldec q [] = []"
| "urldec q (c # s) =
     (if q \<and> c = CHR ''+'' then CHR '' '' # urldec q s
      else if c = CHR ''%'' then
        (case s of
           h # l # s' \<Rightarrow>
             (case (digit_value h, digit_value l) of
                (Some a, Some b) \<Rightarrow> unescape a b # urldec q s'
              | _ \<Rightarrow> CHR ''%'' # urldec q s)
         | _ \<Rightarrow> CHR ''%'' # urldec q s)
      else c # urldec q s)"

lemma digit_value_less: "digit_value c = Some n \<Longrightarrow> n < 16"
proof -
  have "\<forall>c. case digit_value c of None \<Rightarrow> True | Some n \<Rightarrow> n < 16"
    by (simp only: char_cases) (simp add: digit_value_def char_eval)
  then show "digit_value c = Some n \<Longrightarrow> n < 16" by (metis option.simps(5))
qed

lemma digit_value_NUL [simp]: "digit_value NUL = None"
  by (simp add: digit_value_def digit_chars_def)

lemma hex2int_valid: "hex2int (byte_of c) \<noteq> 0xFF \<longleftrightarrow> digit_value c \<noteq> None"
proof (cases "digit_value c")
  case (Some n)
  then have "n < 16" by (rule digit_value_less)
  then have "unat (word_of_nat n :: 8 word) = n" by (simp add: unsigned_of_nat take_bit_nat_eq_self)
  then have "(word_of_nat n :: 8 word) \<noteq> 0xFF" using \<open>n < 16\<close> by auto
  with Some show ?thesis by (simp add: hex2int_char)
qed (simp add: hex2int_char)

lemma unat_small: "n < 256 \<Longrightarrow> unat (word_of_nat n :: 8 word) = n"
  by (simp add: unsigned_of_nat take_bit_nat_eq_self)

lemma word_small:
  assumes "n < 256"
  shows "(word_of_nat n :: 8 word) < 32 \<longleftrightarrow> n < 32" "(word_of_nat n :: 8 word) = 127 \<longleftrightarrow> n = 127"
proof -
  show "(word_of_nat n :: 8 word) < 32 \<longleftrightarrow> n < 32"
    by (simp add: word_less_nat_alt unat_small[OF assms] del: of_nat_less_iff)
  have "(word_of_nat n :: 8 word) = 127 \<longleftrightarrow> unat (word_of_nat n :: 8 word) = unat (127 :: 8 word)"
    by (rule word_unat_eq_iff)
  then show "(word_of_nat n :: 8 word) = 127 \<longleftrightarrow> n = 127"
    by (simp add: unat_small[OF assms])
qed

lemma unescape_byte:
  assumes "a < 16" and "b < 16"
  shows "(let high = push_bit 4 (word_of_nat a :: 8 word) OR word_of_nat b;
              high = (if high < 32 \<or> high = 127 then byte_of (CHR ''_'') else high)
          in char_of_byte high) = unescape a b"
proof -
  have "list_all (\<lambda>a. list_all (\<lambda>b. push_bit 4 (word_of_nat a :: 8 word) OR word_of_nat b
      = word_of_nat (16 * a + b)) [0..<16]) [0..<16]"
    by (simp add: upt_rec)
  then have w: "push_bit 4 (word_of_nat a :: 8 word) OR word_of_nat b = word_of_nat (16 * a + b)"
    using assms by (simp add: list_all_iff)
  define n where "n = 16 * a + b"
  have n: "n < 256" using assms by (simp add: n_def)
  show ?thesis
    unfolding w Let_def unescape_def n_def[symmetric]
    by (simp add: word_small[OF n] char_of_byte_def[of "word_of_nat n"] unat_small[OF n])
qed

text \<open>
  The invariant: the block is the output so far, stale cells \<open>J\<close> between \<open>dst\<close> and \<open>src\<close>,
  and the unread input with its terminator.
\<close>

lemma rd_input: "k < length xs \<Longrightarrow>
    rd (map Some out @ J @ xs @ R) (length out + length J + k) = xs ! k"
  by (auto simp: rd_def nth_append)

lemma update_output: "(map Some out @ c # R)[length out := Some x] = map Some out @ Some x # R"
  by (metis length_map list_update_length)

lemma wr_output: "wr (map Some out @ J @ c # R) (length out) x
    = Some (map Some (out @ [x]) @ tl (J @ [c]) @ R)"
  by (cases J) (auto simp: wr_def update_output)

definition decodes :: "bool \<Rightarrow> char list \<Rightarrow> mem \<Rightarrow> mem \<Rightarrow> char list \<Rightarrow> bool" where
  "decodes q out J R s \<longleftrightarrow>
     (\<exists>J'. urldec_loop q (map Some out @ J @ map Some s @ Some NUL # R) (length out + length J) (length out)
         = Some (map Some (out @ urldec q s) @ J' @ Some NUL # R, length (out @ urldec q s))
       \<and> length J' + length (urldec q s) = length J + length s)"

lemma decodes_step:
  assumes "decodes q (out @ ys) J1 R s'"
    and "urldec_loop q (map Some out @ J @ map Some s @ Some NUL # R) (length out + length J) (length out)
       = urldec_loop q (map Some (out @ ys) @ J1 @ map Some s' @ Some NUL # R)
           (length (out @ ys) + length J1) (length (out @ ys))"
    and "urldec q s = ys @ urldec q s'" and "length ys + length J1 + length s' = length J + length s"
  shows "decodes q out J R s"
  using assms by (fastforce simp: decodes_def)

lemma urldec_loop_char:
  assumes "c \<noteq> NUL" and "c \<noteq> CHR ''%''"
  shows "urldec_loop q (map Some out @ J @ Some c # R) (length out + length J) (length out)
    = urldec_loop q (map Some (out @ [if q \<and> c = CHR ''+'' then CHR '' '' else c]) @ tl (J @ [Some c]) @ R)
        (length out + length J + 1) (length out + 1)"
  using assms rd_input[of 0 "[Some c]" out J R] wr_output[of out J "Some c" R]
  by (cases "q \<and> c = CHR ''+''") (subst urldec_loop.simps, force)+

lemma urldec_loop_percent:
  assumes "rd R 0 = Some h" and "hex2int (byte_of h) \<noteq> 0xFF \<Longrightarrow> rd R 1 = Some l"
  shows "urldec_loop q (map Some out @ J @ Some CHR ''%'' # R) (length out + length J) (length out)
    = (case (digit_value h, digit_value l) of
         (Some a, Some b) \<Rightarrow> urldec_loop q (map Some (out @ [unescape a b]) @ tl (J @ [Some CHR ''%'']) @ R)
            (length out + length J + 3) (length out + 1)
       | _ \<Rightarrow> urldec_loop q (map Some (out @ [CHR ''%'']) @ tl (J @ [Some CHR ''%'']) @ R)
            (length out + length J + 1) (length out + 1))"
proof -
  let ?m1 = "map Some (out @ [CHR ''%'']) @ tl (J @ [Some CHR ''%'']) @ R"
  let ?m = "map Some out @ J @ Some CHR ''%'' # R"
  have m: "rd ?m (length out + length J) = Some (CHR ''%'')"
    using rd_input[of 0 "[Some CHR ''%'']" out J R] by simp
  have w: "wr ?m (length out) (CHR ''%'') = Some ?m1" by (rule wr_output)
  have r: "rd ?m1 (Suc (length out + length J) + k) = rd R k" for k
    by (auto simp: rd_def nth_append)
  have r1: "rd ?m1 (length out + length J + 1) = Some h" using r[of 0] assms(1) by simp
  have r2: "hex2int (byte_of h) \<noteq> 0xFF \<Longrightarrow> rd ?m1 (length out + length J + 2) = Some l"
    using r[of 1] assms(2) by (simp add: numeral_2_eq_2)
  have w2: "wr ?m1 (length out) x = Some (map Some (out @ [x]) @ tl (J @ [Some CHR ''%'']) @ R)" for x
    by (simp add: wr_def update_output)
  show ?thesis
  proof (cases "digit_value h")
    case None
    then have "hex2int (byte_of h) = 0xFF" using hex2int_valid by blast
    with None m w r1 show ?thesis by (subst urldec_loop.simps) (simp del: map_append)
  next
    case h: (Some a)
    then have hv: "hex2int (byte_of h) \<noteq> 0xFF" using hex2int_valid by blast
    note r2 = r2[OF hv]
    have ha: "hex2int (byte_of h) = word_of_nat a" using h by (simp add: hex2int_char)
    show ?thesis
    proof (cases "digit_value l")
      case None
      then have "hex2int (byte_of l) = 0xFF" using hex2int_valid by blast
      with None h hv m w r1 r2 show ?thesis
        by (subst urldec_loop.simps) (simp add: Let_def del: map_append)
    next
      case l: (Some b)
      then have lv: "hex2int (byte_of l) \<noteq> 0xFF" using hex2int_valid by blast
      have lb: "hex2int (byte_of l) = word_of_nat b" using l by (simp add: hex2int_char)
      note u = unescape_byte[OF digit_value_less[OF h] digit_value_less[OF l], folded ha lb]
      from h l hv lv m w r1 r2 show ?thesis
        by (subst urldec_loop.simps) (simp add: Let_def w2 u[unfolded Let_def] del: map_append)
    qed
  qed
qed

lemma tl_snoc_length [simp]: "length (tl (J @ [c])) = length J"
  by (cases J) auto

lemma urldec_loop_Cons:
  assumes NN: "c \<noteq> NUL" and IH1: "\<And>out J. decodes q out J R s"
    and IH2: "\<And>h l s' out J. s = h # l # s' \<Longrightarrow> decodes q out J R s'"
  shows "decodes q out J R (c # s)"
proof -
  let ?J = "tl (J @ [Some c])"
  show ?thesis
  proof (cases "c = CHR ''%''")
    case False
    let ?c = "if q \<and> c = CHR ''+'' then CHR '' '' else c"
    show ?thesis
      by (rule decodes_step[OF IH1[of "out @ [?c]" ?J]]) (use NN False urldec_loop_char[of c q out J "map Some s @ Some NUL # R"] in auto)
  next
    case c: True
    then have nq: "\<not> (q \<and> c = CHR ''+'')" by simp
    let ?R = "map Some s @ Some NUL # R"
    obtain h where h: "rd ?R 0 = Some h" "h = NUL \<or> (\<exists>s'. s = h # s')" by (cases s) (auto simp: rd_def)
    obtain l where l: "digit_value h \<noteq> None \<Longrightarrow> rd ?R 1 = Some l \<and> (l = NUL \<or> (\<exists>s'. s = h # l # s'))"
    proof (cases s rule: remdups_adj.cases)
      case 1
      with h show ?thesis using that[of NUL] by (auto simp: rd_def)
    next
      case (2 x)
      with h show ?thesis using that[of NUL] by (auto simp: rd_def)
    next
      case (3 x y xs)
      with h show ?thesis using that[of y] by (auto simp: rd_def)
    qed
    have "hex2int (byte_of h) \<noteq> 0xFF \<Longrightarrow> rd ?R 1 = Some l"
      using l hex2int_valid by blast
    note step = urldec_loop_percent[of ?R h l q out J, OF h(1) this]
    show ?thesis
    proof (cases "digit_value h \<noteq> None \<and> digit_value l \<noteq> None")
      case True
      then obtain a b where ab: "digit_value h = Some a" "digit_value l = Some b" by auto
      then obtain s' where s': "s = h # l # s'" using l by force
      show ?thesis
        by (rule decodes_step[OF IH2[OF s', of "out @ [unescape a b]" "?J @ [Some h, Some l]"]])
          (use step ab s' c nq in \<open>simp_all add: numeral_3_eq_3\<close>)
    next
      case False
      have nd: "digit_value x = None \<or> digit_value y = None" if "s = x # y # xs" for x y xs
      proof -
        have "x = h" using h(1) that by (simp add: rd_def)
        moreover have "y = l" if "digit_value h \<noteq> None" using l[OF that] \<open>s = x # y # xs\<close>
          by (simp add: rd_def)
        ultimately show ?thesis using False by blast
      qed
      have dec: "urldec q (c # s) = CHR ''%'' # urldec q s"
      proof (cases s rule: remdups_adj.cases)
        case (3 x y xs)
        with nd[OF 3] c nq show ?thesis by (cases "digit_value x"; cases "digit_value y") auto
      qed (use c nq in auto)
      show ?thesis
        by (rule decodes_step[OF IH1[of "out @ [CHR ''%'']" ?J]])
          (use step False c dec in \<open>auto split: option.splits\<close>)
    qed
  qed
qed

lemma urldec_loop_eq: "NUL \<notin> set s \<Longrightarrow> decodes q out J R s"
proof (induction s arbitrary: out J rule: length_induct)
  case (1 s0)
  then have IH: "length s < length s0 \<Longrightarrow> NUL \<notin> set s \<Longrightarrow> decodes q out J R s" for s out J by blast
  show ?case
  proof (cases s0)
    case Nil
    then show ?thesis
      using rd_input[of 0 "[Some NUL]" out J R]
      by (auto simp: decodes_def urldec_loop.simps)
  next
    case (Cons c s)
    with 1 have NN: "c \<noteq> NUL" "NUL \<notin> set s" by auto
    have IHs: "decodes q out J R s" for out J using IH Cons NN by simp
    have "decodes q out J R (c # s)"
      by (rule urldec_loop_Cons[OF NN(1) IHs]) (use IH Cons NN in auto)
    with Cons show ?thesis by simp
  qed
qed

section \<open>The operation on buffers\<close>

lemma rep_block:
  assumes "buf_rep b (terminated s)"
  obtains R where "ptr b = Some (map Some s @ Some NUL # R)" "bsize b = Suc (length s) + length R"
    "used b = Suc (length s)"
proof -
  from assms obtain m where m: "ptr b = Some m" "length m = bsize b" "holds m (terminated s)"
    by (cases "ptr b") (auto simp: buf_rep_def holds_def block_def)
  then have "take (Suc (length s)) m = map Some s @ [Some NUL]" by (simp add: holds_def terminated_def)
  then have "m = map Some s @ Some NUL # drop (Suc (length s)) m"
    by (metis append.assoc append_Cons append_Nil append_take_drop_id)
  moreover have "bsize b = Suc (length s) + length (drop (Suc (length s)) m)"
    using m by (simp add: holds_def)
  ultimately show thesis
    using m(1) assms that[of "drop (Suc (length s)) m"] by (simp add: buf_rep_used)
qed

declare urldec.simps(2) [simp del]

lemma urldec_Cons_cases:
  obtains (plain) x where "urldec q (c # s) = x # urldec q s" "x = c \<or> x = CHR '' ''"
  | (escape) h l s' a b where "s = h # l # s'" "c = CHR ''%''" "digit_value h = Some a"
      "digit_value l = Some b" "urldec q (c # s) = unescape a b # urldec q s'"
proof (cases "c = CHR ''%''")
  case False
  then show thesis using plain by (cases "q \<and> c = CHR ''+''") (auto simp: urldec.simps(2))
next
  case c: True
  show thesis
  proof (cases s rule: remdups_adj.cases)
    case (3 x y xs)
    with c escape plain show thesis
      by (cases "digit_value x"; cases "digit_value y") (auto simp: urldec.simps(2))
  qed (use c plain in \<open>auto simp: urldec.simps(2)\<close>)
qed

lemma length_urldec: "length (urldec q s) \<le> length s"
proof (induction s rule: length_induct)
  case (1 s)
  show ?case
  proof (cases s)
    case (Cons c s')
    from urldec_Cons_cases[of q c s'] show ?thesis
    proof cases
      case plain
      with 1 Cons show ?thesis by simp
    next
      case (escape h l s'' a b)
      then have "length (urldec q s'') \<le> length s''" using 1 Cons by simp
      with escape Cons show ?thesis by simp
    qed
  qed simp
qed

lemma urldecode_ok:
  assumes "buf_rep b (terminated s)" and "NUL \<notin> set s"
  shows "valid (buffer_urldecode_internal (Some b) q) (ok_rep (terminated (urldec q s)))"
proof -
  from assms(1) obtain R where R: "ptr b = Some (map Some s @ Some NUL # R)"
    "bsize b = Suc (length s) + length R" "used b = Suc (length s)"
    by (rule rep_block)
  let ?o = "urldec q s"
  from urldec_loop_eq[OF assms(2), of q "[]" "[]" R] obtain J where
    J: "urldec_loop q (map Some s @ Some NUL # R) 0 0 = Some (map Some ?o @ J @ Some NUL # R, length ?o)"
      "length J + length ?o = length s"
    by (auto simp: decodes_def)
  have w: "wr (map Some ?o @ J @ Some NUL # R) (length ?o) NUL
      = Some (map Some (?o @ [NUL]) @ tl (J @ [Some NUL]) @ R)" by (rule wr_output)
  have "buf_rep (b\<lparr>ptr := Some (map Some (?o @ [NUL]) @ tl (J @ [Some NUL]) @ R), used := Suc (length ?o)\<rparr>)
      (terminated ?o)"
    using R J by (auto simp: buf_rep_def holds_def terminated_def block_def)
  moreover have "buffer_urldecode_internal (Some b) q = Some (0, Some
      (b\<lparr>ptr := Some (map Some (?o @ [NUL]) @ tl (J @ [Some NUL]) @ R), used := Suc (length ?o)\<rparr>))"
    unfolding buffer_urldecode_internal_def by (simp only: R(1) J(1) w option.case bind.bind_lunit
      prod.case Suc_eq_plus1)
  ultimately show ?thesis by (simp only: valid_Some ok_rep_pair) blast
qed

subsection \<open>Decoding an encoded string\<close>

definition printable :: "char \<Rightarrow> bool" where
  "printable c \<longleftrightarrow> 32 \<le> uchar c \<and> uchar c \<noteq> 127"



lemma unescape_digits:
  "digit_value (hi_digit c) = Some (uchar c div 16)" "digit_value (lo_digit c) = Some (uchar c mod 16)"
  using uchar_less[of c]
  by (simp_all add: hi_digit_def lo_digit_def and_15 drop_bit_eq_div hex_digit_facts)

lemma unescape_printable: "printable c \<Longrightarrow> unescape (uchar c div 16) (uchar c mod 16) = c"
  by (simp add: unescape_def printable_def Let_def) (simp add: uchar_def)

lemma urldec_escape: "printable c \<Longrightarrow> urldec q (CHR ''%'' # hi_digit c # lo_digit c # s) = c # urldec q s"
  using unescape_printable[of c] by (simp add: urldec.simps(2) unescape_digits)

lemma percent_plus_encoded:
  "c \<in> {CHR ''%'', CHR ''+''} \<Longrightarrow> table_bit encoded_chars_rel_uri c"
  "c \<in> {CHR ''%'', CHR ''+''} \<Longrightarrow> table_bit encoded_chars_rel_uri_part c"
  by (auto simp: table_eval uchar_def)

lemma urldec_encoded:
  assumes "list_all printable s" and "e = ENCODING_REL_URI \<or> e = ENCODING_REL_URI_PART"
    and "encoding_map e = Some tbl"
  shows "urldec q (concat (map (enc_bytes e tbl) s)) = s"
  using assms(1)
proof (induction s)
  case (Cons c s)
  show ?case
  proof (cases "table_bit tbl c")
    case True
    then have "enc_bytes e tbl c = [CHR ''%'', hi_digit c, lo_digit c]"
      using assms(2) by (auto simp: enc_bytes_def)
    with Cons urldec_escape[of c] show ?thesis by (simp del: urldec.simps)
  next
    case False
    have "tbl = encoded_chars_rel_uri \<or> tbl = encoded_chars_rel_uri_part" using assms(2,3) by auto
    with False have "c \<noteq> CHR ''%''" "c \<noteq> CHR ''+''" using percent_plus_encoded by blast+
    with False Cons show ?thesis by (simp add: enc_bytes_def urldec.simps(2))
  qed
qed simp

lemma encoded_clean: "list_all printable s \<Longrightarrow> NUL \<notin> set (concat (map (enc_bytes e tbl) s))"
proof -
  assume s: "list_all printable s"
  have "NUL \<notin> set (enc_bytes e tbl c)" if "c \<in> set s" for c
  proof -
    have "c \<noteq> NUL" using s that by (auto simp: list_all_iff printable_def uchar_def)
    then show ?thesis by (rule enc_bytes_NUL)
  qed
  then show ?thesis by auto
qed

text \<open>An escape never smuggles a control character, a NUL in particular, into the result.\<close>

lemma unescape_printable': "a < 16 \<Longrightarrow> b < 16 \<Longrightarrow> printable (unescape a b)"
  by (auto simp: unescape_def printable_def uchar_def Let_def)

lemma urldec_printable: "list_all printable s \<Longrightarrow> list_all printable (urldec q s)"
proof (induction s rule: length_induct)
  case (1 s)
  have sp: "printable (CHR '' '')" by (simp add: printable_def uchar_def)
  show ?case
  proof (cases s)
    case (Cons c s')
    from urldec_Cons_cases[of q c s'] show ?thesis
    proof cases
      case (plain x)
      with 1 Cons sp show ?thesis by auto
    next
      case (escape h l s'' a b)
      then have "list_all printable (urldec q s'')" using 1 Cons by simp
      moreover have "printable (unescape a b)"
        using escape digit_value_less by (intro unescape_printable') auto
      ultimately show ?thesis unfolding Cons escape(5) by simp
    qed
  qed simp
qed

section \<open>Properties\<close>

text \<open>
  C4: encoding a printable string for a URI and decoding the result in place gives the
  string back, whatever was in the buffer's block before.
\<close>

theorem url_encode_decode_roundtrip:
  assumes "buf_rep b (terminated [])" and "list_all printable s"
    and "e = ENCODING_REL_URI \<or> e = ENCODING_REL_URI_PART"
  shows "valid (do { (_, bp) \<leftarrow> buffer_append_string_encoded (Some b) (Some s) e; buffer_urldecode_path bp })
           (ok_rep (terminated s))"
proof -
  obtain tbl where tbl: "encoding_map e = Some tbl" using assms(3) by auto
  let ?enc = "concat (map (enc_bytes e tbl) s)"
  have "valid (buffer_append_string_encoded (Some b) (Some s) e) (ok_rep (terminated ?enc))"
    using append_string_encoded_ok[OF assms(1) tbl, of s] by simp
  moreover have "valid (buffer_urldecode_path (Some b')) (ok_rep (terminated s))"
    if "buf_rep b' (terminated ?enc)" for b'
  proof -
    have "NUL \<notin> set ?enc" using encoded_clean[OF assms(2), of e tbl] .
    with urldecode_ok[OF that, of False] urldec_encoded[OF assms(2,3) tbl, of False] show ?thesis
      by (simp add: buffer_urldecode_path_def del: ok_rep_pair)
  qed
  ultimately show ?thesis by (auto simp: valid_bind_iff ok_rep_def elim!: valid_weaken)
qed

lemma url_encode_decode_roundtrip_witness:
  "valid (do { (_, bp) \<leftarrow> buffer_append_string_encoded
                  (Some \<lparr>ptr = Some [Some NUL], used = 1, bsize = 1\<rparr>) (Some ''a b%/'') ENCODING_REL_URI_PART;
               buffer_urldecode_path bp }) (ok_rep (terminated ''a b%/''))"
  by (rule url_encode_decode_roundtrip)
    (simp_all add: buf_rep_def holds_def terminated_def printable_def uchar_def)

text \<open>
  C31: Decoding never introduces a control character: from printable input, however it is
  escaped, the decoded buffer holds printable bytes only, so no escape smuggles in a NUL, a
  CR or an LF.
\<close>

theorem urldecode_stays_printable:
  assumes "buf_rep b (terminated s)" and "list_all printable s"
  shows "valid (buffer_urldecode_internal (Some b) q)
           (\<lambda>(r, bp). r = 0 \<and> (\<exists>b' t. bp = Some b' \<and> buf_rep b' (terminated t) \<and> list_all printable t
              \<and> length t \<le> length s))"
proof -
  have "NUL \<notin> set s" using assms(2) by (auto simp: list_all_iff printable_def uchar_def)
  with urldecode_ok[OF assms(1), of q] show ?thesis
    using urldec_printable[OF assms(2), of q] length_urldec[of q s]
    by (auto simp: ok_rep_def elim!: valid_weaken) blast
qed

lemma urldecode_stays_printable_witness:
  "valid (buffer_urldecode_internal (Some \<lparr>ptr = Some (map Some ''%0d%0ax'' @ [Some NUL]), used = 8, bsize = 8\<rparr>) True)
           (\<lambda>(r, bp). r = 0 \<and> (\<exists>b' t. bp = Some b' \<and> buf_rep b' (terminated t) \<and> list_all printable t
              \<and> length t \<le> length ''%0d%0ax''))"
  by (rule urldecode_stays_printable)
    (simp_all add: buf_rep_def holds_def terminated_def printable_def uchar_def)

end
