(* ===== verification/BufferPath.thy ===== *)
theory BufferPath
  imports UrlDecode
begin

text \<open>
  \<open>buffer_path_simplify\<close>: the routine that removes \<open>.\<close>, \<open>..\<close> and empty components from a
  path before it is mapped to a file.  It reads the source through \<open>walk\<close> while writing the
  destination through \<open>out\<close>, and may be called with both the same buffer (\<open>alias\<close>).  The
  model keeps the pointers, the 16-bit window \<open>pre\<close> over the last two bytes and the two
  blocks; the specification works on lists of components.
\<close>

section \<open>The routine\<close>

function skip_spaces :: "mem \<Rightarrow> nat \<Rightarrow> nat option" where
  "skip_spaces m walk = (case rd m walk of None \<Rightarrow> None | Some c \<Rightarrow>
     if c = CHR '' '' then skip_spaces m (walk + 1) else Some walk)"
  by pat_completeness auto
termination
  by (relation "measure (\<lambda>(m, walk). length m - walk)") (auto simp: rd_def split: if_splits)

declare skip_spaces.simps [simp del]

fun back_to_slash :: "mem \<Rightarrow> nat \<Rightarrow> nat option" where
  "back_to_slash dm 0 = Some 0"
| "back_to_slash dm (Suc k) = (case rd dm (Suc k) of None \<Rightarrow> None | Some c \<Rightarrow>
     if c = CHR ''/'' then Some (Suc k) else back_to_slash dm k)"

text \<open>A token ends, at a slash or at the terminator (\<open>at_end\<close>): the new value of \<open>out\<close>.\<close>

definition path_token :: "mem \<Rightarrow> nat \<Rightarrow> nat \<Rightarrow> 16 word \<Rightarrow> bool \<Rightarrow> nat option" where
  "path_token dm out slash pre at_end =
     (let toklen = int out - int slash in
      if toklen = 3 \<and> pre = 0x2E2E then do {
        out \<leftarrow> (if slash > 0 then back_to_slash dm (slash - 1) else Some slash);
        Some (if at_end then out + 1 else out) }
      else if toklen = 1 \<or> pre = 0x2F2E then Some (if at_end then slash + 1 else slash)
      else Some out)"

function simplify_loop :: "bool \<Rightarrow> mem \<Rightarrow> mem \<Rightarrow> nat \<Rightarrow> nat \<Rightarrow> nat \<Rightarrow> 16 word \<Rightarrow> char \<Rightarrow> (mem \<times> nat) option" where
  "simplify_loop alias sm dm walk out slash pre c = do {
     (out, slash) \<leftarrow> (if c = CHR ''/'' \<or> c = NUL
        then do { out \<leftarrow> path_token dm out slash pre (c = NUL); Some (out, out) }
        else Some (out, slash));
     if c = NUL then Some (dm, out)
     else do {
       let pre1 = c;
       let pre = push_bit 8 pre OR word_of_int (schar pre1);
       c \<leftarrow> rd (if alias then dm else sm) walk;
       dm \<leftarrow> wr dm out pre1;
       simplify_loop alias sm dm (walk + 1) (out + 1) slash pre c } }"
  by pat_completeness auto
termination
  by (relation "measure (\<lambda>(alias, sm, dm, walk, out, slash, pre, c). length (if alias then dm else sm) - walk)")
    (auto simp: rd_def dest!: length_wr split: if_splits)

declare simplify_loop.simps [simp del]

text \<open>
  The body once the blocks are ready.  The byte after the first one is fetched before the
  test for an empty path, so it has to lie inside the block, but only its later use needs
  it to be written.
\<close>

definition simplify_block :: "bool \<Rightarrow> mem \<Rightarrow> mem \<Rightarrow> (mem \<times> nat) option" where
  "simplify_block alias sm dm = do {
     walk \<leftarrow> skip_spaces sm 0;
     pre1 \<leftarrow> rd sm walk;
     guard (walk + 1 < length sm);
     let c = rd sm (walk + 1);
     let walk = walk + 2;
     let pre = (if pre1 \<noteq> CHR ''/'' then push_bit 8 (word_of_int (schar (CHR ''/''))) OR word_of_int (schar pre1)
                else word_of_int (schar pre1) :: 16 word);
     dm \<leftarrow> (if pre1 \<noteq> CHR ''/'' then wr dm 0 (CHR ''/'') else Some dm);
     let out = (if pre1 \<noteq> CHR ''/'' then 1 else 0);
     dm \<leftarrow> wr dm out pre1;
     let out = out + 1;
     if pre1 = NUL then Some (dm, out + 1)
     else do {
       c \<leftarrow> c;
       (dm, out) \<leftarrow> simplify_loop alias sm dm walk out 0 pre c;
       dm \<leftarrow> wr dm out NUL;
       Some (dm, out + 1) } }"

definition buffer_path_simplify :: "bool \<Rightarrow> buffer option \<Rightarrow> buffer option \<Rightarrow> (int \<times> buffer option) option" where
  "buffer_path_simplify alias dest src = (case (src, dest) of (Some s, Some d) \<Rightarrow>
       if ptr s = None then Some (-1, dest)
       else do {
         (_, dp) \<leftarrow> (if alias then buffer_prepare_append (Some s) 1
                     else buffer_prepare_copy (Some d) (used s + 1));
         d \<leftarrow> dp;
         dm \<leftarrow> ptr d;
         sm \<leftarrow> (if alias then Some dm else ptr s);
         (dm, n) \<leftarrow> simplify_block alias sm dm;
         Some (0, Some (d\<lparr>ptr := Some dm, used := n\<rparr>)) }
     | _ \<Rightarrow> Some (-1, dest))"

section \<open>The specification\<close>

text \<open>
  A path is the list of the components between its slashes.  \<open>close\<close> is the effect of one
  component on the stack of those kept so far; \<open>special\<close> components leave a trailing slash
  when they come last.
\<close>

definition special :: "char list \<Rightarrow> bool" where
  "special t \<longleftrightarrow> t = '''' \<or> t = ''.'' \<or> t = ''..''"

definition close :: "char list list \<Rightarrow> char list \<Rightarrow> char list list" where
  "close stk t = (if t = ''..'' then tl stk else if special t then stk else t # stk)"

definition render :: "char list list \<Rightarrow> char list" where
  "render stk = concat (map ((#) (CHR ''/'')) (rev stk))"

definition slash_if :: "bool \<Rightarrow> char list" where
  "slash_if b = (if b then [CHR ''/''] else [])"

fun simplify_from :: "char list list \<Rightarrow> char list \<Rightarrow> char list \<Rightarrow> char list" where
  "simplify_from stk t [] = render (close stk t) @ slash_if (special t)"
| "simplify_from stk t (c # s) =
     (if c = CHR ''/'' then simplify_from (close stk t) [] s else simplify_from stk (t @ [c]) s)"

fun drop_spaces :: "char list \<Rightarrow> char list" where
  "drop_spaces (c # s) = (if c = CHR '' '' then drop_spaces s else c # s)"
| "drop_spaces [] = []"

text \<open>The simplified path: a leading slash is not a component separator but the root.\<close>

definition simplified :: "char list \<Rightarrow> char list" where
  "simplified s = (case drop_spaces s of
     c # s' \<Rightarrow> if c = CHR ''/'' then simplify_from [] [] s' else simplify_from [] [c] s'
   | [] \<Rightarrow> ''/'')"

lemma render_Nil [simp]: "render [] = []"
  by (simp add: render_def)

lemma render_Cons [simp]: "render (t # stk) = render stk @ CHR ''/'' # t"
  by (simp add: render_def)

section \<open>Correctness\<close>

text \<open>The window: its tests read the last two bytes written.\<close>

definition window :: "16 word \<Rightarrow> char \<Rightarrow> char \<Rightarrow> bool" where
  "window pre p c \<longleftrightarrow> take_bit 8 pre = word_of_nat (uchar c) \<and>
     (pre = 0x2E2E \<longleftrightarrow> p = CHR ''.'' \<and> c = CHR ''.'') \<and>
     (pre = 0x2F2E \<longleftrightarrow> p = CHR ''/'' \<and> c = CHR ''.'')"

lemma low_byte_char: "\<forall>c. take_bit 8 (word_of_int (schar c) :: 16 word) = word_of_nat (uchar c)"
  by (simp only: char_cases) (simp add: schar_def uchar_def mask_eq_exp_minus_1)

lemma dot_after: "\<forall>p. (push_bit 8 (word_of_nat (uchar p)) OR 0x2E = (0x2E2E :: 16 word) \<longleftrightarrow> p = CHR ''.'') \<and>
    (push_bit 8 (word_of_nat (uchar p)) OR 0x2E = (0x2F2E :: 16 word) \<longleftrightarrow> p = CHR ''/'')"
  by (simp only: char_cases) (simp add: uchar_def)

lemma uchar_word_inj: "(word_of_nat (uchar a) :: 16 word) = word_of_nat (uchar b) \<longleftrightarrow> a = b"
  using uchar_less[of a] uchar_less[of b]
  by (auto simp: of_nat_eq_iff word_of_nat_eq_iff take_bit_nat_eq_self)

lemma push_low: "push_bit 8 (p :: 16 word) = push_bit 8 (take_bit 8 p)"
  by (rule bit_eqI) (auto simp: bit_simps)

lemma window_step:
  assumes "window pre p c"
  shows "window (push_bit 8 pre OR word_of_int (schar d)) c d"
proof -
  let ?n = "push_bit 8 pre OR word_of_int (schar d) :: 16 word"
  have n: "?n = push_bit 8 (word_of_nat (uchar c)) OR word_of_int (schar d)"
    using assms push_low[of pre] by (simp add: window_def)
  have low: "take_bit 8 ?n = word_of_nat (uchar d)"
    using low_byte_char by (simp add: take_bit_push_bit)
  have dot: "(word_of_int (schar (CHR ''.'')) :: 16 word) = 0x2E" by (simp add: schar_def uchar_def)
  have "?n = 0x2E2E \<longleftrightarrow> c = CHR ''.'' \<and> d = CHR ''.''" "?n = 0x2F2E \<longleftrightarrow> c = CHR ''/'' \<and> d = CHR ''.''"
  proof -
    have "(word_of_nat (uchar (CHR ''.'')) :: 16 word) = 0x2E" by (simp add: uchar_def)
    moreover have "take_bit 8 (0x2E2E :: 16 word) = 0x2E" "take_bit 8 (0x2F2E :: 16 word) = 0x2E" by simp_all
    ultimately have "?n = 0x2E2E \<or> ?n = 0x2F2E \<Longrightarrow> d = CHR ''.''"
      using low uchar_word_inj[of d "CHR ''.''"] by metis
    then have d: "d \<noteq> CHR ''.'' \<Longrightarrow> ?n \<noteq> 0x2E2E" "d \<noteq> CHR ''.'' \<Longrightarrow> ?n \<noteq> 0x2F2E" by blast+
    show "?n = 0x2E2E \<longleftrightarrow> c = CHR ''.'' \<and> d = CHR ''.''" "?n = 0x2F2E \<longleftrightarrow> c = CHR ''/'' \<and> d = CHR ''.''"
      using spec[OF dot_after, of c] by (cases "d = CHR ''.''"; use d n dot in metis)+
  qed
  with low show ?thesis by (simp add: window_def)
qed

lemma window_slash: "window (word_of_int (schar (CHR ''/''))) NUL (CHR ''/'')"
  by (simp add: window_def schar_def uchar_def)

text \<open>The window while the component \<open>t\<close> is being read.\<close>

definition window_at :: "16 word \<Rightarrow> char list \<Rightarrow> bool" where
  "window_at pre t \<longleftrightarrow> (\<exists>v u p c. v # CHR ''/'' # t = u @ [p, c] \<and> window pre p c)"

lemma window_at_slash: "window pre p (CHR ''/'') \<Longrightarrow> window_at pre []"
  unfolding window_at_def by (rule exI[of _ p], rule exI[of _ "[]"]) auto

lemma window_at_step: "window_at pre t \<Longrightarrow> window_at (push_bit 8 pre OR word_of_int (schar d)) (t @ [d])"
proof -
  assume "window_at pre t"
  then obtain v u p c where a: "v # CHR ''/'' # t = u @ [p, c]" "window pre p c"
    by (auto simp: window_at_def)
  then have "v # CHR ''/'' # t @ [d] = (u @ [p]) @ [c, d]" by simp
  with window_step[OF a(2), of d] show ?thesis unfolding window_at_def by blast
qed

lemma window_at_close: "window_at pre t \<Longrightarrow> window_at (push_bit 8 pre OR word_of_int (schar (CHR ''/''))) []"
  using window_at_slash[OF window_step] by (auto simp: window_at_def[of pre])

lemma window_at_tests:
  assumes "window_at pre t" and "CHR ''/'' \<notin> set t"
  shows "length t = 2 \<and> pre = 0x2E2E \<longleftrightarrow> t = ''..''" and "t = [] \<or> pre = 0x2F2E \<longleftrightarrow> t = [] \<or> t = ''.''"
proof -
  obtain v u p c where a: "v # CHR ''/'' # t = u @ [p, c]" and w: "window pre p c"
    using assms by (auto simp: window_at_def)
  show "length t = 2 \<and> pre = 0x2E2E \<longleftrightarrow> t = ''..''"
    using a w by (cases t rule: rev_cases) (auto simp: window_def append_eq_Cons_conv Cons_eq_append_conv length_Suc_conv numeral_2_eq_2)
  have "p = CHR ''/'' \<and> c = CHR ''.'' \<longleftrightarrow> t = ''.''" if "t \<noteq> []"
  proof (cases t rule: remdups_adj.cases)
    case (3 x y xs)
    then have "CHR ''/'' # t = tl (u @ [p, c])" using a by (metis list.sel(3))
    then have "p \<in> set t" using a 3 by (cases u rule: remdups_adj.cases) auto
    with assms(2) 3 show ?thesis by auto
  qed (use a that in \<open>auto simp: Cons_eq_append_conv\<close>)
  then show "t = [] \<or> pre = 0x2F2E \<longleftrightarrow> t = [] \<or> t = ''.''"
    using w by (auto simp: window_def)
qed

lemma holds_prefix: "holds m (bs @ cs) \<Longrightarrow> holds m bs"
  using holds_take[of m "bs @ cs" "length bs"] by simp

lemma back_to_slash_eq:
  assumes "holds dm (xs @ CHR ''/'' # t)" and "CHR ''/'' \<notin> set t"
  shows "back_to_slash dm (length xs + length t) = Some (length xs)"
  using assms
proof (induction t rule: rev_induct)
  case Nil
  then have "rd dm (length xs) = Some (CHR ''/'')" using holds_rd[of dm "xs @ ''/''" "length xs"] by simp
  then show ?case by (cases "length xs") auto
next
  case (snoc c t)
  have "rd dm (Suc (length xs + length t)) = Some c"
    using holds_rd[OF snoc.prems(1), of "Suc (length xs + length t)"] by (simp add: nth_append)
  moreover have "holds dm (xs @ CHR ''/'' # t)"
    using holds_prefix[of dm "xs @ CHR ''/'' # t" "[c]"] snoc.prems by simp
  ultimately show ?case using snoc by auto
qed



lemma path_token_ok:
  assumes h: "holds dm (render stk @ CHR ''/'' # t)"
    and sl: "list_all (\<lambda>t. CHR ''/'' \<notin> set t) (t # stk)" and w: "window_at pre t"
    and out: "slash = length (render stk)" "out = slash + 1 + length t"
  shows "path_token dm out slash pre e = Some (length (render (close stk t) @ slash_if (e \<and> special t)))"
    and "holds dm (render (close stk t) @ slash_if (e \<and> special t))"
proof -
  note tests = window_at_tests[OF w]
  have len: "int out - int slash = 1 + int (length t)" using out by simp
  have dd: "int out - int slash = 3 \<and> pre = 0x2E2E \<longleftrightarrow> t = ''..''"
    using tests(1) sl len by auto
  have d: "int out - int slash = 1 \<or> pre = 0x2F2E \<longleftrightarrow> t = [] \<or> t = ''.''"
    using tests(2) sl len by auto
  have bk: "back_to_slash dm (slash - 1) = Some (length (render (tl stk)))" if "slash > 0"
  proof (cases stk)
    case (Cons s stk')
    then have "holds dm ((render stk' @ CHR ''/'' # s) @ CHR ''/'' # t)" using h by simp
    then have "holds dm (render stk' @ CHR ''/'' # s)" by (rule holds_prefix)
    then show ?thesis
      using back_to_slash_eq[of dm "render stk'" s] sl Cons out by simp
  qed (use that out in simp)
  have empty: "render stk = [] \<longleftrightarrow> stk = []" by (cases stk) auto
  show "path_token dm out slash pre e = Some (length (render (close stk t) @ slash_if (e \<and> special t)))"
  proof (cases "t = ''..''")
    case True
    have z: "slash = 0 \<longleftrightarrow> stk = []" using out empty by simp
    show ?thesis unfolding path_token_def Let_def dd using True bk z out
      by (cases "slash > 0") (auto simp: close_def special_def slash_if_def)
  next
    case False
    then show ?thesis unfolding path_token_def Let_def dd d using out
      by (auto simp: close_def special_def slash_if_def)
  qed
  have "\<exists>cs. render stk @ CHR ''/'' # t = (render (close stk t) @ slash_if (e \<and> special t)) @ cs"
    by (cases stk) (auto simp: close_def special_def slash_if_def)
  with h show "holds dm (render (close stk t) @ slash_if (e \<and> special t))"
    using holds_prefix by metis
qed

lemma close_no_slash:
  "list_all (\<lambda>t. CHR ''/'' \<notin> set t) (t # stk) \<Longrightarrow> list_all (\<lambda>t. CHR ''/'' \<notin> set t) (close stk t)"
  by (cases stk) (auto simp: close_def)

text \<open>The next byte to examine, and what the source block still holds behind it.\<close>

definition ahead :: "mem \<Rightarrow> nat \<Rightarrow> mem \<Rightarrow> char list \<Rightarrow> char \<Rightarrow> bool" where
  "ahead M walk R s c \<longleftrightarrow> (case s of [] \<Rightarrow> c = NUL | x # s' \<Rightarrow> c = x \<and> drop walk M = map Some s' @ Some NUL # R)"

lemma ahead_Cons:
  assumes "ahead M walk R (x # s) c"
  obtains c' where "c = x" "rd M walk = Some c'" "ahead M (walk + 1) R s c'" "walk < length M"
proof -
  from assms have c: "c = x" and d: "drop walk M = map Some s @ Some NUL # R" by (auto simp: ahead_def)
  from d have l: "walk < length M" by (metis append_is_Nil_conv drop_all list.distinct(1) not_le)
  then have "drop walk M = M ! walk # drop (walk + 1) M" by (simp add: Cons_nth_drop_Suc)
  with d show thesis
    by (cases s) (use l that c in \<open>auto simp: ahead_def rd_def split: list.splits\<close>)
qed

lemma ahead_update: "out \<le> walk \<Longrightarrow> ahead M (walk + 1) R s c \<Longrightarrow> ahead (M[out := x]) (walk + 1) R s c"
  by (auto simp: ahead_def split: list.splits)

lemma simplify_loop_ok:
  assumes "holds dm (render stk @ CHR ''/'' # t)" and "list_all (\<lambda>t. CHR ''/'' \<notin> set t) (t # stk)"
    and "window_at pre t" and "slash = length (render stk)" and "out = slash + 1 + length t"
    and "ahead (if alias then dm else sm) walk R s c" and "NUL \<notin> set s" and "out \<le> walk"
    and "out + length s < length dm"
  shows "valid (simplify_loop alias sm dm walk out slash pre c) (\<lambda>(dm', n). length dm' = length dm \<and>
           n = length (simplify_from stk t s) \<and> n < length dm \<and> holds dm' (simplify_from stk t s))"
  using assms
proof (induction s arbitrary: dm stk t pre slash out walk c)
  case Nil
  then have c: "c = NUL" by (simp add: ahead_def)
  note tok = path_token_ok[OF Nil.prems(1-5), of True]
  have "length (render (close stk t) @ slash_if (special t)) \<le> length (render stk @ CHR ''/'' # t)"
    by (cases stk) (auto simp: close_def special_def slash_if_def)
  with c tok Nil.prems show ?case
    by (subst simplify_loop.simps) auto
next
  case (Cons x s)
  then obtain c' where x: "c = x" "x \<noteq> NUL" and c': "rd (if alias then dm else sm) walk = Some c'"
    "ahead (if alias then dm else sm) (walk + 1) R s c'"
    using ahead_Cons[of "if alias then dm else sm" walk R x s c] by (metis list.set_intros(1))
  let ?pre = "push_bit 8 pre OR word_of_int (schar x)"
  show ?case
  proof (cases "x = CHR ''/''")
    case True
    let ?o = "length (render (close stk t))"
    note tok = path_token_ok[OF Cons.prems(1-5), of False, unfolded slash_if_def, simplified]
    have o: "?o \<le> out" using tok Cons.prems by (cases stk) (auto simp: close_def)
    have w: "wr dm ?o x = Some (dm[?o := Some x])" using o Cons.prems by (simp add: wr_Some)
    have h: "holds (dm[?o := Some x]) (render (close stk t) @ [x])"
      using holds_wr[OF tok(2), of ?o x] w o Cons.prems by simp
    have "valid (simplify_loop alias sm (dm[?o := Some x]) (walk + 1) (?o + 1) ?o ?pre c')
        (\<lambda>(dm', n). length dm' = length (dm[?o := Some x]) \<and>
           n = length (simplify_from (close stk t) [] s) \<and> n < length (dm[?o := Some x]) \<and>
           holds dm' (simplify_from (close stk t) [] s))"
      using h True close_no_slash[OF Cons.prems(2)] window_at_close[OF Cons.prems(3)] Cons.prems o c'
        ahead_update[of ?o walk]
      by (intro Cons.IH) auto
    then show ?thesis
      using True x c' w tok(1) by (subst simplify_loop.simps) (simp add: Let_def)
  next
    case False
    have w: "wr dm out x = Some (dm[out := Some x])" using Cons.prems by (simp add: wr_Some)
    have h: "holds (dm[out := Some x]) (render stk @ CHR ''/'' # (t @ [x]))"
      using holds_wr[OF Cons.prems(1), of out x] w Cons.prems by simp
    have "valid (simplify_loop alias sm (dm[out := Some x]) (walk + 1) (out + 1) slash ?pre c')
        (\<lambda>(dm', n). length dm' = length (dm[out := Some x]) \<and>
           n = length (simplify_from stk (t @ [x]) s) \<and> n < length (dm[out := Some x]) \<and>
           holds dm' (simplify_from stk (t @ [x]) s))"
      using h False window_at_step[OF Cons.prems(3)] Cons.prems c' ahead_update[of out walk]
      by (intro Cons.IH) auto
    then show ?thesis
      using False x c' w by (subst simplify_loop.simps) (simp add: Let_def)
  qed
qed

section \<open>The whole routine\<close>

lemma drop_spaces_suffix: "\<exists>k. drop_spaces s = drop k s"
proof (induction s)
  case (Cons c s)
  then obtain k where "drop_spaces s = drop k s" by blast
  then show ?case by (auto intro: exI[of _ "Suc k"] exI[of _ 0])
qed simp

lemma drop_spaces_facts: "set (drop_spaces s) \<subseteq> set s" "length (drop_spaces s) \<le> length s"
  using drop_spaces_suffix[of s] by (auto dest: in_set_dropD)

lemma skip_spaces_ok:
  assumes "drop k m = map Some s @ Some NUL # R"
  shows "skip_spaces m k = Some (k + (length s - length (drop_spaces s))) \<and>
     drop (k + (length s - length (drop_spaces s))) m = map Some (drop_spaces s) @ Some NUL # R"
  using assms
proof (induction s arbitrary: k)
  case Nil
  then have "k < length m" "m ! k = Some NUL" by (auto simp: nth_via_drop intro: not_le_imp_less)
  with Nil show ?case by (subst skip_spaces.simps) (simp add: rd_def)
next
  case (Cons c s)
  then have k: "k < length m" "m ! k = Some c" "drop (k + 1) m = map Some s @ Some NUL # R"
    by (auto simp: nth_via_drop drop_Suc tl_drop[symmetric] intro: not_le_imp_less)
  with Cons Cons.IH[OF k(3)] drop_spaces_facts(2)[of s] show ?case
    by (subst skip_spaces.simps) (simp add: rd_def Suc_diff_le)
qed

lemma simplify_block_ok:
  assumes sm: "sm = map Some s @ Some NUL # R" and N: "NUL \<notin> set s" and ne: "drop_spaces s \<noteq> []"
    and dm: "length s + 1 < length dm" and al: "alias \<longrightarrow> dm = sm"
  shows "valid (simplify_block alias sm dm)
           (\<lambda>(dm', n). length dm' = length dm \<and> n = Suc (length (simplified s)) \<and> holds dm' (terminated (simplified s)))"
proof -
  obtain c s' where cs: "drop_spaces s = c # s'" using ne by (cases "drop_spaces s") auto
  define w where "w = length s - length (drop_spaces s)"
  have sk: "skip_spaces sm 0 = Some w" and d: "drop w sm = Some c # map Some s' @ Some NUL # R"
    using skip_spaces_ok[of 0 sm s R] sm cs by (simp_all add: w_def)
  have cN: "c \<noteq> NUL" "NUL \<notin> set s'" "length s' < length s" using drop_spaces_facts[of s] cs N by auto
  have lw: "Suc w < length sm" using arg_cong[OF d, of length] by simp
  have rdw: "rd sm w = Some c" using d lw by (simp add: rd_def nth_via_drop)
  have d1: "drop (Suc w) sm = map Some s' @ Some NUL # R"
    using d by (metis Suc_eq_plus1 drop_Suc drop_drop list.sel(3) plus_1_eq_Suc tl_drop)
  obtain c' where c': "sm ! Suc w = Some c'" "ahead sm (w + 2) R s' c'"
  proof -
    have "ahead sm (Suc w) R (NUL # s') NUL" using d1 by (simp add: ahead_def)
    from ahead_Cons[OF this] that lw show thesis by (auto simp: rd_def)
  qed
  let ?p = "c = CHR ''/''"
  define t where "t = (if ?p then [] else [c])"
  define o1 where "o1 = Suc (length t)"
  define dm2 where "dm2 = (if ?p then dm[0 := Some c] else dm[0 := Some (CHR ''/''), 1 := Some c])"
  define pre where "pre = (if \<not> ?p then push_bit 8 (word_of_int (schar (CHR ''/''))) OR word_of_int (schar c)
                else word_of_int (schar c) :: 16 word)"
  have h: "holds dm2 (CHR ''/'' # t)"
    using dm by (cases dm rule: remdups_adj.cases) (auto simp: dm2_def t_def holds_def)
  have win: "window_at pre t"
    using window_at_step[OF window_at_slash[OF window_slash], of c] window_at_slash[OF window_slash]
    by (auto simp: pre_def t_def)
  have ah: "ahead (if alias then dm2 else sm) (w + 2) R s' c'"
    using c'(2) al by (auto simp: dm2_def ahead_def split: list.splits)
  have "valid (simplify_loop alias sm dm2 (w + 2) o1 0 pre c') (\<lambda>(dm', n). length dm' = length dm2 \<and>
           n = length (simplify_from [] t s') \<and> n < length dm2 \<and> holds dm' (simplify_from [] t s'))"
    using h win ah cN dm by (intro simplify_loop_ok[where stk = "[]" and t = t])
      (auto simp: t_def o1_def dm2_def)
  moreover have "simplify_from [] t s' = simplified s" by (simp add: simplified_def cs t_def)
  ultimately obtain dm' n where L: "simplify_loop alias sm dm2 (w + 2) o1 0 pre c' = Some (dm', n)"
    "length dm' = length dm" "n = length (simplified s)" "n < length dm'" "holds dm' (simplified s)"
    by (auto simp: valid_def dm2_def split: if_splits)
  obtain m2 where m2: "wr dm' n NUL = Some m2" "length m2 = length dm'" "holds m2 (terminated (simplified s))"
    using holds_wr[OF L(5), of n NUL] L by (auto simp: valid_def terminated_def)
  have "simplify_block alias sm dm = Some (m2, Suc n)"
  proof -
    have ws: "wr dm 0 x = Some (dm[0 := Some x])" "wr (dm[0 := y]) (Suc 0) x = Some (dm[0 := y, Suc 0 := Some x])" for x y
      using dm by (auto simp: wr_def)
    have r1: "rd sm (Suc w) = Some c'" using lw c' by (simp add: rd_def)
    show ?thesis
      using sk rdw lw r1 cN L(1) m2(1) ws unfolding simplify_block_def
      by (cases ?p) (simp_all add: dm2_def o1_def t_def pre_def)
  qed
  with L m2 show ?thesis by simp
qed

lemma path_simplify_ok:
  assumes b: "buf_rep b (terminated s)" and d: "buf_rep d ds" and N: "NUL \<notin> set s"
    and ne: "drop_spaces s \<noteq> []"
  shows "valid (buffer_path_simplify alias (Some d) (Some b)) (ok_rep (terminated (simplified s)))"
proof -
  from b obtain R where R: "ptr b = Some (map Some s @ Some NUL # R)" by (rule rep_block)
  let ?rest = "\<lambda>dp. do { d \<leftarrow> dp; dm \<leftarrow> ptr d; sm \<leftarrow> (if alias then Some dm else ptr b);
         (dm, n) \<leftarrow> simplify_block alias sm dm; Some (0, Some (d\<lparr>ptr := Some dm, used := n\<rparr>)) }"
  have fin: "valid (?rest (Some d')) (ok_rep (terminated (simplified s)))"
    if h: "has d' xs 0" "length s + 1 < bsize d'" "alias \<longrightarrow> xs = terminated s" for d' xs
  proof -
    from h obtain m where m: "ptr d' = Some m" "length m = bsize d'" "holds m xs" by (auto simp: has_def)
    have "\<exists>R'. m = map Some s @ Some NUL # R'" if "alias"
    proof -
      have "take (Suc (length s)) m = map Some s @ [Some NUL]" using m that h by (simp add: holds_def terminated_def)
      then show ?thesis by (metis append.assoc append_Cons append_Nil append_take_drop_id)
    qed
    then obtain R' where "(if alias then Some m else ptr b) = Some (map Some s @ Some NUL # R')"
      "alias \<longrightarrow> m = map Some s @ Some NUL # R'" using R by (cases "alias") auto
    note sm = this
    have "valid (simplify_block alias (map Some s @ Some NUL # R') m) (\<lambda>(dm', n). length dm' = length m \<and>
        n = Suc (length (simplified s)) \<and> holds dm' (terminated (simplified s)))"
      by (rule simplify_block_ok[OF refl N ne]) (use m h sm in auto)
    then obtain dm' where "simplify_block alias (map Some s @ Some NUL # R') m = Some (dm', Suc (length (simplified s)))"
      "length dm' = length m" "holds dm' (terminated (simplified s))" by (auto simp: valid_def)
    then show ?thesis using m h sm(1) by (auto simp: buf_rep_def has_def)
  qed
  show ?thesis
  proof (cases "alias")
    case True
    have "valid (buffer_prepare_append (Some b) 1) (\<lambda>(_, dp). valid (?rest dp) (ok_rep (terminated (simplified s))))"
    proof (rule prepare_append_wp[OF b], unfold prod.case)
      fix b' assume "has b' (terminated s) 1"
      then show "valid (?rest (Some b')) (ok_rep (terminated (simplified s)))"
        by (intro fin[of b' "terminated s"]) (auto simp: has_def)
    qed
    with True R show ?thesis by (simp add: buffer_path_simplify_def valid_bind_iff case_prod_unfold)
  next
    case False
    have "valid (buffer_prepare_copy (Some d) (used b + 1)) (\<lambda>(_, dp). valid (?rest dp) (ok_rep (terminated (simplified s))))"
    proof (rule prepare_copy_wp[OF d], unfold prod.case)
      fix b' assume "has b' [] (used b + 1)"
      then show "valid (?rest (Some b')) (ok_rep (terminated (simplified s)))"
        using False buf_rep_used[OF b] by (intro fin[of b' "[]"]) (auto simp: has_def)
    qed
    with False R show ?thesis by (simp add: buffer_path_simplify_def valid_bind_iff case_prod_unfold)
  qed
qed

section \<open>What a simplified path looks like\<close>

definition normal :: "char list \<Rightarrow> bool" where
  "normal t \<longleftrightarrow> \<not> special t \<and> CHR ''/'' \<notin> set t"

lemma close_normal: "list_all normal stk \<Longrightarrow> CHR ''/'' \<notin> set t \<Longrightarrow> list_all normal (close stk t)"
  by (cases stk) (auto simp: close_def normal_def special_def)

lemma simplify_from_normal:
  assumes "list_all normal stk" and "CHR ''/'' \<notin> set t"
  shows "\<exists>stk' e. simplify_from stk t s = render stk' @ slash_if e \<and> list_all normal stk' \<and> (e \<or> stk' \<noteq> [])"
  using assms
proof (induction stk t s rule: simplify_from.induct)
  case (1 stk t)
  then show ?case using close_normal[OF 1]
    by (intro exI[of _ "close stk t"] exI[of _ "special t"]) (auto simp: close_def special_def)
next
  case (2 stk t c s)
  then show ?case using close_normal[OF 2(3,4)] by simp
qed

lemma simplified_normal:
  "\<exists>stk e. simplified s = render stk @ slash_if e \<and> list_all normal stk \<and> (e \<or> stk \<noteq> [])"
proof (cases "drop_spaces s")
  case Nil
  then show ?thesis by (intro exI[of _ "[]"] exI[of _ True]) (simp add: simplified_def slash_if_def)
next
  case (Cons c s')
  then show ?thesis
    using simplify_from_normal[of "[]" "[]" s'] simplify_from_normal[of "[]" "[c]" s']
    by (cases "c = CHR ''/''") (auto simp: simplified_def)
qed

text \<open>The components between the slashes of a string.\<close>

fun components :: "char list \<Rightarrow> char list list" where
  "components [] = [[]]"
| "components (c # s) = (if c = CHR ''/'' then [] # components s
     else (c # hd (components s)) # tl (components s))"

lemma components_neq_Nil [simp]: "components s \<noteq> []"
  by (cases s) auto

lemma components_append: "CHR ''/'' \<notin> set t \<Longrightarrow> components (t @ CHR ''/'' # s) = t # components s"
  by (induction t) auto

lemma components_single: "CHR ''/'' \<notin> set t \<Longrightarrow> components t = [t]"
  by (induction t) auto

lemma components_snoc_slash: "components (s @ ''/'' @ t) = components s @ components t"
proof (induction s)
  case (Cons c s)
  then show ?case by (cases "components s") auto
qed simp

lemma components_render:
  "list_all normal stk \<Longrightarrow> components (render stk @ slash_if e) = [] # rev stk @ (if e then [[]] else [])"
proof (induction stk arbitrary: e)
  case (Cons t stk)
  have "components (render (t # stk)) = components (render stk @ ''/'' @ t)" by simp
  also have "\<dots> = ([] # rev stk) @ [t]"
    using Cons.IH[of False] Cons.prems
    by (simp only: components_snoc_slash) (simp add: slash_if_def normal_def components_single)
  finally have "components (render (t # stk)) = [] # rev (t # stk)" by simp
  then show ?case using components_snoc_slash[of "render (t # stk)" "[]"] by (simp add: slash_if_def)
qed (simp add: slash_if_def)

lemma simplified_components:
  "\<exists>ts e. components (simplified s) = [] # ts @ (if e then [[]] else []) \<and>
      list_all (\<lambda>t. t \<notin> {[], ''.'', ''..''}) ts"
proof -
  obtain stk e where a: "simplified s = render stk @ slash_if e" "list_all normal stk"
    using simplified_normal by blast
  then have "list_all (\<lambda>t. t \<notin> {[], ''.'', ''..''}) (rev stk)"
    by (auto simp: list_all_iff normal_def special_def)
  with a components_render[OF a(2)] show ?thesis by metis
qed

lemma simplified_root: "hd (simplified s) = CHR ''/''" "simplified s \<noteq> []"
proof -
  obtain stk e where "simplified s = render stk @ slash_if e" "e \<or> stk \<noteq> []"
    using simplified_normal by blast
  moreover have "stk \<noteq> [] \<Longrightarrow> render stk \<noteq> [] \<and> hd (render stk) = CHR ''/''" for stk
  proof (induction stk)
    case (Cons t stk)
    then show ?case by (cases "stk = []") (auto simp: hd_append)
  qed simp
  ultimately show "hd (simplified s) = CHR ''/''" "simplified s \<noteq> []"
    by (cases "stk = []"; auto simp: slash_if_def hd_append)+
qed

lemma simplify_from_text: "CHR ''/'' \<notin> set u \<Longrightarrow> simplify_from stk t (u @ s) = simplify_from stk (t @ u) s"
  by (induction u arbitrary: t) auto

lemma simplify_from_fixed:
  assumes "list_all normal ts" and "normal t"
  shows "simplify_from stk t (concat (map ((#) (CHR ''/'')) ts) @ slash_if e) = render (rev ts @ t # stk) @ slash_if e"
  using assms
proof (induction ts arbitrary: stk t)
  case Nil
  then show ?case by (auto simp: slash_if_def close_def normal_def special_def)
next
  case (Cons u ts)
  then have "simplify_from (t # stk) [] (u @ concat (map ((#) (CHR ''/'')) ts) @ slash_if e)
      = simplify_from (t # stk) u (concat (map ((#) (CHR ''/'')) ts) @ slash_if e)"
    by (simp add: simplify_from_text normal_def)
  with Cons show ?case by (simp add: close_def normal_def special_def)
qed

lemma simplified_idem: "simplified (simplified s) = simplified s"
proof -
  obtain stk e where a: "simplified s = render stk @ slash_if e" "list_all normal stk" "e \<or> stk \<noteq> []"
    using simplified_normal by blast
  show ?thesis
  proof (cases "rev stk")
    case Nil
    with a show ?thesis by (simp add: simplified_def slash_if_def close_def special_def)
  next
    case (Cons t ts)
    then have n: "list_all normal (t # ts)" using a(2) by (metis list_all_rev)
    have stk: "stk = rev ts @ [t]" using Cons by (metis rev.simps(2) rev_rev_ident)
    have s: "simplified s = CHR ''/'' # t @ concat (map ((#) (CHR ''/'')) ts) @ slash_if e"
      using a(1) Cons by (simp add: render_def)
    have "simplified (simplified s) = simplify_from [] [] (t @ concat (map ((#) (CHR ''/'')) ts) @ slash_if e)"
      unfolding s by (simp add: simplified_def)
    also have "\<dots> = render (rev ts @ [t]) @ slash_if e"
      using n simplify_from_fixed[of ts t "[]" e] by (simp add: simplify_from_text normal_def)
    finally show ?thesis using stk a(1) by simp
  qed
qed

abbreviation clean :: "char list \<Rightarrow> bool" where
  "clean s \<equiv> NUL \<notin> set s"

lemma render_clean: "list_all clean stk \<Longrightarrow> clean (render stk)"
  by (induction stk) auto

lemma close_clean: "clean t \<Longrightarrow> list_all clean stk \<Longrightarrow> list_all clean (close stk t)"
  by (cases stk) (auto simp: close_def)

lemma simplify_from_clean: "clean t \<Longrightarrow> list_all clean stk \<Longrightarrow> clean s \<Longrightarrow> clean (simplify_from stk t s)"
proof (induction stk t s rule: simplify_from.induct)
  case (1 stk t)
  then show ?case using render_clean[OF close_clean, of t stk] by (simp add: slash_if_def)
next
  case (2 stk t c s)
  then show ?case using close_clean[of t stk] by (cases "c = CHR ''/''") auto
qed

lemma simplified_NUL: "clean s \<Longrightarrow> clean (simplified s)"
proof (cases "drop_spaces s")
  case (Cons c s')
  moreover assume "clean s"
  ultimately have "clean [c]" "clean s'" using drop_spaces_facts(1)[of s] by auto
  then show ?thesis
    using Cons simplify_from_clean[of "[]" "[]" s'] simplify_from_clean[of "[c]" "[]" s']
    by (simp add: simplified_def)
qed (simp add: simplified_def)

subsection \<open>The empty path\<close>

text \<open>
  For a path that is empty or blank the routine writes a slash and a NUL and then sets
  \<open>used\<close> to 3, one more than the bytes it wrote.
\<close>

lemma path_simplify_blank:
  assumes "buf_rep b (terminated s)" and "buf_rep d ds" and "drop_spaces s = []" and "used b < bsize b"
  shows "valid (buffer_path_simplify False (Some d) (Some b)) (\<lambda>(r, dp). r = 0 \<and>
     (\<exists>d' m. dp = Some d' \<and> used d' = 3 \<and> ptr d' = Some m \<and> take 2 m = [Some (CHR ''/''), Some NUL]))"
proof -
  from assms(1) obtain R where R: "ptr b = Some (map Some s @ Some NUL # R)"
    "bsize b = Suc (length s) + length R" "used b = Suc (length s)" by (rule rep_block)
  let ?m = "map Some s @ Some NUL # R"
  have sk: "skip_spaces ?m 0 = Some (length s)" "rd ?m (length s) = Some NUL" "Suc (length s) < length ?m"
    using skip_spaces_ok[of 0 ?m s R] assms(3,4) R by (auto simp: rd_def nth_append)
  have "valid (buffer_prepare_copy (Some d) (used b + 1)) (\<lambda>(r, dp). valid (do { d \<leftarrow> dp; dm \<leftarrow> ptr d; sm \<leftarrow> ptr b;
         (dm, n) \<leftarrow> simplify_block False sm dm; Some (0, Some (d\<lparr>ptr := Some dm, used := n\<rparr>)) })
      (\<lambda>(r, dp). r = (0::int) \<and>
     (\<exists>d' m. dp = Some d' \<and> used d' = 3 \<and> ptr d' = Some m \<and> take 2 m = [Some (CHR ''/''), Some NUL])))"
  proof (rule prepare_copy_wp[OF assms(2)], unfold prod.case)
    fix d' assume "has d' [] (used b + 1)"
    then obtain dm where dm: "ptr d' = Some dm" "2 \<le> length dm" using R by (auto simp: has_def)
    then obtain x y rest where "dm = x # y # rest" by (cases dm rule: remdups_adj.cases) auto
    with sk dm(1) R(1) show "valid (do { d \<leftarrow> Some d'; dm \<leftarrow> ptr d; sm \<leftarrow> ptr b;
         (dm, n) \<leftarrow> simplify_block False sm dm; Some (0, Some (d\<lparr>ptr := Some dm, used := n\<rparr>)) })
      (\<lambda>(r, dp). r = (0::int) \<and>
     (\<exists>d' m. dp = Some d' \<and> used d' = 3 \<and> ptr d' = Some m \<and> take 2 m = [Some (CHR ''/''), Some NUL]))"
      by (simp add: simplify_block_def wr_def)
  qed
  with R(1) show ?thesis by (simp add: buffer_path_simplify_def valid_bind_iff case_prod_unfold)
qed

section \<open>Properties\<close>

text \<open>
  C2: a simplified path has no empty, \<open>.\<close> or \<open>..\<close> component between its slashes, so joined
  to a document root it names nothing outside it; this holds for every source path that is
  not blank, in place or into another buffer, and the routine is free of undefined behaviour.
\<close>

theorem path_simplify_no_traversal:
  assumes "buf_rep b (terminated s)" and "buf_rep d ds" and "NUL \<notin> set s" and "drop_spaces s \<noteq> []"
  shows "valid (buffer_path_simplify alias (Some d) (Some b)) (\<lambda>(r, dp). r = 0 \<and>
     (\<exists>d' t ts e. dp = Some d' \<and> buf_rep d' (terminated t) \<and> hd t = CHR ''/'' \<and>
        components t = [] # ts @ (if e then [[]] else []) \<and> list_all (\<lambda>c. c \<notin> {[], ''.'', ''..''}) ts))"
proof -
  obtain ts e where "components (simplified s) = [] # ts @ (if e then [[]] else [])"
    "list_all (\<lambda>c. c \<notin> {[], ''.'', ''..''}) ts" using simplified_components[of s] by blast
  note s = this simplified_root(1)[of s]
  obtain d' where "buffer_path_simplify alias (Some d) (Some b) = Some (0, Some d')"
    "buf_rep d' (terminated (simplified s))"
    using path_simplify_ok[OF assms, of "alias"] by (auto simp: ok_rep_def valid_def)
  with s show ?thesis unfolding valid_def by blast
qed

lemma path_simplify_no_traversal_witness:
  "valid (buffer_path_simplify True (Some buffer_init)
        (Some \<lparr>ptr = Some (map Some ''/a/../../b'' @ [Some NUL]), used = 11, bsize = 11\<rparr>)) (\<lambda>(r, dp). r = 0 \<and>
     (\<exists>d' t ts e. dp = Some d' \<and> buf_rep d' (terminated t) \<and> hd t = CHR ''/'' \<and>
        components t = [] # ts @ (if e then [[]] else []) \<and> list_all (\<lambda>c. c \<notin> {[], ''.'', ''..''}) ts))"
  by (rule path_simplify_no_traversal[where s = "''/a/../../b''" and ds = "[]"])
    (simp_all add: buf_rep_def holds_def terminated_def buffer_init_def block_def)

text \<open>Simplifying an already simplified path in place changes nothing.\<close>

theorem path_simplify_idempotent:
  assumes "buf_rep b (terminated s)" and "NUL \<notin> set s" and "drop_spaces s \<noteq> []"
  shows "valid (do { (_, bp) \<leftarrow> buffer_path_simplify True (Some b) (Some b);
                     buffer_path_simplify True bp bp }) (ok_rep (terminated (simplified s)))"
proof -
  have "drop_spaces (simplified s) \<noteq> []"
    using simplified_root[of s] by (cases "simplified s") auto
  then have "valid (buffer_path_simplify True (Some b') (Some b')) (ok_rep (terminated (simplified s)))"
    if "buf_rep b' (terminated (simplified s))" for b'
    using path_simplify_ok[OF that that simplified_NUL[OF assms(2)], of True] by (simp add: simplified_idem)
  with path_simplify_ok[OF assms(1) assms(1) assms(2,3), of True] show ?thesis
    by (auto simp: valid_bind_iff ok_rep_def elim!: valid_weaken)
qed

lemma path_simplify_idempotent_witness:
  "valid (do { (_, bp) \<leftarrow> buffer_path_simplify True
                  (Some \<lparr>ptr = Some (map Some ''a//.'' @ [Some NUL]), used = 5, bsize = 5\<rparr>)
                  (Some \<lparr>ptr = Some (map Some ''a//.'' @ [Some NUL]), used = 5, bsize = 5\<rparr>);
               buffer_path_simplify True bp bp }) (ok_rep (terminated (simplified ''a//.'')))"
  by (rule path_simplify_idempotent)
    (simp_all add: buf_rep_def holds_def terminated_def)

end
