(* ===== verification/BufferSpec.thy ===== *)
theory BufferSpec
  imports BufferPath
begin

text \<open>
  The contract of the string buffer as a whole: a buffer that holds a NUL-free string goes
  through any sequence of the string operations of \<open>buffer.c\<close> without undefined behaviour,
  and ends up holding what the same sequence computes on plain strings.
\<close>

section \<open>Operations on strings\<close>

datatype buffer_op =
  Copy "char list" | CopyLen "char list" nat | CopyMemory_string "char list"
| Append "char list" | AppendRfill "char list" nat | AppendLen "char list" nat
| AppendLong int | CopyLong int | AppendOff int | AppendHex nat | CopyHex "char list"
| Encode "char list" buffer_encoding_t
| UrldecodePath | UrldecodeQuery | PathSimplify | ToLower | ToUpper

text \<open>The call each operation stands for; the first component is the C return value.\<close>

fun run_op :: "buffer_op \<Rightarrow> buffer \<Rightarrow> (int \<times> buffer option) option" where
  "run_op (Copy s) b = buffer_copy_string (Some b) (Some s)"
| "run_op (CopyLen s n) b = buffer_copy_string_len (Some b) (Some s) n"
| "run_op (CopyMemory_string s) b = buffer_copy_memory (Some b) (Some (terminated s)) (length s + 1)"
| "run_op (Append s) b = buffer_append_string (Some b) (Some s)"
| "run_op (AppendRfill s n) b = buffer_append_string_rfill (Some b) (Some s) n"
| "run_op (AppendLen s n) b = buffer_append_string_len (Some b) (Some s) n"
| "run_op (AppendLong v) b = buffer_append_long (Some b) v"
| "run_op (CopyLong v) b = buffer_copy_long (Some b) v"
| "run_op (AppendOff v) b = buffer_append_off_t (Some b) v"
| "run_op (AppendHex v) b = buffer_append_long_hex (Some b) v"
| "run_op (CopyHex s) b = buffer_copy_string_hex (Some b) s"
| "run_op (Encode s e) b = buffer_append_string_encoded (Some b) (Some s) e"
| "run_op UrldecodePath b = buffer_urldecode_path (Some b)"
| "run_op UrldecodeQuery b = buffer_urldecode_query (Some b)"
| "run_op PathSimplify b = buffer_path_simplify True (Some b) (Some b)"
| "run_op ToLower b = do { (r, b) \<leftarrow> buffer_to_lower b; Some (r, Some b) }"
| "run_op ToUpper b = do { (r, b) \<leftarrow> buffer_to_upper b; Some (r, Some b) }"

fun run_ops :: "buffer_op list \<Rightarrow> buffer \<Rightarrow> buffer option" where
  "run_ops [] b = Some b"
| "run_ops (op # ops) b = do { (_, bp) \<leftarrow> run_op op b; b \<leftarrow> bp; run_ops ops b }"

fun string_op :: "buffer_op \<Rightarrow> char list \<Rightarrow> char list" where
  "string_op (Copy s) t = s"
| "string_op (CopyLen s n) t = take n s"
| "string_op (CopyMemory_string s) t = s"
| "string_op (Append s) t = t @ s"
| "string_op (AppendRfill s n) t = t @ s @ replicate (n - length s) (CHR '' '')"
| "string_op (AppendLen s n) t = t @ take n s"
| "string_op (AppendLong v) t = t @ decimal v"
| "string_op (CopyLong v) t = decimal v"
| "string_op (AppendOff v) t = t @ decimal v"
| "string_op (AppendHex v) t = t @ hexadecimal v"
| "string_op (CopyHex s) t = concat (map byte_hex s)"
| "string_op (Encode s e) t = t @ concat (map (enc_bytes e (the (encoding_map e))) s)"
| "string_op UrldecodePath t = urldec False t"
| "string_op UrldecodeQuery t = urldec True t"
| "string_op PathSimplify t = simplified t"
| "string_op ToLower t = map to_lower_char t"
| "string_op ToUpper t = map to_upper_char t"

text \<open>
  What the caller owes: NUL-free strings, lengths inside them, numbers that fit a
  \<open>long\<close>, a known encoding, and a path that is not blank.
\<close>

fun op_ok :: "buffer_op \<Rightarrow> char list \<Rightarrow> bool" where
  "op_ok (Copy s) t \<longleftrightarrow> NUL \<notin> set s"
| "op_ok (CopyLen s n) t \<longleftrightarrow> NUL \<notin> set s \<and> n \<le> length s"
| "op_ok (CopyMemory_string s) t \<longleftrightarrow> NUL \<notin> set s"
| "op_ok (Append s) t \<longleftrightarrow> NUL \<notin> set s"
| "op_ok (AppendRfill s n) t \<longleftrightarrow> NUL \<notin> set s \<and> length s \<le> n"
| "op_ok (AppendLen s n) t \<longleftrightarrow> NUL \<notin> set s \<and> n \<le> length s"
| "op_ok (AppendLong v) t \<longleftrightarrow> - (2 ^ 63) < v \<and> v < 2 ^ 63"
| "op_ok (CopyLong v) t \<longleftrightarrow> - (2 ^ 63) < v \<and> v < 2 ^ 63"
| "op_ok (AppendOff v) t \<longleftrightarrow> - (2 ^ 63) < v \<and> v < 2 ^ 63"
| "op_ok (AppendHex v) t \<longleftrightarrow> True"
| "op_ok (CopyHex s) t \<longleftrightarrow> 2 * length s < 2 ^ 64"
| "op_ok (Encode s e) t \<longleftrightarrow> NUL \<notin> set s \<and> e \<noteq> ENCODING_UNSET"
| "op_ok PathSimplify t \<longleftrightarrow> drop_spaces t \<noteq> []"
| "op_ok _ t \<longleftrightarrow> True"

fun ops_ok :: "buffer_op list \<Rightarrow> char list \<Rightarrow> bool" where
  "ops_ok [] t \<longleftrightarrow> True"
| "ops_ok (op # ops) t \<longleftrightarrow> op_ok op t \<and> ops_ok ops (string_op op t)"

section \<open>The results are NUL-free\<close>

lemma digit_chars_NUL: "NUL \<notin> set digit_chars" "NUL \<notin> set hex_chars"
  by (simp_all add: digit_chars_def hex_chars_def)

lemma decimal_NUL: "NUL \<notin> set (decimal v)"
  using lsd_digits[of v] lsd_digits[of "- v"] digit_chars_NUL(1)
  by (cases "v < 0") (auto simp: decimal_def)

lemma hexadecimal_NUL: "NUL \<notin> set (hexadecimal v)"
proof -
  have "NUL \<notin> set (hex_emit v (4 * k))" for k
  proof (induction k)
    case (Suc k)
    have "hex_chars ! (v div 16 ^ k mod 16) \<noteq> NUL" by (rule hex_digit_facts[THEN conjunct2]) simp
    with Suc show ?case unfolding hex_emit_Suc by (metis set_ConsD)
  qed simp
  then show ?thesis by (simp add: hexadecimal_def)
qed

lemma and_15_int: "nat ((x :: int) AND 15) < 16"
  using take_bit_eq_mask[of 4 x] by (simp add: take_bit_eq_mod mask_eq_exp_minus_1)

lemma byte_hex_NUL: "NUL \<notin> set (byte_hex c)"
  using hex_digit_facts[OF and_15_int] by (auto simp: byte_hex_def dest: sym)

lemma urldec_NUL: "NUL \<notin> set s \<Longrightarrow> NUL \<notin> set (urldec q s)"
proof (induction s rule: length_induct)
  case (1 s)
  show ?case
  proof (cases s)
    case (Cons c s')
    from urldec_Cons_cases[of q c s'] show ?thesis
    proof cases
      case (plain x)
      with 1 Cons show ?thesis by auto
    next
      case (escape h l s'' a b)
      then have "NUL \<notin> set (urldec q s'')" using 1 Cons by simp
      moreover have "printable (unescape a b)"
        using escape digit_value_less by (intro unescape_printable') auto
      then have "unescape a b \<noteq> NUL" by (auto simp: printable_def uchar_def)
      ultimately show ?thesis unfolding Cons escape(5) by simp
    qed
  qed simp
qed

lemma lower_NUL: "to_lower_char c = NUL \<Longrightarrow> c = NUL"
proof -
  assume "to_lower_char c = NUL"
  moreover have "schar NUL = 0" by (simp add: schar_def uchar_def)
  ultimately have "schar c = schar NUL" using schar_to_lower[of c] by (auto simp: is_upper_def split: if_splits)
  then show ?thesis by simp
qed

lemma clear_bit5_NUL: "\<forall>c. is_lower c \<longrightarrow> clear_bit5 c \<noteq> NUL"
  by (simp only: char_cases) (simp add: is_lower_def clear_bit5_def char_eval char_of_def bit_0)

lemma upper_NUL: "to_upper_char c = NUL \<Longrightarrow> c = NUL"
  using clear_bit5_NUL by (auto simp: to_upper_char_def split: if_splits)

lemma map_clean: "clean t \<Longrightarrow> (\<And>c. f c = NUL \<Longrightarrow> c = NUL) \<Longrightarrow> clean (map f t)"
  by (induction t) (auto dest: sym)

lemma case_clean: "clean t \<Longrightarrow> clean (map to_lower_char t)" "clean t \<Longrightarrow> clean (map to_upper_char t)"
  by (rule map_clean[OF _ lower_NUL] map_clean[OF _ upper_NUL]; assumption)+

lemma take_clean: "clean t \<Longrightarrow> clean (take n t)"
  by (auto dest: in_set_takeD)

lemma concat_clean: "(\<And>c. c \<in> set s \<Longrightarrow> clean (f c)) \<Longrightarrow> clean (concat (map f s))"
  by auto

lemma append_clean: "clean (s @ t) \<longleftrightarrow> clean s \<and> clean t"
  by auto

lemma replicate_clean: "clean (replicate n (CHR '' ''))"
  by simp

lemmas clean_rules = decimal_NUL hexadecimal_NUL byte_hex_NUL urldec_NUL simplified_NUL take_clean case_clean
  replicate_clean

lemma string_op_NUL: "clean t \<Longrightarrow> op_ok op t \<Longrightarrow> clean (string_op op t)"
proof (cases op)
  case (Encode s e)
  assume "clean t" "op_ok op t"
  with Encode have "clean (concat (map (enc_bytes e (the (encoding_map e))) s))"
    using enc_bytes_NUL by (intro concat_clean) (metis op_ok.simps(12))
  with Encode \<open>clean t\<close> show ?thesis by simp
next
  case (CopyHex s)
  then show ?thesis using concat_clean[of s byte_hex] byte_hex_NUL by simp
qed (simp_all only: string_op.simps op_ok.simps append_clean clean_rules simp_thms)

section \<open>The simulation\<close>

lemma run_op_ok:
  assumes b: "buf_rep b (terminated t)" and t: "NUL \<notin> set t" and ok: "op_ok op t"
  shows "valid (run_op op b) (ok_rep (terminated (string_op op t)))"
proof (cases op)
  case (AppendLen s n)
  with append_string_len_ok[OF b, of n s] ok show ?thesis by (cases "n = 0") auto
next
  case (Encode s e)
  with ok obtain tbl where "encoding_map e = Some tbl" by (cases e) auto
  with Encode append_string_encoded_ok[OF b this, of s] show ?thesis by simp
next
  case ToLower
  with to_lower_ok[OF b t] show ?thesis by (auto simp: valid_bind_iff elim!: valid_weaken)
next
  case ToUpper
  with to_upper_ok[OF b t] show ?thesis by (auto simp: valid_bind_iff elim!: valid_weaken)
next
  case (AppendOff v)
  with append_long_ok[OF b, of v] ok show ?thesis by (simp add: append_off_t_eq)
next
  case (CopyMemory_string s)
  with copy_memory_ok[OF b, of "length s + 1" "terminated s"] show ?thesis by simp
qed (use ok t copy_string_ok[OF b] copy_string_len_ok[OF b] append_string_ok[OF b] append_string_rfill_ok[OF b]
    append_long_ok[OF b] copy_long_ok[OF b] append_long_hex_ok[OF b] copy_string_hex_ok[OF b]
    urldecode_ok[OF b t] path_simplify_ok[OF b b t, of True]
    in \<open>simp_all add: buffer_urldecode_path_def buffer_urldecode_query_def del: ok_rep_pair\<close>)

lemma run_ops_ok:
  "buf_rep b (terminated t) \<Longrightarrow> NUL \<notin> set t \<Longrightarrow> ops_ok ops t \<Longrightarrow>
   valid (run_ops ops b) (\<lambda>b'. buf_rep b' (terminated (fold string_op ops t)))"
proof (induction ops arbitrary: b t)
  case (Cons op ops)
  have "valid (run_op op b) (ok_rep (terminated (string_op op t)))"
    using Cons.prems by (intro run_op_ok) auto
  then obtain b' where b': "run_op op b = Some (0, Some b')" "buf_rep b' (terminated (string_op op t))"
    by (auto simp: valid_def ok_rep_def)
  have "valid (run_ops ops b') (\<lambda>b''. buf_rep b'' (terminated (fold string_op ops (string_op op t))))"
    using Cons.prems b'(2) string_op_NUL by (intro Cons.IH) auto
  with b' show ?case by simp
qed simp

section \<open>Properties\<close>

text \<open>
  C1: any sequence of string operations on a buffer that holds a NUL-free string is free of
  undefined behaviour and refines the same sequence on plain strings: the buffer ends well
  formed and holds exactly the computed string and its terminator.  Each operation has to be one the
  code is defined for: strings without NUL and counts within them, no path simplification of a blank
  string, no least \<open>long\<close> (or \<open>off_t\<close>), an encoding that is set, and room for at least the string in \<open>buffer_append_string_rfill\<close>.
\<close>

theorem buffer_operations_refine_strings:
  assumes "buf_rep b (terminated t)" and "NUL \<notin> set t" and "ops_ok ops t"
  shows "valid (run_ops ops b) (\<lambda>b'. buf_rep b' (terminated (fold string_op ops t)))"
  by (rule run_ops_ok[OF assms])

definition sample_buffer :: buffer where
  "sample_buffer = \<lparr>ptr = Some [Some (CHR ''a''), Some NUL, None], used = 2, bsize = 3\<rparr>"

lemma sample_buffer_rep: "buf_rep sample_buffer (terminated ''a'')"
  by (simp add: sample_buffer_def buf_rep_def holds_def terminated_def)

lemma buffer_operations_refine_strings_witness:
  "valid (run_ops [Append ''/%2e.'', UrldecodePath, PathSimplify, AppendLong (-5), ToUpper] sample_buffer)
     (\<lambda>b'. buf_rep b' (terminated (fold string_op
        [Append ''/%2e.'', UrldecodePath, PathSimplify, AppendLong (-5), ToUpper] ''a'')))"
  by (rule buffer_operations_refine_strings[OF sample_buffer_rep])
    (simp_all add: urldec.simps(2) digit_value_def digit_chars_def unescape_def uchar_def)

end
