(* ===== verification/CLib.thy ===== *)
theory CLib
  imports Numbers
begin

text \<open>
  The functions of the C library that the request and response code calls, on byte lists.
  A pointer into a buffer is an offset into its used bytes; reading outside them is undefined.
\<close>

section \<open>Reading bytes and strings\<close>

definition byte_at :: "char list \<Rightarrow> nat \<Rightarrow> char option" where
  "byte_at s i = (if i < length s then Some (s ! i) else None)"

lemma byte_at_Some [simp]: "i < length s \<Longrightarrow> byte_at s i = Some (s ! i)"
  by (simp add: byte_at_def)

lemma byte_at_iff: "byte_at s i = Some c \<longleftrightarrow> i < length s \<and> s ! i = c"
  by (simp add: byte_at_def)

lemma byte_at_terminated: "i \<le> length s \<Longrightarrow> byte_at (terminated s) i = Some (if i < length s then s ! i else NUL)"
  by (simp add: byte_at_def terminated_def nth_append)

lemma terminated_nth [simp]: "terminated (p @ c # s) ! length p = c" "terminated p ! length p = NUL"
  by (simp_all add: terminated_def nth_append)

text \<open>The C string that starts at an offset: it has to end before the block does.\<close>

definition str_at :: "char list \<Rightarrow> nat \<Rightarrow> char list option" where
  "str_at s i = (if NUL \<in> set (drop i s) then Some (cstr (drop i s)) else None)"

lemma str_at_terminated: "i \<le> length s \<Longrightarrow> str_at (terminated s) i = Some (cstr (drop i s))"
  by (auto simp: str_at_def terminated_def)

text \<open>The first offset of a character from \<open>i\<close> on, among the first \<open>n\<close> bytes.\<close>

fun index_of :: "char \<Rightarrow> char list \<Rightarrow> nat option" where
  "index_of c [] = None"
| "index_of c (x # s) = (if x = c then Some 0 else map_option Suc (index_of c s))"

lemma index_of_None: "index_of c s = None \<longleftrightarrow> c \<notin> set s"
  by (induction s) auto

lemma index_of_split: "c \<notin> set s \<Longrightarrow> index_of c (s @ c # t) = Some (length s)"
  by (induction s) auto

lemma index_of_Some: "index_of c s = Some i \<Longrightarrow> i < length s \<and> s ! i = c \<and> c \<notin> set (take i s)"
  by (induction s arbitrary: i) (auto split: if_splits)

definition is_prefix :: "char list \<Rightarrow> char list \<Rightarrow> bool" where
  "is_prefix p s \<longleftrightarrow> take (length p) s = p"

text \<open>\<open>strcasecmp\<close> and \<open>strncasecmp\<close>, where only equality is asked for.\<close>

definition same_nocase :: "char list \<Rightarrow> char list \<Rightarrow> bool" where
  "same_nocase s t \<longleftrightarrow> map to_lower_char s = map to_lower_char t"

section \<open>Numbers\<close>

definition is_space :: "char \<Rightarrow> bool" where
  "is_space c \<longleftrightarrow> c \<in> {CHR '' '', CHR 0x09, CHR 0x0A, CHR 0x0B, CHR 0x0C, CHR 0x0D}"

definition is_digit :: "char \<Rightarrow> bool" where
  "is_digit c \<longleftrightarrow> c \<in> set digit_chars"

text \<open>
  The subject of \<open>strtol\<close> and \<open>strtoul\<close> with base 10: whether there is a minus sign, the
  digits, and the offset behind them; without digits that offset is 0.
\<close>

definition number_subject :: "char list \<Rightarrow> bool \<times> char list \<times> nat" where
  "number_subject s =
     (let ws = takeWhile is_space s; rest = dropWhile is_space s;
          signed = (rest \<noteq> [] \<and> hd rest \<in> set ''+-'');
          ds = takeWhile is_digit (if signed then tl rest else rest)
      in (signed \<and> hd rest = CHR ''-'', ds,
          if ds = [] then 0 else length ws + (if signed then 1 else 0) + length ds))"

definition LONG_MAX :: int where "LONG_MAX = 2 ^ 63 - 1"
definition ULONG_MAX :: nat where "ULONG_MAX = 2 ^ 64 - 1"

definition c_strtol :: "char list \<Rightarrow> int \<times> nat" where
  "c_strtol s = (let (neg, ds, end) = number_subject s; v = int (dec_value 0 ds)
     in (if neg then max (- v) (- LONG_MAX - 1) else min v LONG_MAX, end))"

definition c_strtoul :: "char list \<Rightarrow> nat \<times> nat" where
  "c_strtoul s = (let (neg, ds, end) = number_subject s; v = dec_value 0 ds
     in (if v > ULONG_MAX then ULONG_MAX else if neg \<and> v \<noteq> 0 then ULONG_MAX + 1 - v else v, end))"

lemma takeWhile_all [simp]: "list_all P s \<Longrightarrow> takeWhile P s = s" "list_all P s \<Longrightarrow> dropWhile P s = []"
  by (induction s) auto

lemma digit_not_space: "is_digit c \<Longrightarrow> \<not> is_space c \<and> c \<noteq> CHR ''+'' \<and> c \<noteq> CHR ''-''"
  by (auto simp: is_digit_def is_space_def digit_chars_def)

text \<open>A string of digits is read whole.\<close>

lemma subject_digits: "list_all is_digit ds \<Longrightarrow> number_subject ds = (False, ds, length ds)"
  by (cases ds) (auto simp: number_subject_def Let_def dest: digit_not_space)

lemma strtoul_digits: "list_all is_digit ds \<Longrightarrow> c_strtoul ds = (min (dec_value 0 ds) ULONG_MAX, length ds)"
  by (auto simp: c_strtoul_def subject_digits Let_def)

lemma strtol_digits: "list_all is_digit ds \<Longrightarrow> c_strtol ds = (min (int (dec_value 0 ds)) LONG_MAX, length ds)"
  by (simp add: c_strtol_def subject_digits)

definition SSIZE_MAX :: nat where
  "SSIZE_MAX = (2 ^ 64 - 1) div 2"

section \<open>Splitting at a character\<close>

fun split_on :: "char \<Rightarrow> char list \<Rightarrow> char list list" where
  "split_on d [] = [[]]"
| "split_on d (c # s) = (if c = d then [] # split_on d s
     else (c # hd (split_on d s)) # tl (split_on d s))"

lemma split_on_neq_Nil [simp]: "split_on d s \<noteq> []"
  by (induction s) auto

lemma split_on_single: "d \<notin> set s \<Longrightarrow> split_on d s = [s]"
  by (induction s) auto

lemma split_on_append: "split_on d (s @ d # t) = split_on d s @ split_on d t"
proof (induction s)
  case (Cons c s)
  then show ?case by (cases "split_on d s") auto
qed simp

text \<open>Taking the last part off.\<close>

lemma split_on_cases:
  obtains (last) "d \<notin> set s" "split_on d s = [s]"
  | (more) a b where "s = a @ d # b" "d \<notin> set b" "split_on d s = split_on d a @ [b]"
proof (cases "d \<in> set s")
  case True
  then obtain a b where "s = a @ d # b" "d \<notin> set b" by (meson split_list_last)
  with more show ?thesis by (simp add: split_on_append split_on_single)
next
  case False
  with last show ?thesis by (simp add: split_on_single)
qed

end
