(* ===== verification/Keyvalue.thy ===== *)
theory Keyvalue
  imports Prelude
begin

text \<open>
  \<open>keyvalue.c\<close>: the HTTP name tables with their two lookups, and the growable key-value
  buffers the configuration fills.  A table keeps its terminating entry, whose value is
  \<open>NULL\<close> (\<open>None\<close>).
\<close>

section \<open>The enumerations\<close>

datatype http_method_t =
  HTTP_METHOD_UNSET
| HTTP_METHOD_GET
| HTTP_METHOD_POST
| HTTP_METHOD_HEAD
| HTTP_METHOD_OPTIONS
| HTTP_METHOD_PROPFIND
| HTTP_METHOD_MKCOL
| HTTP_METHOD_PUT
| HTTP_METHOD_DELETE
| HTTP_METHOD_COPY
| HTTP_METHOD_MOVE
| HTTP_METHOD_PROPPATCH
| HTTP_METHOD_REPORT
| HTTP_METHOD_CHECKOUT
| HTTP_METHOD_CHECKIN
| HTTP_METHOD_VERSION_CONTROL
| HTTP_METHOD_UNCHECKOUT
| HTTP_METHOD_MKACTIVITY
| HTTP_METHOD_MERGE
| HTTP_METHOD_LOCK
| HTTP_METHOD_UNLOCK
| HTTP_METHOD_LABEL
| HTTP_METHOD_CONNECT

fun http_method_int :: "http_method_t \<Rightarrow> int" where
  "http_method_int HTTP_METHOD_UNSET = -1"
| "http_method_int HTTP_METHOD_GET = 0"
| "http_method_int HTTP_METHOD_POST = 1"
| "http_method_int HTTP_METHOD_HEAD = 2"
| "http_method_int HTTP_METHOD_OPTIONS = 3"
| "http_method_int HTTP_METHOD_PROPFIND = 4"
| "http_method_int HTTP_METHOD_MKCOL = 5"
| "http_method_int HTTP_METHOD_PUT = 6"
| "http_method_int HTTP_METHOD_DELETE = 7"
| "http_method_int HTTP_METHOD_COPY = 8"
| "http_method_int HTTP_METHOD_MOVE = 9"
| "http_method_int HTTP_METHOD_PROPPATCH = 10"
| "http_method_int HTTP_METHOD_REPORT = 11"
| "http_method_int HTTP_METHOD_CHECKOUT = 12"
| "http_method_int HTTP_METHOD_CHECKIN = 13"
| "http_method_int HTTP_METHOD_VERSION_CONTROL = 14"
| "http_method_int HTTP_METHOD_UNCHECKOUT = 15"
| "http_method_int HTTP_METHOD_MKACTIVITY = 16"
| "http_method_int HTTP_METHOD_MERGE = 17"
| "http_method_int HTTP_METHOD_LOCK = 18"
| "http_method_int HTTP_METHOD_UNLOCK = 19"
| "http_method_int HTTP_METHOD_LABEL = 20"
| "http_method_int HTTP_METHOD_CONNECT = 21"

text \<open>The cast back from \<open>int\<close>; no other value reaches it.\<close>

definition http_method_of :: "int \<Rightarrow> http_method_t" where
  "http_method_of n = (if 0 \<le> n \<and> n < 22 then [HTTP_METHOD_GET,
      HTTP_METHOD_POST,
      HTTP_METHOD_HEAD,
      HTTP_METHOD_OPTIONS,
      HTTP_METHOD_PROPFIND,
      HTTP_METHOD_MKCOL,
      HTTP_METHOD_PUT,
      HTTP_METHOD_DELETE,
      HTTP_METHOD_COPY,
      HTTP_METHOD_MOVE,
      HTTP_METHOD_PROPPATCH,
      HTTP_METHOD_REPORT,
      HTTP_METHOD_CHECKOUT,
      HTTP_METHOD_CHECKIN,
      HTTP_METHOD_VERSION_CONTROL,
      HTTP_METHOD_UNCHECKOUT,
      HTTP_METHOD_MKACTIVITY,
      HTTP_METHOD_MERGE,
      HTTP_METHOD_LOCK,
      HTTP_METHOD_UNLOCK,
      HTTP_METHOD_LABEL,
      HTTP_METHOD_CONNECT] ! nat n else HTTP_METHOD_UNSET)"

datatype http_version_t = HTTP_VERSION_UNSET | HTTP_VERSION_1_0 | HTTP_VERSION_1_1

fun http_version_int :: "http_version_t \<Rightarrow> int" where
  "http_version_int HTTP_VERSION_UNSET = -1"
| "http_version_int HTTP_VERSION_1_0 = 0"
| "http_version_int HTTP_VERSION_1_1 = 1"

section \<open>The tables\<close>

type_synonym keyvalue = "int \<times> char list option"

definition http_versions :: "keyvalue list" where
  "http_versions = [
     (http_version_int HTTP_VERSION_1_1, Some ''HTTP/1.1''),
     (http_version_int HTTP_VERSION_1_0, Some ''HTTP/1.0''),
     (http_version_int HTTP_VERSION_UNSET, None)]"

definition http_methods :: "keyvalue list" where
  "http_methods = [
     (http_method_int HTTP_METHOD_GET, Some ''GET''),
     (http_method_int HTTP_METHOD_POST, Some ''POST''),
     (http_method_int HTTP_METHOD_HEAD, Some ''HEAD''),
     (http_method_int HTTP_METHOD_PROPFIND, Some ''PROPFIND''),
     (http_method_int HTTP_METHOD_PROPPATCH, Some ''PROPPATCH''),
     (http_method_int HTTP_METHOD_REPORT, Some ''REPORT''),
     (http_method_int HTTP_METHOD_OPTIONS, Some ''OPTIONS''),
     (http_method_int HTTP_METHOD_MKCOL, Some ''MKCOL''),
     (http_method_int HTTP_METHOD_PUT, Some ''PUT''),
     (http_method_int HTTP_METHOD_DELETE, Some ''DELETE''),
     (http_method_int HTTP_METHOD_COPY, Some ''COPY''),
     (http_method_int HTTP_METHOD_MOVE, Some ''MOVE''),
     (http_method_int HTTP_METHOD_LABEL, Some ''LABEL''),
     (http_method_int HTTP_METHOD_CHECKOUT, Some ''CHECKOUT''),
     (http_method_int HTTP_METHOD_CHECKIN, Some ''CHECKIN''),
     (http_method_int HTTP_METHOD_MERGE, Some ''MERGE''),
     (http_method_int HTTP_METHOD_LOCK, Some ''LOCK''),
     (http_method_int HTTP_METHOD_UNLOCK, Some ''UNLOCK''),
     (http_method_int HTTP_METHOD_MKACTIVITY, Some ''MKACTIVITY''),
     (http_method_int HTTP_METHOD_UNCHECKOUT, Some ''UNCHECKOUT''),
     (http_method_int HTTP_METHOD_VERSION_CONTROL, Some ''VERSION-CONTROL''),
     (http_method_int HTTP_METHOD_CONNECT, Some ''CONNECT''),
     (http_method_int HTTP_METHOD_UNSET, None)]"

definition http_status :: "keyvalue list" where
  "http_status = [
     (100, Some ''Continue''),
     (101, Some ''Switching Protocols''),
     (102, Some ''Processing''),
     (200, Some ''OK''),
     (201, Some ''Created''),
     (202, Some ''Accepted''),
     (203, Some ''Non-Authoritative Information''),
     (204, Some ''No Content''),
     (205, Some ''Reset Content''),
     (206, Some ''Partial Content''),
     (207, Some ''Multi-status''),
     (300, Some ''Multiple Choices''),
     (301, Some ''Moved Permanently''),
     (302, Some ''Found''),
     (303, Some ''See Other''),
     (304, Some ''Not Modified''),
     (305, Some ''Use Proxy''),
     (306, Some ''(Unused)''),
     (307, Some ''Temporary Redirect''),
     (400, Some ''Bad Request''),
     (401, Some ''Unauthorized''),
     (402, Some ''Payment Required''),
     (403, Some ''Forbidden''),
     (404, Some ''Not Found''),
     (405, Some ''Method Not Allowed''),
     (406, Some ''Not Acceptable''),
     (407, Some ''Proxy Authentication Required''),
     (408, Some ''Request Timeout''),
     (409, Some ''Conflict''),
     (410, Some ''Gone''),
     (411, Some ''Length Required''),
     (412, Some ''Precondition Failed''),
     (413, Some ''Request Entity Too Large''),
     (414, Some ''Request-URI Too Long''),
     (415, Some ''Unsupported Media Type''),
     (416, Some ''Requested Range Not Satisfiable''),
     (417, Some ''Expectation Failed''),
     (422, Some ''Unprocessable Entity''),
     (423, Some ''Locked''),
     (424, Some ''Failed Dependency''),
     (426, Some ''Upgrade Required''),
     (500, Some ''Internal Server Error''),
     (501, Some ''Not Implemented''),
     (502, Some ''Bad Gateway''),
     (503, Some ''Service Not Available''),
     (504, Some ''Gateway Timeout''),
     (505, Some ''HTTP Version Not Supported''),
     (507, Some ''Insufficient Storage''),
     (-1, None)]"

definition http_status_body :: "keyvalue list" where
  "http_status_body = [
     (400, Some ''400.html''),
     (401, Some ''401.html''),
     (403, Some ''403.html''),
     (404, Some ''404.html''),
     (411, Some ''411.html''),
     (416, Some ''416.html''),
     (500, Some ''500.html''),
     (501, Some ''501.html''),
     (503, Some ''503.html''),
     (505, Some ''505.html''),
     (-1, None)]"

section \<open>The lookups\<close>

fun keyvalue_get_value :: "keyvalue list \<Rightarrow> int \<Rightarrow> char list option" where
  "keyvalue_get_value ((key, Some v) # kv) k = (if key = k then Some v else keyvalue_get_value kv k)"
| "keyvalue_get_value ((key, None) # kv) k = None"
| "keyvalue_get_value [] k = None"

fun keyvalue_get_key :: "keyvalue list \<Rightarrow> char list \<Rightarrow> int" where
  "keyvalue_get_key ((key, Some v) # kv) s = (if v = s then key else keyvalue_get_key kv s)"
| "keyvalue_get_key ((key, None) # kv) s = -1"
| "keyvalue_get_key [] s = -1"

definition get_http_version_name :: "int \<Rightarrow> char list option" where
  "get_http_version_name i = keyvalue_get_value http_versions i"

definition get_http_status_name :: "int \<Rightarrow> char list option" where
  "get_http_status_name i = keyvalue_get_value http_status i"

definition get_http_method_name :: "http_method_t \<Rightarrow> char list option" where
  "get_http_method_name i = keyvalue_get_value http_methods (http_method_int i)"

definition get_http_status_body_name :: "int \<Rightarrow> char list option" where
  "get_http_status_body_name i = keyvalue_get_value http_status_body i"

definition get_http_version_key :: "char list \<Rightarrow> int" where
  "get_http_version_key s = keyvalue_get_key http_versions s"

definition get_http_method_key :: "char list \<Rightarrow> http_method_t" where
  "get_http_method_key s = http_method_of (keyvalue_get_key http_methods s)"

text \<open>A table is one-to-one: then the two lookups are inverse to each other.\<close>

fun entries :: "keyvalue list \<Rightarrow> (int \<times> char list) list" where
  "entries ((key, Some v) # kv) = (key, v) # entries kv"
| "entries _ = []"

lemma get_value_map_of: "keyvalue_get_value kv k = map_of (entries kv) k"
  by (induction kv k rule: keyvalue_get_value.induct) auto

lemma get_key_entry: "keyvalue_get_key kv s \<noteq> -1 \<Longrightarrow> (keyvalue_get_key kv s, s) \<in> set (entries kv)"
  by (induction kv s rule: keyvalue_get_key.induct) (auto split: if_splits)

lemma entry_get_key: "(k, s) \<in> set (entries kv) \<Longrightarrow> distinct (map snd (entries kv)) \<Longrightarrow> keyvalue_get_key kv s = k"
  by (induction kv s rule: keyvalue_get_key.induct) (auto intro: rev_image_eqI)

locale name_table =
  fixes kv :: "keyvalue list"
  assumes keys: "distinct (map fst (entries kv))"
    and names: "distinct (map snd (entries kv))"
    and nonneg: "list_all (\<lambda>(k, _). 0 \<le> k) (entries kv)"
begin

lemma value_entry: "keyvalue_get_value kv k = Some v \<longleftrightarrow> (k, v) \<in> set (entries kv)"
  using keys by (simp add: get_value_map_of)

lemma value_key: "keyvalue_get_value kv k = Some v \<Longrightarrow> keyvalue_get_key kv v = k"
  using names by (simp add: value_entry entry_get_key)

lemma key_value: "keyvalue_get_key kv s \<noteq> -1 \<Longrightarrow> keyvalue_get_value kv (keyvalue_get_key kv s) = Some s"
  by (simp add: value_entry get_key_entry)

lemma key_unknown: "keyvalue_get_key kv s = -1 \<longleftrightarrow> s \<notin> snd ` set (entries kv)"
proof
  assume "keyvalue_get_key kv s = -1"
  then show "s \<notin> snd ` set (entries kv)"
    using entry_get_key[of _ s kv] names nonneg by (force simp: list_all_iff)
next
  assume "s \<notin> snd ` set (entries kv)"
  then show "keyvalue_get_key kv s = -1" using get_key_entry[of kv s] by force
qed

end

interpretation versions: name_table http_versions
  by unfold_locales (simp_all add: http_versions_def)

interpretation methods: name_table http_methods
  by unfold_locales (simp_all add: http_methods_def)

interpretation status: name_table http_status
  by unfold_locales (simp_all add: http_status_def)

interpretation status_body: name_table http_status_body
  by unfold_locales (simp_all add: http_status_body_def)

text \<open>Every method of the enumeration has a name, and the name denotes it.\<close>

lemma method_name_defined: "m \<noteq> HTTP_METHOD_UNSET \<Longrightarrow> get_http_method_name m \<noteq> None"
  by (cases m) (simp_all add: get_http_method_name_def http_methods_def)

lemma method_of_int: "http_method_of (http_method_int m) = m"
  by (cases m) (simp_all add: http_method_of_def)

lemma method_roundtrip: "get_http_method_name m = Some s \<Longrightarrow> get_http_method_key s = m"
  using methods.value_key[of "http_method_int m" s]
  by (simp add: get_http_method_name_def get_http_method_key_def method_of_int)

text \<open>Each status that has an error page also has a reason phrase.\<close>

lemma status_body_has_name: "get_http_status_body_name i \<noteq> None \<Longrightarrow> get_http_status_name i \<noteq> None"
  by (auto simp: get_http_status_body_name_def get_http_status_name_def status_body.value_entry
      status.value_entry http_status_body_def http_status_def split: if_splits)

section \<open>The growable buffers\<close>

text \<open>
  \<open>KVB(x)\<close>: an array of pointers to entries, of which \<open>kused\<close> are in use.  The unused ones
  point to zeroed entries, written \<open>zero\<close>.
\<close>

record 'e kvb =
  kv :: "'e list"
  kused :: nat
  ksize :: nat

definition kvb_init :: "'e kvb" where
  "kvb_init = \<lparr>kv = [], kused = 0, ksize = 0\<rparr>"

definition kvb_room :: "'e \<Rightarrow> 'e kvb \<Rightarrow> 'e kvb" where
  "kvb_room zero b =
     (if ksize b = 0 then b\<lparr>ksize := 4, kv := replicate 4 zero\<rparr>
      else if kused b = ksize b
      then b\<lparr>ksize := ksize b + 4, kv := take (kused b) (kv b) @ replicate (ksize b + 4 - kused b) zero\<rparr>
      else b)"

definition kvb_store :: "'e \<Rightarrow> 'e kvb \<Rightarrow> 'e kvb option" where
  "kvb_store e b = (if kused b < length (kv b) then Some (b\<lparr>kv := (kv b)[kused b := e], kused := kused b + 1\<rparr>) else None)"

type_synonym keyvalue_entry = "int \<times> char list option"
type_synonym s_keyvalue_entry = "char list option \<times> char list option"

definition keyvalue_buffer_append ::
    "keyvalue_entry kvb \<Rightarrow> int \<Rightarrow> char list \<Rightarrow> (int \<times> keyvalue_entry kvb) option" where
  "keyvalue_buffer_append b key v = do { b \<leftarrow> kvb_store (key, Some v) (kvb_room (0, None) b); Some (0, b) }"

definition s_keyvalue_buffer_append ::
    "s_keyvalue_entry kvb \<Rightarrow> char list option \<Rightarrow> char list \<Rightarrow> (int \<times> s_keyvalue_entry kvb) option" where
  "s_keyvalue_buffer_append b key v =
     (let b = (if ksize b = 0 then b\<lparr>kused := 0\<rparr> else b) in
      do { b \<leftarrow> kvb_store (key, Some v) (kvb_room (None, None) b); Some (0, b) })"

datatype httpauth_type = HTTP_AUTH_BASIC | HTTP_AUTH_DIGEST

type_synonym httpauth_keyvalue_entry = "char list option \<times> char list option \<times> httpauth_type"

definition httpauth_keyvalue_buffer_append ::
    "httpauth_keyvalue_entry kvb \<Rightarrow> char list \<Rightarrow> char list \<Rightarrow> httpauth_type \<Rightarrow> (int \<times> httpauth_keyvalue_entry kvb) option" where
  "httpauth_keyvalue_buffer_append b key realm t = do {
     b \<leftarrow> kvb_store (Some key, Some realm, t) (kvb_room (None, None, HTTP_AUTH_BASIC) b); Some (0, b) }"

text \<open>
  The regular-expression variant compiles the key first; \<open>compile\<close> and \<open>study\<close> are the
  PCRE library's functions, the result of \<open>study\<close> being an error flag and the extra data.
  The compiled expression is stored before the study may fail, in an entry not yet in use.
\<close>

definition pcre_keyvalue_buffer_append ::
    "(char list \<Rightarrow> 'r option) \<Rightarrow> ('r \<Rightarrow> bool \<times> 'x option) \<Rightarrow>
     ('r option \<times> 'x option \<times> char list option) kvb \<Rightarrow> char list option \<Rightarrow> char list \<Rightarrow>
     (int \<times> ('r option \<times> 'x option \<times> char list option) kvb) option" where
  "pcre_keyvalue_buffer_append compile study b key v = (case key of None \<Rightarrow> Some (-1, b) | Some key \<Rightarrow>
     let b = (if ksize b = 0 then b\<lparr>kused := 0\<rparr> else b);
         b = kvb_room (None, None, None) b
     in if kused b \<ge> length (kv b) then None
        else case compile key of
          None \<Rightarrow> Some (-1, b\<lparr>kv := (kv b)[kused b := (None, snd (kv b ! kused b))]\<rparr>)
        | Some r \<Rightarrow>
            let (err, extra) = study r;
                e = (Some r, extra, snd (snd (kv b ! kused b)))
            in if extra = None \<and> err then Some (-1, b\<lparr>kv := (kv b)[kused b := e]\<rparr>)
               else do { b \<leftarrow> kvb_store (Some r, extra, Some v) b; Some (0, b) })"

definition kvb_inv :: "'e kvb \<Rightarrow> bool" where
  "kvb_inv b \<longleftrightarrow> length (kv b) = ksize b \<and> kused b \<le> ksize b \<and> ksize b mod 4 = 0"

definition kvb_list :: "'e kvb \<Rightarrow> 'e list" where
  "kvb_list b = take (kused b) (kv b)"

lemma kvb_room_ok:
  "kvb_inv b \<Longrightarrow> kvb_inv (kvb_room z b) \<and> kvb_list (kvb_room z b) = kvb_list b \<and>
     kused (kvb_room z b) = kused b \<and> kused b < ksize (kvb_room z b)"
  by (auto simp: kvb_inv_def kvb_room_def kvb_list_def)

lemma kvb_append_ok:
  assumes "kvb_inv b"
  shows "valid (kvb_store e (kvb_room z b)) (\<lambda>b'. kvb_inv b' \<and> kvb_list b' = kvb_list b @ [e])"
  using kvb_room_ok[OF assms, of z]
  by (auto simp: kvb_store_def kvb_inv_def kvb_list_def take_Suc_conv_app_nth)

text \<open>The contract the configuration code uses: a vector that grows at its end.\<close>

locale growing_vector =
  fixes inv :: "'v \<Rightarrow> bool" and items :: "'v \<Rightarrow> 'e list" and empty :: 'v
    and entry :: "'x \<Rightarrow> 'e" and add :: "'v \<Rightarrow> 'x \<Rightarrow> (int \<times> 'v) option"
  assumes empty: "inv empty" "items empty = []"
    and add: "inv v \<Longrightarrow> valid (add v x) (\<lambda>(r, v'). r = 0 \<and> inv v' \<and> items v' = items v @ [entry x])"
begin

fun add_all :: "'v \<Rightarrow> 'x list \<Rightarrow> 'v option" where
  "add_all v [] = Some v"
| "add_all v (x # xs) = do { (_, v) \<leftarrow> add v x; add_all v xs }"

lemma add_all: "inv v \<Longrightarrow> valid (add_all v xs) (\<lambda>v'. inv v' \<and> items v' = items v @ map entry xs)"
proof (induction xs arbitrary: v)
  case (Cons x xs)
  from add[OF Cons.prems, of x] obtain v' where
    "add v x = Some (0, v')" "inv v'" "items v' = items v @ [entry x]" by (auto simp: valid_def)
  with Cons.IH[of v'] show ?case by simp
qed simp

lemma add_all_from_empty: "valid (add_all empty xs) (\<lambda>v. inv v \<and> items v = map entry xs)"
  using add_all[OF empty(1), of xs] empty(2) by simp

end

lemma kvb_init_inv: "kvb_inv kvb_init" "kvb_list kvb_init = []"
  by (simp_all add: kvb_inv_def kvb_init_def kvb_list_def)

lemma kvb_unused: "kvb_inv b \<Longrightarrow> (if ksize b = 0 then b\<lparr>kused := 0\<rparr> else b) = b"
  by (cases b) (auto simp: kvb_inv_def)

lemmas kvb_append_intro = kvb_init_inv valid_weaken[OF kvb_append_ok]

interpretation kvb: growing_vector kvb_inv kvb_list kvb_init
    "\<lambda>(k, v). (k, Some v)" "\<lambda>b (k, v). keyvalue_buffer_append b k v"
  by unfold_locales (auto simp: keyvalue_buffer_append_def valid_bind_iff intro: kvb_append_intro)

interpretation s_kvb: growing_vector kvb_inv kvb_list kvb_init
    "\<lambda>(k, v). (k, Some v)" "\<lambda>b (k, v). s_keyvalue_buffer_append b k v"
  by unfold_locales
    (auto simp: s_keyvalue_buffer_append_def valid_bind_iff Let_def kvb_unused intro: kvb_append_intro)

interpretation httpauth_kvb: growing_vector kvb_inv kvb_list kvb_init
    "\<lambda>(k, r, t). (Some k, Some r, t)" "\<lambda>b (k, r, t). httpauth_keyvalue_buffer_append b k r t"
  by unfold_locales (auto simp: httpauth_keyvalue_buffer_append_def valid_bind_iff intro: kvb_append_intro)

text \<open>The regular-expression buffer keeps its entries when a key does not compile.\<close>

lemma pcre_append_ok:
  assumes "kvb_inv b"
  shows "valid (pcre_keyvalue_buffer_append compile study b (Some key) v) (\<lambda>(r, b'). kvb_inv b' \<and>
     (case compile key of
        None \<Rightarrow> r = -1 \<and> kvb_list b' = kvb_list b
      | Some rx \<Rightarrow> if snd (study rx) = None \<and> fst (study rx) then r = -1 \<and> kvb_list b' = kvb_list b
                  else r = 0 \<and> kvb_list b' = kvb_list b @ [(Some rx, snd (study rx), Some v)]))"
proof -
  let ?b = "kvb_room (None, None, None) b"
  note room = kvb_room_ok[OF assms, of "(None, None, None)"]
  then have fits: "\<not> length (kv ?b) \<le> kused ?b" by (simp add: kvb_inv_def)
  have keep: "kvb_inv (?b\<lparr>kv := (kv ?b)[kused ?b := e]\<rparr>) \<and>
      kvb_list (?b\<lparr>kv := (kv ?b)[kused ?b := e]\<rparr>) = kvb_list b" for e
    using room by (auto simp: kvb_inv_def kvb_list_def)
  show ?thesis
  proof (cases "compile key")
    case (Some rx)
    show ?thesis
    proof (cases "snd (study rx) = None \<and> fst (study rx)")
      case False
      then show ?thesis using Some fits
        by (auto simp: pcre_keyvalue_buffer_append_def kvb_unused[OF assms] valid_bind_iff
            case_prod_unfold Let_def intro!: valid_weaken[OF kvb_append_ok[OF assms]])
    qed (use Some fits keep in
        \<open>auto simp: pcre_keyvalue_buffer_append_def kvb_unused[OF assms] case_prod_unfold Let_def\<close>)
  qed (use fits keep in \<open>auto simp: pcre_keyvalue_buffer_append_def kvb_unused[OF assms] Let_def\<close>)
qed

section \<open>Properties\<close>

text \<open>
  Every method has a name in the table and the name denotes the method; a string that is
  no method's name denotes no method.
\<close>

theorem method_names:
  "(if m = HTTP_METHOD_UNSET then get_http_method_name m = None
    else \<exists>s. get_http_method_name m = Some s \<and> get_http_method_key s = m) \<and>
   (get_http_method_key s' = HTTP_METHOD_UNSET \<longleftrightarrow> s' \<notin> snd ` set (entries http_methods))"
proof
  show "if m = HTTP_METHOD_UNSET then get_http_method_name m = None
    else \<exists>s. get_http_method_name m = Some s \<and> get_http_method_key s = m"
  proof (cases "m = HTTP_METHOD_UNSET")
    case True
    then show ?thesis by (simp add: get_http_method_name_def http_methods_def)
  next
    case False
    then obtain s where "get_http_method_name m = Some s" using method_name_defined by blast
    with False method_roundtrip show ?thesis by auto
  qed
  have "http_method_of n = HTTP_METHOD_UNSET \<longleftrightarrow> n = -1" if "n \<in> {-1} \<union> fst ` set (entries http_methods)" for n
    using that by (auto simp: http_methods_def http_method_of_def)
  moreover have "keyvalue_get_key http_methods s' \<in> {-1} \<union> fst ` set (entries http_methods)"
    using get_key_entry[of http_methods s'] by force
  ultimately show "get_http_method_key s' = HTTP_METHOD_UNSET \<longleftrightarrow> s' \<notin> snd ` set (entries http_methods)"
    using methods.key_unknown[of s'] by (simp add: get_http_method_key_def)
qed

end
