(* ===== verification/ArrayMap.thy ===== *)
theory ArrayMap
  imports Numbers
begin

text \<open>
  \<open>array.c\<close>: the associative array behind request and response headers, environments and
  the configuration.  Elements are kept in insertion order in \<open>adata\<close>; \<open>sorted_ndx\<close> (\<open>sorted\<close> in the source) lists their
  indices by key, and a halving search walks it.  Keys and string values are the used bytes
  of their buffers, NUL included.  A sorted cell that was never written is \<open>None\<close>.
\<close>

section \<open>Elements\<close>

text \<open>
  The element kinds with the payload they add; the header-list variant of a string differs
  only in its \<open>insert_dup\<close> function.  Nested arrays are opaque here.
\<close>

datatype data_type_t = TYPE_UNSET | TYPE_STRING | TYPE_COUNT | TYPE_ARRAY | TYPE_INTEGER
  | TYPE_FASTCGI | TYPE_CONFIG

datatype 'a payload =
  DString "char list" | DResponse "char list" | DInteger int | DCount int | DArray 'a

fun payload_type :: "'a payload \<Rightarrow> data_type_t" where
  "payload_type (DString _) = TYPE_STRING"
| "payload_type (DResponse _) = TYPE_STRING"
| "payload_type (DInteger _) = TYPE_INTEGER"
| "payload_type (DCount _) = TYPE_COUNT"
| "payload_type (DArray _) = TYPE_ARRAY"

record 'a data_unset =
  key :: "char list"
  is_index_key :: bool
  payload :: "'a payload"

text \<open>\<open>buffer_append_string_buffer\<close> and \<open>buffer_copy_string_buffer\<close> on the used bytes.\<close>

definition append_bytes :: "char list \<Rightarrow> char list \<Rightarrow> char list" where
  "append_bytes v src = (if length src \<le> 1 then v else appended v (butlast src))"

definition data_string_init :: "'a data_unset" where
  "data_string_init = \<lparr>key = [], is_index_key = False, payload = DString []\<rparr>"

definition data_response_init :: "'a data_unset" where
  "data_response_init = data_string_init\<lparr>payload := DResponse []\<rparr>"

definition data_integer_init :: "'a data_unset" where
  "data_integer_init = \<lparr>key = [], is_index_key = False, payload = DInteger 0\<rparr>"

definition data_count_init :: "'a data_unset" where
  "data_count_init = \<lparr>key = [], is_index_key = False, payload = DCount 1\<rparr>"

definition data_string_insert_dup :: "char list \<Rightarrow> char list \<Rightarrow> char list" where
  "data_string_insert_dup dst src =
     (if dst \<noteq> [] then append_bytes (appended dst '', '') src else src)"

definition data_response_insert_dup :: "char list \<Rightarrow> char list \<Rightarrow> char list \<Rightarrow> char list" where
  "data_response_insert_dup k dst src =
     (if dst \<noteq> []
      then append_bytes (appended (append_bytes (appended dst [CR, LF]) k) '': '') src else src)"

text \<open>The C \<open>int\<close> of a counter is added with the usual 32-bit arithmetic.\<close>

definition data_count_insert_dup :: "int \<Rightarrow> int \<Rightarrow> int" where
  "data_count_insert_dup dst src = to_int32 (dst + src)"

text \<open>
  Dispatch on the source's function, as in \<open>str->insert_dup(a->data[ndx], str)\<close>; the types of
  the two elements agree when it is called.
\<close>

fun insert_dup :: "'a data_unset \<Rightarrow> 'a data_unset \<Rightarrow> 'a data_unset" where
  "insert_dup dst src = dst\<lparr>payload := (case (payload src, payload dst) of
     (DString s, DString d) \<Rightarrow> DString (data_string_insert_dup d s)
   | (DString s, DResponse d) \<Rightarrow> DResponse (data_string_insert_dup d s)
   | (DResponse s, DString d) \<Rightarrow> DString (data_response_insert_dup (key dst) d s)
   | (DResponse s, DResponse d) \<Rightarrow> DResponse (data_response_insert_dup (key dst) d s)
   | (DCount s, DCount d) \<Rightarrow> DCount (data_count_insert_dup d s)
   | _ \<Rightarrow> payload dst)\<rparr>"

text \<open>\<open>data_string_reset\<close>, \<open>data_integer_reset\<close>, \<open>data_count_reset\<close>; an array resets its own.\<close>

definition data_reset :: "('a \<Rightarrow> 'a) \<Rightarrow> 'a data_unset \<Rightarrow> 'a data_unset" where
  "data_reset areset du = du\<lparr>key := [], payload := (case payload du of
     DString _ \<Rightarrow> DString [] | DResponse _ \<Rightarrow> DResponse []
   | DInteger _ \<Rightarrow> DInteger 0 | DCount _ \<Rightarrow> DCount 0 | DArray a \<Rightarrow> DArray (areset a))\<rparr>"

text \<open>
  \<open>data_string_copy\<close> and its siblings.  The copy of a header-list string is a plain string:
  \<open>data_string_copy\<close> builds it with \<open>data_string_init\<close>.
\<close>

definition data_copy :: "('a \<Rightarrow> 'a) \<Rightarrow> 'a data_unset \<Rightarrow> 'a data_unset" where
  "data_copy acopy du = du\<lparr>payload := (case payload du of
     DString s \<Rightarrow> DString s | DResponse s \<Rightarrow> DString s
   | DInteger n \<Rightarrow> DInteger n | DCount n \<Rightarrow> DCount n | DArray a \<Rightarrow> DArray (acopy a))\<rparr>"

section \<open>The array\<close>

record 'a array =
  adata :: "'a data_unset option list"
  sorted_ndx :: "nat option list"
  a_used :: nat
  a_size :: nat
  unique_ndx :: nat
  next_power_of_2 :: nat
  is_weakref :: bool

definition array_init :: "'a array" where
  "array_init = \<lparr>adata = [], sorted_ndx = [], a_used = 0, a_size = 0, unique_ndx = 0,
     next_power_of_2 = 1, is_weakref = False\<rparr>"

definition array_init_array :: "('a \<Rightarrow> 'a) \<Rightarrow> 'a array \<Rightarrow> 'a array" where
  "array_init_array acopy src =
     array_init\<lparr>a_used := a_used src, a_size := a_size src, next_power_of_2 := next_power_of_2 src,
       unique_ndx := unique_ndx src,
       adata := map (map_option (data_copy acopy)) (take (a_size src) (adata src)),
       sorted_ndx := take (a_size src) (sorted_ndx src)\<rparr>"

definition array_reset :: "('a \<Rightarrow> 'a) \<Rightarrow> 'a array option \<Rightarrow> 'a array option option" where
  "array_reset areset ap = (case ap of None \<Rightarrow> Some None | Some a \<Rightarrow>
     if is_weakref a then Some (Some (a\<lparr>a_used := 0\<rparr>))
     else if a_used a \<le> length (adata a) \<and> None \<notin> set (take (a_used a) (adata a))
     then Some (Some (a\<lparr>adata := map (map_option (data_reset areset)) (take (a_used a) (adata a)) @
                          drop (a_used a) (adata a), a_used := 0\<rparr>))
     else None)"

definition array_pop :: "'a array \<Rightarrow> ('a data_unset option \<times> 'a array) option" where
  "array_pop a = (if a_used a = 0 \<or> length (adata a) < a_used a then None
     else let u = a_used a - 1 in Some (adata a ! u, a\<lparr>a_used := u, adata := (adata a)[u := None]\<rparr>))"

text \<open>The element at a position of the sorted list.\<close>

definition at_pos :: "'a array \<Rightarrow> nat \<Rightarrow> (nat \<times> 'a data_unset) option" where
  "at_pos a pos = do {
     guard (pos < length (sorted_ndx a));
     ndx \<leftarrow> sorted_ndx a ! pos;
     guard (ndx < length (adata a));
     du \<leftarrow> adata a ! ndx;
     Some (ndx, du) }"

text \<open>
  The search.  \<open>look\<close> yields the index and the comparison at a position; the result is the
  index found, or -1, and the last position.
\<close>

function get_index_loop :: "(nat \<Rightarrow> (nat \<times> int) option) \<Rightarrow> nat \<Rightarrow> nat \<Rightarrow> int \<Rightarrow> (int \<times> int) option" where
  "get_index_loop look n i pos =
     (if pos < 0 then if i = 0 then Some (-1, pos) else get_index_loop look n (i div 2) (pos + int i)
      else if pos \<ge> int n then if i = 0 then Some (-1, pos) else get_index_loop look n (i div 2) (pos - int i)
      else case look (nat pos) of None \<Rightarrow> None | Some (ndx, cmp) \<Rightarrow>
        if cmp = 0 then Some (int ndx, pos)
        else let pos = (if cmp < 0 then pos - int i else pos + int i) in
          if i = 0 then Some (-1, pos) else get_index_loop look n (i div 2) pos)"
  by pat_completeness auto
termination by (relation "measure (\<lambda>(look, n, i, pos). i)") auto

declare get_index_loop.simps [simp del]

definition look_key :: "'a array \<Rightarrow> char list \<Rightarrow> nat \<Rightarrow> (nat \<times> int) option" where
  "look_key a k pos = do {
     (ndx, du) \<leftarrow> at_pos a pos;
     Some (ndx, buffer_caseless_compare False k (key du)) }"

definition array_get_index :: "'a array \<Rightarrow> char list \<Rightarrow> (int \<times> int) option" where
  "array_get_index a k =
     get_index_loop (look_key a k) (a_used a) (next_power_of_2 a div 2) (int (next_power_of_2 a div 2))"

definition array_get_element :: "'a array \<Rightarrow> char list \<Rightarrow> 'a data_unset option option" where
  "array_get_element a k = do {
     (ndx, _) \<leftarrow> array_get_index a (k @ [NUL]);
     if ndx \<noteq> -1 then Some (adata a ! nat ndx) else Some None }"

definition array_get_unused_element :: "'a array \<Rightarrow> 'a data_unset option \<times> 'a array" where
  "array_get_unused_element a =
     (if a_size a = 0 then (None, a)
      else if a_used a = a_size a then (None, a)
      else case adata a ! a_used a of
        Some ds \<Rightarrow> (Some ds, a\<lparr>adata := (adata a)[a_used a := None]\<rparr>)
      | None \<Rightarrow> (None, a))"

text \<open>The growth step of \<open>array_insert_unique\<close>.\<close>

definition array_room :: "'a array \<Rightarrow> 'a array" where
  "array_room a =
     (if a_size a = 0
      then a\<lparr>a_size := 16, adata := replicate 16 None, sorted_ndx := replicate 16 None\<rparr>
      else if a_size a = a_used a
      then a\<lparr>a_size := a_size a + 16,
             adata := take (a_size a) (adata a) @ replicate 16 None,
             sorted_ndx := take (a_size a) (sorted_ndx a) @ replicate 16 None\<rparr>
      else a)"

text \<open>Whether the last search position holds a smaller key, so that the new one goes behind it.\<close>

definition goes_behind :: "'a array \<Rightarrow> 'a data_unset \<Rightarrow> nat \<Rightarrow> int \<Rightarrow> bool option" where
  "goes_behind a str ndx pos =
     (if pos \<noteq> int ndx then
        if pos < 0 then Some True
        else do { (_, du) \<leftarrow> at_pos a (nat pos);
                  Some (buffer_caseless_compare False (key str) (key du) > 0) }
      else Some False)"

text \<open>The index list after \<open>memmove\<close> made room at \<open>p\<close> and the new index was stored.\<close>

definition insert_sorted :: "'x list \<Rightarrow> nat \<Rightarrow> nat \<Rightarrow> 'x \<Rightarrow> 'x list" where
  "insert_sorted s n p x =
     (if p \<noteq> n then take (p + 1) s @ take (n - p) (drop p s) @ drop (n + 1) s else s)[p := x]"

definition array_insert_at :: "'a array \<Rightarrow> 'a data_unset \<Rightarrow> int \<Rightarrow> 'a array option" where
  "array_insert_at a str pos = do {
     let a = array_room a;
     let ndx = a_used a;
     guard (ndx < length (adata a));
     let a = a\<lparr>adata := (adata a)[ndx := Some str], a_used := ndx + 1\<rparr>;
     up \<leftarrow> goes_behind a str ndx pos;
     let pos = (if up then pos + 1 else pos);
     guard (0 \<le> pos \<and> pos \<le> int ndx \<and> ndx < length (sorted_ndx a));
     Some (a\<lparr>sorted_ndx := insert_sorted (sorted_ndx a) ndx (nat pos) (Some ndx),
             next_power_of_2 := (if next_power_of_2 a = ndx then 2 * next_power_of_2 a else next_power_of_2 a)\<rparr>) }"

definition INT_MAX :: nat where
  "INT_MAX = 2 ^ 31 - 1"

definition array_insert_unique :: "'a array \<Rightarrow> 'a data_unset \<Rightarrow> (int \<times> 'a array) option" where
  "array_insert_unique a str = do {
     let (a, str) = (if key str = [] \<or> is_index_key str
        then (a\<lparr>unique_ndx := unique_ndx a + 1\<rparr>,
              str\<lparr>key := terminated (decimal (int (unique_ndx a))), is_index_key := True\<rparr>)
        else (a, str));
     (ndx, pos) \<leftarrow> array_get_index a (key str);
     if ndx \<noteq> -1 then do {
       dst \<leftarrow> adata a ! nat ndx;
       if payload_type (payload dst) = payload_type (payload str)
       then Some (0, a\<lparr>adata := (adata a)[nat ndx := Some (insert_dup dst str)]\<rparr>)
       else Some (0, a) }
     else if a_used a + 1 > INT_MAX then Some (-1, a)
     else do { a \<leftarrow> array_insert_at a str pos; Some (0, a) } }"

definition array_replace :: "'a array \<Rightarrow> 'a data_unset \<Rightarrow> ('a data_unset option \<times> 'a array) option" where
  "array_replace a du = do {
     (ndx, _) \<leftarrow> array_get_index a (key du);
     if ndx = -1 then do { (_, a) \<leftarrow> array_insert_unique a du; Some (None, a) }
     else Some (adata a ! nat ndx, a\<lparr>adata := (adata a)[nat ndx := Some du]\<rparr>) }"

definition array_get_max_key_length :: "'a array \<Rightarrow> nat option" where
  "array_get_max_key_length a =
     foldl (\<lambda>m du. do { m \<leftarrow> m; du \<leftarrow> du; let len = length (cstr (key du));
                          Some (if len > m then len else m) })
       (Some 0) (take (a_used a) (adata a))"

section \<open>The halving search\<close>

text \<open>
  The loop starts with step \<open>i\<close> at position \<open>i\<close>; after a step of size \<open>i\<close> the target is
  closer than \<open>i\<close>, so the last comparison, made with step 0, is at the target.
\<close>

definition looks :: "(nat \<Rightarrow> (nat \<times> int) option) \<Rightarrow> nat \<Rightarrow> (nat \<Rightarrow> nat) \<Rightarrow> (nat \<Rightarrow> int) \<Rightarrow> bool" where
  "looks look n idx c \<longleftrightarrow> (\<forall>p < n. look p = Some (idx p, c p))"

definition power_or_0 :: "nat \<Rightarrow> bool" where
  "power_or_0 i \<longleftrightarrow> i = 0 \<or> (\<exists>k. i = 2 ^ k)"

lemma power_or_0_half: "power_or_0 i \<Longrightarrow> power_or_0 (i div 2) \<and> (i = 0 \<or> i = 1 \<or> i = 2 * (i div 2))"
proof -
  have "power_or_0 (2 ^ k div 2) \<and> (2 ^ k = (1::nat) \<or> (2::nat) ^ k = 2 * (2 ^ k div 2))" for k
    by (cases k) (auto simp: power_or_0_def)
  then show "power_or_0 i \<Longrightarrow> power_or_0 (i div 2) \<and> (i = 0 \<or> i = 1 \<or> i = 2 * (i div 2))"
    by (metis div_0 power_or_0_def)
qed

lemma search_found:
  assumes "looks look n idx c" and "t < n" and "c t = 0"
    and "\<And>p. p < n \<Longrightarrow> p < t \<Longrightarrow> c p > 0" and "\<And>p. p < n \<Longrightarrow> t < p \<Longrightarrow> c p < 0"
    and "power_or_0 i" and "\<bar>int t - pos\<bar> \<le> (if i = 0 then 0 else 2 * int i - 1)"
  shows "get_index_loop look n i pos = Some (int (idx t), int t)"
  using assms(6,7)
proof (induction i arbitrary: pos rule: less_induct)
  case (less i)
  note half = power_or_0_half[OF less.prems(1)]
  have next_i: "get_index_loop look n (i div 2) pos' = Some (int (idx t), int t)"
    if "i \<noteq> 0" "\<bar>int t - pos'\<bar> \<le> int i - 1" for pos'
    using that half by (intro less.IH) auto
  show ?case
  proof (cases "pos < 0 \<or> pos \<ge> int n")
    case True
    with less.prems assms(2) have "i \<noteq> 0" by (auto split: if_splits)
    with True less.prems assms(2) next_i[of "pos + int i"] next_i[of "pos - int i"] show ?thesis
      by (subst get_index_loop.simps) (auto split: if_splits)
  next
    case False
    then have look: "look (nat pos) = Some (idx (nat pos), c (nat pos))" "nat pos < n"
      using assms(1) by (auto simp: looks_def)
    show ?thesis
    proof (cases "nat pos = t")
      case True
      with False look assms(3) show ?thesis by (subst get_index_loop.simps) auto
    next
      case ne: False
      with False less.prems have i: "i \<noteq> 0" by (auto split: if_splits)
      have sgn: "c (nat pos) < 0 \<longleftrightarrow> int t < pos" "c (nat pos) \<noteq> 0"
        using assms(4,5)[OF look(2)] ne False by (cases "nat pos < t"; force)+
      with False look i less.prems next_i[of "pos + int i"] next_i[of "pos - int i"] ne show ?thesis
        by (subst get_index_loop.simps) (auto split: if_splits)
    qed
  qed
qed

lemma search_missing:
  assumes "looks look n idx c" and "r \<le> n"
    and "\<And>p. p < n \<Longrightarrow> p < r \<Longrightarrow> c p > 0" and "\<And>p. p < n \<Longrightarrow> r \<le> p \<Longrightarrow> c p < 0"
    and "power_or_0 i"
    and "if i = 0 then int r - 1 \<le> pos \<and> pos \<le> int r else int r - 2 * int i \<le> pos \<and> pos \<le> int r + 2 * int i - 1"
  shows "\<exists>p. get_index_loop look n i pos = Some (-1, p) \<and> (p = int r - 1 \<or> p = int r)"
  using assms(5,6)
proof (induction i arbitrary: pos rule: less_induct)
  case (less i)
  note half = power_or_0_half[OF less.prems(1)]
  have next_i: "\<exists>p. get_index_loop look n (i div 2) pos' = Some (-1, p) \<and> (p = int r - 1 \<or> p = int r)"
    if "i \<noteq> 0" "int r - int i \<le> pos'" "pos' \<le> int r + int i - 1" for pos'
    using that half by (intro less.IH) auto
  show ?case
  proof (cases "pos < 0 \<or> pos \<ge> int n")
    case True
    with less.prems assms(2) next_i[of "pos + int i"] next_i[of "pos - int i"] show ?thesis
      by (subst get_index_loop.simps) (auto split: if_splits)
  next
    case False
    then have look: "look (nat pos) = Some (idx (nat pos), c (nat pos))" "nat pos < n"
      using assms(1) by (auto simp: looks_def)
    have sgn: "c (nat pos) < 0 \<longleftrightarrow> int r \<le> pos" "c (nat pos) \<noteq> 0"
      using assms(3,4)[OF look(2)] False by (cases "nat pos < r"; force)+
    with False look less.prems next_i[of "pos + int i"] next_i[of "pos - int i"] show ?thesis
      by (subst get_index_loop.simps) (auto split: if_splits)
  qed
qed

section \<open>The invariant\<close>

abbreviation fk :: "'a data_unset \<Rightarrow> int list" where
  "fk e \<equiv> fold_key (key e)"

text \<open>
  \<open>es\<close> are the elements in insertion order, \<open>ns\<close> their indices in key order.
\<close>

definition arr_rep :: "'a array \<Rightarrow> 'a data_unset list \<Rightarrow> nat list \<Rightarrow> bool" where
  "arr_rep a es ns \<longleftrightarrow>
     length (adata a) = a_size a \<and> length (sorted_ndx a) = a_size a \<and> a_used a \<le> a_size a \<and>
     take (a_used a) (adata a) = map Some es \<and> take (a_used a) (sorted_ndx a) = map Some ns \<and>
     set ns = {..<a_used a} \<and> sorted_wrt (<) (map (\<lambda>i. fk (es ! i)) ns) \<and>
     list_all (\<lambda>e. tame (key e)) es \<and>
     a_used a \<le> next_power_of_2 a \<and> (\<exists>k. next_power_of_2 a = 2 ^ k)"

definition arr_inv :: "'a array \<Rightarrow> bool" where
  "arr_inv a \<longleftrightarrow> (\<exists>es ns. arr_rep a es ns)"

definition elements :: "'a array \<Rightarrow> 'a data_unset list" where
  "elements a = map the (take (a_used a) (adata a))"

lemma rep_elements: "arr_rep a es ns \<Longrightarrow> elements a = es"
  by (simp add: arr_rep_def elements_def o_def)

lemma rep_lengths:
  assumes "arr_rep a es ns"
  shows "length es = a_used a" "length ns = a_used a" "distinct ns"
proof -
  have "length (map Some es) = a_used a" "length (map Some ns) = a_used a"
    using assms by (metis arr_rep_def length_take min.absorb2)+
  then show l: "length es = a_used a" "length ns = a_used a" by simp_all
  have "card (set ns) = length ns" using assms l by (simp add: arr_rep_def)
  then show "distinct ns" by (rule card_distinct)
qed

lemma rep_facts:
  assumes "arr_rep a es ns"
  shows "length (adata a) = a_size a" "length (sorted_ndx a) = a_size a" "a_used a \<le> a_size a"
    "take (a_used a) (adata a) = map Some es" "take (a_used a) (sorted_ndx a) = map Some ns"
    "set ns = {..<a_used a}" "sorted_wrt (<) (map (\<lambda>i. fk (es ! i)) ns)"
    "a_used a \<le> next_power_of_2 a"
  using assms by (simp_all add: arr_rep_def)

lemma rep_adata:
  assumes "arr_rep a es ns" and "i < a_used a"
  shows "adata a ! i = Some (es ! i)"
proof -
  have "adata a ! i = take (a_used a) (adata a) ! i" using assms(2) by simp
  also have "\<dots> = Some (es ! i)" using assms rep_lengths(1)[OF assms(1)] by (simp add: rep_facts)
  finally show ?thesis .
qed

lemma rep_sorted:
  assumes "arr_rep a es ns" and "i < a_used a"
  shows "sorted_ndx a ! i = Some (ns ! i)"
proof -
  have "sorted_ndx a ! i = take (a_used a) (sorted_ndx a) ! i" using assms(2) by simp
  also have "\<dots> = Some (ns ! i)" using assms rep_lengths(2)[OF assms(1)] by (simp add: rep_facts)
  finally show ?thesis .
qed

lemma rep_ns: "arr_rep a es ns \<Longrightarrow> p < a_used a \<Longrightarrow> ns ! p < a_used a"
  using nth_mem[of p ns] rep_lengths(2)[of a es ns] rep_facts(6)[of a es ns] by auto

lemma rep_tame: "arr_rep a es ns \<Longrightarrow> i < a_used a \<Longrightarrow> tame (key (es ! i))"
  using rep_lengths(1)[of a es ns] unfolding arr_rep_def list_all_length by presburger

lemma rep_at_pos:
  assumes rep: "arr_rep a es ns" and p: "p < a_used a"
  shows "at_pos a p = Some (ns ! p, es ! (ns ! p))"
proof -
  note n = rep_ns[OF rep p]
  have "p < length (sorted_ndx a)" "ns ! p < length (adata a)" using rep_facts(1-3)[OF rep] p n by simp_all
  then show ?thesis
    using rep_adata[OF rep n] rep_sorted[OF rep p] by (simp add: at_pos_def)
qed

lemma rep_looks: "arr_rep a es ns \<Longrightarrow>
    looks (look_key a k) (a_used a) ((!) ns) (\<lambda>p. buffer_caseless_compare False k (key (es ! (ns ! p))))"
  by (simp add: looks_def look_key_def rep_at_pos)

lemma rep_keys_inj:
  assumes "arr_rep a es ns" and "i < a_used a" and "j < a_used a" and "fk (es ! i) = fk (es ! j)"
  shows "i = j"
proof -
  let ?f = "\<lambda>i. fk (es ! i)"
  have "distinct (map ?f ns)"
    using rep_facts(7)[OF assms(1)] strict_sorted_iff by blast
  then have "inj_on ?f (set ns)" by (simp add: distinct_map)
  with assms show ?thesis by (auto simp: arr_rep_def inj_on_def)
qed

lemma rep_start:
  assumes "arr_rep a es ns"
  shows "power_or_0 (next_power_of_2 a div 2)"
    and "next_power_of_2 a = 1 \<and> next_power_of_2 a div 2 = 0 \<or> next_power_of_2 a = 2 * (next_power_of_2 a div 2) \<and> next_power_of_2 a div 2 > 0"
proof -
  obtain k where "next_power_of_2 a = 2 ^ k" using assms by (auto simp: arr_rep_def)
  then show "power_or_0 (next_power_of_2 a div 2)"
    "next_power_of_2 a = 1 \<and> next_power_of_2 a div 2 = 0 \<or> next_power_of_2 a = 2 * (next_power_of_2 a div 2) \<and> next_power_of_2 a div 2 > 0"
    by (cases k; auto simp: power_or_0_def)+
qed

text \<open>The rank of a key: how many elements sort before it.\<close>

definition rank :: "int list \<Rightarrow> int list list \<Rightarrow> nat" where
  "rank x ks = length (takeWhile (\<lambda>y. y < x) ks)"

lemma rank_le: "rank x ks \<le> length ks"
  by (simp add: rank_def length_takeWhile_le)

lemma rank_below: "p < rank x ks \<Longrightarrow> ks ! p < x"
  by (metis nth_mem rank_def set_takeWhileD takeWhile_nth)

lemma rank_above:
  assumes "sorted_wrt (<) ks" and "rank x ks \<le> p" and "p < length ks"
  shows "x \<le> ks ! p" and "rank x ks < p \<Longrightarrow> x < ks ! p"
proof -
  have "x \<le> ks ! rank x ks"
    using assms nth_length_takeWhile[of "\<lambda>y. y < x" ks] by (simp add: rank_def not_less)
  moreover have "rank x ks < p \<Longrightarrow> ks ! rank x ks < ks ! p"
    using assms by (simp add: sorted_wrt_iff_nth_less)
  ultimately show "x \<le> ks ! p" "rank x ks < p \<Longrightarrow> x < ks ! p" using assms(2)
    by (cases "rank x ks = p"; auto)+
qed

lemma get_index_found:
  assumes rep: "arr_rep a es ns" and k: "tame k" and j: "j < a_used a" "fk (es ! j) = fold_key k"
  shows "\<exists>p. array_get_index a k = Some (int j, p)"
proof -
  let ?ks = "map (\<lambda>i. fk (es ! i)) ns"
  have sorted: "sorted_wrt (<) ?ks" using rep by (simp add: arr_rep_def)
  note len = rep_lengths[OF rep]
  have "j \<in> set ns" using rep j by (simp add: arr_rep_def)
  then obtain t where t: "t < a_used a" "ns ! t = j" using len by (metis in_set_conv_nth)
  have key: "tame (key (es ! (ns ! p)))" if "p < a_used a" for p
    using rep_tame[OF rep] rep_ns[OF rep] that by blast
  have cmp: "buffer_caseless_compare False k (key (es ! (ns ! p))) < 0 \<longleftrightarrow> fold_key k < ?ks ! p"
    "buffer_caseless_compare False k (key (es ! (ns ! p))) = 0 \<longleftrightarrow> fold_key k = ?ks ! p" if "p < a_used a" for p
    using caseless_compare_less[OF k key[OF that]] caseless_compare_equal[OF k key[OF that]] that len by simp_all
  have "?ks ! p < ?ks ! t" if "p < t" for p
    using sorted that t(1) len by (simp add: sorted_wrt_iff_nth_less)
  moreover have "?ks ! t < ?ks ! p" if "t < p" "p < a_used a" for p
    using sorted that t(1) len by (simp add: sorted_wrt_iff_nth_less)
  moreover have "fold_key k = ?ks ! t" using t j len by simp
  ultimately have "get_index_loop (look_key a k) (a_used a) (next_power_of_2 a div 2) (int (next_power_of_2 a div 2))
      = Some (int (ns ! t), int t)"
  proof (intro search_found[OF rep_looks[OF rep]])
    fix p assume p: "p < a_used a" "p < t"
    then have "?ks ! p < fold_key k"
      using \<open>\<And>p. p < t \<Longrightarrow> ?ks ! p < ?ks ! t\<close> \<open>fold_key k = ?ks ! t\<close> by metis
    then have "\<not> fold_key k < ?ks ! p" "fold_key k \<noteq> ?ks ! p" by (simp_all add: less_not_sym less_imp_neq[symmetric])
    then show "buffer_caseless_compare False k (key (es ! (ns ! p))) > 0"
      using cmp[OF p(1)] by linarith
  next
    fix p assume "p < a_used a" "t < p"
    then show "buffer_caseless_compare False k (key (es ! (ns ! p))) < 0"
      using cmp[of p] \<open>\<And>p. \<lbrakk>t < p; p < a_used a\<rbrakk> \<Longrightarrow> ?ks ! t < ?ks ! p\<close> \<open>fold_key k = ?ks ! t\<close> by metis
  next
    show "buffer_caseless_compare False k (key (es ! (ns ! t))) = 0"
      using cmp(2)[OF t(1)] \<open>fold_key k = ?ks ! t\<close> by blast
  next
    show "\<bar>int t - int (next_power_of_2 a div 2)\<bar> \<le>
      (if next_power_of_2 a div 2 = 0 then 0 else 2 * int (next_power_of_2 a div 2) - 1)"
      using rep_start(2)[OF rep] rep_facts(8)[OF rep] t(1) by auto
  qed (use rep_start(1)[OF rep] t(1) in auto)
  with t show ?thesis by (simp add: array_get_index_def)
qed

lemma get_index_missing:
  assumes rep: "arr_rep a es ns" and k: "tame k" and new: "\<And>j. j < a_used a \<Longrightarrow> fk (es ! j) \<noteq> fold_key k"
  shows "\<exists>p. array_get_index a k = Some (-1, p) \<and>
     (let r = rank (fold_key k) (map (\<lambda>i. fk (es ! i)) ns) in p = int r - 1 \<or> p = int r)"
proof -
  let ?ks = "map (\<lambda>i. fk (es ! i)) ns"
  let ?r = "rank (fold_key k) ?ks"
  have sorted: "sorted_wrt (<) ?ks" using rep by (simp add: arr_rep_def)
  note len = rep_lengths[OF rep]
  have key: "tame (key (es ! (ns ! p)))" if "p < a_used a" for p
    using rep_tame[OF rep] rep_ns[OF rep] that by blast
  have cmp: "buffer_caseless_compare False k (key (es ! (ns ! p))) < 0 \<longleftrightarrow> fold_key k < ?ks ! p"
    "buffer_caseless_compare False k (key (es ! (ns ! p))) \<noteq> 0" if "p < a_used a" for p
    using caseless_compare_less[OF k key[OF that]] caseless_compare_equal[OF k key[OF that]] that len
      new[OF rep_ns[OF rep that]] by auto
  have "?r \<le> a_used a" using rank_le[of "fold_key k" ?ks] len by simp
  moreover have "?ks ! p < fold_key k" if "p < ?r" for p using that by (rule rank_below)
  moreover have "fold_key k < ?ks ! p" if "?r \<le> p" "p < a_used a" for p
  proof -
    have "fold_key k \<le> ?ks ! p" using rank_above(1)[OF sorted] that len by simp
    moreover have "fold_key k \<noteq> ?ks ! p" using new[OF rep_ns[OF rep that(2)]] that len by simp
    ultimately show ?thesis by simp
  qed
  ultimately have "\<exists>p. get_index_loop (look_key a k) (a_used a) (next_power_of_2 a div 2) (int (next_power_of_2 a div 2))
      = Some (-1, p) \<and> (p = int ?r - 1 \<or> p = int ?r)"
  proof (intro search_missing[OF rep_looks[OF rep]])
    fix p assume p: "p < a_used a" "p < ?r"
    then have "\<not> fold_key k < ?ks ! p" using less_not_sym[OF rank_below[OF p(2)]] by simp
    then show "buffer_caseless_compare False k (key (es ! (ns ! p))) > 0"
      using cmp[OF p(1)] by linarith
  next
    fix p assume "p < a_used a" "?r \<le> p"
    then show "buffer_caseless_compare False k (key (es ! (ns ! p))) < 0"
      using cmp[of p] \<open>\<And>p. \<lbrakk>?r \<le> p; p < a_used a\<rbrakk> \<Longrightarrow> fold_key k < ?ks ! p\<close> by blast
  next
    show "if next_power_of_2 a div 2 = 0 then int ?r - 1 \<le> int (next_power_of_2 a div 2) \<and> int (next_power_of_2 a div 2) \<le> int ?r
      else int ?r - 2 * int (next_power_of_2 a div 2) \<le> int (next_power_of_2 a div 2) \<and>
        int (next_power_of_2 a div 2) \<le> int ?r + 2 * int (next_power_of_2 a div 2) - 1"
      using rep_start(2)[OF rep] rep_facts(8)[OF rep] \<open>?r \<le> a_used a\<close> by auto
  qed (use rep_start(1)[OF rep] in auto)
  then show ?thesis by (simp add: array_get_index_def Let_def)
qed

section \<open>Insertion\<close>

lemma room_rep:
  assumes "arr_rep a es ns"
  shows "arr_rep (array_room a) es ns" and "a_used (array_room a) = a_used a"
    and "a_used a < a_size (array_room a)"
proof -
  note f = rep_facts(1-6)[OF assms]
  show "a_used (array_room a) = a_used a" by (simp add: array_room_def)
  show "a_used a < a_size (array_room a)" using f by (auto simp: array_room_def)
  show "arr_rep (array_room a) es ns"
    using assms f unfolding arr_rep_def array_room_def
    by (cases "a_size a = 0"; cases "a_size a = a_used a") simp_all
qed

lemma take_insert_sorted:
  assumes "p \<le> n" and "n < length s"
  shows "take (n + 1) (insert_sorted s n p x) = take p s @ x # take (n - p) (drop p s)"
    and "length (insert_sorted s n p x) = length s"
proof -
  show "length (insert_sorted s n p x) = length s" using assms by (auto simp: insert_sorted_def)
  show "take (n + 1) (insert_sorted s n p x) = take p s @ x # take (n - p) (drop p s)"
  proof (cases "p = n")
    case True
    with assms show ?thesis by (simp add: insert_sorted_def take_Suc_conv_app_nth)
  next
    case False
    have "take (p + 1) s = take p s @ [s ! p]" using assms by (simp add: take_Suc_conv_app_nth)
    then have "insert_sorted s n p x = take p s @ x # take (n - p) (drop p s) @ drop (n + 1) s"
      using False assms by (simp add: insert_sorted_def list_update_append)
    with assms show ?thesis by (simp add: Suc_diff_le)
  qed
qed

lemma rank_insert_sorted:
  assumes s: "sorted_wrt (<) ks" and new: "x \<notin> set ks"
  shows "sorted_wrt (<) (take (rank x ks) ks @ x # drop (rank x ks) ks)"
proof -
  let ?r = "rank x ks"
  have "\<forall>y \<in> set (take ?r ks). y < x"
    using rank_below[of _ x ks] by (auto simp: in_set_conv_nth)
  moreover have "\<forall>y \<in> set (drop ?r ks). x < y"
  proof
    fix y assume y: "y \<in> set (drop ?r ks)"
    then obtain p where "?r \<le> p" "p < length ks" "y = ks ! p"
      by (auto simp: in_set_conv_nth) (metis add.commute le_add1 less_diff_conv)
    then have "x \<le> y" using rank_above(1)[OF s] by blast
    moreover have "x \<noteq> y" using new y by (metis in_set_dropD)
    ultimately show "x < y" by simp
  qed
  ultimately show ?thesis using s
    by (auto simp: sorted_wrt_append sorted_wrt_take sorted_wrt_drop dest: bspec intro: less_trans)
qed

lemma nth_snoc [simp]: "length xs = n \<Longrightarrow> (xs @ [y]) ! n = y"
  by auto

lemma insert_at_ok:
  assumes rep: "arr_rep a es ns" and t: "tame (key e)"
    and new: "\<And>j. j < a_used a \<Longrightarrow> fk (es ! j) \<noteq> fk e"
    and pos: "let r = rank (fk e) (map (\<lambda>i. fk (es ! i)) ns) in pos = int r - 1 \<or> pos = int r"
  shows "valid (array_insert_at a e pos) (\<lambda>a'. arr_inv a' \<and> elements a' = es @ [e] \<and> a_used a' = a_used a + 1 \<and>
     unique_ndx a' = unique_ndx a)"
proof -
  define r where "r = rank (fk e) (map (\<lambda>i. fk (es ! i)) ns)"
  let ?a = "array_room a" and ?n = "a_used a"
  note rep' = room_rep(1)[OF rep] and room = room_rep(2,3)[OF rep]
  note f = rep_facts[OF rep'] and l = rep_lengths[OF rep]
  let ?b = "?a\<lparr>adata := (adata ?a)[?n := Some e], a_used := ?n + 1\<rparr>"
  have r: "r \<le> ?n" using rank_le[of "fk e" "map (\<lambda>i. fk (es ! i)) ns"] l by (simp add: r_def)
  have fits: "?n < length (adata ?a)" "?n < length (sorted_ndx ?a)" using f room by simp_all
  have look: "at_pos ?b p = Some (ns ! p, es ! (ns ! p))" if "p < ?n" for p
  proof -
    have "p < a_used ?a" using that room by simp
    note n = rep_ns[OF rep' this] and s = rep_sorted[OF rep' this]
    have "ns ! p \<noteq> ?n" "ns ! p < length (adata ?a)" using n room fits by simp_all
    then show ?thesis using rep_adata[OF rep' n] s that fits by (simp add: at_pos_def)
  qed
  have up: "goes_behind ?b e ?n pos = Some (pos = int r - 1)"
  proof -
    consider "pos = int r - 1" "r = 0" | p where "pos = int p" "p < ?n" "r = Suc p" | "pos = int r" "r < ?n" | "pos = int r" "r = ?n"
      using pos r unfolding Let_def r_def[symmetric]
      by (cases r) (auto, linarith)
    then show ?thesis
    proof cases
      case (2 p)
      have "map (\<lambda>i. fk (es ! i)) ns ! p < fk e" using 2 rank_below[of p "fk e"] by (simp add: r_def)
      then have "fk (es ! (ns ! p)) < fk e" using 2 l by simp
      moreover have "tame (key (es ! (ns ! p)))" using rep_tame[OF rep rep_ns[OF rep 2(2)]] .
      ultimately have "buffer_caseless_compare False (key e) (key (es ! (ns ! p))) > 0"
        using caseless_compare_less[OF t] caseless_compare_equal[OF t]
        by (metis less_irrefl less_not_sym linorder_neqE_linordered_idom)
      with 2 look show ?thesis by (simp add: goes_behind_def)
    next
      case 3
      have "r < length ns" using 3 l by simp
      then have "fk e \<le> fk (es ! (ns ! r))"
        using rank_above(1)[OF rep_facts(7)[OF rep], of "fk e" r] by (simp add: r_def)
      moreover have "tame (key (es ! (ns ! r)))" using rep_tame[OF rep rep_ns[OF rep 3(2)]] .
      ultimately have "\<not> buffer_caseless_compare False (key e) (key (es ! (ns ! r))) > 0"
        using caseless_compare_less[OF t] caseless_compare_equal[OF t]
        by (metis less_irrefl less_not_sym order.order_iff_strict)
      with 3 look show ?thesis by (simp add: goes_behind_def)
    qed (simp_all add: goes_behind_def)
  qed
  have pos': "(if pos = int r - 1 then pos + 1 else pos) = int r"
    using pos unfolding Let_def r_def[symmetric] by auto
  let ?s = "insert_sorted (sorted_ndx ?a) ?n r (Some ?n)"
  let ?np = "if next_power_of_2 ?a = ?n then 2 * next_power_of_2 ?a else next_power_of_2 ?a"
  let ?c = "?b\<lparr>sorted_ndx := ?s, next_power_of_2 := ?np\<rparr>"
  have eq: "array_insert_at a e pos = Some ?c"
    using up pos' r fits unfolding array_insert_at_def Let_def room(1) by simp
  let ?ns = "take r ns @ ?n # drop r ns"
  have "take (?n + 1) ?s = take r (sorted_ndx ?a) @ Some ?n # take (?n - r) (drop r (sorted_ndx ?a))"
    using take_insert_sorted(1)[OF r fits(2)] .
  moreover have "take r (sorted_ndx ?a) = map Some (take r ns)"
    using f(5) r room(1) by (metis min.absorb1 take_map take_take)
  moreover have "take (?n - r) (drop r (sorted_ndx ?a)) = map Some (drop r ns)"
    using f(5) r room(1) by (metis drop_map drop_take)
  ultimately have ns: "take (?n + 1) ?s = map Some ?ns" by simp
  have es: "take (?n + 1) ((adata ?a)[?n := Some e]) = map Some (es @ [e])"
    using f(4) fits(1) room(1) by (simp add: take_Suc_conv_app_nth)
  have set: "set ?ns = {..<?n + 1}"
  proof -
    have "set ?ns = insert ?n (set (take r ns) \<union> set (drop r ns))" by simp
    also have "\<dots> = insert ?n (set ns)" by (metis append_take_drop_id set_append)
    also have "\<dots> = {..<?n + 1}" unfolding rep_facts(6)[OF rep] by (rule set_eqI) auto
    finally show ?thesis .
  qed
  let ?ks = "map (\<lambda>i. fk (es ! i)) ns"
  have ks: "map (\<lambda>i. fk ((es @ [e]) ! i)) ?ns = take r ?ks @ fk e # drop r ?ks"
  proof -
    have "map (\<lambda>i. fk ((es @ [e]) ! i)) xs = map (\<lambda>i. fk (es ! i)) xs" if "set xs \<subseteq> set ns" for xs
      using that rep_facts(6)[OF rep] l(1) by (auto simp: nth_append)
    then have "map (\<lambda>i. fk ((es @ [e]) ! i)) (take r ns) = take r ?ks"
      "map (\<lambda>i. fk ((es @ [e]) ! i)) (drop r ns) = drop r ?ks"
      by (metis set_take_subset take_map, metis set_drop_subset drop_map)
    then show ?thesis using l(1) by simp
  qed
  have "fk e \<notin> set ?ks"
  proof
    assume "fk e \<in> set ?ks"
    then obtain j where "j \<in> set ns" "fk (es ! j) = fk e" by auto
    then show False using new[of j] rep_facts(6)[OF rep] by simp
  qed
  then have sorted: "sorted_wrt (<) (map (\<lambda>i. fk ((es @ [e]) ! i)) ?ns)"
    unfolding ks unfolding r_def using rep_facts(7)[OF rep] by (intro rank_insert_sorted)
  obtain k where k: "next_power_of_2 ?a = 2 ^ k" using rep' by (auto simp: arr_rep_def)
  have np: "?n + 1 \<le> ?np" "\<exists>k. ?np = 2 ^ k"
  proof -
    have "0 < next_power_of_2 ?a" using k by simp
    then show "?n + 1 \<le> ?np" using f(8) room(1) by auto
    show "\<exists>k. ?np = 2 ^ k" using k by (auto intro: exI[of _ k] exI[of _ "Suc k"])
  qed
  have "arr_rep ?c (es @ [e]) ?ns"
    unfolding arr_rep_def
    using f(1-3) room take_insert_sorted(2)[OF r fits(2), of "Some ?n"] ns es set sorted np t rep
    by (simp add: arr_rep_def)
  then have "arr_inv ?c" "elements ?c = es @ [e]" by (auto simp only: arr_inv_def rep_elements)
  moreover have "a_used ?c = ?n + 1" "unique_ndx ?c = unique_ndx a" by (simp_all add: array_room_def)
  ultimately show ?thesis unfolding eq valid_Some by blast
qed

section \<open>The array as a map from case-folded keys\<close>

definition merge :: "'a data_unset \<Rightarrow> 'a data_unset \<Rightarrow> 'a data_unset" where
  "merge d e = (if payload_type (payload d) = payload_type (payload e) then insert_dup d e else d)"

fun insert_elem :: "'a data_unset list \<Rightarrow> 'a data_unset \<Rightarrow> 'a data_unset list" where
  "insert_elem [] e = [e]"
| "insert_elem (d # ds) e = (if fk d = fk e then merge d e # ds else d # insert_elem ds e)"

fun replace_elem :: "'a data_unset list \<Rightarrow> 'a data_unset \<Rightarrow> 'a data_unset list" where
  "replace_elem [] e = [e]"
| "replace_elem (d # ds) e = (if fk d = fk e then e # ds else d # replace_elem ds e)"

definition find_elem :: "'a data_unset list \<Rightarrow> int list \<Rightarrow> 'a data_unset option" where
  "find_elem es k = find (\<lambda>d. fk d = k) es"

lemma key_insert_dup [simp]: "key (insert_dup d e) = key d"
  by (simp split: payload.splits)

lemma key_merge [simp]: "key (merge d e) = key d"
  by (simp add: merge_def del: insert_dup.simps)

lemma find_insert: "find_elem (insert_elem es e) k =
    (if k = fk e then Some (case find_elem es k of None \<Rightarrow> e | Some d \<Rightarrow> merge d e) else find_elem es k)"
  by (induction es) (auto simp: find_elem_def)

lemma find_replace: "find_elem (replace_elem es e) k = (if k = fk e then Some e else find_elem es k)"
  by (induction es) (auto simp: find_elem_def)

lemma elem_new: "\<forall>d \<in> set es. fk d \<noteq> fk e \<Longrightarrow> insert_elem es e = es @ [e] \<and> replace_elem es e = es @ [e]"
  by (induction es) auto

lemma elem_old: "j < length es \<Longrightarrow> fk (es ! j) = fk e \<Longrightarrow> \<forall>i < j. fk (es ! i) \<noteq> fk e \<Longrightarrow>
    insert_elem es e = es[j := merge (es ! j) e] \<and> replace_elem es e = es[j := e]"
proof (induction es arbitrary: j)
  case (Cons d ds)
  show ?case
  proof (cases j)
    case (Suc i)
    with Cons.prems have "fk d \<noteq> fk e" "\<forall>i' < i. fk (ds ! i') \<noteq> fk e" by force+
    with Cons Suc show ?thesis by auto
  qed (use Cons in auto)
qed simp

lemma find_elem_index: "(\<exists>j < length es. fk (es ! j) = k \<and> find_elem es k = Some (es ! j)) \<or>
    (find_elem es k = None \<and> (\<forall>j < length es. fk (es ! j) \<noteq> k))"
proof (cases "find_elem es k")
  case None
  then show ?thesis by (auto simp: find_elem_def find_None_iff)
next
  case (Some d)
  then show ?thesis by (auto simp: find_elem_def find_Some_iff)
qed

lemma update_rep:
  assumes rep: "arr_rep a es ns" and j: "j < a_used a" and e: "fk e = fk (es ! j)" "tame (key e)"
  shows "arr_rep (a\<lparr>adata := (adata a)[j := Some e]\<rparr>) (es[j := e]) ns"
proof -
  have "(\<lambda>i. fk (es[j := e] ! i)) = (\<lambda>i. fk (es ! i))"
    using e(1) by (metis nth_list_update_eq nth_list_update_neq list_update_beyond not_le)
  moreover have "list_all (\<lambda>e. tame (key e)) (es[j := e])"
    using rep e(2) set_update_subset_insert[of es j e] by (auto simp: arr_rep_def list_all_iff)
  ultimately show ?thesis using rep by (simp add: arr_rep_def take_update_swap map_update)
qed

lemma tame_fk: "length a = length b \<Longrightarrow> fold_key a = fold_key b \<Longrightarrow> tame a \<Longrightarrow> tame b \<longleftrightarrow> tame b"
  by simp

text \<open>The key an insertion uses: generated from the running index when there is none.\<close>

definition keyed :: "'a array \<Rightarrow> 'a data_unset \<Rightarrow> 'a data_unset" where
  "keyed a str = (if key str = [] \<or> is_index_key str
     then str\<lparr>key := terminated (decimal (int (unique_ndx a))), is_index_key := True\<rparr> else str)"

lemma insert_unique_ok:
  assumes "arr_inv a" and t: "tame (key (keyed a str))" and room: "a_used a < INT_MAX"
  shows "valid (array_insert_unique a str) (\<lambda>(r, a'). r = 0 \<and> arr_inv a' \<and>
           elements a' = insert_elem (elements a) (keyed a str) \<and> a_used a' \<le> a_used a + 1)"
proof -
  obtain es ns where rep0: "arr_rep a es ns" using assms(1) by (auto simp: arr_inv_def)
  define b where "b = (if key str = [] \<or> is_index_key str then a\<lparr>unique_ndx := unique_ndx a + 1\<rparr> else a)"
  let ?e = "keyed a str"
  have rep: "arr_rep b es ns" and used: "a_used b = a_used a" and ad: "adata b = adata a"
    using rep0 by (auto simp: b_def arr_rep_def)
  note len = rep_lengths(1)[OF rep] and el = rep_elements[OF rep0]
  have unf: "array_insert_unique a str = do {
       (ndx, pos) \<leftarrow> array_get_index b (key ?e);
       if ndx \<noteq> -1 then do {
         dst \<leftarrow> adata b ! nat ndx;
         if payload_type (payload dst) = payload_type (payload ?e)
         then Some (0, b\<lparr>adata := (adata b)[nat ndx := Some (insert_dup dst ?e)]\<rparr>)
         else Some (0, b) }
       else if a_used b + 1 > INT_MAX then Some (-1, b)
       else do { a \<leftarrow> array_insert_at b ?e pos; Some (0, a) } }"
    by (cases "key str = [] \<or> is_index_key str")
      (simp_all only: array_insert_unique_def b_def keyed_def Let_def if_True if_False prod.case)
  show ?thesis
    using find_elem_index[of es "fk ?e"]
  proof (elim disjE exE conjE)
    fix j assume j: "j < length es" "fk (es ! j) = fk ?e"
    obtain p where p: "array_get_index b (key ?e) = Some (int j, p)"
      using get_index_found[OF rep t, of j] j len by auto
    have "insert_elem es ?e = es[j := merge (es ! j) ?e]"
      using elem_old[of j es ?e] j rep_keys_inj[OF rep, of _ j] len by (metis less_irrefl order.strict_trans)
    moreover have "arr_rep (b\<lparr>adata := (adata b)[j := Some (merge (es ! j) ?e)]\<rparr>) (es[j := merge (es ! j) ?e]) ns"
      using update_rep[OF rep, of j "merge (es ! j) ?e"] j len rep_tame[OF rep, of j] by simp
    moreover have "array_insert_unique a str = Some (0, b\<lparr>adata := (adata b)[j := Some (merge (es ! j) ?e)]\<rparr>)"
    proof -
      have "adata b ! j = Some (es ! j)" using rep_adata[OF rep] j len by simp
      moreover from this have "(adata b)[j := Some (es ! j)] = adata b" by (metis list_update_id)
      ultimately show ?thesis unfolding unf by (auto simp: p merge_def simp del: insert_dup.simps)
    qed
    ultimately show ?thesis using el used rep_elements by (auto simp: arr_inv_def)
  next
    assume none: "\<forall>j < length es. fk (es ! j) \<noteq> fk ?e"
    obtain p where p: "array_get_index b (key ?e) = Some (-1, p)"
      "let r = rank (fk ?e) (map (\<lambda>i. fk (es ! i)) ns) in p = int r - 1 \<or> p = int r"
      using get_index_missing[OF rep t] none len by auto
    have "\<forall>d \<in> set es. fk d \<noteq> fk ?e" using none by (auto simp: in_set_conv_nth)
    then have "insert_elem es ?e = es @ [?e]" using elem_new by blast
    moreover have "array_insert_unique a str = do { a \<leftarrow> array_insert_at b ?e p; Some (0, a) }"
      using room used unfolding unf by (simp add: p(1))
    moreover have "valid (array_insert_at b ?e p) (\<lambda>a'. arr_inv a' \<and> elements a' = es @ [?e] \<and>
        a_used a' = a_used b + 1 \<and> unique_ndx a' = unique_ndx b)"
      using insert_at_ok[OF rep t _ p(2)] none len by auto
    ultimately show ?thesis using el used by (auto simp: valid_bind_iff elim!: valid_weaken)
  qed
qed

lemma get_element_ok:
  assumes "arr_inv a" and "tame (k @ [NUL])"
  shows "array_get_element a k = Some (find_elem (elements a) (fold_key (k @ [NUL])))"
proof -
  obtain es ns where rep: "arr_rep a es ns" using assms(1) by (auto simp: arr_inv_def)
  note len = rep_lengths(1)[OF rep] and el = rep_elements[OF rep]
  show ?thesis
    using find_elem_index[of es "fold_key (k @ [NUL])"]
  proof (elim disjE exE conjE)
    fix j assume j: "j < length es" "fk (es ! j) = fold_key (k @ [NUL])"
      "find_elem es (fold_key (k @ [NUL])) = Some (es ! j)"
    then show ?thesis
      using get_index_found[OF rep assms(2), of j] len rep_adata[OF rep, of j] el
      by (auto simp: array_get_element_def)
  next
    assume "find_elem es (fold_key (k @ [NUL])) = None" "\<forall>j < length es. fk (es ! j) \<noteq> fold_key (k @ [NUL])"
    then show ?thesis
      using get_index_missing[OF rep assms(2)] len el by (auto simp: array_get_element_def)
  qed
qed

lemma replace_ok:
  assumes "arr_inv a" and t: "tame (key e)" and "key e \<noteq> []" "\<not> is_index_key e" and "a_used a < INT_MAX"
  shows "valid (array_replace a e) (\<lambda>(old, a'). old = find_elem (elements a) (fk e) \<and> arr_inv a' \<and>
           elements a' = replace_elem (elements a) e)"
proof -
  obtain es ns where rep: "arr_rep a es ns" using assms(1) by (auto simp: arr_inv_def)
  note len = rep_lengths(1)[OF rep] and el = rep_elements[OF rep]
  have keyed: "keyed a e = e" using assms by (simp add: keyed_def)
  show ?thesis
    using find_elem_index[of es "fk e"]
  proof (elim disjE exE conjE)
    fix j assume j: "j < length es" "fk (es ! j) = fk e" "find_elem es (fk e) = Some (es ! j)"
    obtain p where p: "array_get_index a (key e) = Some (int j, p)"
      using get_index_found[OF rep t, of j] j len by auto
    have "replace_elem es e = es[j := e]"
      using elem_old[of j es e] j rep_keys_inj[OF rep, of _ j] len by (metis less_irrefl order.strict_trans)
    moreover have "arr_rep (a\<lparr>adata := (adata a)[j := Some e]\<rparr>) (es[j := e]) ns"
      using update_rep[OF rep, of j e] j len t by simp
    ultimately show ?thesis using el j p rep_adata[OF rep, of j] len rep_elements
      by (auto simp: array_replace_def arr_inv_def)
  next
    assume none: "find_elem es (fk e) = None" "\<forall>j < length es. fk (es ! j) \<noteq> fk e"
    obtain p where p: "array_get_index a (key e) = Some (-1, p)"
      using get_index_missing[OF rep t] none len by auto
    have "\<forall>d \<in> set es. fk d \<noteq> fk e" using none(2) by (auto simp: in_set_conv_nth)
    then have "insert_elem es e = replace_elem es e" using elem_new by metis
    with p none el insert_unique_ok[OF assms(1), of e] assms keyed show ?thesis
      by (auto simp: array_replace_def valid_bind_iff elim!: valid_weaken)
  qed
qed

lemma array_init_inv: "arr_inv array_init" "elements array_init = []"
proof -
  have "arr_rep array_init [] []"
    by (auto simp: arr_rep_def array_init_def intro: exI[of _ 0])
  then show "arr_inv array_init" "elements array_init = []"
    by (auto simp: arr_inv_def elements_def array_init_def)
qed

lemma array_reset_ok:
  assumes "arr_inv a"
  shows "valid (array_reset f (Some a)) (\<lambda>ap. \<exists>a'. ap = Some a' \<and> arr_inv a' \<and> elements a' = [] \<and>
     a_size a' = a_size a)"
proof -
  obtain es ns where rep: "arr_rep a es ns" using assms by (auto simp: arr_inv_def)
  note f = rep_facts[OF rep]
  have "\<exists>k. next_power_of_2 a = 2 ^ k" using rep by (simp add: arr_rep_def)
  then have "arr_rep (a\<lparr>a_used := 0\<rparr>) [] []" "arr_rep (a\<lparr>adata := map (map_option (data_reset f)) (take (a_used a) (adata a)) @
      drop (a_used a) (adata a), a_used := 0\<rparr>) [] []"
    using f(1-3) by (simp_all add: arr_rep_def)
  then show ?thesis using f(1-4) by (auto simp: array_reset_def arr_inv_def elements_def)
qed

section \<open>The interface of the header lists\<close>

text \<open>
  What the request parser, the response writer and the plugins rely on: a map from
  case-folded keys, whose insertion of a present key joins the new element into the old.
\<close>

locale header_map =
  fixes inv :: "'m \<Rightarrow> bool" and view :: "'m \<Rightarrow> int list \<Rightarrow> 'e option" and count :: "'m \<Rightarrow> nat"
    and empty :: 'm and get :: "'m \<Rightarrow> char list \<Rightarrow> 'e option option"
    and put :: "'m \<Rightarrow> 'e \<Rightarrow> (int \<times> 'm) option"
    and ok :: "'e \<Rightarrow> bool" and keyf :: "'e \<Rightarrow> int list" and join :: "'e \<Rightarrow> 'e \<Rightarrow> 'e"
  assumes empty: "inv empty" "view empty = (\<lambda>_. None)" "count empty = 0"
    and get: "inv m \<Longrightarrow> tame (k @ [NUL]) \<Longrightarrow> get m k = Some (view m (fold_key (k @ [NUL])))"
    and put: "inv m \<Longrightarrow> ok e \<Longrightarrow> count m < INT_MAX \<Longrightarrow>
      valid (put m e) (\<lambda>(r, m'). r = 0 \<and> inv m' \<and> count m' \<le> count m + 1 \<and>
        view m' = (view m)(keyf e \<mapsto> (case view m (keyf e) of None \<Rightarrow> e | Some d \<Rightarrow> join d e)))"
begin

fun puts :: "'m \<Rightarrow> 'e list \<Rightarrow> 'm option" where
  "puts m [] = Some m"
| "puts m (e # es) = do { (_, m) \<leftarrow> put m e; puts m es }"

fun joined :: "(int list \<Rightarrow> 'e option) \<Rightarrow> 'e list \<Rightarrow> int list \<Rightarrow> 'e option" where
  "joined v [] = v"
| "joined v (e # es) = joined (v(keyf e \<mapsto> (case v (keyf e) of None \<Rightarrow> e | Some d \<Rightarrow> join d e))) es"

lemma puts_ok:
  "inv m \<Longrightarrow> list_all ok es \<Longrightarrow> count m + length es \<le> INT_MAX \<Longrightarrow>
   valid (puts m es) (\<lambda>m'. inv m' \<and> view m' = joined (view m) es)"
proof (induction es arbitrary: m)
  case (Cons e es)
  then have "valid (put m e) (\<lambda>(r, m'). r = 0 \<and> inv m' \<and> count m' \<le> count m + 1 \<and>
        view m' = (view m)(keyf e \<mapsto> (case view m (keyf e) of None \<Rightarrow> e | Some d \<Rightarrow> join d e)))"
    by (intro put) auto
  then obtain m' where "put m e = Some (0, m')" "inv m'" "count m' \<le> count m + 1"
    "view m' = (view m)(keyf e \<mapsto> (case view m (keyf e) of None \<Rightarrow> e | Some d \<Rightarrow> join d e))"
    by (auto simp: valid_def)
  moreover from this Cons have "valid (puts m' es) (\<lambda>m''. inv m'' \<and> view m'' = joined (view m') es)"
    by (intro Cons.IH) auto
  ultimately show ?case by simp
qed simp

lemma joined_fresh: "\<forall>e \<in> set es. keyf e \<noteq> k \<Longrightarrow> joined v es k = v k"
  by (induction es arbitrary: v) auto

lemma get_after_puts:
  assumes "list_all ok es" and "length es \<le> INT_MAX" and "tame (k @ [NUL])"
  shows "valid (puts empty es) (\<lambda>m. get m k = Some (joined (\<lambda>_. None) es (fold_key (k @ [NUL]))))"
  using puts_ok[OF empty(1) assms(1)] assms(2,3) empty get by (auto elim!: valid_weaken)

lemma get_put:
  assumes "inv m" and "ok e" and "count m < INT_MAX" and "tame (k @ [NUL])"
  shows "valid (put m e) (\<lambda>(r, m'). get m' k = Some (if keyf e = fold_key (k @ [NUL])
           then Some (case view m (keyf e) of None \<Rightarrow> e | Some d \<Rightarrow> join d e)
           else view m (fold_key (k @ [NUL]))))"
  using put[OF assms(1-3)] get[OF _ assms(4)] by (auto elim!: valid_weaken)

end

definition plain :: "'a data_unset \<Rightarrow> bool" where
  "plain e \<longleftrightarrow> key e \<noteq> [] \<and> \<not> is_index_key e \<and> tame (key e)"

lemma plain_keyed: "plain e \<Longrightarrow> keyed a e = e"
  by (simp add: plain_def keyed_def)

interpretation headers: header_map arr_inv "\<lambda>a. find_elem (elements a)" a_used array_init
    array_get_element array_insert_unique plain fk merge
proof unfold_locales
  fix m :: "'a array" and e :: "'a data_unset"
  assume a: "arr_inv m" "plain e" "a_used m < INT_MAX"
  have "valid (array_insert_unique m e) (\<lambda>(r, a'). r = 0 \<and> arr_inv a' \<and>
           elements a' = insert_elem (elements m) (keyed m e) \<and> a_used a' \<le> a_used m + 1)"
    using a by (intro insert_unique_ok) (auto simp: plain_keyed plain_def)
  then show "valid (array_insert_unique m e) (\<lambda>(r, m'). r = 0 \<and> arr_inv m' \<and> a_used m' \<le> a_used m + 1 \<and>
        find_elem (elements m') = (find_elem (elements m))(fk e \<mapsto>
          (case find_elem (elements m) (fk e) of None \<Rightarrow> e | Some d \<Rightarrow> merge d e)))"
    using a(2) by (auto simp: plain_keyed find_insert fun_eq_iff elim!: valid_weaken)
qed (simp_all add: array_init_inv get_element_ok find_elem_def fun_eq_iff, simp_all add: array_init_def)

text \<open>
  A removal keeps the search structure only when the removed element is also the greatest
  key: the index list is not touched, so otherwise it still names the removed slot.
\<close>

lemma pop_greatest:
  assumes "arr_rep a (es @ [e]) (ns @ [length es])"
  shows "valid (array_pop a) (\<lambda>(r, a'). r = Some e \<and> arr_rep a' es ns)"
proof -
  note f = rep_facts[OF assms] and l = rep_lengths[OF assms]
  have u: "a_used a = Suc (length es)" using l by simp
  have "adata a ! length es = Some e" using rep_adata[OF assms, of "length es"] u by simp
  moreover have "take (length es) (adata a) = map Some es"
    using arg_cong[OF f(4), of "take (length es)"] u by simp
  moreover have "take (length es) (sorted_ndx a) = map Some ns"
    using arg_cong[OF f(5), of "take (length ns)"] u l by simp
  moreover have "set ns = {..<length es}" using f(6) u l(3) insert_ident[of "length es" "set ns" "{..<length es}"] by (simp add: lessThan_Suc)
  moreover have "sorted_wrt (<) (map (\<lambda>i. fk (es ! i)) ns)"
  proof -
    have "map (\<lambda>i. fk ((es @ [e]) ! i)) ns = map (\<lambda>i. fk (es ! i)) ns"
      using \<open>set ns = {..<length es}\<close> by (auto simp: nth_append)
    moreover have "sorted_wrt (<) (map (\<lambda>i. fk ((es @ [e]) ! i)) ns)"
      using f(7) by (simp only: map_append sorted_wrt_append)
    ultimately show ?thesis by metis
  qed
  ultimately show ?thesis
    using f(1-3,8) u assms by (simp add: array_pop_def arr_rep_def Let_def)
qed

definition sample_elem :: "char list \<Rightarrow> char list \<Rightarrow> unit data_unset" where
  "sample_elem k v = data_string_init\<lparr>key := terminated k, payload := DString (terminated v)\<rparr>"

lemmas search_eval = array_insert_unique_def array_insert_at_def array_pop_def array_get_element_def
  array_get_index_def get_index_loop.simps look_key_def at_pos_def array_room_def goes_behind_def
  insert_sorted_def caseless_compare_eq caseless_diff_def char_eval is_upper_def is_lower_def
  to_int32_id INT_MAX_def

lemma pop_stale_index:
  "(do { (_, a) \<leftarrow> array_insert_unique array_init (sample_elem ''b'' ''1'');
         (_, a) \<leftarrow> array_insert_unique a (sample_elem ''a'' ''2'');
         (_, a) \<leftarrow> array_pop a;
         array_get_element a ''b'' }) = None"
  by (simp add: sample_elem_def data_string_init_def terminated_def array_init_def search_eval)

section \<open>Properties\<close>

definition insert_all :: "'a array \<Rightarrow> 'a data_unset list \<Rightarrow> 'a array option" where
  "insert_all a es = foldl (\<lambda>a e. do { a \<leftarrow> a; (_, a) \<leftarrow> array_insert_unique a e; Some a }) (Some a) es"

text \<open>What the insertions leave under a key: the elements of that key, joined in order.\<close>

definition joined_elem :: "int list \<Rightarrow> 'a data_unset list \<Rightarrow> 'a data_unset option" where
  "joined_elem k es = foldl (\<lambda>acc e. if fk e = k
     then Some (case acc of None \<Rightarrow> e | Some d \<Rightarrow> merge d e) else acc) None es"

lemma joined_foldl: "headers.joined v es k = foldl (\<lambda>acc e. if fk e = k
     then Some (case acc of None \<Rightarrow> e | Some d \<Rightarrow> merge d e) else acc) (v k) es"
  by (induction es arbitrary: v) (auto simp: option.case_eq_if)

lemma foldl_None: "foldl (\<lambda>a e. do { a \<leftarrow> a; f a e }) None es = None"
  by (induction es) auto

lemma puts_insert_all: "headers.puts a es = insert_all a es"
proof (induction es arbitrary: a)
  case (Cons e es)
  show ?case
  proof (cases "array_insert_unique a e")
    case None
    with foldl_None[of "\<lambda>a e. do { (_, a) \<leftarrow> array_insert_unique a e; Some a }" es] show ?thesis
      by (simp add: insert_all_def)
  next
    case (Some ra)
    with Cons[of "snd ra"] show ?thesis by (simp add: insert_all_def case_prod_unfold)
  qed
qed (simp add: insert_all_def)

text \<open>
  C3: after any number of insertions, with repeated keys in any letter case, the lookup of a
  key finds the elements inserted under it, joined in insertion order, and nothing else; no
  step of the halving search leaves the array.  This is for keys without the six bytes between \<open>Z\<close> and \<open>a\<close>
  in ASCII, the underscore among them, for which the comparison without regard to case is no
  order, and for elements that are inserted under their keys, not under the index of an unnamed one.
\<close>

theorem array_insert_then_get:
  assumes "list_all plain es" and "length es \<le> INT_MAX" and "tame (k @ [NUL])"
  shows "valid (insert_all array_init es)
           (\<lambda>a. array_get_element a k = Some (joined_elem (fold_key (k @ [NUL])) es))"
  using headers.get_after_puts[OF assms] unfolding puts_insert_all joined_foldl joined_elem_def .

lemma array_insert_then_get_witness:
  "valid (insert_all array_init [sample_elem ''Host'' ''x'', sample_elem ''Accept'' ''a'', sample_elem ''host'' ''y''])
     (\<lambda>a. array_get_element a ''HOST'' = Some (joined_elem (fold_key (''HOST'' @ [NUL]))
        [sample_elem ''Host'' ''x'', sample_elem ''Accept'' ''a'', sample_elem ''host'' ''y'']))"
  by (rule array_insert_then_get)
    (simp_all add: plain_def tame_def sample_elem_def data_string_init_def terminated_def uchar_def INT_MAX_def)

text \<open>
  Replacing an element returns the one stored under the same key in any letter case, if
  there was one, and from then on that key yields the new element and every other key what
  it yielded before.
\<close>

theorem array_replace_then_get:
  assumes "arr_inv a" and "plain e" and "a_used a < INT_MAX" and "tame (k @ [NUL])"
  shows "valid (array_replace a e) (\<lambda>(old, a'). old = find_elem (elements a) (fk e) \<and> arr_inv a' \<and>
     array_get_element a' k = (if fold_key (k @ [NUL]) = fk e then Some (Some e) else array_get_element a k))"
proof -
  have "valid (array_replace a e) (\<lambda>(old, a'). old = find_elem (elements a) (fk e) \<and> arr_inv a' \<and>
           elements a' = replace_elem (elements a) e)"
    using assms(2) by (intro replace_ok[OF assms(1) _ _ _ assms(3)]) (auto simp: plain_def)
  then obtain a' where a': "array_replace a e = Some (find_elem (elements a) (fk e), a')" "arr_inv a'"
    "elements a' = replace_elem (elements a) e" by (auto simp: valid_def)
  then show ?thesis
    using get_element_ok[OF a'(2) assms(4)] get_element_ok[OF assms(1,4)] by (simp add: find_replace)
qed

lemma array_replace_then_get_witness:
  "valid (array_replace array_init (sample_elem ''Host'' ''x'')) (\<lambda>(old, a').
     old = find_elem (elements array_init) (fk (sample_elem ''Host'' ''x'')) \<and> arr_inv a' \<and>
     array_get_element a' ''host'' = (if fold_key (''host'' @ [NUL]) = fk (sample_elem ''Host'' ''x'')
       then Some (Some (sample_elem ''Host'' ''x'')) else array_get_element array_init ''host''))"
  by (rule array_replace_then_get[OF array_init_inv(1)])
    (simp_all add: plain_def tame_def sample_elem_def data_string_init_def terminated_def
      uchar_def INT_MAX_def array_init_def)

end
