(* ===== verification/Chunk.thy ===== *)
theory Chunk
  imports Buffer
begin

text \<open>
  \<open>chunk.c\<close>: the queue of memory and file chunks through which every byte to and from a
  connection passes.  The queue is a singly linked list with a \<open>last\<close> pointer, and keeps a
  stack of recycled chunks.  The model keeps the pointers: a queue owns a list of cells, an
  address is an index, a freed cell is \<open>None\<close>, and following \<open>NULL\<close> or a freed address is
  undefined.  The lemmas show that the pointer operations implement the operations on plain
  lists of chunks, and that the bytes pending in the queue are what was put into it.
\<close>

section \<open>The structures\<close>

datatype chunk_type = UNUSED_CHUNK | MEM_CHUNK | FILE_CHUNK

record chunk =
  ctype :: chunk_type
  c_mem :: "char list"
  f_name :: "char list"
  f_start :: int
  f_length :: int
  f_fd :: int
  f_mmap :: bool
  f_is_temp :: bool
  c_offset :: int
  c_next :: "nat option"

record chunkqueue =
  cells :: "chunk option list"
  cq_first :: "nat option"
  cq_last :: "nat option"
  cq_unused :: "nat option"
  unused_chunks :: nat
  tempdirs :: "char list list option"
  bytes_in :: int
  bytes_out :: int

definition chunkqueue_init :: chunkqueue where
  "chunkqueue_init = \<lparr>cells = [], cq_first = None, cq_last = None, cq_unused = None,
     unused_chunks = 0, tempdirs = None, bytes_in = 0, bytes_out = 0\<rparr>"

definition chunk_init :: chunk where
  "chunk_init = \<lparr>ctype = UNUSED_CHUNK, c_mem = [], f_name = [], f_start = 0, f_length = 0, f_fd = -1,
     f_mmap = False, f_is_temp = False, c_offset = 0, c_next = None\<rparr>"

text \<open>
  \<open>chunk_reset\<close>: the first component is the names passed to \<open>unlink\<close>.
\<close>

definition chunk_reset :: "chunk \<Rightarrow> char list list \<times> chunk" where
  "chunk_reset c =
     ((if f_is_temp c \<and> f_name c \<noteq> [] then [cstr (f_name c)] else []),
      c\<lparr>c_mem := [], f_name := [], f_fd := -1, f_mmap := False\<rparr>)"

definition get_chunk :: "chunkqueue \<Rightarrow> nat \<Rightarrow> chunk option" where
  "get_chunk cq a = (if a < length (cells cq) then cells cq ! a else None)"

definition set_chunk :: "chunkqueue \<Rightarrow> nat \<Rightarrow> chunk \<Rightarrow> chunkqueue" where
  "set_chunk cq a c = cq\<lparr>cells := (cells cq)[a := Some c]\<rparr>"

section \<open>The list operations\<close>

definition chunkqueue_get_unused_chunk :: "chunkqueue \<Rightarrow> (nat \<times> chunkqueue) option" where
  "chunkqueue_get_unused_chunk cq = (case cq_unused cq of
       None \<Rightarrow> Some (length (cells cq), cq\<lparr>cells := cells cq @ [Some chunk_init]\<rparr>)
     | Some a \<Rightarrow> do {
         c \<leftarrow> get_chunk cq a;
         let cq = cq\<lparr>cq_unused := c_next c\<rparr>;
         let cq = set_chunk cq a (c\<lparr>c_next := None\<rparr>);
         Some (a, cq\<lparr>unused_chunks := unused_chunks cq - 1\<rparr>) })"

definition chunkqueue_prepend_chunk :: "chunkqueue \<Rightarrow> nat \<Rightarrow> chunkqueue option" where
  "chunkqueue_prepend_chunk cq a = do {
     c \<leftarrow> get_chunk cq a;
     let cq = set_chunk cq a (c\<lparr>c_next := cq_first cq\<rparr>);
     let cq = cq\<lparr>cq_first := Some a\<rparr>;
     Some (if cq_last cq = None then cq\<lparr>cq_last := Some a\<rparr> else cq) }"

definition chunkqueue_append_chunk :: "chunkqueue \<Rightarrow> nat \<Rightarrow> chunkqueue option" where
  "chunkqueue_append_chunk cq a = do {
     cq \<leftarrow> (case cq_last cq of
         None \<Rightarrow> Some cq
       | Some l \<Rightarrow> do { lc \<leftarrow> get_chunk cq l; Some (set_chunk cq l (lc\<lparr>c_next := Some a\<rparr>)) });
     let cq = cq\<lparr>cq_last := Some a\<rparr>;
     Some (if cq_first cq = None then cq\<lparr>cq_first := Some a\<rparr> else cq) }"

text \<open>A fresh or recycled chunk, its fields set by \<open>f\<close>, linked in at the end or the front.\<close>

definition add_last :: "(chunk \<Rightarrow> chunk) \<Rightarrow> chunkqueue \<Rightarrow> (nat \<times> chunkqueue) option" where
  "add_last f cq = do {
     (a, cq) \<leftarrow> chunkqueue_get_unused_chunk cq;
     c \<leftarrow> get_chunk cq a;
     let cq = set_chunk cq a (f c);
     cq \<leftarrow> chunkqueue_append_chunk cq a;
     Some (a, cq) }"

definition add_first :: "(chunk \<Rightarrow> chunk) \<Rightarrow> chunkqueue \<Rightarrow> (nat \<times> chunkqueue) option" where
  "add_first f cq = do {
     (a, cq) \<leftarrow> chunkqueue_get_unused_chunk cq;
     c \<leftarrow> get_chunk cq a;
     let cq = set_chunk cq a (f c);
     cq \<leftarrow> chunkqueue_prepend_chunk cq a;
     Some (a, cq) }"

text \<open>\<open>buffer_copy_string_buffer\<close> on the used bytes: the last byte becomes the terminator.\<close>

definition copy_bytes :: "char list \<Rightarrow> char list" where
  "copy_bytes src = (if src = [] then [] else terminated (butlast src))"

definition chunkqueue_append_file :: "chunkqueue \<Rightarrow> char list \<Rightarrow> int \<Rightarrow> int \<Rightarrow> (int \<times> chunkqueue) option" where
  "chunkqueue_append_file cq fn offset len =
     (if len = 0 then Some (0, cq)
      else do {
        (_, cq) \<leftarrow> add_last (\<lambda>c. c\<lparr>ctype := FILE_CHUNK, f_name := copy_bytes fn, f_start := offset,
                               f_length := len, c_offset := 0\<rparr>) cq;
        Some (0, cq) })"

definition chunkqueue_append_buffer :: "chunkqueue \<Rightarrow> char list \<Rightarrow> (int \<times> chunkqueue) option" where
  "chunkqueue_append_buffer cq mem =
     (if mem = [] then Some (0, cq)
      else do {
        (_, cq) \<leftarrow> add_last (\<lambda>c. c\<lparr>ctype := MEM_CHUNK, c_offset := 0, c_mem := copy_bytes mem\<rparr>) cq;
        Some (0, cq) })"

definition chunkqueue_append_buffer_weak :: "chunkqueue \<Rightarrow> char list \<Rightarrow> (int \<times> chunkqueue) option" where
  "chunkqueue_append_buffer_weak cq mem =
     (if mem = [] then Some (0, cq)
      else do {
        (_, cq) \<leftarrow> add_last (\<lambda>c. c\<lparr>ctype := MEM_CHUNK, c_offset := 0, c_mem := mem\<rparr>) cq;
        Some (0, cq) })"

definition chunkqueue_prepend_buffer :: "chunkqueue \<Rightarrow> char list \<Rightarrow> (int \<times> chunkqueue) option" where
  "chunkqueue_prepend_buffer cq mem =
     (if mem = [] then Some (0, cq)
      else do {
        (_, cq) \<leftarrow> add_first (\<lambda>c. c\<lparr>ctype := MEM_CHUNK, c_offset := 0, c_mem := copy_bytes mem\<rparr>) cq;
        Some (0, cq) })"

definition chunkqueue_append_mem :: "chunkqueue \<Rightarrow> char list \<Rightarrow> nat \<Rightarrow> (int \<times> chunkqueue) option" where
  "chunkqueue_append_mem cq mem len =
     (if len = 0 then Some (0, cq)
      else if len - 1 > length mem then None
      else do {
        (_, cq) \<leftarrow> add_last (\<lambda>c. c\<lparr>ctype := MEM_CHUNK, c_offset := 0,
                               c_mem := terminated (take (len - 1) mem)\<rparr>) cq;
        Some (0, cq) })"

text \<open>The buffer these two return is the one of the chunk at the address.\<close>

definition chunkqueue_get_prepend_buffer :: "chunkqueue \<Rightarrow> (nat \<times> chunkqueue) option" where
  "chunkqueue_get_prepend_buffer cq =
     add_first (\<lambda>c. c\<lparr>ctype := MEM_CHUNK, c_offset := 0, c_mem := []\<rparr>) cq"

definition chunkqueue_get_append_buffer :: "chunkqueue \<Rightarrow> (nat \<times> chunkqueue) option" where
  "chunkqueue_get_append_buffer cq =
     add_last (\<lambda>c. c\<lparr>ctype := MEM_CHUNK, c_offset := 0, c_mem := []\<rparr>) cq"

definition put_mem :: "chunkqueue \<Rightarrow> nat \<Rightarrow> char list \<Rightarrow> chunkqueue option" where
  "put_mem cq a m = do { c \<leftarrow> get_chunk cq a; Some (set_chunk cq a (c\<lparr>c_mem := m\<rparr>)) }"

definition chunkqueue_set_tempdirs :: "chunkqueue option \<Rightarrow> char list list option \<Rightarrow> int \<times> chunkqueue option" where
  "chunkqueue_set_tempdirs cq dirs = (case cq of None \<Rightarrow> (-1, None) | Some cq \<Rightarrow> (0, Some (cq\<lparr>tempdirs := dirs\<rparr>)))"

text \<open>
  Temporary files: \<open>mkstemp i t\<close> is the result of the \<open>i\<close>-th call of the system's
  \<open>mkstemp\<close>, a descriptor or -1 and the template as it was filled in.
\<close>

definition temp_template :: "char list" where
  "temp_template = ''/var/tmp/lighttpd-upload-XXXXXX''"

definition append_slash :: "char list \<Rightarrow> char list" where
  "append_slash s = (if s \<noteq> [] \<and> last s \<noteq> CHR ''/'' then s @ ''/'' else s)"

fun try_tempdirs :: "(nat \<Rightarrow> char list \<Rightarrow> int \<times> char list) \<Rightarrow> nat \<Rightarrow> char list list \<Rightarrow> char list \<Rightarrow> int \<Rightarrow>
    char list \<times> int \<times> bool" where
  "try_tempdirs mkstemp i [] template fd = (template, fd, False)"
| "try_tempdirs mkstemp i (d # ds) template fd =
     (let (fd, template) = mkstemp i (append_slash d @ ''lighttpd-upload-XXXXXX'')
      in if fd \<noteq> -1 then (template, fd, True) else try_tempdirs mkstemp (i + 1) ds template fd)"

definition chunkqueue_get_append_tempfile ::
    "(nat \<Rightarrow> char list \<Rightarrow> int \<times> char list) \<Rightarrow> chunkqueue \<Rightarrow> (nat \<times> chunkqueue) option" where
  "chunkqueue_get_append_tempfile mkstemp cq =
     (let (template, fd, made) = (case tempdirs cq of
            Some (d # ds) \<Rightarrow> try_tempdirs mkstemp 0 (d # ds) temp_template (-1)
          | _ \<Rightarrow> let (fd, template) = mkstemp 0 temp_template in (template, fd, fd \<noteq> -1))
      in add_last (\<lambda>c. c\<lparr>ctype := FILE_CHUNK, c_offset := 0, f_fd := fd,
             f_is_temp := f_is_temp c \<or> made, f_name := terminated template, f_length := 0\<rparr>) cq)"

text \<open>
  Walking the list.  \<open>fuel\<close> bounds the number of steps; the length of \<open>cells\<close> and one more
  is always enough for a well-formed queue.
\<close>

fun sum_loop :: "nat \<Rightarrow> (chunk \<Rightarrow> int) \<Rightarrow> chunkqueue \<Rightarrow> nat option \<Rightarrow> int \<Rightarrow> int option" where
  "sum_loop fuel f cq None len = Some len"
| "sum_loop 0 f cq (Some a) len = None"
| "sum_loop (Suc fuel) f cq (Some a) len = do {
     c \<leftarrow> get_chunk cq a;
     sum_loop fuel f cq (c_next c) (len + f c) }"

definition chunk_length :: "chunk \<Rightarrow> int" where
  "chunk_length c = (case ctype c of
       MEM_CHUNK \<Rightarrow> if c_mem c \<noteq> [] then int (length (c_mem c)) - 1 else 0
     | FILE_CHUNK \<Rightarrow> f_length c
     | UNUSED_CHUNK \<Rightarrow> 0)"

definition chunkqueue_length :: "chunkqueue \<Rightarrow> int option" where
  "chunkqueue_length cq = sum_loop (length (cells cq)) chunk_length cq (cq_first cq) 0"

definition chunkqueue_written :: "chunkqueue \<Rightarrow> int option" where
  "chunkqueue_written cq =
     sum_loop (length (cells cq)) (\<lambda>c. if ctype c = UNUSED_CHUNK then 0 else c_offset c) cq (cq_first cq) 0"

definition chunkqueue_is_empty :: "chunkqueue \<Rightarrow> bool" where
  "chunkqueue_is_empty cq \<longleftrightarrow> cq_first cq = None"

definition is_finished :: "chunk \<Rightarrow> bool" where
  "is_finished c = (case ctype c of
       MEM_CHUNK \<Rightarrow> c_mem c = [] \<or> c_offset c = int (length (c_mem c)) - 1
     | FILE_CHUNK \<Rightarrow> c_offset c = f_length c
     | UNUSED_CHUNK \<Rightarrow> False)"

text \<open>The removed chunk goes to the cache of unused chunks, or is freed when that is full.\<close>

definition recycle :: "chunkqueue \<Rightarrow> nat \<Rightarrow> chunk \<Rightarrow> chunkqueue" where
  "recycle cq a c =
     (if unused_chunks cq > 4 then cq\<lparr>cells := (cells cq)[a := None]\<rparr>
      else (set_chunk cq a (c\<lparr>c_next := cq_unused cq\<rparr>))\<lparr>cq_unused := Some a,
              unused_chunks := unused_chunks cq + 1\<rparr>)"

definition drop_first :: "chunkqueue \<Rightarrow> nat \<Rightarrow> chunk \<Rightarrow> chunkqueue" where
  "drop_first cq a c =
     (let cq = cq\<lparr>cq_first := c_next c\<rparr> in if Some a = cq_last cq then cq\<lparr>cq_last := None\<rparr> else cq)"

fun remove_loop :: "nat \<Rightarrow> chunkqueue \<Rightarrow> (char list list \<times> chunkqueue) option" where
  "remove_loop fuel cq = (case cq_first cq of
       None \<Rightarrow> Some ([], cq)
     | Some a \<Rightarrow> (case fuel of 0 \<Rightarrow> None | Suc fuel \<Rightarrow> do {
         c \<leftarrow> get_chunk cq a;
         if \<not> is_finished c then Some ([], cq)
         else do {
           let (gone, c) = chunk_reset c;
           (gone', cq) \<leftarrow> remove_loop fuel (recycle (drop_first cq a c) a c);
           Some (gone @ gone', cq) } }))"

declare remove_loop.simps [simp del]

definition chunkqueue_remove_finished_chunks :: "chunkqueue \<Rightarrow> (char list list \<times> chunkqueue) option" where
  "chunkqueue_remove_finished_chunks cq = remove_loop (length (cells cq)) cq"

definition mark_written :: "chunk \<Rightarrow> chunk" where
  "mark_written c = (case ctype c of
       MEM_CHUNK \<Rightarrow> c\<lparr>c_offset := int (length (c_mem c)) - 1\<rparr>
     | FILE_CHUNK \<Rightarrow> c\<lparr>c_offset := f_length c\<rparr>
     | UNUSED_CHUNK \<Rightarrow> c)"

fun mark_loop :: "nat \<Rightarrow> chunkqueue \<Rightarrow> nat option \<Rightarrow> chunkqueue option" where
  "mark_loop fuel cq None = Some cq"
| "mark_loop 0 cq (Some a) = None"
| "mark_loop (Suc fuel) cq (Some a) = do {
     c \<leftarrow> get_chunk cq a;
     mark_loop fuel (set_chunk cq a (mark_written c)) (c_next c) }"

definition chunkqueue_reset :: "chunkqueue \<Rightarrow> (char list list \<times> chunkqueue) option" where
  "chunkqueue_reset cq = do {
     cq \<leftarrow> mark_loop (length (cells cq)) cq (cq_first cq);
     (gone, cq) \<leftarrow> chunkqueue_remove_finished_chunks cq;
     Some (gone, cq\<lparr>bytes_in := 0, bytes_out := 0\<rparr>) }"

section \<open>The pointers represent lists\<close>

fun lseg :: "chunk option list \<Rightarrow> nat option \<Rightarrow> nat list \<Rightarrow> bool" where
  "lseg m p [] \<longleftrightarrow> p = None"
| "lseg m p (a # as) \<longleftrightarrow> p = Some a \<and> (\<exists>c. a < length m \<and> m ! a = Some c \<and> lseg m (c_next c) as)"

lemma lseg_update [simp]: "a \<notin> set as \<Longrightarrow> lseg (m[a := x]) p as = lseg m p as"
  by (induction as arbitrary: p) auto

lemma lseg_append: "lseg m p as \<Longrightarrow> lseg (m @ xs) p as"
  by (induction as arbitrary: p) (auto simp: nth_append)

lemma lseg_bound: "lseg m p as \<Longrightarrow> a \<in> set as \<Longrightarrow> a < length m \<and> (\<exists>c. m ! a = Some c)"
  by (induction as arbitrary: p) auto

lemma lseg_length: "lseg m p as \<Longrightarrow> distinct as \<Longrightarrow> length as \<le> length m"
proof -
  assume "lseg m p as" "distinct as"
  then have "set as \<subseteq> {..<length m}" using lseg_bound by blast
  then have "card (set as) \<le> length m" using card_mono[of "{..<length m}"] by simp
  with \<open>distinct as\<close> show ?thesis by (simp add: distinct_card)
qed

text \<open>Linking a cell behind the last one.\<close>

lemma lseg_snoc:
  assumes "lseg m p (as @ [l])" and "distinct (as @ [l])" and "m ! l = Some c" and "a \<notin> set (as @ [l])"
    and "a < length m" and "m ! a = Some d" and "c_next d = None"
  shows "lseg (m[l := Some (c\<lparr>c_next := Some a\<rparr>)]) p (as @ [l, a])"
  using assms
proof (induction as arbitrary: p)
  case (Cons x as)
  then obtain cx where x: "p = Some x" "x < length m" "m ! x = Some cx" "lseg m (c_next cx) (as @ [l])"
    by auto
  with Cons have "lseg (m[l := Some (c\<lparr>c_next := Some a\<rparr>)]) (c_next cx) (as @ [l, a])" by auto
  with x Cons.prems show ?case by auto
qed auto

definition shape :: "chunkqueue \<Rightarrow> nat list \<Rightarrow> nat list \<Rightarrow> bool" where
  "shape cq as us \<longleftrightarrow> lseg (cells cq) (cq_first cq) as \<and>
     cq_last cq = (if as = [] then None else Some (last as)) \<and>
     lseg (cells cq) (cq_unused cq) us \<and> unused_chunks cq = length us \<and> distinct (as @ us) \<and> length us \<le> 5"

definition bare :: "chunk \<Rightarrow> chunk" where
  "bare c = c\<lparr>c_next := None\<rparr>"

definition items :: "chunkqueue \<Rightarrow> nat list \<Rightarrow> chunk list" where
  "items cq as = map (\<lambda>a. bare (the (cells cq ! a))) as"

definition cq_rep :: "chunkqueue \<Rightarrow> chunk list \<Rightarrow> bool" where
  "cq_rep cq cs \<longleftrightarrow> (\<exists>as us. shape cq as us \<and> cs = items cq as)"

lemma bare_simps [simp]: "ctype (bare c) = ctype c" "c_mem (bare c) = c_mem c" "f_name (bare c) = f_name c"
  "f_start (bare c) = f_start c" "f_length (bare c) = f_length c" "c_offset (bare c) = c_offset c"
  "f_is_temp (bare c) = f_is_temp c" "bare (bare c) = bare c" "bare (c\<lparr>c_next := p\<rparr>) = bare c"
  by (simp_all add: bare_def)

lemma is_finished_bare [simp]: "is_finished (bare c) = is_finished c"
  by (simp add: is_finished_def split: chunk_type.splits)

lemma init_rep: "cq_rep chunkqueue_init []"
  by (simp add: cq_rep_def shape_def chunkqueue_init_def items_def)

lemma get_chunk_iff: "get_chunk cq a = Some c \<longleftrightarrow> a < length (cells cq) \<and> cells cq ! a = Some c"
  by (simp add: get_chunk_def)

lemma nth_update_other: "a \<notin> set as \<Longrightarrow> b \<in> set as \<Longrightarrow> (m[a := x]) ! b = m ! b"
  by (metis nth_list_update_neq)

lemma items_update [simp]: "a \<notin> set as \<Longrightarrow> items (cq\<lparr>cells := (cells cq)[a := x]\<rparr>) as = items cq as"
  by (simp add: items_def nth_update_other cong: map_cong)

lemma items_cells: "cells cq' = cells cq \<Longrightarrow> items cq' as = items cq as"
  by (simp add: items_def)

lemma items_other [simp]: "items (cq\<lparr>cq_first := p\<rparr>) as = items cq as" "items (cq\<lparr>cq_last := p\<rparr>) as = items cq as"
  "items (cq\<lparr>cq_unused := p\<rparr>) as = items cq as" "items (cq\<lparr>unused_chunks := n\<rparr>) as = items cq as"
  by (simp_all add: items_def)

lemma items_Cons: "items cq (a # as) = bare (the (cells cq ! a)) # items cq as"
  by (simp add: items_def)

lemma items_append: "items cq (as @ bs) = items cq as @ items cq bs"
  by (simp add: items_def)

lemma items_Nil [simp]: "items cq [] = []"
  by (simp add: items_def)

lemma items_length [simp]: "length (items cq as) = length as"
  by (simp add: items_def)

lemma get_set_same: "a < length (cells cq) \<Longrightarrow> get_chunk (set_chunk cq a c) a = Some c"
  by (simp add: get_chunk_def set_chunk_def)

lemma items_set_chunk [simp]: "a \<notin> set as \<Longrightarrow> items (set_chunk cq a c) as = items cq as"
  by (simp add: set_chunk_def)

lemma shape_set_chunk: "shape cq as us \<Longrightarrow> a \<notin> set (as @ us) \<Longrightarrow> shape (set_chunk cq a c) as us"
  by (simp add: shape_def set_chunk_def)

lemma get_unused_ok:
  assumes "shape cq as us"
  shows "\<exists>a cq' us' c. chunkqueue_get_unused_chunk cq = Some (a, cq') \<and> shape cq' as us' \<and>
    a \<notin> set (as @ us') \<and> get_chunk cq' a = Some c \<and> c_next c = None \<and> items cq' as = items cq as \<and> length us' \<le> 4"
proof (cases us)
  case Nil
  let ?a = "length (cells cq)"
  let ?cq = "cq\<lparr>cells := cells cq @ [Some chunk_init]\<rparr>"
  have "shape ?cq as []" using assms Nil by (auto simp: shape_def lseg_append)
  moreover have "?a \<notin> set as" using assms lseg_bound by (fastforce simp: shape_def)
  moreover have "items ?cq as = items cq as"
    using assms lseg_bound[of "cells cq" "cq_first cq" as]
    by (auto simp: items_def shape_def nth_append)
  moreover have "cq_unused cq = None" using assms Nil by (simp add: shape_def)
  ultimately show ?thesis
    by (intro exI[of _ ?a] exI[of _ ?cq] exI[of _ "[]"] exI[of _ chunk_init])
      (simp add: chunkqueue_get_unused_chunk_def get_chunk_def chunk_init_def)
next
  case (Cons a us')
  then obtain c where c: "cq_unused cq = Some a" "a < length (cells cq)" "cells cq ! a = Some c"
    "lseg (cells cq) (c_next c) us'" using assms by (auto simp: shape_def)
  let ?cq = "cq\<lparr>cq_unused := c_next c, cells := (cells cq)[a := Some (c\<lparr>c_next := None\<rparr>)],
     unused_chunks := unused_chunks cq - 1\<rparr>"
  have r: "chunkqueue_get_unused_chunk cq = Some (a, ?cq)"
    using c by (simp add: chunkqueue_get_unused_chunk_def get_chunk_def set_chunk_def)
  have "shape ?cq as us'" using assms Cons c by (auto simp: shape_def)
  moreover have "a \<notin> set (as @ us')" using assms Cons by (auto simp: shape_def)
  moreover have "items ?cq as = items cq as"
    using \<open>a \<notin> set (as @ us')\<close> by (auto simp: items_def nth_update_other)
  moreover have "length us' \<le> 4" using assms Cons by (simp add: shape_def)
  ultimately show ?thesis using c r by (auto simp: get_chunk_def)
qed

lemma append_chunk_ok:
  assumes sh: "shape cq as us" and a: "a \<notin> set (as @ us)" and c: "get_chunk cq a = Some c" "c_next c = None"
  shows "\<exists>cq'. chunkqueue_append_chunk cq a = Some cq' \<and> shape cq' (as @ [a]) us \<and>
     items cq' (as @ [a]) = items cq as @ [bare c]"
proof (cases as rule: rev_cases)
  case Nil
  then show ?thesis using assms
    by (auto simp: chunkqueue_append_chunk_def shape_def items_Cons get_chunk_iff)
next
  case (snoc bs l)
  then obtain lc where l: "l < length (cells cq)" "cells cq ! l = Some lc" "cq_last cq = Some l"
    using sh lseg_bound[of "cells cq" "cq_first cq" as l] by (auto simp: shape_def)
  let ?m = "(cells cq)[l := Some (lc\<lparr>c_next := Some a\<rparr>)]"
  let ?cq = "cq\<lparr>cells := ?m, cq_last := Some a\<rparr>"
  have first: "cq_first cq \<noteq> None" using sh snoc by (cases bs) (auto simp: shape_def)
  have ne: "a \<noteq> l" "l \<notin> set bs" "l \<notin> set us" using a sh snoc by (auto simp: shape_def)
  have "lseg ?m (cq_first cq) (bs @ [l, a])"
    using assms snoc l by (intro lseg_snoc[where d = c]) (auto simp: shape_def get_chunk_iff)
  moreover have "lseg ?m (cq_unused cq) us" using sh ne by (auto simp: shape_def)
  ultimately have "shape ?cq (as @ [a]) us" using sh a snoc by (auto simp: shape_def)
  moreover have "chunkqueue_append_chunk cq a = Some ?cq"
    using l first by (simp add: chunkqueue_append_chunk_def get_chunk_def set_chunk_def Let_def)
  moreover have "items ?cq (as @ [a]) = items cq as @ [bare c]"
    using c l ne snoc by (simp add: items_append items_Cons get_chunk_iff)
  ultimately show ?thesis by blast
qed

lemma prepend_chunk_ok:
  assumes sh: "shape cq as us" and a: "a \<notin> set (as @ us)" and c: "get_chunk cq a = Some c"
  shows "\<exists>cq'. chunkqueue_prepend_chunk cq a = Some cq' \<and> shape cq' (a # as) us \<and>
     items cq' (a # as) = bare c # items cq as"
proof -
  let ?q = "(set_chunk cq a (c\<lparr>c_next := cq_first cq\<rparr>))\<lparr>cq_first := Some a\<rparr>"
  let ?cq = "if cq_last cq = None then ?q\<lparr>cq_last := Some a\<rparr> else ?q"
  have len: "a < length (cells cq)" using c by (simp add: get_chunk_iff)
  have "chunkqueue_prepend_chunk cq a = Some ?cq"
    using c by (simp add: chunkqueue_prepend_chunk_def set_chunk_def Let_def)
  moreover have "shape ?cq (a # as) us"
    using sh a len by (cases "as = []") (auto simp: shape_def set_chunk_def)
  moreover have "items ?cq (a # as) = bare c # items cq as"
    using a len by (simp add: items_Cons) (simp add: set_chunk_def)
  ultimately show ?thesis by blast
qed

lemma add_last_ok:
  assumes "cq_rep cq cs" and "\<And>c. c_next (f c) = c_next c"
  shows "valid (add_last f cq) (\<lambda>(a, cq'). \<exists>c. cq_rep cq' (cs @ [bare (f c)]) \<and>
     (\<exists>as us. shape cq' (as @ [a]) us \<and> items cq' (as @ [a]) = cs @ [bare (f c)] \<and> length us \<le> 4))"
proof -
  obtain as us where s: "shape cq as us" "cs = items cq as" using assms(1) by (auto simp: cq_rep_def)
  obtain a cq1 us1 c where 1: "chunkqueue_get_unused_chunk cq = Some (a, cq1)" "shape cq1 as us1"
    "a \<notin> set (as @ us1)" "get_chunk cq1 a = Some c" "c_next c = None" "items cq1 as = items cq as" "length us1 \<le> 4"
    using get_unused_ok[OF s(1)] by blast
  let ?cq = "set_chunk cq1 a (f c)"
  have "shape ?cq as us1" using 1 by (intro shape_set_chunk)
  moreover have "get_chunk ?cq a = Some (f c)" using 1(4) by (simp add: get_chunk_iff set_chunk_def)
  ultimately obtain cq2 where "chunkqueue_append_chunk ?cq a = Some cq2" "shape cq2 (as @ [a]) us1"
    "items cq2 (as @ [a]) = items ?cq as @ [bare (f c)]"
    using append_chunk_ok[of ?cq as us1 a "f c"] 1(3,5) assms(2) by auto
  moreover have "items ?cq as = cs" using 1(3,6) s(2) by simp
  ultimately show ?thesis
    using 1 by (auto simp: add_last_def cq_rep_def intro!: exI[of _ c])
qed

lemma add_first_ok:
  assumes "cq_rep cq cs" and "\<And>c. c_next (f c) = c_next c"
  shows "valid (add_first f cq) (\<lambda>(a, cq'). \<exists>c. cq_rep cq' (bare (f c) # cs) \<and>
     (\<exists>as us. shape cq' (a # as) us \<and> items cq' (a # as) = bare (f c) # cs))"
proof -
  obtain as us where s: "shape cq as us" "cs = items cq as" using assms(1) by (auto simp: cq_rep_def)
  obtain a cq1 us1 c where 1: "chunkqueue_get_unused_chunk cq = Some (a, cq1)" "shape cq1 as us1"
    "a \<notin> set (as @ us1)" "get_chunk cq1 a = Some c" "c_next c = None" "items cq1 as = items cq as"
    using get_unused_ok[OF s(1)] by blast
  let ?cq = "set_chunk cq1 a (f c)"
  have "shape ?cq as us1" using 1 by (intro shape_set_chunk)
  moreover have "get_chunk ?cq a = Some (f c)" using 1(4) by (simp add: get_chunk_iff set_chunk_def)
  ultimately obtain cq2 where "chunkqueue_prepend_chunk ?cq a = Some cq2" "shape cq2 (a # as) us1"
    "items cq2 (a # as) = bare (f c) # items ?cq as"
    using prepend_chunk_ok[of ?cq as us1 a "f c"] 1(3) by auto
  moreover have "items ?cq as = cs" using 1(3,6) s(2) by simp
  ultimately show ?thesis
    using 1 by (auto simp: add_first_def cq_rep_def intro!: exI[of _ c])
qed

text \<open>Writing the buffer of a chunk in the queue.\<close>

lemma lseg_same_next:
  "lseg m p as \<Longrightarrow> m ! a = Some c \<Longrightarrow> c_next c' = c_next c \<Longrightarrow> lseg (m[a := Some c']) p as"
proof (induction as arbitrary: p)
  case (Cons b as)
  then show ?case by (cases "a = b") auto
qed simp

lemma shape_keep_next:
  assumes "shape cq as us" and "get_chunk cq a = Some c" and "c_next c' = c_next c"
  shows "shape (set_chunk cq a c') as us"
  using assms lseg_same_next[of "cells cq" _ _ a c c'] by (auto simp: shape_def set_chunk_def get_chunk_iff)

lemma put_mem_ok:
  assumes "shape cq (as @ a # bs) us"
  shows "\<exists>c cq'. get_chunk cq a = Some c \<and> put_mem cq a m = Some cq' \<and> shape cq' (as @ a # bs) us \<and>
     items cq' (as @ a # bs) = items cq as @ (bare c)\<lparr>c_mem := m\<rparr> # items cq bs \<and>
     bytes_in cq' = bytes_in cq \<and> bytes_out cq' = bytes_out cq \<and> tempdirs cq' = tempdirs cq"
proof -
  have "a < length (cells cq)" "\<exists>c. cells cq ! a = Some c"
    using assms lseg_bound[of "cells cq" "cq_first cq" "as @ a # bs"] by (auto simp: shape_def)
  then obtain c where c: "get_chunk cq a = Some c" by (auto simp: get_chunk_iff)
  let ?cq = "set_chunk cq a (c\<lparr>c_mem := m\<rparr>)"
  have "shape ?cq (as @ a # bs) us" using shape_keep_next[OF assms c] by simp
  moreover have "a \<notin> set as" "a \<notin> set bs" using assms by (auto simp: shape_def)
  then have "items ?cq (as @ a # bs) = items cq as @ (bare c)\<lparr>c_mem := m\<rparr> # items cq bs"
    using c by (simp add: items_append items_Cons get_chunk_iff) (simp add: set_chunk_def bare_def)
  ultimately show ?thesis using c by (simp add: put_mem_def set_chunk_def)
qed

lemma sum_loop_ok:
  assumes "lseg (cells cq) p as" and "length as \<le> fuel" and f: "\<And>c. f (bare c) = f c"
  shows "sum_loop fuel f cq p len = Some (len + sum_list (map f (items cq as)))"
  using assms(1,2)
proof (induction as arbitrary: p len fuel)
  case (Cons a as)
  then obtain fuel' c where "fuel = Suc fuel'" "p = Some a" "a < length (cells cq)" "cells cq ! a = Some c"
    "lseg (cells cq) (c_next c) as" "length as \<le> fuel'" by (cases fuel) auto
  with Cons.IH[of "c_next c" fuel' "len + f c"] f[of c] show ?case by (simp add: get_chunk_def items_Cons)
qed simp

lemma drop_first_ok:
  assumes "shape cq (a # as) us" and "get_chunk cq a = Some c" and "c_next d = c_next c"
  shows "shape (drop_first cq a d) as us" and "cells (drop_first cq a d) = cells cq"
    and "a \<notin> set (as @ us)" and "a < length (cells cq)"
    and "tempdirs (drop_first cq a d) = tempdirs cq" "bytes_in (drop_first cq a d) = bytes_in cq"
      "bytes_out (drop_first cq a d) = bytes_out cq"
proof -
  show a: "a \<notin> set (as @ us)" "a < length (cells cq)" using assms by (auto simp: shape_def get_chunk_iff)
  have "Some a = cq_last cq \<longleftrightarrow> as = []" using assms(1) a by (auto simp: shape_def)
  then show "shape (drop_first cq a d) as us"
    using assms by (auto simp: shape_def get_chunk_iff drop_first_def Let_def)
qed (auto simp: drop_first_def Let_def)

lemma recycle_ok:
  assumes "shape cq as us" and "a \<notin> set (as @ us)" and "a < length (cells cq)"
  shows "\<exists>us'. shape (recycle cq a d) as us' \<and> items (recycle cq a d) as = items cq as"
proof (cases "unused_chunks cq > 4")
  case True
  with assms show ?thesis by (intro exI[of _ us]) (auto simp: recycle_def shape_def)
next
  case False
  then have "shape (recycle cq a d) as (a # us)" using assms by (auto simp: recycle_def shape_def set_chunk_def)
  with False assms show ?thesis by (intro exI[of _ "a # us"]) (simp add: recycle_def)
qed

lemma remove_loop_ok:
  assumes "shape cq as us" and "length as \<le> fuel"
  shows "\<exists>cq'. remove_loop fuel cq = Some (concat (map (fst \<circ> chunk_reset) (takeWhile is_finished (items cq as))), cq') \<and>
     cq_rep cq' (dropWhile is_finished (items cq as)) \<and> tempdirs cq' = tempdirs cq \<and>
     bytes_in cq' = bytes_in cq \<and> bytes_out cq' = bytes_out cq"
  using assms
proof (induction as arbitrary: cq us fuel)
  case Nil
  then show ?case by (auto simp: remove_loop.simps shape_def items_def cq_rep_def)
next
  case (Cons a as)
  then obtain fuel' c where f: "fuel = Suc fuel'" "length as \<le> fuel'" and c: "cq_first cq = Some a" "get_chunk cq a = Some c"
    by (cases fuel) (auto simp: shape_def get_chunk_iff)
  have it: "items cq (a # as) = bare c # items cq as" using c(2) by (simp add: items_def get_chunk_iff)
  show ?case
  proof (cases "is_finished c")
    case False
    with f c it Cons.prems show ?thesis
      by (subst remove_loop.simps) (auto simp: cq_rep_def)
  next
    case True
    let ?d = "snd (chunk_reset c)"
    let ?q = "drop_first cq a ?d"
    let ?r = "recycle ?q a ?d"
    have next_d: "c_next ?d = c_next c" "fst (chunk_reset (bare c)) = fst (chunk_reset c)"
      by (simp_all add: chunk_reset_def)
    note q = drop_first_ok[OF Cons.prems(1) c(2) next_d(1)]
    obtain us' where r: "shape ?r as us'" "items ?r as = items cq as"
      using recycle_ok[OF q(1,3), of ?d] q(2,4) by (auto simp: items_cells[OF q(2)])
    have same: "tempdirs ?r = tempdirs cq" "bytes_in ?r = bytes_in cq" "bytes_out ?r = bytes_out cq"
      using q(5-7) by (simp_all add: recycle_def set_chunk_def)
    obtain cq' where IH: "remove_loop fuel' ?r = Some (concat (map (fst \<circ> chunk_reset) (takeWhile is_finished (items cq as))), cq')"
      "cq_rep cq' (dropWhile is_finished (items cq as))" "tempdirs cq' = tempdirs cq"
      "bytes_in cq' = bytes_in cq" "bytes_out cq' = bytes_out cq"
      using Cons.IH[OF r(1) f(2), unfolded r(2) same] by blast
    have "remove_loop fuel cq = Some (fst (chunk_reset c) @
        concat (map (fst \<circ> chunk_reset) (takeWhile is_finished (items cq as))), cq')"
      using f c True IH(1) by (subst remove_loop.simps) (simp add: case_prod_unfold)
    with IH True it next_d(2) show ?thesis by (simp add: comp_def)
  qed
qed

lemma remove_finished_ok:
  assumes "cq_rep cq cs"
  shows "\<exists>cq'. chunkqueue_remove_finished_chunks cq = Some (concat (map (fst \<circ> chunk_reset) (takeWhile is_finished cs)), cq') \<and>
     cq_rep cq' (dropWhile is_finished cs) \<and> bytes_in cq' = bytes_in cq \<and> bytes_out cq' = bytes_out cq"
proof -
  obtain as us where s: "shape cq as us" "cs = items cq as" using assms by (auto simp: cq_rep_def)
  then have "length as \<le> length (cells cq)" by (auto simp: shape_def intro: lseg_length)
  with remove_loop_ok[OF s(1)] s(2) show ?thesis
    by (auto simp: chunkqueue_remove_finished_chunks_def)
qed

lemma mark_loop_ok:
  assumes "lseg (cells cq) p as" and "distinct as" and "length as \<le> fuel"
  shows "\<exists>cq'. mark_loop fuel cq p = Some cq' \<and> (\<forall>b. b \<notin> set as \<longrightarrow> cells cq' ! b = cells cq ! b) \<and>
     length (cells cq') = length (cells cq) \<and>
     (\<forall>b \<in> set as. cells cq' ! b = Some (mark_written (the (cells cq ! b)))) \<and>
     cq' = cq\<lparr>cells := cells cq'\<rparr>"
  using assms
proof (induction as arbitrary: cq p fuel)
  case (Cons a as)
  then obtain fuel' c where f: "fuel = Suc fuel'" "length as \<le> fuel'" and p: "p = Some a"
    and c: "a < length (cells cq)" "cells cq ! a = Some c" "lseg (cells cq) (c_next c) as" by (cases fuel) auto
  let ?q = "set_chunk cq a (mark_written c)"
  have "lseg (cells ?q) (c_next c) as" using c Cons.prems(2) by (simp add: set_chunk_def)
  then obtain cq' where IH: "mark_loop fuel' ?q (c_next c) = Some cq'"
    "\<forall>b. b \<notin> set as \<longrightarrow> cells cq' ! b = cells ?q ! b" "length (cells cq') = length (cells ?q)"
    "\<forall>b \<in> set as. cells cq' ! b = Some (mark_written (the (cells ?q ! b)))" "cq' = ?q\<lparr>cells := cells cq'\<rparr>"
    using Cons.IH[of ?q "c_next c" fuel'] Cons.prems(2) f(2) by auto
  have q: "cells ?q ! b = cells cq ! b" if "b \<noteq> a" for b using that by (simp add: set_chunk_def)
  have qa: "cells ?q ! a = Some (mark_written c)" using c by (simp add: set_chunk_def)
  have "mark_loop fuel cq p = Some cq'" using f p c IH(1) by (simp add: get_chunk_def)
  moreover have "\<forall>b. b \<notin> set (a # as) \<longrightarrow> cells cq' ! b = cells cq ! b" using IH(2) q by auto
  moreover have "\<forall>b \<in> set (a # as). cells cq' ! b = Some (mark_written (the (cells cq ! b)))"
  proof
    fix b assume b: "b \<in> set (a # as)"
    show "cells cq' ! b = Some (mark_written (the (cells cq ! b)))"
    proof (cases "b = a")
      case True
      with IH(2) qa Cons.prems(2) c(2) show ?thesis by auto
    next
      case False
      with b IH(4) q show ?thesis by auto
    qed
  qed
  moreover have "length (cells cq') = length (cells cq)" using IH(3) by (simp add: set_chunk_def)
  moreover have "cq' = cq\<lparr>cells := cells cq'\<rparr>" by (subst IH(5)) (simp add: set_chunk_def)
  ultimately show ?case by blast
qed simp

lemma mark_written_facts [simp]: "c_next (mark_written c) = c_next c" "bare (mark_written c) = mark_written (bare c)"
  by (auto simp: mark_written_def bare_def split: chunk_type.splits)

lemma lseg_mark:
  assumes "lseg m p as" and "length m' = length m" and "\<forall>b \<in> set as. m' ! b = Some (mark_written (the (m ! b)))"
  shows "lseg m' p as"
  using assms by (induction as arbitrary: p) auto

lemma lseg_same:
  assumes "lseg m p as" and "length m' = length m" and "\<forall>b \<in> set as. m' ! b = m ! b"
  shows "lseg m' p as"
  using assms by (induction as arbitrary: p) auto

lemma reset_ok:
  assumes "cq_rep cq cs"
  shows "\<exists>gone cq'. chunkqueue_reset cq = Some (gone, cq') \<and>
     cq_rep cq' (dropWhile (\<lambda>c. ctype c \<noteq> UNUSED_CHUNK) (map mark_written cs)) \<and>
     bytes_in cq' = 0 \<and> bytes_out cq' = 0"
proof -
  obtain as us where s: "shape cq as us" "cs = items cq as" using assms by (auto simp: cq_rep_def)
  have l: "lseg (cells cq) (cq_first cq) as" "distinct as" using s(1) by (auto simp: shape_def)
  obtain cq1 where 1: "mark_loop (length (cells cq)) cq (cq_first cq) = Some cq1"
    "\<forall>b. b \<notin> set as \<longrightarrow> cells cq1 ! b = cells cq ! b" "length (cells cq1) = length (cells cq)"
    "\<forall>b \<in> set as. cells cq1 ! b = Some (mark_written (the (cells cq ! b)))" "cq1 = cq\<lparr>cells := cells cq1\<rparr>"
    using mark_loop_ok[OF l lseg_length[OF l]] by blast
  have lm: "lseg (cells cq1) (cq_first cq) as" using lseg_mark[OF l(1) 1(3,4)] .
  have "\<forall>b \<in> set us. cells cq1 ! b = cells cq ! b" using 1(2) s(1) by (auto simp: shape_def)
  then have lu: "lseg (cells cq1) (cq_unused cq) us" using lseg_same[of "cells cq" "cq_unused cq" us] 1(3) s(1)
    by (simp add: shape_def)
  have eqs: "cq_first cq1 = cq_first cq" "cq_last cq1 = cq_last cq" "cq_unused cq1 = cq_unused cq"
    "unused_chunks cq1 = unused_chunks cq" by (subst 1(5), simp)+
  have "shape cq1 as us" using s(1) lm lu unfolding shape_def eqs by simp
  moreover have "items cq1 as = map mark_written cs" using 1(4) s(2) by (simp add: items_def)
  ultimately have "cq_rep cq1 (map mark_written cs)" by (metis cq_rep_def)
  then obtain cq2 where "chunkqueue_remove_finished_chunks cq1 =
      Some (concat (map (fst \<circ> chunk_reset) (takeWhile is_finished (map mark_written cs))), cq2)"
    "cq_rep cq2 (dropWhile is_finished (map mark_written cs))" using remove_finished_ok by blast
  moreover have "is_finished (mark_written c) \<longleftrightarrow> ctype (mark_written c) \<noteq> UNUSED_CHUNK" for c
    by (auto simp: is_finished_def mark_written_def split: chunk_type.splits)
  then have "dropWhile is_finished (map mark_written cs) = dropWhile (\<lambda>c. ctype c \<noteq> UNUSED_CHUNK) (map mark_written cs)"
    by (induction cs) auto
  ultimately show ?thesis using 1(1) by (auto simp: chunkqueue_reset_def cq_rep_def shape_def items_def)
qed

text \<open>A queue of memory and file chunks is empty after a reset, whatever has been sent of them.\<close>

lemma chunkqueue_reset_empty_ok:
  assumes "cq_rep cq cs" and "\<forall>c \<in> set cs. ctype c \<noteq> UNUSED_CHUNK"
  shows "\<exists>gone cq'. chunkqueue_reset cq = Some (gone, cq') \<and> cq_rep cq' [] \<and> chunkqueue_is_empty cq' \<and>
     bytes_in cq' = 0 \<and> bytes_out cq' = 0"
proof -
  obtain gone cq' where r: "chunkqueue_reset cq = Some (gone, cq')"
    "cq_rep cq' (dropWhile (\<lambda>c. ctype c \<noteq> UNUSED_CHUNK) (map mark_written cs))"
    "bytes_in cq' = 0" "bytes_out cq' = 0" using reset_ok[OF assms(1)] by blast
  have "ctype (mark_written c) = ctype c" for c by (simp add: mark_written_def split: chunk_type.splits)
  then have "dropWhile (\<lambda>c. ctype c \<noteq> UNUSED_CHUNK) (map mark_written cs) = []" using assms(2) by simp
  with r show ?thesis
    by (auto simp: cq_rep_def shape_def items_def chunkqueue_is_empty_def)
qed

section \<open>The bytes pending in a queue\<close>

text \<open>
  \<open>fs\<close> is the content of the files by name.  A memory chunk's last used byte is the
  terminator, which is never sent.
\<close>

definition chunk_bytes :: "(char list \<Rightarrow> char list) \<Rightarrow> chunk \<Rightarrow> char list" where
  "chunk_bytes fs c = (case ctype c of
       MEM_CHUNK \<Rightarrow> drop (nat (c_offset c)) (butlast (c_mem c))
     | FILE_CHUNK \<Rightarrow> take (nat (f_length c - c_offset c)) (drop (nat (f_start c + c_offset c)) (fs (cstr (f_name c))))
     | UNUSED_CHUNK \<Rightarrow> [])"

definition pending :: "(char list \<Rightarrow> char list) \<Rightarrow> chunk list \<Rightarrow> char list" where
  "pending fs cs = concat (map (chunk_bytes fs) cs)"

definition holds_stream :: "(char list \<Rightarrow> char list) \<Rightarrow> chunkqueue \<Rightarrow> char list \<Rightarrow> bool" where
  "holds_stream fs cq s \<longleftrightarrow> (\<exists>cs. cq_rep cq cs \<and> pending fs cs = s)"

lemma chunk_bytes_bare [simp]: "chunk_bytes fs (bare c) = chunk_bytes fs c"
  by (simp add: chunk_bytes_def split: chunk_type.splits)

lemma holds_streamI: "cq_rep cq cs \<Longrightarrow> pending fs cs = s \<Longrightarrow> holds_stream fs cq s"
  by (auto simp: holds_stream_def)

lemma pending_simps [simp]: "pending fs [] = []" "pending fs (c # cs) = chunk_bytes fs c @ pending fs cs"
  "pending fs (cs @ ds) = pending fs cs @ pending fs ds"
  by (simp_all add: pending_def)

lemma finished_empty: "is_finished c \<Longrightarrow> chunk_bytes fs c = []"
  by (auto simp: is_finished_def chunk_bytes_def split: chunk_type.splits)

lemma pending_finished: "pending fs (dropWhile is_finished cs) = pending fs cs"
  by (induction cs) (auto simp: finished_empty)

lemma add_last_stream:
  assumes "holds_stream fs cq s" and "\<And>c. c_next (f c) = c_next c" and "\<And>c. chunk_bytes fs (f c) = t"
  shows "valid (add_last f cq) (\<lambda>(a, cq'). holds_stream fs cq' (s @ t))"
proof -
  obtain cs where cs: "cq_rep cq cs" "pending fs cs = s" using assms(1) by (auto simp: holds_stream_def)
  obtain a cq' c where "add_last f cq = Some (a, cq')" "cq_rep cq' (cs @ [bare (f c)])"
    using add_last_ok[of cq cs f, OF cs(1) assms(2)] by (auto simp: valid_def)
  then show ?thesis using cs(2) assms(3) by (auto intro: holds_streamI)
qed

lemma add_first_stream:
  assumes "holds_stream fs cq s" and "\<And>c. c_next (f c) = c_next c" and "\<And>c. chunk_bytes fs (f c) = t"
  shows "valid (add_first f cq) (\<lambda>(a, cq'). holds_stream fs cq' (t @ s))"
proof -
  obtain cs where cs: "cq_rep cq cs" "pending fs cs = s" using assms(1) by (auto simp: holds_stream_def)
  obtain a cq' c where "add_first f cq = Some (a, cq')" "cq_rep cq' (bare (f c) # cs)"
    using add_first_ok[of cq cs f, OF cs(1) assms(2)] by (auto simp: valid_def)
  then show ?thesis using cs(2) assms(3) by (auto intro: holds_streamI)
qed

definition result_stream :: "(char list \<Rightarrow> char list) \<Rightarrow> char list \<Rightarrow> int \<times> chunkqueue \<Rightarrow> bool" where
  "result_stream fs s r \<longleftrightarrow> fst r = 0 \<and> holds_stream fs (snd r) s"

lemma append_mem_stream:
  assumes "holds_stream fs cq s" and "len - 1 \<le> length m"
  shows "valid (chunkqueue_append_mem cq m len) (result_stream fs (s @ take (len - 1) m))"
  using assms
  by (auto simp: chunkqueue_append_mem_def result_stream_def valid_bind_iff chunk_bytes_def
      intro!: valid_weaken[OF add_last_stream[where t = "take (len - 1) m"]])

lemma butlast_copy [simp]: "butlast (copy_bytes m) = butlast m"
  by (simp add: copy_bytes_def)

lemma append_buffer_stream:
  assumes "holds_stream fs cq s"
  shows "valid (chunkqueue_append_buffer cq m) (result_stream fs (s @ butlast m))"
  using assms
  by (auto simp: chunkqueue_append_buffer_def result_stream_def valid_bind_iff chunk_bytes_def
      intro!: valid_weaken[OF add_last_stream[where t = "butlast m"]])

lemma append_buffer_weak_stream:
  assumes "holds_stream fs cq s"
  shows "valid (chunkqueue_append_buffer_weak cq m) (result_stream fs (s @ butlast m))"
  using assms
  by (auto simp: chunkqueue_append_buffer_weak_def result_stream_def valid_bind_iff chunk_bytes_def
      intro!: valid_weaken[OF add_last_stream[where t = "butlast m"]])

lemma prepend_buffer_stream:
  assumes "holds_stream fs cq s"
  shows "valid (chunkqueue_prepend_buffer cq m) (result_stream fs (butlast m @ s))"
  using assms
  by (auto simp: chunkqueue_prepend_buffer_def result_stream_def valid_bind_iff chunk_bytes_def
      intro!: valid_weaken[OF add_first_stream[where t = "butlast m"]])

lemma append_file_stream:
  assumes "holds_stream fs cq s"
  shows "valid (chunkqueue_append_file cq fn offset len)
           (result_stream fs (s @ take (nat len) (drop (nat offset) (fs (cstr (copy_bytes fn))))))"
proof (cases "len = 0")
  case False
  then show ?thesis using assms
    by (auto simp: chunkqueue_append_file_def result_stream_def valid_bind_iff chunk_bytes_def
        intro!: valid_weaken[OF add_last_stream[where t = "take (nat len) (drop (nat offset) (fs (cstr (copy_bytes fn))))"]])
qed (use assms in \<open>simp add: chunkqueue_append_file_def result_stream_def\<close>)

lemma remove_finished_stream:
  assumes "holds_stream fs cq s"
  shows "valid (chunkqueue_remove_finished_chunks cq) (\<lambda>(gone, cq'). holds_stream fs cq' s)"
proof -
  obtain cs where cs: "cq_rep cq cs" "pending fs cs = s" using assms by (auto simp: holds_stream_def)
  from remove_finished_ok[OF cs(1)] cs(2) show ?thesis
    by (auto intro!: holds_streamI simp: pending_finished)
qed

section \<open>The interface\<close>

text \<open>
  What the writers of a response use: a sink that keeps the bytes of the acceptable messages in
  order.
\<close>

locale byte_sink =
  fixes stream :: "'q \<Rightarrow> char list \<Rightarrow> bool" and ok :: "'m \<Rightarrow> bool" and bytes :: "'m \<Rightarrow> char list"
    and push :: "'q \<Rightarrow> 'm \<Rightarrow> (int \<times> 'q) option"
  assumes push: "stream q s \<Longrightarrow> ok m \<Longrightarrow> valid (push q m) (\<lambda>(r, q'). r = 0 \<and> stream q' (s @ bytes m))"
begin

fun pushes :: "'q \<Rightarrow> 'm list \<Rightarrow> 'q option" where
  "pushes q [] = Some q"
| "pushes q (m # ms) = do { (_, q) \<leftarrow> push q m; pushes q ms }"

lemma pushes: "stream q s \<Longrightarrow> list_all ok ms \<Longrightarrow> valid (pushes q ms) (\<lambda>q'. stream q' (s @ concat (map bytes ms)))"
proof (induction ms arbitrary: q s)
  case (Cons m ms)
  from push[OF Cons.prems(1), of m] Cons.prems(2) obtain q' where "push q m = Some (0, q')" "stream q' (s @ bytes m)"
    by (auto simp: valid_def)
  with Cons.IH[of q' "s @ bytes m"] Cons.prems(2) show ?case by simp
qed simp

lemma pushes_append: "pushes q (ms @ ns) = do { q \<leftarrow> pushes q ms; pushes q ns }"
  by (induction ms arbitrary: q) (auto simp: case_prod_unfold)

end

interpretation mem_sink: byte_sink "holds_stream fs" "\<lambda>_. True" "\<lambda>m. m" "\<lambda>q m. chunkqueue_append_mem q m (length m + 1)" for fs
proof unfold_locales
  fix q s m assume "holds_stream fs q s"
  from append_mem_stream[OF this, of "length m + 1" m]
  show "valid (chunkqueue_append_mem q m (length m + 1)) (\<lambda>(r, q'). r = 0 \<and> holds_stream fs q' (s @ m))"
    by (auto simp: result_stream_def case_prod_unfold elim!: valid_weaken)
qed

interpretation buffer_sink: byte_sink "holds_stream fs" "\<lambda>_. True" "\<lambda>m. m" "\<lambda>q m. chunkqueue_append_buffer q (terminated m)" for fs
proof unfold_locales
  fix q s m assume "holds_stream fs q s"
  from append_buffer_stream[OF this, of "terminated m"]
  show "valid (chunkqueue_append_buffer q (terminated m)) (\<lambda>(r, q'). r = 0 \<and> holds_stream fs q' (s @ m))"
    by (auto simp: result_stream_def case_prod_unfold elim!: valid_weaken)
qed

section \<open>Properties\<close>

datatype queue_op =
  AppendMem "char list" | AppendBuffer "char list" | AppendWeak "char list" | PrependBuffer "char list"
| AppendFile "char list" int int | RemoveFinished

fun run_queue_op :: "queue_op \<Rightarrow> chunkqueue \<Rightarrow> chunkqueue option" where
  "run_queue_op (AppendMem m) cq = do { (_, cq) \<leftarrow> chunkqueue_append_mem cq m (length m + 1); Some cq }"
| "run_queue_op (AppendBuffer m) cq = do { (_, cq) \<leftarrow> chunkqueue_append_buffer cq m; Some cq }"
| "run_queue_op (AppendWeak m) cq = do { (_, cq) \<leftarrow> chunkqueue_append_buffer_weak cq m; Some cq }"
| "run_queue_op (PrependBuffer m) cq = do { (_, cq) \<leftarrow> chunkqueue_prepend_buffer cq m; Some cq }"
| "run_queue_op (AppendFile fn offset len) cq = do { (_, cq) \<leftarrow> chunkqueue_append_file cq fn offset len; Some cq }"
| "run_queue_op RemoveFinished cq = do { (_, cq) \<leftarrow> chunkqueue_remove_finished_chunks cq; Some cq }"

fun run_queue :: "queue_op list \<Rightarrow> chunkqueue \<Rightarrow> chunkqueue option" where
  "run_queue [] cq = Some cq"
| "run_queue (op # ops) cq = do { cq \<leftarrow> run_queue_op op cq; run_queue ops cq }"

fun stream_op :: "(char list \<Rightarrow> char list) \<Rightarrow> queue_op \<Rightarrow> char list \<Rightarrow> char list" where
  "stream_op fs (AppendMem m) s = s @ m"
| "stream_op fs (AppendBuffer m) s = s @ butlast m"
| "stream_op fs (AppendWeak m) s = s @ butlast m"
| "stream_op fs (PrependBuffer m) s = butlast m @ s"
| "stream_op fs (AppendFile fn offset len) s = s @ take (nat len) (drop (nat offset) (fs (cstr (copy_bytes fn))))"
| "stream_op fs RemoveFinished s = s"

lemma queue_stepI:
  assumes "valid m (result_stream fs s)"
  shows "valid (m \<bind> (\<lambda>(_, cq). Some cq)) (\<lambda>cq'. holds_stream fs cq' s)"
  using assms by (auto simp: valid_def result_stream_def)

lemma run_queue_op_ok:
  assumes "holds_stream fs cq s"
  shows "valid (run_queue_op op cq) (\<lambda>cq'. holds_stream fs cq' (stream_op fs op s))"
proof (cases op)
  case (AppendMem m)
  then show ?thesis using queue_stepI[OF append_mem_stream[OF assms, of "length m + 1" m]] by simp
next
  case (AppendBuffer m)
  then show ?thesis using queue_stepI[OF append_buffer_stream[OF assms, of m]] by simp
next
  case (AppendWeak m)
  then show ?thesis using queue_stepI[OF append_buffer_weak_stream[OF assms, of m]] by simp
next
  case (PrependBuffer m)
  then show ?thesis using queue_stepI[OF prepend_buffer_stream[OF assms, of m]] by simp
next
  case (AppendFile fn offset len)
  then show ?thesis using queue_stepI[OF append_file_stream[OF assms, of fn offset len]] by simp
next
  case RemoveFinished
  then show ?thesis using remove_finished_stream[OF assms] by (auto simp: valid_def)
qed

lemma init_stream: "holds_stream fs chunkqueue_init []"
  using init_rep by (auto intro: holds_streamI)

text \<open>
  C8: from the empty queue, any sequence of appends, prepends and removals of finished chunks
  is free of undefined behaviour (no \<open>NULL\<close> or freed chunk is followed, through the recycled
  chunks too) and the queue's pending bytes are exactly the bytes put in, in order.
\<close>

theorem chunkqueue_keeps_stream:
  "valid (run_queue ops chunkqueue_init) (\<lambda>cq. holds_stream fs cq (fold (stream_op fs) ops []))"
proof -
  have "valid (run_queue ops cq) (\<lambda>cq'. holds_stream fs cq' (fold (stream_op fs) ops s))"
    if "holds_stream fs cq s" for cq s
    using that
  proof (induction ops arbitrary: cq s)
    case (Cons op ops)
    from run_queue_op_ok[OF Cons.prems, of op] obtain cq' where
      "run_queue_op op cq = Some cq'" "holds_stream fs cq' (stream_op fs op s)" by (auto simp: valid_def)
    with Cons.IH show ?case by simp
  qed simp
  with init_stream show ?thesis by blast
qed

text \<open>
  A recycled chunk keeps its \<open>is_temp\<close> mark: after an upload's temporary file was dropped, a
  served file put into the recycled chunk is deleted when it has been sent.
\<close>

lemma stale_temp_mark:
  "(do { (_, cq) \<leftarrow> chunkqueue_get_append_tempfile (\<lambda>_ _. (5, ''/tmp/u'')) chunkqueue_init;
         (gone, cq) \<leftarrow> chunkqueue_remove_finished_chunks cq;
         (_, cq) \<leftarrow> chunkqueue_append_file cq (terminated ''/www/a'') 0 9;
         (gone', cq) \<leftarrow> chunkqueue_reset cq;
         Some (gone, gone') }) = Some ([''/tmp/u''], [''/www/a''])"
  by (simp add: chunkqueue_get_append_tempfile_def chunkqueue_init_def add_last_def
      chunkqueue_get_unused_chunk_def get_chunk_def set_chunk_def chunk_init_def chunkqueue_append_chunk_def
      chunkqueue_remove_finished_chunks_def remove_loop.simps is_finished_def chunk_reset_def drop_first_def
      recycle_def chunkqueue_append_file_def chunkqueue_reset_def mark_written_def copy_bytes_def terminated_def
      cstr_def Let_def numeral_2_eq_2)

end
