(* ===== verification/FdEvent.thy ===== *)
theory FdEvent
  imports Prelude
begin

text \<open>
  Waiting for events on file descriptors: \<open>fdevent.c\<close> with the backends \<open>fdevent_poll.c\<close> and
  \<open>fdevent_select.c\<close>.  The function pointers that a backend sets at its start are a dispatch on
  the type; the other backends are left out.  What \<open>poll\<close> and \<open>select\<close> report is a parameter.
\<close>

section \<open>The structures\<close>

datatype fdevent_handler_t =
    FDEVENT_HANDLER_UNSET | FDEVENT_HANDLER_SELECT | FDEVENT_HANDLER_POLL | FDEVENT_HANDLER_LINUX_RTSIG
  | FDEVENT_HANDLER_LINUX_SYSEPOLL | FDEVENT_HANDLER_SOLARIS_DEVPOLL | FDEVENT_HANDLER_FREEBSD_KQUEUE
  | FDEVENT_HANDLER_SOLARIS_PORT

text \<open>The functions that are registered as handlers; a context is an address.\<close>

datatype fdevent_handler = Connection_Fdevent | Server_Fdevent | Plugin_Fdevent nat

record fdnode =
  node_handler :: fdevent_handler
  node_ctx :: nat
  node_fd :: int

text \<open>\<open>revents\<close> is not written before the first \<open>poll\<close> after the entry was added.\<close>

record pollfd =
  pfd_fd :: int
  pfd_events :: int
  pfd_revents :: "int option"

record fdevents =
  ev_type :: fdevent_handler_t
  fdarray :: "fdnode option list"
  maxfds :: nat
  pollfds :: "pollfd option list"
  ev_size :: nat
  ev_used :: nat
  unused_ptr :: "nat option list"
  unused_size :: nat
  unused_used :: nat
  select_read :: "int set"
  select_write :: "int set"
  select_error :: "int set"
  select_set_read :: "int set"
  select_set_write :: "int set"
  select_set_error :: "int set"
  select_max_fd :: int

definition FDEVENT_IN :: int where "FDEVENT_IN = 1"
definition FDEVENT_PRI :: int where "FDEVENT_PRI = 2"
definition FDEVENT_OUT :: int where "FDEVENT_OUT = 4"
definition FDEVENT_ERR :: int where "FDEVENT_ERR = 8"
definition FDEVENT_HUP :: int where "FDEVENT_HUP = 16"
definition FDEVENT_NVAL :: int where "FDEVENT_NVAL = 32"
definition FD_SETSIZE :: int where "FD_SETSIZE = 1024"

lemmas fdevent_bits = FDEVENT_IN_def FDEVENT_PRI_def FDEVENT_OUT_def FDEVENT_ERR_def FDEVENT_HUP_def FDEVENT_NVAL_def

text \<open>\<open>events & bits\<close> as a condition.\<close>

definition has_events :: "int \<Rightarrow> int \<Rightarrow> bool" where
  "has_events events bits \<longleftrightarrow> events AND bits \<noteq> 0"

section \<open>The backend poll\<close>

text \<open>Room for one more free index, and for one more entry; new cells are unwritten.\<close>

definition unused_room :: "fdevents \<Rightarrow> fdevents" where
  "unused_room ev =
     (if unused_size ev = 0 then ev\<lparr>unused_size := 16, unused_ptr := replicate 16 None\<rparr>
      else if unused_size ev = unused_used ev then
        ev\<lparr>unused_size := unused_size ev + 16, unused_ptr := unused_ptr ev @ replicate 16 None\<rparr>
      else ev)"

definition pollfds_room :: "fdevents \<Rightarrow> fdevents" where
  "pollfds_room ev =
     (if ev_size ev = 0 then ev\<lparr>ev_size := 16, pollfds := replicate 16 None\<rparr>
      else if ev_size ev = ev_used ev then ev\<lparr>ev_size := ev_size ev + 16, pollfds := pollfds ev @ replicate 16 None\<rparr>
      else ev)"

definition fdevent_poll_event_del :: "fdevents \<Rightarrow> int \<Rightarrow> int \<Rightarrow> (int \<times> fdevents) option" where
  "fdevent_poll_event_del ev fde_ndx fd =
     (if fde_ndx < 0 then Some (-1, ev)
      else do {
        let k = nat fde_ndx;
        guard (k < ev_used ev \<and> ev_used ev \<le> length (pollfds ev));
        p \<leftarrow> pollfds ev ! k;
        guard (pfd_fd p = fd);
        let ev = unused_room (ev\<lparr>pollfds := (pollfds ev)[k := Some (p\<lparr>pfd_fd := -1\<rparr>)]\<rparr>);
        guard (unused_used ev < length (unused_ptr ev));
        Some (-1, ev\<lparr>unused_ptr := (unused_ptr ev)[unused_used ev := Some k], unused_used := unused_used ev + 1\<rparr>) })"

definition fdevent_poll_event_add :: "fdevents \<Rightarrow> int \<Rightarrow> int \<Rightarrow> int \<Rightarrow> (int \<times> fdevents) option" where
  "fdevent_poll_event_add ev fde_ndx fd events =
     (if fde_ndx \<noteq> -1 then do {
        guard (0 \<le> fde_ndx \<and> nat fde_ndx < length (pollfds ev));
        p \<leftarrow> pollfds ev ! nat fde_ndx;
        guard (pfd_fd p = fd);
        Some (fde_ndx, ev\<lparr>pollfds := (pollfds ev)[nat fde_ndx := Some (p\<lparr>pfd_events := events\<rparr>)]\<rparr>) }
      else if unused_used ev > 0 then do {
        let ev = ev\<lparr>unused_used := unused_used ev - 1\<rparr>;
        guard (unused_used ev < length (unused_ptr ev));
        k \<leftarrow> unused_ptr ev ! unused_used ev;
        guard (k < length (pollfds ev));
        p \<leftarrow> pollfds ev ! k;
        Some (int k, ev\<lparr>pollfds := (pollfds ev)[k := Some (p\<lparr>pfd_fd := fd, pfd_events := events\<rparr>)]\<rparr>) }
      else do {
        let ev = pollfds_room ev;
        guard (ev_used ev < length (pollfds ev));
        Some (int (ev_used ev), ev\<lparr>
          pollfds := (pollfds ev)[ev_used ev := Some \<lparr>pfd_fd = fd, pfd_events = events, pfd_revents = None\<rparr>],
          ev_used := ev_used ev + 1\<rparr>) })"

text \<open>
  \<open>poll\<close> reports for each descriptor some events (\<open>None\<close>: the call fails); entries with a negative
  descriptor get none.
\<close>

definition fdevent_poll_poll :: "fdevents \<Rightarrow> (int \<Rightarrow> int \<Rightarrow> int) option \<Rightarrow> (int \<times> fdevents) option" where
  "fdevent_poll_poll ev answer = do {
     guard (ev_used ev \<le> length (pollfds ev) \<and> None \<notin> set (take (ev_used ev) (pollfds ev)));
     case answer of
       None \<Rightarrow> Some (-1, ev)
     | Some f \<Rightarrow>
         let revents = (\<lambda>p. if pfd_fd p < 0 then 0 else f (pfd_fd p) (pfd_events p));
             ps = map (map_option (\<lambda>p. p\<lparr>pfd_revents := Some (revents p)\<rparr>)) (take (ev_used ev) (pollfds ev))
         in Some (int (length (filter (\<lambda>p. p \<noteq> None \<and> revents (the p) \<noteq> 0) ps)),
              ev\<lparr>pollfds := ps @ drop (ev_used ev) (pollfds ev)\<rparr>) }"

definition pollfd_at :: "fdevents \<Rightarrow> nat \<Rightarrow> pollfd option" where
  "pollfd_at ev i = (if i < length (pollfds ev) then pollfds ev ! i else None)"

definition fdevent_poll_event_get_revent :: "fdevents \<Rightarrow> nat \<Rightarrow> int option" where
  "fdevent_poll_event_get_revent ev ndx = do {
     guard (ndx < ev_used ev);
     p \<leftarrow> pollfd_at ev ndx;
     revents \<leftarrow> pfd_revents p;
     guard (\<not> has_events revents FDEVENT_NVAL);
     Some revents }"

definition fdevent_poll_event_get_fd :: "fdevents \<Rightarrow> nat \<Rightarrow> int option" where
  "fdevent_poll_event_get_fd ev ndx = map_option pfd_fd (pollfd_at ev ndx)"

fun scan_revents :: "pollfd option list \<Rightarrow> nat \<Rightarrow> nat option" where
  "scan_revents [] i = Some i"
| "scan_revents (c # cs) i = do {
     p \<leftarrow> c;
     revents \<leftarrow> pfd_revents p;
     if revents \<noteq> 0 then Some i else scan_revents cs (i + 1) }"

definition fdevent_poll_event_next_fdndx :: "fdevents \<Rightarrow> int \<Rightarrow> int option" where
  "fdevent_poll_event_next_fdndx ev ndx =
     (let i = (if ndx < 0 then 0 else nat ndx + 1)
      in map_option int (scan_revents (drop i (take (ev_used ev) (pollfds ev))) i))"

section \<open>The backend select\<close>

text \<open>A descriptor outside an \<open>fd_set\<close> is undefined behaviour of the macros.\<close>

definition settable :: "int \<Rightarrow> bool" where
  "settable fd \<longleftrightarrow> 0 \<le> fd \<and> fd < FD_SETSIZE"

definition fdevent_select_reset :: "fdevents \<Rightarrow> fdevents" where
  "fdevent_select_reset ev = ev\<lparr>select_set_read := {}, select_set_write := {}, select_set_error := {}, select_max_fd := -1\<rparr>"

definition fdevent_select_event_del :: "fdevents \<Rightarrow> int \<Rightarrow> int \<Rightarrow> (int \<times> fdevents) option" where
  "fdevent_select_event_del ev fde_ndx fd =
     (if fde_ndx < 0 then Some (-1, ev)
      else do {
        guard (settable fd);
        Some (-1, ev\<lparr>select_set_read := select_set_read ev - {fd}, select_set_write := select_set_write ev - {fd},
          select_set_error := select_set_error ev - {fd}\<rparr>) })"

definition fdevent_select_event_add :: "fdevents \<Rightarrow> int \<Rightarrow> int \<Rightarrow> int \<Rightarrow> (int \<times> fdevents) option" where
  "fdevent_select_event_add ev fde_ndx fd events = do {
     guard (settable fd);
     let ev = (if has_events events FDEVENT_IN then
       ev\<lparr>select_set_read := insert fd (select_set_read ev), select_set_write := select_set_write ev - {fd}\<rparr> else ev);
     let ev = (if has_events events FDEVENT_OUT then
       ev\<lparr>select_set_read := select_set_read ev - {fd}, select_set_write := insert fd (select_set_write ev)\<rparr> else ev);
     let ev = ev\<lparr>select_set_error := insert fd (select_set_error ev)\<rparr>;
     Some (fd, if fd > select_max_fd ev then ev\<lparr>select_max_fd := fd\<rparr> else ev) }"

text \<open>\<open>select\<close> leaves in each set the descriptors that are ready, or fails.\<close>

definition fdevent_select_poll :: "fdevents \<Rightarrow> (int set \<times> int set \<times> int set) option \<Rightarrow> int \<times> fdevents" where
  "fdevent_select_poll ev answer =
     (let ev = ev\<lparr>select_read := select_set_read ev, select_write := select_set_write ev, select_error := select_set_error ev\<rparr> in
      case answer of
        None \<Rightarrow> (-1, ev)
      | Some (rs, ws, es) \<Rightarrow>
          let ev = ev\<lparr>select_read := select_read ev \<inter> rs, select_write := select_write ev \<inter> ws, select_error := select_error ev \<inter> es\<rparr>
          in (int (card (select_read ev) + card (select_write ev) + card (select_error ev)), ev))"

definition fdevent_select_event_get_revent :: "fdevents \<Rightarrow> nat \<Rightarrow> int option" where
  "fdevent_select_event_get_revent ev ndx = do {
     guard (settable (int ndx));
     Some ((if int ndx \<in> select_read ev then FDEVENT_IN else 0) OR (if int ndx \<in> select_write ev then FDEVENT_OUT else 0) OR
       (if int ndx \<in> select_error ev then FDEVENT_ERR else 0)) }"

definition fdevent_select_event_get_fd :: "fdevents \<Rightarrow> nat \<Rightarrow> int option" where
  "fdevent_select_event_get_fd ev ndx = Some (int ndx)"

text \<open>The descriptors \<open>i\<close>, \<open>i + 1\<close>, and so on: \<open>n\<close> of them are below the limit.\<close>

fun scan_sets :: "fdevents \<Rightarrow> nat \<Rightarrow> int \<Rightarrow> int option" where
  "scan_sets ev 0 i = Some i"
| "scan_sets ev (Suc n) i = do {
     guard (settable i);
     if i \<in> select_read ev \<or> i \<in> select_write ev \<or> i \<in> select_error ev then Some i else scan_sets ev n (i + 1) }"

definition fdevent_select_event_next_fdndx :: "fdevents \<Rightarrow> int \<Rightarrow> int option" where
  "fdevent_select_event_next_fdndx ev ndx =
     (let i = (if ndx < 0 then 0 else ndx + 1) in scan_sets ev (nat (select_max_fd ev + 1 - i)) i)"

section \<open>The code of fdevent.c\<close>

text \<open>The memory is cleared; \<open>None\<close> stands for the null pointer of a backend that is not supported.\<close>

definition fdevent_init :: "nat \<Rightarrow> fdevent_handler_t \<Rightarrow> fdevents option" where
  "fdevent_init n type =
     (let ev = \<lparr>ev_type = FDEVENT_HANDLER_UNSET, fdarray = replicate n None, maxfds = n, pollfds = [], ev_size = 0,
        ev_used = 0, unused_ptr = [], unused_size = 0, unused_used = 0, select_read = {}, select_write = {}, select_error = {},
        select_set_read = {}, select_set_write = {}, select_set_error = {}, select_max_fd = 0\<rparr>
      in if type = FDEVENT_HANDLER_POLL \<or> type = FDEVENT_HANDLER_SELECT then Some (ev\<lparr>ev_type := type\<rparr>) else None)"

definition fdevent_reset :: "fdevents \<Rightarrow> fdevents" where
  "fdevent_reset ev = (if ev_type ev = FDEVENT_HANDLER_SELECT then fdevent_select_reset ev else ev)"

definition fdevent_register :: "fdevents \<Rightarrow> int \<Rightarrow> fdevent_handler \<Rightarrow> nat \<Rightarrow> fdevents option" where
  "fdevent_register ev fd handler ctx = do {
     guard (0 \<le> fd \<and> nat fd < length (fdarray ev));
     Some (ev\<lparr>fdarray := (fdarray ev)[nat fd := Some \<lparr>node_handler = handler, node_ctx = ctx, node_fd = fd\<rparr>]\<rparr>) }"

definition fdevent_unregister :: "fdevents \<Rightarrow> int \<Rightarrow> fdevents option" where
  "fdevent_unregister ev fd = do {
     guard (0 \<le> fd \<and> nat fd < length (fdarray ev));
     Some (ev\<lparr>fdarray := (fdarray ev)[nat fd := None]\<rparr>) }"

definition fdnode_at :: "fdevents \<Rightarrow> int \<Rightarrow> fdnode option" where
  "fdnode_at ev fd = do {
     guard (0 \<le> fd \<and> nat fd < length (fdarray ev));
     n \<leftarrow> fdarray ev ! nat fd;
     guard (node_fd n = fd);
     Some n }"

definition fdevent_get_handler :: "fdevents \<Rightarrow> int \<Rightarrow> fdevent_handler option" where
  "fdevent_get_handler ev fd = map_option node_handler (fdnode_at ev fd)"

definition fdevent_get_context :: "fdevents \<Rightarrow> int \<Rightarrow> nat option" where
  "fdevent_get_context ev fd = map_option node_ctx (fdnode_at ev fd)"

text \<open>The index kept by the caller is given and returned.\<close>

definition fdevent_event_del :: "fdevents \<Rightarrow> int \<Rightarrow> int \<Rightarrow> (int \<times> fdevents) option" where
  "fdevent_event_del ev fde_ndx fd =
     (if ev_type ev = FDEVENT_HANDLER_POLL then fdevent_poll_event_del ev fde_ndx fd
      else if ev_type ev = FDEVENT_HANDLER_SELECT then fdevent_select_event_del ev fde_ndx fd
      else None)"

definition fdevent_event_add :: "fdevents \<Rightarrow> int \<Rightarrow> int \<Rightarrow> int \<Rightarrow> (int \<times> fdevents) option" where
  "fdevent_event_add ev fde_ndx fd events =
     (if ev_type ev = FDEVENT_HANDLER_POLL then fdevent_poll_event_add ev fde_ndx fd events
      else if ev_type ev = FDEVENT_HANDLER_SELECT then fdevent_select_event_add ev fde_ndx fd events
      else None)"

definition fdevent_event_get_revent :: "fdevents \<Rightarrow> nat \<Rightarrow> int option" where
  "fdevent_event_get_revent ev ndx =
     (if ev_type ev = FDEVENT_HANDLER_POLL then fdevent_poll_event_get_revent ev ndx
      else if ev_type ev = FDEVENT_HANDLER_SELECT then fdevent_select_event_get_revent ev ndx
      else None)"

definition fdevent_event_get_fd :: "fdevents \<Rightarrow> nat \<Rightarrow> int option" where
  "fdevent_event_get_fd ev ndx =
     (if ev_type ev = FDEVENT_HANDLER_POLL then fdevent_poll_event_get_fd ev ndx
      else if ev_type ev = FDEVENT_HANDLER_SELECT then fdevent_select_event_get_fd ev ndx
      else None)"

definition fdevent_event_next_fdndx :: "fdevents \<Rightarrow> int \<Rightarrow> int option" where
  "fdevent_event_next_fdndx ev ndx =
     (if ev_type ev = FDEVENT_HANDLER_POLL then fdevent_poll_event_next_fdndx ev ndx
      else if ev_type ev = FDEVENT_HANDLER_SELECT then fdevent_select_event_next_fdndx ev ndx
      else None)"

section \<open>What is watched\<close>

text \<open>
  The interface the rest of the server relies on: the caller keeps for each descriptor the index the
  backend gave it (\<open>-1\<close> for none), and the backend watches for each descriptor the events of the
  last \<open>event_add\<close>, until \<open>event_del\<close>.
\<close>

datatype watch_op = Watch int int | Unwatch int

primrec last_wanted :: "(int \<Rightarrow> int option) \<Rightarrow> watch_op list \<Rightarrow> int \<Rightarrow> int option" where
  "last_wanted W [] = W"
| "last_wanted W (op # ops) = last_wanted (case op of Watch fd events \<Rightarrow> W(fd \<mapsto> events) | Unwatch fd \<Rightarrow> W(fd := None)) ops"

definition watch_op_ok :: "watch_op \<Rightarrow> bool" where
  "watch_op_ok op = (case op of
       Watch fd events \<Rightarrow> settable fd \<and> (events = FDEVENT_IN \<or> events = FDEVENT_OUT)
     | Unwatch fd \<Rightarrow> settable fd)"

primrec run_watch :: "(fdevents \<Rightarrow> int \<Rightarrow> int \<Rightarrow> int \<Rightarrow> (int \<times> fdevents) option) \<Rightarrow>
    (fdevents \<Rightarrow> int \<Rightarrow> int \<Rightarrow> (int \<times> fdevents) option) \<Rightarrow>
    watch_op list \<Rightarrow> fdevents \<Rightarrow> (int \<Rightarrow> int) \<Rightarrow> (fdevents \<times> (int \<Rightarrow> int)) option" where
  "run_watch add del [] ev ndx = Some (ev, ndx)"
| "run_watch add del (op # ops) ev ndx = (case op of
       Watch fd events \<Rightarrow> do { (i, ev) \<leftarrow> add ev (ndx fd) fd events; run_watch add del ops ev (ndx(fd := i)) }
     | Unwatch fd \<Rightarrow> do { (i, ev) \<leftarrow> del ev (ndx fd) fd; run_watch add del ops ev (ndx(fd := i)) })"

locale event_backend =
  fixes add :: "fdevents \<Rightarrow> int \<Rightarrow> int \<Rightarrow> int \<Rightarrow> (int \<times> fdevents) option"
    and del :: "fdevents \<Rightarrow> int \<Rightarrow> int \<Rightarrow> (int \<times> fdevents) option"
    and rep :: "fdevents \<Rightarrow> (int \<Rightarrow> int) \<Rightarrow> (int \<Rightarrow> int option) \<Rightarrow> bool"
  assumes add: "rep ev ndx W \<Longrightarrow> settable fd \<Longrightarrow> events = FDEVENT_IN \<or> events = FDEVENT_OUT \<Longrightarrow>
      valid (add ev (ndx fd) fd events) (\<lambda>(i, ev'). 0 \<le> i \<and> rep ev' (ndx(fd := i)) (W(fd \<mapsto> events)))"
    and del: "rep ev ndx W \<Longrightarrow> settable fd \<Longrightarrow>
      valid (del ev (ndx fd) fd) (\<lambda>(i, ev'). i = -1 \<and> rep ev' (ndx(fd := i)) (W(fd := None)))"
begin

lemma run_ok:
  assumes "rep ev ndx W" and "list_all watch_op_ok ops"
  shows "valid (run_watch add del ops ev ndx) (\<lambda>(ev', ndx'). rep ev' ndx' (last_wanted W ops))"
  using assms
proof (induction ops arbitrary: ev ndx W)
  case (Cons op ops)
  show ?case
  proof (cases op)
    case (Watch fd events)
    with Cons.prems obtain i ev' where "add ev (ndx fd) fd events = Some (i, ev')" "rep ev' (ndx(fd := i)) (W(fd \<mapsto> events))"
      using add[of ev ndx W fd events] by (auto simp: valid_def watch_op_ok_def)
    with Cons.IH Cons.prems(2) Watch show ?thesis by simp
  next
    case (Unwatch fd)
    with Cons.prems obtain i ev' where "del ev (ndx fd) fd = Some (i, ev')" "rep ev' (ndx(fd := i)) (W(fd := None))"
      using del[of ev ndx W fd] by (auto simp: valid_def watch_op_ok_def)
    with Cons.IH Cons.prems(2) Unwatch show ?thesis by simp
  qed
qed simp

end

text \<open>Poll: the used entries, the list of free ones, and their link to the indices.\<close>

definition poll_cells :: "fdevents \<Rightarrow> pollfd list \<Rightarrow> nat list \<Rightarrow> bool" where
  "poll_cells ev ps us \<longleftrightarrow> length (pollfds ev) = ev_size ev \<and> ev_used ev = length ps \<and> length ps \<le> ev_size ev \<and>
     take (length ps) (pollfds ev) = map Some ps \<and>
     length (unused_ptr ev) = unused_size ev \<and> unused_used ev = length us \<and> length us \<le> unused_size ev \<and>
     take (length us) (unused_ptr ev) = map Some us"

definition poll_link :: "pollfd list \<Rightarrow> nat list \<Rightarrow> (int \<Rightarrow> int) \<Rightarrow> (int \<Rightarrow> int option) \<Rightarrow> bool" where
  "poll_link ps us ndx W \<longleftrightarrow> distinct us \<and> set us = {i. i < length ps \<and> pfd_fd (ps ! i) < 0} \<and>
     (\<forall>i < length ps. 0 \<le> pfd_fd (ps ! i) \<longrightarrow> ndx (pfd_fd (ps ! i)) = int i) \<and>
     (\<forall>fd. case W fd of None \<Rightarrow> ndx fd = -1
        | Some e \<Rightarrow> 0 \<le> fd \<and> (\<exists>i < length ps. ndx fd = int i \<and> pfd_fd (ps ! i) = fd \<and> pfd_events (ps ! i) = e))"

definition poll_rep :: "fdevents \<Rightarrow> (int \<Rightarrow> int) \<Rightarrow> (int \<Rightarrow> int option) \<Rightarrow> bool" where
  "poll_rep ev ndx W \<longleftrightarrow> (\<exists>ps us. poll_cells ev ps us \<and> poll_link ps us ndx W)"

lemma link_None: "poll_link ps us ndx W \<Longrightarrow> W fd = None \<longleftrightarrow> ndx fd = -1"
  by (force simp: poll_link_def split: option.splits)

lemma link_Some:
  assumes "poll_link ps us ndx W" and "W fd = Some e"
  obtains i where "i < length ps" "ndx fd = int i" "pfd_fd (ps ! i) = fd" "pfd_events (ps ! i) = e" "0 \<le> fd"
proof -
  have "case W fd of None \<Rightarrow> ndx fd = -1
        | Some e \<Rightarrow> 0 \<le> fd \<and> (\<exists>i < length ps. ndx fd = int i \<and> pfd_fd (ps ! i) = fd \<and> pfd_events (ps ! i) = e)"
    using assms(1) unfolding poll_link_def by blast
  with assms(2) that show thesis by auto
qed

lemma poll_linkI:
  assumes "distinct us" and "set us = {i. i < length ps \<and> pfd_fd (ps ! i) < 0}"
    and "\<And>i. i < length ps \<Longrightarrow> 0 \<le> pfd_fd (ps ! i) \<Longrightarrow> ndx (pfd_fd (ps ! i)) = int i"
    and "\<And>fd. W fd = None \<Longrightarrow> ndx fd = -1"
    and "\<And>fd e. W fd = Some e \<Longrightarrow> 0 \<le> fd \<and> (\<exists>i < length ps. ndx fd = int i \<and> pfd_fd (ps ! i) = fd \<and> pfd_events (ps ! i) = e)"
  shows "poll_link ps us ndx W"
  using assms by (auto simp: poll_link_def split: option.split)

text \<open>A used entry knows its index.\<close>

lemma link_used: "poll_link ps us ndx W \<Longrightarrow> i < length ps \<Longrightarrow> 0 \<le> pfd_fd (ps ! i) \<Longrightarrow> ndx (pfd_fd (ps ! i)) = int i"
  by (simp add: poll_link_def)

lemma link_del:
  assumes "poll_link ps us ndx W" and "k < length ps" and "pfd_fd (ps ! k) = fd" and "0 \<le> fd"
  shows "poll_link (ps[k := (ps ! k)\<lparr>pfd_fd := -1\<rparr>]) (us @ [k]) (ndx(fd := -1)) (W(fd := None))"
proof (rule poll_linkI)
  have us: "distinct us" "set us = {i. i < length ps \<and> pfd_fd (ps ! i) < 0}" using assms(1) by (auto simp: poll_link_def)
  then have "k \<notin> set us" using assms(3,4) by auto
  then show "distinct (us @ [k])" using us(1) by simp
  show "set (us @ [k]) = {i. i < length (ps[k := (ps ! k)\<lparr>pfd_fd := -1\<rparr>]) \<and> pfd_fd (ps[k := (ps ! k)\<lparr>pfd_fd := -1\<rparr>] ! i) < 0}"
    using us(2) assms(2) by (auto simp: nth_list_update)
next
  fix i assume i: "i < length (ps[k := (ps ! k)\<lparr>pfd_fd := -1\<rparr>])" "0 \<le> pfd_fd (ps[k := (ps ! k)\<lparr>pfd_fd := -1\<rparr>] ! i)"
  then have "i \<noteq> k" using assms(2) by auto
  moreover from this i have u: "ndx (pfd_fd (ps ! i)) = int i" using link_used[OF assms(1)] by simp
  moreover have "ndx fd = int k" using link_used[OF assms(1,2)] assms(3,4) by simp
  ultimately show "(ndx(fd := -1)) (pfd_fd (ps[k := (ps ! k)\<lparr>pfd_fd := -1\<rparr>] ! i)) = int i" using i by auto
next
  fix d assume "(W(fd := None)) d = None"
  then show "(ndx(fd := -1)) d = -1" using link_None[OF assms(1)] by (auto split: if_splits)
next
  fix d e assume "(W(fd := None)) d = Some e"
  then have d: "d \<noteq> fd" "W d = Some e" by (auto split: if_splits)
  obtain i where "i < length ps" "ndx d = int i" "pfd_fd (ps ! i) = d" "pfd_events (ps ! i) = e" "0 \<le> d"
    by (rule link_Some[OF assms(1) d(2)])
  moreover from this d(1) assms(3) have "i \<noteq> k" by auto
  ultimately show "0 \<le> d \<and> (\<exists>i < length (ps[k := (ps ! k)\<lparr>pfd_fd := -1\<rparr>]). (ndx(fd := -1)) d = int i \<and>
      pfd_fd (ps[k := (ps ! k)\<lparr>pfd_fd := -1\<rparr>] ! i) = d \<and> pfd_events (ps[k := (ps ! k)\<lparr>pfd_fd := -1\<rparr>] ! i) = e)"
    using d(1) by (intro conjI exI[of _ i]) simp_all
qed

text \<open>Entry \<open>k\<close>, which is the one of \<open>fd\<close>, or free, or new, gets the events of \<open>fd\<close>.\<close>

lemma link_put:
  assumes "poll_link ps us ndx W" and "0 \<le> fd" and "k < length qs" and "pfd_fd (qs ! k) = fd" and "pfd_events (qs ! k) = e"
    and other: "\<And>i. i < length qs \<Longrightarrow> i \<noteq> k \<Longrightarrow> i < length ps \<and> qs ! i = ps ! i" and "length ps \<le> length qs"
    and "distinct us'" and "set us' = set us - {k}"
    and mine: "k < length ps \<Longrightarrow> pfd_fd (ps ! k) = fd \<or> pfd_fd (ps ! k) < 0"
    and only: "\<And>i. i < length ps \<Longrightarrow> pfd_fd (ps ! i) = fd \<Longrightarrow> i = k"
  shows "poll_link qs us' (ndx(fd := int k)) (W(fd \<mapsto> e))"
proof (rule poll_linkI)
  show "distinct us'" by (rule assms(8))
  have us: "set us = {i. i < length ps \<and> pfd_fd (ps ! i) < 0}" using assms(1) by (simp add: poll_link_def)
  show "set us' = {i. i < length qs \<and> pfd_fd (qs ! i) < 0}"
  proof (rule set_eqI)
    fix i show "i \<in> set us' \<longleftrightarrow> i \<in> {i. i < length qs \<and> pfd_fd (qs ! i) < 0}"
    proof (cases "i = k")
      case True
      with assms(2,4,9) show ?thesis by simp
    next
      case False
      have "i < length qs \<Longrightarrow> i < length ps \<and> qs ! i = ps ! i" by (rule other[OF _ False])
      moreover have "i < length ps \<Longrightarrow> i < length qs" using assms(7) by simp
      ultimately have "i < length qs \<and> pfd_fd (qs ! i) < 0 \<longleftrightarrow> i < length ps \<and> pfd_fd (ps ! i) < 0" by metis
      with False us assms(9) show ?thesis by simp
    qed
  qed
next
  fix i assume i: "i < length qs" "0 \<le> pfd_fd (qs ! i)"
  show "(ndx(fd := int k)) (pfd_fd (qs ! i)) = int i"
  proof (cases "i = k")
    case True
    then show ?thesis using assms(4) by simp
  next
    case False
    then have q: "i < length ps" "qs ! i = ps ! i" using other[OF i(1)] by auto
    then have "pfd_fd (qs ! i) \<noteq> fd" using only False by metis
    then show ?thesis using link_used[OF assms(1) q(1)] i(2) q(2) by simp
  qed
next
  fix d assume "(W(fd \<mapsto> e)) d = None"
  then show "(ndx(fd := int k)) d = -1" using link_None[OF assms(1)] by (auto split: if_splits)
next
  fix d a assume d: "(W(fd \<mapsto> e)) d = Some a"
  show "0 \<le> d \<and> (\<exists>i < length qs. (ndx(fd := int k)) d = int i \<and> pfd_fd (qs ! i) = d \<and> pfd_events (qs ! i) = a)"
  proof (cases "d = fd")
    case True
    with d assms(2-5) show ?thesis by auto
  next
    case False
    with d have "W d = Some a" by simp
    then obtain i where i: "i < length ps" "ndx d = int i" "pfd_fd (ps ! i) = d" "pfd_events (ps ! i) = a" "0 \<le> d"
      by (rule link_Some[OF assms(1)])
    moreover from i False mine have "i \<noteq> k" by auto
    moreover from this i(1) assms(7) other[of i] have "qs ! i = ps ! i" by simp
    ultimately show ?thesis using False assms(7) by (intro conjI exI[of _ i]) simp_all
  qed
qed

lemma poll_cell: "poll_cells ev ps us \<Longrightarrow> k < length ps \<Longrightarrow> k < length (pollfds ev) \<and> pollfds ev ! k = Some (ps ! k)"
  using nth_take[of k "length ps" "pollfds ev"] by (auto simp: poll_cells_def)

lemma poll_cells_update:
  assumes "poll_cells ev ps us" and "k < length ps"
  shows "poll_cells (ev\<lparr>pollfds := (pollfds ev)[k := Some p]\<rparr>) (ps[k := p]) us"
  using assms by (simp add: poll_cells_def take_update_swap map_update)

lemma poll_add_ok:
  assumes "poll_rep ev ndx W" and "0 \<le> fd"
  shows "valid (fdevent_poll_event_add ev (ndx fd) fd events) (\<lambda>(i, ev'). 0 \<le> i \<and> poll_rep ev' (ndx(fd := i)) (W(fd \<mapsto> events)))"
proof -
  obtain ps us where c: "poll_cells ev ps us" and l: "poll_link ps us ndx W" using assms(1) by (auto simp: poll_rep_def)
  have us: "distinct us" "set us = {i. i < length ps \<and> pfd_fd (ps ! i) < 0}" using l by (auto simp: poll_link_def)
  show ?thesis
  proof (cases "W fd")
    case (Some e)
    obtain k where k: "k < length ps" "ndx fd = int k" "pfd_fd (ps ! k) = fd" by (rule link_Some[OF l Some])
    let ?p = "(ps ! k)\<lparr>pfd_events := events\<rparr>"
    have "poll_link (ps[k := ?p]) us (ndx(fd := int k)) (W(fd \<mapsto> events))"
    proof (rule link_put[OF l assms(2), where k = k])
      show "set us = set us - {k}" using us(2) k assms(2) by auto
      fix i assume "i < length ps" "pfd_fd (ps ! i) = fd"
      then show "i = k" using link_used[OF l, of i] k(2) assms(2) by simp
    qed (use k us in auto)
    with poll_cells_update[OF c k(1)] have "poll_rep (ev\<lparr>pollfds := (pollfds ev)[k := Some ?p]\<rparr>) (ndx(fd := int k)) (W(fd \<mapsto> events))"
      by (auto simp: poll_rep_def)
    then show ?thesis using k poll_cell[OF c k(1)] by (simp add: fdevent_poll_event_add_def)
  next
    case None
    then have n: "ndx fd = -1" using link_None[OF l] by simp
    then have fresh: "i < length ps \<Longrightarrow> pfd_fd (ps ! i) = fd \<Longrightarrow> False" for i using link_used[OF l, of i] assms(2) by auto
    show ?thesis
    proof (cases us rule: rev_cases)
      case Nil
      let ?p = "\<lparr>pfd_fd = fd, pfd_events = events, pfd_revents = None\<rparr>"
      let ?ev = "pollfds_room ev"
      have e: "poll_cells ?ev ps us" "length ps < length (pollfds ?ev)" "ev_used ?ev = length ps" "unused_used ev = 0"
        using c Nil by (auto simp: poll_cells_def pollfds_room_def)
      let ?ev' = "?ev\<lparr>pollfds := (pollfds ?ev)[length ps := Some ?p], ev_used := length ps + 1\<rparr>"
      have "poll_cells ?ev' (ps @ [?p]) us" using e by (simp add: poll_cells_def take_Suc_conv_app_nth)
      moreover have "poll_link (ps @ [?p]) us (ndx(fd := int (length ps))) (W(fd \<mapsto> events))"
      proof (rule link_put[OF l assms(2), where k = "length ps"])
        show "set us = set us - {length ps}" using us(2) by auto
      qed (use us fresh in \<open>auto simp: nth_append\<close>)
      ultimately have "poll_rep ?ev' (ndx(fd := int (length ps))) (W(fd \<mapsto> events))" by (auto simp: poll_rep_def)
      then show ?thesis using n e(2-4) by (simp add: fdevent_poll_event_add_def Let_def)
    next
      case (snoc vs k)
      then have k: "k < length ps" "pfd_fd (ps ! k) < 0" "k \<notin> set vs" "distinct vs" using us by auto
      let ?p = "(ps ! k)\<lparr>pfd_fd := fd, pfd_events := events\<rparr>"
      let ?ev = "ev\<lparr>unused_used := length vs\<rparr>"
      have "take (length us) (unused_ptr ev) = map Some vs @ [Some k]" "length us \<le> length (unused_ptr ev)"
        using c snoc by (auto simp: poll_cells_def)
      then have u: "length vs < length (unused_ptr ev)" "unused_ptr ev ! length vs = Some k" "take (length vs) (unused_ptr ev) = map Some vs"
        using snoc by (auto simp: take_Suc_conv_app_nth)
      have "poll_cells ?ev ps vs" using c snoc u(3) by (simp add: poll_cells_def)
      from poll_cells_update[OF this k(1), of ?p] have "poll_cells (?ev\<lparr>pollfds := (pollfds ev)[k := Some ?p]\<rparr>) (ps[k := ?p]) vs" by simp
      moreover have "poll_link (ps[k := ?p]) vs (ndx(fd := int k)) (W(fd \<mapsto> events))"
      proof (rule link_put[OF l assms(2), where k = k])
        show "set vs = set us - {k}" using snoc k by auto
      qed (use k fresh in auto)
      ultimately have "poll_rep (?ev\<lparr>pollfds := (pollfds ev)[k := Some ?p]\<rparr>) (ndx(fd := int k)) (W(fd \<mapsto> events))"
        by (auto simp: poll_rep_def)
      moreover have "unused_used ev = length vs + 1" using c snoc by (simp add: poll_cells_def)
      ultimately show ?thesis using n u poll_cell[OF c k(1)] by (simp add: fdevent_poll_event_add_def)
    qed
  qed
qed

lemma poll_del_ok:
  assumes "poll_rep ev ndx W"
  shows "valid (fdevent_poll_event_del ev (ndx fd) fd) (\<lambda>(i, ev'). i = -1 \<and> poll_rep ev' (ndx(fd := i)) (W(fd := None)))"
proof -
  obtain ps us where c: "poll_cells ev ps us" and l: "poll_link ps us ndx W" using assms by (auto simp: poll_rep_def)
  show ?thesis
  proof (cases "W fd")
    case None
    then have "ndx(fd := -1) = ndx" "W(fd := None) = W" "ndx fd = -1" using link_None[OF l, of fd] by auto
    with assms show ?thesis by (simp add: fdevent_poll_event_del_def)
  next
    case (Some e)
    obtain k where k: "k < length ps" "ndx fd = int k" "pfd_fd (ps ! k) = fd" "0 \<le> fd" by (rule link_Some[OF l Some])
    let ?p = "(ps ! k)\<lparr>pfd_fd := -1\<rparr>"
    let ?ev = "ev\<lparr>pollfds := (pollfds ev)[k := Some ?p]\<rparr>"
    let ?r = "unused_room ?ev"
    have "poll_cells ?ev (ps[k := ?p]) us" by (rule poll_cells_update[OF c k(1)])
    then have r: "poll_cells ?r (ps[k := ?p]) us" "length us < length (unused_ptr ?r)" "unused_used ?r = length us"
      by (auto simp: poll_cells_def unused_room_def)
    then have "poll_cells (?r\<lparr>unused_ptr := (unused_ptr ?r)[length us := Some k], unused_used := length us + 1\<rparr>) (ps[k := ?p]) (us @ [k])"
      by (simp add: poll_cells_def take_Suc_conv_app_nth)
    with link_del[OF l k(1,3,4)]
    have "poll_rep (?r\<lparr>unused_ptr := (unused_ptr ?r)[length us := Some k], unused_used := length us + 1\<rparr>) (ndx(fd := -1)) (W(fd := None))"
      unfolding poll_rep_def by blast
    moreover have "k < ev_used ev \<and> ev_used ev \<le> length (pollfds ev)" using c k(1) by (simp add: poll_cells_def)
    ultimately show ?thesis using k poll_cell[OF c k(1)] r(2,3) by (simp add: fdevent_poll_event_del_def Let_def)
  qed
qed

text \<open>Select: the sets.\<close>

definition select_rep :: "fdevents \<Rightarrow> (int \<Rightarrow> int) \<Rightarrow> (int \<Rightarrow> int option) \<Rightarrow> bool" where
  "select_rep ev ndx W \<longleftrightarrow> (\<forall>fd. (W fd = None \<longleftrightarrow> ndx fd = -1) \<and> (W fd \<noteq> None \<longrightarrow> ndx fd = fd \<and> settable fd \<and> fd \<le> select_max_fd ev) \<and>
     (W fd = Some FDEVENT_IN \<longleftrightarrow> fd \<in> select_set_read ev) \<and> (W fd = Some FDEVENT_OUT \<longleftrightarrow> fd \<in> select_set_write ev) \<and>
     (W fd \<noteq> None \<longleftrightarrow> fd \<in> select_set_error ev))"

lemma select_add_ok:
  assumes "select_rep ev ndx W" and "settable fd" and "events = FDEVENT_IN \<or> events = FDEVENT_OUT"
  shows "valid (fdevent_select_event_add ev (ndx fd) fd events) (\<lambda>(i, ev'). 0 \<le> i \<and> select_rep ev' (ndx(fd := i)) (W(fd \<mapsto> events)))"
proof -
  have "has_events FDEVENT_IN FDEVENT_IN" "\<not> has_events FDEVENT_IN FDEVENT_OUT" "\<not> has_events FDEVENT_OUT FDEVENT_IN"
    "has_events FDEVENT_OUT FDEVENT_OUT" "FDEVENT_IN \<noteq> FDEVENT_OUT"
    by (simp_all add: has_events_def FDEVENT_IN_def FDEVENT_OUT_def)
  with assms show ?thesis
    by (elim disjE) (auto simp: fdevent_select_event_add_def select_rep_def settable_def Let_def)
qed

lemma select_del_ok:
  assumes "select_rep ev ndx W" and "settable fd"
  shows "valid (fdevent_select_event_del ev (ndx fd) fd) (\<lambda>(i, ev'). i = -1 \<and> select_rep ev' (ndx(fd := i)) (W(fd := None)))"
proof (cases "W fd")
  case None
  then have "ndx fd = -1" using assms by (auto simp: select_rep_def)
  with None have "ndx(fd := -1) = ndx" "W(fd := None) = W" "ndx fd = -1" by auto
  with assms show ?thesis by (simp add: fdevent_select_event_del_def)
next
  case (Some e)
  then have "ndx fd = fd" using assms by (auto simp: select_rep_def)
  then show ?thesis using assms by (auto simp: fdevent_select_event_del_def select_rep_def settable_def)
qed

text \<open>Both backends provide the interface, and so does the dispatch of \<open>fdevent.c\<close>.\<close>

interpretation poll_backend: event_backend fdevent_poll_event_add fdevent_poll_event_del poll_rep
proof unfold_locales
  fix ev ndx W fd events
  assume "poll_rep ev ndx W" "settable fd" "events = FDEVENT_IN \<or> events = FDEVENT_OUT"
  then show "valid (fdevent_poll_event_add ev (ndx fd) fd events) (\<lambda>(i, ev'). 0 \<le> i \<and> poll_rep ev' (ndx(fd := i)) (W(fd \<mapsto> events)))"
    by (intro poll_add_ok) (simp_all add: settable_def)
qed (rule poll_del_ok)

interpretation select_backend: event_backend fdevent_select_event_add fdevent_select_event_del select_rep
  by unfold_locales (rule select_add_ok select_del_ok; assumption)+

definition ev_rep :: "fdevents \<Rightarrow> (int \<Rightarrow> int) \<Rightarrow> (int \<Rightarrow> int option) \<Rightarrow> bool" where
  "ev_rep ev ndx W \<longleftrightarrow> (ev_type ev = FDEVENT_HANDLER_POLL \<and> poll_rep ev ndx W) \<or>
     (ev_type ev = FDEVENT_HANDLER_SELECT \<and> select_rep ev ndx W)"

lemma backends_keep_type:
  "fdevent_poll_event_add ev i fd events = Some (j, ev') \<Longrightarrow> ev_type ev' = ev_type ev"
  "fdevent_poll_event_del ev i fd = Some (j, ev') \<Longrightarrow> ev_type ev' = ev_type ev"
  "fdevent_select_event_add ev i fd events = Some (j, ev') \<Longrightarrow> ev_type ev' = ev_type ev"
  "fdevent_select_event_del ev i fd = Some (j, ev') \<Longrightarrow> ev_type ev' = ev_type ev"
  by (auto simp: fdevent_poll_event_add_def fdevent_poll_event_del_def fdevent_select_event_add_def fdevent_select_event_del_def
      pollfds_room_def unused_room_def Let_def split: if_splits option.splits bind_splits)

lemma event_add_ok:
  assumes "ev_rep ev ndx W" and "settable fd" and "events = FDEVENT_IN \<or> events = FDEVENT_OUT"
  shows "valid (fdevent_event_add ev (ndx fd) fd events) (\<lambda>(i, ev'). 0 \<le> i \<and> ev_rep ev' (ndx(fd := i)) (W(fd \<mapsto> events)))"
proof (cases "ev_type ev = FDEVENT_HANDLER_POLL")
  case True
  with assms(1) have "poll_rep ev ndx W" by (simp add: ev_rep_def)
  from poll_backend.add[OF this assms(2,3)] obtain i ev' where "fdevent_poll_event_add ev (ndx fd) fd events = Some (i, ev')" "0 \<le> i"
    "poll_rep ev' (ndx(fd := i)) (W(fd \<mapsto> events))" by (auto simp: valid_def)
  with True backends_keep_type(1) show ?thesis by (simp add: ev_rep_def fdevent_event_add_def)
next
  case False
  with assms(1) have t: "ev_type ev = FDEVENT_HANDLER_SELECT" "select_rep ev ndx W" by (auto simp: ev_rep_def)
  from select_backend.add[OF this(2) assms(2,3)] obtain i ev' where "fdevent_select_event_add ev (ndx fd) fd events = Some (i, ev')" "0 \<le> i"
    "select_rep ev' (ndx(fd := i)) (W(fd \<mapsto> events))" by (auto simp: valid_def)
  with t backends_keep_type(3) show ?thesis by (simp add: ev_rep_def fdevent_event_add_def)
qed

lemma event_del_ok:
  assumes "ev_rep ev ndx W" and "settable fd"
  shows "valid (fdevent_event_del ev (ndx fd) fd) (\<lambda>(i, ev'). i = -1 \<and> ev_rep ev' (ndx(fd := i)) (W(fd := None)))"
proof (cases "ev_type ev = FDEVENT_HANDLER_POLL")
  case True
  with assms(1) have "poll_rep ev ndx W" by (simp add: ev_rep_def)
  from poll_backend.del[OF this assms(2)] obtain i ev' where "fdevent_poll_event_del ev (ndx fd) fd = Some (i, ev')" "i = -1"
    "poll_rep ev' (ndx(fd := i)) (W(fd := None))" by (auto simp: valid_def)
  with True backends_keep_type(2) show ?thesis by (simp add: ev_rep_def fdevent_event_del_def)
next
  case False
  with assms(1) have t: "ev_type ev = FDEVENT_HANDLER_SELECT" "select_rep ev ndx W" by (auto simp: ev_rep_def)
  from select_backend.del[OF this(2) assms(2)] obtain i ev' where "fdevent_select_event_del ev (ndx fd) fd = Some (i, ev')" "i = -1"
    "select_rep ev' (ndx(fd := i)) (W(fd := None))" by (auto simp: valid_def)
  with t backends_keep_type(4) show ?thesis by (simp add: ev_rep_def fdevent_event_del_def)
qed

interpretation server_events: event_backend fdevent_event_add fdevent_event_del ev_rep
  by unfold_locales (rule event_add_ok event_del_ok; assumption)+

text \<open>
  What a backend asks the kernel to watch, read off its data.  \<open>select\<close> looks at the descriptors up to the largest
  only, and every descriptor that is watched is also watched for errors.
\<close>

definition watched :: "fdevents \<Rightarrow> int \<Rightarrow> int option" where
  "watched ev fd =
     (if ev_type ev = FDEVENT_HANDLER_POLL then
        map_option pfd_events (List.find (\<lambda>p. pfd_fd p = fd) (map the (take (ev_used ev) (pollfds ev))))
      else if fd > select_max_fd ev \<or> fd \<notin> select_set_error ev then None
      else if fd \<in> select_set_read ev then Some FDEVENT_IN
      else if fd \<in> select_set_write ev then Some FDEVENT_OUT
      else None)"

lemma poll_watched:
  assumes "poll_rep ev ndx W" and "ev_type ev = FDEVENT_HANDLER_POLL" and "0 \<le> fd"
  shows "watched ev fd = W fd"
proof -
  obtain ps us where c: "poll_cells ev ps us" and l: "poll_link ps us ndx W" using assms(1) by (auto simp: poll_rep_def)
  have ps: "map the (take (ev_used ev) (pollfds ev)) = ps" using c by (simp add: poll_cells_def comp_def)
  show ?thesis
  proof (cases "W fd")
    case None
    then have "ndx fd = -1" using link_None[OF l] by simp
    then have "i < length ps \<Longrightarrow> pfd_fd (ps ! i) \<noteq> fd" for i using link_used[OF l, of i] assms(3) by auto
    then have "\<not> (\<exists>p. p \<in> set ps \<and> pfd_fd p = fd)" by (metis in_set_conv_nth)
    then have "List.find (\<lambda>p. pfd_fd p = fd) ps = None" by (simp add: find_None_iff)
    with None assms(2) ps show ?thesis by (simp add: watched_def)
  next
    case (Some e)
    obtain k where k: "k < length ps" "ndx fd = int k" "pfd_fd (ps ! k) = fd" "pfd_events (ps ! k) = e" by (rule link_Some[OF l Some])
    have u: "i < length ps \<Longrightarrow> pfd_fd (ps ! i) = fd \<Longrightarrow> i = k" for i using link_used[OF l, of i] k(2) assms(3) by auto
    have "\<forall>j < k. pfd_fd (ps ! j) \<noteq> fd"
    proof (intro allI impI notI)
      fix j assume j: "j < k" "pfd_fd (ps ! j) = fd"
      with k(1) u[of j] show False by simp
    qed
    then have "List.find (\<lambda>p. pfd_fd p = fd) ps = Some (ps ! k)" using k(1,3) unfolding find_Some_iff by blast
    with Some k(4) assms(2) ps show ?thesis by (simp add: watched_def)
  qed
qed

lemma rep_watched:
  assumes "ev_rep ev ndx W" and "0 \<le> fd" and "\<And>fd events. W fd = Some events \<Longrightarrow> events = FDEVENT_IN \<or> events = FDEVENT_OUT"
  shows "watched ev fd = W fd"
proof (cases "ev_type ev = FDEVENT_HANDLER_POLL")
  case True
  with assms(1,2) show ?thesis by (auto simp: ev_rep_def intro: poll_watched)
next
  case False
  with assms(1) have r: "select_rep ev ndx W" by (simp add: ev_rep_def)
  then have "(W fd = None \<longleftrightarrow> ndx fd = -1) \<and> (W fd = Some FDEVENT_IN \<longleftrightarrow> fd \<in> select_set_read ev) \<and>
    (W fd = Some FDEVENT_OUT \<longleftrightarrow> fd \<in> select_set_write ev) \<and> (W fd \<noteq> None \<longleftrightarrow> fd \<in> select_set_error ev) \<and>
    (W fd \<noteq> None \<longrightarrow> fd \<le> select_max_fd ev)" unfolding select_rep_def by blast
  then show ?thesis using assms(3)[of fd] False by (cases "W fd") (auto simp: watched_def)
qed

lemma fdevent_init_rep: "fdevent_init n t = Some ev \<Longrightarrow> ev_rep ev (\<lambda>_. -1) (\<lambda>_. None)"
  by (auto simp: fdevent_init_def ev_rep_def poll_rep_def poll_cells_def poll_link_def select_rep_def Let_def split: if_splits)

lemma wanted_events:
  assumes "list_all watch_op_ok ops" and "\<And>fd events. W fd = Some events \<Longrightarrow> events = FDEVENT_IN \<or> events = FDEVENT_OUT"
    and "last_wanted W ops fd = Some events"
  shows "events = FDEVENT_IN \<or> events = FDEVENT_OUT"
  using assms
proof (induction ops arbitrary: W)
  case (Cons op ops)
  let ?W = "case op of Watch fd events \<Rightarrow> W(fd \<mapsto> events) | Unwatch fd \<Rightarrow> W(fd := None)"
  have "\<And>d e. ?W d = Some e \<Longrightarrow> e = FDEVENT_IN \<or> e = FDEVENT_OUT"
    using Cons.prems(1,2) by (auto simp: watch_op_ok_def split: watch_op.splits if_splits)
  from Cons.IH[OF _ this] Cons.prems(1,3) show ?case by simp
qed simp

text \<open>C18: From \<open>fdevent_init\<close> on, whatever descriptors are added and deleted, the event backend (poll or select) never leaves its
  arrays and asks the kernel for exactly the events last wanted for each descriptor.\<close>

theorem events_as_wanted:
  assumes "fdevent_init n t = Some ev" and "list_all watch_op_ok ops" and "0 \<le> fd"
  shows "valid (run_watch fdevent_event_add fdevent_event_del ops ev (\<lambda>_. -1)) (\<lambda>(ev', ndx). watched ev' fd = last_wanted (\<lambda>_. None) ops fd)"
  using server_events.run_ok[OF fdevent_init_rep[OF assms(1)] assms(2)] rep_watched[OF _ assms(3)] wanted_events[OF assms(2), of "\<lambda>_. None"]
  by (force elim!: valid_weaken)

theorem events_as_wanted_witness:
  "\<exists>ev. fdevent_init 8 FDEVENT_HANDLER_POLL = Some ev \<and>
     valid (run_watch fdevent_event_add fdevent_event_del [Watch 3 FDEVENT_IN, Watch 5 FDEVENT_OUT, Unwatch 3, Watch 5 FDEVENT_IN] ev (\<lambda>_. -1))
       (\<lambda>(ev', ndx). watched ev' 5 = Some FDEVENT_IN)"
proof -
  obtain ev where ev: "fdevent_init 8 FDEVENT_HANDLER_POLL = Some ev" by (simp add: fdevent_init_def Let_def)
  have "list_all watch_op_ok [Watch 3 FDEVENT_IN, Watch 5 FDEVENT_OUT, Unwatch 3, Watch 5 FDEVENT_IN]"
    by (simp add: watch_op_ok_def settable_def FD_SETSIZE_def)
  from events_as_wanted[OF ev this, of 5] ev show ?thesis by simp
qed

section \<open>Handlers\<close>

lemma fdevent_register_ok:
  assumes "0 \<le> fd" and "nat fd < length (fdarray ev)"
  shows "valid (fdevent_register ev fd h c) (\<lambda>ev'. fdevent_get_handler ev' fd = Some h \<and> fdevent_get_context ev' fd = Some c \<and>
     (\<forall>d. d \<noteq> fd \<longrightarrow> fdnode_at ev' d = fdnode_at ev d) \<and> watched ev' = watched ev)"
  using assms by (auto simp: fdevent_register_def fdevent_get_handler_def fdevent_get_context_def fdnode_at_def fun_eq_iff watched_def
      nth_list_update nat_eq_iff guard_def split: if_splits)

section \<open>Deviations\<close>

text \<open>
  An entry that is added while the events of the last \<open>poll\<close> are handled is looked at with
  \<open>revents\<close> that nothing has written.
\<close>

lemma revents_uninitialised:
  assumes "poll_cells ev ps []" and "list_all (\<lambda>p. pfd_revents p = Some 0) ps" and "ev_type ev = FDEVENT_HANDLER_POLL"
  shows "valid (fdevent_event_add ev (-1) fd events) (\<lambda>(i, ev'). fdevent_event_next_fdndx ev' (-1) = None)"
proof -
  let ?p = "\<lparr>pfd_fd = fd, pfd_events = events, pfd_revents = None\<rparr>"
  let ?e = "pollfds_room ev"
  have e: "poll_cells ?e ps []" "length ps < length (pollfds ?e)" "ev_used ?e = length ps" "unused_used ev = 0" "ev_type ?e = ev_type ev"
    using assms(1) by (auto simp: poll_cells_def pollfds_room_def)
  then have "take (Suc (length ps)) ((pollfds ?e)[length ps := Some ?p]) = map Some (ps @ [?p])"
    by (simp add: poll_cells_def take_Suc_conv_app_nth)
  moreover have "list_all (\<lambda>p. pfd_revents p = Some 0) ps \<Longrightarrow> scan_revents (map Some (ps @ [?p])) n = None" for n
    by (induction ps arbitrary: n) auto
  ultimately show ?thesis using e assms(2,3)
    by (simp add: fdevent_event_add_def fdevent_poll_event_add_def Let_def fdevent_event_next_fdndx_def fdevent_poll_event_next_fdndx_def)
qed

end
