(* ===== verification/Base.thy ===== *)
theory Base
  imports CLib Keyvalue ArrayMap Chunk FdEvent
begin

text \<open>
  The connection of \<open>base.h\<close>: the record on which request parsing, response writing and the
  state machine of a connection work.  A buffer is its used bytes, terminating NUL included
  (\<open>[]\<close> is \<open>used == 0\<close>); the theories on \<open>buffer.c\<close> show that the buffer operations
  implement the list operations used here.  Fields of the plugins are left out.
\<close>

section \<open>Pointers into the header list\<close>

text \<open>
  The \<open>http_*\<close> members of a request point into the values of its header list.  \<open>Slot s n\<close>
  points to offset \<open>n\<close> of the value of the element in slot \<open>s\<close>; \<open>Dangling\<close> is a pointer whose
  block was freed, or may have been moved by an append to that value.
\<close>

datatype hptr = Null | Slot nat nat | Dangling

type_synonym header_array = "unit array"

definition string_value :: "unit data_unset \<Rightarrow> char list option" where
  "string_value du = (case payload du of DString v \<Rightarrow> Some v | DResponse v \<Rightarrow> Some v | _ \<Rightarrow> None)"

definition set_string :: "unit data_unset \<Rightarrow> char list \<Rightarrow> unit data_unset option" where
  "set_string du v = (case payload du of
       DString _ \<Rightarrow> Some (du\<lparr>payload := DString v\<rparr>)
     | DResponse _ \<Rightarrow> Some (du\<lparr>payload := DResponse v\<rparr>)
     | _ \<Rightarrow> None)"

definition element_at :: "header_array \<Rightarrow> nat \<Rightarrow> unit data_unset option" where
  "element_at a s = (if s < length (adata a) then adata a ! s else None)"

text \<open>The buffer, and the C string, a header pointer points to.\<close>

definition deref_buffer :: "header_array \<Rightarrow> hptr \<Rightarrow> char list option" where
  "deref_buffer a p = (case p of Slot s _ \<Rightarrow> element_at a s \<bind> string_value | _ \<Rightarrow> None)"

definition deref_string :: "header_array \<Rightarrow> hptr \<Rightarrow> char list option" where
  "deref_string a p = (case p of
       Slot s n \<Rightarrow> do { du \<leftarrow> element_at a s; v \<leftarrow> string_value du; str_at v n }
     | _ \<Rightarrow> None)"

section \<open>The structures\<close>

datatype connection_state_t =
    CON_STATE_CONNECT | CON_STATE_REQUEST_START | CON_STATE_READ | CON_STATE_REQUEST_END
  | CON_STATE_READ_POST | CON_STATE_HANDLE_REQUEST | CON_STATE_RESPONSE_START | CON_STATE_WRITE
  | CON_STATE_RESPONSE_END | CON_STATE_ERROR | CON_STATE_CLOSE

datatype connection_type = DIRECT | EXTERNAL

record request_t =
  request :: "char list"
  uri :: "char list"
  orig_uri :: "char list"
  http_method :: http_method_t
  http_version :: http_version_t
  request_line :: "char list"
  http_host :: hptr
  http_range :: hptr
  http_content_type :: hptr
  http_if_modified_since :: hptr
  http_if_none_match :: hptr
  headers :: header_array
  content_length :: nat
  pathinfo :: "char list"

text \<open>\<open>transfer_encoding\<close> is the chunked bit.\<close>

record response_t =
  resp_content_length :: int
  resp_keep_alive :: int
  resp_headers :: header_array
  transfer_encoding :: bool

record request_uri_t =
  scheme :: "char list"
  authority :: "char list"
  uri_path :: "char list"
  path_raw :: "char list"
  query :: "char list"

record physical_t =
  phys_path :: "char list"
  basedir :: "char list"
  doc_root :: "char list"
  rel_path :: "char list"
  phys_etag :: "char list"

text \<open>The configuration: what conditions look at, how they compare, and a context with its condition.\<close>

datatype config_cond_t =
    CONFIG_COND_UNSET | CONFIG_COND_EQ | CONFIG_COND_MATCH | CONFIG_COND_NE | CONFIG_COND_NOMATCH

datatype comp_key_t =
    COMP_UNSET | COMP_SERVER_SOCKET | COMP_HTTP_URL | COMP_HTTP_HOST | COMP_HTTP_REFERER | COMP_HTTP_USER_AGENT
  | COMP_HTTP_COOKIE | COMP_HTTP_REMOTE_IP | COMP_HTTP_QUERY_STRING | COMP_HTTP_SCHEME | COMP_HTTP_REQUEST_METHOD
  | COMP_LAST_ELEMENT

datatype cond_result_t = COND_RESULT_UNSET | COND_RESULT_FALSE | COND_RESULT_TRUE

text \<open>Other contexts are given by index; 0 is the global one.  \<open>dc_keys\<close> are the options set in it.\<close>

record data_config =
  dc_comp :: comp_key_t
  dc_cond :: config_cond_t
  dc_string :: "char list"
  dc_parent :: "nat option"
  dc_prev :: "nat option"
  dc_next :: "nat option"
  dc_keys :: "char list list"

text \<open>A pointer to a buffer that is compared: the cache keeps such pointers.\<close>

datatype buffer_ref =
    Authority | Check_Buf | Tmp_Buf | Empty_String | Dst_Addr_Buf | Scheme | Uri_Path | Uri_Query
  | Srv_Token nat | Header_Value nat

record cond_cache_t =
  cc_result :: cond_result_t
  cc_patterncount :: int
  cc_matches :: "int list"
  cc_comp_value :: "buffer_ref option"
  cc_comp_type :: comp_key_t

record etag_flags =
  ETAG_USE_INODE :: bool
  ETAG_USE_MTIME :: bool
  ETAG_USE_SIZE :: bool

text \<open>An address with its port; the bytes of an IPv4 address are read as a number in host order.\<close>

datatype sock_addr = Inet "32 word" nat | Inet6 "char list" nat | Other_Address

record specific_config =
  document_root :: "char list"
  conf_error_handler :: "char list"
  server_tag :: "char list"
  errorfile_prefix :: "char list"
  max_keep_alive_requests :: nat
  max_keep_alive_idle :: nat
  max_read_idle :: nat
  max_write_idle :: nat
  use_xattr :: bool
  follow_symlink :: bool
  range_requests :: bool
  conf_etag_flags :: etag_flags
  kbytes_per_second :: nat
  global_kbytes_per_second :: nat
  is_ssl :: bool
  allow_http11 :: bool
  force_lowercase_filenames :: bool
  global_bytes_per_second_cnt_ptr :: nat

text \<open>
  \<open>parsed_response\<close> is kept as its two bits that the core reads.  \<open>address\<close> is where the structure
  lies, which is what the lists of connections hold.
\<close>

record connection =
  address :: nat
  state :: connection_state_t
  read_idle_ts :: int
  close_timeout_ts :: int
  write_request_ts :: int
  connection_start :: int
  request_start :: int
  request_count :: nat
  loops_per_request :: nat
  fd :: int
  fde_ndx :: int
  ndx :: int
  is_readable :: bool
  is_writable :: bool
  keep_alive :: int
  file_started :: bool
  file_finished :: bool
  write_queue :: chunkqueue
  read_queue :: chunkqueue
  request_content_queue :: chunkqueue
  traffic_limit_reached :: bool
  bytes_written :: int
  bytes_written_cur_second :: int
  bytes_read :: int
  bytes_header :: int
  http_status :: int
  parse_request :: "char list"
  parsed_content_length :: bool
  parsed_connection :: bool
  req :: request_t
  con_uri :: request_uri_t
  physical :: physical_t
  response :: response_t
  header_len :: nat
  authed_user :: "char list"
  environment :: header_array
  got_response :: bool
  in_joblist :: bool
  mode :: connection_type
  conf :: specific_config
  server_name :: "char list"
  error_handler :: "char list"
  error_handler_saved_status :: int
  in_error_handler :: bool
  dst_addr :: sock_addr
  dst_addr_buf :: "char list"
  srv_socket :: "nat option"
  cond_cache :: "cond_cache_t list"
  conditional_is_valid :: "comp_key_t set"
  con_etag_flags :: etag_flags

text \<open>A listening socket.  A connection knows its own by its place in the list of the server.\<close>

record server_socket =
  sock_address :: sock_addr
  sock_fd :: int
  sock_fde_ndx :: int
  sock_is_ssl :: bool
  srv_token :: "char list"

text \<open>A vector of pointers to connections; a cell is \<open>None\<close> until it is written.\<close>

record connections_list =
  con_ptr :: "nat option list"
  con_size :: nat
  con_used :: nat

text \<open>
  The server-wide state: clock, counters, limits and scratch buffers, the lists of connections, the
  event backend, the caches of formatted dates and the status counters.
  Each context of the configuration has a counter of the bytes sent in this second, which its options point
  to by the number of the context (0 for the global one).  \<open>contexts\<close> are
  the contexts of the configuration behind the global one, with the options and the server name that
  hold in them.
\<close>

record server =
  cur_ts :: int
  con_opened :: int
  con_read :: int
  con_written :: int
  con_closed :: int
  cur_fds :: int
  want_fds :: int
  max_conns :: nat
  max_request_size :: nat
  split_vals :: header_array
  tmp_chunk_len :: "char list"
  upload_tempdirs :: "char list list option"
  default_conf :: specific_config
  default_server_name :: "char list"
  global_bytes_per_second_cnt :: "nat \<Rightarrow> int"
  conns :: connections_list
  joblist :: connections_list
  fdwaitqueue :: connections_list
  srv_sockets :: "server_socket list"
  sockets_disabled :: bool
  max_fds :: nat
  srv_port :: nat
  ev :: fdevents
  ts_date_str :: "char list"
  last_generated_date_ts :: int
  mtime_cache :: "(int \<times> char list) list"
  srv_status :: "unit array"
  tmp_buf :: "char list"
  cond_check_buf :: "char list"
  contexts :: "(data_config \<times> specific_config \<times> char list) list"

section \<open>Updating nested fields\<close>

definition upd_req :: "(request_t \<Rightarrow> request_t) \<Rightarrow> connection \<Rightarrow> connection" where
  "upd_req f con = con\<lparr>req := f (req con)\<rparr>"

definition upd_resp :: "(response_t \<Rightarrow> response_t) \<Rightarrow> connection \<Rightarrow> connection" where
  "upd_resp f con = con\<lparr>response := f (response con)\<rparr>"

definition upd_uri :: "(request_uri_t \<Rightarrow> request_uri_t) \<Rightarrow> connection \<Rightarrow> connection" where
  "upd_uri f con = con\<lparr>con_uri := f (con_uri con)\<rparr>"

definition upd_phys :: "(physical_t \<Rightarrow> physical_t) \<Rightarrow> connection \<Rightarrow> connection" where
  "upd_phys f con = con\<lparr>physical := f (physical con)\<rparr>"

definition upd_conf :: "(specific_config \<Rightarrow> specific_config) \<Rightarrow> connection \<Rightarrow> connection" where
  "upd_conf f con = con\<lparr>conf := f (conf con)\<rparr>"

lemmas nested_updates = upd_req_def upd_resp_def upd_uri_def upd_phys_def upd_conf_def

text \<open>\<open>buffer_copy_string_len\<close> and \<open>buffer_copy_string\<close> leave the string and a terminator.\<close>

lemma hptr_deref [simp]: "deref_buffer a Null = None" "deref_string a Null = None"
    "deref_buffer a Dangling = None" "deref_string a Dangling = None"
  by (simp_all add: deref_buffer_def deref_string_def)

section \<open>String elements\<close>

text \<open>An unused element of the array if there is one, else a new one.\<close>

definition unused_or :: "unit data_unset \<Rightarrow> header_array \<Rightarrow> unit data_unset \<times> header_array" where
  "unused_or new a = (case array_get_unused_element a of (Some ds, a) \<Rightarrow> (ds, a) | (None, a) \<Rightarrow> (new, a))"

definition is_string :: "unit data_unset \<Rightarrow> bool" where
  "is_string du \<longleftrightarrow> string_value du \<noteq> None"

definition strings_ok :: "header_array \<Rightarrow> bool" where
  "strings_ok a \<longleftrightarrow> (\<forall>du. Some du \<in> set (adata a) \<longrightarrow> is_string du)"

lemma is_string_init [simp]: "is_string data_string_init" "is_string data_response_init"
  by (simp_all add: is_string_def string_value_def data_string_init_def data_response_init_def)

lemma set_string_ok: "is_string du \<Longrightarrow> \<exists>du'. set_string du v = Some du' \<and> is_string du' \<and> string_value du' = Some v \<and>
    key du' = key du \<and> is_index_key du' = is_index_key du"
  by (auto simp: is_string_def string_value_def set_string_def split: payload.splits)

lemma string_value_key [simp]: "string_value (du\<lparr>key := k\<rparr>) = string_value du" "is_string (du\<lparr>key := k\<rparr>) = is_string du"
  "string_value (du\<lparr>is_index_key := b\<rparr>) = string_value du" "is_string (du\<lparr>is_index_key := b\<rparr>) = is_string du"
  by (simp_all add: string_value_def is_string_def)

lemma unused_or_ok:
  assumes "arr_inv a" and "strings_ok a" and "is_string new"
  obtains ds a' where "unused_or new a = (ds, a')" "arr_inv a'" "strings_ok a'" "is_string ds"
    "elements a' = elements a" "a_used a' = a_used a" "unique_ndx a' = unique_ndx a"
proof -
  obtain es ns where rep: "arr_rep a es ns" using assms(1) by (auto simp: arr_inv_def)
  note f = rep_facts[OF rep]
  show ?thesis
  proof (cases "a_used a < a_size a \<and> adata a ! a_used a \<noteq> None")
    case True
    then obtain ds where ds: "adata a ! a_used a = Some ds" by blast
    let ?a = "a\<lparr>adata := (adata a)[a_used a := None]\<rparr>"
    from True ds have "unused_or new a = (ds, ?a)" by (simp add: unused_or_def array_get_unused_element_def)
    moreover have "arr_rep ?a es ns" using rep by (simp add: arr_rep_def)
    moreover have "strings_ok ?a" using assms(2) set_update_subset_insert[of "adata a" "a_used a" None]
      by (auto simp: strings_ok_def)
    moreover have "is_string ds" using assms(2) ds True f(1) unfolding strings_ok_def by (metis nth_mem)
    ultimately show ?thesis using that rep_elements[OF rep] rep_elements by (metis arr_inv_def array.select_convs(3,5) array.update_convs(1) array.surjective)
  next
    case False
    then have "unused_or new a = (new, a)" using f(1-3) by (auto simp: unused_or_def array_get_unused_element_def)
    with that assms show ?thesis by blast
  qed
qed

end
