(* ===== verification/HeaderArray.thy ===== *)
theory HeaderArray
  imports Base
begin

text \<open>
  Header lists with arbitrary keys.  The byte comparison is an order only on keys without
  the bytes between Z and a, so for other keys an array may fall out of order; the lemmas here
  show what survives: the search and the insertion stay within the array, and the elements
  stay strings.
\<close>

section \<open>The search stays within bounds\<close>

lemma search_bounds:
  assumes "looks look n idx c" and "power_or_0 i"
    and "if i = 0 then -1 \<le> pos \<and> pos \<le> int n else - (2 * int i) \<le> pos \<and> pos \<le> int n - 1 + 2 * int i"
  shows "\<exists>r p. get_index_loop look n i pos = Some (r, p) \<and> -1 \<le> p \<and> p \<le> int n \<and>
     (r = -1 \<or> (\<exists>q < n. r = int (idx q)))"
  using assms(2,3)
proof (induction i arbitrary: pos rule: less_induct)
  case (less i)
  note half = power_or_0_half[OF less.prems(1)]
  have next_i: "\<exists>r p. get_index_loop look n (i div 2) pos' = Some (r, p) \<and> -1 \<le> p \<and> p \<le> int n \<and>
     (r = -1 \<or> (\<exists>q < n. r = int (idx q)))" if "i \<noteq> 0" "- int i \<le> pos'" "pos' \<le> int n - 1 + int i" for pos'
    using that half by (intro less.IH) auto
  show ?case
  proof (cases "pos < 0 \<or> pos \<ge> int n")
    case True
    with less.prems next_i[of "pos + int i"] next_i[of "pos - int i"] show ?thesis
      by (subst get_index_loop.simps) (auto split: if_splits)
  next
    case False
    then have look: "look (nat pos) = Some (idx (nat pos), c (nat pos))" "nat pos < n"
      using assms(1) by (auto simp: looks_def)
    have "\<exists>q < n. int (idx (nat pos)) = int (idx q)" using look(2) by blast
    with False look less.prems next_i[of "pos + int i"] next_i[of "pos - int i"] show ?thesis
      by (subst get_index_loop.simps) (auto simp: Let_def split: if_splits)
  qed
qed

section \<open>The weak invariant\<close>

definition filled :: "header_array \<Rightarrow> bool" where
  "filled a \<longleftrightarrow> length (adata a) = a_size a \<and> length (sorted_ndx a) = a_size a \<and> a_used a \<le> a_size a \<and>
     (\<forall>i < a_used a. adata a ! i \<noteq> None) \<and> (\<forall>i < a_used a. \<exists>n < a_used a. sorted_ndx a ! i = Some n) \<and>
     a_used a \<le> next_power_of_2 a \<and> (\<exists>k. next_power_of_2 a = 2 ^ k) \<and> strings_ok a"

lemma filledD:
  assumes "filled a"
  shows "length (adata a) = a_size a" "length (sorted_ndx a) = a_size a" "a_used a \<le> a_size a"
    "\<And>i. i < a_used a \<Longrightarrow> \<exists>du. adata a ! i = Some du \<and> is_string du"
    "\<And>i. i < a_used a \<Longrightarrow> \<exists>n < a_used a. sorted_ndx a ! i = Some n"
    "a_used a \<le> next_power_of_2 a" "\<exists>k. next_power_of_2 a = 2 ^ k" "strings_ok a"
proof -
  fix i assume i: "i < a_used a"
  with assms obtain du where du: "adata a ! i = Some du" unfolding filled_def by blast
  moreover from du i assms have "Some du \<in> set (adata a)" unfolding filled_def by (metis less_le_trans nth_mem)
  ultimately show "\<exists>du. adata a ! i = Some du \<and> is_string du" using assms by (auto simp: filled_def strings_ok_def)
qed (use assms in \<open>auto simp: filled_def\<close>)

lemma arr_inv_filled: "arr_inv a \<Longrightarrow> strings_ok a \<Longrightarrow> filled a"
proof -
  assume a: "arr_inv a" "strings_ok a"
  then obtain es ns where rep: "arr_rep a es ns" by (auto simp: arr_inv_def)
  have "\<exists>k. next_power_of_2 a = 2 ^ k" using rep by (simp add: arr_rep_def)
  then show ?thesis
    using rep_facts[OF rep] rep_adata[OF rep] rep_sorted[OF rep] rep_ns[OF rep] a(2)
    by (auto simp: filled_def)
qed

lemma filled_at_pos:
  assumes "filled a" and "p < a_used a"
  shows "\<exists>n du. at_pos a p = Some (n, du) \<and> n < a_used a \<and> adata a ! n = Some du"
proof -
  obtain n where n: "n < a_used a" "sorted_ndx a ! p = Some n" using filledD(5)[OF assms] by blast
  obtain du where "adata a ! n = Some du" using filledD(4)[OF assms(1) n(1)] by blast
  with n filledD(1-3)[OF assms(1)] assms(2) show ?thesis by (simp add: at_pos_def)
qed

lemma filled_get_index:
  assumes "filled a"
  shows "\<exists>r p. array_get_index a k = Some (r, p) \<and> -1 \<le> p \<and> p \<le> int (a_used a) \<and>
     (r = -1 \<or> 0 \<le> r \<and> r < int (a_used a))"
proof -
  define idx where "idx p = fst (the (at_pos a p))" for p
  define c where "c p = buffer_caseless_compare False k (key (snd (the (at_pos a p))))" for p
  have l: "looks (look_key a k) (a_used a) idx c"
    unfolding looks_def
  proof (intro allI impI)
    fix p assume "p < a_used a"
    then obtain n du where "at_pos a p = Some (n, du)" using filled_at_pos[OF assms] by blast
    then show "look_key a k p = Some (idx p, c p)" by (simp add: look_key_def idx_def c_def)
  qed
  have idx: "q < a_used a \<Longrightarrow> idx q < a_used a" for q
    using filled_at_pos[OF assms, of q] by (auto simp: idx_def)
  obtain m where m: "next_power_of_2 a = 2 ^ m" using filledD(7)[OF assms] by blast
  define i where "i = next_power_of_2 a div 2"
  have "power_or_0 i" unfolding i_def m by (cases m) (auto simp: power_or_0_def)
  moreover have "if i = 0 then -1 \<le> int i \<and> int i \<le> int (a_used a)
      else - (2 * int i) \<le> int i \<and> int i \<le> int (a_used a) - 1 + 2 * int i" by simp
  ultimately obtain r p where "get_index_loop (look_key a k) (a_used a) i (int i) = Some (r, p)" "-1 \<le> p"
      "p \<le> int (a_used a)" "r = -1 \<or> (\<exists>q < a_used a. r = int (idx q))"
    using search_bounds[OF l, of i "int i"] by blast
  with idx show ?thesis unfolding array_get_index_def i_def[symmetric] by auto
qed

section \<open>Insertion\<close>

lemma filled_room:
  assumes "filled a"
  shows "filled (array_room a)" "a_used (array_room a) = a_used a" "a_used a < a_size (array_room a)"
    "next_power_of_2 (array_room a) = next_power_of_2 a"
    "\<And>i. i < a_used a \<Longrightarrow> adata (array_room a) ! i = adata a ! i"
    "\<And>i. i < a_used a \<Longrightarrow> sorted_ndx (array_room a) ! i = sorted_ndx a ! i"
proof -
  note f = filledD[OF assms]
  have "strings_ok (array_room a)"
    using f(8) by (auto simp: array_room_def strings_ok_def dest: in_set_takeD)
  then show "filled (array_room a)" using assms f
    by (auto simp: array_room_def filled_def nth_append)
qed (use filledD(1-3)[OF assms] in \<open>auto simp: array_room_def nth_append\<close>)

text \<open>The element ends up in the next slot, or is joined to the one of an equal key.\<close>

lemma filled_insert_at:
  assumes "filled a" and "is_string e" and "-1 \<le> pos" and "pos \<le> int (a_used a)"
  shows "valid (array_insert_at a e pos) (\<lambda>a'. filled a' \<and> a_used a' = a_used a + 1 \<and>
     adata a' ! a_used a = Some e \<and> (\<forall>i < a_used a. adata a' ! i = adata a ! i))"
proof -
  define b where "b = array_room a"
  define u where "u = a_used a"
  define d where "d = b\<lparr>adata := (adata b)[u := Some e], a_used := u + 1\<rparr>"
  note r = filled_room[OF assms(1), folded b_def u_def] and f = filledD[OF filled_room(1)[OF assms(1)], folded b_def]
  have len: "u < length (adata b)" "u < length (sorted_ndx b)" using r f by simp_all
  obtain p where p: "goes_behind d e u pos = Some p" "p \<Longrightarrow> pos \<noteq> int u"
  proof -
    have "\<exists>n du. at_pos d (nat pos) = Some (n, du)" if "0 \<le> pos" "pos \<noteq> int u"
    proof -
      have q: "nat pos < u" using that assms(4) u_def by linarith
      with r(2) obtain n where n: "n < u" "sorted_ndx b ! nat pos = Some n" using f(5)[of "nat pos"] by auto
      obtain du where "adata b ! n = Some du" using n(1) r(2) f(4)[of n] by auto
      with n q len show ?thesis by (simp add: at_pos_def d_def)
    qed
    then have "\<exists>p. goes_behind d e u pos = Some p \<and> (p \<longrightarrow> pos \<noteq> int u)"
      by (cases "pos < 0 \<or> pos = int u") (auto simp: goes_behind_def)
    then show ?thesis using that by blast
  qed
  define q where "q = (if p then pos + 1 else pos)"
  show ?thesis
  proof (cases "pos = -1 \<and> \<not> p")
    case True
    then show ?thesis using p(1) by (auto simp: goes_behind_def)
  next
    case False
    then have q: "0 \<le> q" "q \<le> int u" using assms(3,4) p(2) by (auto simp: q_def u_def)
    let ?s = "insert_sorted (sorted_ndx b) u (nat q) (Some u)"
    have s_len: "length ?s = a_size b" using q len f(2) by (auto simp: insert_sorted_def)
    have s: "\<exists>n < u + 1. ?s ! i = Some n" if "i < u + 1" for i
    proof -
      have "take (u + 1) ?s = take (nat q) (sorted_ndx b) @ Some u # take (u - nat q) (drop (nat q) (sorted_ndx b))"
        using q len by (intro take_insert_sorted) auto
      then have "?s ! i \<in> set (take (nat q) (sorted_ndx b) @ Some u # take (u - nat q) (drop (nat q) (sorted_ndx b)))"
        using that s_len len f(2) by (metis length_take min.absorb2 Suc_eq_plus1 Suc_leI nth_mem nth_take)
      moreover have "x = Some u \<or> (\<exists>n < u. x = Some n)"
        if "x \<in> set (take (nat q) (sorted_ndx b) @ Some u # take (u - nat q) (drop (nat q) (sorted_ndx b)))" for x
      proof -
        from that have "x = Some u \<or> x \<in> set (take u (sorted_ndx b))"
          using q set_take_subset_set_take[of "nat q" u "sorted_ndx b"]
          by (auto simp: take_drop nat_le_iff dest: in_set_dropD)
        then show ?thesis using f(5) r(2) len(2) by (auto simp: in_set_conv_nth)
      qed
      ultimately show ?thesis by fastforce
    qed
    let ?c = "d\<lparr>sorted_ndx := ?s, next_power_of_2 := (if next_power_of_2 b = u then 2 * next_power_of_2 b else next_power_of_2 b)\<rparr>"
    have res: "array_insert_at a e pos = Some ?c"
      using p(1) q len by (cases p)
        (simp_all add: array_insert_at_def Let_def b_def[symmetric] d_def u_def[symmetric] r(2) q_def)
    have "strings_ok ?c" using f(8) assms(2) set_update_subset_insert[of "adata b" u "Some e"]
      by (auto simp: strings_ok_def d_def)
    moreover have "\<exists>k. next_power_of_2 ?c = 2 ^ k" using f(7) by (auto intro: exI[of _ "Suc _"])
    moreover have "0 < next_power_of_2 b" using f(7) by auto
    then have "u + 1 \<le> next_power_of_2 ?c" using f(6) r(2) by auto
    ultimately have "filled ?c" using s s_len f(1,3,4) r(2,3)
      by (auto simp: filled_def d_def nth_list_update less_Suc_eq)
    then show ?thesis using res len r(5) by (simp add: d_def u_def[symmetric])
  qed
qed

lemma filled_update:
  assumes "filled a" and "i < a_used a" and "is_string e"
  shows "filled (a\<lparr>adata := (adata a)[i := Some e]\<rparr>)"
  using assms set_update_subset_insert[of "adata a" i "Some e"]
  by (auto simp: filled_def strings_ok_def nth_list_update)

lemma is_string_insert_dup: "is_string d \<Longrightarrow> is_string (insert_dup d e)"
  by (auto simp: is_string_def string_value_def split: payload.splits)

text \<open>The array an insertion works on, after a running index was drawn for an element without a key.\<close>

definition indexed :: "header_array \<Rightarrow> unit data_unset \<Rightarrow> header_array" where
  "indexed a e = (if key e = [] \<or> is_index_key e then a\<lparr>unique_ndx := unique_ndx a + 1\<rparr> else a)"

lemma indexed_simps [simp]: "a_used (indexed a e) = a_used a" "adata (indexed a e) = adata a"
  "filled (indexed a e) = filled a"
  by (auto simp: indexed_def filled_def strings_ok_def)

lemma insert_unique_unfold: "array_insert_unique a e = do {
     (ndx, pos) \<leftarrow> array_get_index (indexed a e) (key (keyed a e));
     if ndx \<noteq> -1 then do {
       dst \<leftarrow> adata a ! nat ndx;
       if payload_type (payload dst) = payload_type (payload (keyed a e))
       then Some (0, (indexed a e)\<lparr>adata := (adata a)[nat ndx := Some (insert_dup dst (keyed a e))]\<rparr>)
       else Some (0, indexed a e) }
     else if a_used a + 1 > INT_MAX then Some (-1, indexed a e)
     else do { b \<leftarrow> array_insert_at (indexed a e) (keyed a e) pos; Some (0, b) } }"
proof (cases "key e = [] \<or> is_index_key e")
  case True
  then have "indexed a e = a\<lparr>unique_ndx := unique_ndx a + 1\<rparr>"
    "keyed a e = e\<lparr>key := terminated (decimal (int (unique_ndx a))), is_index_key := True\<rparr>"
    unfolding indexed_def keyed_def by (simp_all only: if_True)
  with True show ?thesis
    by (simp only: array_insert_unique_def Let_def if_True prod.case) (simp cong: if_cong del: insert_dup.simps)
next
  case False
  then have "indexed a e = a" "keyed a e = e"
    unfolding indexed_def keyed_def by (simp_all only: if_False)
  with False show ?thesis by (simp only: array_insert_unique_def Let_def if_False prod.case)
qed

lemma filled_insert_unique:
  assumes "filled a" and "is_string e" and "a_used a < INT_MAX"
  shows "valid (array_insert_unique a e) (\<lambda>(r, a'). r = 0 \<and> filled a' \<and>
     (a_used a' = a_used a \<or> a_used a' = a_used a + 1 \<and> adata a' ! a_used a = Some (keyed a e) \<and>
       (\<forall>i < a_used a. adata a' ! i = adata a ! i)))"
proof -
  define b where "b = indexed a e"
  have b: "filled b" "a_used b = a_used a" "adata b = adata a" using assms(1) by (simp_all add: b_def)
  have e: "is_string (keyed a e)" using assms(2) by (simp add: keyed_def)
  note step = insert_unique_unfold[of a e, folded b_def]
  obtain r p where r: "array_get_index b (key (keyed a e)) = Some (r, p)" "-1 \<le> p" "p \<le> int (a_used b)"
    "r = -1 \<or> 0 \<le> r \<and> r < int (a_used b)" using filled_get_index[OF b(1)] by blast
  show ?thesis
  proof (cases "r = -1")
    case True
    then show ?thesis using filled_insert_at[OF b(1) e r(2,3)] assms(3) b(2,3)
      unfolding step r(1) by (auto simp: valid_def)
  next
    case False
    with r(4) have i: "nat r < a_used b" by linarith
    then obtain d where "adata b ! nat r = Some d" "is_string d" using filledD(4)[OF b(1)] by blast
    with False filled_update[OF b(1) i is_string_insert_dup] b show ?thesis
      unfolding step r(1) by (simp add: filled_update i del: insert_dup.simps)
  qed
qed

lemma filled_unused_or:
  assumes "filled a" and "is_string new"
  obtains ds a' where "unused_or new a = (ds, a')" "filled a'" "is_string ds" "a_used a' = a_used a"
    "\<And>i. i < a_used a \<Longrightarrow> adata a' ! i = adata a ! i"
proof (cases "a_used a < a_size a \<and> adata a ! a_used a \<noteq> None")
  case True
  note f = filledD[OF assms(1)]
  obtain ds where ds: "adata a ! a_used a = Some ds" using True by blast
  let ?a = "a\<lparr>adata := (adata a)[a_used a := None]\<rparr>"
  from True ds have u: "unused_or new a = (ds, ?a)" by (simp add: unused_or_def array_get_unused_element_def)
  have "filled ?a" using assms(1) set_update_subset_insert[of "adata a" "a_used a" None]
    by (auto simp: filled_def strings_ok_def nth_list_update)
  moreover have "is_string ds" using f(8) ds True f(1) unfolding strings_ok_def by (metis nth_mem)
  ultimately show ?thesis using that[OF u] by simp
next
  case False
  then have "unused_or new a = (new, a)"
    using filledD(1-3)[OF assms(1)] by (auto simp: unused_or_def array_get_unused_element_def)
  with that assms show ?thesis by blast
qed

text \<open>What holds of every element and of the new one, and survives joining, holds afterwards.\<close>

definition every_element :: "(unit data_unset \<Rightarrow> bool) \<Rightarrow> header_array \<Rightarrow> bool" where
  "every_element P a \<longleftrightarrow> (\<forall>du. Some du \<in> set (adata a) \<longrightarrow> P du)"

lemma every_element_update: "every_element P a \<Longrightarrow> x = None \<or> (\<exists>e. x = Some e \<and> P e) \<Longrightarrow>
    every_element P (a\<lparr>adata := (adata a)[i := x]\<rparr>)"
  using set_update_subset_insert[of "adata a" i x] by (auto simp: every_element_def)

lemma every_element_nth: "every_element P a \<Longrightarrow> i < length (adata a) \<Longrightarrow> adata a ! i = Some du \<Longrightarrow> P du"
  unfolding every_element_def by (metis nth_mem)

lemma unused_or_all:
  assumes "every_element P a" and "P new" and "filled a" and "unused_or new a = (ds, b)"
  shows "P ds" "every_element P b"
  using assms every_element_nth[OF assms(1), of "a_used a"] filledD(1,3)[OF assms(3)]
  by (auto simp: unused_or_def array_get_unused_element_def every_element_update split: if_splits option.splits)

lemma every_insert_at:
  assumes "every_element P a" and "P x" and "array_insert_at a x pos = Some b"
  shows "every_element P b"
proof -
  have "every_element P (array_room a)"
    using assms(1) by (auto simp: array_room_def every_element_def dest: in_set_takeD)
  then have "every_element P ((array_room a)\<lparr>adata := (adata (array_room a))[a_used (array_room a) := Some x]\<rparr>)"
    using assms(2) by (intro every_element_update) auto
  moreover have "adata b = (adata (array_room a))[a_used (array_room a) := Some x]"
    using assms(3) by (auto simp: array_insert_at_def Let_def bind_eq_Some_conv)
  ultimately show ?thesis by (simp add: every_element_def)
qed

lemma insert_unique_all:
  assumes "every_element P a" and "P (keyed a e)" and "\<And>d. P d \<Longrightarrow> P (insert_dup d (keyed a e))" and "filled a"
    and "array_insert_unique a e = Some (r, a')"
  shows "every_element P a'"
proof -
  have b: "every_element P (indexed a e)" using assms(1) by (simp add: every_element_def)
  obtain n p where n: "array_get_index (indexed a e) (key (keyed a e)) = Some (n, p)" "n = -1 \<or> 0 \<le> n \<and> n < int (a_used a)"
    using filled_get_index[of "indexed a e" "key (keyed a e)"] assms(4) by auto
  show ?thesis
  proof (cases "n = -1")
    case True
    then have "a' = indexed a e \<or> array_insert_at (indexed a e) (keyed a e) p = Some a'"
      using assms(5) n(1) by (auto simp: insert_unique_unfold bind_eq_Some_conv split: if_splits)
    then show ?thesis using every_insert_at[OF b assms(2)] b by blast
  next
    case False
    with n(2) have "nat n < a_used a" by linarith
    then obtain d where d: "adata a ! nat n = Some d" using filledD(4)[OF assms(4)] by blast
    with every_element_nth[OF assms(1) _ d] \<open>nat n < _\<close> filledD(1,3)[OF assms(4)] have "P d" by linarith
    have "a' = indexed a e \<or> a' = (indexed a e)\<lparr>adata := (adata a)[nat n := Some (insert_dup d (keyed a e))]\<rparr>"
      using assms(5) n(1) d False
      by (auto simp: insert_unique_unfold bind_eq_Some_conv simp del: insert_dup.simps split: if_splits)
    then show ?thesis using every_element_update[OF b, of "Some (insert_dup d (keyed a e))" "nat n"] assms(3) \<open>P d\<close> b
      by auto
  qed
qed

lemma insert_unique_ndx:
  assumes "array_insert_unique a e = Some (r, a')"
  shows "unique_ndx a' = unique_ndx (indexed a e)"
proof -
  have at: "array_insert_at b x pos = Some b' \<Longrightarrow> unique_ndx b' = unique_ndx b" for b b' :: header_array and x pos
    by (auto simp: array_insert_at_def array_room_def Let_def bind_eq_Some_conv)
  show ?thesis using assms
    by (auto simp: insert_unique_unfold bind_eq_Some_conv simp del: insert_dup.simps dest: at split: if_splits)
qed

lemma filled_reset:
  assumes "filled a"
  shows "valid (array_reset f (Some a)) (\<lambda>ap. \<exists>a'. ap = Some a' \<and> filled a' \<and> a_used a' = 0)"
proof -
  note f = filledD[OF assms]
  have "None \<notin> set (take (a_used a) (adata a))" using f(1,3,4) by (force simp: in_set_conv_nth)
  moreover have "is_string (data_reset f du) = is_string du" for du
    by (auto simp: is_string_def string_value_def data_reset_def split: payload.splits)
  then have "is_string du" if "Some du = map_option (data_reset f) x" "x \<in> set (adata a)" for du x
    using that f(8) by (cases x) (auto simp: strings_ok_def)
  with \<open>None \<notin> _\<close> show ?thesis using f
    by (auto simp: array_reset_def filled_def strings_ok_def dest: in_set_takeD in_set_dropD)
qed

lemma filled_init: "filled array_init"
  by (auto simp: filled_def array_init_def strings_ok_def intro: exI[of _ 0])

end
