(* ===== verification/RequestLine.thy ===== *)
theory RequestLine
  imports HeaderArray
begin

text \<open>
  The first part of \<open>http_request_parse\<close> (\<open>request.c\<close>): the request line
  \<open><method> <uri> <protocol>\<close>.  The code cuts its copy of the request into strings by
  writing NUL bytes into it and keeps pointers to the three parts; the model keeps the bytes and
  the offsets.  \<open>Inl con\<close> is the early \<open>return 0\<close> with the status set in \<open>con\<close>.
\<close>

section \<open>The code\<close>

text \<open>The error exits: some also clear the keep-alive wish of the response.\<close>

definition refuse :: "int \<Rightarrow> bool \<Rightarrow> connection \<Rightarrow> connection" where
  "refuse status also_response con =
     (let con = con\<lparr>http_status := status, keep_alive := 0\<rparr>
      in if also_response then upd_resp (\<lambda>r. r\<lparr>resp_keep_alive := 0\<rparr>) con else con)"

definition request_uri_is_valid_char :: "nat \<Rightarrow> bool" where
  "request_uri_is_valid_char c =
     (if c \<le> 32 then False else if c = 127 then False else if c = 255 then False else True)"

text \<open>
  The protocol behind \<open>HTTP/\<close>: the two numbers, or \<open>None\<close> when a number is missing or is followed
  by something else.
\<close>

definition version_numbers :: "char list \<Rightarrow> (int \<times> int) option" where
  "version_numbers major = (case index_of (CHR ''.'') major of
       None \<Rightarrow> None
     | Some k \<Rightarrow>
         if k = 0 then None
         else if drop (k + 1) major = [] then None
         else
           let (major_num, err) = c_strtol (take k major);
               (minor_num, err') = c_strtol (drop (k + 1) major)
           in if err \<noteq> k \<or> err' \<noteq> length (drop (k + 1) major) then None
              else Some (to_int32 major_num, to_int32 minor_num))"

text \<open>The version, or the status the protocol is refused with.\<close>

definition request_version :: "bool \<Rightarrow> char list \<Rightarrow> int + http_version_t" where
  "request_version http11 proto =
     (if is_prefix ''HTTP/'' proto then
        (case version_numbers (drop 5 proto) of
           None \<Rightarrow> Inl 400
         | Some (major_num, minor_num) \<Rightarrow>
             if major_num = 1 \<and> minor_num = 1 then Inr (if http11 then HTTP_VERSION_1_1 else HTTP_VERSION_1_0)
             else if major_num = 1 \<and> minor_num = 0 then Inr HTTP_VERSION_1_0
             else Inl 505)
      else Inl 400)"

text \<open>The URI between the two pointers; the scheme and the host of an absolute one are skipped.\<close>

definition request_uri_bytes :: "char list \<Rightarrow> nat \<Rightarrow> nat \<Rightarrow> char list option" where
  "request_uri_bytes p uri_at proto = do {
     us \<leftarrow> str_at p uri_at;
     let nuri = (if is_prefix ''http://'' us then index_of (CHR ''/'') (drop 7 us) else None);
     let start = (case nuri of Some n \<Rightarrow> uri_at + 7 + n | None \<Rightarrow> uri_at);
     Some (terminated (take (proto - start - 1) (drop start p))) }"

definition uri_ok :: "char list \<Rightarrow> bool" where
  "uri_ok u \<longleftrightarrow> list_all (\<lambda>c. request_uri_is_valid_char (uchar c)) u"

text \<open>The URI is copied and checked; the line is done, and \<open>i\<close> moves behind its \<open>\r\n\<close>.\<close>

type_synonym line_step = "(connection + char list \<times> nat \<times> nat \<times> connection) option"

definition request_uri_step :: "char list \<Rightarrow> nat \<Rightarrow> nat \<Rightarrow> nat \<Rightarrow> connection \<Rightarrow> line_step" where
  "request_uri_step p i uri_at proto con = do {
     u \<leftarrow> request_uri_bytes p uri_at proto;
     let con = upd_req (\<lambda>q. q\<lparr>uri := u\<rparr>) con;
     if \<not> uri_ok (butlast u) then Some (Inl (refuse 400 False con))
     else
       let con = upd_req (\<lambda>q. q\<lparr>orig_uri := copy_bytes u\<rparr>) con;
           con = con\<lparr>http_status := 0\<rparr>
       in Some (Inr (p, i + 2, i + 2, con)) }"

definition request_version_step :: "char list \<Rightarrow> nat \<Rightarrow> nat \<Rightarrow> nat \<Rightarrow> connection \<Rightarrow> line_step" where
  "request_version_step p i uri_at proto con = do {
     protocol \<leftarrow> str_at p proto;
     case request_version (allow_http11 (conf con)) protocol of
       Inl status \<Rightarrow> Some (Inl (if status = 505 then con\<lparr>http_status := 505\<rparr> else refuse status False con))
     | Inr v \<Rightarrow> request_uri_step p i uri_at proto (upd_req (\<lambda>q. q\<lparr>http_version := v\<rparr>) con) }"

text \<open>\<open>\r\n\<close> was found at \<open>i\<close>; \<open>first\<close> is where the last part of the line begins.\<close>

definition request_line_done :: "char list \<Rightarrow> nat \<Rightarrow> nat \<Rightarrow> nat \<Rightarrow> nat \<Rightarrow> nat \<Rightarrow> connection \<Rightarrow> line_step" where
  "request_line_done p i first stage method uri_at con = do {
     let p = p[i := NUL, i + 1 := NUL];
     let con = upd_req (\<lambda>q. q\<lparr>request_line := terminated (take i p)\<rparr>) (con\<lparr>parse_request := p\<rparr>);
     if stage \<noteq> 2 then Some (Inl (refuse 400 True con))
     else do {
       let proto = first;
       guard (0 < uri_at \<and> 0 < proto \<and> uri_at \<le> length p \<and> proto \<le> length p);
       let p = p[uri_at - 1 := NUL, proto - 1 := NUL];
       m \<leftarrow> str_at p method;
       let con = con\<lparr>parse_request := p\<rparr>;
       let r = get_http_method_key m;
       if r = HTTP_METHOD_UNSET then Some (Inl (refuse 501 True con))
       else request_version_step p i uri_at proto (upd_req (\<lambda>q. q\<lparr>http_method := r\<rparr>) con) } }"

function request_line_loop ::
    "char list \<Rightarrow> nat \<Rightarrow> nat \<Rightarrow> nat \<Rightarrow> nat \<Rightarrow> nat \<Rightarrow> connection \<Rightarrow> line_step" where
  "request_line_loop p i first stage method uri_at con =
     (case byte_at p i of
        None \<Rightarrow> Some (Inr (p, i, first, con))
      | Some c \<Rightarrow>
          if c = CR then
            (case byte_at p (i + 1) of
               None \<Rightarrow> None
             | Some d \<Rightarrow> if d = LF then request_line_done p i first stage method uri_at con
                         else request_line_loop p (i + 1) first stage method uri_at con)
          else if c = CHR '' '' then
            (if stage = 0 then request_line_loop p (i + 1) (i + 1) 1 first uri_at con
             else if stage = 1 then request_line_loop p (i + 1) (i + 1) 2 method first con
             else Some (Inl (refuse 400 True con)))
          else request_line_loop p (i + 1) first stage method uri_at con)"
  by pat_completeness auto
termination by (relation "measure (\<lambda>(p, i, _). length p - i)") (auto simp: byte_at_iff)

declare request_line_loop.simps [simp del]

text \<open>
  The copy that is parsed: on a kept-alive connection an empty line in front of the request is
  skipped.
\<close>

definition parse_request_bytes :: "connection \<Rightarrow> char list option" where
  "parse_request_bytes con =
     (let r = request (req con) in
      if request_count con > 1 then do {
        a \<leftarrow> byte_at r 0;
        if a = CR then do {
          b \<leftarrow> byte_at r 1;
          Some (if b = LF then terminated (take (length r - 1 - 2) (drop 2 r)) else copy_bytes r) }
        else Some (copy_bytes r) }
      else Some (copy_bytes r))"

end
