(* ===== verification/RequestSplit.thy ===== *)
theory RequestSplit
  imports HeaderArray
begin

text \<open>
  \<open>http_request_split_value\<close> of \<open>request.c\<close>: splits a header value such as that of
  \<open>Connection\<close> at its commas into an array of trimmed strings.  The code runs a pointer over
  the buffer in step with the index \<open>i\<close>; the model keeps the index, and reading in front of
  the buffer is undefined.
\<close>

section \<open>The code\<close>

definition is_ws :: "char \<Rightarrow> bool" where
  "is_ws c \<longleftrightarrow> c = CHR '' '' \<or> c = TAB"

function skip_ws :: "char list \<Rightarrow> nat \<Rightarrow> nat option" where
  "skip_ws b i = (case byte_at b i of None \<Rightarrow> None
     | Some c \<Rightarrow> if is_ws c \<and> i < length b - 1 then skip_ws b (i + 1) else Some i)"
  by pat_completeness auto
termination by (relation "measure (\<lambda>(b, i). length b - i)") (auto simp: byte_at_iff)

function to_comma :: "char list \<Rightarrow> nat \<Rightarrow> nat option" where
  "to_comma b i = (case byte_at b i of None \<Rightarrow> None
     | Some c \<Rightarrow> if c \<noteq> CHR '','' \<and> i < length b - 1 then to_comma b (i + 1) else Some i)"
  by pat_completeness auto
termination by (relation "measure (\<lambda>(b, i). length b - i)") (auto simp: byte_at_iff)

function strip_end :: "char list \<Rightarrow> nat \<Rightarrow> int \<Rightarrow> int option" where
  "strip_end b start e = (case (if e < 0 then None else byte_at b (nat e)) of None \<Rightarrow> None
     | Some c \<Rightarrow> if is_ws c \<and> e > int start then strip_end b start (e - 1) else Some e)"
  by pat_completeness auto
termination by (relation "measure (\<lambda>(b, start, e). nat e)") (auto split: if_splits)

declare skip_ws.simps [simp del] to_comma.simps [simp del] strip_end.simps [simp del]

text \<open>A value goes into an unused or new element without a key, which gets a running index.\<close>

definition push_value :: "header_array \<Rightarrow> char list \<Rightarrow> header_array option" where
  "push_value vals v = do {
     let (ds, vals) = unused_or data_string_init vals;
     ds \<leftarrow> set_string ds (terminated v);
     (_, vals) \<leftarrow> array_insert_unique vals ds;
     Some vals }"

lemma skip_ws_mono: "skip_ws b i = Some j \<Longrightarrow> i \<le> j"
proof (induction b i rule: skip_ws.induct)
  case (1 b i)
  then show ?case by (subst (asm) (2) skip_ws.simps) (auto split: option.splits if_splits)
qed

lemma to_comma_mono: "to_comma b i = Some j \<Longrightarrow> i \<le> j"
proof (induction b i rule: to_comma.induct)
  case (1 b i)
  then show ?case by (subst (asm) (2) to_comma.simps) (auto split: option.splits if_splits)
qed

function split_loop :: "char list \<Rightarrow> nat \<Rightarrow> nat \<Rightarrow> header_array \<Rightarrow> header_array option" where
  "split_loop b i st vals =
     (if \<not> i < length b - 1 then Some vals
      else if st = 0 then
        (case skip_ws b i of None \<Rightarrow> None | Some i' \<Rightarrow> split_loop b i' 1 vals)
      else if st = 1 then
        (case to_comma b i of None \<Rightarrow> None | Some i' \<Rightarrow>
          (case strip_end b i (int i' - 1) of None \<Rightarrow> None | Some e \<Rightarrow>
            (case push_value vals (take (nat (e - int i + 1)) (drop i b)) of None \<Rightarrow> None | Some vals' \<Rightarrow>
              (case byte_at b i' of None \<Rightarrow> None
               | Some c \<Rightarrow> if c = CHR '','' then split_loop b (i' + 1) 0 vals' else split_loop b i' 2 vals'))))
      else split_loop b (i + 1) st vals)"
  by pat_completeness auto
termination
  by (relation "measure (\<lambda>(b, i, st, vals). 3 * (length b - i) + (if st = 0 then 2 else if st = 1 then 1 else 0))")
    (auto dest!: skip_ws_mono to_comma_mono)

declare split_loop.simps [simp del]

definition http_request_split_value :: "header_array \<Rightarrow> char list \<Rightarrow> (int \<times> header_array) option" where
  "http_request_split_value vals b =
     (if b = [] then Some (0, vals) else do { vals \<leftarrow> split_loop b 0 0 vals; Some (0, vals) })"

section \<open>The values of a list\<close>

definition rstrip :: "char list \<Rightarrow> char list" where
  "rstrip s = rev (dropWhile is_ws (rev s))"

function split_values :: "char list \<Rightarrow> char list list" where
  "split_values s = (let t = dropWhile is_ws s in
     if t = [] then []
     else rstrip (takeWhile (\<lambda>c. c \<noteq> CHR '','') t) #
       (case dropWhile (\<lambda>c. c \<noteq> CHR '','') t of [] \<Rightarrow> [] | _ # r \<Rightarrow> split_values r))"
  by pat_completeness auto
termination
proof (relation "measure length", simp, clarsimp)
  fix s x r assume "dropWhile (\<lambda>c. c \<noteq> CHR '','') (dropWhile is_ws s) = x # r"
  from arg_cong[OF this, of length] show "length r < length s"
    using length_dropWhile_le[of "\<lambda>c. c \<noteq> CHR '',''" "dropWhile is_ws s"] length_dropWhile_le[of is_ws s] by simp
qed

declare split_values.simps [simp del]

fun push_values :: "header_array \<Rightarrow> char list list \<Rightarrow> header_array option" where
  "push_values vals [] = Some vals"
| "push_values vals (v # vs) = do { vals \<leftarrow> push_value vals v; push_values vals vs }"

text \<open>The loops in terms of the string behind the index.\<close>

lemma skip_ws_ok:
  "skip_ws (terminated (p @ s)) (length p) = Some (length p + length (takeWhile is_ws s))"
proof (induction s arbitrary: p)
  case Nil
  then show ?case by (subst skip_ws.simps) (simp add: byte_at_terminated)
next
  case (Cons c s)
  from Cons.IH[of "p @ [c]"] show ?case
    by (subst skip_ws.simps) (simp add: byte_at_terminated nth_append)
qed

lemma to_comma_ok:
  "to_comma (terminated (p @ s)) (length p) = Some (length p + length (takeWhile (\<lambda>c. c \<noteq> CHR '','') s))"
proof (induction s arbitrary: p)
  case Nil
  then show ?case by (subst to_comma.simps) (simp add: byte_at_terminated)
next
  case (Cons c s)
  from Cons.IH[of "p @ [c]"] show ?case
    by (subst to_comma.simps) (simp add: byte_at_terminated nth_append)
qed

lemma rstrip_snoc: "rstrip (s @ [c]) = (if is_ws c then rstrip s else s @ [c])"
  by (simp add: rstrip_def)

lemma rstrip_Nil [simp]: "rstrip [] = []"
  by (simp add: rstrip_def)

lemma strip_end_ok:
  assumes "\<not> is_ws c"
  shows "strip_end (p @ (c # v) @ r) (length p) (int (length p + length v)) =
    Some (int (length p + length (rstrip (c # v))) - 1)"
proof (induction v arbitrary: r rule: rev_induct)
  case Nil
  then show ?case using assms rstrip_snoc[of "[]" c]
    by (subst strip_end.simps) (simp add: byte_at_def nth_append)
next
  case (snoc x v)
  from snoc.IH[of "x # r"] rstrip_snoc[of "c # v" x] show ?case
    by (subst strip_end.simps) (simp add: byte_at_def nth_append nat_add_distrib)
qed

lemma rstrip_prefix: "take (length (rstrip v)) v = rstrip v"
proof (induction v rule: rev_induct)
  case (snoc x v)
  have "length (rstrip v) \<le> length v" using length_dropWhile_le[of is_ws "rev v"] by (simp add: rstrip_def)
  with snoc show ?case by (simp add: rstrip_snoc)
qed simp

text \<open>
  The loop pushes exactly the values of the string behind the index, provided a value that
  starts with a comma is not at the start of the buffer.
\<close>

lemma split_loop_ok:
  assumes "p \<noteq> [] \<or> s = [] \<or> hd s \<noteq> CHR '',''"
  shows "split_loop (terminated (p @ s)) (length p) 0 vals = push_values vals (split_values s)"
  using assms
proof (induction s arbitrary: p vals rule: split_values.induct)
  case (1 s)
  define t where "t = dropWhile is_ws s"
  define ws where "ws = takeWhile is_ws s"
  define v where "v = takeWhile (\<lambda>c. c \<noteq> CHR '','') t"
  define r where "r = dropWhile (\<lambda>c. c \<noteq> CHR '','') t"
  have s: "s = ws @ t" and t: "t = v @ r" by (simp_all add: t_def ws_def v_def r_def)
  let ?b = "terminated (p @ s)" and ?q = "p @ ws"
  have b: "?b = terminated (?q @ t)" by (simp add: s)
  show ?case
  proof (cases "s = []")
    case True
    then show ?thesis by (subst split_loop.simps, subst split_values.simps) simp
  next
    case False
    have one: "split_loop ?b (length p) 0 vals = split_loop ?b (length ?q) 1 vals"
      using skip_ws_ok[of p s] False by (subst split_loop.simps) (simp add: ws_def)
    show ?thesis
    proof (cases "t = []")
      case True
      have "split_loop ?b (length ?q) 1 vals = Some vals"
        using True by (subst split_loop.simps) (simp add: s)
      with one True show ?thesis by (subst split_values.simps) (simp add: t_def)
    next
      case ne: False
      have q: "?q \<noteq> [] \<or> v \<noteq> []"
      proof (cases "v = []")
        case True
        then have "r = t" using t by simp
        moreover have "r \<noteq> [] \<Longrightarrow> \<not> hd r \<noteq> CHR '',''" unfolding r_def by (rule hd_dropWhile)
        ultimately have "hd t = CHR '',''" using ne by simp
        with "1.prems" s False show ?thesis by (cases ws) auto
      qed simp
      define n where "n = length (p @ ws)"
      have comma: "to_comma ?b n = Some (n + length v)"
        using to_comma_ok[of ?q t] b by (simp add: v_def n_def)
      have strip: "strip_end ?b n (int (n + length v) - 1) = Some (int (n + length (rstrip v)) - 1)"
      proof (cases v)
        case Nil
        then have "0 < length p \<or> 0 < length ws" "length ws \<le> length s" using q s by auto
        then have "\<not> int (length p) + int (length ws) < 1" "length ws \<le> length s" by linarith+
        then show ?thesis using Nil by (subst strip_end.simps) (auto simp: byte_at_def n_def)
      next
        case (Cons c v')
        have "\<not> is_ws c" using Cons t ne hd_dropWhile[of is_ws s] by (auto simp: t_def[symmetric])
        from strip_end_ok[OF this, of ?q v' "r @ [NUL]"] Cons show ?thesis
          by (simp add: n_def s t terminated_def)
      qed
      have val: "take (nat (int (n + length (rstrip v)) - 1 - int n + 1)) (drop n ?b) = rstrip v"
        using rstrip_prefix[of v] length_dropWhile_le[of is_ws "rev v"]
        by (simp add: n_def s t terminated_def) (simp add: rstrip_def)
      have vals: "split_values s = rstrip v # (case r of [] \<Rightarrow> [] | _ # r \<Rightarrow> split_values r)"
        using ne by (subst split_values.simps) (simp add: t_def[symmetric] Let_def v_def r_def)
      have at: "byte_at ?b (n + length v) = Some (case r of [] \<Rightarrow> NUL | c # _ \<Rightarrow> c)"
        by (cases r) (simp_all add: n_def s t terminated_def byte_at_def nth_append)
      have two: "split_loop ?b n 1 vals = (case push_value vals (rstrip v) of None \<Rightarrow> None | Some vals' \<Rightarrow>
          if r \<noteq> [] then split_loop ?b (n + length v + 1) 0 vals' else Some vals')"
      proof -
        have end2: "split_loop ?b (n + length v) 2 vals' = Some vals'" if "r = []" for vals'
          using that by (subst split_loop.simps) (simp add: n_def s t)
        have "n < length ?b - 1" using ne by (simp add: s n_def)
        moreover have "r = [] \<or> hd r = CHR '',''" using hd_dropWhile[of "\<lambda>c. c \<noteq> CHR '',''" t] by (auto simp: r_def)
        ultimately show ?thesis
          apply (subst split_loop.simps)
          using end2 by (cases r) (auto simp: comma strip[simplified] val[simplified] at split: option.splits)
      qed
      show ?thesis
      proof (cases r)
        case Nil
        with one two vals show ?thesis by (simp add: n_def split: option.splits)
      next
        case (Cons x r')
        have "split_loop (terminated ((p @ ws @ v @ [x]) @ r')) (length (p @ ws @ v @ [x])) 0 vals' =
            push_values vals' (split_values r')" for vals'
          using "1.IH"[of t x r' "p @ ws @ v @ [x]" vals'] ne Cons t_def r_def by simp
        with one two vals Cons show ?thesis by (simp add: n_def s t add.assoc split: option.splits)
      qed
    qed
  qed
qed

lemma split_value_ok:
  assumes "s = [] \<or> hd s \<noteq> CHR '',''"
  shows "http_request_split_value vals (terminated s) = do { vals \<leftarrow> push_values vals (split_values s); Some (0, vals) }"
  using split_loop_ok[of "[]" s vals] assms by (simp add: http_request_split_value_def)

text \<open>A leading comma makes the code read the byte in front of the buffer.\<close>

lemma split_value_leading_comma: "http_request_split_value vals (terminated (CHR '','' # s)) = None"
proof -
  have "to_comma (terminated (CHR '','' # s)) 0 = Some 0" using to_comma_ok[of "[]" "CHR '','' # s"] by simp
  moreover have "skip_ws (terminated (CHR '','' # s)) 0 = Some 0"
    using skip_ws_ok[of "[]" "CHR '','' # s"] by (simp add: is_ws_def)
  moreover have "strip_end (terminated (CHR '','' # s)) 0 (-1) = None" by (subst strip_end.simps) simp
  ultimately have "split_loop (terminated (CHR '','' # s)) 0 0 vals = None"
    by (subst split_loop.simps, simp, subst split_loop.simps, simp)
  then show ?thesis by (simp add: http_request_split_value_def)
qed

section \<open>The array of values\<close>

text \<open>
  An array whose keys are running indices: each pushed value becomes a new last element.
\<close>

definition no_key :: "unit data_unset \<Rightarrow> bool" where
  "no_key du \<longleftrightarrow> is_string du \<and> (key du = [] \<or> is_index_key du)"

definition index_keyed :: "header_array \<Rightarrow> bool" where
  "index_keyed a \<longleftrightarrow> arr_inv a \<and> (\<forall>du. Some du \<in> set (adata a) \<longrightarrow> no_key du) \<and>
     (\<forall>e \<in> set (elements a). \<exists>j < unique_ndx a. key e = terminated (decimal (int j)))"

lemma push_value_filled: "filled a \<Longrightarrow> a_used a < INT_MAX \<Longrightarrow>
    valid (push_value a v) (\<lambda>a'. filled a' \<and> a_used a' \<le> a_used a + 1)"
proof -
  assume a: "filled a" "a_used a < INT_MAX"
  obtain ds b where u: "unused_or data_string_init a = (ds, b)" "filled b" "is_string ds" "a_used b = a_used a"
    by (rule filled_unused_or[OF a(1) is_string_init(1)])
  obtain ds' where d: "set_string ds (terminated v) = Some ds'" "is_string ds'" using set_string_ok[OF u(3)] by blast
  show ?thesis using filled_insert_unique[OF u(2) d(2)] a(2) u(4)
    by (auto simp: push_value_def u(1) d(1) valid_def)
qed

lemma push_values_filled: "filled a \<Longrightarrow> a_used a + length vs \<le> INT_MAX \<Longrightarrow>
    valid (push_values a vs) (\<lambda>a'. filled a' \<and> a_used a' \<le> a_used a + length vs)"
proof (induction vs arbitrary: a)
  case (Cons v vs)
  obtain a' where p: "push_value a v = Some a'" "filled a'" "a_used a' \<le> a_used a + 1"
    using push_value_filled[OF Cons.prems(1), of v] Cons.prems(2) by (auto simp: valid_def)
  with Cons.IH[of a'] Cons.prems(2) show ?case by (auto elim!: valid_weaken)
qed simp

lemma decimal_digits: "0 \<le> v \<Longrightarrow> set (decimal v) \<subseteq> set digit_chars \<and> dec_value 0 (decimal v) = nat v"
  using lsd_digits[of v] lsd_value[of v] by (simp add: decimal_def)

lemma fold_decimal: "0 \<le> v \<Longrightarrow> fold_key (terminated (decimal v)) = map schar (terminated (decimal v))"
proof -
  assume "0 \<le> v"
  have "to_lower_char c = c" if "c \<in> set digit_chars \<union> {NUL}" for c
    using that by (auto simp: to_lower_char_def digit_chars_def is_upper_def char_eval)
  with decimal_digits[OF \<open>0 \<le> v\<close>] show ?thesis by (auto simp: fold_key_def terminated_def)
qed

lemma decimal_keys_differ:
  assumes "i < j" shows "fold_key (terminated (decimal (int i))) \<noteq> fold_key (terminated (decimal (int j)))"
proof
  assume "fold_key (terminated (decimal (int i))) = fold_key (terminated (decimal (int j)))"
  then have "map schar (decimal (int i)) = map schar (decimal (int j))"
    by (simp add: fold_decimal) (simp add: terminated_def)
  moreover have "inj schar" by (auto intro: injI)
  ultimately have "decimal (int i) = decimal (int j)" by simp
  with decimal_digits[of "int i"] decimal_digits[of "int j"] assms show False by simp
qed

lemma tame_decimal: "0 \<le> v \<Longrightarrow> v < 2 ^ 63 \<Longrightarrow> tame (terminated (decimal v))"
  using decimal_digits[of v] decimal_length[of v]
  by (auto simp: tame_def terminated_def list_all_iff digit_chars_def char_eval)

lemma no_key_insert_dup: "no_key d \<Longrightarrow> no_key (insert_dup d e)"
  by (simp add: no_key_def is_string_insert_dup del: insert_dup.simps) (simp split: payload.splits)

lemma index_keyed_filled: "index_keyed a \<Longrightarrow> filled a"
  by (auto simp: index_keyed_def strings_ok_def no_key_def every_element_def intro!: arr_inv_filled)

lemma push_value_ok:
  assumes a: "index_keyed a" and "a_used a < INT_MAX" and "unique_ndx a + 1 < 2 ^ 63"
  shows "valid (push_value a v) (\<lambda>a'. index_keyed a' \<and> a_used a' \<le> a_used a + 1 \<and> unique_ndx a' = unique_ndx a + 1 \<and>
     (\<exists>e. elements a' = elements a @ [e] \<and> string_value e = Some (terminated v)))"
proof -
  have inv: "arr_inv a" "strings_ok a" "every_element no_key a" "filled a"
    using a index_keyed_filled by (auto simp: index_keyed_def strings_ok_def no_key_def every_element_def)
  obtain ds b where u: "unused_or data_string_init a = (ds, b)" "arr_inv b" "strings_ok b" "is_string ds"
      "elements b = elements a" "a_used b = a_used a" "unique_ndx b = unique_ndx a"
    by (rule unused_or_ok[OF inv(1,2) is_string_init(1)])
  have "no_key data_string_init" by (simp add: no_key_def) (simp add: data_string_init_def)
  note pool = unused_or_all[OF inv(3) this inv(4) u(1)]
  obtain e where e: "set_string ds (terminated v) = Some e" "is_string e" "string_value e = Some (terminated v)"
      "key e = key ds" "is_index_key e = is_index_key ds" using set_string_ok[OF u(4)] by blast
  have ke: "key (keyed b e) = terminated (decimal (int (unique_ndx a)))" "unique_ndx (indexed b e) = unique_ndx a + 1"
    "string_value (keyed b e) = Some (terminated v)" "no_key (keyed b e)"
    using pool(1) e u(7) by (auto simp: keyed_def indexed_def no_key_def)
  have fresh: "\<forall>d \<in> set (elements b). fk d \<noteq> fk (keyed b e)"
    using a decimal_keys_differ unfolding u(5) ke index_keyed_def by fastforce
  have "tame (key (keyed b e))" unfolding ke using assms(3) by (intro tame_decimal) auto
  then obtain a' where a': "array_insert_unique b e = Some (0, a')" "arr_inv a'" "elements a' = elements a @ [keyed b e]"
      "a_used a' \<le> a_used a + 1"
    using insert_unique_ok[OF u(2), of e] assms(2) u(5,6) elem_new[OF fresh] by (auto simp: valid_def)
  have "filled b" using u(2,3) by (rule arr_inv_filled)
  have "every_element no_key a'"
    by (rule insert_unique_all[OF pool(2) ke(4) no_key_insert_dup \<open>filled b\<close> a'(1)])
  moreover have "unique_ndx a' = unique_ndx a + 1" using insert_unique_ndx[OF a'(1)] ke(2) by simp
  ultimately have "index_keyed a'"
    using a a' ke(1) by (auto simp: index_keyed_def every_element_def less_Suc_eq)
  then show ?thesis using e(1) u(1) a' ke(3) \<open>unique_ndx a' = _\<close> by (auto simp: push_value_def valid_def)
qed

lemma push_values_ok:
  assumes "index_keyed a" and "a_used a + length vs \<le> INT_MAX" and "unique_ndx a + length vs < 2 ^ 63"
  shows "valid (push_values a vs) (\<lambda>a'. index_keyed a' \<and>
     (\<exists>es. elements a' = elements a @ es \<and> map string_value es = map (\<lambda>v. Some (terminated v)) vs))"
  using assms
proof (induction vs arbitrary: a)
  case (Cons v vs)
  obtain a' e where p: "push_value a v = Some a'" "index_keyed a'" "a_used a' \<le> a_used a + 1"
      "unique_ndx a' = unique_ndx a + 1" "elements a' = elements a @ [e]" "string_value e = Some (terminated v)"
    using push_value_ok[OF Cons.prems(1), of v] Cons.prems(2,3) by (auto simp: valid_def)
  obtain a'' es where q: "push_values a' vs = Some a''" "index_keyed a''" "elements a'' = elements a' @ es"
      "map string_value es = map (\<lambda>v. Some (terminated v)) vs"
    using Cons.IH[OF p(2)] Cons.prems(2,3) p(3,4) by (auto simp: valid_def)
  then show ?case using p by (auto intro!: exI[of _ "e # es"])
qed simp

section \<open>Properties\<close>

text \<open>
  C13: splitting a header value that does not begin with a comma reads only the value and
  leaves in an empty array of values exactly the parts between its commas, in order, without
  the white space around them.
\<close>

theorem split_value_parts:
  assumes "index_keyed vals" and "elements vals = []" and "a_used vals = 0"
    and "s = [] \<or> hd s \<noteq> CHR '',''" and "length s < INT_MAX" and "unique_ndx vals < 2 ^ 62"
  shows "valid (http_request_split_value vals (terminated s)) (\<lambda>(r, vals'). r = 0 \<and>
     map string_value (elements vals') = map (\<lambda>v. Some (terminated v)) (split_values s))"
proof -
  have "length (split_values s) \<le> length s"
  proof (induction s rule: split_values.induct)
    case (1 s)
    define t where "t = dropWhile is_ws s"
    show ?case
    proof (cases "t = []")
      case True
      then show ?thesis by (subst split_values.simps) (simp add: t_def)
    next
      case False
      show ?thesis
      proof (cases "dropWhile (\<lambda>c. c \<noteq> CHR '','') t")
        case Nil
        moreover have "s \<noteq> []" using False by (auto simp: t_def)
        ultimately show ?thesis using False
          by (subst split_values.simps) (simp add: t_def[symmetric] Let_def Suc_le_eq Nil del: dropWhile_eq_Nil_conv)
      next
        case (Cons x r)
        have "length (split_values r) \<le> length r" using "1.IH"[of t x r] False Cons t_def by simp
        moreover have "Suc (length r) \<le> length s"
          using arg_cong[OF Cons, of length] length_dropWhile_le[of "\<lambda>c. c \<noteq> CHR '',''" t] length_dropWhile_le[of is_ws s]
          by (simp add: t_def)
        ultimately show ?thesis using False Cons
          by (subst split_values.simps) (simp add: t_def[symmetric] Let_def)
      qed
    qed
  qed
  then have "valid (push_values vals (split_values s)) (\<lambda>a'. index_keyed a' \<and>
     (\<exists>es. elements a' = elements vals @ es \<and> map string_value es = map (\<lambda>v. Some (terminated v)) (split_values s)))"
    using assms by (intro push_values_ok) (auto simp: INT_MAX_def)
  then show ?thesis using split_value_ok[OF assms(4), of vals] assms(2) by (auto simp: valid_def)
qed

lemma split_value_parts_witness:
  "valid (http_request_split_value array_init (terminated '' a ,, b'')) (\<lambda>(r, vals'). r = 0 \<and>
     map string_value (elements vals') = map (\<lambda>v. Some (terminated v)) (split_values '' a ,, b''))"
proof (rule split_value_parts)
  show "index_keyed array_init"
    using array_init_inv by (simp add: index_keyed_def) (simp add: array_init_def)
qed (simp_all add: array_init_inv INT_MAX_def, simp_all add: array_init_def)

end
