(* ===== verification/RequestHeaders.thy ===== *)
theory RequestHeaders
  imports RequestLine RequestSplit
begin

text \<open>
  The header loop of \<open>http_request_parse\<close> (\<open>request.c\<close>), one byte per step.  A line is either
  in its key or in its value; at the end of a line the header is stored, and eight headers get
  special treatment.  The \<open>http_*\<close> pointers of the request point into the stored values.
\<close>

section \<open>The state of the loop\<close>

datatype keep_alive_wish = HTTP_CONNECTION_UNSET | HTTP_CONNECTION_KEEPALIVE | HTTP_CONNECTION_CLOSE

record parse_state =
  ps_bytes :: "char list"
  ps_i :: nat
  ps_first :: nat
  is_key :: bool
  key_len :: nat
  in_folding :: bool
  ps_value :: "nat option"
  ps_key :: "nat option"
  keep_alive_set :: keep_alive_wish
  con_length_set :: bool
  ps_done :: bool
  ps_vals :: header_array
  ps_con :: connection

type_synonym parse_step = "((header_array \<times> connection) + parse_state) option"

definition abort :: "connection \<Rightarrow> parse_state \<Rightarrow> parse_step" where
  "abort con st = Some (Inl (ps_vals st, con\<lparr>parse_request := ps_bytes st\<rparr>))"

definition separators :: "char list" where
  "separators = ''()<>@,;'' @ [BACKSLASH, DQUOTE] @ ''/[]?={}''"

definition is_ctl :: "char \<Rightarrow> bool" where
  "is_ctl c \<longleftrightarrow> uchar c \<in> {0..8} \<union> {10..12} \<union> {14..31} \<union> {127}"

section \<open>The key of a line\<close>

text \<open>
  Behind white space in a key only more of it and a colon may follow: the offset of the colon, or
  a refusal.
\<close>

function find_colon :: "char list \<Rightarrow> nat \<Rightarrow> nat option option" where
  "find_colon p j = (case byte_at p j of None \<Rightarrow> None
     | Some c \<Rightarrow> if is_ws c then find_colon p (j + 1) else if c = CHR '':'' then Some (Some j) else Some None)"
  by pat_completeness auto
termination by (relation "measure (\<lambda>(p, j). length p - j)") (auto simp: byte_at_iff)

declare find_colon.simps [simp del]

text \<open>The variable \<open>is_ws_after_key\<close> of the code is always 0, so a colon always sets \<open>key_len\<close>.\<close>

definition key_step :: "parse_state \<Rightarrow> char \<Rightarrow> parse_step" where
  "key_step st c =
     (let p = ps_bytes st; i = ps_i st; first = ps_first st; con = ps_con st in
      if c = CHR '':'' then
        Some (Inr (st\<lparr>is_key := False, ps_value := Some (i + 1), key_len := i - first\<rparr>))
      else if c \<in> set separators then abort (refuse 400 True con) st
      else if is_ws c then
        if i = first then Some (Inr (st\<lparr>is_key := False, in_folding := True, ps_value := Some i\<rparr>))
        else (case find_colon p (i + 1) of
            None \<Rightarrow> None
          | Some None \<Rightarrow> abort (refuse 400 True con) st
          | Some (Some colon) \<Rightarrow> Some (Inr (st\<lparr>key_len := i - first, ps_i := colon - 1\<rparr>)))
      else if c = CR then
        (case byte_at p (i + 1) of
           None \<Rightarrow> None
         | Some d \<Rightarrow> if d = LF \<and> i = first
             then Some (Inr (st\<lparr>ps_bytes := p[i := NUL, i + 1 := NUL], ps_i := i + 1, ps_done := True\<rparr>))
             else abort (refuse 400 True con) st)
      else if is_ctl c then abort (refuse 400 True con) st
      else Some (Inr st))"

section \<open>Storing a header\<close>

text \<open>
  Inserting the element: a pointer to its value is good when it went into a new slot; joined to
  an older element it is freed.
\<close>

definition store_header :: "unit data_unset \<Rightarrow> connection \<Rightarrow> (connection \<times> hptr) option" where
  "store_header ds con = do {
     let hs = headers (req con);
     (_, hs') \<leftarrow> array_insert_unique hs ds;
     Some (upd_req (\<lambda>q. q\<lparr>headers := hs'\<rparr>) con,
           if a_used hs' > a_used hs then Slot (a_used hs) 0 else Dangling) }"

text \<open>The list of names is sorted, and the search stops at the first name behind the key.\<close>

definition special_headers :: "char list list" where
  "special_headers = [''Connection'', ''Content-Length'', ''Content-Type'', ''Expect'', ''Host'',
     ''If-Modified-Since'', ''If-None-Match'', ''Range'']"

fun special_header :: "char list \<Rightarrow> char list list \<Rightarrow> char list option" where
  "special_header k [] = None"
| "special_header k (n # ns) =
     (let cmp = buffer_caseless_compare False k n
      in if cmp = 0 then Some n else if cmp > 0 then special_header k ns else None)"

fun connection_wish :: "keep_alive_wish \<Rightarrow> unit data_unset option list \<Rightarrow> keep_alive_wish option" where
  "connection_wish w [] = Some w"
| "connection_wish w (dsv # dsvs) = do {
     du \<leftarrow> dsv;
     v \<leftarrow> string_value du;
     if buffer_caseless_compare False (butlast v) ''keep-alive'' = 0 then Some HTTP_CONNECTION_KEEPALIVE
     else if buffer_caseless_compare False (butlast v) ''close'' = 0 then Some HTTP_CONNECTION_CLOSE
     else connection_wish w dsvs }"

definition store_plain :: "unit data_unset \<Rightarrow> parse_state \<Rightarrow> parse_step" where
  "store_plain ds st = do { (con, _) \<leftarrow> store_header ds (ps_con st); Some (Inr (st\<lparr>ps_con := con\<rparr>)) }"

text \<open>A pointer that may be set once: a second header of the name is refused.\<close>

definition store_once ::
    "(request_t \<Rightarrow> hptr) \<Rightarrow> (hptr \<Rightarrow> request_t \<Rightarrow> request_t) \<Rightarrow> unit data_unset \<Rightarrow> parse_state \<Rightarrow> parse_step" where
  "store_once getp setp ds st =
     (if getp (req (ps_con st)) = Null then do {
        (con, p) \<leftarrow> store_header ds (ps_con st);
        Some (Inr (st\<lparr>ps_con := upd_req (setp p) con\<rparr>)) }
      else abort (refuse 400 False (ps_con st)) st)"

definition connection_header :: "unit data_unset \<Rightarrow> char list \<Rightarrow> parse_state \<Rightarrow> parse_step" where
  "connection_header ds v st = do {
     ap \<leftarrow> array_reset id (Some (ps_vals st));
     vals \<leftarrow> ap;
     (_, vals) \<leftarrow> http_request_split_value vals v;
     w \<leftarrow> connection_wish (keep_alive_set st) (take (a_used vals) (adata vals));
     store_plain ds (st\<lparr>ps_vals := vals, keep_alive_set := w\<rparr>) }"

definition content_length_header :: "unit data_unset \<Rightarrow> char list \<Rightarrow> parse_state \<Rightarrow> parse_step" where
  "content_length_header ds v st =
     (let con = ps_con st in
      if con_length_set st then abort (refuse 400 False con) st
      else if v = [] then None
      else if \<not> list_all is_digit (butlast v) then do {
        (con, _) \<leftarrow> store_header ds (refuse 400 False con);
        abort con st }
      else do {
        let (r, err) = c_strtoul (cstr v);
        if err = length (cstr v) then
          store_plain ds (st\<lparr>con_length_set := True, ps_con := upd_req (\<lambda>q. q\<lparr>content_length := r\<rparr>) con\<rparr>)
        else do {
          (con, _) \<leftarrow> store_header ds (refuse 400 False con);
          abort con st } })"

definition if_modified_since_header :: "unit data_unset \<Rightarrow> char list \<Rightarrow> parse_state \<Rightarrow> parse_step" where
  "if_modified_since_header ds v st =
     (let con = ps_con st; old = http_if_modified_since (req con) in
      if old = Null then store_once http_if_modified_since (\<lambda>p q. q\<lparr>http_if_modified_since := p\<rparr>) ds st
      else do {
        old_value \<leftarrow> deref_string (headers (req con)) old;
        if same_nocase old_value (cstr v) then Some (Inr st)
        else abort (refuse 400 False con) st })"

definition range_header :: "unit data_unset \<Rightarrow> char list \<Rightarrow> parse_state \<Rightarrow> parse_step" where
  "range_header ds v st =
     (if http_range (req (ps_con st)) = Null then
        if same_nocase (take 6 (cstr v)) ''bytes='' \<and> CHR ''-'' \<in> set (drop 6 (cstr v)) then do {
          (con, p) \<leftarrow> store_header ds (ps_con st);
          let p = (case p of Slot s n \<Rightarrow> Slot s (n + 6) | _ \<Rightarrow> p);
          Some (Inr (st\<lparr>ps_con := upd_req (\<lambda>q. q\<lparr>http_range := p\<rparr>) con\<rparr>)) }
        else store_plain ds st
      else abort (refuse 400 False (ps_con st)) st)"

definition expect_header :: "unit data_unset \<Rightarrow> parse_state \<Rightarrow> parse_step" where
  "expect_header ds st = do {
     (con, _) \<leftarrow> store_header ds (refuse 417 False (ps_con st));
     abort con st }"

definition header_field :: "unit data_unset \<Rightarrow> char list \<Rightarrow> char list \<Rightarrow> parse_state \<Rightarrow> parse_step" where
  "header_field ds k v st =
     (let name = special_header k special_headers in
      if name = Some ''Connection'' then connection_header ds v st
      else if name = Some ''Content-Length'' then content_length_header ds v st
      else if name = Some ''Content-Type'' then
        store_once http_content_type (\<lambda>p q. q\<lparr>http_content_type := p\<rparr>) ds st
      else if name = Some ''Expect'' then expect_header ds st
      else if name = Some ''Host'' then store_once http_host (\<lambda>p q. q\<lparr>http_host := p\<rparr>) ds st
      else if name = Some ''If-Modified-Since'' then if_modified_since_header ds v st
      else if name = Some ''If-None-Match'' then
        store_once http_if_none_match (\<lambda>p q. q\<lparr>http_if_none_match := p\<rparr>) ds st
      else if name = Some ''Range'' then range_header ds v st
      else store_plain ds st)"

section \<open>The end of a line\<close>

fun strip_len :: "char list \<Rightarrow> nat \<Rightarrow> nat \<Rightarrow> nat" where
  "strip_len p value 0 = 0"
| "strip_len p value (Suc n) = (if is_ws (p ! (value + n)) then strip_len p value n else Suc n)"

definition field_line :: "parse_state \<Rightarrow> parse_step" where
  "field_line st = do {
     let p = ps_bytes st;
     let k = ps_first st;
     let con = ps_con st;
     value \<leftarrow> ps_value st;
     guard (value \<le> ps_i st \<and> ps_i st < length p \<and> k + key_len st \<le> length p);
     let s_len = strip_len p value (ps_i st - value);
     let p = p[value + s_len := NUL];
     let st = st\<lparr>ps_key := Some k, ps_bytes := p\<rparr>;
     if s_len > 0 then do {
       let (ds, hs) = unused_or data_string_init (headers (req con));
       let con = upd_req (\<lambda>q. q\<lparr>headers := hs\<rparr>) con;
       let key_bytes = take (key_len st) (drop k p);
       let v = terminated (take s_len (drop value p));
       ds \<leftarrow> set_string (ds\<lparr>key := terminated key_bytes\<rparr>) v;
       header_field ds key_bytes v (st\<lparr>ps_con := con\<rparr>) }
     else Some (Inr st) }"

text \<open>Appending to a value may move its block: the character pointers into it are lost.\<close>

definition moved :: "nat \<Rightarrow> hptr \<Rightarrow> hptr" where
  "moved s p = (case p of Slot s' _ \<Rightarrow> if s' = s then Dangling else p | _ \<Rightarrow> p)"

definition append_value :: "nat \<Rightarrow> char list \<Rightarrow> request_t \<Rightarrow> request_t option" where
  "append_value s t q = do {
     du \<leftarrow> element_at (headers q) s;
     v \<leftarrow> string_value du;
     du \<leftarrow> set_string du (appended v t);
     Some (q\<lparr>headers := (headers q)\<lparr>adata := (adata (headers q))[s := Some du]\<rparr>,
       http_range := moved s (http_range q), http_content_type := moved s (http_content_type q),
       http_if_modified_since := moved s (http_if_modified_since q),
       http_if_none_match := moved s (http_if_none_match q)\<rparr>) }"

text \<open>A folded line is appended to the value of the header before it, found again by its key.\<close>

definition fold_line :: "parse_state \<Rightarrow> parse_step" where
  "fold_line st =
     (let con = ps_con st; p = ps_bytes st in
      case ps_key st of
        None \<Rightarrow> abort (refuse 400 True con) st
      | Some k \<Rightarrow>
          if key_len st = 0 then abort (refuse 400 True con) st
          else do {
            guard (k + key_len st \<le> length p);
            let name = cstr (take (key_len st) (drop k p));
            (ndx, _) \<leftarrow> array_get_index (headers (req con)) (name @ [NUL]);
            if ndx \<noteq> -1 then do {
              value \<leftarrow> ps_value st;
              t \<leftarrow> str_at p value;
              q \<leftarrow> append_value (nat ndx) t (req con);
              Some (Inr (st\<lparr>ps_con := con\<lparr>req := q\<rparr>\<rparr>)) }
            else Some (Inr st) })"

definition line_end :: "parse_state \<Rightarrow> parse_step" where
  "line_end st = do {
     let i = ps_i st;
     let st = st\<lparr>ps_bytes := (ps_bytes st)[i := NUL, i + 1 := NUL]\<rparr>;
     r \<leftarrow> (if in_folding st then fold_line st else field_line st);
     case r of
       Inl x \<Rightarrow> Some (Inl x)
     | Inr st \<Rightarrow> Some (Inr (st\<lparr>ps_i := i + 1, ps_first := i + 2, is_key := True, ps_value := None,
                              in_folding := False\<rparr>)) }"

text \<open>The white-space case falls through to the test for control characters, which a tab fails.\<close>

definition value_step :: "parse_state \<Rightarrow> char \<Rightarrow> parse_step" where
  "value_step st c =
     (let i = ps_i st; con = ps_con st in
      if c = CR then
        (case byte_at (ps_bytes st) (i + 1) of
           None \<Rightarrow> None
         | Some d \<Rightarrow> if d = LF then line_end st else abort (refuse 400 True con) st)
      else
        let st = (if is_ws c \<and> ps_value st = Some i then st\<lparr>ps_value := Some (i + 1)\<rparr> else st)
        in if 0 \<le> schar c \<and> schar c < 32 then abort (refuse 400 False con) st
           else Some (Inr st))"

definition header_step :: "parse_state \<Rightarrow> parse_step" where
  "header_step st = do {
     c \<leftarrow> byte_at (ps_bytes st) (ps_i st);
     if is_key st then key_step st c else value_step st c }"

text \<open>The loop; \<open>fuel\<close> bounds the number of bytes, each step consumes at least one.\<close>

fun header_loop :: "nat \<Rightarrow> parse_state \<Rightarrow> parse_step" where
  "header_loop fuel st =
     (if \<not> (ps_i st < length (ps_bytes st) \<and> \<not> ps_done st) then Some (Inr st)
      else case fuel of
        0 \<Rightarrow> None
      | Suc fuel \<Rightarrow> (case header_step st of
            None \<Rightarrow> None
          | Some (Inl x) \<Rightarrow> Some (Inl x)
          | Some (Inr st) \<Rightarrow> header_loop fuel (st\<lparr>ps_i := ps_i st + 1\<rparr>)))"

declare header_loop.simps [simp del]

end
