(* ===== verification/Hostname.thy ===== *)
theory Hostname
  imports CLib
begin

text \<open>
  \<open>request_check_hostname\<close> of \<open>request.c\<close>: the check of the \<open>Host\<close> header that every virtual
  host module relies on.  The code scans the name from the right with a small state machine;
  the theorem at the end gives the grammar it accepts.  \<open>None\<close> is an access outside the
  header's value, \<open>Some 0\<close> accepts and \<open>Some (-1)\<close> rejects.
\<close>

section \<open>The code\<close>

datatype host_stage = DOMAINLABEL | TOPLABEL

record host_scan =
  stage :: host_stage
  label_len :: int
  is_ip :: int
  level :: int

text \<open>The address in brackets: the offset where the loop stops, or a rejection.\<close>

function ipv6_loop :: "char list \<Rightarrow> nat \<Rightarrow> int \<Rightarrow> nat option option" where
  "ipv6_loop h c colon_cnt = (case byte_at h c of
       None \<Rightarrow> None
     | Some x \<Rightarrow>
         if x = NUL \<or> x = CHR '']'' then Some (Some c)
         else if x = CHR '':'' then
           if colon_cnt + 1 > 7 then Some None else ipv6_loop h (c + 1) (colon_cnt + 1)
         else if \<not> light_isxdigit (schar x) then Some None
         else ipv6_loop h (c + 1) colon_cnt)"
  by pat_completeness auto
termination by (relation "measure (\<lambda>(h, c, _). length h - c)") (auto simp: byte_at_iff)

function port_loop :: "char list \<Rightarrow> nat \<Rightarrow> int option" where
  "port_loop h c = (case byte_at h c of
       None \<Rightarrow> None
     | Some x \<Rightarrow> if x = NUL then Some 0 else if \<not> light_isdigit (schar x) then Some (-1)
         else port_loop h (c + 1))"
  by pat_completeness auto
termination by (relation "measure (\<lambda>(h, c). length h - c)") (auto simp: byte_at_iff)

declare ipv6_loop.simps [simp del] port_loop.simps [simp del]

text \<open>The two stages of the scan, at offset \<open>i\<close> with the character \<open>c\<close>; \<open>Some None\<close> rejects.\<close>

definition toplabel_step :: "char list \<Rightarrow> nat \<Rightarrow> nat \<Rightarrow> char \<Rightarrow> host_scan \<Rightarrow> host_scan option option" where
  "toplabel_step h host_len i c st =
     (if c = CHR ''.'' then
        if i \<noteq> host_len - 1 then
          if label_len st = 0 then Some None
          else do {
            r \<leftarrow> byte_at h (i + 1);
            let st' = st\<lparr>stage := DOMAINLABEL, label_len := 0, level := level st + 1\<rparr>;
            Some (if is_ip st = 0 then if \<not> light_isalpha (schar r) then None else Some st'
                  else if \<not> light_isdigit (schar r) then Some (st'\<lparr>is_ip := 0\<rparr>)
                  else if r = CHR ''-'' then None
                  else Some (st'\<lparr>is_ip := 1\<rparr>)) }
        else if i = 0 then Some None
        else Some (Some st)
      else if i = 0 then
        if \<not> light_isalpha (schar c) then Some None else Some (Some (st\<lparr>label_len := label_len st + 1\<rparr>))
      else if c \<noteq> CHR ''-'' \<and> \<not> light_isalnum (schar c) then Some None
      else
        let st = (if is_ip st = -1 \<and> \<not> light_isdigit (schar c) then st\<lparr>is_ip := 0\<rparr> else st)
        in Some (Some (st\<lparr>label_len := label_len st + 1\<rparr>)))"

definition domainlabel_step :: "char list \<Rightarrow> nat \<Rightarrow> char \<Rightarrow> host_scan \<Rightarrow> host_scan option option" where
  "domainlabel_step h i c st =
     (if is_ip st = 1 then
        if c = CHR ''.'' then
          if label_len st = 0 then Some None else Some (Some (st\<lparr>label_len := 0, level := level st + 1\<rparr>))
        else if \<not> light_isdigit (schar c) then Some None
        else Some (Some (st\<lparr>label_len := label_len st + 1\<rparr>))
      else if c = CHR ''.'' then
        if label_len st = 0 then Some None
        else do {
          r \<leftarrow> byte_at h (i + 1);
          Some (if r = CHR ''-'' then None else Some (st\<lparr>label_len := 0, level := level st + 1\<rparr>)) }
      else if i = 0 then
        if \<not> light_isalnum (schar c) then Some None else Some (Some (st\<lparr>label_len := label_len st + 1\<rparr>))
      else if c \<noteq> CHR ''-'' \<and> \<not> light_isalnum (schar c) then Some None
      else Some (Some (st\<lparr>label_len := label_len st + 1\<rparr>)))"

text \<open>\<open>host_loop h host_len n\<close> runs the loop for the offsets \<open>n - 1\<close> down to 0.\<close>

fun host_loop :: "char list \<Rightarrow> nat \<Rightarrow> nat \<Rightarrow> host_scan \<Rightarrow> host_scan option option" where
  "host_loop h host_len 0 st = Some (Some st)"
| "host_loop h host_len (Suc i) st = (case byte_at h i of
       None \<Rightarrow> None
     | Some c \<Rightarrow> (case (case stage st of TOPLABEL \<Rightarrow> toplabel_step h host_len i c st
                                     | DOMAINLABEL \<Rightarrow> domainlabel_step h i c st) of
           None \<Rightarrow> None
         | Some None \<Rightarrow> Some None
         | Some (Some st) \<Rightarrow> host_loop h host_len i st))"

definition host_scan_init :: host_scan where
  "host_scan_init = \<lparr>stage = TOPLABEL, label_len = 0, is_ip = -1, level = 0\<rparr>"

text \<open>The tests after the loop.\<close>

definition host_verdict :: "host_scan \<Rightarrow> int" where
  "host_verdict st = (if is_ip st = 1 \<and> level st \<noteq> 3 then -1 else if label_len st = 0 then -1 else 0)"

definition check_bracketed :: "char list \<Rightarrow> int option" where
  "check_bracketed h = do {
     stop \<leftarrow> ipv6_loop h 1 0;
     case stop of
       None \<Rightarrow> Some (-1)
     | Some c \<Rightarrow> do {
         x \<leftarrow> byte_at h c;
         if x = NUL then Some (-1)
         else do {
           y \<leftarrow> byte_at h (c + 1);
           if y = CHR '':'' then port_loop h (c + 2) else Some 0 } } }"

definition check_name :: "char list \<Rightarrow> nat \<Rightarrow> int option" where
  "check_name h host_len =
     (if host_len = 0 then Some (-1)
      else do {
        e \<leftarrow> byte_at h (host_len - 1);
        let host_len = (if e = CHR ''.'' then host_len - 1 else host_len);
        st \<leftarrow> host_loop h host_len host_len host_scan_init;
        Some (case st of None \<Rightarrow> -1 | Some st \<Rightarrow> host_verdict st) })"

definition request_check_hostname :: "char list option \<Rightarrow> int option" where
  "request_check_hostname host = (case host of
       None \<Rightarrow> Some 0
     | Some h \<Rightarrow>
         if h = [] then Some 0
         else if hd h = CHR ''['' then check_bracketed h
         else (case index_of (CHR '':'') (take (length h - 1) h) of
             None \<Rightarrow> check_name h (length h - 1)
           | Some colon \<Rightarrow> do {
               p \<leftarrow> port_loop h (colon + 1);
               if p \<noteq> 0 then Some (-1) else check_name h colon }))"

section \<open>The grammar\<close>

text \<open>
  Comments in the code give the intended grammar.  This is the accepted one: labels may end
  in a hyphen, one or two dots may follow the name, address parts are not bounded, and
  anything but a port follows a bracketed address unchecked.
\<close>

definition label_char :: "char \<Rightarrow> bool" where
  "label_char c \<longleftrightarrow> c = CHR ''-'' \<or> light_isalnum (schar c)"

definition domain_ok :: "char list \<Rightarrow> bool" where
  "domain_ok l \<longleftrightarrow> l \<noteq> [] \<and> hd l \<noteq> CHR ''-'' \<and> list_all label_char l"

definition top_ok :: "char list \<Rightarrow> bool" where
  "top_ok l \<longleftrightarrow> l \<noteq> [] \<and> light_isalpha (schar (hd l)) \<and> list_all label_char l"

definition number_ok :: "char list \<Rightarrow> bool" where
  "number_ok l \<longleftrightarrow> l \<noteq> [] \<and> list_all (\<lambda>c. light_isdigit (schar c)) l"

definition labels_ok :: "char list list \<Rightarrow> bool" where
  "labels_ok ls \<longleftrightarrow> list_all domain_ok (butlast ls) \<and> top_ok (last ls) \<or> length ls = 4 \<and> list_all number_ok ls"

definition strip_dot :: "char list \<Rightarrow> char list" where
  "strip_dot s = (if s \<noteq> [] \<and> last s = CHR ''.'' then butlast s else s)"

definition name_ok :: "char list \<Rightarrow> bool" where
  "name_ok s \<longleftrightarrow> labels_ok (split_on (CHR ''.'') (strip_dot (strip_dot s)))"

definition port_ok :: "char list \<Rightarrow> bool" where
  "port_ok s \<longleftrightarrow> list_all (\<lambda>c. light_isdigit (schar c)) s"

definition bracketed_ok :: "char list \<Rightarrow> bool" where
  "bracketed_ok s = (case index_of (CHR '']'') s of
       None \<Rightarrow> False
     | Some i \<Rightarrow> list_all (\<lambda>c. c = CHR '':'' \<or> light_isxdigit (schar c)) (take i s) \<and>
         length (filter (\<lambda>c. c = CHR '':'') (take i s)) \<le> 7 \<and>
         (case drop (i + 1) s of c # port \<Rightarrow> c = CHR '':'' \<longrightarrow> port_ok port | [] \<Rightarrow> True))"

definition host_ok :: "char list \<Rightarrow> bool" where
  "host_ok s = (case s of
       [] \<Rightarrow> False
     | c # t \<Rightarrow>
         if c = CHR ''['' then bracketed_ok t
         else (case index_of (CHR '':'') s of
             None \<Rightarrow> name_ok s
           | Some i \<Rightarrow> name_ok (take i s) \<and> port_ok (drop (i + 1) s)))"

section \<open>The scan accepts the grammar\<close>

definition host_step :: "char list \<Rightarrow> nat \<Rightarrow> nat \<Rightarrow> char \<Rightarrow> host_scan \<Rightarrow> host_scan option option" where
  "host_step h host_len i c st =
     (case stage st of TOPLABEL \<Rightarrow> toplabel_step h host_len i c st | DOMAINLABEL \<Rightarrow> domainlabel_step h i c st)"

lemma byte_at_mid [simp]: "byte_at (a @ c # r) (length a) = Some c" "byte_at (a @ b # c # r) (Suc (length a)) = Some c"
  by (simp_all add: byte_at_def nth_append)

lemma host_loop_step: "host_loop (a @ c # r) hl (Suc (length a)) st =
   (case host_step (a @ c # r) hl (length a) c st of
      Some (Some st') \<Rightarrow> host_loop (a @ c # r) hl (length a) st' | x \<Rightarrow> x)"
  by (simp add: host_step_def split: option.splits)

declare host_loop.simps(2) [simp del]

definition outcome :: "host_scan option option \<Rightarrow> int option" where
  "outcome x = map_option (\<lambda>st. case st of None \<Rightarrow> -1 | Some st \<Rightarrow> host_verdict st) x"

lemma outcome_simps [simp]: "outcome (Some None) = Some (-1)" "outcome (Some (Some st)) = Some (host_verdict st)"
  by (simp_all add: outcome_def)

text \<open>Running over the characters of one label that is not the first.\<close>

lemma domain_run:
  assumes "CHR ''.'' \<notin> set l" and "a \<noteq> []" and "stage st = DOMAINLABEL" and "is_ip st = 0"
  shows "host_loop (a @ l @ r) hl (length a + length l) st =
    (if list_all label_char l then host_loop (a @ l @ r) hl (length a) (st\<lparr>label_len := label_len st + int (length l)\<rparr>)
     else Some None)"
  using assms
proof (induction l arbitrary: r st rule: rev_induct)
  case (snoc x l)
  have "host_loop ((a @ l) @ x # r) hl (Suc (length (a @ l))) st =
    (if label_char x then host_loop ((a @ l) @ x # r) hl (length (a @ l)) (st\<lparr>label_len := label_len st + 1\<rparr>) else Some None)"
    using snoc.prems by (subst host_loop_step) (auto simp: host_step_def domainlabel_step_def label_char_def)
  with snoc.IH[of "st\<lparr>label_len := label_len st + 1\<rparr>" "x # r"] snoc.prems show ?case by (simp add: add_ac)
qed simp

lemma number_run:
  assumes "CHR ''.'' \<notin> set l" and "stage st = DOMAINLABEL" and "is_ip st = 1"
  shows "host_loop (a @ l @ r) hl (length a + length l) st =
    (if list_all (\<lambda>c. light_isdigit (schar c)) l
     then host_loop (a @ l @ r) hl (length a) (st\<lparr>label_len := label_len st + int (length l)\<rparr>) else Some None)"
  using assms
proof (induction l arbitrary: r st rule: rev_induct)
  case (snoc x l)
  have "host_loop ((a @ l) @ x # r) hl (Suc (length (a @ l))) st =
    (if light_isdigit (schar x) then host_loop ((a @ l) @ x # r) hl (length (a @ l)) (st\<lparr>label_len := label_len st + 1\<rparr>)
     else Some None)"
    using snoc.prems by (subst host_loop_step) (auto simp: host_step_def domainlabel_step_def)
  with snoc.IH[of "st\<lparr>label_len := label_len st + 1\<rparr>" "x # r"] snoc.prems show ?case by (simp add: add_ac)
qed simp

lemma top_run:
  assumes "CHR ''.'' \<notin> set l" and "a \<noteq> []" and "stage st = TOPLABEL" and "is_ip st \<in> {-1, 0}"
  shows "host_loop (a @ l @ r) hl (length a + length l) st =
    (if list_all label_char l
     then host_loop (a @ l @ r) hl (length a) (st\<lparr>label_len := label_len st + int (length l),
         is_ip := (if list_all (\<lambda>c. light_isdigit (schar c)) l then is_ip st else 0)\<rparr>)
     else Some None)"
  using assms
proof (induction l arbitrary: r st rule: rev_induct)
  case (snoc x l)
  let ?st = "st\<lparr>label_len := label_len st + 1, is_ip := (if light_isdigit (schar x) then is_ip st else 0)\<rparr>"
  have dig: "light_isdigit (schar x) \<Longrightarrow> label_char x" by (simp add: label_char_def light_isalnum_def)
  have "toplabel_step h hl i x st = (if label_char x then Some (Some ?st) else Some None)" if "i \<noteq> 0" for h i
    using snoc.prems that dig unfolding toplabel_step_def label_char_def by (cases st) auto
  with snoc.prems have "host_loop ((a @ l) @ x # r) hl (Suc (length (a @ l))) st =
    (if label_char x then host_loop ((a @ l) @ x # r) hl (length (a @ l)) ?st else Some None)"
    by (subst host_loop_step) (simp add: host_step_def)
  with snoc.IH[of ?st "x # r"] snoc.prems show ?case by (simp add: add_ac)
qed simp

text \<open>The first label, whose first character is met at offset 0.\<close>

lemma domain_first:
  assumes "CHR ''.'' \<notin> set l" and "stage st = DOMAINLABEL" and "is_ip st = 0" and "label_len st = 0"
  shows "outcome (host_loop (l @ r) hl (length l) st) = Some (if domain_ok l then 0 else -1)"
proof (cases l)
  case Nil
  with assms show ?thesis by (simp add: host_verdict_def domain_ok_def)
next
  case (Cons c l')
  have run: "host_loop ([c] @ l' @ r) hl (length [c] + length l') st = (if list_all label_char l'
      then host_loop ([c] @ l' @ r) hl (length [c]) (st\<lparr>label_len := label_len st + int (length l')\<rparr>) else Some None)"
    using assms Cons by (intro domain_run) auto
  have "host_loop (c # l' @ r) hl (Suc 0) st' = (if light_isalnum (schar c)
      then Some (Some (st'\<lparr>label_len := label_len st' + 1\<rparr>)) else Some None)"
    if "stage st' = DOMAINLABEL" "is_ip st' = 0" for st'
    using host_loop_step[of "[]" c "l' @ r" hl st'] that assms(1) Cons
    by (auto simp: host_step_def domainlabel_step_def)
  moreover have "light_isalnum (schar c) \<longleftrightarrow> label_char c \<and> c \<noteq> CHR ''-''"
    by (auto simp: label_char_def light_isalnum_char digit_chars_def upper_letters_def lower_letters_def)
  ultimately show ?thesis using run assms Cons by (auto simp: host_verdict_def domain_ok_def)
qed

lemma number_first:
  assumes "CHR ''.'' \<notin> set l" and "stage st = DOMAINLABEL" and "is_ip st = 1" and "label_len st = 0"
  shows "outcome (host_loop (l @ r) hl (length l) st) = Some (if number_ok l \<and> level st = 3 then 0 else -1)"
  using number_run[of l st "[]" r hl] assms by (auto simp: host_verdict_def number_ok_def)

lemma domain_labels:
  assumes "stage st = DOMAINLABEL" and "is_ip st = 0" and "label_len st = 0"
  shows "outcome (host_loop (t @ r) hl (length t) st) = Some (if list_all domain_ok (split_on (CHR ''.'') t) then 0 else -1)"
  using assms
proof (induction t arbitrary: r st rule: length_induct)
  case (1 t)
  show ?case
  proof (cases rule: split_on_cases[of "CHR ''.''" t])
    case last
    with 1 domain_first[of t st r hl] show ?thesis by simp
  next
    case (more a b)
    have run: "host_loop ((a @ ''.'') @ b @ r) hl (length (a @ ''.'') + length b) st = (if list_all label_char b
        then host_loop ((a @ ''.'') @ b @ r) hl (length (a @ ''.'')) (st\<lparr>label_len := label_len st + int (length b)\<rparr>)
        else Some None)"
      using 1 more by (intro domain_run) auto
    let ?st = "st\<lparr>label_len := int (length b)\<rparr>"
    have dot: "host_loop (a @ CHR ''.'' # b @ r) hl (Suc (length a)) ?st =
        (if b = [] \<or> hd b = CHR ''-'' then Some None
         else host_loop (a @ CHR ''.'' # b @ r) hl (length a) (st\<lparr>label_len := 0, level := level st + 1\<rparr>))"
      using 1(2-) by (subst host_loop_step) (cases b; simp add: host_step_def domainlabel_step_def)
    have "outcome (host_loop (a @ CHR ''.'' # b @ r) hl (length a) (st\<lparr>label_len := 0, level := level st + 1\<rparr>)) =
        Some (if list_all domain_ok (split_on (CHR ''.'') a) then 0 else -1)"
      using 1 more by simp
    with run dot 1(4) show ?thesis
      unfolding more(3) by (auto simp: more(1) domain_ok_def[of b])
  qed
qed

lemma number_labels:
  assumes "stage st = DOMAINLABEL" and "is_ip st = 1" and "label_len st = 0"
  shows "outcome (host_loop (t @ r) hl (length t) st) = Some (if list_all number_ok (split_on (CHR ''.'') t) \<and>
    level st + int (length (split_on (CHR ''.'') t)) = 4 then 0 else -1)"
  using assms
proof (induction t arbitrary: r st rule: length_induct)
  case (1 t)
  show ?case
  proof (cases rule: split_on_cases[of "CHR ''.''" t])
    case last
    with 1 number_first[of t st r hl] show ?thesis by auto
  next
    case (more a b)
    have run: "host_loop ((a @ ''.'') @ b @ r) hl (length (a @ ''.'') + length b) st =
        (if list_all (\<lambda>c. light_isdigit (schar c)) b
        then host_loop ((a @ ''.'') @ b @ r) hl (length (a @ ''.'')) (st\<lparr>label_len := label_len st + int (length b)\<rparr>)
        else Some None)"
      using 1 more by (intro number_run) auto
    let ?st = "st\<lparr>label_len := int (length b)\<rparr>"
    have dot: "host_loop (a @ CHR ''.'' # b @ r) hl (Suc (length a)) ?st =
        (if b = [] then Some None
         else host_loop (a @ CHR ''.'' # b @ r) hl (length a) (st\<lparr>label_len := 0, level := level st + 1\<rparr>))"
      using 1(2-) by (subst host_loop_step) (cases b; simp add: host_step_def domainlabel_step_def)
    have "outcome (host_loop (a @ CHR ''.'' # b @ r) hl (length a) (st\<lparr>label_len := 0, level := level st + 1\<rparr>)) =
        Some (if list_all number_ok (split_on (CHR ''.'') a) \<and>
          level st + 1 + int (length (split_on (CHR ''.'') a)) = 4 then 0 else -1)"
      using 1 more by simp
    with run dot 1(4) show ?thesis
      unfolding more(3) by (auto simp: more(1) number_ok_def[of b])
  qed
qed

lemma top_first:
  assumes "CHR ''.'' \<notin> set l" and "stage st = TOPLABEL" and "is_ip st = -1" and "label_len st = 0"
  shows "outcome (host_loop (l @ r) hl (length l) st) = Some (if top_ok l then 0 else -1)"
proof (cases l)
  case Nil
  with assms show ?thesis by (simp add: host_verdict_def top_ok_def)
next
  case (Cons c l')
  have run: "host_loop ([c] @ l' @ r) hl (length [c] + length l') st = (if list_all label_char l'
      then host_loop ([c] @ l' @ r) hl (length [c]) (st\<lparr>label_len := label_len st + int (length l'),
         is_ip := (if list_all (\<lambda>c. light_isdigit (schar c)) l' then is_ip st else 0)\<rparr>) else Some None)"
    using assms Cons by (intro top_run) auto
  have "host_loop (c # l' @ r) hl (Suc 0) st' = (if light_isalpha (schar c)
      then Some (Some (st'\<lparr>label_len := label_len st' + 1\<rparr>)) else Some None)"
    if "stage st' = TOPLABEL" for st'
    using host_loop_step[of "[]" c "l' @ r" hl st'] that assms(1) Cons
    by (auto simp: host_step_def toplabel_step_def)
  moreover have "light_isalpha (schar c) \<Longrightarrow> label_char c"
    by (simp add: label_char_def light_isalnum_def)
  ultimately show ?thesis using run assms Cons by (auto simp: host_verdict_def top_ok_def)
qed

lemma digit_hd: "b \<noteq> [] \<Longrightarrow> list_all (\<lambda>c. light_isdigit (schar c)) b \<Longrightarrow> light_isdigit (schar (hd b)) \<and> hd b \<noteq> CHR ''-''"
  by (cases b) (auto simp: light_isdigit_char digit_chars_def)

lemma digits_labels: "list_all (\<lambda>c. light_isdigit (schar c)) b \<Longrightarrow> list_all label_char b"
  by (auto simp: list_all_iff label_char_def light_isalnum_def)

lemma digit_not_alpha: "light_isdigit (schar c) \<Longrightarrow> \<not> light_isalpha (schar c)"
  by (auto simp: light_isdigit_char light_isalpha_char digit_chars_def upper_letters_def lower_letters_def)

lemma top_labels:
  assumes st: "stage st = TOPLABEL" "is_ip st = -1" "label_len st = 0" "level st = 0"
    and hl: "length t = hl \<and> (t = [] \<or> last t \<noteq> CHR ''.'') \<or> length t < hl"
  shows "outcome (host_loop (t @ r) hl (length t) st) = Some (if labels_ok (split_on (CHR ''.'') t) then 0 else -1)"
proof (cases rule: split_on_cases[of "CHR ''.''" t])
  case last
  with top_first[OF _ st(1-3), of t r hl] show ?thesis by (auto simp: labels_ok_def)
next
  case (more a b)
  define digits where "digits = list_all (\<lambda>c. light_isdigit (schar c)) b"
  define st1 where "st1 = st\<lparr>label_len := int (length b), is_ip := (if digits then -1 else 0)\<rparr>"
  define st2 where "st2 = st\<lparr>stage := DOMAINLABEL, label_len := 0, level := 1, is_ip := (if digits then 1 else 0)\<rparr>"
  have pos: "length a \<noteq> hl - Suc 0" using hl more(1) by (cases b) auto
  have run: "host_loop ((a @ ''.'') @ b @ r) hl (length (a @ ''.'') + length b) st = (if list_all label_char b
      then host_loop ((a @ ''.'') @ b @ r) hl (length (a @ ''.'')) st1 else Some None)"
    using top_run[of b "a @ ''.''" st r hl] st more(2) by (simp add: st1_def digits_def)
  have dot: "host_loop (a @ CHR ''.'' # b @ r) hl (Suc (length a)) st1 =
      (if b = [] \<or> \<not> digits \<and> \<not> light_isalpha (schar (hd b)) then Some None
       else host_loop (a @ CHR ''.'' # b @ r) hl (length a) st2)"
    using pos st digit_hd[of b] unfolding digits_def[symmetric]
    by (subst host_loop_step) (cases b; cases st; simp add: host_step_def toplabel_step_def st1_def st2_def)
  have "outcome (host_loop (a @ CHR ''.'' # b @ r) hl (length a) st2) =
      Some (if (if digits then list_all number_ok (split_on (CHR ''.'') a) \<and> length (split_on (CHR ''.'') a) = 3
                else list_all domain_ok (split_on (CHR ''.'') a)) then 0 else -1)"
    using number_labels[of st2 a "CHR ''.'' # b @ r" hl] domain_labels[of st2 a "CHR ''.'' # b @ r" hl]
    by (auto simp: st2_def)
  moreover have "number_ok b \<longleftrightarrow> b \<noteq> [] \<and> digits" "digits \<Longrightarrow> b \<noteq> [] \<Longrightarrow> \<not> top_ok b"
    "top_ok b \<longleftrightarrow> b \<noteq> [] \<and> light_isalpha (schar (hd b)) \<and> list_all label_char b" "digits \<Longrightarrow> list_all label_char b"
    using digit_hd[of b] digit_not_alpha[of "hd b"] digits_labels[of b]
    by (auto simp: number_ok_def digits_def top_ok_def)
  ultimately show ?thesis using run dot
    unfolding more(3) by (auto simp: more(1) labels_ok_def)
qed

lemma check_name_ok:
  assumes "s \<noteq> []" and "h = s @ r" and "r \<noteq> []"
  shows "check_name h (length s) = Some (if name_ok s then 0 else -1)"
proof -
  define t where "t = strip_dot s"
  define u where "u = strip_dot t"
  have hs: "byte_at h (length s - 1) = Some (last s)"
    using assms by (cases s rule: rev_cases) (simp_all add: byte_at_def nth_append)
  have len: "(if last s = CHR ''.'' then length s - 1 else length s) = length t"
    using assms(1) by (simp add: t_def strip_dot_def)
  have "s = t \<or> s = t @ ''.''"
    using assms(1) by (cases s rule: rev_cases) (auto simp: t_def strip_dot_def)
  then obtain r' where r': "h = t @ r'" using assms(2) by auto
  have "outcome (host_loop h (length t) (length t) host_scan_init) = Some (if labels_ok (split_on (CHR ''.'') u) then 0 else -1)"
  proof (cases "t \<noteq> [] \<and> last t = CHR ''.''")
    case False
    then have "u = t" by (auto simp: u_def strip_dot_def)
    with False show ?thesis unfolding r' by (simp add: top_labels host_scan_init_def)
  next
    case True
    then have t: "t = u @ ''.''" by (metis append_butlast_last_id strip_dot_def u_def)
    then have "host_loop h (length t) (length t) host_scan_init = (if u = [] then Some None
        else host_loop h (length t) (length u) host_scan_init)"
      unfolding r' using host_loop_step[of u "CHR ''.''" r' "length t" host_scan_init]
      by (simp add: host_step_def toplabel_step_def host_scan_init_def)
    moreover have "outcome (host_loop h (length t) (length u) host_scan_init) =
        Some (if labels_ok (split_on (CHR ''.'') u) then 0 else -1)"
      unfolding r' t by (simp add: top_labels host_scan_init_def)
    ultimately show ?thesis by (auto simp: labels_ok_def top_ok_def number_ok_def)
  qed
  then obtain x where x: "host_loop h (length t) (length t) host_scan_init = Some x"
    "(case x of None \<Rightarrow> -1 | Some st \<Rightarrow> host_verdict st) = (if name_ok s then 0 else -1)"
    by (auto simp: outcome_def name_ok_def t_def u_def)
  have "check_name h (length s) = do {
      st \<leftarrow> host_loop h (length t) (length t) host_scan_init;
      Some (case st of None \<Rightarrow> -1 | Some st \<Rightarrow> host_verdict st) }"
    using assms(1) unfolding check_name_def hs Let_def bind.bind_lunit len[symmetric] by simp
  with x show ?thesis by simp
qed

section \<open>Ports and bracketed addresses\<close>

lemma port_loop_ok: "NUL \<notin> set p \<Longrightarrow> port_loop (a @ p @ [NUL]) (length a) = Some (if port_ok p then 0 else -1)"
proof (induction p arbitrary: a)
  case Nil
  then show ?case by (subst port_loop.simps) (simp add: port_ok_def byte_at_def nth_append)
next
  case (Cons c p)
  from Cons.prems Cons.IH[of "a @ [c]"] show ?case
    by (subst port_loop.simps) (auto simp: port_ok_def)
qed

definition address_char :: "char \<Rightarrow> bool" where
  "address_char c \<longleftrightarrow> c = CHR '':'' \<or> light_isxdigit (schar c)"

definition colons :: "char list \<Rightarrow> nat" where
  "colons s = length (filter (\<lambda>c. c = CHR '':'') s)"

lemma hex_char_facts: "light_isxdigit (schar c) \<Longrightarrow> c \<noteq> NUL \<and> c \<noteq> CHR '']'' \<and> c \<noteq> CHR '':''"
  by (auto simp: light_isxdigit_char digit_chars_def)

lemma ipv6_loop_ok:
  assumes "NUL \<notin> set p" and "CHR '']'' \<notin> set p" and "x \<in> {NUL, CHR '']''}" and "0 \<le> n" and "n \<le> 7"
  shows "ipv6_loop (a @ p @ x # r) (length a) n =
    Some (if list_all address_char p \<and> n + int (colons p) \<le> 7 then Some (length a + length p) else None)"
  using assms
proof (induction p arbitrary: a n)
  case Nil
  then show ?case by (subst ipv6_loop.simps) (auto simp: colons_def)
next
  case (Cons c p)
  have "ipv6_loop (a @ (c # p) @ x # r) (length a) n =
    (if c = CHR '':'' then if n + 1 > 7 then Some None else ipv6_loop ((a @ [c]) @ p @ x # r) (length (a @ [c])) (n + 1)
     else if \<not> light_isxdigit (schar c) then Some None else ipv6_loop ((a @ [c]) @ p @ x # r) (length (a @ [c])) n)"
    using Cons.prems by (subst ipv6_loop.simps) auto
  note step = this
  have cs: "colons (c # p) = (if c = CHR '':'' then Suc (colons p) else colons p)" by (simp add: colons_def)
  show ?case
  proof (cases "c = CHR '':''")
    case True
    show ?thesis
    proof (cases "n + 1 > 7")
      case False
      with Cons.IH[of "n + 1" "a @ [c]"] Cons.prems True cs step show ?thesis by (simp add: address_char_def)
    qed (use step True cs Cons.prems in \<open>simp\<close>)
  next
    case False
    with Cons.IH[of n "a @ [c]"] Cons.prems cs step show ?thesis by (simp add: address_char_def)
  qed
qed

lemma bracketed_ok_alt: "bracketed_ok s = (case index_of (CHR '']'') s of None \<Rightarrow> False | Some i \<Rightarrow>
   list_all address_char (take i s) \<and> colons (take i s) \<le> 7 \<and>
   (case drop (i + 1) s of c # port \<Rightarrow> c = CHR '':'' \<longrightarrow> port_ok port | [] \<Rightarrow> True))"
  unfolding bracketed_ok_def colons_def address_char_def by (simp split: option.split)

lemma check_bracketed_ok:
  assumes "NUL \<notin> set s"
  shows "check_bracketed (terminated (CHR ''['' # s)) = Some (if bracketed_ok s then 0 else -1)"
proof (cases "CHR '']'' \<in> set s")
  case False
  then have "ipv6_loop ([CHR ''[''] @ s @ NUL # []) (length [CHR ''[''] ) 0 =
      Some (if list_all address_char s \<and> 0 + int (colons s) \<le> 7 then Some (length [CHR ''[''] + length s) else None)"
    using assms by (intro ipv6_loop_ok) auto
  then have "check_bracketed (terminated (CHR ''['' # s)) = Some (-1)"
    by (auto simp: check_bracketed_def terminated_def byte_at_def nth_append)
  moreover have "\<not> bracketed_ok s"
    using False by (simp add: bracketed_ok_def index_of_None[THEN iffD2])
  ultimately show ?thesis by simp
next
  case True
  then obtain p q where s: "s = p @ CHR '']'' # q" "CHR '']'' \<notin> set p" by (meson split_list_first)
  have loop: "ipv6_loop (CHR ''['' # p @ CHR '']'' # q @ [NUL]) (Suc 0) 0 =
      Some (if list_all address_char p \<and> colons p \<le> 7 then Some (Suc (length p)) else None)"
    using ipv6_loop_ok[of p "CHR '']''" 0 "[CHR ''['']" "q @ [NUL]"] assms s by simp
  have port: "port_loop (CHR ''['' # p @ CHR '']'' # CHR '':'' # t @ [NUL]) (Suc (Suc (Suc (length p)))) =
      Some (if port_ok t then 0 else -1)" if "q = CHR '':'' # t" for t
    using port_loop_ok[of t "CHR ''['' # p @ '']:''"] assms s that by simp
  have "bracketed_ok s \<longleftrightarrow> list_all address_char p \<and> colons p \<le> 7 \<and>
      (case q of c # port \<Rightarrow> c = CHR '':'' \<longrightarrow> port_ok port | [] \<Rightarrow> True)"
    unfolding bracketed_ok_alt s(1) by (simp add: index_of_split[OF s(2)])
  with loop port show ?thesis
    unfolding s(1) by (auto simp: check_bracketed_def terminated_def byte_at_def nth_append split: list.splits)
qed

lemma check_hostname_ok:
  assumes "NUL \<notin> set s"
  shows "request_check_hostname (Some (terminated s)) = Some (if host_ok s then 0 else -1)"
proof (cases s)
  case Nil
  then show ?thesis by (simp add: request_check_hostname_def host_ok_def terminated_def check_name_def)
next
  case (Cons c t)
  show ?thesis
  proof (cases "c = CHR ''[''")
    case True
    with check_bracketed_ok[of t] assms Cons show ?thesis
      by (simp add: request_check_hostname_def host_ok_def) (simp add: terminated_def)
  next
    case False
    then have hd: "hd (terminated s) \<noteq> CHR ''[''" "take (length (terminated s) - 1) (terminated s) = s"
      using Cons by (simp_all add: terminated_def)
    show ?thesis
    proof (cases "CHR '':'' \<in> set s")
      case no: False
      then have "index_of (CHR '':'') s = None" by (simp add: index_of_None)
      with hd False Cons check_name_ok[of s "terminated s" "[NUL]"] show ?thesis
        unfolding request_check_hostname_def host_ok_def by (simp add: terminated_def)
    next
      case yes: True
      then obtain p q where s: "s = p @ CHR '':'' # q" "CHR '':'' \<notin> set p" by (meson split_list_first)
      have ix: "index_of (CHR '':'') s = Some (length p)" using s index_of_split by simp
      have port: "port_loop (terminated s) (length p + 1) = Some (if port_ok q then 0 else -1)"
        using port_loop_ok[of q "p @ '':''"] assms s by (simp add: terminated_def)
      have name: "check_name (terminated s) (length p) = Some (if name_ok p then 0 else -1)"
      proof (cases "p = []")
        case True
        then show ?thesis by (simp add: check_name_def name_ok_def strip_dot_def labels_ok_def top_ok_def number_ok_def)
      qed (use check_name_ok[of p "terminated s" "CHR '':'' # q @ [NUL]"] s in \<open>simp add: terminated_def\<close>)
      have "request_check_hostname (Some (terminated s)) = Some (if name_ok p \<and> port_ok q then 0 else -1)"
        using hd ix port name unfolding request_check_hostname_def by simp
      moreover have "host_ok s \<longleftrightarrow> name_ok p \<and> port_ok q"
        using ix False Cons s(1) unfolding host_ok_def by (cases p) auto
      ultimately show ?thesis by simp
    qed
  qed
qed

section \<open>Properties\<close>

text \<open>
  C11: on every header value \<open>request_check_hostname\<close> stays within the value and accepts exactly
  the hosts of the grammar \<open>host_ok\<close>.
\<close>

theorem check_hostname_grammar:
  assumes "NUL \<notin> set s"
  shows "request_check_hostname (Some (terminated s)) = Some (if host_ok s then 0 else -1)"
  using assms by (rule check_hostname_ok)

lemma check_hostname_grammar_witness:
  "request_check_hostname (Some (terminated ''a.b-.com.:80'')) = Some (if host_ok ''a.b-.com.:80'' then 0 else -1) \<and>
   host_ok ''a.b-.com.:80''"
  using check_hostname_grammar[of "''a.b-.com.:80''"]
  by (simp add: host_ok_def name_ok_def strip_dot_def labels_ok_def domain_ok_def top_ok_def label_char_def
      port_ok_def light_isalnum_char light_isalpha_char light_isdigit_char digit_chars_def upper_letters_def lower_letters_def)

text \<open>Two deviations from the grammar in the code's comment.\<close>

lemma trailing_hyphen_accepted: "host_ok ''foo-.com''"
  by (simp add: host_ok_def name_ok_def strip_dot_def labels_ok_def domain_ok_def top_ok_def label_char_def
      light_isalnum_char light_isalpha_char digit_chars_def upper_letters_def lower_letters_def)

lemma junk_after_bracket_accepted: "host_ok ''[::1]/../etc''"
  by (simp add: host_ok_def bracketed_ok_def light_isxdigit_char digit_chars_def)

end
