(* ===== verification/Connection.thy ===== *)
theory Connection
  imports HeaderArray
begin

text \<open>
  \<open>connection_init\<close> and \<open>connection_reset\<close> of \<open>connections.c\<close> with the configuration they take
  from \<open>configfile.c\<close>: a new connection, and the state in which one is used for the next request.
\<close>

section \<open>The code\<close>

text \<open>\<open>config_setup_connection\<close> copies the global context of the configuration.\<close>

definition config_setup_connection :: "server \<Rightarrow> connection \<Rightarrow> connection" where
  "config_setup_connection srv con =
     con\<lparr>conf := default_conf srv, server_name := copy_bytes (default_server_name srv)\<rparr>"

text \<open>The record \<open>calloc\<close> leaves, with fresh buffers, arrays and queues.\<close>

definition connection_init :: "server \<Rightarrow> connection" where
  "connection_init srv = config_setup_connection srv
     \<lparr>address = 0, state = CON_STATE_CONNECT, read_idle_ts = 0, close_timeout_ts = 0, write_request_ts = 0,
      connection_start = 0, request_start = 0, request_count = 0, loops_per_request = 0,
      fd = 0, fde_ndx = -1, ndx = -1, is_readable = False, is_writable = False, keep_alive = 0,
      file_started = False, file_finished = False,
      write_queue = chunkqueue_init, read_queue = chunkqueue_init,
      request_content_queue = chunkqueue_init\<lparr>tempdirs := upload_tempdirs srv\<rparr>,
      traffic_limit_reached = False, bytes_written = 0, bytes_written_cur_second = 0, bytes_read = 0,
      bytes_header = 0, http_status = 0, parse_request = [], parsed_content_length = False,
      parsed_connection = False,
      req = \<lparr>request = [], uri = [], orig_uri = [], http_method = HTTP_METHOD_GET,
        http_version = HTTP_VERSION_1_0, request_line = [], http_host = Null, http_range = Null,
        http_content_type = Null, http_if_modified_since = Null, http_if_none_match = Null,
        headers = array_init, content_length = 0, pathinfo = []\<rparr>,
      con_uri = \<lparr>scheme = [], authority = [], uri_path = [], path_raw = [], query = []\<rparr>,
      physical = \<lparr>phys_path = [], basedir = [], doc_root = [], rel_path = [], phys_etag = []\<rparr>,
      response = \<lparr>resp_content_length = 0, resp_keep_alive = 0, resp_headers = array_init,
        transfer_encoding = False\<rparr>,
      header_len = 0, authed_user = [], environment = array_init, got_response = False,
      in_joblist = False, mode = DIRECT, conf = default_conf srv, server_name = [],
      error_handler = [], error_handler_saved_status = 0, in_error_handler = False,
      dst_addr = Other_Address, dst_addr_buf = [], srv_socket = None,
      cond_cache = replicate (length (contexts srv) + 1) \<lparr>cc_result = COND_RESULT_UNSET, cc_patterncount = 0,
        cc_matches = [], cc_comp_value = None, cc_comp_type = COMP_UNSET\<rparr>,
      conditional_is_valid = {},
      con_etag_flags = \<lparr>ETAG_USE_INODE = False, ETAG_USE_MTIME = False, ETAG_USE_SIZE = False\<rparr>\<rparr>"

definition reset_request :: "header_array \<Rightarrow> request_t \<Rightarrow> request_t" where
  "reset_request hs q =
     q\<lparr>http_method := HTTP_METHOD_UNSET, http_version := HTTP_VERSION_UNSET,
       http_if_modified_since := Null, http_if_none_match := Null,
       uri := [], request_line := [], pathinfo := [], request := [], orig_uri := [],
       http_host := Null, http_range := Null, http_content_type := Null, content_length := 0, headers := hs\<rparr>"

text \<open>
  \<open>plugins_reset\<close> is the reset hook of the plugins.  The result's first component is the names of
  the temporary files that are unlinked.
\<close>

definition connection_reset ::
    "(server \<Rightarrow> connection \<Rightarrow> connection) \<Rightarrow> server \<Rightarrow> connection \<Rightarrow> (char list list \<times> connection) option" where
  "connection_reset plugins_reset srv con = do {
     let con = plugins_reset srv con;
     let con = con\<lparr>is_readable := True, is_writable := True, http_status := 0, file_finished := False,
       file_started := False, got_response := False, parsed_content_length := False,
       parsed_connection := False, bytes_written := 0, bytes_written_cur_second := 0, bytes_read := 0,
       bytes_header := 0, loops_per_request := 0, mode := DIRECT\<rparr>;
     rh \<leftarrow> array_reset id (Some (headers (req con)));
     sh \<leftarrow> array_reset id (Some (resp_headers (response con)));
     eh \<leftarrow> array_reset id (Some (environment con));
     rh \<leftarrow> rh;
     sh \<leftarrow> sh;
     eh \<leftarrow> eh;
     (gone, wq) \<leftarrow> chunkqueue_reset (write_queue con);
     (gone', cq) \<leftarrow> chunkqueue_reset (request_content_queue con);
     let con = con\<lparr>req := reset_request rh (req con),
       response := \<lparr>resp_content_length = -1, resp_keep_alive = 0, resp_headers = sh, transfer_encoding = False\<rparr>,
       con_uri := \<lparr>scheme = [], authority = [], uri_path = [], path_raw = [], query = []\<rparr>,
       physical := \<lparr>phys_path = [], basedir = [], doc_root = [], rel_path = [], phys_etag = []\<rparr>,
       parse_request := [], authed_user := [], server_name := [], error_handler := [],
       environment := eh, write_queue := wq, request_content_queue := cq,
       header_len := 0, in_error_handler := False\<rparr>;
     Some (gone @ gone', config_setup_connection srv con) }"

section \<open>The state between two requests\<close>

text \<open>Header lists with arbitrary earlier contents, and queues of memory and file chunks.\<close>

definition no_unused :: "chunkqueue \<Rightarrow> bool" where
  "no_unused cq \<longleftrightarrow> (\<exists>cs. cq_rep cq cs \<and> (\<forall>c \<in> set cs. ctype c \<noteq> UNUSED_CHUNK))"

definition con_ok :: "connection \<Rightarrow> bool" where
  "con_ok con \<longleftrightarrow> filled (headers (req con)) \<and> filled (resp_headers (response con)) \<and> filled (environment con) \<and>
     no_unused (write_queue con) \<and> no_unused (request_content_queue con)"

text \<open>A connection without any trace of an earlier request.\<close>

definition fresh_request :: "connection \<Rightarrow> bool" where
  "fresh_request con \<longleftrightarrow> http_status con = 0 \<and> mode con = DIRECT \<and>
     a_used (headers (req con)) = 0 \<and> a_used (resp_headers (response con)) = 0 \<and> a_used (environment con) = 0 \<and>
     http_host (req con) = Null \<and> http_range (req con) = Null \<and> http_content_type (req con) = Null \<and>
     http_if_modified_since (req con) = Null \<and> http_if_none_match (req con) = Null \<and>
     content_length (req con) = 0 \<and> request (req con) = [] \<and> uri (req con) = [] \<and> phys_path (physical con) = [] \<and>
     authed_user con = [] \<and> \<not> file_finished con \<and> \<not> transfer_encoding (response con) \<and>
     chunkqueue_is_empty (write_queue con) \<and> chunkqueue_is_empty (request_content_queue con) \<and>
     bytes_in (request_content_queue con) = 0"

lemma con_ok_init: "con_ok (connection_init srv)"
proof -
  have "no_unused chunkqueue_init" using init_rep by (auto simp: no_unused_def)
  moreover have "cq_rep (chunkqueue_init\<lparr>tempdirs := d\<rparr>) []" for d
    using init_rep by (auto simp: cq_rep_def shape_def items_def)
  then have "no_unused (chunkqueue_init\<lparr>tempdirs := d\<rparr>)" for d
    by (auto simp: no_unused_def intro!: exI[of _ "[]"])
  ultimately show ?thesis
    by (simp add: con_ok_def connection_init_def config_setup_connection_def filled_init)
qed

lemma connection_reset_ok:
  assumes "con_ok (plugins_reset srv con)"
  shows "\<exists>gone con'. connection_reset plugins_reset srv con = Some (gone, con') \<and> fresh_request con' \<and> con_ok con'"
proof -
  let ?c = "plugins_reset srv con"
  from assms obtain ws cs where w: "cq_rep (write_queue ?c) ws" "\<forall>c \<in> set ws. ctype c \<noteq> UNUSED_CHUNK"
    "cq_rep (request_content_queue ?c) cs" "\<forall>c \<in> set cs. ctype c \<noteq> UNUSED_CHUNK"
    by (auto simp: con_ok_def no_unused_def)
  from chunkqueue_reset_empty_ok[OF w(1,2)] obtain g wq where
    1: "chunkqueue_reset (write_queue ?c) = Some (g, wq)" "cq_rep wq []" "chunkqueue_is_empty wq" by blast
  from chunkqueue_reset_empty_ok[OF w(3,4)] obtain g' cq where
    2: "chunkqueue_reset (request_content_queue ?c) = Some (g', cq)" "cq_rep cq []" "chunkqueue_is_empty cq" "bytes_in cq = 0"
    by blast
  from assms filled_reset[of "headers (req ?c)" id] obtain rh where
    3: "array_reset id (Some (headers (req ?c))) = Some (Some rh)" "filled rh" "a_used rh = 0"
    by (auto simp: con_ok_def valid_def)
  from assms filled_reset[of "resp_headers (response ?c)" id] obtain sh where
    4: "array_reset id (Some (resp_headers (response ?c))) = Some (Some sh)" "filled sh" "a_used sh = 0"
    by (auto simp: con_ok_def valid_def)
  from assms filled_reset[of "environment ?c" id] obtain eh where
    5: "array_reset id (Some (environment ?c)) = Some (Some eh)" "filled eh" "a_used eh = 0"
    by (auto simp: con_ok_def valid_def)
  have "no_unused wq" "no_unused cq" using 1(2) 2(2) by (auto simp: no_unused_def)
  with 1 2 3 4 5 show ?thesis
    by (simp add: connection_reset_def Let_def fresh_request_def con_ok_def reset_request_def config_setup_connection_def)
qed

text \<open>
  C12: resetting a connection between two requests is free of undefined behaviour and leaves no
  trace of the request before: no header, no pointer into the header list, no status, no body,
  and both queues empty, whatever state the request left behind.
\<close>

theorem connection_reset_forgets:
  assumes "con_ok (plugins_reset srv con)"
  shows "\<exists>gone con'. connection_reset plugins_reset srv con = Some (gone, con') \<and> fresh_request con' \<and> con_ok con'"
  using assms by (rule connection_reset_ok)

definition no_connections :: connections_list where
  "no_connections = \<lparr>con_ptr = [], con_size = 0, con_used = 0\<rparr>"

definition sample_server :: server where
  "sample_server = \<lparr>cur_ts = 0, con_opened = 0, con_read = 0, con_written = 0, con_closed = 0, cur_fds = 0,
     want_fds = 0, max_conns = 8, max_request_size = 0, split_vals = array_init, tmp_chunk_len = [],
     upload_tempdirs = None,
     default_conf = \<lparr>document_root = terminated ''/srv'', conf_error_handler = [], server_tag = [],
       errorfile_prefix = [], max_keep_alive_requests = 16, max_keep_alive_idle = 5, max_read_idle = 60, max_write_idle = 360,
       use_xattr = False, follow_symlink = True, range_requests = True,
       conf_etag_flags = \<lparr>ETAG_USE_INODE = True, ETAG_USE_MTIME = True, ETAG_USE_SIZE = True\<rparr>, kbytes_per_second = 0,
       global_kbytes_per_second = 0, is_ssl = False, allow_http11 = True,
       force_lowercase_filenames = False, global_bytes_per_second_cnt_ptr = 0\<rparr>,
     default_server_name = [], global_bytes_per_second_cnt = (\<lambda>_. 0), conns = no_connections,
     joblist = no_connections, fdwaitqueue = no_connections,
     srv_sockets = [\<lparr>sock_address = Inet 0 80, sock_fd = 4, sock_fde_ndx = -1, sock_is_ssl = False, srv_token = []\<rparr>], sockets_disabled = False,
     max_fds = 1024, srv_port = 80, ev = the (fdevent_init 1025 FDEVENT_HANDLER_POLL), ts_date_str = [],
     last_generated_date_ts = 0, mtime_cache = replicate 16 (0, []), srv_status = array_init,
     tmp_buf = [], cond_check_buf = [], contexts = []\<rparr>"

lemma connection_reset_forgets_witness:
  "\<exists>gone con'. connection_reset (\<lambda>_ con. con\<lparr>http_status := 404\<rparr>) sample_server (connection_init sample_server) =
     Some (gone, con') \<and> fresh_request con' \<and> con_ok con'"
  by (rule connection_reset_forgets) (use con_ok_init[of sample_server] in \<open>simp add: con_ok_def\<close>)

end
