(* ===== verification/Request.thy ===== *)
theory Request
  imports RequestHeaders Hostname Connection
begin

text \<open>
  \<open>http_request_parse\<close> of \<open>request.c\<close>: the request line, the header loop and the final
  checks, put together, with the properties of an accepted request.
\<close>

section \<open>The code\<close>

text \<open>The checks on the body's length, when there is a \<open>Content-Length\<close>.\<close>

definition content_checks :: "nat \<Rightarrow> bool \<Rightarrow> connection \<Rightarrow> int \<times> connection" where
  "content_checks limit length_set con =
     (let n = content_length (req con) in
      if length_set then
        if n > SSIZE_MAX then (0, refuse 413 False con)
        else if limit \<noteq> 0 \<and> n div 2 ^ 10 > limit then (0, refuse 413 False con)
        else if n \<noteq> 0 then (1, con)
        else (0, con)
      else (0, con))"

definition method_checks :: "nat \<Rightarrow> bool \<Rightarrow> connection \<Rightarrow> int \<times> connection" where
  "method_checks limit length_set con =
     (let m = http_method (req con); n = content_length (req con) in
      if m \<in> {HTTP_METHOD_GET, HTTP_METHOD_HEAD} then
        if length_set \<and> n \<noteq> 0 then (0, refuse 400 False con) else content_checks limit length_set con
      else if m = HTTP_METHOD_POST then
        if \<not> length_set then (0, refuse 411 False con) else content_checks limit length_set con
      else content_checks limit length_set con)"

definition host_checks :: "nat \<Rightarrow> bool \<Rightarrow> connection \<Rightarrow> (int \<times> connection) option" where
  "host_checks limit length_set con =
     (if http_host (req con) \<noteq> Null then do {
        h \<leftarrow> deref_buffer (headers (req con)) (http_host (req con));
        r \<leftarrow> request_check_hostname (Some h);
        if r \<noteq> 0 then Some (0, refuse 400 True con)
        else Some (method_checks limit length_set con) }
      else Some (method_checks limit length_set con))"

text \<open>Keep-alive is the default of HTTP/1.1, which needs a host.\<close>

definition final_checks :: "nat \<Rightarrow> keep_alive_wish \<Rightarrow> bool \<Rightarrow> connection \<Rightarrow> (int \<times> connection) option" where
  "final_checks limit wish length_set con =
     (if http_version (req con) = HTTP_VERSION_1_1 then do {
        let con = con\<lparr>keep_alive := (if wish \<noteq> HTTP_CONNECTION_CLOSE then 1 else 0)\<rparr>;
        no_host \<leftarrow> (if http_host (req con) = Null then Some True
                    else do { h \<leftarrow> deref_buffer (headers (req con)) (http_host (req con)); Some (h = []) });
        if no_host then Some (0, refuse 400 True con)
        else host_checks limit length_set con }
      else
        host_checks limit length_set
          (con\<lparr>keep_alive := (if wish = HTTP_CONNECTION_KEEPALIVE then 1 else 0)\<rparr>))"

definition start_state :: "char list \<Rightarrow> nat \<Rightarrow> nat \<Rightarrow> header_array \<Rightarrow> connection \<Rightarrow> parse_state" where
  "start_state p i first vals con =
     \<lparr>ps_bytes = p, ps_i = i, ps_first = first, is_key = True, key_len = 0, in_folding = False,
      ps_value = None, ps_key = None, keep_alive_set = HTTP_CONNECTION_UNSET, con_length_set = False,
      ps_done = False, ps_vals = vals, ps_con = con\<rparr>"

definition http_request_parse :: "server \<Rightarrow> connection \<Rightarrow> (int \<times> server \<times> connection) option" where
  "http_request_parse srv con = do {
     p \<leftarrow> parse_request_bytes con;
     let con = con\<lparr>parse_request := p\<rparr>;
     r \<leftarrow> request_line_loop p 0 0 0 0 0 con;
     case r of
       Inl con \<Rightarrow> Some (0, srv, con)
     | Inr (p, i, first, con) \<Rightarrow>
         if length (uri (req con)) = 1 then Some (0, srv, refuse 400 True con)
         else do {
           r \<leftarrow> header_loop (length p) (start_state p i first (split_vals srv) con);
           case r of
             Inl (vals, con) \<Rightarrow> Some (0, srv\<lparr>split_vals := vals\<rparr>, con)
           | Inr st \<Rightarrow> do {
               let con = (ps_con st)\<lparr>parse_request := ps_bytes st, header_len := ps_i st\<rparr>;
               (r, con) \<leftarrow> final_checks (max_request_size srv) (keep_alive_set st) (con_length_set st) con;
               Some (r, srv\<lparr>split_vals := ps_vals st\<rparr>, con) } } }"

definition http_request_header_finished :: "connection \<Rightarrow> bool option" where
  "http_request_header_finished con =
     (let r = request (req con) in
      if length r < 5 then Some False
      else if take 4 (drop (length r - 5) r) = [CR, LF, CR, LF] then Some True
      else do { s \<leftarrow> str_at r 0; Some (\<exists>k \<le> length s. is_prefix [CR, LF, CR, LF] (drop k s)) })"

section \<open>What the header loop leaves alone\<close>

text \<open>
  The loop does not change the request line's results; it gives up only with status 400 or 417, and
  the body's length stays the initial one until a \<open>Content-Length\<close> was seen.
\<close>

definition same_line :: "connection \<Rightarrow> connection \<Rightarrow> bool" where
  "same_line con con' \<longleftrightarrow> http_status con' = http_status con \<and> uri (req con') = uri (req con) \<and>
     orig_uri (req con') = orig_uri (req con) \<and> http_method (req con') = http_method (req con) \<and>
     http_version (req con') = http_version (req con) \<and> conf con' = conf con"

definition step_keeps :: "parse_state \<Rightarrow> parse_step \<Rightarrow> bool" where
  "step_keeps st r \<longleftrightarrow> (case r of
       None \<Rightarrow> True
     | Some (Inl (_, con)) \<Rightarrow> http_status con \<in> {400, 417}
     | Some (Inr st') \<Rightarrow> same_line (ps_con st) (ps_con st') \<and> (con_length_set st \<longrightarrow> con_length_set st') \<and>
         (con_length_set st' \<or> content_length (req (ps_con st')) = content_length (req (ps_con st))))"

lemma same_line_refl [simp]: "same_line con con"
  by (simp add: same_line_def)

lemma step_keeps_simps [simp]: "step_keeps st None" "step_keeps st (Some (Inr st))"
  by (simp_all add: step_keeps_def)

lemma refuse_status [simp]: "http_status (refuse n b con) = n"
  by (simp add: refuse_def nested_updates Let_def)

lemma abort_keeps [simp]: "step_keeps st (abort (refuse 400 b con) st')"
  by (simp add: step_keeps_def abort_def)

lemma store_header_keeps:
  "store_header ds con = Some (con', p) \<Longrightarrow> same_line con con' \<and> content_length (req con') = content_length (req con)"
  by (auto simp: store_header_def Let_def bind_eq_Some_conv same_line_def nested_updates)

lemma key_step_keeps: "step_keeps st (key_step st c)"
  by (simp add: key_step_def Let_def step_keeps_def abort_def split: option.splits)

lemma store_plain_keeps:
  assumes "same_line (ps_con st0) (ps_con st)" and "con_length_set st0 \<longrightarrow> con_length_set st"
    and "con_length_set st \<or> content_length (req (ps_con st)) = content_length (req (ps_con st0))"
  shows "step_keeps st0 (store_plain ds st)"
  using assms store_header_keeps
  by (cases "store_header ds (ps_con st)") (fastforce simp: store_plain_def step_keeps_def same_line_def)+

lemma store_once_keeps:
  assumes "\<And>p q. uri (setp p q) = uri q \<and> orig_uri (setp p q) = orig_uri q \<and> http_method (setp p q) = http_method q \<and>
    http_version (setp p q) = http_version q \<and> content_length (setp p q) = content_length q"
  shows "step_keeps st (store_once getp setp ds st)"
  using assms store_header_keeps
  by (cases "store_header ds (ps_con st)")
    (fastforce simp: store_once_def step_keeps_def same_line_def abort_def nested_updates)+

lemma store_and_abort_keeps:
  assumes "http_status con \<in> {400, 417}"
  shows "step_keeps st (do { (con, _) \<leftarrow> store_header ds con; abort con st' })"
  using assms store_header_keeps[of ds con]
  by (cases "store_header ds con") (auto simp: step_keeps_def abort_def same_line_def)

lemma header_field_keeps: "step_keeps st (header_field ds k v st)"
proof -
  have "step_keeps st (connection_header ds v st)"
    unfolding connection_header_def
    by (cases "array_reset id (Some (ps_vals st))")
      (auto simp: step_keeps_def[of st None] bind_eq_Some_conv split: bind_splits intro!: store_plain_keeps)
  moreover have "step_keeps st (content_length_header ds v st)"
    unfolding content_length_header_def Let_def
    by (auto simp: case_prod_unfold nested_updates same_line_def
        intro!: store_plain_keeps store_and_abort_keeps[unfolded case_prod_unfold])
  moreover have "step_keeps st (if_modified_since_header ds v st)"
    unfolding if_modified_since_header_def Let_def
    by (auto intro!: store_once_keeps split: bind_splits)
  moreover have "step_keeps st (range_header ds v st)"
    using store_header_keeps[of ds "ps_con st"] store_plain_keeps[of st st ds]
    unfolding range_header_def Let_def
    by (cases "store_header ds (ps_con st)")
      (auto simp: step_keeps_def same_line_def nested_updates abort_def)
  moreover have "step_keeps st (expect_header ds st)"
    unfolding expect_header_def by (intro store_and_abort_keeps) simp
  ultimately show ?thesis
    unfolding header_field_def Let_def by (auto intro!: store_once_keeps store_plain_keeps)
qed

lemma step_keeps_trans:
  assumes "step_keeps st r" and "same_line (ps_con st0) (ps_con st)" and "con_length_set st = con_length_set st0"
    and "content_length (req (ps_con st)) = content_length (req (ps_con st0))"
  shows "step_keeps st0 r"
  using assms by (auto simp: step_keeps_def same_line_def split: option.splits sum.splits)

lemma field_line_keeps: "step_keeps st (field_line st)"
proof -
  have "step_keeps st (header_field ds k v (st\<lparr>ps_key := a, ps_bytes := b, ps_con := upd_req (\<lambda>q. q\<lparr>headers := hs\<rparr>) (ps_con st)\<rparr>))"
    for ds k v a b hs
    by (rule step_keeps_trans[OF header_field_keeps]) (simp_all add: same_line_def nested_updates)
  then show ?thesis
    unfolding field_line_def Let_def
    by (auto simp: case_prod_unfold step_keeps_def[of st "Some (Inr (st\<lparr>ps_key := _, ps_bytes := _\<rparr>))"] split: bind_splits)
qed

lemma fold_line_keeps: "step_keeps st (fold_line st)"
  unfolding fold_line_def Let_def
  by (auto simp: case_prod_unfold append_value_def bind_eq_Some_conv split: option.splits bind_splits)
    (auto simp: step_keeps_def same_line_def)

lemma line_end_keeps: "step_keeps st (line_end st)"
proof -
  let ?st = "st\<lparr>ps_bytes := (ps_bytes st)[ps_i st := NUL, ps_i st + 1 := NUL]\<rparr>"
  have "step_keeps st (if in_folding ?st then fold_line ?st else field_line ?st)"
    using step_keeps_trans[OF fold_line_keeps, of st ?st] step_keeps_trans[OF field_line_keeps, of st ?st] by simp
  then show ?thesis
    unfolding line_end_def Let_def
    by (cases "if in_folding ?st then fold_line ?st else field_line ?st")
      (auto simp: step_keeps_def split: sum.splits)
qed

lemma header_step_keeps: "step_keeps st (header_step st)"
proof -
  have "step_keeps st (value_step st c)" for c
    unfolding value_step_def Let_def using line_end_keeps by (auto simp: step_keeps_def[of st "Some _"] split: option.splits)
  then show ?thesis
    unfolding header_step_def using key_step_keeps by (auto split: bind_splits)
qed

lemma header_loop_keeps: "step_keeps st (header_loop n st)"
proof (induction n arbitrary: st)
  case 0
  then show ?case by (subst header_loop.simps) auto
next
  case (Suc n)
  show ?case
  proof (cases "header_step st")
    case None
    then show ?thesis by (subst header_loop.simps) simp
  next
    case (Some r)
    show ?thesis
    proof (cases r)
      case (Inl x)
      with Some header_step_keeps[of st] show ?thesis by (subst header_loop.simps) simp
    next
      case (Inr st')
      from Suc[of "st'\<lparr>ps_i := ps_i st' + 1\<rparr>"] header_step_keeps[of st] Some Inr
      have "step_keeps st (header_loop n (st'\<lparr>ps_i := ps_i st' + 1\<rparr>))"
        by (auto simp: step_keeps_def same_line_def split: option.splits sum.splits)
      with Some Inr show ?thesis by (subst header_loop.simps) simp
    qed
  qed
qed

section \<open>What the request line establishes\<close>

definition line_result :: "connection \<Rightarrow> connection + char list \<times> nat \<times> nat \<times> connection \<Rightarrow> bool" where
  "line_result con x \<longleftrightarrow> (case x of
       Inl con' \<Rightarrow> http_status con' \<in> {400, 501, 505}
     | Inr (p', i', first', con') \<Rightarrow>
         http_status con' = 0 \<and> http_method (req con') \<noteq> HTTP_METHOD_UNSET \<and>
         (\<exists>u. uri (req con') = terminated u \<and> uri_ok u) \<and>
         content_length (req con') = content_length (req con) \<and> headers (req con') = headers (req con))"

lemma request_version_status: "request_version http11 s = Inl n \<Longrightarrow> n \<in> {400, 505}"
  by (auto simp: request_version_def split: if_splits option.splits)

lemma request_uri_step_result:
  assumes "request_uri_step p i at proto con = Some x" and "http_method (req con) \<noteq> HTTP_METHOD_UNSET"
  shows "line_result con x"
  using assms unfolding request_uri_step_def request_uri_bytes_def Let_def
  by (auto simp: line_result_def bind_eq_Some_conv nested_updates split: if_splits)

lemma line_result_cong: "line_result con x \<Longrightarrow> content_length (req con) = content_length (req con0) \<Longrightarrow>
    headers (req con) = headers (req con0) \<Longrightarrow> line_result con0 x"
  by (simp add: line_result_def split: sum.splits prod.splits)

lemma request_version_step_result:
  assumes "request_version_step p i at proto con = Some x" and "http_method (req con) \<noteq> HTTP_METHOD_UNSET"
  shows "line_result con x"
proof -
  from assms(1) obtain s where s: "str_at p proto = Some s" by (auto simp: request_version_step_def bind_eq_Some_conv)
  show ?thesis
  proof (cases "request_version (allow_http11 (conf con)) s")
    case (Inl n)
    with assms s request_version_status[OF Inl] show ?thesis
      by (auto simp: request_version_step_def line_result_def)
  next
    case (Inr v)
    with assms s have "request_uri_step p i at proto (upd_req (\<lambda>q. q\<lparr>http_version := v\<rparr>) con) = Some x"
      by (simp add: request_version_step_def)
    from request_uri_step_result[OF this] assms(2) show ?thesis
      by (auto simp: nested_updates elim!: line_result_cong)
  qed
qed

lemma request_line_done_result:
  assumes "request_line_done p i first stg meth u con = Some x" shows "line_result con x"
proof (cases "stg = 2")
  case False
  with assms show ?thesis by (auto simp: request_line_done_def Let_def line_result_def)
next
  case True
  let ?p = "p[i := NUL, i + 1 := NUL]"
  let ?q = "?p[u - 1 := NUL, first - 1 := NUL]"
  let ?con = "(upd_req (\<lambda>q. q\<lparr>request_line := terminated (take i ?p)\<rparr>) (con\<lparr>parse_request := ?p\<rparr>))\<lparr>parse_request := ?q\<rparr>"
  from assms True have "\<exists>y. (if get_http_method_key y = HTTP_METHOD_UNSET then Some (Inl (refuse 501 True ?con))
      else request_version_step ?q i u first (upd_req (\<lambda>q. q\<lparr>http_method := get_http_method_key y\<rparr>) ?con)) = Some x"
    unfolding request_line_done_def Let_def
    by (simp only: bind_eq_Some_conv simp_thms if_False) blast
  then obtain y where y: "(if get_http_method_key y = HTTP_METHOD_UNSET then Some (Inl (refuse 501 True ?con))
      else request_version_step ?q i u first (upd_req (\<lambda>q. q\<lparr>http_method := get_http_method_key y\<rparr>) ?con)) = Some x" by blast
  show ?thesis
  proof (cases "get_http_method_key y = HTTP_METHOD_UNSET")
    case True
    with y have "x = Inl (refuse 501 True ?con)" by simp
    then show ?thesis by (simp add: line_result_def)
  next
    case False
    with y have "request_version_step ?q i u first (upd_req (\<lambda>q. q\<lparr>http_method := get_http_method_key y\<rparr>) ?con) = Some x"
      by simp
    from request_version_step_result[OF this] False show ?thesis
      by (auto simp: nested_updates elim!: line_result_cong)
  qed
qed

definition no_line_end :: "char list \<Rightarrow> nat \<Rightarrow> bool" where
  "no_line_end p i \<longleftrightarrow> (\<forall>k \<ge> i. k + 1 < length p \<longrightarrow> \<not> (p ! k = CR \<and> p ! (k + 1) = LF))"

lemma request_line_loop_result:
  "request_line_loop p i first stg meth u con = Some x \<Longrightarrow> line_result con x \<or> no_line_end p i"
proof (induction p i first stg meth u con rule: request_line_loop.induct)
  case (1 p i first stg meth u con)
  show ?case
  proof (cases "i < length p")
    case False
    then show ?thesis by (simp add: no_line_end_def)
  next
    case True
    have next_i: "no_line_end p i" if "no_line_end p (i + 1)" "\<not> (p ! i = CR \<and> i + 1 < length p \<and> p ! (i + 1) = LF)"
      using that unfolding no_line_end_def by (metis Suc_eq_plus1 Suc_leI le_neq_implies_less)
    show ?thesis
    proof (cases "p ! i = CR")
      case cr: True
      show ?thesis
      proof (cases "byte_at p (i + 1)")
        case None
        with 1 cr True show ?thesis by (subst (asm) (4) request_line_loop.simps) simp
      next
        case (Some d)
        show ?thesis
        proof (cases "d = LF")
          case lf: True
          with 1(5) cr True Some have "request_line_done p i first stg meth u con = Some x"
            by (subst (asm) request_line_loop.simps) simp
          then show ?thesis using request_line_done_result by blast
        next
          case False
          with 1(5) cr True Some have "request_line_loop p (i + 1) first stg meth u con = Some x"
            by (subst (asm) request_line_loop.simps) simp
          with 1(1) cr True Some False next_i show ?thesis by (auto simp: byte_at_iff)
        qed
      qed
    next
      case False
      with 1 True next_i show ?thesis
        by (subst (asm) (5) request_line_loop.simps)
          (auto simp: line_result_def split: if_splits)
    qed
  qed
qed

section \<open>What the final checks establish\<close>

definition body_ok :: "nat \<Rightarrow> int \<times> connection \<Rightarrow> bool" where
  "body_ok limit r \<longleftrightarrow> (let n = content_length (req (snd r)) in
     (http_method (req (snd r)) \<in> {HTTP_METHOD_GET, HTTP_METHOD_HEAD} \<longrightarrow> n = 0) \<and>
     fst r = (if n = 0 then 0 else 1) \<and> n \<le> SSIZE_MAX \<and> (limit \<noteq> 0 \<longrightarrow> n div 2 ^ 10 \<le> limit))"

definition host_of :: "connection \<Rightarrow> char list option" where
  "host_of con = deref_buffer (headers (req con)) (http_host (req con))"

definition host_accepted :: "connection \<Rightarrow> bool" where
  "host_accepted con \<longleftrightarrow>
     (http_host (req con) \<noteq> Null \<longrightarrow> (\<exists>h. host_of con = Some h \<and> request_check_hostname (Some h) = Some 0)) \<and>
     (http_version (req con) = HTTP_VERSION_1_1 \<longrightarrow> (\<exists>h. host_of con = Some h \<and> h \<noteq> []))"

lemma refuse_req [simp]: "req (refuse n b con) = req con"
  by (simp add: refuse_def Let_def nested_updates)

lemma method_checks_result:
  assumes "method_checks limit ls con = (r, con')" and "ls \<or> content_length (req con) = 0" and "http_status con' = 0"
  shows "con' = con \<and> body_ok limit (r, con')"
proof -
  have c: "con' = con \<and> r = (if content_length (req con) = 0 then 0 else 1) \<and> content_length (req con) \<le> SSIZE_MAX \<and>
      (limit \<noteq> 0 \<longrightarrow> content_length (req con) div 2 ^ 10 \<le> limit)"
    if "content_checks limit ls con = (r, con')"
    using that assms(2,3) by (auto simp: content_checks_def Let_def split: if_splits)
  show ?thesis
    using assms c unfolding method_checks_def Let_def body_ok_def by (auto split: if_splits)
qed

lemma final_checks_result:
  assumes "final_checks limit wish ls con = Some (r, con')" and "ls \<or> content_length (req con) = 0" and "http_status con' = 0"
  shows "req con' = req con \<and> body_ok limit (r, con') \<and> host_accepted con' \<and>
    keep_alive con' = (if http_version (req con) = HTTP_VERSION_1_1 then if wish \<noteq> HTTP_CONNECTION_CLOSE then 1 else 0
                       else if wish = HTTP_CONNECTION_KEEPALIVE then 1 else 0)"
proof -
  have h: "con' = c \<and> body_ok limit (r, con') \<and>
      (http_host (req c) \<noteq> Null \<longrightarrow> (\<exists>h. host_of c = Some h \<and> request_check_hostname (Some h) = Some 0))"
    if "host_checks limit ls c = Some (r, con')" "ls \<or> content_length (req c) = 0" for c
  proof (cases "http_host (req c) = Null")
    case True
    with that method_checks_result[of limit ls c r con'] assms(3) show ?thesis by (auto simp: host_checks_def)
  next
    case False
    with that(1) obtain x where x: "host_of c = Some x" "request_check_hostname (Some x) = Some 0"
      "method_checks limit ls c = (r, con')"
      using assms(3) by (auto simp: host_checks_def host_of_def bind_eq_Some_conv split: if_splits)
    with method_checks_result[OF x(3) that(2)] assms(3) show ?thesis by auto
  qed
  show ?thesis
  proof (cases "http_version (req con) = HTTP_VERSION_1_1")
    case True
    let ?c = "con\<lparr>keep_alive := (if wish \<noteq> HTTP_CONNECTION_CLOSE then 1 else 0)\<rparr>"
    from assms(1,3) True have 1: "host_checks limit ls ?c = Some (r, con')"
        "\<exists>h. deref_buffer (headers (req con)) (http_host (req con)) = Some h \<and> h \<noteq> []"
      unfolding final_checks_def Let_def by (auto simp: bind_eq_Some_conv split: if_splits)
    with h[OF 1(1)] assms(2) True show ?thesis by (auto simp: host_accepted_def host_of_def)
  next
    case False
    let ?c = "con\<lparr>keep_alive := (if wish = HTTP_CONNECTION_KEEPALIVE then 1 else 0)\<rparr>"
    from assms(1) False have 1: "host_checks limit ls ?c = Some (r, con')" by (simp add: final_checks_def)
    with h[OF 1] assms(2) False show ?thesis by (auto simp: host_accepted_def host_of_def)
  qed
qed

section \<open>Properties\<close>

text \<open>
  C10: a request whose parsing ends with status 0, on a connection as a reset leaves it, has a known
  method, a URI that is not empty and free of control characters and spaces, a host that passed the
  host name check, present whenever the version is 1.1, and a body length within the limits which
  is 0 for \<open>GET\<close> and \<open>HEAD\<close>; the return value says whether a body follows.
\<close>

theorem accepted_request:
  assumes "http_request_parse srv con = Some (r, srv', con')" and "http_status con' = 0"
    and "parse_request_bytes con = Some (a @ CR # LF # b)" and "content_length (req con) = 0"
  shows "http_method (req con') \<noteq> HTTP_METHOD_UNSET \<and>
    (\<exists>u. uri (req con') = terminated u \<and> u \<noteq> [] \<and> uri_ok u) \<and>
    host_accepted con' \<and> body_ok (max_request_size srv) (r, con') \<and> keep_alive con' \<in> {0, 1}"
proof -
  let ?p = "a @ CR # LF # b" and ?con = "con\<lparr>parse_request := a @ CR # LF # b\<rparr>"
  from assms(1,3) obtain x where x: "request_line_loop ?p 0 0 0 0 0 ?con = Some x"
    by (auto simp: http_request_parse_def bind_eq_Some_conv)
  have "\<not> no_line_end ?p 0" unfolding no_line_end_def by (auto intro!: exI[of _ "length a"] simp: nth_append)
  with request_line_loop_result[OF x] have line: "line_result ?con x" by blast
  show ?thesis
  proof (cases x)
    case (Inl c)
    with assms x line show ?thesis by (auto simp: http_request_parse_def line_result_def)
  next
    case (Inr y)
    obtain p i first c where y: "y = (p, i, first, c)" by (metis prod.exhaust)
    from line Inr y obtain u where c: "http_status c = 0" "http_method (req c) \<noteq> HTTP_METHOD_UNSET"
      "uri (req c) = terminated u" "uri_ok u" "content_length (req c) = 0"
      using assms(4) by (auto simp: line_result_def)
    have ne: "u \<noteq> []"
    proof
      assume "u = []"
      with assms x Inr y c show False by (auto simp: http_request_parse_def)
    qed
    define st where "st = start_state p i first (split_vals srv) c"
    have run: "http_request_parse srv con = do {
        z \<leftarrow> header_loop (length p) st;
        case z of
          Inl (vals, con) \<Rightarrow> Some (0, srv\<lparr>split_vals := vals\<rparr>, con)
        | Inr st \<Rightarrow> do {
            (r, con) \<leftarrow> final_checks (max_request_size srv) (keep_alive_set st) (con_length_set st)
              ((ps_con st)\<lparr>parse_request := ps_bytes st, header_len := ps_i st\<rparr>);
            Some (r, srv\<lparr>split_vals := ps_vals st\<rparr>, con) } }"
      using assms(3) x Inr y ne c(3) unfolding http_request_parse_def Let_def by (simp add: st_def)
    then obtain z where z: "header_loop (length p) st = Some z"
      using assms(1) by (cases "header_loop (length p) st") auto
    have keeps: "step_keeps st (Some z)" using header_loop_keeps[of st "length p"] z by simp
    show ?thesis
    proof (cases z)
      case (Inl w)
      with z run assms(1,2) keeps show ?thesis by (cases w) (auto simp: step_keeps_def)
    next
      case (Inr st')
      let ?c = "(ps_con st')\<lparr>parse_request := ps_bytes st', header_len := ps_i st'\<rparr>"
      from z run assms(1) Inr have f: "final_checks (max_request_size srv) (keep_alive_set st') (con_length_set st') ?c = Some (r, con')"
        by (cases "final_checks (max_request_size srv) (keep_alive_set st') (con_length_set st') ?c") auto
      from keeps Inr c have k: "same_line c (ps_con st')" "con_length_set st' \<or> content_length (req (ps_con st')) = 0"
        by (auto simp: step_keeps_def st_def start_state_def)
      with final_checks_result[OF f _ assms(2)] have
        "req con' = req (ps_con st') \<and> body_ok (max_request_size srv) (r, con') \<and> host_accepted con' \<and> keep_alive con' \<in> {0, 1}"
        by auto
      with k(1) c ne show ?thesis by (auto simp: same_line_def)
    qed
  qed
qed


definition sample_request :: connection where
  "sample_request = upd_req (\<lambda>q. q\<lparr>request := terminated
     (''GET / HTTP/1.0'' @ [CR, LF, CR, LF])\<rparr>) (connection_init sample_server)"

lemma sample_request_status: "map_option (\<lambda>(r, s, c). connection.http_status c) (http_request_parse sample_server sample_request) = Some 0"
  by code_simp

lemma accepted_request_witness:
  "\<exists>r srv' con'. http_request_parse sample_server sample_request = Some (r, srv', con') \<and>
    http_method (req con') \<noteq> HTTP_METHOD_UNSET \<and> host_accepted con' \<and> body_ok 0 (r, con')"
proof -
  from sample_request_status obtain r srv' con' where
    1: "http_request_parse sample_server sample_request = Some (r, srv', con')" "connection.http_status con' = 0"
    by (auto simp: map_option_eq_Some)
  have 2: "parse_request_bytes sample_request =
      Some (''GET / HTTP/1.0'' @ CR # LF # [CR, LF, NUL])"
    by code_simp
  have 3: "content_length (req sample_request) = 0" by code_simp
  have 4: "max_request_size sample_server = 0" by code_simp
  from accepted_request[OF 1 2 3] 1(1) show ?thesis unfolding 4 by blast
qed

end
