(* ===== verification/RequestRender.thy ===== *)
theory RequestRender
  imports Request Connection
begin

text \<open>
  The parser of \<open>request.c\<close> against the text of a request: a request written out line by
  line is parsed back to its parts.  The lemmas run the byte loop over the pieces of a line.
\<close>

section \<open>The request line\<close>

lemma str_at_mid: "NUL \<notin> set s \<Longrightarrow> str_at (a @ s @ NUL # b) (length a) = Some s"
  by (simp add: str_at_def)

lemma run_part:
  assumes "CR \<notin> set l" and "CHR '' '' \<notin> set l"
  shows "request_line_loop (a @ l @ r) (length a) first stg meth at con =
         request_line_loop (a @ l @ r) (length a + length l) first stg meth at con"
  using assms
proof (induction l arbitrary: a)
  case (Cons c l)
  then have "c \<noteq> CR" "c \<noteq> CHR '' ''" by auto
  then have "request_line_loop (a @ (c # l) @ r) (length a) first stg meth at con =
      request_line_loop (a @ (c # l) @ r) (length a + 1) first stg meth at con"
    by (subst request_line_loop.simps) (simp add: byte_at_def nth_append)
  with Cons.IH[of "a @ [c]"] Cons.prems show ?case by simp
qed simp

text \<open>What a request line leaves in the connection.\<close>

definition line_parsed :: "http_method_t \<Rightarrow> char list \<Rightarrow> http_version_t \<Rightarrow> connection \<Rightarrow> connection \<Rightarrow> bool" where
  "line_parsed m u v con con' \<longleftrightarrow> http_status con' = 0 \<and> http_method (req con') = m \<and> uri (req con') = terminated u \<and>
     orig_uri (req con') = terminated u \<and> http_version (req con') = v \<and> headers (req con') = headers (req con) \<and>
     http_host (req con') = http_host (req con) \<and> content_length (req con') = content_length (req con)"

definition line_part :: "char list \<Rightarrow> bool" where
  "line_part s \<longleftrightarrow> CR \<notin> set s \<and> CHR '' '' \<notin> set s \<and> NUL \<notin> set s"

lemma request_line_ok:
  assumes "line_part m" and "line_part u" and "line_part v" and "m \<noteq> []"
    and "get_http_method_key m = mt" and "mt \<noteq> HTTP_METHOD_UNSET"
    and "request_version (allow_http11 (conf con)) v = Inr ver" and "uri_ok u" and "\<not> is_prefix ''http://'' u"
  shows "\<exists>con'. request_line_loop (m @ CHR '' '' # u @ CHR '' '' # v @ CR # LF # r) 0 0 0 0 0 con =
     Some (Inr (m @ NUL # u @ NUL # v @ NUL # NUL # r, length m + length u + length v + 4,
                length m + length u + length v + 4, con')) \<and> line_parsed mt u ver con con'"
proof -
  let ?p = "m @ CHR '' '' # u @ CHR '' '' # v @ CR # LF # r"
  let ?i = "length m + length u + length v + 2"
  let ?l = "length m" and ?k = "length m + length u + 2"
  have "request_line_loop ?p 0 0 0 0 0 con = request_line_loop ?p (length m) 0 0 0 0 con"
    using run_part[of m "[]"] assms(1) by (simp add: line_part_def)
  also have "\<dots> = request_line_loop ?p (length m + 1) (length m + 1) 1 0 0 con"
    by (subst request_line_loop.simps) (simp add: byte_at_def nth_append)
  also have "\<dots> = request_line_loop ?p (length m + 1 + length u) (length m + 1) 1 0 0 con"
    using run_part[of u "m @ [CHR '' '']"] assms(2) by (simp add: line_part_def)
  also have "\<dots> = request_line_loop ?p ?k ?k 2 0 (length m + 1) con"
    by (subst request_line_loop.simps) (simp add: byte_at_def nth_append)
  also have "\<dots> = request_line_loop ?p ?i ?k 2 0 (length m + 1) con"
    using run_part[of v "m @ [CHR '' ''] @ u @ [CHR '' '']"] assms(3) by (simp add: line_part_def ac_simps)
  also have "\<dots> = request_line_done ?p ?i ?k 2 0 (length m + 1) con"
    by (subst request_line_loop.simps) (simp add: byte_at_def nth_append)
  finally have run: "request_line_loop ?p 0 0 0 0 0 con = request_line_done ?p ?i ?k 2 0 (length m + 1) con" .
  let ?p1 = "m @ CHR '' '' # u @ CHR '' '' # v @ NUL # NUL # r" and ?p2 = "m @ NUL # u @ NUL # v @ NUL # NUL # r"
  have p1: "?p[?i := NUL, ?i + 1 := NUL] = ?p1" by (simp add: list_update_append)
  have p2: "?p1[length m + 1 - 1 := NUL, ?k - 1 := NUL] = ?p2" by (simp add: list_update_append)
  have s: "str_at ?p2 0 = Some m" "str_at ?p2 (length m + 1) = Some u" "str_at ?p2 ?k = Some v"
    using str_at_mid[of m "[]"] str_at_mid[of u "m @ [NUL]"] str_at_mid[of v "m @ [NUL] @ u @ [NUL]"] assms(1-3)
    by (simp_all add: line_part_def)
  let ?c1 = "(upd_req (\<lambda>q. q\<lparr>request_line := terminated (take ?i ?p1)\<rparr>) (con\<lparr>parse_request := ?p1\<rparr>))\<lparr>parse_request := ?p2\<rparr>"
  let ?c2 = "upd_req (\<lambda>q. q\<lparr>http_version := ver\<rparr>) (upd_req (\<lambda>q. q\<lparr>http_method := mt\<rparr>) ?c1)"
  have "request_line_done ?p ?i ?k 2 0 (length m + 1) con =
      request_version_step ?p2 ?i (length m + 1) ?k (upd_req (\<lambda>q. q\<lparr>http_method := mt\<rparr>) ?c1)"
    unfolding request_line_done_def p1 Let_def using assms(4-6) s(1) by (simp add: p2[simplified])
  also have "\<dots> = request_uri_step ?p2 ?i (length m + 1) ?k ?c2"
  proof -
    have "conf (upd_req (\<lambda>q. q\<lparr>http_method := mt\<rparr>) ?c1) = conf con" by (simp add: nested_updates)
    then show ?thesis using s(3) assms(7) by (simp add: request_version_step_def)
  qed
  also have "\<dots> = Some (Inr (?p2, ?i + 2, ?i + 2,
      (upd_req (\<lambda>q. q\<lparr>orig_uri := copy_bytes (terminated u)\<rparr>) (upd_req (\<lambda>q. q\<lparr>uri := terminated u\<rparr>) ?c2))\<lparr>http_status := 0\<rparr>))"
  proof -
    have "request_uri_bytes ?p2 (length m + 1) ?k = Some (terminated u)"
      using s(2) assms(9) by (simp add: request_uri_bytes_def)
    then show ?thesis using assms(8) by (simp add: request_uri_step_def Let_def)
  qed
  finally show ?thesis
    unfolding run by (simp add: line_parsed_def nested_updates copy_bytes_def)
qed

section \<open>Running the loop over the bytes of a line\<close>

definition token :: "char \<Rightarrow> bool" where
  "token c \<longleftrightarrow> c \<noteq> CHR '':'' \<and> c \<notin> set separators \<and> \<not> is_ws c \<and> c \<noteq> CR \<and> \<not> is_ctl c"

definition text_char :: "char \<Rightarrow> bool" where
  "text_char c \<longleftrightarrow> \<not> (0 \<le> schar c \<and> schar c < 32)"

lemma text_char_not: "\<not> text_char CR" "\<not> text_char NUL" "\<not> text_char LF"
  by (simp_all add: text_char_def char_eval)

lemma header_loop_one:
  assumes "ps_i st < length (ps_bytes st)" and "\<not> ps_done st" and "header_step st = Some (Inr st')"
  shows "header_loop (Suc n) st = header_loop n (st'\<lparr>ps_i := ps_i st' + 1\<rparr>)"
  using assms by (subst header_loop.simps) simp

lemma run_key:
  assumes "ps_bytes st = a @ l @ r" and "ps_i st = length a" and "is_key st" and "\<not> ps_done st" and "list_all token l"
  shows "header_loop (length l + n) st = header_loop n (st\<lparr>ps_i := length a + length l\<rparr>)"
  using assms
proof (induction l arbitrary: a st)
  case Nil
  then have "st\<lparr>ps_i := length a\<rparr> = st" by (cases st) simp
  then show ?case by simp
next
  case (Cons c l)
  have "header_step st = Some (Inr st)"
    using Cons.prems by (simp add: header_step_def byte_at_def nth_append key_step_def token_def Let_def)
  then have "header_loop (Suc (length l + n)) st = header_loop (length l + n) (st\<lparr>ps_i := ps_i st + 1\<rparr>)"
    using Cons.prems by (intro header_loop_one) auto
  with Cons.IH[of "st\<lparr>ps_i := ps_i st + 1\<rparr>" "a @ [c]"] Cons.prems show ?case by simp
qed

lemma run_value:
  assumes "ps_bytes st = a @ l @ r" and "ps_i st = length a" and "\<not> is_key st" and "\<not> ps_done st"
    and "list_all text_char l" and "ps_value st = Some v" and "v < length a \<or> (l \<noteq> [] \<longrightarrow> \<not> is_ws (hd l))" and "v \<le> length a"
  shows "header_loop (length l + n) st = header_loop n (st\<lparr>ps_i := length a + length l\<rparr>)"
  using assms
proof (induction l arbitrary: a st)
  case Nil
  then have "st\<lparr>ps_i := length a\<rparr> = st" by (cases st) simp
  then show ?case by simp
next
  case (Cons c l)
  have "c \<noteq> CR" "\<not> (0 \<le> schar c \<and> schar c < 32)" using Cons.prems(5) text_char_not by (auto simp: text_char_def)
  then have "header_step st = Some (Inr st)"
    using Cons.prems by (auto simp: header_step_def byte_at_def nth_append value_step_def Let_def)
  then have "header_loop (Suc (length l + n)) st = header_loop (length l + n) (st\<lparr>ps_i := ps_i st + 1\<rparr>)"
    using Cons.prems by (intro header_loop_one) auto
  with Cons.IH[of "st\<lparr>ps_i := ps_i st + 1\<rparr>" "a @ [c]"] Cons.prems show ?case by simp
qed

lemma strip_len_ok: "v \<noteq> [] \<Longrightarrow> \<not> is_ws (last v) \<Longrightarrow> strip_len (a @ v @ r) (length a) (length v) = length v"
proof -
  assume v: "v \<noteq> []" "\<not> is_ws (last v)"
  then obtain v' c where "v = v' @ [c]" by (metis append_butlast_last_id)
  with v show ?thesis by (simp add: nth_append)
qed

text \<open>The end of a line that is a key, some bytes in between and a value.\<close>

lemma field_line_ok:
  assumes "ps_bytes st = a @ k @ b @ v @ NUL # r" and "ps_first st = length a" and "key_len st = length k"
    and "ps_value st = Some (length (a @ k @ b))" and "ps_i st = length (a @ k @ b @ v)"
    and "v \<noteq> []" and "\<not> is_ws (last v)"
  shows "field_line st = do {
     let (ds, hs) = unused_or data_string_init (headers (req (ps_con st)));
     ds \<leftarrow> set_string (ds\<lparr>key := terminated k\<rparr>) (terminated v);
     header_field ds k (terminated v)
       (st\<lparr>ps_key := Some (length a), ps_con := upd_req (\<lambda>q. q\<lparr>headers := hs\<rparr>) (ps_con st)\<rparr>) }"
proof -
  have s: "strip_len (ps_bytes st) (length (a @ k @ b)) (ps_i st - length (a @ k @ b)) = length v"
    using strip_len_ok[of v "a @ k @ b" "NUL # r"] assms by simp
  have same: "(ps_bytes st)[length (a @ k @ b) + length v := NUL] = ps_bytes st"
    using assms(1) by (simp add: list_update_append)
  have st: "st\<lparr>ps_key := x, ps_bytes := ps_bytes st\<rparr> = st\<lparr>ps_key := x\<rparr>" for x by (cases st) simp
  have parts: "take (length k) (drop (length a) (ps_bytes st)) = k"
    "take (length v) (drop (length (a @ k @ b)) (ps_bytes st)) = v" using assms(1) by simp_all
  show ?thesis
    unfolding field_line_def Let_def assms(4) bind.bind_lunit s same st
    using assms(5,6) by (simp add: assms(1-3) parts[unfolded assms(1)] case_prod_unfold Let_def)
qed


section \<open>One header line\<close>

definition at_line ::
    "char list \<Rightarrow> char list \<Rightarrow> keep_alive_wish \<Rightarrow> bool \<Rightarrow> header_array \<Rightarrow> connection \<Rightarrow> parse_state \<Rightarrow> bool" where
  "at_line b r w l vals con st \<longleftrightarrow> ps_bytes st = b @ r \<and> ps_i st = length b \<and> ps_first st = length b \<and> is_key st \<and>
     \<not> in_folding st \<and> \<not> ps_done st \<and> keep_alive_set st = w \<and> con_length_set st = l \<and> ps_vals st = vals \<and> ps_con st = con"

definition field_ok :: "char list \<times> char list \<Rightarrow> bool" where
  "field_ok h \<longleftrightarrow> (case h of (k, x) \<Rightarrow> k \<noteq> [] \<and> list_all token k \<and> tame (terminated k) \<and>
     special_header k special_headers \<in> {None, Some ''Host''} \<and>
     x \<noteq> [] \<and> list_all text_char x \<and> \<not> is_ws (hd x) \<and> \<not> is_ws (last x))"

text \<open>The bytes of a line up to its end: key and value are marked, the state is at the \<open>\r\n\<close>.\<close>

lemma run_field:
  assumes "at_line b (k @ '': '' @ x @ CR # LF # r) w l vals con st" and "field_ok (k, x)"
  shows "\<exists>st'. header_loop (length k + length x + 2 + n) st = header_loop n st' \<and>
     ps_bytes st' = b @ k @ '': '' @ x @ CR # LF # r \<and> ps_i st' = length (b @ k @ '': '' @ x) \<and> ps_first st' = length b \<and>
     \<not> is_key st' \<and> \<not> in_folding st' \<and> \<not> ps_done st' \<and> key_len st' = length k \<and>
     ps_value st' = Some (length (b @ k @ '': '')) \<and> keep_alive_set st' = w \<and> con_length_set st' = l \<and>
     ps_vals st' = vals \<and> ps_con st' = con"
proof -
  note a = assms(1)[unfolded at_line_def] and f = assms(2)[unfolded field_ok_def, simplified]
  define m where "m = length x + n"
  let ?t = "b @ k @ '': '' @ x @ CR # LF # r"
  define s1 where "s1 = st\<lparr>ps_i := length b + length k\<rparr>"
  define s2 where "s2 = s1\<lparr>is_key := False, ps_value := Some (length b + length k + 1), key_len := length k, ps_i := length b + length k + 1\<rparr>"
  define s3 where "s3 = s2\<lparr>ps_value := Some (length b + length k + 2), ps_i := length b + length k + 2\<rparr>"
  have 1: "header_loop (length k + Suc (Suc m)) st = header_loop (Suc (Suc m)) s1"
    unfolding s1_def using a f by (intro run_key[of _ b k "'': '' @ x @ CR # LF # r"]) auto
  have b1: "ps_bytes s1 = ?t" "ps_i s1 = length b + length k" "is_key s1" "\<not> ps_done s1" "ps_first s1 = length b"
    "ps_con s1 = con" using a by (simp_all add: s1_def)
  have "header_step s1 = Some (Inr (s1\<lparr>is_key := False, ps_value := Some (length b + length k + 1), key_len := length k\<rparr>))"
    using b1 by (simp add: header_step_def byte_at_def nth_append key_step_def)
  from header_loop_one[OF _ _ this] b1 have 2: "header_loop (Suc (Suc m)) s1 = header_loop (Suc m) s2"
    by (simp add: s2_def)
  have b2: "ps_bytes s2 = ?t" "ps_i s2 = length b + length k + 1" "\<not> is_key s2" "\<not> ps_done s2"
    "ps_value s2 = Some (length b + length k + 1)" using b1 by (simp_all add: s2_def)
  have "header_step s2 = Some (Inr (s2\<lparr>ps_value := Some (length b + length k + 2)\<rparr>))"
    using b2 by (simp add: header_step_def byte_at_def nth_append value_step_def is_ws_def char_eval)
  from header_loop_one[OF _ _ this] b2 have 3: "header_loop (Suc m) s2 = header_loop m s3"
    by (simp add: s3_def)
  have b3: "ps_bytes s3 = (b @ k @ '': '') @ x @ CR # LF # r" "ps_i s3 = length (b @ k @ '': '')" "\<not> is_key s3" "\<not> ps_done s3"
    "ps_value s3 = Some (length (b @ k @ '': ''))" using b2 by (simp_all add: s3_def)
  have 4: "header_loop m s3 = header_loop n (s3\<lparr>ps_i := length (b @ k @ '': '') + length x\<rparr>)"
    unfolding m_def using b3 f by (intro run_value) auto
  have e: "length k + length x + 2 + n = length k + Suc (Suc m)" by (simp add: m_def)
  show ?thesis
    unfolding e 1 2 3 4 using b3 a
    by (intro exI[of _ "s3\<lparr>ps_i := length (b @ k @ '': '') + length x\<rparr>"]) (simp add: s3_def s2_def s1_def)
qed


text \<open>The header lists of a request without repeated headers: string elements under their own keys.\<close>

definition listed :: "header_array \<Rightarrow> bool" where
  "listed a \<longleftrightarrow> arr_inv a \<and> strings_ok a \<and> every_element (\<lambda>d. \<not> is_index_key d) a"

definition field_of :: "unit data_unset \<Rightarrow> char list \<times> char list \<Rightarrow> bool" where
  "field_of d h \<longleftrightarrow> key d = terminated (fst h) \<and> string_value d = Some (terminated (snd h))"

lemma insert_dup_index [simp]: "is_index_key (insert_dup d e) = is_index_key d"
  by (cases "(d, e)" rule: insert_dup.cases) (simp split: payload.splits)

lemma store_field:
  assumes "listed a" and "field_ok (k, x)" and "\<forall>d \<in> set (elements a). fk d \<noteq> fold_key (terminated k)"
    and "a_used a < INT_MAX"
  obtains ds b ds' b' where "unused_or data_string_init a = (ds, b)" "set_string (ds\<lparr>key := terminated k\<rparr>) (terminated x) = Some ds'"
    "array_insert_unique b ds' = Some (0, b')" "listed b'" "elements b' = elements a @ [ds']" "field_of ds' (k, x)"
    "a_used b = a_used a" "a_used b' = a_used a + 1"
proof -
  have l: "arr_inv a" "strings_ok a" "every_element (\<lambda>d. \<not> is_index_key d) a" using assms(1) by (simp_all add: listed_def)
  obtain ds b where b: "unused_or data_string_init a = (ds, b)" "arr_inv b" "strings_ok b" "is_string ds" "elements b = elements a"
    "a_used b = a_used a" by (rule unused_or_ok[OF l(1,2) is_string_init(1)])
  have n: "\<not> is_index_key ds" "every_element (\<lambda>d. \<not> is_index_key d) b"
    using unused_or_all[OF l(3) _ arr_inv_filled[OF l(1,2)] b(1)] by (simp_all add: data_string_init_def)
  have "is_string (ds\<lparr>key := terminated k\<rparr>)" using b(4) by simp
  from set_string_ok[OF this, of "terminated x"] obtain ds' where ds': "set_string (ds\<lparr>key := terminated k\<rparr>) (terminated x) = Some ds'"
    "is_string ds'" "string_value ds' = Some (terminated x)" "key ds' = terminated k" "\<not> is_index_key ds'" using n(1) by auto
  have kd: "keyed b ds' = ds'" using ds'(4,5) by (simp add: keyed_def)
  have "tame (key (keyed b ds'))" using assms(2) ds'(4) by (simp add: kd field_ok_def)
  from insert_unique_ok[OF b(2) this] assms(4) b(6) obtain b' where ins: "array_insert_unique b ds' = Some (0, b')" "arr_inv b'"
    "elements b' = insert_elem (elements b) ds'" by (auto simp: kd valid_def)
  have el: "elements b' = elements a @ [ds']"
    using elem_new[of "elements a" ds'] assms(3) ds'(4) b(5) ins(3) by auto
  have "filled b" using arr_inv_filled[OF b(2,3)] .
  with filled_insert_unique[OF this ds'(2)] ins(1) assms(4) b(6) have "filled b'" by (auto simp: valid_def)
  then have "strings_ok b'" by (rule filledD(8))
  moreover have "every_element (\<lambda>d. \<not> is_index_key d) b'"
    using insert_unique_all[OF n(2) _ _ \<open>filled b\<close> ins(1)] ds'(5) by (simp add: kd)
  moreover have "length (elements c) = a_used c" if "arr_inv c" for c :: header_array
    using that rep_lengths(1) rep_elements unfolding arr_inv_def by metis
  then have "a_used b' = a_used a + 1" using el ins(2) l(1) by (metis length_append_singleton Suc_eq_plus1)
  ultimately show ?thesis
    using that[OF b(1) ds'(1) ins(1)] ins(2) el ds'(3,4) b(6) by (simp add: listed_def field_of_def)
qed


definition add_field :: "bool \<Rightarrow> header_array \<Rightarrow> connection \<Rightarrow> connection" where
  "add_field is_host hs = upd_req (\<lambda>q. q\<lparr>headers := hs,
     http_host := (if is_host then Slot (a_used (headers q)) 0 else http_host q)\<rparr>)"

abbreviation is_host :: "char list \<Rightarrow> bool" where
  "is_host k \<equiv> special_header k special_headers = Some ''Host''"

lemma header_field_ok:
  assumes "field_ok (k, x)" and "is_host k \<longrightarrow> http_host (req con) = Null"
    and "ps_con st = upd_req (\<lambda>q. q\<lparr>headers := hs\<rparr>) con" and "array_insert_unique hs ds = Some (0, hs')"
    and "a_used hs = a_used (headers (req con))" and "a_used hs' = a_used hs + 1"
  shows "header_field ds k v st = Some (Inr (st\<lparr>ps_con := add_field (is_host k) hs' con\<rparr>))"
proof (cases "is_host k")
  case True
  then show ?thesis using assms
    by (simp add: header_field_def Let_def store_once_def store_header_def add_field_def nested_updates)
next
  case False
  then have "special_header k special_headers = None" using assms(1) by (auto simp: field_ok_def)
  then show ?thesis using False assms
    by (simp add: header_field_def Let_def store_plain_def store_header_def add_field_def nested_updates)
qed

lemma header_line:
  assumes "at_line b (k @ '': '' @ x @ CR # LF # r) w l vals con st" and "field_ok (k, x)"
    and "listed (headers (req con))" and "\<forall>d \<in> set (elements (headers (req con))). fk d \<noteq> fold_key (terminated k)"
    and "a_used (headers (req con)) < INT_MAX" and "is_host k \<longrightarrow> http_host (req con) = Null"
  shows "\<exists>st' b' hs ds. header_loop (length k + length x + 3 + n) st = header_loop n st' \<and>
     listed hs \<and> elements hs = elements (headers (req con)) @ [ds] \<and> field_of ds (k, x) \<and>
     at_line b' r w l vals (add_field (is_host k) hs con) st'"
proof -
  obtain s where s: "header_loop (length k + length x + 2 + Suc n) st = header_loop (Suc n) s"
    "ps_bytes s = b @ k @ '': '' @ x @ CR # LF # r" "ps_i s = length (b @ k @ '': '' @ x)" "ps_first s = length b"
    "\<not> is_key s" "\<not> in_folding s" "\<not> ps_done s" "key_len s = length k" "ps_value s = Some (length (b @ k @ '': ''))"
    "keep_alive_set s = w" "con_length_set s = l" "ps_vals s = vals" "ps_con s = con"
    using run_field[OF assms(1,2), of "Suc n"] by blast
  obtain ds hs ds' hs' where h: "unused_or data_string_init (headers (req con)) = (ds, hs)"
    "set_string (ds\<lparr>key := terminated k\<rparr>) (terminated x) = Some ds'" "array_insert_unique hs ds' = Some (0, hs')" "listed hs'"
    "elements hs' = elements (headers (req con)) @ [ds']" "field_of ds' (k, x)" "a_used hs = a_used (headers (req con))"
    "a_used hs' = a_used (headers (req con)) + 1"
    using store_field[OF assms(3,2,4,5)] by blast
  let ?b = "b @ k @ '': '' @ x @ [NUL, NUL]" and ?con = "add_field (is_host k) hs' con"
  define s1 where "s1 = s\<lparr>ps_bytes := ?b @ r\<rparr>"
  have upd: "(ps_bytes s)[ps_i s := NUL, ps_i s + 1 := NUL] = ?b @ r" using s by (simp add: list_update_append)
  let ?s2 = "s1\<lparr>ps_key := Some (length b), ps_con := upd_req (\<lambda>q. q\<lparr>headers := hs\<rparr>) con\<rparr>"
  have fld: "header_field ds' k (terminated x) ?s2 = Some (Inr (?s2\<lparr>ps_con := ?con\<rparr>))"
    by (rule header_field_ok[OF assms(2,6), where hs = hs]) (use h in simp_all)
  have "field_line s1 = header_field ds' k (terminated x) ?s2"
    using field_line_ok[of s1 b k "'': ''" x "NUL # r"] s assms(2) h(1,2)
    by (simp add: s1_def field_ok_def)
  then have "line_end s = Some (Inr (?s2\<lparr>ps_con := ?con, ps_i := ps_i s + 1, ps_first := ps_i s + 2, is_key := True,
      ps_value := None, in_folding := False\<rparr>))"
    unfolding line_end_def upd Let_def s1_def[symmetric] using s(6) fld by (simp add: s1_def)
  moreover have "header_step s = line_end s"
    using s(2-5) by (simp add: header_step_def value_step_def nth_append)
  ultimately have "header_loop (Suc n) s = header_loop n (?s2\<lparr>ps_con := ?con, ps_first := ps_i s + 2,
      is_key := True, ps_value := None, in_folding := False, ps_i := ps_i s + 2\<rparr>)" (is "_ = header_loop n ?s3")
    using header_loop_one[of s _ n] s(2,3,7) by simp
  moreover have "at_line ?b r w l vals ?con ?s3"
    using s by (simp add: at_line_def s1_def)
  ultimately show ?thesis using s(1) h(4-6)
    by (intro exI[of _ ?s3] exI[of _ ?b] exI[of _ hs'] exI[of _ ds']) (simp add: numeral_3_eq_3)
qed


section \<open>A list of headers\<close>

definition fields_text :: "(char list \<times> char list) list \<Rightarrow> char list" where
  "fields_text hs = concat (map (\<lambda>(k, x). k @ '': '' @ x @ [CR, LF]) hs)"

definition field_keys :: "(char list \<times> char list) list \<Rightarrow> int list list" where
  "field_keys hs = map (\<lambda>(k, _). fold_key (terminated k)) hs"

fun host_ptr :: "nat \<Rightarrow> hptr \<Rightarrow> (char list \<times> char list) list \<Rightarrow> hptr" where
  "host_ptr n p [] = p"
| "host_ptr n p ((k, _) # hs) = host_ptr (n + 1) (if is_host k then Slot n 0 else p) hs"

lemma special_header_equal: "special_header k ns = Some n \<Longrightarrow> buffer_caseless_compare False k n = 0"
  by (induction ns) (auto simp: Let_def split: if_splits)

lemma is_host_fold: "field_ok (k, x) \<Longrightarrow> is_host k \<Longrightarrow> fold_key (terminated k) = fold_key (terminated ''Host'')"
proof -
  assume f: "field_ok (k, x)" "is_host k"
  have "tame k" "tame ''Host''" using f(1) by (auto simp: field_ok_def tame_def terminated_def char_eval)
  then have "fold_key k = fold_key ''Host''"
    using special_header_equal[OF f(2)] caseless_compare_equal by blast
  then show ?thesis by (simp add: fold_key_def terminated_def)
qed

definition with_fields :: "header_array \<Rightarrow> hptr \<Rightarrow> connection \<Rightarrow> connection" where
  "with_fields hs p = upd_req (\<lambda>q. q\<lparr>headers := hs, http_host := p\<rparr>)"

lemma listed_used: "listed a \<Longrightarrow> length (elements a) = a_used a"
  using rep_lengths(1) rep_elements unfolding arr_inv_def listed_def by metis

lemma header_lines:
  assumes "at_line b (fields_text hs @ r) w l vals con st" and "list_all field_ok hs" and "listed (headers (req con))"
    and "distinct (map fk (elements (headers (req con))) @ field_keys hs)"
    and "a_used (headers (req con)) + length hs \<le> INT_MAX"
    and "http_host (req con) = Null \<or> fold_key (terminated ''Host'') \<in> set (map fk (elements (headers (req con))))"
  shows "\<exists>st' b' a ds. header_loop (sum_list (map (\<lambda>(k, x). length k + length x + 3) hs) + n) st = header_loop n st' \<and>
     listed a \<and> elements a = elements (headers (req con)) @ ds \<and> list_all2 field_of ds hs \<and>
     at_line b' r w l vals (with_fields a (host_ptr (a_used (headers (req con))) (http_host (req con)) hs) con) st'"
  using assms
proof (induction hs arbitrary: b con st)
  case Nil
  have "with_fields (headers (req con)) (http_host (req con)) con = con" by (simp add: with_fields_def nested_updates)
  with Nil show ?case
    by (intro exI[of _ st] exI[of _ b] exI[of _ "headers (req con)"] exI[of _ "[]"]) (simp add: fields_text_def)
next
  case (Cons h hs)
  obtain k x where h: "h = (k, x)" by (cases h)
  let ?es = "elements (headers (req con))" and ?u = "a_used (headers (req con))"
  let ?n = "sum_list (map (\<lambda>(k, x). length k + length x + 3) hs) + n"
  have line: "at_line b (k @ '': '' @ x @ CR # LF # (fields_text hs @ r)) w l vals con st"
    using Cons.prems(1) h by (simp add: fields_text_def)
  have f: "field_ok (k, x)" using Cons.prems(2) h by simp
  have "fold_key (terminated k) \<notin> fk ` set ?es" using Cons.prems(4) h by (simp add: field_keys_def)
  then have new: "\<forall>d \<in> set ?es. fk d \<noteq> fold_key (terminated k)" by (metis imageI)
  then have no_host: "is_host k \<longrightarrow> http_host (req con) = Null"
    using Cons.prems(6) is_host_fold[OF f] by fastforce
  obtain s b' a d where s: "header_loop (length k + length x + 3 + ?n) st = header_loop ?n s" "listed a"
    "elements a = ?es @ [d]" "field_of d (k, x)" "at_line b' (fields_text hs @ r) w l vals (add_field (is_host k) a con) s"
    using header_line[OF line f Cons.prems(3) new _ no_host, of ?n] Cons.prems(5) by auto
  let ?con = "add_field (is_host k) a con"
  have c: "headers (req ?con) = a" "http_host (req ?con) = (if is_host k then Slot ?u 0 else http_host (req con))"
    by (simp_all add: add_field_def nested_updates)
  have fkd: "fk d = fold_key (terminated k)" using s(4) by (simp add: field_of_def)
  have u: "a_used a = ?u + 1" using listed_used[OF s(2)] listed_used[OF Cons.prems(3)] s(3) by simp
  have "\<exists>st' b'' a' ds. header_loop ?n s = header_loop n st' \<and>
     listed a' \<and> elements a' = elements (headers (req ?con)) @ ds \<and> list_all2 field_of ds hs \<and>
     at_line b'' r w l vals (with_fields a' (host_ptr (a_used (headers (req ?con))) (http_host (req ?con)) hs) ?con) st'"
  proof (rule Cons.IH[OF s(5)])
    show "distinct (map fk (elements (headers (req ?con))) @ field_keys hs)"
      using Cons.prems(4) h s(3) fkd by (auto simp: c field_keys_def)
    show "http_host (req ?con) = Null \<or> fold_key (terminated ''Host'') \<in> set (map fk (elements (headers (req ?con))))"
      using Cons.prems(6) is_host_fold[OF f] s(3) fkd by (auto simp: c)
  qed (use Cons.prems s(2) u c in auto)
  moreover have "with_fields a' p ?con = with_fields a' p con" for a' p
    by (simp add: with_fields_def add_field_def nested_updates)
  ultimately obtain st' b'' a' ds where t: "header_loop ?n s = header_loop n st'" "listed a'" "elements a' = ?es @ d # ds"
    "list_all2 field_of ds hs" "at_line b'' r w l vals (with_fields a' (host_ptr (a_used a) (http_host (req ?con)) hs) con) st'"
    unfolding c(1) using s(3) by auto
  have "sum_list (map (\<lambda>(k, x). length k + length x + 3) (h # hs)) + n = length k + length x + 3 + ?n" by (simp add: h)
  with s(1,4) t c(2) u show ?case
    by (intro exI[of _ st'] exI[of _ b''] exI[of _ a'] exI[of _ "d # ds"]) (simp add: h add.assoc)
qed


lemma host_ptr_cases:
  "host_ptr n p hs = p \<and> (\<forall>h \<in> set hs. \<not> is_host (fst h)) \<or>
   (\<exists>i < length hs. host_ptr n p hs = Slot (n + i) 0 \<and> is_host (fst (hs ! i)))"
proof (induction hs arbitrary: n p)
  case (Cons h hs)
  obtain k x where h: "h = (k, x)" by (cases h)
  show ?case
    using Cons.IH[of "n + 1" "if is_host k then Slot n 0 else p"]
  proof (elim disjE exE conjE)
    assume "host_ptr (n + 1) (if is_host k then Slot n 0 else p) hs = (if is_host k then Slot n 0 else p)"
      "\<forall>h \<in> set hs. \<not> is_host (fst h)"
    then show ?case by (cases "is_host k") (auto simp: h intro!: exI[of _ 0])
  next
    fix i assume "i < length hs" "host_ptr (n + 1) (if is_host k then Slot n 0 else p) hs = Slot (n + 1 + i) 0"
      "is_host (fst (hs ! i))"
    then show ?case by (intro disjI2 exI[of _ "Suc i"]) (simp add: h)
  qed
qed simp

lemma header_end:
  assumes "at_line b [CR, LF, NUL] w l vals con st"
  shows "\<exists>st'. header_loop (Suc n) st = Some (Inr st') \<and> keep_alive_set st' = w \<and> con_length_set st' = l \<and>
     ps_vals st' = vals \<and> ps_con st' = con"
proof -
  note a = assms[unfolded at_line_def]
  let ?s = "st\<lparr>ps_bytes := b @ [NUL, NUL, NUL], ps_i := length b + 1, ps_done := True\<rparr>"
  have "(b @ [CR, LF, NUL])[length b := NUL, Suc (length b) := NUL] = b @ [NUL, NUL, NUL]"
    by (simp add: list_update_append)
  then have "header_step st = Some (Inr ?s)"
    using a by (simp add: header_step_def byte_at_def nth_append key_step_def separators_def is_ws_def)
  then have "header_loop (Suc n) st = header_loop n (?s\<lparr>ps_i := length b + 2\<rparr>)"
    using header_loop_one[of st ?s n] a by simp
  also have "\<dots> = Some (Inr (?s\<lparr>ps_i := length b + 2\<rparr>))" by (subst header_loop.simps) simp
  finally show ?thesis using a by simp
qed

section \<open>The parsed host\<close>

lemma element_at_listed: "listed a \<Longrightarrow> i < a_used a \<Longrightarrow> element_at a i = Some (elements a ! i)"
  using rep_adata rep_elements rep_facts(1,3) unfolding listed_def arr_inv_def element_at_def by (metis less_le_trans)

text \<open>The checks after the header loop, for a request without body.\<close>

lemma final_checks_ok:
  assumes "listed (headers (req con))" and "list_all2 field_of (elements (headers (req con))) hs"
    and "http_host (req con) = host_ptr 0 Null hs"
    and "\<And>k x. (k, x) \<in> set hs \<Longrightarrow> is_host k \<Longrightarrow> host_ok x \<and> x \<noteq> [] \<and> NUL \<notin> set x"
    and "http_version (req con) = HTTP_VERSION_1_1 \<Longrightarrow> \<exists>h \<in> set hs. is_host (fst h)"
    and "http_method (req con) \<noteq> HTTP_METHOD_POST"
  shows "final_checks limit HTTP_CONNECTION_UNSET False con =
     Some (0, con\<lparr>keep_alive := (if http_version (req con) = HTTP_VERSION_1_1 then 1 else 0)\<rparr>)"
proof -
  have host: "host_checks limit False (con\<lparr>keep_alive := z\<rparr>) = Some (0, con\<lparr>keep_alive := z\<rparr>)"
    "http_host (req con) \<noteq> Null \<Longrightarrow> \<exists>h. deref_buffer (headers (req con)) (http_host (req con)) = Some h \<and> h \<noteq> []" for z
  proof -
    have "(if http_host (req con) = Null then True else \<exists>x. deref_buffer (headers (req con)) (http_host (req con)) = Some (terminated x) \<and>
        host_ok x \<and> x \<noteq> [] \<and> NUL \<notin> set x)"
      using host_ptr_cases[of 0 Null hs]
    proof (elim disjE exE conjE)
      fix i assume i: "i < length hs" "host_ptr 0 Null hs = Slot (0 + i) 0" "is_host (fst (hs ! i))"
      obtain k x where h: "hs ! i = (k, x)" by (cases "hs ! i")
      have "i < a_used (headers (req con))"
        using i(1) assms(2) listed_used[OF assms(1)] by (simp add: list_all2_lengthD)
      moreover have "field_of (elements (headers (req con)) ! i) (k, x)"
        using list_all2_nthD2[OF assms(2) i(1)] h by simp
      ultimately have "deref_buffer (headers (req con)) (Slot i 0) = Some (terminated x)"
        using element_at_listed[OF assms(1)] by (simp add: deref_buffer_def field_of_def)
      moreover have "(k, x) \<in> set hs" using i(1) h by (metis nth_mem)
      ultimately show ?thesis using assms(3,4) i h by auto
    qed (use assms(3) in simp)
    then show "host_checks limit False (con\<lparr>keep_alive := z\<rparr>) = Some (0, con\<lparr>keep_alive := z\<rparr>)"
      "http_host (req con) \<noteq> Null \<Longrightarrow> \<exists>h. deref_buffer (headers (req con)) (http_host (req con)) = Some h \<and> h \<noteq> []"
      using assms(6) by (auto simp: host_checks_def method_checks_def content_checks_def check_hostname_ok Let_def split: if_splits)
  qed
  show ?thesis
  proof (cases "http_version (req con) = HTTP_VERSION_1_1")
    case True
    then obtain h where h: "h \<in> set hs" "is_host (fst h)" using assms(5) by blast
    then have "http_host (req con) \<noteq> Null" using host_ptr_cases[of 0 Null hs] assms(3) by auto
    with host True show ?thesis by (auto simp: final_checks_def Let_def)
  next
    case False
    with host(1) show ?thesis by (simp add: final_checks_def)
  qed
qed


section \<open>A request written out\<close>

definition render_request :: "char list \<Rightarrow> char list \<Rightarrow> char list \<Rightarrow> (char list \<times> char list) list \<Rightarrow> char list" where
  "render_request m u v hs = m @ '' '' @ u @ '' '' @ v @ [CR, LF] @ fields_text hs @ [CR, LF]"

definition request_ok :: "char list \<Rightarrow> char list \<Rightarrow> http_version_t \<Rightarrow> (char list \<times> char list) list \<Rightarrow> bool" where
  "request_ok m u ver hs \<longleftrightarrow> m \<noteq> [] \<and> line_part m \<and> get_http_method_key m \<notin> {HTTP_METHOD_UNSET, HTTP_METHOD_POST} \<and>
     u \<noteq> [] \<and> uri_ok u \<and> \<not> is_prefix ''http://'' u \<and> list_all field_ok hs \<and> distinct (field_keys hs) \<and> length hs \<le> INT_MAX \<and>
     list_all (\<lambda>(k, x). is_host k \<longrightarrow> host_ok x) hs \<and> (ver = HTTP_VERSION_1_1 \<longrightarrow> list_ex (\<lambda>(k, _). is_host k) hs)"

lemma uri_line_part: "uri_ok u \<Longrightarrow> line_part u"
proof -
  have "\<not> request_uri_is_valid_char (uchar CR)" "\<not> request_uri_is_valid_char (uchar NUL)"
    "\<not> request_uri_is_valid_char (uchar (CHR '' ''))" by (simp_all add: request_uri_is_valid_char_def uchar_def)
  then show "uri_ok u \<Longrightarrow> line_part u" by (auto simp: uri_ok_def line_part_def list_all_iff)
qed

lemma render_bytes:
  assumes "request (req con) = terminated (render_request m u v hs)" and "m \<noteq> []" and "line_part m"
  shows "parse_request_bytes con = Some (m @ CHR '' '' # u @ CHR '' '' # v @ CR # LF # (fields_text hs @ [CR, LF, NUL]))"
proof -
  obtain c t where m: "m = c # t" "c \<noteq> CR" using assms(2,3) by (cases m) (auto simp: line_part_def)
  have "byte_at (request (req con)) 0 = Some c"
    unfolding assms(1) m render_request_def terminated_def by (simp add: byte_at_def)
  moreover have "copy_bytes (request (req con)) = request (req con)" by (simp add: assms(1) copy_bytes_def)
  ultimately have "parse_request_bytes con = Some (terminated (render_request m u v hs))"
    using m(2) by (simp add: parse_request_bytes_def Let_def assms(1) del: byte_at_Some)
  then show ?thesis by (simp add: render_request_def terminated_def)
qed

lemma fields_steps: "sum_list (map (\<lambda>(k, x). length k + length x + 3) hs) \<le> length (fields_text hs)"
  by (induction hs) (auto simp: fields_text_def)

lemma field_host: "list_all field_ok hs \<Longrightarrow> list_all (\<lambda>(k, x). is_host k \<longrightarrow> host_ok x) hs \<Longrightarrow> (k, x) \<in> set hs \<Longrightarrow>
    is_host k \<Longrightarrow> host_ok x \<and> x \<noteq> [] \<and> NUL \<notin> set x"
  using text_char_not(2) by (fastforce simp: list_all_iff field_ok_def)

lemma parse_run:
  assumes "parse_request_bytes con = Some p" and "request_line_loop p 0 0 0 0 0 (con\<lparr>parse_request := p\<rparr>) = Some (Inr (p', i, j, c))"
    and "length (uri (req c)) \<noteq> 1" and "header_loop (length p') (start_state p' i j (split_vals srv) c) = Some (Inr e)"
    and "final_checks (max_request_size srv) (keep_alive_set e) (con_length_set e)
      ((ps_con e)\<lparr>parse_request := ps_bytes e, header_len := ps_i e\<rparr>) = Some (r, con')"
  shows "http_request_parse srv con = Some (r, srv\<lparr>split_vals := ps_vals e\<rparr>, con')"
  using assms by (simp add: http_request_parse_def)

text \<open>
  C9: a request written out line by line is parsed back to its parts: method, URI, version, and
  exactly the headers it was written with, in their order.  The request has no body and no header
  with a special meaning other than \<open>Host\<close>, and no header twice.
\<close>

theorem parse_rendered_request:
  assumes "request_ok m u ver hs" and "line_part v" and "request_version (allow_http11 (conf con)) v = Inr ver"
    and "request (req con) = terminated (render_request m u v hs)"
    and "listed (headers (req con))" and "a_used (headers (req con)) = 0" and "http_host (req con) = Null"
  shows "\<exists>srv' con'. http_request_parse srv con = Some (0, srv', con') \<and> http_status con' = 0 \<and>
     http_method (req con') = get_http_method_key m \<and> uri (req con') = terminated u \<and> http_version (req con') = ver \<and>
     list_all2 field_of (elements (headers (req con'))) hs \<and> keep_alive con' = (if ver = HTTP_VERSION_1_1 then 1 else 0)"
proof -
  note q = assms(1)[unfolded request_ok_def]
  let ?mt = "get_http_method_key m" and ?r = "fields_text hs @ [CR, LF, NUL]"
  let ?p = "m @ CHR '' '' # u @ CHR '' '' # v @ CR # LF # ?r" and ?b = "m @ NUL # u @ NUL # v @ [NUL, NUL]"
  let ?con = "con\<lparr>parse_request := ?p\<rparr>"
  let ?steps = "sum_list (map (\<lambda>(k, x). length k + length x + 3) hs)"
  have ver: "request_version (allow_http11 (conf ?con)) v = Inr ver" using assms(3) by simp
  obtain c where line: "request_line_loop ?p 0 0 0 0 0 ?con = Some (Inr (?b @ ?r, length ?b, length ?b, c))"
    "line_parsed ?mt u ver ?con c"
    using request_line_ok[OF _ uri_line_part assms(2) _ refl _ ver, of m u ?r] q by auto
  have c: "http_status c = 0" "http_method (req c) = ?mt" "uri (req c) = terminated u" "http_version (req c) = ver"
    "headers (req c) = headers (req con)" "http_host (req c) = Null" "elements (headers (req c)) = []"
    using line(2) assms(6,7) by (simp_all add: line_parsed_def elements_def)
  let ?st = "start_state (?b @ ?r) (length ?b) (length ?b) (split_vals srv) c"
  have st: "at_line ?b ?r HTTP_CONNECTION_UNSET False (split_vals srv) c ?st" by (simp add: at_line_def start_state_def)
  obtain n where n: "length (?b @ ?r) = ?steps + Suc n"
    using fields_steps[of hs] by (auto simp: le_iff_add)
  obtain s b' a ds where s: "header_loop (?steps + Suc n) ?st = header_loop (Suc n) s" "listed a" "elements a = ds"
    "list_all2 field_of ds hs" "at_line b' [CR, LF, NUL] HTTP_CONNECTION_UNSET False (split_vals srv) (with_fields a (host_ptr 0 Null hs) c) s"
    using header_lines[OF st, of "Suc n"] q assms(5,6) c by auto
  obtain e where e: "header_loop (Suc n) s = Some (Inr e)" "keep_alive_set e = HTTP_CONNECTION_UNSET" "\<not> con_length_set e"
    "ps_vals e = split_vals srv" "ps_con e = with_fields a (host_ptr 0 Null hs) c" using header_end[OF s(5)] by blast
  let ?f = "(ps_con e)\<lparr>parse_request := ps_bytes e, header_len := ps_i e\<rparr>"
  have f: "headers (req ?f) = a" "http_host (req ?f) = host_ptr 0 Null hs" "http_method (req ?f) = ?mt"
    "uri (req ?f) = terminated u" "http_version (req ?f) = ver" "http_status ?f = 0"
    using c e(5) by (simp_all add: with_fields_def nested_updates)
  have fin: "final_checks (max_request_size srv) HTTP_CONNECTION_UNSET False ?f =
      Some (0, ?f\<lparr>keep_alive := (if http_version (req ?f) = HTTP_VERSION_1_1 then 1 else 0)\<rparr>)"
  proof (rule final_checks_ok[where hs = hs])
    show "http_version (req ?f) = HTTP_VERSION_1_1 \<Longrightarrow> \<exists>h \<in> set hs. is_host (fst h)"
      unfolding f(5) using q by (force simp: list_ex_iff)
  qed (use f s q field_host[of hs] in auto)
  have m: "m \<noteq> []" "line_part m" and u: "length (uri (req c)) \<noteq> 1" using q c(3) by auto
  have loop: "header_loop (length (?b @ ?r)) ?st = Some (Inr e)" unfolding n s(1) by (rule e(1))
  have "http_request_parse srv con = Some (0, srv\<lparr>split_vals := ps_vals e\<rparr>,
      ?f\<lparr>keep_alive := (if http_version (req ?f) = HTTP_VERSION_1_1 then 1 else 0)\<rparr>)"
    by (rule parse_run[OF render_bytes[OF assms(4) m] line(1) u loop]) (use fin e(2,3) in simp)
  moreover have "req (?f\<lparr>keep_alive := z\<rparr>) = req ?f" "http_status (?f\<lparr>keep_alive := z\<rparr>) = http_status ?f" for z by simp_all
  ultimately show ?thesis
    using f s(3,4) by (intro exI[of _ "srv\<lparr>split_vals := ps_vals e\<rparr>"] exI conjI) (assumption | simp)+
qed


lemma sample_fields: "field_ok (''Host'', ''a.b'')" "field_ok (''X'', ''y z'')" "is_host ''Host''" "\<not> is_host ''X''"
proof -
  have k: "special_header ''Host'' special_headers = Some ''Host''" "special_header ''X'' special_headers = None"
    "list_all token ''Host''" "list_all token ''X''" "list_all text_char ''a.b''" "list_all text_char ''y z''" by code_simp+
  then show "field_ok (''Host'', ''a.b'')" "field_ok (''X'', ''y z'')" "is_host ''Host''" "\<not> is_host ''X''"
    by (simp_all add: field_ok_def tame_def terminated_def uchar_def is_ws_def)
qed

lemma sample_request_ok: "request_ok ''GET'' ''/'' HTTP_VERSION_1_1 [(''Host'', ''a.b''), (''X'', ''y z'')]"
proof -
  have "get_http_method_key ''GET'' = HTTP_METHOD_GET" "line_part ''GET''" "uri_ok ''/''" "\<not> is_prefix ''http://'' ''/''"
    "host_ok ''a.b''" by code_simp+
  moreover have "distinct (field_keys [(''Host'', ''a.b''), (''X'', ''y z'')])"
    by (simp add: field_keys_def fold_key_def terminated_def)
  moreover have "INT_MAX \<ge> 2" by (simp add: INT_MAX_def)
  ultimately show ?thesis by (simp add: request_ok_def sample_fields)
qed

definition rendered_connection :: connection where
  "rendered_connection = upd_req (\<lambda>q. q\<lparr>request := terminated (render_request ''GET'' ''/'' ''HTTP/1.1'' [(''Host'', ''a.b''), (''X'', ''y z'')])\<rparr>)
     (connection_init sample_server)"

lemma parse_rendered_request_witness:
  "\<exists>srv' con'. http_request_parse sample_server rendered_connection = Some (0, srv', con') \<and> http_status con' = 0 \<and>
     http_method (req con') = HTTP_METHOD_GET \<and> uri (req con') = terminated ''/'' \<and> http_version (req con') = HTTP_VERSION_1_1 \<and>
     list_all2 field_of (elements (headers (req con'))) [(''Host'', ''a.b''), (''X'', ''y z'')] \<and> keep_alive con' = 1"
proof -
  have c: "headers (req rendered_connection) = array_init" "http_host (req rendered_connection) = Null"
    "request (req rendered_connection) = terminated (render_request ''GET'' ''/'' ''HTTP/1.1'' [(''Host'', ''a.b''), (''X'', ''y z'')])"
    "allow_http11 (conf rendered_connection)"
    by (simp_all add: rendered_connection_def nested_updates connection_init_def config_setup_connection_def sample_server_def)
  have l: "listed array_init" "a_used array_init = 0"
    using array_init_inv(1) by (simp_all add: listed_def strings_ok_def every_element_def array_init_def)
  have v: "line_part ''HTTP/1.1''" "request_version True ''HTTP/1.1'' = Inr HTTP_VERSION_1_1"
    "get_http_method_key ''GET'' = HTTP_METHOD_GET" by code_simp+
  show ?thesis
    using parse_rendered_request[OF sample_request_ok v(1) _ c(3), of sample_server] c l v by simp
qed

end
