(* ===== verification/HttpChunk.thy ===== *)
theory HttpChunk
  imports Connection
begin

text \<open>
  \<open>http_chunk.c\<close>: appending to the response, framed as HTTP/1.1 chunks when the chunked transfer
  encoding is on.  The theorem at the end reads the frames with a decoder written from RFC 2616.
\<close>

section \<open>The code\<close>

text \<open>The number of hexadecimal digits, at most 8, and the digits themselves from the last one.\<close>

fun hex_places :: "nat \<Rightarrow> nat \<Rightarrow> nat" where
  "hex_places 0 len = 0"
| "hex_places (Suc left) len = (if len \<noteq> 0 then Suc (hex_places left (len div 16)) else 0)"

definition chunk_digit :: "nat \<Rightarrow> char" where
  "chunk_digit d = char_of (d + (if d \<le> 9 then 48 else 97 - 10))"

fun hex_fill :: "nat \<Rightarrow> nat \<Rightarrow> char list" where
  "hex_fill 0 len = []"
| "hex_fill (Suc j) len = hex_fill j (len div 16) @ [chunk_digit (len mod 16)]"

definition http_chunk_append_len :: "server \<Rightarrow> connection \<Rightarrow> nat \<Rightarrow> (int \<times> server \<times> connection) option" where
  "http_chunk_append_len srv con len = do {
     let digits = (if len = 0 then ''0'' else hex_fill (hex_places 8 len) len);
     let b = terminated (digits @ [CR, LF]);
     (_, cq) \<leftarrow> chunkqueue_append_buffer (write_queue con) b;
     Some (0, srv\<lparr>tmp_chunk_len := b\<rparr>, con\<lparr>write_queue := cq\<rparr>) }"

definition chunked :: "connection \<Rightarrow> bool" where
  "chunked con \<longleftrightarrow> transfer_encoding (response con)"

definition size_of_off_t :: "int \<Rightarrow> nat" where
  "size_of_off_t len = nat (len mod 2 ^ 64)"

text \<open>The size of the chunk goes in front and a line end behind, when the encoding is on.\<close>

definition append_size :: "server \<Rightarrow> connection \<Rightarrow> nat \<Rightarrow> (server \<times> connection) option" where
  "append_size srv con len =
     (if chunked con then do { (_, srv, con) \<leftarrow> http_chunk_append_len srv con len; Some (srv, con) }
      else Some (srv, con))"

definition append_line_end :: "bool \<Rightarrow> connection \<Rightarrow> connection option" where
  "append_line_end wanted con =
     (if chunked con \<and> wanted then do {
        (_, cq) \<leftarrow> chunkqueue_append_mem (write_queue con) [CR, LF] (2 + 1);
        Some (con\<lparr>write_queue := cq\<rparr>) }
      else Some con)"

definition http_chunk_append_file ::
    "server \<Rightarrow> connection option \<Rightarrow> char list \<Rightarrow> int \<Rightarrow> int \<Rightarrow> (int \<times> server \<times> connection option) option" where
  "http_chunk_append_file srv con_p fn offset len = (case con_p of
       None \<Rightarrow> Some (-1, srv, None)
     | Some con \<Rightarrow> do {
         (srv, con) \<leftarrow> append_size srv con (size_of_off_t len);
         (_, cq) \<leftarrow> chunkqueue_append_file (write_queue con) fn offset len;
         con \<leftarrow> append_line_end (len > 0) (con\<lparr>write_queue := cq\<rparr>);
         Some (0, srv, Some con) })"

text \<open>\<open>mem->used - 1\<close> wraps around for an unused buffer.\<close>

definition http_chunk_append_buffer ::
    "server \<Rightarrow> connection option \<Rightarrow> char list \<Rightarrow> (int \<times> server \<times> connection option) option" where
  "http_chunk_append_buffer srv con_p mem = (case con_p of
       None \<Rightarrow> Some (-1, srv, None)
     | Some con \<Rightarrow> do {
         (srv, con) \<leftarrow> append_size srv con (size_of_off_t (int (length mem) - 1));
         (_, cq) \<leftarrow> chunkqueue_append_buffer (write_queue con) mem;
         con \<leftarrow> append_line_end (length mem > 0) (con\<lparr>write_queue := cq\<rparr>);
         Some (0, srv, Some con) })"

definition http_chunk_append_mem ::
    "server \<Rightarrow> connection option \<Rightarrow> char list \<Rightarrow> nat \<Rightarrow> (int \<times> server \<times> connection option) option" where
  "http_chunk_append_mem srv con_p mem len = (case con_p of
       None \<Rightarrow> Some (-1, srv, None)
     | Some con \<Rightarrow>
         if len = 0 then do {
           (_, cq) \<leftarrow> (if chunked con then chunkqueue_append_mem (write_queue con) (''0'' @ [CR, LF, CR, LF]) (5 + 1)
                       else chunkqueue_append_mem (write_queue con) [] 1);
           Some (0, srv, Some (con\<lparr>write_queue := cq\<rparr>)) }
         else do {
           (srv, con) \<leftarrow> append_size srv con (len - 1);
           (_, cq) \<leftarrow> chunkqueue_append_mem (write_queue con) mem len;
           con \<leftarrow> append_line_end True (con\<lparr>write_queue := cq\<rparr>);
           Some (0, srv, Some con) })"

definition http_chunkqueue_length :: "connection option \<Rightarrow> int option" where
  "http_chunkqueue_length con_p = (case con_p of None \<Rightarrow> Some 0 | Some con \<Rightarrow> chunkqueue_length (write_queue con))"

section \<open>The size line\<close>

lemma chunk_digit_facts: "d < 16 \<Longrightarrow> digit_value (chunk_digit d) = Some d \<and> chunk_digit d \<noteq> CR \<and> chunk_digit d \<noteq> NUL"
proof -
  have "list_all (\<lambda>d. digit_value (chunk_digit d) = Some d \<and> chunk_digit d \<noteq> CR \<and> chunk_digit d \<noteq> NUL) [0..<16]" by code_simp
  then show "d < 16 \<Longrightarrow> digit_value (chunk_digit d) = Some d \<and> chunk_digit d \<noteq> CR \<and> chunk_digit d \<noteq> NUL" by (simp add: list_all_iff)
qed

lemma hex_value_snoc: "hex_value acc (s @ [c]) = hex_value acc s * 16 + the (digit_value c)"
  by (induction s arbitrary: acc) auto

lemma hex_fill_digits: "c \<in> set (hex_fill j len) \<Longrightarrow> digit_value c \<noteq> None \<and> c \<noteq> CR \<and> c \<noteq> NUL"
proof (induction j arbitrary: len)
  case (Suc j)
  then show ?case using chunk_digit_facts[of "len mod 16"] by auto
qed simp

lemma hex_fill_value: "hex_value 0 (hex_fill j len) = len mod 16 ^ j"
proof (induction j arbitrary: len)
  case (Suc j)
  have "len mod 16 ^ Suc j = 16 * (len div 16 mod 16 ^ j) + len mod 16"
    using mod_mult2_eq[of len 16 "16 ^ j"] by simp
  with Suc show ?case using chunk_digit_facts[of "len mod 16"] by (simp add: hex_value_snoc)
qed simp

lemma hex_places_bound: "len < 16 ^ n \<Longrightarrow> len < 16 ^ hex_places n len"
proof (induction n arbitrary: len)
  case (Suc n)
  show ?case
  proof (cases "len = 0")
    case False
    have "len div 16 < 16 ^ hex_places n (len div 16)" using Suc by (simp add: less_mult_imp_div_less)
    then have "len < 16 * 16 ^ hex_places n (len div 16)" by linarith
    then show ?thesis using False by simp
  qed simp
qed simp

definition size_line :: "nat \<Rightarrow> char list" where
  "size_line len = (if len = 0 then ''0'' else hex_fill (hex_places 8 len) len)"

lemma zero_digit: "digit_value (CHR ''0'') = Some 0"
  by code_simp

lemma size_line_ok:
  assumes "len < 2 ^ 32"
  shows "hex_value 0 (size_line len) = len" "c \<in> set (size_line len) \<Longrightarrow> digit_value c \<noteq> None \<and> c \<noteq> CR"
    "size_line len \<noteq> []"
proof -
  have "len < 16 ^ 8" using assms by simp
  from hex_places_bound[OF this] have "hex_value 0 (hex_fill (hex_places 8 len) len) = len"
    unfolding hex_fill_value by (rule mod_less)
  moreover have "hex_value 0 ''0'' = 0" by (simp add: zero_digit)
  ultimately show "hex_value 0 (size_line len) = len"
    unfolding size_line_def by (cases "len = 0") simp_all
  show "c \<in> set (size_line len) \<Longrightarrow> digit_value c \<noteq> None \<and> c \<noteq> CR"
    using hex_fill_digits[of c "hex_places 8 len" len] by (cases "len = 0") (simp_all add: size_line_def zero_digit)
  have "0 < len \<Longrightarrow> hex_places 8 len = Suc (hex_places 7 (len div 16))"     using hex_places.simps(2)[of 7 len] by simp
  then show "size_line len \<noteq> []" by (auto simp: size_line_def)
qed

section \<open>A decoder of the chunked encoding\<close>

text \<open>RFC 2616, 3.6.1, without extensions and trailers.\<close>

function dechunk :: "char list \<Rightarrow> char list option" where
  "dechunk s =
     (let ds = takeWhile (\<lambda>c. c \<noteq> CR) s; r = drop (length ds + 2) s; n = hex_value 0 ds in
      if ds = [] \<or> \<not> list_all (\<lambda>c. digit_value c \<noteq> None) ds \<or> take 2 (drop (length ds) s) \<noteq> [CR, LF] then None
      else if n = 0 then (if r = [CR, LF] then Some [] else None)
      else if take 2 (drop n r) \<noteq> [CR, LF] then None
      else map_option (\<lambda>b. take n r @ b) (dechunk (drop (n + 2) r)))"
  by pat_completeness auto
termination
  by (relation "measure length") (auto simp: takeWhile_eq_Nil_iff)

declare dechunk.simps [simp del]

definition frame :: "char list \<Rightarrow> char list" where
  "frame m = size_line (length m) @ [CR, LF] @ m @ [CR, LF]"

lemma size_line_prefix: "len < 2 ^ 32 \<Longrightarrow> takeWhile (\<lambda>c. c \<noteq> CR) (size_line len @ CR # s) = size_line len"
  using size_line_ok(2)[of len] by (subst takeWhile_append2) auto

lemma dechunk_frame:
  assumes "m \<noteq> []" and "length m < 2 ^ 32"
  shows "dechunk (frame m @ s) = map_option ((@) m) (dechunk s)"
proof -
  note l = size_line_ok[OF assms(2)] and tw = size_line_prefix[OF assms(2)]
  have "list_all (\<lambda>c. digit_value c \<noteq> None) (size_line (length m))" using l(2) by (auto simp: list_all_iff)
  with l(1,3) assms(1) show ?thesis
    by (subst dechunk.simps) (simp add: frame_def tw Let_def)
qed

lemma dechunk_end: "dechunk (''0'' @ [CR, LF, CR, LF]) = Some []"
  by (subst dechunk.simps) (simp add: zero_digit)


section \<open>What the operations put into the queue\<close>

definition requeued :: "connection \<Rightarrow> connection \<Rightarrow> bool" where
  "requeued con con' \<longleftrightarrow> (\<exists>q. con' = con\<lparr>write_queue := q\<rparr>)"

lemma requeued_simps [simp]: "requeued con (con\<lparr>write_queue := q\<rparr>)" "requeued con con"
proof -
  have "con = con\<lparr>write_queue := write_queue con\<rparr>" by simp
  then show "requeued con con" unfolding requeued_def by blast
qed (auto simp: requeued_def)

lemma requeued_trans: "requeued a b \<Longrightarrow> requeued b c \<Longrightarrow> requeued a c"
  by (auto simp: requeued_def)

lemma requeued_chunked: "requeued con con' \<Longrightarrow> chunked con' = chunked con"
  by (auto simp: requeued_def chunked_def)

lemma append_size_stream:
  assumes "holds_stream fs (write_queue con) s"
  obtains srv' con' where "append_size srv con len = Some (srv', con')" "requeued con con'"
    "holds_stream fs (write_queue con') (s @ (if chunked con then size_line len @ [CR, LF] else []))"
proof (cases "chunked con")
  case True
  let ?b = "terminated (size_line len @ [CR, LF])"
  from append_buffer_stream[OF assms, of ?b] obtain cq where
    "chunkqueue_append_buffer (write_queue con) ?b = Some (0, cq)" "holds_stream fs cq (s @ size_line len @ [CR, LF])"
    by (auto simp: valid_def result_stream_def)
  with True that[of _ "con\<lparr>write_queue := cq\<rparr>"] show ?thesis
    unfolding append_size_def http_chunk_append_len_def Let_def size_line_def[symmetric] by simp
qed (use that assms in \<open>simp add: append_size_def\<close>)

lemma append_line_end_stream:
  assumes "holds_stream fs (write_queue con) s" and "chunked con \<longrightarrow> wanted"
  obtains con' where "append_line_end wanted con = Some con'" "requeued con con'"
    "holds_stream fs (write_queue con') (s @ (if chunked con then [CR, LF] else []))"
proof (cases "chunked con")
  case True
  from append_mem_stream[OF assms(1), of 3 "[CR, LF]"] obtain cq where
    "chunkqueue_append_mem (write_queue con) [CR, LF] 3 = Some (0, cq)" "holds_stream fs cq (s @ [CR, LF])"
    by (auto simp: valid_def result_stream_def)
  with True assms(2) that[of "con\<lparr>write_queue := cq\<rparr>"] show ?thesis by (simp add: append_line_end_def)
qed (use that assms in \<open>simp add: append_line_end_def\<close>)

text \<open>A piece of the body, appended by \<open>f\<close>, between its size line and its line end.\<close>

lemma framed_stream:
  assumes "holds_stream fs (write_queue con) s" and "len = length m" and "chunked con \<longrightarrow> wanted"
    and "\<And>q t. holds_stream fs q t \<Longrightarrow> valid (f q) (result_stream fs (t @ m))"
  obtains srv' con' where "(do { (srv, con) \<leftarrow> append_size srv con len; (_, cq) \<leftarrow> f (write_queue con);
       con \<leftarrow> append_line_end wanted (con\<lparr>write_queue := cq\<rparr>); Some (0 :: int, srv, Some con) }) = Some (0, srv', Some con')"
    "requeued con con'" "holds_stream fs (write_queue con') (s @ (if chunked con then frame m else m))"
proof -
  obtain srv1 con1 where 1: "append_size srv con len = Some (srv1, con1)" "requeued con con1"
    "holds_stream fs (write_queue con1) (s @ (if chunked con then size_line len @ [CR, LF] else []))"
    using append_size_stream[OF assms(1)] by blast
  from assms(4)[OF 1(3)] obtain cq where 2: "f (write_queue con1) = Some (0, cq)"
    "holds_stream fs cq ((s @ (if chunked con then size_line len @ [CR, LF] else [])) @ m)"
    by (auto simp: valid_def result_stream_def)
  let ?con2 = "con1\<lparr>write_queue := cq\<rparr>"
  have c: "chunked ?con2 = chunked con" using requeued_chunked[OF 1(2)] by (simp add: chunked_def)
  obtain con3 where 3: "append_line_end wanted ?con2 = Some con3" "requeued ?con2 con3"
    "holds_stream fs (write_queue con3) (((s @ (if chunked con then size_line len @ [CR, LF] else [])) @ m) @
       (if chunked con then [CR, LF] else []))"
    using append_line_end_stream[of fs ?con2 "(s @ (if chunked con then size_line len @ [CR, LF] else [])) @ m" wanted]
      2(2) assms(3) unfolding c by auto
  have "requeued con con3" using requeued_trans[OF 1(2) requeued_trans[OF _ 3(2)]] by simp
  moreover have "holds_stream fs (write_queue con3) (s @ (if chunked con then frame m else m))"
    using 3(3) assms(2) by (cases "chunked con") (simp_all add: frame_def)
  ultimately show ?thesis using that[of srv1 con3] 1(1) 2(1) 3(1) by simp
qed


section \<open>The response body as a sink\<close>

datatype body_part = Mem "char list" | Buf "char list" | File_part "char list" int int

fun part_bytes :: "(char list \<Rightarrow> char list) \<Rightarrow> body_part \<Rightarrow> char list" where
  "part_bytes fs (Mem m) = m"
| "part_bytes fs (Buf m) = m"
| "part_bytes fs (File_part fn offset len) = take (nat len) (drop (nat offset) (fs (cstr (copy_bytes fn))))"

text \<open>
  An empty piece would be the last chunk, and a chunk of 4 GB or more loses the upper digits of its
  size; a file has to be as long as announced.
\<close>

definition part_ok :: "(char list \<Rightarrow> char list) \<Rightarrow> body_part \<Rightarrow> bool" where
  "part_ok fs p \<longleftrightarrow> part_bytes fs p \<noteq> [] \<and> length (part_bytes fs p) < 2 ^ 32 \<and>
     (case p of File_part fn offset len \<Rightarrow> int (length (part_bytes fs p)) = len | _ \<Rightarrow> True)"

fun append_part :: "server \<times> connection \<Rightarrow> body_part \<Rightarrow> (int \<times> server \<times> connection) option" where
  "append_part (srv, con) p = do {
     (r, srv, con_p) \<leftarrow> (case p of
         Mem m \<Rightarrow> http_chunk_append_mem srv (Some con) m (length m + 1)
       | Buf m \<Rightarrow> http_chunk_append_buffer srv (Some con) (terminated m)
       | File_part fn offset len \<Rightarrow> http_chunk_append_file srv (Some con) fn offset len);
     con \<leftarrow> con_p;
     Some (r, srv, con) }"

lemma append_part_ok:
  assumes "holds_stream fs (write_queue con) s" and "part_ok fs p"
  obtains srv' con' where "append_part (srv, con) p = Some (0, srv', con')" "requeued con con'"
    "holds_stream fs (write_queue con') (s @ (if chunked con then frame (part_bytes fs p) else part_bytes fs p))"
proof -
  let ?m = "part_bytes fs p"
  note len = assms(2)[unfolded part_ok_def]
  define f where "f q = (case p of Mem m \<Rightarrow> chunkqueue_append_mem q m (length m + 1)
     | Buf m \<Rightarrow> chunkqueue_append_buffer q (terminated m) | File_part fn offset len \<Rightarrow> chunkqueue_append_file q fn offset len)" for q
  define wanted where "wanted = (case p of File_part fn offset len \<Rightarrow> 0 < len | _ \<Rightarrow> True)"
  have f: "valid (f q) (result_stream fs (t @ ?m))" if "holds_stream fs q t" for q t
    using append_mem_stream[OF that, of "length ?m + 1" ?m] append_buffer_stream[OF that, of "terminated ?m"] append_file_stream[OF that]
    by (cases p) (simp_all add: f_def)
  have w: "chunked con \<longrightarrow> wanted" using len by (auto simp: wanted_def split: body_part.splits)
  obtain srv' con' where r: "(do { (srv, con) \<leftarrow> append_size srv con (length ?m); (_, cq) \<leftarrow> f (write_queue con);
       con \<leftarrow> append_line_end wanted (con\<lparr>write_queue := cq\<rparr>); Some (0 :: int, srv, Some con) }) = Some (0, srv', Some con')"
    "requeued con con'" "holds_stream fs (write_queue con') (s @ (if chunked con then frame ?m else ?m))"
    by (rule framed_stream[OF assms(1) refl w, where f = f and srv = srv and m = ?m]) (use f in blast)+
  have "(case p of
         Mem m \<Rightarrow> http_chunk_append_mem srv (Some con) m (length m + 1)
       | Buf m \<Rightarrow> http_chunk_append_buffer srv (Some con) (terminated m)
       | File_part fn offset len \<Rightarrow> http_chunk_append_file srv (Some con) fn offset len) = Some (0, srv', Some con')"
  proof (cases p)
    case (Buf m)
    then have "size_of_off_t (int (length (terminated m)) - 1) = length m" using len by (simp add: size_of_off_t_def)
    with r(1) Buf show ?thesis by (simp add: http_chunk_append_buffer_def f_def wanted_def)
  next
    case (File_part fn offset n)
    then have "size_of_off_t n = length ?m" using len by (auto simp: size_of_off_t_def)
    with r(1) File_part show ?thesis by (simp add: http_chunk_append_file_def f_def wanted_def)
  qed (use r(1) in \<open>simp add: http_chunk_append_mem_def f_def wanted_def\<close>)
  then show ?thesis using that[OF _ r(2,3)] by simp
qed

text \<open>
  What the queue carries behind the response header \<open>hd\<close>: the body as it is, or chunks that decode
  to it whatever follows.
\<close>

definition carries :: "(char list \<Rightarrow> char list) \<Rightarrow> char list \<Rightarrow> bool \<Rightarrow> server \<times> connection \<Rightarrow> char list \<Rightarrow> bool" where
  "carries fs h b sc s \<longleftrightarrow> chunked (snd sc) = b \<and> (\<exists>t. holds_stream fs (write_queue (snd sc)) (h @ t) \<and>
     (if b then \<forall>u. dechunk (t @ u) = map_option ((@) s) (dechunk u) else t = s))"

interpretation body: byte_sink "carries fs h b" "part_ok fs" "part_bytes fs" append_part for fs h b
proof unfold_locales
  fix sc s p assume a: "carries fs h b sc s" "part_ok fs p"
  obtain srv con where sc: "sc = (srv, con)" by (cases sc)
  from a sc obtain t where t: "chunked con = b" "holds_stream fs (write_queue con) (h @ t)"
    "if b then \<forall>u. dechunk (t @ u) = map_option ((@) s) (dechunk u) else t = s" by (auto simp: carries_def)
  obtain srv' con' where r: "append_part (srv, con) p = Some (0, srv', con')" "requeued con con'"
    "holds_stream fs (write_queue con') (h @ t @ (if b then frame (part_bytes fs p) else part_bytes fs p))"
    using append_part_ok[OF t(2) a(2), of srv] t(1) by auto
  have "dechunk (frame (part_bytes fs p) @ u) = map_option ((@) (part_bytes fs p)) (dechunk u)" for u
    using a(2) by (intro dechunk_frame) (auto simp: part_ok_def)
  moreover have "(\<lambda>x. s @ part_bytes fs p @ x) = (@) (s @ part_bytes fs p)" by (simp add: fun_eq_iff)
  ultimately have "carries fs h b (srv', con') (s @ part_bytes fs p)"
    using r(3) t(3) requeued_chunked[OF r(2)] t(1)
    by (auto simp: carries_def option.map_comp o_def intro!: exI[of _ "t @ (if b then frame (part_bytes fs p) else part_bytes fs p)"])
  with r(1) sc show "valid (append_part sc p) (\<lambda>(r, sc'). r = 0 \<and> carries fs h b sc' (s @ part_bytes fs p))" by simp
qed


section \<open>Properties\<close>

fun append_parts :: "server \<times> connection \<Rightarrow> body_part list \<Rightarrow> (server \<times> connection) option" where
  "append_parts sc [] = Some sc"
| "append_parts sc (p # ps) = do { (_, sc) \<leftarrow> append_part sc p; append_parts sc ps }"

lemma append_parts_pushes: "append_parts sc ps = body.pushes sc ps"
  by (induction ps arbitrary: sc) auto

text \<open>A body in parts, ended the way the state machine ends it.\<close>

definition send_body :: "server \<Rightarrow> connection \<Rightarrow> body_part list \<Rightarrow> (server \<times> connection) option" where
  "send_body srv con ps = do {
     (srv, con) \<leftarrow> append_parts (srv, con) ps;
     (_, srv, con_p) \<leftarrow> http_chunk_append_mem srv (Some con) [] 0;
     con \<leftarrow> con_p;
     Some (srv, con) }"

text \<open>
  C14: a body that is appended in any non-empty pieces smaller than 4 GB, from memory, buffers and
  files, and then ended, reaches the write queue behind the header as it is, or, with the chunked
  transfer encoding, as text that a decoder of the encoding reads back to the body.
\<close>

theorem send_body_decodes:
  assumes "holds_stream fs (write_queue con) h" and "list_all (part_ok fs) ps"
  shows "valid (send_body srv con ps) (\<lambda>(srv', con'). \<exists>t. holds_stream fs (write_queue con') (h @ t) \<and>
     (if chunked con then dechunk t = Some (concat (map (part_bytes fs) ps)) else t = concat (map (part_bytes fs) ps)))"
proof -
  let ?s = "concat (map (part_bytes fs) ps)"
  have "map_option ((@) []) x = x" for x :: "char list option" by (cases x) simp_all
  then have "carries fs h (chunked con) (srv, con) []"
    using assms(1) by (auto simp: carries_def intro!: exI[of _ "[]"])
  from body.pushes[OF this assms(2)] obtain srv1 con1 where 1: "append_parts (srv, con) ps = Some (srv1, con1)"
    "carries fs h (chunked con) (srv1, con1) ?s" by (auto simp: append_parts_pushes valid_def)
  then obtain t where t: "chunked con1 = chunked con" "holds_stream fs (write_queue con1) (h @ t)"
    "if chunked con then \<forall>u. dechunk (t @ u) = map_option ((@) ?s) (dechunk u) else t = ?s" by (auto simp: carries_def)
  define e where "e = (if chunked con then ''0'' @ [CR, LF, CR, LF] else [])"
  have "valid (chunkqueue_append_mem (write_queue con1) e (length e + 1)) (result_stream fs ((h @ t) @ e))"
    using append_mem_stream[OF t(2), of "length e + 1" e] by simp
  then obtain q where q: "chunkqueue_append_mem (write_queue con1) e (length e + 1) = Some (0, q)" "holds_stream fs q (h @ t @ e)"
    by (auto simp: valid_def result_stream_def)
  have "http_chunk_append_mem srv1 (Some con1) [] 0 = Some (0, srv1, Some (con1\<lparr>write_queue := q\<rparr>))"
    using q(1) t(1) by (cases "chunked con") (simp_all add: http_chunk_append_mem_def e_def eval_nat_numeral)
  then have "send_body srv con ps = Some (srv1, con1\<lparr>write_queue := q\<rparr>)" using 1(1) by (simp add: send_body_def)
  moreover have "if chunked con then dechunk (t @ e) = Some ?s else t @ e = ?s"
    using t(3) dechunk_end by (simp add: e_def)
  ultimately show ?thesis using q(2) by auto
qed

lemma send_body_decodes_witness:
  "valid (send_body sample_server ((connection_init sample_server)
       \<lparr>response := (response (connection_init sample_server))\<lparr>transfer_encoding := True\<rparr>\<rparr>)
       [Mem ''hello'', Buf ''world'', File_part (terminated ''f'') 1 2])
     (\<lambda>(srv', con'). \<exists>t. holds_stream (\<lambda>_. ''abcd'') (write_queue con') ([] @ t) \<and> dechunk t = Some ''helloworldbc'')"
proof -
  let ?con = "(connection_init sample_server)\<lparr>response := (response (connection_init sample_server))\<lparr>transfer_encoding := True\<rparr>\<rparr>"
  let ?ps = "[Mem ''hello'', Buf ''world'', File_part (terminated ''f'') 1 2]"
  have "holds_stream (\<lambda>_. ''abcd'') (write_queue ?con) []" "chunked ?con"
    using init_stream by (simp_all add: connection_init_def config_setup_connection_def chunked_def)
  moreover have "part_bytes (\<lambda>_. ''abcd'') (File_part (terminated ''f'') 1 2) = ''bc''" by code_simp
  then have "list_all (part_ok (\<lambda>_. ''abcd'')) ?ps" "concat (map (part_bytes (\<lambda>_. ''abcd'')) ?ps) = ''helloworldbc''"
    by (simp_all add: part_ok_def del: part_bytes.simps(3))
  ultimately show ?thesis using send_body_decodes[of "\<lambda>_. ''abcd''" ?con "[]" ?ps sample_server] by simp
qed

text \<open>
  The deviations: a size of 4 GB is written as zero, an unused buffer is announced with eight
  digits, and an empty piece is the end of the body.
\<close>

lemma hex_places_full: "16 ^ n \<le> len \<Longrightarrow> hex_places n len = n"
proof (induction n arbitrary: len)
  case (Suc n)
  then have "16 ^ n \<le> len div 16" by (simp add: less_eq_div_iff_mult_less_eq mult.commute)
  moreover have "0 < (16::nat) ^ Suc n" by simp
  with Suc.prems have "len \<noteq> 0" by linarith
  ultimately have "16 ^ n \<le> len div 16" "len \<noteq> 0" by blast+
  with Suc.IH show ?case by simp
qed simp

lemma hex_fill_ones: "n \<le> m \<Longrightarrow> hex_fill n (16 ^ m - 1) = replicate n (CHR ''f'')"
proof (induction n arbitrary: m)
  case (Suc n)
  then obtain k where k: "m = Suc k" "n \<le> k" by (cases m) auto
  have "(16::nat) ^ m - 1 = 15 + (16 ^ k - 1) * 16" using k(1) by (simp add: diff_mult_distrib)
  then have "(16 ^ m - 1) div 16 = 16 ^ k - (1::nat)" "(16 ^ m - 1) mod 16 = (15::nat)"
    by (simp_all only: div_mult_self1 mod_mult_self1) simp_all
  moreover have "chunk_digit 15 = CHR ''f''" by code_simp
  ultimately show ?case using Suc.IH[OF k(2)] by (simp add: replicate_append_same)
qed simp

lemma size_line_wraps: "hex_value 0 (size_line (2 ^ 32)) = 0"
proof -
  have "hex_value 0 (hex_fill (hex_places 8 (2 ^ 32)) (2 ^ 32)) = 2 ^ 32 mod 16 ^ 8"
    using hex_places_full[of 8 "2 ^ 32"] by (simp only: hex_fill_value) simp
  then show ?thesis by (simp add: size_line_def)
qed

lemma unused_buffer_size: "size_line (size_of_off_t (int (length ([] :: char list)) - 1)) = ''ffffffff''"
proof -
  have "size_of_off_t (int (length ([] :: char list)) - 1) = 16 ^ 16 - 1" by (simp add: size_of_off_t_def)
  moreover have "hex_places 8 (16 ^ 16 - 1) = 8" by (rule hex_places_full) simp
  moreover have "replicate 8 (CHR ''f'') = ''ffffffff''" by code_simp
  ultimately show ?thesis using hex_fill_ones[of 8 16] by (simp only: size_line_def) simp
qed

lemma empty_piece_ends_body: "dechunk (frame []) = Some []"
  by (subst dechunk.simps) (simp add: frame_def size_line_def zero_digit)

end
