(* ===== verification/Queues.thy ===== *)
theory Queues
  imports Connection
begin

text \<open>
  The lists of connections: the job list and the queue of connections that wait for a file
  descriptor (\<open>joblist.c\<close>), and the pool of connections (\<open>connections.c\<close>).  A connection is
  known by its address; the pool comes with the heap the addresses point into.
\<close>

section \<open>The code of joblist.c\<close>

text \<open>Room for one more pointer; new cells are unwritten.\<close>

definition list_room :: "connections_list \<Rightarrow> connections_list" where
  "list_room l =
     (if con_size l = 0 then l\<lparr>con_size := 16, con_ptr := replicate 16 None\<rparr>
      else if con_used l = con_size l then
        l\<lparr>con_size := con_size l + 16,
          con_ptr := take (con_size l + 16) (con_ptr l) @ replicate (con_size l + 16 - length (con_ptr l)) None\<rparr>
      else l)"

definition list_append :: "connections_list \<Rightarrow> nat \<Rightarrow> connections_list option" where
  "list_append l con = do {
     let l = list_room l;
     guard (con_used l < length (con_ptr l));
     Some (l\<lparr>con_ptr := (con_ptr l)[con_used l := Some con], con_used := con_used l + 1\<rparr>) }"

definition joblist_append :: "server \<Rightarrow> connection \<Rightarrow> (int \<times> server) option" where
  "joblist_append srv con =
     (if in_joblist con then Some (0, srv)
      else do { l \<leftarrow> list_append (joblist srv) (address con); Some (0, srv\<lparr>joblist := l\<rparr>) })"

definition fdwaitqueue_append :: "server \<Rightarrow> connection \<Rightarrow> (int \<times> server) option" where
  "fdwaitqueue_append srv con = do {
     l \<leftarrow> list_append (fdwaitqueue srv) (address con);
     Some (0, srv\<lparr>fdwaitqueue := l\<rparr>) }"

text \<open>The first pointer is taken and the others are moved down.\<close>

definition fdwaitqueue_unshift :: "connections_list \<Rightarrow> (nat option \<times> connections_list) option" where
  "fdwaitqueue_unshift l =
     (if con_used l = 0 then Some (None, l)
      else do {
        guard (con_used l \<le> length (con_ptr l));
        con \<leftarrow> con_ptr l ! 0;
        let n = con_used l - 1;
        Some (Some con, l\<lparr>con_ptr := take n (drop 1 (con_ptr l)) @ drop n (con_ptr l), con_used := n\<rparr>) })"

section \<open>They are queues\<close>

definition list_rep :: "connections_list \<Rightarrow> nat list \<Rightarrow> bool" where
  "list_rep l xs \<longleftrightarrow> length (con_ptr l) = con_size l \<and> con_used l = length xs \<and> length xs \<le> con_size l \<and>
     take (length xs) (con_ptr l) = map Some xs"

lemma no_connections_rep: "list_rep no_connections []"
  by (simp add: list_rep_def no_connections_def)

lemma list_append_ok:
  assumes "list_rep l xs"
  shows "valid (list_append l x) (\<lambda>l'. list_rep l' (xs @ [x]))"
proof -
  let ?r = "list_room l"
  have r: "length (con_ptr ?r) = con_size ?r" "con_used ?r = length xs" "length xs < con_size ?r"
    "take (length xs) (con_ptr ?r) = map Some xs"
    using assms by (auto simp: list_rep_def list_room_def)
  then have "take (length xs + 1) ((con_ptr ?r)[length xs := Some x]) = map Some (xs @ [x])"
    by (simp add: take_Suc_conv_app_nth)
  with r show ?thesis by (simp add: list_append_def Let_def list_rep_def)
qed

lemma unshift_ok:
  assumes "list_rep l xs"
  shows "valid (fdwaitqueue_unshift l) (\<lambda>(r, l'). case xs of [] \<Rightarrow> r = None \<and> list_rep l' [] | y # ys \<Rightarrow> r = Some y \<and> list_rep l' ys)"
proof (cases xs)
  case Nil
  with assms show ?thesis by (simp add: fdwaitqueue_unshift_def list_rep_def)
next
  case (Cons y ys)
  then have l: "length (con_ptr l) = con_size l" "con_used l = Suc (length ys)" "Suc (length ys) \<le> con_size l"
    "take (Suc (length ys)) (con_ptr l) = Some y # map Some ys" using assms by (simp_all add: list_rep_def)
  then obtain p where p: "con_ptr l = Some y # p" "take (length ys) p = map Some ys" by (cases "con_ptr l") auto
  with l Cons show ?thesis by (simp add: fdwaitqueue_unshift_def list_rep_def Let_def)
qed

text \<open>A first-in first-out queue, and what runs of its operations give.\<close>

datatype fifo_op = Enq nat | Deq

fun fifo_spec :: "fifo_op list \<Rightarrow> nat list \<Rightarrow> nat option list \<times> nat list" where
  "fifo_spec [] xs = ([], xs)"
| "fifo_spec (Enq x # ops) xs = fifo_spec ops (xs @ [x])"
| "fifo_spec (Deq # ops) xs = (let (rs, ys) = fifo_spec ops (tl xs) in ((case xs of [] \<Rightarrow> None | x # _ \<Rightarrow> Some x) # rs, ys))"

locale fifo =
  fixes rep :: "'q \<Rightarrow> nat list \<Rightarrow> bool" and enq :: "'q \<Rightarrow> nat \<Rightarrow> 'q option" and deq :: "'q \<Rightarrow> (nat option \<times> 'q) option"
  assumes enq: "rep q xs \<Longrightarrow> valid (enq q x) (\<lambda>q'. rep q' (xs @ [x]))"
    and deq: "rep q xs \<Longrightarrow> valid (deq q) (\<lambda>(r, q'). r = (case xs of [] \<Rightarrow> None | x # _ \<Rightarrow> Some x) \<and> rep q' (tl xs))"
begin

fun run :: "fifo_op list \<Rightarrow> 'q \<Rightarrow> (nat option list \<times> 'q) option" where
  "run [] q = Some ([], q)"
| "run (Enq x # ops) q = do { q \<leftarrow> enq q x; run ops q }"
| "run (Deq # ops) q = do { (r, q) \<leftarrow> deq q; (rs, q) \<leftarrow> run ops q; Some (r # rs, q) }"

lemma run_ok: "rep q xs \<Longrightarrow> valid (run ops q) (\<lambda>(rs, q'). rs = fst (fifo_spec ops xs) \<and> rep q' (snd (fifo_spec ops xs)))"
proof (induction ops arbitrary: q xs)
  case (Cons op ops)
  show ?case
  proof (cases op)
    case (Enq x)
    from enq[OF Cons.prems, of x] obtain q' where "enq q x = Some q'" "rep q' (xs @ [x])" by (auto simp: valid_def)
    with Cons.IH[of q' "xs @ [x]"] Enq show ?thesis by simp
  next
    case Deq
    from deq[OF Cons.prems] obtain q' where "deq q = Some (case xs of [] \<Rightarrow> None | x # _ \<Rightarrow> Some x, q')" "rep q' (tl xs)"
      by (auto simp: valid_def)
    with Cons.IH[of q' "tl xs"] Deq show ?thesis by (auto simp: valid_def case_prod_unfold Let_def)
  qed
qed simp

end

interpretation waiting: fifo list_rep list_append fdwaitqueue_unshift
proof unfold_locales
  fix l xs x assume "list_rep l xs"
  then show "valid (list_append l x) (\<lambda>l'. list_rep l' (xs @ [x]))" by (rule list_append_ok)
next
  fix l xs assume "list_rep l xs"
  from unshift_ok[OF this]
  show "valid (fdwaitqueue_unshift l) (\<lambda>(r, l'). r = (case xs of [] \<Rightarrow> None | x # _ \<Rightarrow> Some x) \<and> list_rep l' (tl xs))"
    by (cases xs) (auto elim!: valid_weaken)
qed


section \<open>The pool of connections\<close>

text \<open>
  The heap is the list of all connections ever made, by address; \<open>connection_init\<close> allocates the
  next one.  In the pool's vector the used connections come first.
\<close>

definition new_connections :: "server \<Rightarrow> connection list \<Rightarrow> nat \<Rightarrow> nat option list \<times> connection list" where
  "new_connections srv heap n =
     (map Some [length heap..<length heap + n],
      heap @ map (\<lambda>a. (connection_init srv)\<lparr>address := a\<rparr>) [length heap..<length heap + n])"

definition pool_room :: "server \<Rightarrow> connection list \<Rightarrow> connections_list \<Rightarrow> connections_list \<times> connection list" where
  "pool_room srv heap l =
     (if con_size l = 0 then
        let (new, heap) = new_connections srv heap 128 in (l\<lparr>con_size := 128, con_ptr := new\<rparr>, heap)
      else if con_size l = con_used l then
        let (new, heap) = new_connections srv heap 128
        in (l\<lparr>con_size := con_size l + 128, con_ptr := take (con_used l) (con_ptr l) @ new\<rparr>, heap)
      else (l, heap))"

definition at_address :: "connection list \<Rightarrow> nat \<Rightarrow> connection option" where
  "at_address heap a = (if a < length heap then Some (heap ! a) else None)"

text \<open>The result is the address of the connection; the first component the unlinked files.\<close>

definition connections_get_new_connection ::
    "(server \<Rightarrow> connection \<Rightarrow> connection) \<Rightarrow> server \<Rightarrow> connection list \<Rightarrow> (char list list \<times> nat \<times> server \<times> connection list) option" where
  "connections_get_new_connection plugins_reset srv heap = do {
     let (l, heap) = pool_room srv heap (conns srv);
     guard (con_used l < length (con_ptr l));
     a \<leftarrow> con_ptr l ! con_used l;
     con \<leftarrow> at_address heap a;
     (gone, con) \<leftarrow> connection_reset plugins_reset srv con;
     let con = con\<lparr>ndx := int (con_used l)\<rparr>;
     Some (gone, a, srv\<lparr>conns := l\<lparr>con_used := con_used l + 1\<rparr>\<rparr>, heap[a := con]) }"

definition set_ndx :: "connection list \<Rightarrow> nat \<Rightarrow> int \<Rightarrow> connection list option" where
  "set_ndx heap a i = do { con \<leftarrow> at_address heap a; Some (heap[a := con\<lparr>ndx := i\<rparr>]) }"

definition connection_del :: "server \<Rightarrow> connection list \<Rightarrow> nat option \<Rightarrow> (int \<times> server \<times> connection list) option" where
  "connection_del srv heap con_p = (case con_p of
       None \<Rightarrow> Some (-1, srv, heap)
     | Some a \<Rightarrow> do {
         con \<leftarrow> at_address heap a;
         let l = conns srv;
         if ndx con = -1 then Some (-1, srv, heap)
         else do {
           let i = nat (ndx con);
           guard (0 \<le> ndx con \<and> 0 < con_used l);
           (l, heap) \<leftarrow> (if i \<noteq> con_used l - 1 then do {
               guard (i < length (con_ptr l) \<and> con_used l \<le> length (con_ptr l));
               temp \<leftarrow> con_ptr l ! i;
               final \<leftarrow> con_ptr l ! (con_used l - 1);
               heap \<leftarrow> set_ndx heap final (int i);
               heap \<leftarrow> set_ndx heap temp (-1);
               Some (l\<lparr>con_ptr := (con_ptr l)[i := Some final, con_used l - 1 := Some temp]\<rparr>, heap) }
             else Some (l, heap));
           heap \<leftarrow> set_ndx heap a (-1);
           Some (0, srv\<lparr>conns := l\<lparr>con_used := con_used l - 1\<rparr>\<rparr>, heap) } })"

text \<open>\<open>as\<close> are the addresses in the vector, of which the first \<open>n\<close> are in use.\<close>

definition pool_rep :: "connections_list \<Rightarrow> connection list \<Rightarrow> nat list \<Rightarrow> nat \<Rightarrow> bool" where
  "pool_rep l heap as n \<longleftrightarrow> con_ptr l = map Some as \<and> con_size l = length as \<and> con_used l = n \<and> n \<le> length as \<and>
     distinct as \<and> (\<forall>a \<in> set as. a < length heap \<and> con_ok (heap ! a)) \<and>
     (\<forall>i < length as. ndx (heap ! (as ! i)) = (if i < n then int i else -1))"

definition pool_inv :: "server \<Rightarrow> connection list \<Rightarrow> bool" where
  "pool_inv srv heap \<longleftrightarrow> (\<exists>as n. pool_rep (conns srv) heap as n)"

definition in_use :: "server \<Rightarrow> nat set" where
  "in_use srv = {a. Some a \<in> set (take (con_used (conns srv)) (con_ptr (conns srv)))}"

lemma con_ok_ndx [simp]: "con_ok (con\<lparr>ndx := i\<rparr>) = con_ok con" "con_ok (con\<lparr>address := a\<rparr>) = con_ok con"
  by (simp_all add: con_ok_def)

lemma init_ndx [simp]: "ndx (connection_init srv) = -1"
  by (simp add: connection_init_def config_setup_connection_def)

lemma pool_in_use: "pool_rep (conns srv) heap as n \<Longrightarrow> in_use srv = set (take n as)"
  by (auto simp: in_use_def pool_rep_def take_map)

lemma pool_room_rep:
  assumes "pool_rep l heap as n"
  shows "\<exists>as'. pool_rep (fst (pool_room srv heap l)) (snd (pool_room srv heap l)) as' n \<and> n < length as' \<and> take n as' = take n as \<and>
     (\<forall>a < length heap. snd (pool_room srv heap l) ! a = heap ! a) \<and> length heap \<le> length (snd (pool_room srv heap l))"
proof -
  let ?new = "[length heap..<length heap + 128]" and ?hs = "map (\<lambda>a. (connection_init srv)\<lparr>address := a\<rparr>) [length heap..<length heap + 128]"
  have new: "\<forall>a \<in> set ?new. a < length (heap @ ?hs) \<and> con_ok ((heap @ ?hs) ! a) \<and> ndx ((heap @ ?hs) ! a) = -1"
    using con_ok_init by (auto simp: nth_append)
  have a: "con_ptr l = map Some as" "con_size l = length as" "con_used l = n" "n \<le> length as" "distinct as"
    "\<forall>a \<in> set as. a < length heap \<and> con_ok (heap ! a)"
    "\<forall>i < length as. ndx (heap ! (as ! i)) = (if i < n then int i else -1)" using assms by (simp_all add: pool_rep_def)
  show ?thesis
  proof (cases "length as = n")
    case True
    let ?l = "l\<lparr>con_size := n + 128, con_ptr := map Some (as @ ?new)\<rparr>"
    have room: "pool_room srv heap l = (?l, heap @ ?hs)"
      using a True by (cases "n = 0") (auto simp: pool_room_def new_connections_def)
    have "pool_rep ?l (heap @ ?hs) (as @ ?new) n"
      unfolding pool_rep_def
    proof (intro conjI ballI allI impI)
      fix b assume "b \<in> set (as @ ?new)"
      then show "b < length (heap @ ?hs)" "con_ok ((heap @ ?hs) ! b)" using a(6) new by (auto simp: nth_append)
    next
      fix i assume "i < length (as @ ?new)"
      then show "ndx ((heap @ ?hs) ! ((as @ ?new) ! i)) = (if i < n then int i else -1)"
        using a(6,7) True new by (auto simp: nth_append)
    qed (use a True in auto)
    with room True show ?thesis by (intro exI[of _ "as @ ?new"]) (auto simp: nth_append)
  next
    case False
    then have "pool_room srv heap l = (l, heap)" using a by (auto simp: pool_room_def)
    with assms False a(4) show ?thesis by auto
  qed
qed


lemma rep_entry:
  assumes "pool_rep l heap as n" and "i < length as"
  shows "con_ptr l ! i = Some (as ! i)" "at_address heap (as ! i) = Some (heap ! (as ! i))" "con_ok (heap ! (as ! i))"
    "ndx (heap ! (as ! i)) = (if i < n then int i else -1)" "as ! i < length heap"
  using assms nth_mem[OF assms(2)] by (auto simp: pool_rep_def at_address_def)

definition resets :: "(server \<Rightarrow> connection \<Rightarrow> connection) \<Rightarrow> bool" where
  "resets pr \<longleftrightarrow> (\<forall>srv con. con_ok con \<longrightarrow> con_ok (pr srv con))"

lemma get_new_connection_ok:
  assumes "pool_rep (conns srv) heap as n" and "resets pr"
  shows "valid (connections_get_new_connection pr srv heap) (\<lambda>(gone, a, srv', heap').
     (\<exists>as'. pool_rep (conns srv') heap' as' (n + 1)) \<and> a \<notin> in_use srv \<and> in_use srv' = insert a (in_use srv) \<and>
     a < length heap' \<and> fresh_request (heap' ! a) \<and> ndx (heap' ! a) = int n \<and> (\<forall>b \<in> in_use srv. heap' ! b = heap ! b))"
proof -
  define l1 heap1 where "l1 = fst (pool_room srv heap (conns srv))" and "heap1 = snd (pool_room srv heap (conns srv))"
  obtain as' where r: "pool_rep l1 heap1 as' n" "n < length as'" "take n as' = take n as" "\<forall>a < length heap. heap1 ! a = heap ! a"
    using pool_room_rep[OF assms(1), of srv] by (auto simp: l1_def heap1_def)
  let ?a = "as' ! n"
  note e = rep_entry[OF r(1,2)]
  obtain gone con where con: "connection_reset pr srv (heap1 ! ?a) = Some (gone, con)" "fresh_request con" "con_ok con"
    using connection_reset_ok[of pr srv "heap1 ! ?a"] assms(2) e(3) by (auto simp: resets_def)
  let ?heap = "heap1[?a := con\<lparr>ndx := int n\<rparr>]" and ?l = "l1\<lparr>con_used := n + 1\<rparr>"
  have p: "con_ptr l1 = map Some as'" "con_used l1 = n" "distinct as'" using r(1) by (simp_all add: pool_rep_def)
  have res: "connections_get_new_connection pr srv heap = Some (gone, ?a, srv\<lparr>conns := ?l\<rparr>, ?heap)"
    unfolding connections_get_new_connection_def
    using con(1) e(1,2) p(1,2) r(2) by (simp add: case_prod_unfold Let_def flip: l1_def heap1_def)
  have other: "?heap ! (as' ! i) = heap1 ! (as' ! i)" if "i < length as'" "i \<noteq> n" for i
    using that p(3) r(2) by (simp add: nth_list_update nth_eq_iff_index_eq)
  have "pool_rep ?l ?heap as' (n + 1)"
    unfolding pool_rep_def
  proof (intro conjI ballI allI impI)
    fix b assume "b \<in> set as'"
    with r(1) have "b < length heap1" "con_ok (heap1 ! b)" by (auto simp: pool_rep_def)
    with con(3) show "b < length ?heap" "con_ok (?heap ! b)" by (cases "b = ?a"; simp)+
  next
    fix i assume "i < length as'"
    then show "ndx (?heap ! (as' ! i)) = (if i < n + 1 then int i else -1)"
      using other[of i] rep_entry(4)[OF r(1)] e(5) by (cases "i = n") auto
  qed (use r in \<open>auto simp: pool_rep_def\<close>)
  moreover have use: "in_use srv = set (take n as')" using pool_in_use[OF assms(1)] r(3) by simp
  moreover have "in_use (srv\<lparr>conns := ?l\<rparr>) = set (take (n + 1) as')" using p(1) by (auto simp: in_use_def take_map)
  moreover have "take (n + 1) as' = take n as' @ [?a]" using r(2) by (simp add: take_Suc_conv_app_nth)
  moreover have "?a \<notin> set (take n as')" using p(3) r(2) by (auto simp: in_set_conv_nth nth_eq_iff_index_eq)
  moreover have "?heap ! b = heap ! b" if "b \<in> in_use srv" for b
  proof -
    from that assms(1) have "b < length heap" using pool_in_use[OF assms(1)] by (auto simp: pool_rep_def dest: in_set_takeD)
    moreover have "b \<noteq> ?a" using that use \<open>?a \<notin> set (take n as')\<close> by auto
    ultimately show ?thesis using r(4) by simp
  qed
  moreover have "fresh_request (con\<lparr>ndx := int n\<rparr>)" using con(2) by (simp add: fresh_request_def)
  ultimately show ?thesis using res e(5) by auto
qed


definition only_ndx :: "connection list \<Rightarrow> connection list \<Rightarrow> bool" where
  "only_ndx h h' \<longleftrightarrow> length h' = length h \<and> (\<forall>b < length h. \<exists>i. h' ! b = (h ! b)\<lparr>ndx := i\<rparr>)"

lemma only_ndx_refl: "only_ndx h h"
proof -
  have "\<exists>i. h ! b = (h ! b)\<lparr>ndx := i\<rparr>" for b by (rule exI[of _ "ndx (h ! b)"]) simp
  then show ?thesis by (simp add: only_ndx_def)
qed

lemma only_ndx_update: "only_ndx h h' \<Longrightarrow> a < length h \<Longrightarrow> only_ndx h (h'[a := (h' ! a)\<lparr>ndx := i\<rparr>])"
  by (fastforce simp: only_ndx_def nth_list_update)

lemma only_ndx_ok: "only_ndx h h' \<Longrightarrow> b < length h \<Longrightarrow> con_ok (h' ! b) = con_ok (h ! b)"
  unfolding only_ndx_def by (metis con_ok_ndx(1))

lemma set_ndx_eq: "a < length heap \<Longrightarrow> set_ndx heap a i = Some (heap[a := (heap ! a)\<lparr>ndx := i\<rparr>])"
  by (simp add: set_ndx_def at_address_def)

lemma connection_del_ok:
  assumes "pool_rep (conns srv) heap as n" and "i < n"
  shows "valid (connection_del srv heap (Some (as ! i))) (\<lambda>(r, srv', heap'). r = 0 \<and> (\<exists>as'. pool_rep (conns srv') heap' as' (n - 1)) \<and>
     in_use srv' = in_use srv - {as ! i} \<and> ndx (heap' ! (as ! i)) = -1 \<and> only_ndx heap heap')"
proof -
  let ?l = "conns srv" and ?a = "as ! i" and ?f = "as ! (n - 1)"
  have p: "con_ptr ?l = map Some as" "con_size ?l = length as" "con_used ?l = n" "n \<le> length as" "distinct as"
    "\<forall>a \<in> set as. a < length heap \<and> con_ok (heap ! a)" using assms(1) by (simp_all add: pool_rep_def)
  note e = rep_entry[OF assms(1)]
  have a: "i < length as" "?a < length heap" "ndx (heap ! ?a) = int i" "at_address heap ?a = Some (heap ! ?a)"
    using e[of i] assms(2) p(4) by auto
  have f: "n - 1 < length as" "?f < length heap" using e(5)[of "n - 1"] assms(2) p(4) by auto
  show ?thesis
  proof (cases "i = n - 1")
    case True
    let ?h = "heap[?a := (heap ! ?a)\<lparr>ndx := -1\<rparr>]" and ?srv = "srv\<lparr>conns := ?l\<lparr>con_used := n - 1\<rparr>\<rparr>"
    have res: "connection_del srv heap (Some ?a) = Some (0, ?srv, ?h)"
      using a(2-4) assms(2) p(3) True[symmetric] by (simp add: connection_del_def set_ndx_eq Let_def)
    have o: "only_ndx heap ?h" using only_ndx_update[OF only_ndx_refl a(2)] .
    have "pool_rep (conns ?srv) ?h as (n - 1)"
      unfolding pool_rep_def
    proof (intro conjI ballI allI impI)
      fix j assume j: "j < length as"
      then have "j \<noteq> i \<Longrightarrow> as ! j \<noteq> ?a" using p(5) a(1) by (simp add: nth_eq_iff_index_eq)
      then show "ndx (?h ! (as ! j)) = (if j < n - 1 then int j else -1)"
        using e(4)[OF j] a(2) True assms(2) by (cases "j = i") auto
    next
      fix b assume "b \<in> set as"
      then show "b < length ?h" "con_ok (?h ! b)" using p(6) only_ndx_ok[OF o] by auto
    qed (use p assms(2) in auto)
    moreover have "take n as = take (n - 1) as @ [?a]" using True assms(2) f(1) take_Suc_conv_app_nth[of "n - 1" as] by simp
    moreover have "?a \<notin> set (take (n - 1) as)" using True p(5) f(1) by (auto simp: in_set_conv_nth nth_eq_iff_index_eq)
    moreover have "in_use ?srv = set (take (n - 1) as)" using p(1) by (auto simp: in_use_def take_map)
    ultimately show ?thesis using res o a(2) pool_in_use[OF assms(1)] by auto
  next
    case False
    let ?h1 = "heap[?f := (heap ! ?f)\<lparr>ndx := int i\<rparr>]"
    let ?h2 = "?h1[?a := (?h1 ! ?a)\<lparr>ndx := -1\<rparr>]"
    let ?h = "?h2[?a := (?h2 ! ?a)\<lparr>ndx := -1\<rparr>]"
    let ?as = "as[i := ?f, n - 1 := ?a]"
    let ?l' = "?l\<lparr>con_ptr := (con_ptr ?l)[i := Some ?f, n - 1 := Some ?a]\<rparr>"
    let ?srv = "srv\<lparr>conns := ?l'\<lparr>con_used := n - 1\<rparr>\<rparr>"
    have ne: "?f \<noteq> ?a" using False p(5) a(1) f(1) by (simp add: nth_eq_iff_index_eq)
    have res: "connection_del srv heap (Some ?a) = Some (0, ?srv, ?h)"
      using a f p assms(2) False by (simp add: connection_del_def set_ndx_eq Let_def)
    have o: "only_ndx heap ?h"
      using only_ndx_update[OF only_ndx_update[OF only_ndx_update[OF only_ndx_refl f(2)] a(2)] a(2)] .
    have set_as: "set ?as = set as" using f(1) a(1) set_swap[of "n - 1" as i] by (simp add: list_update_swap False)
    have "distinct ?as" using p(5) f(1) a(1) distinct_swap[of "n - 1" as i] by (simp add: list_update_swap False)
    moreover have "ndx (?h ! (?as ! j)) = (if j < n - 1 then int j else -1)" if j: "j < length as" for j
    proof -
      consider "j = i" | "j = n - 1" | "j \<noteq> i" "j \<noteq> n - 1" by blast
      then show ?thesis
      proof cases
        case 3
        then have "as ! j \<noteq> ?a" "as ! j \<noteq> ?f" using p(5) j a(1) f(1) by (simp_all add: nth_eq_iff_index_eq)
        with 3 e(4)[OF j] show ?thesis by auto
      qed (use a f ne False assms(2) in auto)
    qed
    ultimately have "pool_rep (conns ?srv) ?h ?as (n - 1)"
      unfolding pool_rep_def set_as using p only_ndx_ok[OF o] by (auto simp: map_update)
    moreover have "in_use ?srv = in_use srv - {?a}"
    proof -
      have "in_use ?srv = set (take (n - 1) ?as)"
        using p(1) by (auto simp: in_use_def map_update[symmetric] take_map)
      also have "take (n - 1) ?as = (take (n - 1) as)[i := ?f]" by (simp add: take_update_swap list_update_beyond)
      also have "set \<dots> = set (take n as) - {?a}"
      proof (intro set_eqI iffI)
        fix b assume "b \<in> set ((take (n - 1) as)[i := ?f])"
        then obtain j where j: "j < n - 1" "b = (if j = i then ?f else as ! j)" using f(1)
          by (auto simp: in_set_conv_nth nth_list_update split: if_splits)
        define k where "k = (if j = i then n - 1 else j)"
        have "take n as ! k = b" "k < length (take n as)" using j f(1) assms(2) p(4) by (auto simp: k_def)
        then have "b \<in> set (take n as)" by (metis nth_mem)
        moreover have "b \<noteq> ?a" using j ne p(5) f(1) a(1) by (auto simp: nth_eq_iff_index_eq)
        ultimately show "b \<in> set (take n as) - {?a}" by simp
      next
        fix b assume b: "b \<in> set (take n as) - {?a}"
        then obtain j where "j < length (take n as)" "take n as ! j = b" by (metis DiffD1 in_set_conv_nth)
        with b have j: "j < n" "j < length as" "b = as ! j" "j \<noteq> i" by auto
        define k where "k = (if j = n - 1 then i else j)"
        have "k < n - 1" "(take (n - 1) as)[i := ?f] ! k = b" using j False assms(2) f(1) by (auto simp: k_def nth_list_update)
        moreover have "length ((take (n - 1) as)[i := ?f]) = n - 1" using f(1) by simp
        ultimately show "b \<in> set ((take (n - 1) as)[i := ?f])" by (metis nth_mem)
      qed
      finally show ?thesis using pool_in_use[OF assms(1)] by simp
    qed
    moreover have "ndx (?h ! ?a) = -1" using a(2) by simp
    ultimately show ?thesis using res o by auto
  qed
qed


section \<open>Properties\<close>

fun run_waiting :: "fifo_op list \<Rightarrow> connections_list \<Rightarrow> (nat option list \<times> connections_list) option" where
  "run_waiting [] q = Some ([], q)"
| "run_waiting (Enq x # ops) q = do { q \<leftarrow> list_append q x; run_waiting ops q }"
| "run_waiting (Deq # ops) q = do { (r, q) \<leftarrow> fdwaitqueue_unshift q; (rs, q) \<leftarrow> run_waiting ops q; Some (r # rs, q) }"

lemma run_waiting_run: "run_waiting ops = waiting.run ops"
proof (induction ops)
  case (Cons op ops)
  show ?case by (rule ext, cases op) (simp_all add: Cons)
qed (simp add: fun_eq_iff)

text \<open>
  C16: the queue of connections that wait for a file descriptor is first-in first-out: any sequence
  of appends and removals stays within the vector and returns what the same sequence does on a
  plain list.
\<close>

theorem fdwaitqueue_fifo:
  "valid (run_waiting ops no_connections) (\<lambda>(rs, q). rs = fst (fifo_spec ops []) \<and> list_rep q (snd (fifo_spec ops [])))"
  unfolding run_waiting_run by (rule waiting.run_ok[OF no_connections_rep])

text \<open>The operations on the pool, and the addresses that should be in use after them.\<close>

datatype pool_op = Open | Close nat

fun pool_step :: "(server \<Rightarrow> connection \<Rightarrow> connection) \<Rightarrow> pool_op \<Rightarrow> server \<times> connection list \<Rightarrow> (server \<times> connection list) option" where
  "pool_step pr Open (srv, heap) = do { (_, a, srv, heap) \<leftarrow> connections_get_new_connection pr srv heap; Some (srv, heap) }"
| "pool_step pr (Close a) (srv, heap) = do { (_, srv, heap) \<leftarrow> connection_del srv heap (Some a); Some (srv, heap) }"

fun pool_run :: "(server \<Rightarrow> connection \<Rightarrow> connection) \<Rightarrow> pool_op list \<Rightarrow> server \<times> connection list \<Rightarrow> (server \<times> connection list) option" where
  "pool_run pr [] s = Some s"
| "pool_run pr (op # ops) s = do { s \<leftarrow> pool_step pr op s; pool_run pr ops s }"

text \<open>A connection in use sits in the vector at its own index.\<close>

definition indexed_connections :: "server \<Rightarrow> connection list \<Rightarrow> bool" where
  "indexed_connections srv heap \<longleftrightarrow> (\<forall>a \<in> in_use srv. a < length heap \<and> 0 \<le> ndx (heap ! a) \<and> ndx (heap ! a) < int (con_used (conns srv)) \<and>
     con_ptr (conns srv) ! nat (ndx (heap ! a)) = Some a) \<and> card (in_use srv) = con_used (conns srv)"

lemma pool_indexed: "pool_rep (conns srv) heap as n \<Longrightarrow> indexed_connections srv heap"
proof -
  assume p: "pool_rep (conns srv) heap as n"
  then have d: "distinct as" "n \<le> length as" "con_used (conns srv) = n" by (simp_all add: pool_rep_def)
  have "a < length heap \<and> 0 \<le> ndx (heap ! a) \<and> ndx (heap ! a) < int n \<and> con_ptr (conns srv) ! nat (ndx (heap ! a)) = Some a"
    if "a \<in> in_use srv" for a
  proof -
    from that obtain i where i: "i < n" "a = as ! i" using pool_in_use[OF p] d(2) by (auto simp: in_set_conv_nth)
    with rep_entry[OF p, of i] d(2) show ?thesis by simp
  qed
  moreover have "card (in_use srv) = n" using d pool_in_use[OF p] by (simp add: distinct_card)
  ultimately show ?thesis using d(3) by (simp add: indexed_connections_def)
qed

lemma pool_inv_indexed: "pool_inv srv heap \<Longrightarrow> indexed_connections srv heap"
  using pool_indexed by (auto simp: pool_inv_def)

lemma pool_step_ok:
  assumes "pool_inv srv heap" and "resets pr" and "\<And>a. op = Close a \<Longrightarrow> a \<in> in_use srv"
  shows "valid (pool_step pr op (srv, heap)) (\<lambda>(srv', heap'). pool_inv srv' heap' \<and>
     (case op of Open \<Rightarrow> (\<exists>a. a \<notin> in_use srv \<and> in_use srv' = insert a (in_use srv) \<and> fresh_request (heap' ! a))
               | Close a \<Rightarrow> in_use srv' = in_use srv - {a}))"
proof -
  obtain as n where p: "pool_rep (conns srv) heap as n" using assms(1) by (auto simp: pool_inv_def)
  show ?thesis
  proof (cases op)
    case Open
    obtain gone a srv' heap' as' where "connections_get_new_connection pr srv heap = Some (gone, a, srv', heap')"
      "pool_rep (conns srv') heap' as' (n + 1)" "a \<notin> in_use srv" "in_use srv' = insert a (in_use srv)" "fresh_request (heap' ! a)"
      using get_new_connection_ok[OF p assms(2)] by (auto simp: valid_def)
    moreover from this have "pool_inv srv' heap'" unfolding pool_inv_def by blast
    ultimately show ?thesis using Open by auto
  next
    case (Close a)
    with assms(3) obtain i where i: "i < n" "a = as ! i" using pool_in_use[OF p] by (force simp: in_set_conv_nth)
    obtain srv' heap' as' where "connection_del srv heap (Some a) = Some (0, srv', heap')"
      "pool_rep (conns srv') heap' as' (n - 1)" "in_use srv' = in_use srv - {a}"
      using connection_del_ok[OF p i(1)] i(2) by (auto simp: valid_def)
    moreover from this have "pool_inv srv' heap'" unfolding pool_inv_def by blast
    ultimately show ?thesis using Close by simp
  qed
qed

text \<open>
  C15: opening and closing connections in any order keeps the pool consistent: every connection in
  use sits in the vector at its own index, a new one is not in use by another request and carries
  nothing of an earlier one, and closing one removes exactly it.
\<close>

theorem pool_step_keeps:
  assumes "pool_inv srv heap" and "resets pr" and "\<And>a. op = Close a \<Longrightarrow> a \<in> in_use srv"
  shows "valid (pool_step pr op (srv, heap)) (\<lambda>(srv', heap'). pool_inv srv' heap' \<and> indexed_connections srv' heap' \<and>
     (case op of Open \<Rightarrow> (\<exists>a. a \<notin> in_use srv \<and> in_use srv' = insert a (in_use srv) \<and> fresh_request (heap' ! a))
               | Close a \<Rightarrow> in_use srv' = in_use srv - {a}))"
  by (rule valid_weaken[OF pool_step_ok[OF assms]]) (auto intro: pool_inv_indexed)

lemma pool_start: "pool_inv sample_server []"
  by (auto simp: pool_inv_def pool_rep_def sample_server_def no_connections_def intro!: exI[of _ "[]"])

lemma pool_step_keeps_witness:
  "valid (pool_step (\<lambda>_ con. con) Open (sample_server, [])) (\<lambda>(srv', heap'). pool_inv srv' heap' \<and> indexed_connections srv' heap' \<and>
     (\<exists>a. a \<notin> in_use sample_server \<and> in_use srv' = insert a (in_use sample_server) \<and> fresh_request (heap' ! a)))"
  using pool_step_keeps[OF pool_start, of "\<lambda>_ con. con" Open] by (simp add: resets_def)

text \<open>
  \<open>in_joblist\<close> is tested but nothing in the server sets it, so a connection is entered again with
  every event.
\<close>

lemma joblist_duplicate:
  "\<not> in_joblist con \<Longrightarrow> list_rep (joblist srv) xs \<Longrightarrow>
   valid (do { (_, srv) \<leftarrow> joblist_append srv con; joblist_append srv con })
     (\<lambda>(_, srv'). list_rep (joblist srv') (xs @ [address con, address con]))"
proof -
  assume a: "\<not> in_joblist con" "list_rep (joblist srv) xs"
  obtain l where l: "list_append (joblist srv) (address con) = Some l" "list_rep l (xs @ [address con])"
    using list_append_ok[OF a(2)] by (auto simp: valid_def)
  with list_append_ok[OF l(2), of "address con"] a(1) show ?thesis by (auto simp: joblist_append_def valid_def)
qed

end
