(* ===== verification/NetworkWrite.thy ===== *)
theory NetworkWrite
  imports Queues
begin

text \<open>
  Writing a chunk queue to a socket: \<open>network_write.c\<close>.  The operating system is a parameter: what
  the socket accepts at each call, and the files.  The interface \<open>network_backend\<close> states what the
  caller in \<open>network.c\<close> needs of a backend, that the bytes sent and the bytes still queued are
  together the bytes queued before, in order.
\<close>

section \<open>The operating system\<close>

datatype errno_t = EAGAIN | EINTR | EPIPE | ECONNRESET | EACCES | ENOENT | ENOTDIR | EMFILE | EOTHER

datatype sys_result = Wrote nat | Failed errno_t

text \<open>
  \<open>socket i bytes\<close> is the result of the \<open>i\<close>-th call that offers \<open>bytes\<close> to the socket; \<open>stat_size\<close> is
  the size the stat cache reports, \<open>None\<close> for \<open>HANDLER_ERROR\<close>.
\<close>

record net_io =
  socket :: "nat \<Rightarrow> char list \<Rightarrow> sys_result"
  stat_size :: "char list \<Rightarrow> int option"
  open_file :: "char list \<Rightarrow> int"
  mmap_file :: "char list \<Rightarrow> bool"
  content :: "char list \<Rightarrow> char list"

text \<open>The calls made so far and the bytes that went out.\<close>

record wire =
  calls :: nat
  sent :: "char list"

definition socket_send :: "net_io \<Rightarrow> wire \<Rightarrow> char list \<Rightarrow> sys_result \<times> wire" where
  "socket_send io w bytes =
     (let r = socket io (calls w) bytes
      in (r, \<lparr>calls = calls w + 1, sent = sent w @ (case r of Wrote n \<Rightarrow> take n bytes | Failed _ \<Rightarrow> [])\<rparr>))"

section \<open>The code\<close>

text \<open>
  The result for one chunk: the return value of the function (\<open>Inl\<close>), or whether the chunk is
  finished, the number of bytes and the chunk with its new offset.
\<close>

type_synonym chunk_result = "((int + bool \<times> nat \<times> chunk) \<times> wire) option"

definition write_mem :: "net_io \<Rightarrow> wire \<Rightarrow> chunk \<Rightarrow> chunk_result" where
  "write_mem io w c =
     (if c_mem c = [] then Some (Inr (True, 0, c), w)
      else do {
        guard (0 \<le> c_offset c \<and> c_offset c \<le> int (length (c_mem c)) - 1);
        let (r, w) = socket_send io w (drop (nat (c_offset c)) (butlast (c_mem c)));
        Some (case r of
            Failed _ \<Rightarrow> (Inl (-1), w)
          | Wrote n \<Rightarrow> let c = c\<lparr>c_offset := c_offset c + int n\<rparr>
              in (Inr (c_offset c = int (length (c_mem c)) - 1, n, c), w)) })"

text \<open>
  The file is mapped with the size of the stat cache; the bytes behind that are not there to be
  offered.
\<close>

definition write_file :: "net_io \<Rightarrow> wire \<Rightarrow> chunk \<Rightarrow> chunk_result" where
  "write_file io w c =
     (let name = cstr (f_name c) in
      case stat_size io name of
        None \<Rightarrow> Some (Inl (-1), w)
      | Some len \<Rightarrow>
          let offset = f_start c + c_offset c; to_send = f_length c - c_offset c in
          if offset > len then Some (Inl (-1), w)
          else if open_file io name = -1 then Some (Inl (-1), w)
          else if \<not> mmap_file io name then Some (Inl (-1), w)
          else do {
            guard (0 \<le> offset \<and> 0 \<le> to_send \<and> offset + to_send \<le> len);
            let (r, w) = socket_send io w (take (nat to_send) (drop (nat offset) (content io name)));
            Some (case r of
                Failed _ \<Rightarrow> (Inl (-1), w)
              | Wrote n \<Rightarrow>
                  if n = 0 then (Inl (-1), w)
                  else let c = c\<lparr>c_offset := c_offset c + int n\<rparr>
                    in (Inr (c_offset c = f_length c, n, c), w)) })"

definition write_chunk :: "net_io \<Rightarrow> wire \<Rightarrow> chunk \<Rightarrow> chunk_result" where
  "write_chunk io w c = (case ctype c of
       MEM_CHUNK \<Rightarrow> write_mem io w c
     | FILE_CHUNK \<Rightarrow> write_file io w c
     | UNUSED_CHUNK \<Rightarrow> Some (Inl (-1), w))"

fun write_loop :: "nat \<Rightarrow> net_io \<Rightarrow> wire \<Rightarrow> chunkqueue \<Rightarrow> nat option \<Rightarrow> int \<Rightarrow> (int \<times> wire \<times> chunkqueue) option" where
  "write_loop fuel io w cq None chunks_written = Some (chunks_written, w, cq)"
| "write_loop 0 io w cq (Some a) chunks_written = None"
| "write_loop (Suc fuel) io w cq (Some a) chunks_written = do {
     c \<leftarrow> get_chunk cq a;
     (r, w) \<leftarrow> write_chunk io w c;
     case r of
       Inl ret \<Rightarrow> Some (ret, w, cq)
     | Inr (finished, n, c) \<Rightarrow>
         let cq = (set_chunk cq a c)\<lparr>bytes_out := bytes_out cq + int n\<rparr>
         in if finished then write_loop fuel io w cq (c_next c) (chunks_written + 1)
            else Some (chunks_written, w, cq) }"

definition network_write_chunkqueue_write :: "net_io \<Rightarrow> wire \<Rightarrow> chunkqueue \<Rightarrow> (int \<times> wire \<times> chunkqueue) option" where
  "network_write_chunkqueue_write io w cq = write_loop (length (cells cq)) io w cq (cq_first cq) 0"

section \<open>The interface of the backends\<close>

text \<open>The system calls do what their manual says: no call takes more than it was offered.\<close>

definition io_ok :: "net_io \<Rightarrow> bool" where
  "io_ok io \<longleftrightarrow> (\<forall>i bytes n. socket io i bytes = Wrote n \<longrightarrow> n \<le> length bytes)"

text \<open>
  A chunk as the queue holds it: its offset lies within it, and a file is as long as the chunk and the
  stat cache say.
\<close>

definition sendable :: "net_io \<Rightarrow> chunk \<Rightarrow> bool" where
  "sendable io c \<longleftrightarrow> (case ctype c of
       MEM_CHUNK \<Rightarrow> c_mem c = [] \<or> 0 \<le> c_offset c \<and> c_offset c \<le> int (length (c_mem c)) - 1
     | FILE_CHUNK \<Rightarrow> 0 \<le> f_start c \<and> 0 \<le> c_offset c \<and> c_offset c \<le> f_length c \<and>
         f_start c + f_length c \<le> int (length (content io (cstr (f_name c)))) \<and>
         stat_size io (cstr (f_name c)) \<in> {None, Some (int (length (content io (cstr (f_name c)))))}
     | UNUSED_CHUNK \<Rightarrow> False)"

definition queued :: "net_io \<Rightarrow> chunkqueue \<Rightarrow> char list \<Rightarrow> bool" where
  "queued io cq s \<longleftrightarrow> length s \<le> SSIZE_MAX \<and>
     (\<exists>cs. cq_rep cq cs \<and> list_all (sendable io) cs \<and> pending (content io) cs = s)"

text \<open>What a backend does: it sends some first part of the queued bytes and counts them.\<close>

definition sends :: "net_io \<Rightarrow> wire \<Rightarrow> chunkqueue \<Rightarrow> char list \<Rightarrow> wire \<Rightarrow> chunkqueue \<Rightarrow> bool" where
  "sends io w cq s w' cq' \<longleftrightarrow> (\<exists>t u. s = t @ u \<and> sent w' = sent w @ t \<and> queued io cq' u \<and>
     bytes_out cq' = bytes_out cq + int (length t))"

locale network_backend =
  fixes backend :: "net_io \<Rightarrow> wire \<Rightarrow> chunkqueue \<Rightarrow> (int \<times> wire \<times> chunkqueue) option"
  assumes backend: "io_ok io \<Longrightarrow> queued io cq s \<Longrightarrow>
    valid (backend io w cq) (\<lambda>(r, w', cq'). -2 \<le> r \<and> sends io w cq s w' cq')"

section \<open>A chunk that changes its offset\<close>

lemma shape_same_next:
  assumes "shape cq as us" and "get_chunk cq a = Some c" and "c_next c' = c_next c"
  shows "shape ((set_chunk cq a c')\<lparr>bytes_out := n\<rparr>) as us"
  using assms lseg_same_next[of "cells cq" _ _ a c c'] by (auto simp: shape_def set_chunk_def get_chunk_iff)

text \<open>One chunk: what is sent of it, and what is left.\<close>

definition chunk_sent :: "net_io \<Rightarrow> wire \<Rightarrow> chunk \<Rightarrow> wire \<Rightarrow> bool \<Rightarrow> nat \<Rightarrow> chunk \<Rightarrow> bool" where
  "chunk_sent io w c w' finished n c' \<longleftrightarrow> n \<le> length (chunk_bytes (content io) c) \<and>
     sent w' = sent w @ take n (chunk_bytes (content io) c) \<and> chunk_bytes (content io) c' = drop n (chunk_bytes (content io) c) \<and>
     sendable io c' \<and> c_next c' = c_next c \<and> (finished \<longrightarrow> chunk_bytes (content io) c' = [])"

lemma socket_send_ok:
  assumes "io_ok io" and "socket_send io w bytes = (r, w')"
  shows "case r of Wrote n \<Rightarrow> n \<le> length bytes \<and> sent w' = sent w @ take n bytes | Failed _ \<Rightarrow> sent w' = sent w"
  using assms by (auto simp: socket_send_def io_ok_def Let_def split: sys_result.splits)

lemma write_mem_ok:
  assumes "io_ok io" and "sendable io c" and "ctype c = MEM_CHUNK"
  shows "valid (write_mem io w c) (\<lambda>(r, w'). case r of Inl ret \<Rightarrow> ret = -1 \<and> sent w' = sent w
     | Inr (finished, n, c') \<Rightarrow> chunk_sent io w c w' finished n c')"
proof (cases "c_mem c = []")
  case True
  then show ?thesis using assms by (simp add: write_mem_def chunk_sent_def chunk_bytes_def)
next
  case False
  let ?b = "drop (nat (c_offset c)) (butlast (c_mem c))"
  have o: "0 \<le> c_offset c" "c_offset c \<le> int (length (c_mem c)) - 1" using assms(2,3) False by (simp_all add: sendable_def)
  obtain r w' where s: "socket_send io w ?b = (r, w')" by (cases "socket_send io w ?b")
  have b: "chunk_bytes (content io) c = ?b" using assms(3) by (simp add: chunk_bytes_def)
  show ?thesis
  proof (cases r)
    case (Failed e)
    with socket_send_ok[OF assms(1) s] s o False show ?thesis by (simp add: write_mem_def)
  next
    case (Wrote n)
    with socket_send_ok[OF assms(1) s] have n: "n \<le> length ?b" "sent w' = sent w @ take n ?b" by simp_all
    let ?c = "c\<lparr>c_offset := c_offset c + int n\<rparr>"
    have "nat (c_offset c + int n) = n + nat (c_offset c)" using o(1) by (simp add: nat_add_distrib)
    then have b': "chunk_bytes (content io) ?c = drop n ?b" using assms(3) by (simp add: chunk_bytes_def)
    have le: "c_offset c + int n \<le> int (length (c_mem c)) - 1" using n(1) o False by simp
    have "c_offset ?c = int (length (c_mem ?c)) - 1 \<Longrightarrow> length ?b = n" using o by simp
    then have "chunk_sent io w c w' (c_offset ?c = int (length (c_mem ?c)) - 1) n ?c"
      unfolding chunk_sent_def b b' using n o le assms(3) by (simp add: sendable_def)
    then show ?thesis using s o False Wrote by (simp add: write_mem_def Let_def)
  qed
qed

lemma write_file_ok:
  assumes "io_ok io" and "sendable io c" and "ctype c = FILE_CHUNK"
  shows "valid (write_file io w c) (\<lambda>(r, w'). case r of Inl ret \<Rightarrow> ret = -1 \<and> sent w' = sent w
     | Inr (finished, n, c') \<Rightarrow> chunk_sent io w c w' finished n c')"
proof -
  let ?name = "cstr (f_name c)"
  let ?b = "take (nat (f_length c - c_offset c)) (drop (nat (f_start c + c_offset c)) (content io ?name))"
  have o: "0 \<le> f_start c" "0 \<le> c_offset c" "c_offset c \<le> f_length c" "f_start c + f_length c \<le> int (length (content io ?name))"
    "stat_size io ?name \<in> {None, Some (int (length (content io ?name)))}" using assms(2,3) by (simp_all add: sendable_def)
  have b: "chunk_bytes (content io) c = ?b" using assms(3) by (simp add: chunk_bytes_def)
  have len: "length ?b = nat (f_length c - c_offset c)" using o by simp
  obtain r w' where s: "socket_send io w ?b = (r, w')" by (cases "socket_send io w ?b")
  show ?thesis
  proof (cases "stat_size io ?name = None \<or> open_file io ?name = -1 \<or> \<not> mmap_file io ?name")
    case True
    with o show ?thesis by (auto simp: write_file_def Let_def)
  next
    case False
    with o have st: "stat_size io ?name = Some (int (length (content io ?name)))" by auto
    show ?thesis
    proof (cases "\<exists>n. r = Wrote n \<and> n \<noteq> 0")
      case True
      then obtain n where r: "r = Wrote n" "n \<noteq> 0" by blast
      with socket_send_ok[OF assms(1) s] have n: "n \<le> length ?b" "sent w' = sent w @ take n ?b" by simp_all
      let ?c = "c\<lparr>c_offset := c_offset c + int n\<rparr>"
      have nats: "nat (f_start c + (c_offset c + int n)) = n + nat (f_start c + c_offset c)"
        "nat (f_length c - (c_offset c + int n)) = nat (f_length c - c_offset c) - n" using o by linarith+
      then have b': "chunk_bytes (content io) ?c = drop n ?b" using assms(3) by (simp add: chunk_bytes_def drop_take)
      have le: "c_offset c + int n \<le> f_length c" using n(1) len o by linarith
      have "c_offset ?c = f_length ?c \<Longrightarrow> length ?b = n" using len by simp
      then have "chunk_sent io w c w' (c_offset ?c = f_length ?c) n ?c"
        unfolding chunk_sent_def b b' using n o le assms(3) by (simp add: sendable_def)
      then show ?thesis using s r o st False by (simp add: write_file_def Let_def)
    next
      case zero: False
      then have "(\<exists>e. r = Failed e) \<or> r = Wrote 0" by (cases r) auto
      with socket_send_ok[OF assms(1) s] s o st False show ?thesis by (auto simp: write_file_def Let_def)
    qed
  qed
qed

lemma write_chunk_ok:
  assumes "io_ok io" and "sendable io c"
  shows "valid (write_chunk io w c) (\<lambda>(r, w'). case r of Inl ret \<Rightarrow> ret = -1 \<and> sent w' = sent w
     | Inr (finished, n, c') \<Rightarrow> chunk_sent io w c w' finished n c')"
  using write_mem_ok[OF assms] write_file_ok[OF assms] assms(2)
  by (cases "ctype c") (simp_all add: write_chunk_def sendable_def)


section \<open>The loop over the chunks\<close>

lemma sendable_bare [simp]: "sendable io (bare c) = sendable io c"
  by (simp add: sendable_def split: chunk_type.splits)

lemma write_loop_ok:
  assumes "io_ok io" and "shape cq as us" and "set ds \<subseteq> set as" and "distinct ds" and "lseg (cells cq) p ds"
    and "list_all (sendable io) (items cq ds)" and "length ds \<le> fuel"
  shows "\<exists>r w' cq' t. write_loop fuel io w cq p n = Some (r, w', cq') \<and> (r = -1 \<or> n \<le> r) \<and> shape cq' as us \<and>
     (\<forall>b. b \<notin> set ds \<longrightarrow> cells cq' ! b = cells cq ! b) \<and> sent w' = sent w @ t \<and>
     pending (content io) (items cq ds) = t @ pending (content io) (items cq' ds) \<and>
     list_all (sendable io) (items cq' ds) \<and> bytes_out cq' = bytes_out cq + int (length t)"
  using assms(2-)
proof (induction ds arbitrary: cq p w n fuel)
  case Nil
  then show ?case by (intro exI[of _ n] exI[of _ w] exI[of _ cq] exI[of _ "[]"]) simp
next
  case (Cons a ds)
  then obtain fuel' c where f: "fuel = Suc fuel'" "length ds \<le> fuel'" and c: "p = Some a" "get_chunk cq a = Some c"
    "lseg (cells cq) (c_next c) ds" by (cases fuel) (auto simp: get_chunk_iff)
  have ci: "a < length (cells cq)" "cells cq ! a = Some c" using c(2) by (simp_all add: get_chunk_iff)
  have it: "items cq (a # ds) = bare c # items cq ds" using ci by (simp add: items_Cons)
  have snd_c: "sendable io c" "list_all (sendable io) (items cq ds)" using Cons.prems(5) it by simp_all
  obtain r w1 where r: "write_chunk io w c = Some (r, w1)" "case r of Inl ret \<Rightarrow> ret = -1 \<and> sent w1 = sent w
     | Inr (finished, n, c') \<Rightarrow> chunk_sent io w c w1 finished n c'" using write_chunk_ok[OF assms(1) snd_c(1), of w]
    by (auto simp: valid_def)
  show ?case
  proof (cases r)
    case (Inl ret)
    with r f c Cons.prems show ?thesis
      by (intro exI[of _ ret] exI[of _ w1] exI[of _ cq] exI[of _ "[]"]) simp
  next
    case (Inr x)
    obtain finished m c' where x: "x = (finished, m, c')" by (metis prod.exhaust)
    with r Inr have s: "chunk_sent io w c w1 finished m c'" by simp
    note s' = s[unfolded chunk_sent_def]
    let ?q = "(set_chunk cq a c')\<lparr>bytes_out := bytes_out cq + int m\<rparr>"
    have a: "a \<notin> set ds" using Cons.prems(3) by simp
    have q: "shape ?q as us" using shape_same_next[OF Cons.prems(1) c(2)] s' by blast
    have cells_q: "cells ?q = (cells cq)[a := Some c']" by (simp add: set_chunk_def)
    then have items_q: "items ?q ds = items cq ds" using a by (simp add: items_def nth_update_other cong: map_cong)
    have cq_a: "cells ?q ! a = Some c'" using ci(1) cells_q by simp
    let ?t = "take m (chunk_bytes (content io) c)"
    have t: "chunk_bytes (content io) c = ?t @ chunk_bytes (content io) c'" using s' append_take_drop_id by metis
    have len: "length ?t = m" using s' by simp
    show ?thesis
    proof (cases finished)
      case False
      have "write_loop fuel io w cq p n = Some (n, w1, ?q)"
        using f c r(1) Inr x False by simp
      moreover have "items ?q (a # ds) = bare c' # items cq ds" using cq_a items_q by (simp add: items_Cons)
      moreover have "\<forall>b. b \<notin> set (a # ds) \<longrightarrow> cells ?q ! b = cells cq ! b" using cells_q by simp
      ultimately show ?thesis using q it t s' snd_c(2) len
        by (intro exI[of _ n] exI[of _ w1] exI[of _ ?q] exI[of _ ?t]) simp
    next
      case True
      have "lseg (cells ?q) (c_next c') ds" using c(3) s' a cells_q by simp
      then obtain r' w' cq' t' where IH: "write_loop fuel' io w1 ?q (c_next c') (n + 1) = Some (r', w', cq')"
        "r' = -1 \<or> n + 1 \<le> r'" "shape cq' as us" "\<forall>b. b \<notin> set ds \<longrightarrow> cells cq' ! b = cells ?q ! b"
        "sent w' = sent w1 @ t'" "pending (content io) (items ?q ds) = t' @ pending (content io) (items cq' ds)"
        "list_all (sendable io) (items cq' ds)" "bytes_out cq' = bytes_out ?q + int (length t')"
        using Cons.IH[OF q _ _ _ _ f(2), of "c_next c'" w1 "n + 1"] Cons.prems(2,3) snd_c(2) items_q by auto
      have run: "write_loop fuel io w cq p n = Some (r', w', cq')"
        using f c r(1) Inr x True IH(1) by simp
      have "cells cq' ! a = Some c'" using IH(4) a cq_a by simp
      then have "items cq' (a # ds) = bare c' # items cq' ds" by (simp add: items_Cons)
      moreover have "\<forall>b. b \<notin> set (a # ds) \<longrightarrow> cells cq' ! b = cells cq ! b" using IH(4) cells_q by simp
      moreover have "chunk_bytes (content io) c' = []" using s' True by blast
      ultimately show ?thesis
        using run IH(2,3,5-8) it t s' len items_q
        by (intro exI[of _ r'] exI[of _ w'] exI[of _ cq'] exI[of _ "?t @ t'"]) auto
    qed
  qed
qed

lemma queuedE:
  assumes "queued io cq s"
  obtains as us where "shape cq as us" "list_all (sendable io) (items cq as)" "pending (content io) (items cq as) = s"
    "lseg (cells cq) (cq_first cq) as" "distinct as" "length as \<le> length (cells cq)"
proof -
  obtain as us where a: "shape cq as us" "list_all (sendable io) (items cq as)" "pending (content io) (items cq as) = s"
    using assms by (auto simp: queued_def cq_rep_def)
  then have l: "lseg (cells cq) (cq_first cq) as" "distinct as" by (auto simp: shape_def)
  show ?thesis by (rule that[OF a l lseg_length[OF l]])
qed

lemma write_backend_ok:
  assumes "io_ok io" and "queued io cq s"
  shows "valid (network_write_chunkqueue_write io w cq) (\<lambda>(r, w', cq'). -1 \<le> r \<and> sends io w cq s w' cq')"
proof -
  obtain as us where a: "shape cq as us" "list_all (sendable io) (items cq as)" "pending (content io) (items cq as) = s"
    "lseg (cells cq) (cq_first cq) as" "distinct as" "length as \<le> length (cells cq)" by (rule queuedE[OF assms(2)])
  obtain r w' cq' t where "write_loop (length (cells cq)) io w cq (cq_first cq) 0 = Some (r, w', cq')" "r = -1 \<or> 0 \<le> r"
    "shape cq' as us" "sent w' = sent w @ t" "s = t @ pending (content io) (items cq' as)"
    "list_all (sendable io) (items cq' as)" "bytes_out cq' = bytes_out cq + int (length t)"
    using write_loop_ok[OF assms(1) a(1) order.refl a(5,4,2,6), of w 0] a(3) by auto
  moreover from this assms(2) have "queued io cq' (pending (content io) (items cq' as))" by (auto simp: queued_def cq_rep_def)
  ultimately show ?thesis by (auto simp: network_write_chunkqueue_write_def sends_def)
qed

interpretation plain_write: network_backend network_write_chunkqueue_write
proof unfold_locales
  fix io cq s w assume "io_ok io" "queued io cq s"
  from write_backend_ok[OF this, of w] show "valid (network_write_chunkqueue_write io w cq) (\<lambda>(r, w', cq'). -2 \<le> r \<and> sends io w cq s w' cq')"
    by (auto elim!: valid_weaken)
qed

end
