(* ===== verification/NetworkSendfile.thy ===== *)
theory NetworkSendfile
  imports NetworkWrite
begin

text \<open>
  The Linux backend of \<open>network_linux_sendfile.c\<close>: runs of memory chunks go out with one \<open>writev\<close>,
  files with \<open>sendfile\<close>.  It is shown to be a backend in the sense of \<open>network_backend\<close>.
\<close>

section \<open>The code\<close>

definition UIO_MAXIOV :: nat where "UIO_MAXIOV = 1024"

text \<open>The run of memory chunks from \<open>p\<close> on, at most \<open>n\<close>.\<close>

fun mem_run :: "nat \<Rightarrow> chunkqueue \<Rightarrow> nat option \<Rightarrow> nat list option" where
  "mem_run 0 cq p = Some []"
| "mem_run (Suc n) cq None = Some []"
| "mem_run (Suc n) cq (Some a) = do {
     c \<leftarrow> get_chunk cq a;
     if ctype c = MEM_CHUNK then do { r \<leftarrow> mem_run n cq (c_next c); Some (a # r) } else Some [] }"

text \<open>The vector for \<open>writev\<close>; it is cut where the sum would exceed \<open>SSIZE_MAX\<close>.\<close>

fun gather :: "chunkqueue \<Rightarrow> nat list \<Rightarrow> nat \<Rightarrow> char list list option" where
  "gather cq [] num_bytes = Some []"
| "gather cq (a # as) num_bytes = do {
     c \<leftarrow> get_chunk cq a;
     if c_mem c = [] then do { r \<leftarrow> gather cq as num_bytes; Some ([] # r) }
     else do {
       guard (0 \<le> c_offset c \<and> c_offset c \<le> int (length (c_mem c)) - 1);
       let b = drop (nat (c_offset c)) (butlast (c_mem c));
       if length b > SSIZE_MAX \<or> num_bytes + length b > SSIZE_MAX then Some [take (SSIZE_MAX - num_bytes) b]
       else do { r \<leftarrow> gather cq as (num_bytes + length b); Some (b # r) } } }"

text \<open>
  Which chunks were written: \<open>r\<close> bytes over the chunks \<open>ts\<close> with the vector's lengths.  \<open>c\<close> is the
  chunk the outer loop stands at; it moves on for every finished chunk but the first.
\<close>

fun account :: "chunkqueue \<Rightarrow> nat list \<Rightarrow> nat list \<Rightarrow> nat \<Rightarrow> bool \<Rightarrow> nat \<Rightarrow> int \<Rightarrow> (chunkqueue \<times> bool \<times> nat \<times> int) option" where
  "account cq (t # ts) (l # ls) r finished c n = do {
     tc \<leftarrow> get_chunk cq t;
     if r \<ge> l then do {
       let cq = set_chunk cq t (tc\<lparr>c_offset := c_offset tc + int l\<rparr>);
       (c, n) \<leftarrow> (if finished then do { cc \<leftarrow> get_chunk cq c; c \<leftarrow> c_next cc; Some (c, n + 1) } else Some (c, n));
       account cq ts ls (r - l) True c n }
     else Some (set_chunk cq t (tc\<lparr>c_offset := c_offset tc + int r\<rparr>), False, c, n) }"
| "account cq ts ls r finished c n = Some (cq, finished, c, n)"

text \<open>The number of bytes a call took, an interrupted one none, or the return value.\<close>

definition call_result :: "sys_result \<Rightarrow> int + nat" where
  "call_result r = (case r of
       Wrote n \<Rightarrow> Inr n
     | Failed EAGAIN \<Rightarrow> Inr 0 | Failed EINTR \<Rightarrow> Inr 0
     | Failed EPIPE \<Rightarrow> Inl (-2) | Failed ECONNRESET \<Rightarrow> Inl (-2)
     | Failed _ \<Rightarrow> Inl (-1))"

definition sendfile_advance :: "chunk \<Rightarrow> nat \<Rightarrow> bool \<times> chunk" where
  "sendfile_advance c r =
     (let c = c\<lparr>c_offset := c_offset c + int r\<rparr>
      in if c_offset c = f_length c then (True, c\<lparr>f_fd := -1\<rparr>) else (False, c))"

text \<open>The file's descriptor is kept in the chunk between two calls.\<close>

definition sendfile_file :: "net_io \<Rightarrow> wire \<Rightarrow> chunk \<Rightarrow> ((int + bool \<times> nat) \<times> chunk \<times> wire) option" where
  "sendfile_file io w c =
     (let name = cstr (f_name c); offset = f_start c + c_offset c;
          to_send = (if f_length c - c_offset c > 2 ^ 30 - 1 then 2 ^ 30 - 1 else f_length c - c_offset c) in
      if f_fd c = -1 \<and> open_file io name = -1 then Some (Inl (-1), c, w)
      else do {
        let c = (if f_fd c = -1 then c\<lparr>f_fd := open_file io name\<rparr> else c);
        guard (0 \<le> offset \<and> 0 \<le> to_send);
        let (r, w) = socket_send io w (take (nat to_send) (drop (nat offset) (content io name)));
        Some (case call_result r of
            Inl ret \<Rightarrow> (Inl ret, c, w)
          | Inr n \<Rightarrow>
              if r = Wrote 0 then
                ((case stat_size io name of None \<Rightarrow> Inl (-1) | Some len \<Rightarrow> if offset > len then Inl (-1) else Inl (-2)), c, w)
              else let (finished, c) = sendfile_advance c n in (Inr (finished, n), c, w)) })"

fun sendfile_loop :: "nat \<Rightarrow> net_io \<Rightarrow> wire \<Rightarrow> chunkqueue \<Rightarrow> nat option \<Rightarrow> int \<Rightarrow> (int \<times> wire \<times> chunkqueue) option" where
  "sendfile_loop fuel io w cq None n = Some (n, w, cq)"
| "sendfile_loop 0 io w cq (Some a) n = None"
| "sendfile_loop (Suc fuel) io w cq (Some a) n = do {
     c \<leftarrow> get_chunk cq a;
     case ctype c of
       MEM_CHUNK \<Rightarrow> do {
         ts \<leftarrow> mem_run UIO_MAXIOV cq (Some a);
         iov \<leftarrow> gather cq ts 0;
         let (r, w) = socket_send io w (concat iov);
         case call_result r of
           Inl ret \<Rightarrow> Some (ret, w, cq)
         | Inr r \<Rightarrow> do {
             (cq, finished, b, n) \<leftarrow> account (cq\<lparr>bytes_out := bytes_out cq + int r\<rparr>) ts (map length iov) r False a n;
             if finished then do { bc \<leftarrow> get_chunk cq b; sendfile_loop fuel io w cq (c_next bc) (n + 1) }
             else Some (n, w, cq) } }
     | FILE_CHUNK \<Rightarrow> do {
         (r, c, w) \<leftarrow> sendfile_file io w c;
         let cq = set_chunk cq a c;
         case r of
           Inl ret \<Rightarrow> Some (ret, w, cq)
         | Inr (finished, r) \<Rightarrow>
             let cq = cq\<lparr>bytes_out := bytes_out cq + int r\<rparr>
             in if finished then sendfile_loop fuel io w cq (c_next c) (n + 1) else Some (n, w, cq) }
     | UNUSED_CHUNK \<Rightarrow> Some (-1, w, cq) }"

definition network_write_chunkqueue_linuxsendfile :: "net_io \<Rightarrow> wire \<Rightarrow> chunkqueue \<Rightarrow> (int \<times> wire \<times> chunkqueue) option" where
  "network_write_chunkqueue_linuxsendfile io w cq = sendfile_loop (length (cells cq)) io w cq (cq_first cq) 0"

section \<open>Files\<close>

lemma sendfile_file_ok:
  assumes "io_ok io" and "sendable io c" and "ctype c = FILE_CHUNK"
  shows "valid (sendfile_file io w c) (\<lambda>(r, c', w'). case r of
       Inl ret \<Rightarrow> -2 \<le> ret \<and> ret < 0 \<and> sent w' = sent w \<and> (\<exists>d. c' = c\<lparr>f_fd := d\<rparr>)
     | Inr (finished, n) \<Rightarrow> chunk_sent io w c w' finished n c')"
proof -
  let ?name = "cstr (f_name c)"
  define to_send where "to_send = (if f_length c - c_offset c > 2 ^ 30 - 1 then 2 ^ 30 - 1 else f_length c - c_offset c)"
  let ?B = "take (nat (f_length c - c_offset c)) (drop (nat (f_start c + c_offset c)) (content io ?name))"
  let ?b = "take (nat to_send) (drop (nat (f_start c + c_offset c)) (content io ?name))"
  have o: "0 \<le> f_start c" "0 \<le> c_offset c" "c_offset c \<le> f_length c" "f_start c + f_length c \<le> int (length (content io ?name))"
    using assms(2,3) by (simp_all add: sendable_def)
  have B: "chunk_bytes (content io) c = ?B" using assms(3) by (simp add: chunk_bytes_def)
  have to: "0 \<le> to_send" "to_send \<le> f_length c - c_offset c" using o by (auto simp: to_send_def)
  have b: "?b = take (nat to_send) ?B" using to by (simp add: min_def nat_le_eq_zle)
  have lenB: "length ?B = nat (f_length c - c_offset c)" using o by simp
  obtain r w' where s: "socket_send io w ?b = (r, w')" by (cases "socket_send io w ?b")
  let ?c = "if f_fd c = -1 then c\<lparr>f_fd := open_file io ?name\<rparr> else c"
  have upd: "\<exists>d. ?c = c\<lparr>f_fd := d\<rparr>" by (cases "f_fd c = -1") (auto intro: exI[of _ "f_fd c"])
  show ?thesis
  proof (cases "f_fd c = -1 \<and> open_file io ?name = -1")
    case True
    then show ?thesis by (auto simp: sendfile_file_def Let_def intro: exI[of _ "-1"])
  next
    case False
    have unf: "sendfile_file io w c = Some (case call_result r of
            Inl ret \<Rightarrow> (Inl ret, ?c, w')
          | Inr n \<Rightarrow>
              if r = Wrote 0 then
                ((case stat_size io ?name of None \<Rightarrow> Inl (-1) | Some len \<Rightarrow> if f_start c + c_offset c > len then Inl (-1) else Inl (-2)), ?c, w')
              else let (finished, c) = sendfile_advance ?c n in (Inr (finished, n), c, w'))"
      using s o(1,2) to(1) unfolding sendfile_file_def Let_def to_send_def[symmetric] if_not_P[OF False] by simp
    have sent: "case r of Wrote n \<Rightarrow> n \<le> length ?b \<and> sent w' = sent w @ take n ?b | Failed _ \<Rightarrow> sent w' = sent w"
      using socket_send_ok[OF assms(1) s] .
    show ?thesis
    proof (cases "\<exists>n. call_result r = Inr n \<and> r \<noteq> Wrote 0")
      case True
      then obtain n where n: "call_result r = Inr n" "r \<noteq> Wrote 0" by blast
      have m: "n \<le> length ?b" "sent w' = sent w @ take n ?b"
        using sent n(1) by (auto simp: call_result_def split: sys_result.splits errno_t.splits)
      then have m': "n \<le> length ?B" "sent w' = sent w @ take n ?B" unfolding b by auto
      let ?c1 = "?c\<lparr>c_offset := c_offset c + int n\<rparr>" and ?fin = "c_offset c + int n = f_length c"
      have adv: "sendfile_advance ?c n = (?fin, if ?fin then ?c1\<lparr>f_fd := -1\<rparr> else ?c1)"
        by (simp add: sendfile_advance_def Let_def)
      have nats: "nat (f_start c + (c_offset c + int n)) = n + nat (f_start c + c_offset c)"
        "nat (f_length c - (c_offset c + int n)) = nat (f_length c - c_offset c) - n" using o by linarith+
      have le: "c_offset c + int n \<le> f_length c" using m'(1) lenB o by linarith
      have b': "chunk_bytes (content io) (snd (sendfile_advance ?c n)) = drop n ?B"
        using assms(3) nats by (simp add: adv chunk_bytes_def drop_take)
      have "?fin \<Longrightarrow> length ?B = n" using lenB by simp
      then have "chunk_sent io w c w' (fst (sendfile_advance ?c n)) n (snd (sendfile_advance ?c n))"
        unfolding chunk_sent_def B b' using m' o le assms(2,3) by (simp add: adv sendable_def)
      then show ?thesis unfolding unf using n by (simp add: case_prod_unfold Let_def)
    next
      case stop: False
      have "sent w' = sent w" if "call_result r = Inl x" for x
        using sent that by (auto simp: call_result_def split: sys_result.splits)
      moreover have "-2 \<le> x \<and> x < 0" if "call_result r = Inl x" for x
        using that by (auto simp: call_result_def split: sys_result.splits errno_t.splits)
      moreover have "sent w' = sent w" if "r = Wrote 0" using sent that by simp
      ultimately show ?thesis unfolding unf using stop upd
        by (cases "call_result r") (auto split: option.splits)
    qed
  qed
qed


section \<open>Runs of memory chunks\<close>

lemma mem_run_ok:
  assumes "lseg (cells cq) p ds"
  shows "\<exists>ts rest. mem_run n cq p = Some ts \<and> ds = ts @ rest \<and> list_all (\<lambda>c. ctype c = MEM_CHUNK) (items cq ts) \<and>
     (ts = [] \<longrightarrow> n = 0 \<or> (case ds of [] \<Rightarrow> True | d # _ \<Rightarrow> ctype (the (cells cq ! d)) \<noteq> MEM_CHUNK))"
  using assms
proof (induction ds arbitrary: n p)
  case Nil
  then show ?case by (cases n) auto
next
  case (Cons a ds)
  then obtain c where c: "p = Some a" "a < length (cells cq)" "cells cq ! a = Some c" "lseg (cells cq) (c_next c) ds" by auto
  show ?case
  proof (cases n)
    case (Suc k)
    obtain ts rest where r: "mem_run k cq (c_next c) = Some ts" "ds = ts @ rest" "list_all (\<lambda>c. ctype c = MEM_CHUNK) (items cq ts)"
      using Cons.IH[OF c(4), of k] by blast
    show ?thesis
    proof (cases "ctype c = MEM_CHUNK")
      case True
      with r c Suc have "mem_run n cq p = Some (a # ts)" "a # ds = (a # ts) @ rest"
        "list_all (\<lambda>c. ctype c = MEM_CHUNK) (items cq (a # ts))" by (simp_all add: get_chunk_def items_Cons)
      then show ?thesis by blast
    next
      case False
      with c Suc have "mem_run n cq p = Some []" by (simp add: get_chunk_def)
      with False c show ?thesis by (intro exI[of _ "[]"] exI[of _ "a # ds"]) (simp add: items_def)
    qed
  qed (simp add: items_def)
qed

definition bytes_of :: "net_io \<Rightarrow> chunkqueue \<Rightarrow> nat list \<Rightarrow> char list list" where
  "bytes_of io cq ts = map (chunk_bytes (content io)) (items cq ts)"

lemma pending_bytes: "pending (content io) (items cq ts) = concat (bytes_of io cq ts)"
  by (simp add: bytes_of_def pending_def)

lemma gather_ok:
  assumes "\<forall>t \<in> set ts. t < length (cells cq) \<and> cells cq ! t \<noteq> None" and "list_all (sendable io) (items cq ts)"
    and "list_all (\<lambda>c. ctype c = MEM_CHUNK) (items cq ts)" and "num + length (concat (bytes_of io cq ts)) \<le> SSIZE_MAX"
  shows "gather cq ts num = Some (bytes_of io cq ts)"
  using assms
proof (induction ts arbitrary: num)
  case (Cons t ts)
  then obtain c where c: "get_chunk cq t = Some c" by (auto simp: get_chunk_iff)
  then have it: "items cq (t # ts) = bare c # items cq ts" by (simp add: items_Cons get_chunk_iff)
  have b: "bytes_of io cq (t # ts) = drop (nat (c_offset c)) (butlast (c_mem c)) # bytes_of io cq ts"
    using Cons.prems(3) it by (simp add: bytes_of_def chunk_bytes_def)
  have IH: "gather cq ts (num + length (drop (nat (c_offset c)) (butlast (c_mem c)))) = Some (bytes_of io cq ts)"
    using Cons.prems it b by (intro Cons.IH) auto
  have "sendable io c" "ctype c = MEM_CHUNK" using Cons.prems(2,3) it by simp_all
  then have "c_mem c = [] \<or> 0 \<le> c_offset c \<and> c_offset c \<le> int (length (c_mem c)) - 1" by (simp add: sendable_def)
  with c b IH Cons.prems(4) show ?case by (auto simp: Let_def)
qed (simp add: bytes_of_def)

text \<open>
  The bytes are taken off the chunks of the run from the front.  When all of it was written, the outer
  loop stands at the last chunk of the run.
\<close>

definition stands :: "chunkqueue \<Rightarrow> nat \<Rightarrow> nat option \<Rightarrow> bool" where
  "stands cq c p \<longleftrightarrow> (\<exists>cc. get_chunk cq c = Some cc \<and> c_next cc = p)"

lemma mem_written:
  assumes "sendable io c" and "ctype c = MEM_CHUNK" and "n \<le> length (chunk_bytes (content io) c)"
  shows "chunk_bytes (content io) (c\<lparr>c_offset := c_offset c + int n\<rparr>) = drop n (chunk_bytes (content io) c)"
    "sendable io (c\<lparr>c_offset := c_offset c + int n\<rparr>)"
proof -
  have "c_mem c = [] \<or> 0 \<le> c_offset c \<and> c_offset c \<le> int (length (c_mem c)) - 1" using assms(1,2) by (simp add: sendable_def)
  then show "chunk_bytes (content io) (c\<lparr>c_offset := c_offset c + int n\<rparr>) = drop n (chunk_bytes (content io) c)"
    "sendable io (c\<lparr>c_offset := c_offset c + int n\<rparr>)"
    using assms(2,3) by (auto simp: chunk_bytes_def sendable_def nat_add_distrib add.commute)
qed

lemma account_ok:
  assumes "shape cq as us" and "set ts \<subseteq> set as" and "distinct (ts @ rest)" and "lseg (cells cq) p (ts @ rest)"
    and "finished \<longrightarrow> c \<notin> set ts \<and> stands cq c p" and "\<not> finished \<longrightarrow> ts \<noteq> [] \<and> c = hd ts"
    and "list_all (sendable io) (items cq ts)" and "list_all (\<lambda>c. ctype c = MEM_CHUNK) (items cq ts)"
  shows "\<exists>cq' f c' n'. account cq ts (map length (bytes_of io cq ts)) m finished c n = Some (cq', f, c', n') \<and> n \<le> n' \<and>
     shape cq' as us \<and> (\<forall>b. b \<notin> set ts \<longrightarrow> cells cq' ! b = cells cq ! b) \<and> bytes_out cq' = bytes_out cq \<and>
     concat (bytes_of io cq ts) = take m (concat (bytes_of io cq ts)) @ concat (bytes_of io cq' ts) \<and>
     list_all (sendable io) (items cq' ts) \<and>
     (f \<longrightarrow> concat (bytes_of io cq' ts) = [] \<and> (\<exists>q. stands cq' c' q \<and> lseg (cells cq') q rest))"
  using assms
proof (induction ts arbitrary: cq p m finished c n)
  case Nil
  then have "finished" "stands cq c p" "lseg (cells cq) p rest" by auto
  with Nil.prems(1) show ?case
    by (intro exI[of _ cq] exI[of _ True] exI[of _ c] exI[of _ n]) (auto simp: bytes_of_def)
next
  case (Cons t ts)
  then obtain tc where t: "p = Some t" "get_chunk cq t = Some tc" "lseg (cells cq) (c_next tc) (ts @ rest)"
    by (auto simp: get_chunk_iff)
  have ti: "t < length (cells cq)" "cells cq ! t = Some tc" using t(2) by (simp_all add: get_chunk_iff)
  have it: "items cq (t # ts) = bare tc # items cq ts" using ti by (simp add: items_Cons)
  have tn: "t \<notin> set ts" "t \<notin> set (ts @ rest)" using Cons.prems(3) by auto
  have ok: "sendable io tc" "ctype tc = MEM_CHUNK" using Cons.prems(7,8) it by simp_all
  let ?b = "chunk_bytes (content io) tc"
  have b: "bytes_of io cq (t # ts) = ?b # bytes_of io cq ts" by (simp add: bytes_of_def it)
  let ?k = "min m (length ?b)"
  let ?tc = "tc\<lparr>c_offset := c_offset tc + int ?k\<rparr>"
  let ?q = "set_chunk cq t ?tc"
  note w = mem_written[OF ok, of ?k, simplified min.cobounded2 simp_thms]
  have q: "shape ?q as us" using shape_same_next[OF Cons.prems(1) t(2), of ?tc "bytes_out ?q"] by simp
  have cells_q: "cells ?q = (cells cq)[t := Some ?tc]" by (simp add: set_chunk_def)
  have items_q: "items ?q ts = items cq ts" using tn(1) by simp
  then have bytes_q: "bytes_of io ?q ts = bytes_of io cq ts" by (simp add: bytes_of_def)
  have q_t: "cells ?q ! t = Some ?tc" "t < length (cells ?q)" using ti cells_q by simp_all
  have stands_t: "stands ?q t (c_next tc)" using q_t by (simp add: stands_def get_chunk_iff)
  show ?case
  proof (cases "m \<ge> length ?b")
    case False
    then have k: "?k = m" by simp
    have "account cq (t # ts) (map length (bytes_of io cq (t # ts))) m finished c n = Some (?q, False, c, n)"
      using False t(2) by (simp add: b k)
    moreover have "items ?q (t # ts) = bare ?tc # items cq ts" using q_t items_q by (simp add: items_Cons)
    moreover from this have "concat (bytes_of io ?q (t # ts)) = drop m ?b @ concat (bytes_of io cq ts)"
      using w(1) k by (simp add: bytes_of_def)
    moreover have "\<forall>x. x \<notin> set (t # ts) \<longrightarrow> cells ?q ! x = cells cq ! x" using cells_q by simp
    moreover have "bytes_out ?q = bytes_out cq" by (simp add: set_chunk_def)
    ultimately show ?thesis using q w(2) Cons.prems(7) it False
      by (intro exI[of _ ?q] exI[of _ False] exI[of _ c] exI[of _ n]) (simp add: b)
  next
    case True
    then have k: "?k = length ?b" by simp
    define n1 where "n1 = (if finished then n + 1 else n)"
    have pick: "(if finished then do { cc \<leftarrow> get_chunk ?q c; c \<leftarrow> c_next cc; Some (c, n + 1) } else Some (c, n)) = Some (t, n1)"
    proof (cases finished)
      case True
      with Cons.prems(5) t(1) obtain cc where "get_chunk cq c = Some cc" "c_next cc = Some t" "c \<noteq> t" by (auto simp: stands_def)
      then have "get_chunk ?q c = Some cc" by (simp add: get_chunk_iff cells_q)
      with True \<open>c_next cc = Some t\<close> show ?thesis by (simp add: n1_def)
    next
      case False
      with Cons.prems(6) show ?thesis by (simp add: n1_def)
    qed
    have step: "account cq (t # ts) (map length (bytes_of io cq (t # ts))) m finished c n =
        account ?q ts (map length (bytes_of io ?q ts)) (m - length ?b) True t n1"
      using True t(2) pick[unfolded k] by (simp add: b k bytes_q[unfolded k] Let_def)
    have "\<exists>cq' f c' n'. account ?q ts (map length (bytes_of io ?q ts)) (m - length ?b) True t n1 = Some (cq', f, c', n') \<and> n1 \<le> n' \<and>
     shape cq' as us \<and> (\<forall>b. b \<notin> set ts \<longrightarrow> cells cq' ! b = cells ?q ! b) \<and> bytes_out cq' = bytes_out ?q \<and>
     concat (bytes_of io ?q ts) = take (m - length ?b) (concat (bytes_of io ?q ts)) @ concat (bytes_of io cq' ts) \<and>
     list_all (sendable io) (items cq' ts) \<and>
     (f \<longrightarrow> concat (bytes_of io cq' ts) = [] \<and> (\<exists>q. stands cq' c' q \<and> lseg (cells cq') q rest))"
    proof (rule Cons.IH[OF q])
      show "lseg (cells ?q) (c_next tc) (ts @ rest)" using t(3) tn(2) cells_q by simp
      show "True \<longrightarrow> t \<notin> set ts \<and> stands ?q t (c_next tc)" using tn(1) stands_t by simp
    qed (use Cons.prems it items_q in auto)
    then obtain cq' f c' n' where r0: "account ?q ts (map length (bytes_of io ?q ts)) (m - length ?b) True t n1 = Some (cq', f, c', n')"
      and r: "n1 \<le> n'" "shape cq' as us" "\<forall>b. b \<notin> set ts \<longrightarrow> cells cq' ! b = cells ?q ! b" "bytes_out cq' = bytes_out ?q"
      "concat (bytes_of io ?q ts) = take (m - length ?b) (concat (bytes_of io ?q ts)) @ concat (bytes_of io cq' ts)"
      "list_all (sendable io) (items cq' ts)"
      "f \<longrightarrow> concat (bytes_of io cq' ts) = [] \<and> (\<exists>q. stands cq' c' q \<and> lseg (cells cq') q rest)"
      by blast
    note run = step[unfolded r0] and r5 = r(5)[unfolded bytes_q]
    have "cells cq' ! t = Some ?tc" using r(3) tn(1) q_t by simp
    then have it': "items cq' (t # ts) = bare ?tc # items cq' ts" by (simp add: items_Cons)
    have b': "concat (bytes_of io cq' (t # ts)) = concat (bytes_of io cq' ts)"
      using w(1) k by (simp add: bytes_of_def it')
    have take: "take m (concat (bytes_of io cq (t # ts))) = ?b @ take (m - length ?b) (concat (bytes_of io cq ts))"
      using True by (simp add: b)
    have "concat (bytes_of io cq (t # ts)) = take m (concat (bytes_of io cq (t # ts))) @ concat (bytes_of io cq' (t # ts))"
      unfolding take b' using r5 by (simp add: b)
    moreover have "n \<le> n'" using r(1) by (simp add: n1_def split: if_splits)
    moreover have "\<forall>x. x \<notin> set (t # ts) \<longrightarrow> cells cq' ! x = cells cq ! x" using r(3) cells_q by simp
    moreover have "bytes_out cq' = bytes_out cq" using r(4) by (simp add: set_chunk_def)
    ultimately show ?thesis using run r(2,6,7) it' w(2) b'
      by (intro exI[of _ cq'] exI[of _ f] exI[of _ c'] exI[of _ n']) simp
  qed
qed


section \<open>The loop\<close>

text \<open>What a part of the loop does with the chunks \<open>ds\<close>.\<close>

definition sends_of :: "net_io \<Rightarrow> nat list \<Rightarrow> nat list \<Rightarrow> nat list \<Rightarrow> wire \<Rightarrow> chunkqueue \<Rightarrow> wire \<Rightarrow> chunkqueue \<Rightarrow> bool" where
  "sends_of io as us ds w cq w' cq' \<longleftrightarrow> shape cq' as us \<and> (\<forall>b. b \<notin> set ds \<longrightarrow> cells cq' ! b = cells cq ! b) \<and>
     list_all (sendable io) (items cq' ds) \<and>
     (\<exists>t. sent w' = sent w @ t \<and> concat (bytes_of io cq ds) = t @ concat (bytes_of io cq' ds) \<and>
        bytes_out cq' = bytes_out cq + int (length t))"

lemma bytes_of_append [simp]: "bytes_of io cq (ts @ ds) = bytes_of io cq ts @ bytes_of io cq ds"
  by (simp add: bytes_of_def items_append)

lemma bytes_of_other: "\<forall>b \<in> set ds. cells cq' ! b = cells cq ! b \<Longrightarrow> bytes_of io cq' ds = bytes_of io cq ds"
  by (simp add: bytes_of_def items_def cong: map_cong)

lemma items_same: "\<forall>b \<in> set ds. cells cq' ! b = cells cq ! b \<Longrightarrow> items cq' ds = items cq ds"
  by (simp add: items_def cong: map_cong)

lemma sends_of_trans:
  assumes "sends_of io as us ts w cq w1 cq1" and "concat (bytes_of io cq1 ts) = []" and "sends_of io as us ds w1 cq1 w2 cq2"
    and "set ts \<inter> set ds = {}"
  shows "sends_of io as us (ts @ ds) w cq w2 cq2"
proof -
  have 1: "bytes_of io cq1 ds = bytes_of io cq ds" "\<forall>b. b \<notin> set ts \<longrightarrow> cells cq1 ! b = cells cq ! b"
    using assms(1,4) bytes_of_other[of ds cq1 cq io] by (auto simp: sends_of_def)
  have "\<forall>b \<in> set ts. cells cq2 ! b = cells cq1 ! b" using assms(3,4) by (auto simp: sends_of_def)
  then have 2: "bytes_of io cq2 ts = bytes_of io cq1 ts" "items cq2 ts = items cq1 ts"
    using bytes_of_other items_same by blast+
  obtain t u where t: "sent w1 = sent w @ t" "concat (bytes_of io cq ts) = t @ concat (bytes_of io cq1 ts)"
    "bytes_out cq1 = bytes_out cq + int (length t)" "sent w2 = sent w1 @ u"
    "concat (bytes_of io cq1 ds) = u @ concat (bytes_of io cq2 ds)" "bytes_out cq2 = bytes_out cq1 + int (length u)"
    using assms(1,3) unfolding sends_of_def by blast
  then have "sent w2 = sent w @ t @ u" "concat (bytes_of io cq (ts @ ds)) = (t @ u) @ concat (bytes_of io cq2 (ts @ ds))"
    "bytes_out cq2 = bytes_out cq + int (length (t @ u))" using 1(1) 2(1) assms(2) by simp_all
  then have "\<exists>t. sent w2 = sent w @ t \<and> concat (bytes_of io cq (ts @ ds)) = t @ concat (bytes_of io cq2 (ts @ ds)) \<and>
        bytes_out cq2 = bytes_out cq + int (length t)" by blast
  then show ?thesis using assms(1,3) 1(2) 2(2) by (simp add: sends_of_def items_append)
qed

lemma sends_of_more:
  assumes "sends_of io as us ts w cq w' cq'" and "set ts \<inter> set ds = {}" and "list_all (sendable io) (items cq ds)"
  shows "sends_of io as us (ts @ ds) w cq w' cq'"
proof -
  have "bytes_of io cq' ds = bytes_of io cq ds" "items cq' ds = items cq ds"
    using assms(1,2) bytes_of_other[of ds cq' cq io] items_same[of ds cq' cq] by (auto simp: sends_of_def)
  then show ?thesis using assms(1,3) by (auto simp: sends_of_def items_append)
qed

lemma sends_of_one:
  assumes "shape cq as us" and "get_chunk cq a = Some c" and "chunk_sent io w c w' fin n c'" and "sendable io c"
  shows "sends_of io as us [a] w cq w' ((set_chunk cq a c')\<lparr>bytes_out := bytes_out cq + int n\<rparr>)"
    "fin \<Longrightarrow> concat (bytes_of io ((set_chunk cq a c')\<lparr>bytes_out := bytes_out cq + int n\<rparr>) [a]) = []"
proof -
  let ?q = "(set_chunk cq a c')\<lparr>bytes_out := bytes_out cq + int n\<rparr>"
  note s = assms(3)[unfolded chunk_sent_def]
  have a: "a < length (cells cq)" "cells cq ! a = Some c" using assms(2) by (simp_all add: get_chunk_iff)
  then have q: "items ?q [a] = [bare c']" "items cq [a] = [bare c]" by (simp_all add: items_Cons set_chunk_def)
  have "chunk_bytes (content io) c = take n (chunk_bytes (content io) c) @ chunk_bytes (content io) c'"
    using s append_take_drop_id by metis
  moreover have "\<forall>b. b \<notin> set [a] \<longrightarrow> cells ?q ! b = cells cq ! b" by (simp add: set_chunk_def)
  ultimately show "sends_of io as us [a] w cq w' ?q"
    using q s shape_same_next[OF assms(1,2)]
    by (auto simp: sends_of_def bytes_of_def intro!: exI[of _ "take n (chunk_bytes (content io) c)"])
  assume fin
  with s have "chunk_bytes (content io) c' = []" by blast
  with q(1) show "concat (bytes_of io ?q [a]) = []" by (simp add: bytes_of_def)
qed

lemma call_result_ok:
  assumes "io_ok io" and "socket_send io w b = (r, w')"
  shows "case call_result r of Inl ret \<Rightarrow> -2 \<le> ret \<and> ret < 0 \<and> sent w' = sent w | Inr n \<Rightarrow> n \<le> length b \<and> sent w' = sent w @ take n b"
  using socket_send_ok[OF assms] by (auto simp: call_result_def split: sys_result.splits errno_t.splits)


text \<open>A run of memory chunks.\<close>

lemma mem_step_ok:
  assumes "io_ok io" and "shape cq as us" and "set (ts @ rest) \<subseteq> set as" and "distinct (ts @ rest)"
    and "lseg (cells cq) (Some a) (ts @ rest)" and "ts \<noteq> []" and "list_all (sendable io) (items cq ts)"
    and "list_all (\<lambda>c. ctype c = MEM_CHUNK) (items cq ts)" and "length (concat (bytes_of io cq ts)) \<le> SSIZE_MAX"
    and "socket_send io w (concat (bytes_of io cq ts)) = (r, w')" and "call_result r = Inr m"
  shows "gather cq ts 0 = Some (bytes_of io cq ts)"
    "\<exists>cq' f c n'. account (cq\<lparr>bytes_out := bytes_out cq + int m\<rparr>) ts (map length (bytes_of io cq ts)) m False a n = Some (cq', f, c, n') \<and>
       n \<le> n' \<and> sends_of io as us ts w cq w' cq' \<and>
       (f \<longrightarrow> concat (bytes_of io cq' ts) = [] \<and> (\<exists>q. stands cq' c q \<and> lseg (cells cq') q rest))"
proof -
  have bound: "\<forall>t \<in> set ts. t < length (cells cq) \<and> cells cq ! t \<noteq> None"
    using lseg_bound[OF assms(5)] by auto
  show "gather cq ts 0 = Some (bytes_of io cq ts)"
    using gather_ok[OF bound assms(7,8), of 0] assms(9) by simp
  let ?q = "cq\<lparr>bytes_out := bytes_out cq + int m\<rparr>"
  have same: "bytes_of io ?q ts = bytes_of io cq ts" "items ?q ts = items cq ts" by (simp_all add: bytes_of_def items_def)
  have "shape ?q as us" using assms(2) by (simp add: shape_def)
  then have "\<exists>cq' f c' n'. account ?q ts (map length (bytes_of io ?q ts)) m False a n = Some (cq', f, c', n') \<and> n \<le> n' \<and>
     shape cq' as us \<and> (\<forall>b. b \<notin> set ts \<longrightarrow> cells cq' ! b = cells ?q ! b) \<and> bytes_out cq' = bytes_out ?q \<and>
     concat (bytes_of io ?q ts) = take m (concat (bytes_of io ?q ts)) @ concat (bytes_of io cq' ts) \<and>
     list_all (sendable io) (items cq' ts) \<and>
     (f \<longrightarrow> concat (bytes_of io cq' ts) = [] \<and> (\<exists>q. stands cq' c' q \<and> lseg (cells cq') q rest))"
    by (rule account_ok) (use assms(3-8) same in \<open>auto simp: neq_Nil_conv\<close>)
  then obtain cq' f c' n' where r': "account ?q ts (map length (bytes_of io ?q ts)) m False a n = Some (cq', f, c', n')" "n \<le> n'"
     "shape cq' as us" "\<forall>b. b \<notin> set ts \<longrightarrow> cells cq' ! b = cells ?q ! b" "bytes_out cq' = bytes_out ?q"
     "concat (bytes_of io ?q ts) = take m (concat (bytes_of io ?q ts)) @ concat (bytes_of io cq' ts)"
     "list_all (sendable io) (items cq' ts)"
     "f \<longrightarrow> concat (bytes_of io cq' ts) = [] \<and> (\<exists>q. stands cq' c' q \<and> lseg (cells cq') q rest)"
    by blast
  note r = r'(1)[unfolded same] r'(2,3) r'(4)[simplified] r'(5)[simplified] r'(6)[unfolded same] r'(7,8)
  have "m \<le> length (concat (bytes_of io cq ts))" "sent w' = sent w @ take m (concat (bytes_of io cq ts))"
    using call_result_ok[OF assms(1,10)] assms(11) by simp_all
  then have "sends_of io as us ts w cq w' cq'"
    using r(3-7) by (auto simp: sends_of_def intro!: exI[of _ "take m (concat (bytes_of io cq ts))"])
  with r(1,2,8) show "\<exists>cq' f c n'. account ?q ts (map length (bytes_of io cq ts)) m False a n = Some (cq', f, c, n') \<and>
       n \<le> n' \<and> sends_of io as us ts w cq w' cq' \<and>
       (f \<longrightarrow> concat (bytes_of io cq' ts) = [] \<and> (\<exists>q. stands cq' c q \<and> lseg (cells cq') q rest))" by blast
qed

lemma sends_of_none:
  "shape cq as us \<Longrightarrow> list_all (sendable io) (items cq ds) \<Longrightarrow> sent w' = sent w \<Longrightarrow> sends_of io as us ds w cq w' cq"
  by (auto simp: sends_of_def)

lemma sendfile_loop_ok:
  assumes "io_ok io" and "shape cq as us" and "set ds \<subseteq> set as" and "distinct ds" and "lseg (cells cq) p ds"
    and "list_all (sendable io) (items cq ds)" and "length ds \<le> fuel" and "length (concat (bytes_of io cq ds)) \<le> SSIZE_MAX"
  shows "\<exists>r w' cq'. sendfile_loop fuel io w cq p n = Some (r, w', cq') \<and> (-2 \<le> r \<and> r < 0 \<or> n \<le> r) \<and>
     sends_of io as us ds w cq w' cq'"
  using assms(2-)
proof (induction fuel arbitrary: cq p w n ds)
  case 0
  then show ?case using sends_of_none by (auto simp: items_def)
next
  case (Suc fuel)
  show ?case
  proof (cases ds)
    case Nil
    then show ?thesis using Suc.prems sends_of_none by auto
  next
    case (Cons a ds')
    then obtain c where c: "p = Some a" "get_chunk cq a = Some c" "lseg (cells cq) (c_next c) ds'"
      using Suc.prems(4) by (auto simp: get_chunk_iff)
    then have it: "items cq ds = bare c # items cq ds'" using Cons by (simp add: items_Cons get_chunk_iff)
    have ok: "sendable io c" "list_all (sendable io) (items cq ds')" using Suc.prems(5) it by simp_all
    consider "ctype c = MEM_CHUNK" | "ctype c = FILE_CHUNK" using ok(1) by (cases "ctype c") (auto simp: sendable_def)
    then show ?thesis
    proof cases
      case 1
      obtain ts rest where run: "mem_run UIO_MAXIOV cq p = Some ts" "ds = ts @ rest" "list_all (\<lambda>c. ctype c = MEM_CHUNK) (items cq ts)"
        "ts \<noteq> []" using mem_run_ok[OF Suc.prems(4), of UIO_MAXIOV] 1 c(2) Cons by (auto simp: UIO_MAXIOV_def get_chunk_iff)
      have ok': "list_all (sendable io) (items cq ts)" "list_all (sendable io) (items cq rest)"
        using Suc.prems(5) run(2) by (simp_all add: items_append)
      have len: "length (concat (bytes_of io cq ts)) \<le> SSIZE_MAX" using Suc.prems(7) run(2) by simp
      obtain r w1 where s: "socket_send io w (concat (bytes_of io cq ts)) = (r, w1)" by (cases "socket_send io w (concat (bytes_of io cq ts))")
      note cr = call_result_ok[OF assms(1) s]
      have bound: "\<forall>t \<in> set ts. t < length (cells cq) \<and> cells cq ! t \<noteq> None"
        using lseg_bound[OF Suc.prems(4)] run(2) by auto
      have g: "gather cq ts 0 = Some (bytes_of io cq ts)" using gather_ok[OF bound ok'(1) run(3), of 0] len by simp
      show ?thesis
      proof (cases "call_result r")
        case (Inl ret)
        then have "sendfile_loop (Suc fuel) io w cq p n = Some (ret, w1, cq)" using 1 c run(1) g s by simp
        moreover have "sends_of io as us ds w cq w1 cq" "-2 \<le> ret \<and> ret < 0"
          using Inl cr Suc.prems(1,5) by (auto intro: sends_of_none)
        ultimately show ?thesis by blast
      next
        case (Inr m)
        obtain cq1 f b n1 where acc: "account (cq\<lparr>bytes_out := bytes_out cq + int m\<rparr>) ts (map length (bytes_of io cq ts)) m False a n = Some (cq1, f, b, n1)"
          "n \<le> n1" "sends_of io as us ts w cq w1 cq1"
          "f \<longrightarrow> concat (bytes_of io cq1 ts) = [] \<and> (\<exists>q. stands cq1 b q \<and> lseg (cells cq1) q rest)"
          using mem_step_ok(2)[OF assms(1) Suc.prems(1) _ _ _ run(4) ok'(1) run(3) len s Inr] Suc.prems(2-4) run(2) c(1) by metis
        have dis: "set ts \<inter> set rest = {}" "distinct rest" "set rest \<subseteq> set as" using Suc.prems(2,3) run(2) by auto
        show ?thesis
        proof (cases f)
          case False
          then have "sendfile_loop (Suc fuel) io w cq p n = Some (n1, w1, cq1)" using 1 c run(1) g s Inr acc(1) by simp
          moreover have "sends_of io as us ds w cq w1 cq1" unfolding run(2) by (rule sends_of_more[OF acc(3) dis(1) ok'(2)])
          ultimately show ?thesis using acc(2) by blast
        next
          case True
          with acc(4) obtain q where q: "concat (bytes_of io cq1 ts) = []" "stands cq1 b q" "lseg (cells cq1) q rest" by blast
          have keep: "\<forall>x \<in> set rest. cells cq1 ! x = cells cq ! x" using acc(3) dis(1) by (auto simp: sends_of_def)
          have "\<exists>r w' cq'. sendfile_loop fuel io w1 cq1 q (n1 + 1) = Some (r, w', cq') \<and> (-2 \<le> r \<and> r < 0 \<or> n1 + 1 \<le> r) \<and>
             sends_of io as us rest w1 cq1 w' cq'"
          proof (rule Suc.IH)
            show "shape cq1 as us" using acc(3) by (simp add: sends_of_def)
            show "list_all (sendable io) (items cq1 rest)" using items_same[OF keep] ok'(2) by simp
            show "length rest \<le> fuel" using Suc.prems(6) run(2,4) by (cases ts) auto
            show "length (concat (bytes_of io cq1 rest)) \<le> SSIZE_MAX" using bytes_of_other[OF keep] Suc.prems(7) run(2) by simp
          qed (use dis q in auto)
          then obtain r' w' cq' where r: "sendfile_loop fuel io w1 cq1 q (n1 + 1) = Some (r', w', cq')" "-2 \<le> r' \<and> r' < 0 \<or> n1 + 1 \<le> r'"
            "sends_of io as us rest w1 cq1 w' cq'" by blast
          obtain bc where "get_chunk cq1 b = Some bc" "c_next bc = q" using q(2) by (auto simp: stands_def)
          then have "sendfile_loop (Suc fuel) io w cq p n = Some (r', w', cq')"
            using 1 c run(1) g s Inr acc(1) True r(1) by simp
          moreover have "sends_of io as us ds w cq w' cq'" unfolding run(2) by (rule sends_of_trans[OF acc(3) q(1) r(3) dis(1)])
          ultimately show ?thesis using r(2) acc(2) by fastforce
        qed
      qed
    next
      case 2
      obtain r c' w1 where s: "sendfile_file io w c = Some (r, c', w1)" "case r of
         Inl ret \<Rightarrow> -2 \<le> ret \<and> ret < 0 \<and> sent w1 = sent w \<and> (\<exists>d. c' = c\<lparr>f_fd := d\<rparr>)
       | Inr (finished, m) \<Rightarrow> chunk_sent io w c w1 finished m c'"
        using sendfile_file_ok[OF assms(1) ok(1) 2, of w] by (auto simp: valid_def)
      have dis: "set [a] \<inter> set ds' = {}" "distinct ds'" "set ds' \<subseteq> set as" using Suc.prems(2,3) Cons by auto
      show ?thesis
      proof (cases r)
        case (Inl ret)
        with s(2) obtain d where d: "c' = c\<lparr>f_fd := d\<rparr>" "sent w1 = sent w" "-2 \<le> ret" "ret < 0" by auto
        have run: "sendfile_loop (Suc fuel) io w cq p n = Some (ret, w1, set_chunk cq a c')"
          using 2 c s(1) Inl by simp
        have "chunk_sent io w c w1 False 0 c'"
          using d 2 ok(1) by (simp add: chunk_sent_def chunk_bytes_def sendable_def)
        from sends_of_one(1)[OF Suc.prems(1) c(2) this ok(1)]
        have one: "sends_of io as us [a] w cq w1 (set_chunk cq a c')" by (simp add: set_chunk_def)
        show ?thesis using run sends_of_more[OF one dis(1) ok(2)] Cons d by auto
      next
        case (Inr x)
        obtain f m where x: "x = (f, m)" by (cases x)
        with Inr s(2) have cs: "chunk_sent io w c w1 f m c'" by simp
        let ?q = "(set_chunk cq a c')\<lparr>bytes_out := bytes_out cq + int m\<rparr>"
        note one = sends_of_one[OF Suc.prems(1) c(2) cs ok(1)]
        have q: "(set_chunk cq a c')\<lparr>bytes_out := bytes_out (set_chunk cq a c') + int m\<rparr> = ?q" by (simp add: set_chunk_def)
        show ?thesis
        proof (cases f)
          case False
          then have "sendfile_loop (Suc fuel) io w cq p n = Some (n, w1, ?q)" using 2 c s(1) Inr x q by simp
          with sends_of_more[OF one(1) dis(1) ok(2)] Cons show ?thesis by auto
        next
          case True
          have keep: "\<forall>x \<in> set ds'. cells ?q ! x = cells cq ! x" using one(1) dis(1) by (auto simp: sends_of_def)
          have nx: "c_next c' = c_next c" using cs by (simp add: chunk_sent_def)
          have "\<exists>r w' cq'. sendfile_loop fuel io w1 ?q (c_next c') (n + 1) = Some (r, w', cq') \<and> (-2 \<le> r \<and> r < 0 \<or> n + 1 \<le> r) \<and>
             sends_of io as us ds' w1 ?q w' cq'"
          proof (rule Suc.IH)
            show "shape ?q as us" using one(1) by (simp add: sends_of_def)
            show "lseg (cells ?q) (c_next c') ds'" using c(3) nx dis(1) by (simp add: set_chunk_def)
            show "list_all (sendable io) (items ?q ds')" using items_same[OF keep] ok(2) by simp
            show "length ds' \<le> fuel" using Suc.prems(6) Cons by simp
            have "bytes_of io cq ds = bytes_of io cq [a] @ bytes_of io cq ds'"
              using Cons bytes_of_append[of io cq "[a]" ds'] by simp
            then show "length (concat (bytes_of io ?q ds')) \<le> SSIZE_MAX"
              using bytes_of_other[OF keep, of io] Suc.prems(7) by simp
          qed (use dis in auto)
          then obtain r' w' cq' where r: "sendfile_loop fuel io w1 ?q (c_next c') (n + 1) = Some (r', w', cq')"
            "-2 \<le> r' \<and> r' < 0 \<or> n + 1 \<le> r'" "sends_of io as us ds' w1 ?q w' cq'" by blast
          have "sendfile_loop (Suc fuel) io w cq p n = Some (r', w', cq')" using 2 c s(1) Inr x True r(1) q by simp
          moreover have "sends_of io as us ([a] @ ds') w cq w' cq'" by (rule sends_of_trans[OF one(1) one(2)[OF True] r(3) dis(1)])
          ultimately show ?thesis using r(2) Cons by auto
        qed
      qed
    qed
  qed
qed

section \<open>The backend\<close>

lemma sendfile_backend_ok:
  assumes "io_ok io" and "queued io cq s"
  shows "valid (network_write_chunkqueue_linuxsendfile io w cq) (\<lambda>(r, w', cq'). -2 \<le> r \<and> sends io w cq s w' cq')"
proof -
  obtain as us where a: "shape cq as us" "list_all (sendable io) (items cq as)" "pending (content io) (items cq as) = s"
    "lseg (cells cq) (cq_first cq) as" "distinct as" "length as \<le> length (cells cq)" by (rule queuedE[OF assms(2)])
  have bytes: "concat (bytes_of io q as) = pending (content io) (items q as)" for q by (simp add: pending_bytes)
  have len: "length (concat (bytes_of io cq as)) \<le> SSIZE_MAX" using assms(2) a(3) bytes by (simp add: queued_def)
  obtain r w' cq' where r: "sendfile_loop (length (cells cq)) io w cq (cq_first cq) 0 = Some (r, w', cq')" "-2 \<le> r \<and> r < 0 \<or> 0 \<le> r"
    "sends_of io as us as w cq w' cq'"
    using sendfile_loop_ok[OF assms(1) a(1) order.refl a(5,4,2,6) len, of w 0] by auto
  then obtain t where t: "sent w' = sent w @ t" "s = t @ pending (content io) (items cq' as)"
    "bytes_out cq' = bytes_out cq + int (length t)" "shape cq' as us" "list_all (sendable io) (items cq' as)"
    using a(3) bytes by (auto simp: sends_of_def)
  with assms(2) have "queued io cq' (pending (content io) (items cq' as))" by (auto simp: queued_def cq_rep_def)
  with r(1,2) t show ?thesis by (auto simp: network_write_chunkqueue_linuxsendfile_def sends_def)
qed

interpretation linux_sendfile: network_backend network_write_chunkqueue_linuxsendfile
  by unfold_locales (rule sendfile_backend_ok)

end
