(* ===== verification/Network.thy ===== *)
theory Network
  imports NetworkSendfile
begin

text \<open>
  \<open>network_write_chunkqueue\<close> of \<open>network.c\<close>: it hands a queue to the backend, counts what was sent
  and applies the traffic limits.  The server is built without OpenSSL, and a \<open>TCP_CORK\<close> changes
  nothing the model shows.  The queue is a queue of the connection; it is passed and returned on its
  own, as the code only reaches it through its pointer.
\<close>

type_synonym backend = "net_io \<Rightarrow> wire \<Rightarrow> chunkqueue \<Rightarrow> (int \<times> wire \<times> chunkqueue) option"

section \<open>The code\<close>

definition limit_reached :: "server \<Rightarrow> connection \<Rightarrow> (server \<times> connection) option" where
  "limit_reached srv con = do {
     let con = con\<lparr>traffic_limit_reached := True\<rparr>;
     (_, srv) \<leftarrow> joblist_append srv con;
     Some (srv, con) }"

text \<open>The global counter is the one of the context the options of the connection point to.\<close>

definition global_count :: "server \<Rightarrow> connection \<Rightarrow> int" where
  "global_count srv con = global_bytes_per_second_cnt srv (global_bytes_per_second_cnt_ptr (conf con))"

definition set_global_count :: "int \<Rightarrow> connection \<Rightarrow> server \<Rightarrow> server" where
  "set_global_count n con srv =
     srv\<lparr>global_bytes_per_second_cnt := (global_bytes_per_second_cnt srv)(global_bytes_per_second_cnt_ptr (conf con) := n)\<rparr>"

definition count_written :: "int \<Rightarrow> server \<Rightarrow> connection \<Rightarrow> server \<times> connection" where
  "count_written n srv con =
     (set_global_count (global_count srv con + n) con srv,
      con\<lparr>bytes_written := bytes_written con + n, bytes_written_cur_second := bytes_written_cur_second con + n\<rparr>)"

definition network_write_chunkqueue ::
    "backend \<Rightarrow> net_io \<Rightarrow> wire \<Rightarrow> server \<Rightarrow> connection \<Rightarrow> chunkqueue \<Rightarrow> (int \<times> wire \<times> server \<times> connection \<times> chunkqueue) option" where
  "network_write_chunkqueue backend io w srv con cq =
     (if global_kbytes_per_second (conf con) \<noteq> 0 \<and>
         global_count srv con > int (global_kbytes_per_second (conf con)) * 1024
      then do { (srv, con) \<leftarrow> limit_reached srv con; Some (1, w, srv, con, cq) }
      else do {
        let written = bytes_out cq;
        s \<leftarrow> srv_socket con;
        guard (s < length (srv_sockets srv));
        (ret, w, cq) \<leftarrow> (if sock_is_ssl (srv_sockets srv ! s) then Some (-1, w, cq) else backend io w cq);
        (ret, cq) \<leftarrow> (if ret \<ge> 0 then do {
            (_, cq) \<leftarrow> chunkqueue_remove_finished_chunks cq;
            Some (if chunkqueue_is_empty cq then 0 else 1, cq) }
          else Some (ret, cq));
        let (srv, con) = count_written (bytes_out cq - written) srv con;
        (srv, con) \<leftarrow> (if kbytes_per_second (conf con) \<noteq> 0 \<and>
            bytes_written_cur_second con > int (kbytes_per_second (conf con)) * 1024
          then limit_reached srv con else Some (srv, con));
        Some (ret, w, srv, con, cq) })"

section \<open>What is sent\<close>

lemma is_empty_iff: "cq_rep cq cs \<Longrightarrow> chunkqueue_is_empty cq \<longleftrightarrow> cs = []"
proof -
  assume "cq_rep cq cs"
  then obtain as us where "shape cq as us" "cs = items cq as" by (auto simp: cq_rep_def)
  then show ?thesis by (cases as) (auto simp: chunkqueue_is_empty_def shape_def items_def)
qed

lemma queued_finished:
  assumes "queued io cq s"
  shows "valid (chunkqueue_remove_finished_chunks cq) (\<lambda>(gone, cq'). queued io cq' s \<and> bytes_out cq' = bytes_out cq \<and>
     (chunkqueue_is_empty cq' \<longrightarrow> s = []))"
proof -
  obtain cs where cs: "cq_rep cq cs" "list_all (sendable io) cs" "pending (content io) cs = s" "length s \<le> SSIZE_MAX"
    using assms by (auto simp: queued_def)
  have all: "list_all (sendable io) (dropWhile is_finished cs)"
    using cs(2) by (auto simp: list_all_iff dest: set_dropWhileD)
  obtain gone cq' where q: "chunkqueue_remove_finished_chunks cq = Some (gone, cq')" "cq_rep cq' (dropWhile is_finished cs)"
    "bytes_out cq' = bytes_out cq" using remove_finished_ok[OF cs(1)] by blast
  have p: "pending (content io) (dropWhile is_finished cs) = s" using pending_finished cs(3) by simp
  with q all cs(4) have "queued io cq' s" by (auto simp: queued_def)
  moreover have "chunkqueue_is_empty cq' \<Longrightarrow> s = []"
  proof -
    assume "chunkqueue_is_empty cq'"
    then have "dropWhile is_finished cs = []" using is_empty_iff[OF q(2)] by blast
    with p have "pending (content io) [] = s" by metis
    then show "s = []" by (simp add: pending_def)
  qed
  ultimately show ?thesis using q by simp
qed

text \<open>The job list can be appended to.\<close>

definition joblist_ok :: "server \<Rightarrow> bool" where
  "joblist_ok srv \<longleftrightarrow> (\<exists>xs. list_rep (joblist srv) xs)"

lemma joblist_append_ok:
  assumes "joblist_ok srv"
  shows "\<exists>l. joblist_append srv con = Some (0, srv\<lparr>joblist := l\<rparr>) \<and> joblist_ok (srv\<lparr>joblist := l\<rparr>)"
proof (cases "in_joblist con")
  case True
  with assms show ?thesis by (auto simp: joblist_append_def joblist_ok_def intro!: exI[of _ "joblist srv"])
next
  case False
  obtain xs where "list_rep (joblist srv) xs" using assms by (auto simp: joblist_ok_def)
  from list_append_ok[OF this, of "address con"] False show ?thesis by (auto simp: joblist_append_def joblist_ok_def valid_def)
qed

lemma limit_reached_ok:
  assumes "joblist_ok srv"
  shows "\<exists>l. limit_reached srv con = Some (srv\<lparr>joblist := l\<rparr>, con\<lparr>traffic_limit_reached := True\<rparr>) \<and> joblist_ok (srv\<lparr>joblist := l\<rparr>)"
  using joblist_append_ok[OF assms, of "con\<lparr>traffic_limit_reached := True\<rparr>"] by (auto simp: limit_reached_def)

text \<open>
  The outcome of one write: some first part of the queued bytes went out in order, the rest is still
  queued, and the counters have grown by that part.  Result \<open>0\<close> means that all is sent.
\<close>

definition written_ok :: "net_io \<Rightarrow> wire \<Rightarrow> server \<Rightarrow> connection \<Rightarrow> char list \<Rightarrow> int \<times> wire \<times> server \<times> connection \<times> chunkqueue \<Rightarrow> bool" where
  "written_ok io w srv con s = (\<lambda>(r, w', srv', con', cq'). \<exists>t u l b. s = t @ u \<and> sent w' = sent w @ t \<and> queued io cq' u \<and>
     r \<in> {-2, -1, 0, 1} \<and> (r = 0 \<longrightarrow> u = [] \<and> chunkqueue_is_empty cq') \<and>
     srv' = (set_global_count (global_count srv con + int (length t)) con srv)\<lparr>joblist := l\<rparr> \<and> joblist_ok srv' \<and>
     con' = con\<lparr>bytes_written := bytes_written con + int (length t),
        bytes_written_cur_second := bytes_written_cur_second con + int (length t), traffic_limit_reached := b\<rparr> \<and>
     (traffic_limit_reached con \<longrightarrow> b))"

context network_backend
begin

lemma network_write_ok:
  assumes "io_ok io" and "queued io cq s" and "joblist_ok srv" and "srv_socket con = Some i" and "i < length (srv_sockets srv)"
  shows "valid (network_write_chunkqueue backend io w srv con cq) (written_ok io w srv con s)"
proof (cases "global_kbytes_per_second (conf con) \<noteq> 0 \<and> global_count srv con > int (global_kbytes_per_second (conf con)) * 1024")
  case True
  obtain l where "limit_reached srv con = Some (srv\<lparr>joblist := l\<rparr>, con\<lparr>traffic_limit_reached := True\<rparr>)" "joblist_ok (srv\<lparr>joblist := l\<rparr>)"
    using limit_reached_ok[OF assms(3)] by blast
  with True assms(2) show ?thesis
    by (auto simp: network_write_chunkqueue_def written_ok_def global_count_def set_global_count_def intro!: exI[of _ "[]"] exI[of _ l] exI[of _ True])
next
  case False
  obtain r w1 q1 where 1: "(if sock_is_ssl (srv_sockets srv ! i) then Some (-1, w, cq) else backend io w cq) = Some (r, w1, q1)"
    "-2 \<le> r" "sends io w cq s w1 q1"
  proof (cases "sock_is_ssl (srv_sockets srv ! i)")
    case True
    have "sends io w cq s w cq" using assms(2) by (auto simp: sends_def intro!: exI[of _ "[]"])
    with True that show ?thesis by simp
  next
    case False
    with that backend[OF assms(1,2), of w] show ?thesis by (auto simp: valid_def)
  qed
  obtain t u where 2: "s = t @ u" "sent w1 = sent w @ t" "queued io q1 u" "bytes_out q1 = bytes_out cq + int (length t)"
    using 1(3) by (auto simp: sends_def)
  obtain r' q2 where 3: "(if r \<ge> 0 then do {
            (_, cq) \<leftarrow> chunkqueue_remove_finished_chunks q1;
            Some (if chunkqueue_is_empty cq then 0 else 1, cq) }
          else Some (r, q1)) = Some (r', q2)" "queued io q2 u" "bytes_out q2 = bytes_out q1" "r' \<in> {-2, -1, 0, 1}"
    "r' = 0 \<longrightarrow> u = [] \<and> chunkqueue_is_empty q2"
  proof (cases "0 \<le> r")
    case True
    with that queued_finished[OF 2(3)] show ?thesis by (auto simp: valid_def)
  next
    case False
    with 1(2) have "r = -2 \<or> r = -1" by linarith
    with that[of r q1] 2(3) False show ?thesis by auto
  qed
  let ?n = "int (length t)"
  let ?srv = "set_global_count (global_count srv con + ?n) con srv"
  let ?con = "con\<lparr>bytes_written := bytes_written con + ?n, bytes_written_cur_second := bytes_written_cur_second con + ?n\<rparr>"
  have cw: "count_written (bytes_out q2 - bytes_out cq) srv con = (?srv, ?con)"
    using 2(4) 3(3) by (simp add: count_written_def)
  have j: "joblist_ok ?srv" using assms(3) by (simp add: joblist_ok_def set_global_count_def)
  obtain l b where 4: "(if kbytes_per_second (conf ?con) \<noteq> 0 \<and>
            bytes_written_cur_second ?con > int (kbytes_per_second (conf ?con)) * 1024
          then limit_reached ?srv ?con else Some (?srv, ?con)) = Some (?srv\<lparr>joblist := l\<rparr>, ?con\<lparr>traffic_limit_reached := b\<rparr>)"
    "joblist_ok (?srv\<lparr>joblist := l\<rparr>)" "traffic_limit_reached con \<longrightarrow> b"
  proof (cases "kbytes_per_second (conf ?con) \<noteq> 0 \<and> bytes_written_cur_second ?con > int (kbytes_per_second (conf ?con)) * 1024")
    case True
    obtain l where "limit_reached ?srv ?con = Some (?srv\<lparr>joblist := l\<rparr>, ?con\<lparr>traffic_limit_reached := True\<rparr>)" "joblist_ok (?srv\<lparr>joblist := l\<rparr>)"
      using limit_reached_ok[OF j] by blast
    with True that[of l True] show ?thesis by simp
  next
    case False
    have "?srv = ?srv\<lparr>joblist := joblist srv\<rparr>" "?con = ?con\<lparr>traffic_limit_reached := traffic_limit_reached con\<rparr>"
      by (simp_all add: set_global_count_def)
    with False j that[of "joblist srv" "traffic_limit_reached con"] show ?thesis by auto
  qed
  have "network_write_chunkqueue backend io w srv con cq =
      Some (r', w1, ?srv\<lparr>joblist := l\<rparr>, ?con\<lparr>traffic_limit_reached := b\<rparr>, q2)"
    unfolding network_write_chunkqueue_def if_not_P[OF False] using assms(4,5) 1(1) 3(1) cw 4(1) by (simp add: Let_def)
  moreover have "written_ok io w srv con s (r', w1, ?srv\<lparr>joblist := l\<rparr>, ?con\<lparr>traffic_limit_reached := b\<rparr>, q2)"
    unfolding written_ok_def prod.case
    by (intro exI[of _ t] exI[of _ u] exI[of _ l] exI[of _ b] conjI) (use 2 3 4 in simp_all)
  ultimately show ?thesis by simp
qed

end

text \<open>
  C17: whatever the socket accepts at each call, writing a queue with either backend (\<open>write\<close> or
  \<open>sendfile\<close>) loses, repeats and reorders no byte: the bytes sent are a first part of those queued,
  the rest stays queued, the byte counters of connection and server grow by the part sent, and
  result 0 means that everything is sent.
\<close>

theorem network_write_keeps_stream:
  assumes "io_ok io" and "queued io cq s" and "joblist_ok srv" and "srv_socket con = Some i" and "i < length (srv_sockets srv)"
    and "backend = network_write_chunkqueue_write \<or> backend = network_write_chunkqueue_linuxsendfile"
  shows "valid (network_write_chunkqueue backend io w srv con cq) (written_ok io w srv con s)"
  using assms(6) plain_write.network_write_ok[OF assms(1-5)] linux_sendfile.network_write_ok[OF assms(1-5)] by blast

text \<open>A socket that takes three bytes per call, and a queue with two chunks.\<close>

definition slow_io :: net_io where
  "slow_io = \<lparr>socket = (\<lambda>i b. Wrote (min 3 (length b))), stat_size = (\<lambda>_. None), open_file = (\<lambda>_. -1), mmap_file = (\<lambda>_. False),
     content = (\<lambda>_. [])\<rparr>"

lemma queued_mem:
  assumes "queued io cq s" and "length s + length t \<le> SSIZE_MAX"
  shows "valid (chunkqueue_append_mem cq t (length t + 1)) (\<lambda>(r, cq'). queued io cq' (s @ t))"
proof -
  obtain cs where cs: "cq_rep cq cs" "list_all (sendable io) cs" "pending (content io) cs = s"
    using assms(1) by (auto simp: queued_def)
  let ?f = "\<lambda>c. c\<lparr>ctype := MEM_CHUNK, c_offset := 0, c_mem := terminated t\<rparr>"
  obtain a cq' c where a: "add_last ?f cq = Some (a, cq')" "cq_rep cq' (cs @ [bare (?f c)])"
    using add_last_ok[of cq cs ?f, OF cs(1)] by (auto simp: valid_def)
  have "chunk_bytes (content io) (?f c) = t" "sendable io (?f c)"
    by (simp_all add: chunk_bytes_def sendable_def terminated_def)
  with a(2) cs(2,3) assms(2) have "queued io cq' (s @ t)" by (auto simp: queued_def pending_def intro!: exI[of _ "cs @ [bare (?f c)]"])
  with a(1) show ?thesis by (simp add: chunkqueue_append_mem_def)
qed

lemma queued_init: "queued io chunkqueue_init []"
  using init_rep by (auto simp: queued_def pending_def)

theorem network_write_keeps_stream_witness:
  "\<exists>cq. queued slow_io cq ''helloyou'' \<and>
     valid (network_write_chunkqueue network_write_chunkqueue_linuxsendfile slow_io \<lparr>calls = 0, sent = []\<rparr> sample_server
        ((connection_init sample_server)\<lparr>srv_socket := Some 0\<rparr>) cq)
       (written_ok slow_io \<lparr>calls = 0, sent = []\<rparr> sample_server ((connection_init sample_server)\<lparr>srv_socket := Some 0\<rparr>) ''helloyou'')"
proof -
  have big: "8 \<le> SSIZE_MAX" by (simp add: SSIZE_MAX_def)
  obtain r q1 where 1: "chunkqueue_append_mem chunkqueue_init ''hello'' (length ''hello'' + 1) = Some (r, q1)" "queued slow_io q1 ''hello''"
    using queued_mem[OF queued_init[of slow_io], of "''hello''"] big by (auto simp: valid_def)
  obtain r' q2 where 2: "chunkqueue_append_mem q1 ''you'' (length ''you'' + 1) = Some (r', q2)" "queued slow_io q2 ''helloyou''"
    using queued_mem[OF 1(2), of "''you''"] big by (auto simp: valid_def)
  have "io_ok slow_io" by (simp add: io_ok_def slow_io_def)
  moreover have "joblist_ok sample_server" using no_connections_rep by (auto simp: joblist_ok_def sample_server_def)
  moreover have "0 < length (srv_sockets sample_server)" by (simp add: sample_server_def)
  ultimately show ?thesis
    using network_write_keeps_stream[of slow_io q2 "''helloyou''" sample_server "(connection_init sample_server)\<lparr>srv_socket := Some 0\<rparr>" 0
      network_write_chunkqueue_linuxsendfile] 2(2) by auto
qed

end
