(* ===== verification/ReadState.thy ===== *)
theory ReadState
  imports Network
begin

text \<open>
  Reading a request: \<open>connection_handle_read\<close> and \<open>connection_handle_read_state\<close> of
  \<open>connections.c\<close>.  What the socket has is a parameter, and so are the system calls on the temporary
  files of large uploads, whose contents are kept in \<open>disk\<close>.
\<close>

section \<open>Reading from the socket\<close>

datatype sys_read = Got "char list" | Not_Read errno_t

text \<open>
  One visit of the socket: the answer of \<open>FIONREAD\<close> (\<open>None\<close> if the call fails), the room of the
  buffer that is read into, which is at least that much but may be more when a larger buffer is
  recycled, and the result of \<open>read\<close>.
\<close>

record read_in =
  in_pending :: "int option"
  in_room :: nat
  in_read :: sys_read

text \<open>The server is built without OpenSSL.\<close>

definition connection_handle_read_ssl :: "connection \<Rightarrow> (int \<times> connection) option" where
  "connection_handle_read_ssl con = Some (-1, con)"

definition connection_handle_read :: "read_in \<Rightarrow> connection \<Rightarrow> (int \<times> connection) option" where
  "connection_handle_read inp con =
     (if is_ssl (conf con) then connection_handle_read_ssl con
      else if in_pending inp = None then Some (-1, con)
      else do {
        (a, cq) \<leftarrow> chunkqueue_get_append_buffer (read_queue con);
        let con = con\<lparr>read_queue := cq\<rparr>;
        case in_read inp of
          Not_Read e \<Rightarrow>
            Some (if e = EAGAIN then (0, con\<lparr>is_readable := False\<rparr>)
                  else if e = EINTR then (0, con\<lparr>is_readable := True\<rparr>)
                  else (-1, con\<lparr>is_readable := False, state := CON_STATE_ERROR\<rparr>))
        | Got bytes \<Rightarrow>
            if bytes = [] then Some (-2, con\<lparr>is_readable := False\<rparr>)
            else do {
              guard (length bytes \<le> in_room inp);
              let con = (if length bytes < in_room inp then con\<lparr>is_readable := False\<rparr> else con);
              cq \<leftarrow> put_mem cq a (terminated bytes);
              Some (0, con\<lparr>read_queue := cq, bytes_read := bytes_read con + int (length bytes)\<rparr>) } })"

section \<open>Walking over the chunks\<close>

text \<open>The addresses met by \<open>for (c = cq->first; c; c = c->next)\<close>.\<close>

fun walk :: "nat \<Rightarrow> chunkqueue \<Rightarrow> nat option \<Rightarrow> nat list option" where
  "walk fuel cq None = Some []"
| "walk 0 cq (Some a) = None"
| "walk (Suc fuel) cq (Some a) = do { c \<leftarrow> get_chunk cq a; as \<leftarrow> walk fuel cq (c_next c); Some (a # as) }"

definition chunks_of :: "chunkqueue \<Rightarrow> nat list option" where
  "chunks_of cq = walk (length (cells cq)) cq (cq_first cq)"

text \<open>An empty chunk is moved to the unused ones.\<close>

definition to_unused :: "chunkqueue \<Rightarrow> nat \<Rightarrow> chunk \<Rightarrow> chunkqueue" where
  "to_unused cq a c = (set_chunk cq a (c\<lparr>c_next := cq_unused cq\<rparr>))\<lparr>cq_unused := Some a, unused_chunks := unused_chunks cq + 1\<rparr>"

fun drop_empty :: "nat \<Rightarrow> chunkqueue \<Rightarrow> nat option \<Rightarrow> chunkqueue option" where
  "drop_empty fuel cq None = Some cq"
| "drop_empty 0 cq (Some a) = None"
| "drop_empty (Suc fuel) cq (Some a) = do {
     c \<leftarrow> get_chunk cq a;
     if cq_first cq = Some a \<and> c_mem c = [] then
       let cq = cq\<lparr>cq_first := c_next c\<rparr>;
           cq = (if cq_first cq = None then cq\<lparr>cq_last := None\<rparr> else cq);
           cq = to_unused cq a c
       in drop_empty fuel cq (cq_first cq)
     else case c_next c of
       None \<Rightarrow> drop_empty fuel cq None
     | Some f \<Rightarrow> do {
         fc \<leftarrow> get_chunk cq f;
         if c_mem fc = [] then
           let cq = to_unused (set_chunk cq a (c\<lparr>c_next := c_next fc\<rparr>)) f fc;
               cq = (if c_next fc = None then cq\<lparr>cq_last := Some a\<rparr> else cq)
           in drop_empty fuel cq (c_next fc)
         else drop_empty fuel cq (Some f) } }"

section \<open>The end of the header\<close>

definition header_end :: "char list" where
  "header_end = [CR, LF, CR, LF]"

text \<open>The bytes of a chunk from its offset on, the terminator included.\<close>

definition unread :: "chunk \<Rightarrow> char list option" where
  "unread c = do {
     guard (0 \<le> c_offset c \<and> c_offset c \<le> int (length (c_mem c)));
     Some (drop (nat (c_offset c)) (c_mem c)) }"

text \<open>
  The scan of a chunk from byte \<open>i\<close> on: the end of the header is found in it, up to an offset, or in
  it and the next chunk (\<open>ahead\<close>, if that is in memory), or not at all.
\<close>

datatype header_place = Here nat | Ahead nat | Nowhere

fun scan_chunk :: "char list \<Rightarrow> nat \<Rightarrow> char list option \<Rightarrow> header_place" where
  "scan_chunk [] i ahead = Nowhere"
| "scan_chunk (ch # s) i ahead =
     (let have_chars = length s; missing = 4 - have_chars in
      if ch = CR \<and> have_chars \<ge> 4 \<and> take 4 (ch # s) = header_end then Here (i + 4)
      else if ch = CR \<and> have_chars < 4 \<and> (case ahead of None \<Rightarrow> False | Some mem \<Rightarrow>
             length mem > missing \<and> take have_chars (ch # s) = take have_chars header_end \<and> take missing mem = drop have_chars header_end)
        then Ahead missing
      else scan_chunk s (i + 1) ahead)"

definition lookahead :: "chunkqueue \<Rightarrow> nat list \<Rightarrow> char list option option" where
  "lookahead cq as = (case as of
       [] \<Rightarrow> Some None
     | b # _ \<Rightarrow> do { c \<leftarrow> get_chunk cq b; Some (if ctype c = MEM_CHUNK then Some (c_mem c) else None) })"

fun find_header :: "chunkqueue \<Rightarrow> nat list \<Rightarrow> (nat \<times> nat) option option" where
  "find_header cq [] = Some None"
| "find_header cq (a # as) = do {
     c \<leftarrow> get_chunk cq a;
     b \<leftarrow> unread c;
     ahead \<leftarrow> lookahead cq as;
     case scan_chunk b 0 ahead of
       Here n \<Rightarrow> Some (Some (a, n))
     | Ahead n \<Rightarrow> Some (Some (hd as, n))
     | Nowhere \<Rightarrow> find_header cq as }"

fun copy_header :: "chunkqueue \<Rightarrow> nat list \<Rightarrow> nat \<Rightarrow> nat \<Rightarrow> char list \<Rightarrow> (char list \<times> chunkqueue) option" where
  "copy_header cq [] last_chunk last_offset r = Some (r, cq)"
| "copy_header cq (a # as) last_chunk last_offset r = do {
     c \<leftarrow> get_chunk cq a;
     b \<leftarrow> unread c;
     if a = last_chunk then do {
       guard (last_offset < length b);
       Some (append_bytes r (take (last_offset + 1) b), set_chunk cq a (c\<lparr>c_offset := c_offset c + int last_offset\<rparr>)) }
     else copy_header (set_chunk cq a (c\<lparr>c_offset := int (length (c_mem c)) - 1\<rparr>)) as last_chunk last_offset (append_bytes r b) }"

definition read_header_state :: "connection \<Rightarrow> connection option" where
  "read_header_state con = do {
     as \<leftarrow> chunks_of (read_queue con);
     found \<leftarrow> find_header (read_queue con) as;
     case found of
       Some (a, n) \<Rightarrow> do {
         (r, cq) \<leftarrow> copy_header (read_queue con) as a n [];
         Some ((upd_req (\<lambda>q. q\<lparr>request := r\<rparr>) con)\<lparr>read_queue := cq, state := CON_STATE_REQUEST_END\<rparr>) }
     | None \<Rightarrow> do {
         len \<leftarrow> chunkqueue_length (read_queue con);
         Some (if len > 64 * 1024 then con\<lparr>http_status := 414, keep_alive := 0, state := CON_STATE_HANDLE_REQUEST\<rparr> else con) } }"

section \<open>The body of a request\<close>

text \<open>
  \<open>mkstemp_call\<close>, \<open>reopen\<close> and \<open>write_call\<close> are the results of the system calls; calls that may
  be made repeatedly are numbered.
\<close>

record upload_io =
  mkstemp_call :: "nat \<Rightarrow> char list \<Rightarrow> int \<times> char list"
  reopen :: "char list \<Rightarrow> int"
  write_call :: "nat \<Rightarrow> int \<Rightarrow> int"

record uploads =
  up_calls :: nat
  disk :: "char list \<Rightarrow> char list"

definition UPLOAD_USING_TEMPFILE_THRESHOLD :: nat where "UPLOAD_USING_TEMPFILE_THRESHOLD = 1024 * 1024"
definition UPLOAD_TEMPFILE_MAXLENGTH :: int where "UPLOAD_TEMPFILE_MAXLENGTH = 16 * 1024 * 1024"

definition new_tempfile :: "upload_io \<Rightarrow> uploads \<Rightarrow> chunkqueue \<Rightarrow> (nat \<times> uploads \<times> chunkqueue) option" where
  "new_tempfile io up dst = do {
     (d, dst) \<leftarrow> chunkqueue_get_append_tempfile (\<lambda>i t. mkstemp_call io (up_calls up + i) t) dst;
     c \<leftarrow> get_chunk dst d;
     let tries = (case tempdirs dst of Some (e # es) \<Rightarrow> length es + 1 | _ \<Rightarrow> 1);
     let up = up\<lparr>up_calls := up_calls up + tries\<rparr>;
     Some (d, if f_fd c \<noteq> -1 then up\<lparr>disk := (disk up)(cstr (f_name c) := [])\<rparr> else up, dst) }"

text \<open>The last chunk, if it is an unread temporary file that is not too long, or a new one.\<close>

definition upload_chunk :: "upload_io \<Rightarrow> uploads \<Rightarrow> chunkqueue \<Rightarrow> (nat \<times> uploads \<times> chunkqueue) option" where
  "upload_chunk io up dst = (case cq_last dst of
       None \<Rightarrow> new_tempfile io up dst
     | Some d \<Rightarrow> do {
         c \<leftarrow> get_chunk dst d;
         if ctype c = FILE_CHUNK \<and> f_is_temp c \<and> c_offset c = 0 then
           if f_length c < UPLOAD_TEMPFILE_MAXLENGTH then
             Some (d, up, if f_fd c = -1 then set_chunk dst d (c\<lparr>f_fd := reopen io (cstr (f_name c))\<rparr>) else dst)
           else new_tempfile io up (set_chunk dst d (c\<lparr>f_fd := -1\<rparr>))
         else new_tempfile io up dst })"

text \<open>Bytes go to the temporary file; \<open>False\<close> says that it could not be opened or written.\<close>

definition upload_write :: "upload_io \<Rightarrow> uploads \<Rightarrow> int \<Rightarrow> chunkqueue \<Rightarrow> char list \<Rightarrow> (bool \<times> uploads \<times> chunkqueue) option" where
  "upload_write io up want dst bytes = do {
     (d, up, dst) \<leftarrow> upload_chunk io up dst;
     c \<leftarrow> get_chunk dst d;
     if f_fd c = -1 then Some (False, up, dst)
     else do {
       let n = write_call io (up_calls up) (int (length bytes));
       let name = cstr (f_name c);
       let up = up\<lparr>up_calls := up_calls up + 1, disk := (disk up)(name := disk up name @ take (nat n) bytes)\<rparr>;
       if n \<noteq> int (length bytes) then Some (False, up, set_chunk dst d (c\<lparr>f_fd := -1\<rparr>))
       else
         let c = c\<lparr>f_length := f_length c + int (length bytes)\<rparr>;
             c = (if int (length bytes) = want then c\<lparr>f_fd := -1\<rparr> else c)
         in Some (True, up, set_chunk dst d c) } }"

text \<open>
  One chunk of the read queue: as many bytes as are wanted and there.  The result says whether the
  upload goes on.
\<close>

definition as_wanted :: "int \<Rightarrow> int \<Rightarrow> int" where
  "as_wanted want there = (if there > want then want else there)"

definition post_chunk :: "upload_io \<Rightarrow> uploads \<Rightarrow> connection \<Rightarrow> nat \<Rightarrow> (bool \<times> uploads \<times> connection) option" where
  "post_chunk io up con a = do {
     let cq = read_queue con;
     let dst = request_content_queue con;
     c \<leftarrow> get_chunk cq a;
     let want = int (content_length (req con)) - bytes_in dst;
     guard (c_mem c \<noteq> []);
     let have = int (length (c_mem c)) - c_offset c - 1;
     let n = as_wanted want have;
     guard (0 \<le> n \<and> 0 \<le> c_offset c);
     let bytes = take (nat n) (drop (nat (c_offset c)) (c_mem c));
     (ok, up, dst) \<leftarrow>
       (if content_length (req con) > UPLOAD_USING_TEMPFILE_THRESHOLD then upload_write io up want dst bytes
        else do {
          (d, dst) \<leftarrow> chunkqueue_get_append_buffer dst;
          dst \<leftarrow> put_mem dst d (terminated bytes);
          Some (True, up, dst) });
     if ok then Some (True, up, con\<lparr>read_queue := set_chunk cq a (c\<lparr>c_offset := c_offset c + n\<rparr>),
         request_content_queue := dst\<lparr>bytes_in := bytes_in dst + n\<rparr>\<rparr>)
     else Some (False, up, con\<lparr>request_content_queue := dst, http_status := 413, keep_alive := 0, state := CON_STATE_HANDLE_REQUEST\<rparr>) }"

fun post_loop :: "upload_io \<Rightarrow> uploads \<Rightarrow> connection \<Rightarrow> nat list \<Rightarrow> (uploads \<times> connection) option" where
  "post_loop io up con [] = Some (up, con)"
| "post_loop io up con (a # as) =
     (if bytes_in (request_content_queue con) = int (content_length (req con)) then Some (up, con)
      else do {
        (go_on, up, con) \<leftarrow> post_chunk io up con a;
        if go_on then post_loop io up con as else Some (up, con) })"

definition read_post_state :: "upload_io \<Rightarrow> uploads \<Rightarrow> connection \<Rightarrow> (uploads \<times> connection) option" where
  "read_post_state io up con = do {
     as \<leftarrow> chunks_of (read_queue con);
     (up, con) \<leftarrow> post_loop io up con as;
     Some (up, if bytes_in (request_content_queue con) = int (content_length (req con))
       then con\<lparr>state := CON_STATE_HANDLE_REQUEST\<rparr> else con) }"

section \<open>The handler\<close>

definition connection_handle_read_state ::
    "upload_io \<Rightarrow> read_in \<Rightarrow> server \<Rightarrow> uploads \<Rightarrow> connection \<Rightarrow> (int \<times> uploads \<times> connection) option" where
  "connection_handle_read_state io inp srv up con = do {
     let ostate = state con;
     (r, con) \<leftarrow> (if is_readable con then connection_handle_read inp (con\<lparr>read_idle_ts := cur_ts srv\<rparr>) else Some (0, con));
     if r = -1 then Some (-1, up, con)
     else do {
       cq \<leftarrow> drop_empty (length (cells (read_queue con)) + 1) (read_queue con) (cq_first (read_queue con));
       let con = con\<lparr>read_queue := cq\<rparr>;
       (up, con) \<leftarrow> (case ostate of
           CON_STATE_READ \<Rightarrow> do { con \<leftarrow> read_header_state con; Some (up, con) }
         | CON_STATE_READ_POST \<Rightarrow> read_post_state io up con
         | _ \<Rightarrow> Some (up, con));
       let con = (if r = -2 \<and> ostate = state con then con\<lparr>state := CON_STATE_ERROR\<rparr> else con);
       (_, cq) \<leftarrow> chunkqueue_remove_finished_chunks (read_queue con);
       Some (0, up, con\<lparr>read_queue := cq\<rparr>) } }"

section \<open>Finding the end of the header\<close>

text \<open>The end of the header occurs at a position.\<close>

definition occurs :: "nat \<Rightarrow> char list \<Rightarrow> bool" where
  "occurs p s \<longleftrightarrow> take 4 (drop p s) = header_end"

definition first_at :: "nat \<Rightarrow> char list \<Rightarrow> bool" where
  "first_at p s \<longleftrightarrow> occurs p s \<and> (\<forall>q < p. \<not> occurs q s)"

lemma occurs_Suc [simp]: "occurs (Suc p) (c # s) \<longleftrightarrow> occurs p s"
  by (simp add: occurs_def)

lemma occurs_bound: "occurs p s \<Longrightarrow> p + 4 \<le> length s"
proof -
  assume "occurs p s"
  then have "length (take 4 (drop p s)) = 4" by (simp add: occurs_def header_end_def)
  then show ?thesis by simp
qed

lemma occurs_append: "occurs p s \<Longrightarrow> occurs p (s @ t)"
  using occurs_bound[of p s] by (simp add: occurs_def)

lemma occurs_append_iff: "p + 4 \<le> length s \<Longrightarrow> occurs p (s @ t) \<longleftrightarrow> occurs p s"
  by (simp add: occurs_def)

lemma occurs_near: "p < length s \<Longrightarrow> 3 \<le> length u \<or> v = [] \<Longrightarrow> occurs p (s @ u @ v) \<longleftrightarrow> occurs p (s @ u)"
  by (cases "v = []") (auto simp: occurs_def)

lemma occurs_drop: "occurs (length s + p) (s @ t) \<longleftrightarrow> occurs p t"
  by (simp add: occurs_def)

lemma first_at_Cons: "\<not> occurs 0 (c # s) \<Longrightarrow> first_at (Suc p) (c # s) \<longleftrightarrow> first_at p s"
  unfolding first_at_def by (metis Suc_less_eq gr0_implies_Suc gr_zeroI occurs_Suc)

text \<open>The four bytes at the start, in this chunk or in it and the next.\<close>

lemma occurs_here: "4 \<le> length s \<Longrightarrow> occurs 0 (s @ u) \<longleftrightarrow> take 4 s = header_end"
  by (simp add: occurs_def)

lemma occurs_ahead:
  assumes "length s < 4"
  shows "occurs 0 (s @ u) \<longleftrightarrow> 4 - length s \<le> length u \<and> s = take (length s) header_end \<and> take (4 - length s) u = drop (length s) header_end"
proof -
  have "occurs 0 (s @ u) \<longleftrightarrow> s @ take (4 - length s) u = take (length s) header_end @ drop (length s) header_end"
    using assms by (simp add: occurs_def)
  also have "\<dots> \<longleftrightarrow> s = take (length s) header_end \<and> take (4 - length s) u = drop (length s) header_end"
    using assms by (subst append_eq_append_conv) (auto simp: header_end_def)
  also have "\<dots> \<longleftrightarrow> 4 - length s \<le> length u \<and> s = take (length s) header_end \<and> take (4 - length s) u = drop (length s) header_end"
  proof -
    have "4 - length s \<le> length u" if "take (4 - length s) u = drop (length s) header_end"
      using arg_cong[OF that, of length] assms by (simp add: header_end_def min_def split: if_splits)
    then show ?thesis by blast
  qed
  finally show ?thesis .
qed

definition ahead_of :: "char list option \<Rightarrow> char list" where
  "ahead_of u = (case u of None \<Rightarrow> [] | Some s \<Rightarrow> s)"

lemma scan_chunk_ok:
  "case scan_chunk (terminated t) i (map_option terminated u) of
     Nowhere \<Rightarrow> \<forall>p < length t. \<not> occurs p (t @ ahead_of u)
   | Here n \<Rightarrow> \<exists>p. n = i + p + 4 \<and> p + 4 \<le> length t \<and> first_at p (t @ ahead_of u)
   | Ahead m \<Rightarrow> \<exists>p < length t. p + 4 = length t + m \<and> 0 < m \<and> m \<le> length (ahead_of u) \<and> first_at p (t @ ahead_of u)"
proof (induction t arbitrary: i)
  case Nil
  show ?case by (auto simp: terminated_def split: option.splits)
next
  case (Cons c t)
  let ?u = "ahead_of u"
  let ?t = "c # t"
  have tt: "terminated ?t = c # terminated t" and lt: "length (terminated t) = length ?t" by (simp_all add: terminated_def)
  have tk: "n \<le> length ?t \<Longrightarrow> take n (c # terminated t) = take n ?t" for n by (cases n) (simp_all add: terminated_def)
  have here: "c = CR \<and> length (terminated t) \<ge> 4 \<and> take 4 (c # terminated t) = header_end \<longleftrightarrow> 4 \<le> length ?t \<and> occurs 0 (?t @ ?u)"
  proof (cases "4 \<le> length ?t")
    case True
    with tk[of 4] lt occurs_here[OF True, of ?u] show ?thesis by (auto simp: header_end_def)
  qed (use lt in simp)
  have ahead: "c = CR \<and> length (terminated t) < 4 \<and> (case map_option terminated u of None \<Rightarrow> False | Some mem \<Rightarrow>
      length mem > 4 - length (terminated t) \<and> take (length (terminated t)) (c # terminated t) = take (length (terminated t)) header_end \<and>
      take (4 - length (terminated t)) mem = drop (length (terminated t)) header_end) \<longleftrightarrow> length ?t < 4 \<and> occurs 0 (?t @ ?u)"
  proof (cases "length ?t < 4")
    case True
    have m: "take (4 - length ?t) (terminated s) = take (4 - length ?t) s" if "4 - length ?t \<le> length s" for s :: "char list"
      using that by (simp add: terminated_def)
    have c: "?t = take (length ?t) header_end \<Longrightarrow> c = CR" by (auto simp: header_end_def)
    show ?thesis
    proof (cases u)
      case None
      with True occurs_ahead[OF True, of ?u] show ?thesis by (auto simp: ahead_of_def)
    next
      case (Some s)
      have "length (terminated s) > 4 - length ?t \<longleftrightarrow> 4 - length ?t \<le> length s" by (auto simp: terminated_def)
      with Some True occurs_ahead[OF True, of ?u] c m[of s] tk[of "length ?t"] show ?thesis
        unfolding lt by (auto simp: ahead_of_def)
    qed
  qed (use lt in simp)
  show ?case
  proof (cases "occurs 0 (?t @ ?u)")
    case True
    show ?thesis
    proof (cases "4 \<le> length ?t")
      case 4: True
      have "scan_chunk (terminated ?t) i (map_option terminated u) = Here (i + 4)"
        unfolding tt scan_chunk.simps Let_def if_P[OF iffD2[OF here conjI[OF 4 True]]] by (rule refl)
      moreover have "first_at 0 (?t @ ?u)" using True by (simp add: first_at_def)
      ultimately show ?thesis using 4 by (auto intro!: exI[of _ 0])
    next
      case False
      have "scan_chunk (terminated ?t) i (map_option terminated u) = Ahead (4 - length ?t)"
        unfolding tt scan_chunk.simps Let_def unfolding if_P[OF iffD2[OF ahead conjI[OF False[unfolded not_le] True]]] unfolding lt using False by (simp only: if_False simp_thms)
      moreover have "first_at 0 (?t @ ?u)" using True by (simp add: first_at_def)
      moreover have "4 - length ?t \<le> length ?u" using iffD1[OF occurs_ahead[OF False[unfolded not_le], of ?u] True] by blast
      ultimately show ?thesis using False by (intro exI[of _ 0] | simp)+
    qed
  next
    case False
    then have s: "scan_chunk (terminated ?t) i (map_option terminated u) = scan_chunk (terminated t) (i + 1) (map_option terminated u)"
      unfolding tt scan_chunk.simps Let_def using here ahead False by (simp only: if_False simp_thms)
    have F: "first_at (Suc p) (?t @ ?u) \<longleftrightarrow> first_at p (t @ ?u)" for p using first_at_Cons[of c "t @ ?u" p] False by simp
    show ?thesis
    proof (cases "scan_chunk (terminated t) (i + 1) (map_option terminated u)")
      case (Here n)
      with Cons.IH[of "i + 1"] obtain p where "n = i + 1 + p + 4" "p + 4 \<le> length t" "first_at p (t @ ?u)" by auto
      with F s Here show ?thesis by (auto intro!: exI[of _ "Suc p"])
    next
      case (Ahead m)
      with Cons.IH[of "i + 1"] obtain p where "p < length t" "p + 4 = length t + m" "0 < m" "m \<le> length ?u" "first_at p (t @ ?u)" by auto
      with F s Ahead show ?thesis by (auto intro!: exI[of _ "Suc p"])
    next
      case Nowhere
      with Cons.IH[of "i + 1"] have "\<forall>p < length t. \<not> occurs p (t @ ?u)" by simp
      with False have "\<forall>p < length ?t. \<not> occurs p (?t @ ?u)" by (metis One_nat_def Suc_less_eq append_Cons gr0_implies_Suc length_Cons neq0_conv occurs_Suc)
      with s Nowhere show ?thesis by simp
    qed
  qed
qed

section \<open>The read queue\<close>

text \<open>
  A chunk as the reader leaves it: in memory, terminated, and with something unread.  \<open>unread_text\<close>
  is what is unread of it.
\<close>

definition text_chunk :: "chunk \<Rightarrow> bool" where
  "text_chunk c \<longleftrightarrow> ctype c = MEM_CHUNK \<and>
     (\<exists>t. c_mem c = terminated t \<and> 0 \<le> c_offset c \<and> c_offset c < int (length t))"

definition unread_text :: "chunk \<Rightarrow> char list" where
  "unread_text c = drop (nat (c_offset c)) (butlast (c_mem c))"

lemma text_chunk_unread:
  assumes "text_chunk c"
  shows "unread c = Some (terminated (unread_text c))" "unread_text c \<noteq> []"
    "chunk_bytes fs c = unread_text c" "\<not> is_finished c" "c_mem c \<noteq> []"
  using assms
  by (auto simp: text_chunk_def unread_def unread_text_def terminated_def chunk_bytes_def is_finished_def)

lemma text_chunk_bare [simp]: "text_chunk (bare c) = text_chunk c" "unread_text (bare c) = unread_text c"
  by (simp_all add: text_chunk_def unread_text_def)

lemma walk_ok: "lseg (cells cq) p as \<Longrightarrow> length as \<le> fuel \<Longrightarrow> walk fuel cq p = Some as"
proof (induction as arbitrary: p fuel)
  case (Cons a as)
  then obtain fuel' where "fuel = Suc fuel'" by (cases fuel) auto
  with Cons show ?case by (auto simp: get_chunk_def)
qed simp

lemma chunks_of_ok: "shape cq as us \<Longrightarrow> chunks_of cq = Some as"
  using walk_ok[of cq "cq_first cq" as "length (cells cq)"] lseg_length[of "cells cq" "cq_first cq" as]
  by (simp add: chunks_of_def shape_def)

text \<open>The chunks at some addresses, all with unread text, and all but the first unread from their start.\<close>

definition texts :: "chunkqueue \<Rightarrow> nat list \<Rightarrow> char list list" where
  "texts cq as = map unread_text (items cq as)"

definition texts_ok :: "chunkqueue \<Rightarrow> nat list \<Rightarrow> bool" where
  "texts_ok cq as \<longleftrightarrow> (\<forall>a \<in> set as. \<exists>c. get_chunk cq a = Some c \<and> text_chunk c) \<and>
     (\<forall>c \<in> set (tl (items cq as)). c_offset c = 0)"

lemma texts_Cons: "texts_ok cq (a # as) \<Longrightarrow> \<exists>c. get_chunk cq a = Some c \<and> text_chunk c \<and>
    texts cq (a # as) = unread_text c # texts cq as \<and> texts_ok cq as \<and> (\<forall>b \<in> set as. \<exists>d. get_chunk cq b = Some d \<and> c_offset d = 0)"
proof -
  assume t: "texts_ok cq (a # as)"
  then obtain c where c: "get_chunk cq a = Some c" "text_chunk c" by (auto simp: texts_ok_def)
  have z: "\<forall>c \<in> set (items cq as). c_offset c = 0" using t by (simp add: texts_ok_def items_Cons)
  have "\<exists>d. get_chunk cq b = Some d \<and> c_offset d = 0" if b: "b \<in> set as" for b
  proof -
    obtain d where d: "get_chunk cq b = Some d" using t b unfolding texts_ok_def by (metis list.set_intros(2))
    then have "bare d \<in> set (items cq as)" using b by (force simp: items_def get_chunk_iff)
    with z have "c_offset (bare d) = 0" by blast
    with d show ?thesis by simp
  qed
  moreover have "texts_ok cq as" using t z by (cases "items cq as") (auto simp: texts_ok_def)
  moreover have "texts cq (a # as) = unread_text c # texts cq as" using c(1) by (simp add: texts_def items_Cons get_chunk_iff)
  ultimately show ?thesis using c by blast
qed

lemma lookahead_ok:
  assumes "texts_ok cq (a # as)"
  shows "\<exists>u. lookahead cq as = Some (map_option terminated u) \<and> u = (case texts cq as of [] \<Rightarrow> None | t # _ \<Rightarrow> Some t)"
proof (cases as)
  case Nil
  then show ?thesis by (simp add: lookahead_def texts_def)
next
  case (Cons b bs)
  obtain c where c: "get_chunk cq b = Some c" "text_chunk c" "texts cq (b # bs) = unread_text c # texts cq bs"
    using texts_Cons[OF assms] texts_Cons[of cq b bs] Cons by blast
  have "c_offset c = 0" using texts_Cons[OF assms] Cons c(1) by auto
  with c(2) have "ctype c = MEM_CHUNK" "c_mem c = terminated (unread_text c)" by (auto simp: text_chunk_def unread_text_def terminated_def)
  with c Cons show ?thesis by (simp add: lookahead_def)
qed

text \<open>
  The place found is an end of the header in the whole text; if only the first chunk may be shorter
  than three bytes it is the first one, and none is missed.
\<close>

definition long_texts :: "char list list \<Rightarrow> bool" where
  "long_texts ts \<longleftrightarrow> list_all (\<lambda>t. 3 \<le> length t) (tl ts)"

lemma find_header_ok:
  assumes "texts_ok cq as"
  shows "\<exists>r. find_header cq as = Some r \<and> (case r of
       None \<Rightarrow> long_texts (texts cq as) \<longrightarrow> (\<forall>p. \<not> occurs p (concat (texts cq as)))
     | Some (a, n) \<Rightarrow> \<exists>xs ys p. as = xs @ a # ys \<and> n \<le> length (unread_text (the (cells cq ! a))) \<and>
         p + 4 = length (concat (texts cq xs)) + n \<and> occurs p (concat (texts cq as)) \<and>
         (long_texts (texts cq as) \<longrightarrow> (\<forall>q < p. \<not> occurs q (concat (texts cq as)))))"
  using assms
proof (induction as)
  case Nil
  then show ?case by (simp add: texts_def occurs_def header_end_def)
next
  case (Cons a as)
  obtain c where c: "get_chunk cq a = Some c" "text_chunk c" "texts cq (a # as) = unread_text c # texts cq as" "texts_ok cq as"
    using texts_Cons[OF Cons.prems] by blast
  define t where "t = unread_text c"
  define u where "u = (case texts cq as of [] \<Rightarrow> None | t # _ \<Rightarrow> Some t)"
  define v where "v = concat (tl (texts cq as))"
  have whole: "concat (texts cq (a # as)) = t @ ahead_of u @ v"
    using c(3) by (cases "texts cq as") (simp_all add: t_def u_def v_def ahead_of_def)
  have rest: "concat (texts cq as) = ahead_of u @ v" using whole c(3) by (simp add: t_def)
  have l: "lookahead cq as = Some (map_option terminated u)" using lookahead_ok[OF Cons.prems] by (simp add: u_def)
  have run: "find_header cq (a # as) = (case scan_chunk (terminated t) 0 (map_option terminated u) of
       Here n \<Rightarrow> Some (Some (a, n)) | Ahead n \<Rightarrow> Some (Some (hd as, n)) | Nowhere \<Rightarrow> find_header cq as)"
    using c(1) text_chunk_unread(1)[OF c(2)] l by (simp add: t_def)
  have near: "occurs p (t @ ahead_of u @ v) \<longleftrightarrow> occurs p (t @ ahead_of u)" if "long_texts (texts cq (a # as))" "p < length t" for p
  proof -
    have "3 \<le> length (ahead_of u) \<or> v = []"
      using that(1) c(3) by (cases "texts cq as") (auto simp: long_texts_def u_def v_def ahead_of_def)
    then show ?thesis by (rule occurs_near[OF that(2)])
  qed
  have cell: "the (cells cq ! a) = c" using c(1) by (simp add: get_chunk_iff)
  note scan = scan_chunk_ok[where t = t and i = 0 and u = u]
  show ?case
  proof (cases "scan_chunk (terminated t) 0 (map_option terminated u)")
    case (Here n)
    with scan obtain p where p: "n = p + 4" "n \<le> length t" "first_at p (t @ ahead_of u)" by auto
    have "occurs p (concat (texts cq (a # as)))" using occurs_append[of p "t @ ahead_of u" v] p(3) by (simp add: whole first_at_def)
    moreover have "\<not> occurs q (concat (texts cq (a # as)))" if "long_texts (texts cq (a # as))" "q < p" for q
      using near[OF that(1), of q] that(2) p by (simp add: whole first_at_def)
    ultimately have "\<exists>xs ys p. a # as = xs @ a # ys \<and> n \<le> length (unread_text (the (cells cq ! a))) \<and>
         p + 4 = length (concat (texts cq xs)) + n \<and> occurs p (concat (texts cq (a # as))) \<and>
         (long_texts (texts cq (a # as)) \<longrightarrow> (\<forall>q < p. \<not> occurs q (concat (texts cq (a # as)))))"
      using p(1,2) by (intro exI[of _ "[]"] exI[of _ as] exI[of _ p]) (simp add: cell t_def texts_def)
    then show ?thesis using run Here by simp
  next
    case (Ahead m)
    with scan obtain p where p: "p < length t" "p + 4 = length t + m" "0 < m" "m \<le> length (ahead_of u)" "first_at p (t @ ahead_of u)" by auto
    then obtain b bs where b: "as = b # bs" by (cases as) (auto simp: u_def ahead_of_def texts_def)
    obtain d where d: "get_chunk cq b = Some d" "texts cq (b # bs) = unread_text d # texts cq bs"
      using texts_Cons[of cq b bs] c(4) b by blast
    have "occurs p (concat (texts cq (a # as)))" using occurs_append[of p "t @ ahead_of u" v] p(5) by (simp add: whole first_at_def)
    moreover have "\<not> occurs q (concat (texts cq (a # as)))" if "long_texts (texts cq (a # as))" "q < p" for q
      using near[OF that(1), of q] that(2) p by (simp add: whole first_at_def)
    moreover have "m \<le> length (unread_text (the (cells cq ! b)))"
      using p(4) d b by (simp add: u_def ahead_of_def get_chunk_iff)
    moreover have "texts cq [a] = [t]" using c(1) by (simp add: texts_def items_Cons get_chunk_iff t_def)
    ultimately have "\<exists>xs ys p. a # as = xs @ b # ys \<and> m \<le> length (unread_text (the (cells cq ! b))) \<and>
         p + 4 = length (concat (texts cq xs)) + m \<and> occurs p (concat (texts cq (a # as))) \<and>
         (long_texts (texts cq (a # as)) \<longrightarrow> (\<forall>q < p. \<not> occurs q (concat (texts cq (a # as)))))"
      using p(1,2) b by (intro exI[of _ "[a]"] exI[of _ bs] exI[of _ p]) simp
    then show ?thesis using run Ahead b by simp
  next
    case Nowhere
    with scan have no: "\<forall>p < length t. \<not> occurs p (t @ ahead_of u)" by simp
    have long: "long_texts (texts cq as)" if "long_texts (texts cq (a # as))"
      using that c(3) by (cases "texts cq as") (auto simp: long_texts_def)
    have before: "\<not> occurs p (concat (texts cq (a # as)))" if "long_texts (texts cq (a # as))" "p < length t" for p
      using near[OF that] no that(2) by (simp add: whole)
    have shift: "occurs (length t + p) (concat (texts cq (a # as))) \<longleftrightarrow> occurs p (concat (texts cq as))" for p
      using occurs_drop[of t p] by (simp add: whole rest)
    obtain r where r: "find_header cq as = Some r" "case r of
       None \<Rightarrow> long_texts (texts cq as) \<longrightarrow> (\<forall>p. \<not> occurs p (concat (texts cq as)))
     | Some (a, n) \<Rightarrow> \<exists>xs ys p. as = xs @ a # ys \<and> n \<le> length (unread_text (the (cells cq ! a))) \<and>
         p + 4 = length (concat (texts cq xs)) + n \<and> occurs p (concat (texts cq as)) \<and>
         (long_texts (texts cq as) \<longrightarrow> (\<forall>q < p. \<not> occurs q (concat (texts cq as))))" using Cons.IH[OF c(4)] by blast
    have split: "p < length t \<or> (\<exists>q. p = length t + q)" for p by (metis le_Suc_ex not_le)
    show ?thesis
    proof (cases r)
      case None
      have none: "\<not> occurs p (concat (texts cq (a # as)))" if l: "long_texts (texts cq (a # as))" for p
      proof (cases "p < length t")
        case True
        then show ?thesis by (rule before[OF l])
      next
        case False
        with split obtain q where q: "p = length t + q" by blast
        have "\<not> occurs q (concat (texts cq as))" using r(2) long[OF l] unfolding None option.case by blast
        then show ?thesis unfolding q shift .
      qed
      with None run Nowhere r(1) show ?thesis by simp
    next
      case (Some x)
      obtain b n where x: "x = (b, n)" by (cases x)
      have "\<exists>xs ys p. as = xs @ b # ys \<and> n \<le> length (unread_text (the (cells cq ! b))) \<and>
         p + 4 = length (concat (texts cq xs)) + n \<and> occurs p (concat (texts cq as)) \<and>
         (long_texts (texts cq as) \<longrightarrow> (\<forall>q < p. \<not> occurs q (concat (texts cq as))))"
        using r(2) unfolding Some x option.case prod.case .
      then obtain xs ys p where p: "as = xs @ b # ys" "n \<le> length (unread_text (the (cells cq ! b)))"
        "p + 4 = length (concat (texts cq xs)) + n" "occurs p (concat (texts cq as))"
        "long_texts (texts cq as) \<longrightarrow> (\<forall>q < p. \<not> occurs q (concat (texts cq as)))" by blast
      have ta: "texts cq (a # xs) = t # texts cq xs" using c(1) by (simp add: texts_def items_Cons get_chunk_iff t_def)
      have "\<not> occurs q (concat (texts cq (a # as)))" if "long_texts (texts cq (a # as))" "q < length t + p" for q
      proof (cases "q < length t")
        case True
        then show ?thesis by (rule before[OF that(1)])
      next
        case False
        with split obtain q' where q': "q = length t + q'" by blast
        with that(2) have "q' < p" by simp
        with p(5) long[OF that(1)] have "\<not> occurs q' (concat (texts cq as))" by blast
        then show ?thesis unfolding q' shift .
      qed
      then have "\<exists>xs ys p. a # as = xs @ b # ys \<and> n \<le> length (unread_text (the (cells cq ! b))) \<and>
         p + 4 = length (concat (texts cq xs)) + n \<and> occurs p (concat (texts cq (a # as))) \<and>
         (long_texts (texts cq (a # as)) \<longrightarrow> (\<forall>q < p. \<not> occurs q (concat (texts cq (a # as)))))"
        using p(1-4) ta shift[of p] by (intro exI[of _ "a # xs"] exI[of _ ys] exI[of _ "length t + p"]) auto
      then show ?thesis using run Nowhere r(1) Some x by simp
    qed
  qed
qed

section \<open>Taking the header out of the queue\<close>

text \<open>Appending text to the bytes of a buffer; an empty buffer has no bytes at all.\<close>

definition with_text :: "char list \<Rightarrow> char list \<Rightarrow> char list" where
  "with_text r t = (if t = [] then r else terminated (butlast r @ t))"

lemma append_with_text: "append_bytes r (terminated t) = with_text r t"
  by (simp add: append_bytes_def with_text_def terminated_def appended_def)

lemma with_text_append: "with_text (with_text r t) u = with_text r (t @ u)"
  by (auto simp: with_text_def terminated_def butlast_append)

lemma copy_header_ok:
  assumes "texts_ok cq (xs @ a # ys)" and "distinct (xs @ a # ys)" and "get_chunk cq a = Some c" and "n \<le> length (unread_text c)"
    and "shape cq as us"
  shows "\<exists>cq'. copy_header cq (xs @ a # ys) a n r = Some (with_text r (concat (texts cq xs) @ take n (unread_text c)), cq') \<and>
     shape cq' as us \<and> (\<forall>b. b \<notin> set (xs @ [a]) \<longrightarrow> cells cq' ! b = cells cq ! b) \<and>
     list_all is_finished (items cq' xs) \<and> get_chunk cq' a = Some (c\<lparr>c_offset := c_offset c + int n\<rparr>) \<and>
     bytes_in cq' = bytes_in cq \<and> bytes_out cq' = bytes_out cq"
  using assms
proof (induction xs arbitrary: cq r)
  case Nil
  have t: "text_chunk c" using Nil.prems(1,3) by (auto simp: texts_ok_def)
  have "take (n + 1) (terminated (unread_text c)) = take n (unread_text c) @ [if n < length (unread_text c) then unread_text c ! n else NUL]"
    using Nil.prems(4) by (auto simp: terminated_def take_Suc_conv_app_nth)
  then have app: "append_bytes r (take (n + 1) (terminated (unread_text c))) = with_text r (take n (unread_text c))"
    using text_chunk_unread(2)[OF t] Nil.prems(4) by (auto simp: append_bytes_def with_text_def appended_def terminated_def)
  have "n < length (terminated (unread_text c))" using Nil.prems(4) by (simp add: terminated_def)
  moreover have "shape (set_chunk cq a (c\<lparr>c_offset := c_offset c + int n\<rparr>)) as us" by (rule shape_keep_next[OF Nil.prems(5,3)]) simp
  moreover have "get_chunk (set_chunk cq a (c\<lparr>c_offset := c_offset c + int n\<rparr>)) a = Some (c\<lparr>c_offset := c_offset c + int n\<rparr>)"
    using Nil.prems(3) by (simp add: get_chunk_iff set_chunk_def)
  moreover have "copy_header cq (a # ys) a n r =
      Some (with_text r (take n (unread_text c)), set_chunk cq a (c\<lparr>c_offset := c_offset c + int n\<rparr>))"
    using Nil.prems(3) text_chunk_unread(1)[OF t] app calculation(1) by simp
  ultimately show ?case
    by (intro exI[of _ "set_chunk cq a (c\<lparr>c_offset := c_offset c + int n\<rparr>)"]) (simp add: texts_def set_chunk_def)
next
  case (Cons x xs)
  obtain d where d: "get_chunk cq x = Some d" "text_chunk d" "texts cq (x # xs) = unread_text d # texts cq xs"
    using texts_Cons[of cq x "xs @ a # ys"] Cons.prems(1) by (auto simp: texts_def items_Cons get_chunk_iff)
  let ?d = "d\<lparr>c_offset := int (length (c_mem d)) - 1\<rparr>"
  let ?q = "set_chunk cq x ?d"
  have x: "x \<noteq> a" "x \<notin> set (xs @ a # ys)" using Cons.prems(2) by auto
  have same: "items ?q bs = items cq bs" if "x \<notin> set bs" for bs using that by simp
  have get: "get_chunk ?q b = get_chunk cq b" if "b \<noteq> x" for b using that by (simp add: get_chunk_def set_chunk_def)
  have q1: "texts_ok ?q (xs @ a # ys)"
    using texts_Cons[of cq x "xs @ a # ys"] Cons.prems(1) x(2) same[OF x(2)] get
    unfolding texts_ok_def by (metis append_Cons)
  have q2: "get_chunk ?q a = Some c" using get[of a] x(1) Cons.prems(3) by simp
  have q3: "shape ?q as us" by (rule shape_keep_next[OF Cons.prems(5) d(1)]) simp
  obtain cq' where r: "copy_header ?q (xs @ a # ys) a n (append_bytes r (terminated (unread_text d))) =
       Some (with_text (append_bytes r (terminated (unread_text d))) (concat (texts ?q xs) @ take n (unread_text c)), cq')"
     "shape cq' as us" "\<forall>b. b \<notin> set (xs @ [a]) \<longrightarrow> cells cq' ! b = cells ?q ! b"
     "list_all is_finished (items cq' xs)" "get_chunk cq' a = Some (c\<lparr>c_offset := c_offset c + int n\<rparr>)"
     "bytes_in cq' = bytes_in ?q" "bytes_out cq' = bytes_out ?q"
    using Cons.IH[OF q1 _ q2 Cons.prems(4) q3, of "append_bytes r (terminated (unread_text d))"] Cons.prems(2) by auto
  have "copy_header cq ((x # xs) @ a # ys) a n r = Some (with_text r (concat (texts cq (x # xs)) @ take n (unread_text c)), cq')"
    using d x(1) r(1) text_chunk_unread(1)[OF d(2)] same[of xs] x(2)
    by (simp add: append_with_text with_text_append texts_def items_Cons)
  moreover have "cells cq' ! x = Some ?d" using r(3) x d(1) by (simp add: get_chunk_iff set_chunk_def)
  then have "list_all is_finished (items cq' (x # xs))" using r(4) d(2) by (simp add: items_Cons is_finished_def text_chunk_def)
  moreover have "\<forall>b. b \<notin> set ((x # xs) @ [a]) \<longrightarrow> cells cq' ! b = cells cq ! b" using r(3) by (simp add: set_chunk_def)
  ultimately show ?case using r(2,5-7) by (simp add: set_chunk_def)
qed

text \<open>The queue holds these texts, one chunk each.\<close>

definition texts_fine :: "chunk list \<Rightarrow> bool" where
  "texts_fine cs \<longleftrightarrow> list_all text_chunk cs \<and> (\<forall>c \<in> set (tl cs). c_offset c = 0)"

definition reading :: "chunkqueue \<Rightarrow> char list list \<Rightarrow> bool" where
  "reading cq ts \<longleftrightarrow> (\<exists>cs. cq_rep cq cs \<and> texts_fine cs \<and> map unread_text cs = ts)"

lemma texts_fine_ok:
  assumes "shape cq as us" and "texts_fine (items cq as)"
  shows "texts_ok cq as"
proof -
  have "\<exists>c. get_chunk cq a = Some c \<and> text_chunk c" if a: "a \<in> set as" for a
  proof -
    obtain c where c: "a < length (cells cq)" "cells cq ! a = Some c"
      using lseg_bound[of "cells cq" "cq_first cq" as a] assms(1) a by (auto simp: shape_def)
    then have "bare c \<in> set (items cq as)" using a by (force simp: items_def)
    with assms(2) have "text_chunk (bare c)" by (auto simp: texts_fine_def list_all_iff)
    with c show ?thesis by (auto simp: get_chunk_iff)
  qed
  with assms(2) show ?thesis by (auto simp: texts_ok_def texts_fine_def)
qed

lemma texts_fine_tl: "texts_fine (c # cs) \<Longrightarrow> texts_fine cs"
  by (cases cs) (auto simp: texts_fine_def)

lemma texts_fine_append: "texts_fine (xs @ ys) \<Longrightarrow> texts_fine ys"
  by (induction xs) (auto dest: texts_fine_tl)

lemma text_chunk_advance:
  assumes "text_chunk c" and "n \<le> length (unread_text c)"
  shows "is_finished (c\<lparr>c_offset := c_offset c + int n\<rparr>) \<longleftrightarrow> n = length (unread_text c)"
    and "n < length (unread_text c) \<Longrightarrow> text_chunk (c\<lparr>c_offset := c_offset c + int n\<rparr>)"
    and "unread_text (c\<lparr>c_offset := c_offset c + int n\<rparr>) = drop n (unread_text c)"
proof -
  obtain t where t: "c_mem c = terminated t" "0 \<le> c_offset c" "c_offset c < int (length t)" "ctype c = MEM_CHUNK"
    using assms(1) by (auto simp: text_chunk_def)
  then have l: "length (unread_text c) = length t - nat (c_offset c)" by (simp add: unread_text_def terminated_def)
  show "is_finished (c\<lparr>c_offset := c_offset c + int n\<rparr>) \<longleftrightarrow> n = length (unread_text c)"
    using t l by (auto simp: is_finished_def terminated_def)
  show "n < length (unread_text c) \<Longrightarrow> text_chunk (c\<lparr>c_offset := c_offset c + int n\<rparr>)"
    using t l by (auto simp: text_chunk_def)
  show "unread_text (c\<lparr>c_offset := c_offset c + int n\<rparr>) = drop n (unread_text c)"
    using t(2) by (simp add: unread_text_def nat_add_distrib add.commute)
qed

text \<open>
  What the scan for a header does: it takes the header out, or leaves the queue as it is.
\<close>

definition header_found :: "char list list \<Rightarrow> char list \<Rightarrow> char list \<Rightarrow> bool" where
  "header_found ts h rest \<longleftrightarrow> concat ts = h @ rest \<and> (\<exists>p. p + 4 = length h \<and> occurs p (concat ts) \<and>
     (long_texts ts \<longrightarrow> (\<forall>q < p. \<not> occurs q (concat ts))))"

lemma dropWhile_finished:
  assumes "list_all is_finished xs" and "texts_fine ys"
  shows "dropWhile is_finished (xs @ ys) = ys"
proof -
  have "dropWhile is_finished ys = ys"
    using assms(2) text_chunk_unread(4) by (cases ys) (auto simp: texts_fine_def)
  with assms(1) show ?thesis by (simp add: list_all_iff dropWhile_append2)
qed

lemma text_chunk_lengths:
  "list_all text_chunk cs \<Longrightarrow> int (length (concat (map unread_text cs))) \<le> sum_list (map chunk_length cs)"
proof (induction cs)
  case (Cons c cs)
  have "int (length (unread_text c)) \<le> chunk_length c"
    using Cons.prems by (auto simp: text_chunk_def unread_text_def chunk_length_def terminated_def)
  with Cons show ?case by simp
qed simp

lemma reading_shape:
  assumes "reading cq ts"
  obtains as us where "shape cq as us" "texts_fine (items cq as)" "texts cq as = ts" "texts_ok cq as" "chunks_of cq = Some as"
    "distinct as"
proof -
  obtain as us where a: "shape cq as us" "texts_fine (items cq as)" "texts cq as = ts"
    using assms by (auto simp: reading_def cq_rep_def texts_def)
  show thesis by (rule that[OF a texts_fine_ok[OF a(1,2)] chunks_of_ok[OF a(1)]]) (use a(1) in \<open>simp add: shape_def\<close>)
qed

lemma read_header_ok:
  assumes "reading (read_queue con) ts"
  shows "\<exists>con'. read_header_state con = Some con' \<and>
     ((\<exists>h rest q. header_found ts h rest \<and> con' = (upd_req (\<lambda>r. r\<lparr>request := terminated h\<rparr>) con)\<lparr>read_queue := q, state := CON_STATE_REQUEST_END\<rparr> \<and>
        (\<exists>gone q' ts'. chunkqueue_remove_finished_chunks q = Some (gone, q') \<and> reading q' ts' \<and> concat ts' = rest)) \<or>
      (long_texts ts \<longrightarrow> (\<forall>p. \<not> occurs p (concat ts))) \<and>
        (con' = con \<and> length (concat ts) \<le> 64 * 1024 \<or>
         con' = con\<lparr>http_status := 414, keep_alive := 0, state := CON_STATE_HANDLE_REQUEST\<rparr>))"
proof -
  let ?q = "read_queue con"
  obtain as us where a: "shape ?q as us" "texts_fine (items ?q as)" "texts ?q as = ts" "texts_ok ?q as" "chunks_of ?q = Some as"
    "distinct as" by (rule reading_shape[OF assms])
  obtain r where r: "find_header ?q as = Some r" "case r of
       None \<Rightarrow> long_texts ts \<longrightarrow> (\<forall>p. \<not> occurs p (concat ts))
     | Some (a, n) \<Rightarrow> \<exists>xs ys p. as = xs @ a # ys \<and> n \<le> length (unread_text (the (cells ?q ! a))) \<and>
         p + 4 = length (concat (texts ?q xs)) + n \<and> occurs p (concat ts) \<and>
         (long_texts ts \<longrightarrow> (\<forall>q < p. \<not> occurs q (concat ts)))" using find_header_ok[OF a(4)] unfolding a(3) by blast
  show ?thesis
  proof (cases r)
    case None
    have "length as \<le> length (cells ?q)" using a(1) lseg_length[of "cells ?q" "cq_first ?q" as] by (simp add: shape_def)
    then have "chunkqueue_length ?q = Some (sum_list (map chunk_length (items ?q as)))"
      using sum_loop_ok[of ?q "cq_first ?q" as "length (cells ?q)" chunk_length 0] a(1)
      by (simp add: chunkqueue_length_def chunk_length_def shape_def split: chunk_type.splits)
    moreover have "list_all text_chunk (items ?q as)" using a(2) by (simp add: texts_fine_def)
    then have "int (length (concat (texts ?q as))) \<le> sum_list (map chunk_length (items ?q as))" unfolding texts_def by (rule text_chunk_lengths)
    then have "int (length (concat ts)) \<le> sum_list (map chunk_length (items ?q as))" unfolding a(3) .
    ultimately show ?thesis using None r a(5) by (auto simp: read_header_state_def)
  next
    case (Some x)
    obtain d n where x: "x = (d, n)" by (cases x)
    have "\<exists>xs ys p. as = xs @ d # ys \<and> n \<le> length (unread_text (the (cells ?q ! d))) \<and>
         p + 4 = length (concat (texts ?q xs)) + n \<and> occurs p (concat ts) \<and>
         (long_texts ts \<longrightarrow> (\<forall>q < p. \<not> occurs q (concat ts)))" using r(2) unfolding Some x option.case prod.case .
    then obtain xs ys p where p: "as = xs @ d # ys" "n \<le> length (unread_text (the (cells ?q ! d)))"
         "p + 4 = length (concat (texts ?q xs)) + n" "occurs p (concat ts)"
         "long_texts ts \<longrightarrow> (\<forall>q < p. \<not> occurs q (concat ts))" by blast
    obtain c where c: "get_chunk ?q d = Some c" "text_chunk c" using a(4) p(1) by (auto simp: texts_ok_def)
    then have n: "n \<le> length (unread_text c)" using p(2) by (simp add: get_chunk_iff)
    let ?h = "concat (texts ?q xs) @ take n (unread_text c)"
    let ?c = "c\<lparr>c_offset := c_offset c + int n\<rparr>"
    obtain q where q: "copy_header ?q (xs @ d # ys) d n [] = Some (with_text [] ?h, q)" "shape q as us"
      "\<forall>b. b \<notin> set (xs @ [d]) \<longrightarrow> cells q ! b = cells ?q ! b" "list_all is_finished (items q xs)" "get_chunk q d = Some ?c"
      using copy_header_ok[of ?q xs d ys c n as us "[]"] a p(1) c(1) n by auto
    have "length ?h = p + 4" using p(3) n by simp
    then have "?h \<noteq> []" by (metis add_is_0 list.size(3) numeral_neq_zero)
    then have "with_text [] ?h = terminated ?h" unfolding with_text_def by (simp only: if_False butlast.simps append_Nil)
    then have run: "read_header_state con = Some ((upd_req (\<lambda>r. r\<lparr>request := terminated ?h\<rparr>) con)\<lparr>read_queue := q, state := CON_STATE_REQUEST_END\<rparr>)"
      using a(5) r(1) Some x q(1) p(1) by (simp add: read_header_state_def)
    have ts: "ts = texts ?q xs @ unread_text c # texts ?q ys"
      using a(3) p(1) c(1) by (simp add: texts_def items_append items_Cons get_chunk_iff)
    then have "concat ts = ?h @ drop n (unread_text c) @ concat (texts ?q ys)" by simp
    moreover have "p + 4 = length ?h" using p(3) n by simp
    ultimately have found: "header_found ts ?h (drop n (unread_text c) @ concat (texts ?q ys))"
      using p(4,5) unfolding header_found_def by blast
    have dys: "d \<notin> set ys" "set xs \<inter> set ys = {}" using a(6) p(1) by auto
    then have ys: "items q ys = items ?q ys" using q(3) by (auto simp: items_def)
    have it: "items q as = items q xs @ bare ?c # items q ys" using p(1) q(5) by (simp add: items_append items_Cons get_chunk_iff)
    have fine: "texts_fine (bare c # items ?q ys)"
      using texts_fine_append[of "items ?q xs"] a(2) p(1) c(1) by (simp add: items_append items_Cons get_chunk_iff)
    have "cq_rep q (items q as)" using q(2) by (auto simp: cq_rep_def)
    from remove_finished_ok[OF this] obtain gone q' where g: "chunkqueue_remove_finished_chunks q = Some (gone, q')"
      "cq_rep q' (dropWhile is_finished (items q as))" by blast
    have "\<exists>ts'. reading q' ts' \<and> concat ts' = drop n (unread_text c) @ concat (texts ?q ys)"
    proof (cases "n = length (unread_text c)")
      case True
      then have "is_finished (bare ?c)" using text_chunk_advance(1)[OF c(2) n] by simp
      then have "dropWhile is_finished (items q as) = items ?q ys"
        using dropWhile_finished[of "items q xs @ [bare ?c]" "items ?q ys"] q(4) texts_fine_tl[OF fine] it ys by simp
      with g(2) texts_fine_tl[OF fine] have "reading q' (texts ?q ys)" by (auto simp: reading_def texts_def)
      with True show ?thesis by auto
    next
      case False
      then have "text_chunk ?c" using text_chunk_advance(2)[OF c(2)] n by simp
      then have f: "texts_fine (bare ?c # items ?q ys)" using fine by (auto simp: texts_fine_def)
      then have "dropWhile is_finished (items q as) = bare ?c # items ?q ys"
        using dropWhile_finished[OF q(4) f] it ys by simp
      with g(2) f have "reading q' (unread_text ?c # texts ?q ys)" unfolding reading_def texts_def by fastforce
      then show ?thesis using text_chunk_advance(3)[OF c(2) n] by (intro exI[of _ "unread_text ?c # texts ?q ys"]) simp
    qed
    with run found g(1) show ?thesis by blast
  qed
qed

section \<open>Empty chunks\<close>

text \<open>A chunk without a buffer at the end of the queue, as a read leaves it that got nothing.\<close>

lemma to_unused_first [simp]: "cq_first (to_unused cq a c) = cq_first cq"
  by (simp add: to_unused_def set_chunk_def)

lemma drop_nothing:
  assumes "lseg (cells cq) p bs" and "\<forall>b \<in> set bs. c_mem (the (cells cq ! b)) \<noteq> []" and "length bs \<le> fuel"
  shows "drop_empty fuel cq p = Some cq"
  using assms
proof (induction bs arbitrary: p fuel)
  case (Cons b bs)
  then obtain f c where f: "fuel = Suc f" "p = Some b" "get_chunk cq b = Some c" "c_mem c \<noteq> []" "lseg (cells cq) (c_next c) bs"
    by (cases fuel) (auto simp: get_chunk_iff)
  have rest: "drop_empty f cq (c_next c) = Some cq" using Cons.IH[OF f(5)] Cons.prems(2,3) f(1) by simp
  show ?case
  proof (cases bs)
    case Nil
    with f show ?thesis by simp
  next
    case (Cons a as)
    then obtain d where "c_next c = Some a" "get_chunk cq a = Some d" "c_mem d \<noteq> []"
      using f(5) Cons.prems(2) by (auto simp: get_chunk_iff)
    with f rest show ?thesis by simp
  qed
qed simp

lemma drop_tail:
  assumes "lseg (cells cq) p (bs @ [b, e])" and "\<forall>x \<in> set (bs @ [b]). c_mem (the (cells cq ! x)) \<noteq> []"
    and "get_chunk cq b = Some bc" and "get_chunk cq e = Some ec" and "c_mem ec = []" and "length bs + 2 \<le> fuel"
  shows "drop_empty fuel cq p =
     Some ((to_unused (set_chunk cq b (bc\<lparr>c_next := None\<rparr>)) e ec)\<lparr>cq_last := Some b\<rparr>)"
  using assms(1,2,6)
proof (induction bs arbitrary: p fuel)
  case Nil
  then obtain f where f: "fuel = Suc (Suc f)" by (metis Suc_le_D add_2_eq_Suc' list.size(3) plus_1_eq_Suc add_0 numeral_2_eq_2 Suc_le_mono)
  have "c_mem bc \<noteq> []" "c_next bc = Some e" "p = Some b" "c_next ec = None"
    using Nil(1,2) assms(3,4) by (auto simp: get_chunk_iff)
  with f assms(3-5) show ?case by simp
next
  case (Cons x bs)
  then obtain f c where f: "fuel = Suc f" "p = Some x" "get_chunk cq x = Some c" "c_mem c \<noteq> []" "lseg (cells cq) (c_next c) (bs @ [b, e])"
    by (cases fuel) (auto simp: get_chunk_iff)
  obtain y ys where y: "bs @ [b, e] = y # ys" "y \<in> set (bs @ [b])" by (cases bs) auto
  then obtain d where "c_next c = Some y" "get_chunk cq y = Some d" "c_mem d \<noteq> []"
    using f(5) Cons.prems(2) by (auto simp: get_chunk_iff)
  with f Cons.IH[OF f(5)] Cons.prems(2,3) show ?case by simp
qed

lemma lseg_cut:
  assumes "lseg m p (bs @ [b, e])" and "distinct (bs @ [b, e])" and "m ! b = Some bc"
  shows "lseg (m[b := Some (bc\<lparr>c_next := None\<rparr>)]) p (bs @ [b])"
  using assms
proof (induction bs arbitrary: p)
  case (Cons x bs)
  then show ?case by auto
qed auto

lemma drop_empty_ok:
  assumes "shape cq (as @ [e]) us" and "length us \<le> 4" and "get_chunk cq e = Some ec" and "c_mem ec = []"
    and "\<forall>x \<in> set as. c_mem (the (cells cq ! x)) \<noteq> []"
  shows "\<exists>cq'. drop_empty (length (cells cq) + 1) cq (cq_first cq) = Some cq' \<and> shape cq' as (e # us) \<and>
     items cq' as = items cq as \<and> bytes_in cq' = bytes_in cq \<and> bytes_out cq' = bytes_out cq"
proof (cases as rule: rev_cases)
  case Nil
  then have "cq_first cq = Some e" "c_next ec = None" "e < length (cells cq)"
    using assms(1,3) by (auto simp: shape_def get_chunk_iff)
  moreover obtain f where "length (cells cq) = Suc f" using calculation(3) by (cases "length (cells cq)") auto
  ultimately have "drop_empty (length (cells cq) + 1) cq (cq_first cq) =
      Some (to_unused (cq\<lparr>cq_first := None, cq_last := None\<rparr>) e ec)"
    using assms(3,4) by (simp add: Let_def)
  moreover have "shape (to_unused (cq\<lparr>cq_first := None, cq_last := None\<rparr>) e ec) [] (e # us)"
    using assms(1-3) Nil by (auto simp: shape_def to_unused_def set_chunk_def get_chunk_iff)
  ultimately show ?thesis using Nil by (simp add: to_unused_def set_chunk_def)
next
  case (snoc bs b)
  have seg: "lseg (cells cq) (cq_first cq) (bs @ [b, e])" using assms(1) snoc by (simp add: shape_def)
  obtain bc where bc: "get_chunk cq b = Some bc" using lseg_bound[OF seg, of b] by (auto simp: get_chunk_iff)
  let ?q = "(to_unused (set_chunk cq b (bc\<lparr>c_next := None\<rparr>)) e ec)\<lparr>cq_last := Some b\<rparr>"
  have d: "distinct (bs @ [b, e] @ us)" using assms(1) snoc by (simp add: shape_def)
  then have "length (bs @ [b, e]) \<le> length (cells cq)" using lseg_length[OF seg] by simp
  then have run: "drop_empty (length (cells cq) + 1) cq (cq_first cq) = Some ?q"
    using drop_tail[OF seg _ bc assms(3,4)] assms(5) snoc by simp
  have "b < length (cells cq)" "e < length (cells cq)" using bc assms(3) by (auto simp: get_chunk_iff)
  moreover have "lseg ((cells cq)[b := Some (bc\<lparr>c_next := None\<rparr>)]) (cq_first cq) (bs @ [b])"
    using seg d bc by (intro lseg_cut[where e = e]) (auto simp: get_chunk_iff)
  ultimately have "shape ?q as (e # us)"
    using assms(1,2) snoc d bc by (auto simp: shape_def to_unused_def set_chunk_def get_chunk_iff nth_list_update)
  moreover have "items ?q as = items cq as"
    using snoc d bc by (auto simp: items_def to_unused_def set_chunk_def get_chunk_iff nth_list_update bare_def)
      (metis nth_list_update_neq)
  ultimately show ?thesis using run by (simp add: to_unused_def set_chunk_def)
qed

section \<open>What the socket gives\<close>

text \<open>The texts a read adds, which must fit into the buffer that was read into.\<close>

definition fresh :: "read_in \<Rightarrow> char list list" where
  "fresh inp = (case in_read inp of Got bytes \<Rightarrow> if bytes = [] then [] else [bytes] | Not_Read e \<Rightarrow> [])"

definition sane_read :: "read_in \<Rightarrow> bool" where
  "sane_read inp \<longleftrightarrow> (case in_read inp of Got bytes \<Rightarrow> length bytes \<le> in_room inp | Not_Read e \<Rightarrow> True)"

text \<open>The queue holds the texts once empty chunks are dropped.\<close>

definition will_read :: "chunkqueue \<Rightarrow> char list list \<Rightarrow> bool" where
  "will_read cq ts \<longleftrightarrow> valid (drop_empty (length (cells cq) + 1) cq (cq_first cq)) (\<lambda>cq'. reading cq' ts)"

lemma texts_fine_mem:
  assumes "texts_fine (items cq as)"
  shows "\<forall>x \<in> set as. c_mem (the (cells cq ! x)) \<noteq> []"
proof
  fix x
  assume "x \<in> set as"
  then have "bare (the (cells cq ! x)) \<in> set (items cq as)" by (simp add: items_def)
  with assms have "text_chunk (bare (the (cells cq ! x)))" by (auto simp: texts_fine_def list_all_iff)
  then show "c_mem (the (cells cq ! x)) \<noteq> []" using text_chunk_unread(5) by simp
qed

lemma reading_will_read:
  assumes "reading cq ts"
  shows "will_read cq ts"
proof -
  obtain as us where a: "shape cq as us" "texts_fine (items cq as)" by (rule reading_shape[OF assms])
  then have "length as \<le> length (cells cq)" using lseg_length[of "cells cq" "cq_first cq" as] by (simp add: shape_def)
  then have "drop_empty (length (cells cq) + 1) cq (cq_first cq) = Some cq"
    using drop_nothing[OF _ texts_fine_mem[OF a(2)]] a(1) by (simp add: shape_def)
  with assms show ?thesis by (simp add: will_read_def)
qed

text \<open>The buffer that is appended for a read, and the queue when it stays empty or is filled.\<close>

lemma read_buffer_ok:
  assumes "reading cq ts"
  shows "valid (chunkqueue_get_append_buffer cq) (\<lambda>(a, cq'). will_read cq' ts \<and>
     (\<forall>t. t \<noteq> [] \<longrightarrow> valid (put_mem cq' a (terminated t)) (\<lambda>cq''. reading cq'' (ts @ [t]))))"
proof -
  obtain cs where cs: "cq_rep cq cs" "texts_fine cs" "map unread_text cs = ts" using assms by (auto simp: reading_def)
  let ?f = "\<lambda>c. c\<lparr>ctype := MEM_CHUNK, c_offset := 0, c_mem := []\<rparr>"
  have "valid (add_last ?f cq) (\<lambda>(a, cq'). \<exists>c. cq_rep cq' (cs @ [bare (?f c)]) \<and>
     (\<exists>as us. shape cq' (as @ [a]) us \<and> items cq' (as @ [a]) = cs @ [bare (?f c)] \<and> length us \<le> 4))"
    using add_last_ok[OF cs(1), of ?f] by simp
  then obtain a cq' c as us where q: "chunkqueue_get_append_buffer cq = Some (a, cq')"
    "shape cq' (as @ [a]) us" "items cq' (as @ [a]) = cs @ [bare (?f c)]" "length us \<le> 4"
    by (auto simp: valid_def chunkqueue_get_append_buffer_def)
  then have i: "items cq' as = cs" "bare (the (cells cq' ! a)) = bare (?f c)" by (auto simp: items_append items_Cons)
  obtain ec where ec: "get_chunk cq' a = Some ec"
    using q(2) lseg_bound[of "cells cq'" "cq_first cq'" "as @ [a]" a] by (auto simp: shape_def get_chunk_iff)
  then have b: "bare ec = bare (?f c)" using i(2) by (simp add: get_chunk_iff)
  have e: "c_mem ec = []" "ctype ec = MEM_CHUNK" "c_offset ec = 0"
    using arg_cong[OF b, of c_mem] arg_cong[OF b, of ctype] arg_cong[OF b, of c_offset] by simp_all
  have fine: "texts_fine (items cq' as)" unfolding i(1) by (rule cs(2))
  obtain q' where q': "drop_empty (length (cells cq') + 1) cq' (cq_first cq') = Some q'" "shape q' as (a # us)" "items q' as = items cq' as"
    using drop_empty_ok[OF q(2,4) ec e(1) texts_fine_mem[OF fine]] by blast
  then have "reading q' ts" using cs(2,3) i(1) by (auto simp: reading_def cq_rep_def)
  then have w: "will_read cq' ts" using q'(1) by (simp add: will_read_def)
  have "valid (put_mem cq' a (terminated t)) (\<lambda>cq''. reading cq'' (ts @ [t]))" if t: "t \<noteq> []" for t
  proof -
    have s: "shape cq' (as @ a # []) us" using q(2) .
    obtain d cq'' where d: "get_chunk cq' a = Some d" "put_mem cq' a (terminated t) = Some cq''" "shape cq'' (as @ [a]) us"
      "items cq'' (as @ [a]) = items cq' as @ [(bare d)\<lparr>c_mem := terminated t\<rparr>]"
      using put_mem_ok[OF s, of "terminated t"] by auto
    let ?d = "(bare d)\<lparr>c_mem := terminated t\<rparr>"
    have "d = ec" using d(1) ec by simp
    then have "text_chunk ?d" "c_offset ?d = 0" "unread_text ?d = t"
      using e t by (auto simp: text_chunk_def unread_text_def terminated_def)
    then have "texts_fine (cs @ [?d])" "map unread_text (cs @ [?d]) = ts @ [t]"
      using cs(2,3) by (cases cs; auto simp: texts_fine_def)+
    moreover have "cq_rep cq'' (cs @ [?d])" using d(3,4) i(1) by (auto simp: cq_rep_def)
    ultimately show ?thesis using d(2) by (auto simp: reading_def)
  qed
  with w q(1) show ?thesis by simp
qed

lemma handle_read_ok:
  assumes "reading (read_queue con) ts" and "sane_read inp"
  shows "valid (connection_handle_read inp con) (\<lambda>(r, con'). r \<in> {0, -1, -2} \<and> req con' = req con \<and>
     request_content_queue con' = request_content_queue con \<and>
     (r \<noteq> -1 \<longrightarrow> will_read (read_queue con') (ts @ fresh inp) \<and> state con' = state con))"
proof -
  obtain a cq' where q: "chunkqueue_get_append_buffer (read_queue con) = Some (a, cq')" "will_read cq' ts"
     "\<forall>t. t \<noteq> [] \<longrightarrow> valid (put_mem cq' a (terminated t)) (\<lambda>cq''. reading cq'' (ts @ [t]))"
    using read_buffer_ok[OF assms(1)] by (auto simp: valid_def)
  show ?thesis
  proof (cases "is_ssl (conf con) \<or> in_pending inp = None")
    case True
    then show ?thesis by (auto simp: connection_handle_read_def connection_handle_read_ssl_def)
  next
    case False
    show ?thesis
    proof (cases "in_read inp")
      case (Got bytes)
      show ?thesis
      proof (cases "bytes = []")
        case True
        with Got False q(1,2) show ?thesis by (simp add: connection_handle_read_def fresh_def Let_def)
      next
        case more: False
        then obtain cq'' where "put_mem cq' a (terminated bytes) = Some cq''" "reading cq'' (ts @ [bytes])"
          using q(3) by (auto simp: valid_def)
        with Got False q(1) more assms(2) show ?thesis
          by (simp add: connection_handle_read_def fresh_def sane_read_def reading_will_read Let_def)
      qed
    next
      case (Not_Read e)
      with False q(1,2) show ?thesis by (simp add: connection_handle_read_def fresh_def Let_def)
    qed
  qed
qed

section \<open>Reading the header\<close>

lemma reading_remove:
  assumes "reading cq ts"
  shows "valid (chunkqueue_remove_finished_chunks cq) (\<lambda>(gone, cq'). reading cq' ts)"
proof -
  obtain cs where cs: "cq_rep cq cs" "texts_fine cs" "map unread_text cs = ts" using assms by (auto simp: reading_def)
  have "dropWhile is_finished cs = cs" using dropWhile_finished[of "[]" cs] cs(2) by simp
  with remove_finished_ok[OF cs(1)] cs show ?thesis by (auto simp: valid_def reading_def)
qed

lemma reading_init: "reading chunkqueue_init []"
  using init_rep by (auto simp: reading_def texts_fine_def)

lemma reading_dirs: "reading (cq\<lparr>tempdirs := d\<rparr>) ts = reading cq ts"
  by (simp add: reading_def cq_rep_def shape_def items_def)

definition sample_input :: read_in where
  "sample_input = \<lparr>in_pending = Some 18, in_room = 64, in_read = Got (''GET / HTTP/1.0'' @ header_end)\<rparr>"

definition sample_uploads :: uploads where "sample_uploads = \<lparr>up_calls = 0, disk = (\<lambda>n. [])\<rparr>"

definition sample_upload_io :: upload_io where
  "sample_upload_io = \<lparr>mkstemp_call = (\<lambda>i t. (7, t)), reopen = (\<lambda>n. 7), write_call = (\<lambda>i n. n)\<rparr>"

text \<open>The first half of the handler: the read, if there is one, and the empty chunks that are dropped.\<close>

definition read_step :: "read_in \<Rightarrow> server \<Rightarrow> connection \<Rightarrow> (int \<times> connection) option" where
  "read_step inp srv con =
     (if is_readable con then connection_handle_read inp (con\<lparr>read_idle_ts := cur_ts srv\<rparr>) else Some (0, con))"

lemma read_step_ok:
  assumes "reading (read_queue con) ts" and "sane_read inp"
  shows "\<exists>r con'. read_step inp srv con = Some (r, con') \<and> req con' = req con \<and>
     request_content_queue con' = request_content_queue con \<and>
     (r \<noteq> -1 \<longrightarrow> will_read (read_queue con') (ts @ (if is_readable con then fresh inp else [])) \<and> state con' = state con)"
proof (cases "is_readable con")
  case True
  let ?con = "con\<lparr>read_idle_ts := cur_ts srv\<rparr>"
  have "reading (read_queue ?con) ts" using assms(1) by simp
  from handle_read_ok[OF this assms(2)] obtain x where x: "connection_handle_read inp ?con = Some x"
    "case x of (r, con') \<Rightarrow> r \<in> {0, -1, -2} \<and> req con' = req ?con \<and> request_content_queue con' = request_content_queue ?con \<and>
     (r \<noteq> -1 \<longrightarrow> will_read (read_queue con') (ts @ fresh inp) \<and> state con' = state ?con)"
    unfolding valid_def by blast
  obtain r con' where rc: "x = (r, con')" by (cases x)
  have "req con' = req con" "request_content_queue con' = request_content_queue con"
    "r \<noteq> -1 \<longrightarrow> will_read (read_queue con') (ts @ fresh inp) \<and> state con' = state con"
    using x(2) unfolding rc prod.case by simp_all
  with x(1) rc True show ?thesis by (simp add: read_step_def)
next
  case False
  then show ?thesis using reading_will_read[OF assms(1)] by (simp add: read_step_def)
qed

definition sample_reader :: connection where
  "sample_reader = (connection_init sample_server)\<lparr>state := CON_STATE_READ, is_readable := True\<rparr>"

text \<open>
  C19: In the state READ, what was read before and the bytes the socket gives now are all kept in
  order: either they are split into a header, which becomes the text of the request and ends with
  CRLF CRLF, and the rest, which stays in the queue, or they all stay in the queue.  When no piece
  but the first is shorter than three bytes, the header ends at the first CRLF CRLF, and none is
  overlooked; and a client is left in the state READ only with at most 64 kilobytes pending.
\<close>

theorem read_state_keeps_bytes:
  assumes "reading (read_queue con) ts" and "state con = CON_STATE_READ" and "sane_read inp"
  shows "valid (connection_handle_read_state io inp srv up con) (\<lambda>(r, up', con'). r = -1 \<or>
     (let new = ts @ (if is_readable con then fresh inp else []) in
       (\<exists>h rest ts'. state con' = CON_STATE_REQUEST_END \<and> header_found new h rest \<and> request (req con') = terminated h \<and>
          reading (read_queue con') ts' \<and> concat ts' = rest) \<or>
       (state con' \<noteq> CON_STATE_REQUEST_END \<and> reading (read_queue con') new \<and> (long_texts new \<longrightarrow> (\<forall>p. \<not> occurs p (concat new))) \<and>
          (state con' = CON_STATE_READ \<longrightarrow> length (concat new) \<le> 64 * 1024))))"
proof -
  define new where "new = ts @ (if is_readable con then fresh inp else [])"
  obtain r con1 where 1: "read_step inp srv con = Some (r, con1)" "r \<noteq> -1 \<longrightarrow> will_read (read_queue con1) new \<and> state con1 = CON_STATE_READ"
    using read_step_ok[OF assms(1,3), of srv] assms(2) unfolding new_def by auto
  show ?thesis
  proof (cases "r = -1")
    case True
    with 1(1) show ?thesis by (simp add: connection_handle_read_state_def read_step_def)
  next
    case False
    then obtain q where q: "drop_empty (length (cells (read_queue con1)) + 1) (read_queue con1) (cq_first (read_queue con1)) = Some q"
      "reading q new" using 1(2) by (auto simp: will_read_def valid_def)
    let ?con = "con1\<lparr>read_queue := q\<rparr>"
    let ?last = "\<lambda>con2. if r = -2 \<and> CON_STATE_READ = state con2 then con2\<lparr>state := CON_STATE_ERROR\<rparr> else con2"
    have run: "connection_handle_read_state io inp srv up con = do {
       con2 \<leftarrow> read_header_state ?con;
       (_, cq) \<leftarrow> chunkqueue_remove_finished_chunks (read_queue (?last con2));
       Some (0, up, (?last con2)\<lparr>read_queue := cq\<rparr>) }"
      using 1(1) False q(1) assms(2) by (simp add: connection_handle_read_state_def read_step_def Let_def)
    have "reading (read_queue ?con) new" using q(2) by simp
    from read_header_ok[OF this] obtain con2 where con2: "read_header_state ?con = Some con2"
      "(\<exists>h rest q. header_found new h rest \<and> con2 = (upd_req (\<lambda>r. r\<lparr>request := terminated h\<rparr>) ?con)\<lparr>read_queue := q, state := CON_STATE_REQUEST_END\<rparr> \<and>
        (\<exists>gone q' ts'. chunkqueue_remove_finished_chunks q = Some (gone, q') \<and> reading q' ts' \<and> concat ts' = rest)) \<or>
      (long_texts new \<longrightarrow> (\<forall>p. \<not> occurs p (concat new))) \<and>
        (con2 = ?con \<and> length (concat new) \<le> 64 * 1024 \<or>
         con2 = ?con\<lparr>http_status := 414, keep_alive := 0, state := CON_STATE_HANDLE_REQUEST\<rparr>)"
      by (elim exE conjE) (rule that; assumption)
    from con2(2) show ?thesis
    proof (elim disjE exE conjE)
      fix h rest q gone' q' ts'
      assume *: "header_found new h rest" "con2 = (upd_req (\<lambda>r. r\<lparr>request := terminated h\<rparr>) ?con)\<lparr>read_queue := q, state := CON_STATE_REQUEST_END\<rparr>"
        "chunkqueue_remove_finished_chunks q = Some (gone', q')" "reading q' ts'" "concat ts' = rest"
      then have "connection_handle_read_state io inp srv up con = Some (0, up, con2\<lparr>read_queue := q'\<rparr>)"
        unfolding run con2(1) by simp
      with * show ?thesis unfolding new_def[symmetric] by (auto simp: upd_req_def)
    next
      obtain gone q' where g: "chunkqueue_remove_finished_chunks q = Some (gone, q')" "reading q' new"
        using reading_remove[OF q(2)] by (auto simp: valid_def)
      {
        assume *: "con2 = ?con" "length (concat new) \<le> 64 * 1024" "long_texts new \<longrightarrow> (\<forall>p. \<not> occurs p (concat new))"
        have s: "state con1 = CON_STATE_READ" using 1(2) False by blast
        have "connection_handle_read_state io inp srv up con = Some (0, up, (?last con2)\<lparr>read_queue := q'\<rparr>)"
          unfolding run con2(1) using *(1) g(1) by simp
        with * g(2) s show ?thesis unfolding new_def[symmetric] by (simp add: Let_def)
      next
        assume *: "con2 = ?con\<lparr>http_status := 414, keep_alive := 0, state := CON_STATE_HANDLE_REQUEST\<rparr>"
          "long_texts new \<longrightarrow> (\<forall>p. \<not> occurs p (concat new))"
        have "connection_handle_read_state io inp srv up con = Some (0, up, con2\<lparr>read_queue := q'\<rparr>)"
          unfolding run con2(1) using *(1) g(1) by simp
        with * g(2) show ?thesis unfolding new_def[symmetric] by (simp add: Let_def)
      }
    qed
  qed
qed

theorem read_state_keeps_bytes_witness:
  "valid (connection_handle_read_state sample_upload_io sample_input sample_server sample_uploads
       sample_reader) (\<lambda>(r, up', con'). r = -1 \<or>
     (let new = [] @ (if is_readable sample_reader then fresh sample_input else []) in
       (\<exists>h rest ts'. state con' = CON_STATE_REQUEST_END \<and> header_found new h rest \<and> request (req con') = terminated h \<and>
          reading (read_queue con') ts' \<and> concat ts' = rest) \<or>
       (state con' \<noteq> CON_STATE_REQUEST_END \<and> reading (read_queue con') new \<and> (long_texts new \<longrightarrow> (\<forall>p. \<not> occurs p (concat new))) \<and>
          (state con' = CON_STATE_READ \<longrightarrow> length (concat new) \<le> 64 * 1024))))"
  by (rule read_state_keeps_bytes)
    (simp_all add: sample_reader_def connection_init_def config_setup_connection_def sample_server_def reading_dirs reading_init sample_input_def sane_read_def header_end_def)

text \<open>
  An end of the header that is spread over three pieces is overlooked, and stays so: a client that
  sends CR, LF and CR LF one after the other waits for an answer until the idle timeout.
\<close>

definition split_queue :: "chunkqueue option" where
  "split_queue = do {
     (_, q) \<leftarrow> chunkqueue_append_buffer chunkqueue_init (terminated (''GET / HTTP/1.0'' @ [CR]));
     (_, q) \<leftarrow> chunkqueue_append_buffer q (terminated [LF]);
     (_, q) \<leftarrow> chunkqueue_append_buffer q (terminated [CR, LF]);
     Some q }"

lemma split_header_overlooked:
  "do { q \<leftarrow> split_queue; as \<leftarrow> chunks_of q; r \<leftarrow> find_header q as; Some (r, concat (texts q as)) } =
     Some (None, ''GET / HTTP/1.0'' @ header_end)"
  by code_simp

section \<open>Reading the body\<close>

lemma add_last_bytes:
  assumes "add_last f cq = Some (a, cq')"
  shows "bytes_in cq' = bytes_in cq"
  using assms
  by (auto simp: add_last_def chunkqueue_get_unused_chunk_def chunkqueue_append_chunk_def set_chunk_def Let_def
      split: option.splits if_splits bind_splits)

lemma post_chunk_ok:
  assumes "get_chunk (read_queue con) a = Some c" and "text_chunk c" and "reading (request_content_queue con) rs"
    and "bytes_in (request_content_queue con) = int k" and "k < content_length (req con)"
    and "content_length (req con) \<le> UPLOAD_USING_TEMPFILE_THRESHOLD"
    and n: "n = min (content_length (req con) - k) (length (unread_text c))"
  shows "\<exists>dst. post_chunk io up con a = Some (True, up, con\<lparr>read_queue := set_chunk (read_queue con) a (c\<lparr>c_offset := c_offset c + int n\<rparr>),
       request_content_queue := dst\<rparr>) \<and> reading dst (rs @ [take n (unread_text c)]) \<and> bytes_in dst = int (k + n)"
proof -
  have t: "c_mem c \<noteq> []" "unread_text c \<noteq> []" using text_chunk_unread[OF assms(2)] by auto
  have o: "0 \<le> c_offset c" "int (length (c_mem c)) - c_offset c - 1 = int (length (unread_text c))"
    using assms(2) by (auto simp: text_chunk_def unread_text_def terminated_def)
  have "0 < n" using n t(2) assms(5) by simp
  then have take: "take n (unread_text c) \<noteq> []" using t(2) by (cases "unread_text c") auto
  have bytes: "take n (drop (nat (c_offset c)) (c_mem c)) = take n (unread_text c)"
    using assms(2) n by (auto simp: text_chunk_def unread_text_def terminated_def)
  obtain d q where q: "chunkqueue_get_append_buffer (request_content_queue con) = Some (d, q)"
    "\<forall>t. t \<noteq> [] \<longrightarrow> valid (put_mem q d (terminated t)) (\<lambda>q'. reading q' (rs @ [t]))"
    using read_buffer_ok[OF assms(3)] by (auto simp: valid_def)
  then obtain q' where q': "put_mem q d (terminated (take n (unread_text c))) = Some q'" "reading q' (rs @ [take n (unread_text c)])"
    using take unfolding valid_def by blast
  have "bytes_in q = int k" using add_last_bytes q(1) assms(4) unfolding chunkqueue_get_append_buffer_def by metis
  moreover have "bytes_in q' = bytes_in q" using q'(1) by (auto simp: put_mem_def set_chunk_def split: bind_splits)
  ultimately have b: "bytes_in q' = int k" by simp
  have want: "as_wanted (int (content_length (req con)) - int k) (int (length (unread_text c))) = int n"
    using n assms(5) by (auto simp: as_wanted_def)
  have "post_chunk io up con a = Some (True, up, con\<lparr>read_queue := set_chunk (read_queue con) a (c\<lparr>c_offset := c_offset c + int n\<rparr>),
       request_content_queue := q'\<lparr>bytes_in := int k + int n\<rparr>\<rparr>)"
    using assms(1,4,6) t(1) o q(1) q'(1) b bytes want by (simp add: post_chunk_def Let_def)
  moreover have "reading (q'\<lparr>bytes_in := int k + int n\<rparr>) (rs @ [take n (unread_text c)])"
    using q'(2) by (auto simp: reading_def cq_rep_def shape_def items_def)
  ultimately show ?thesis by (intro exI[of _ "q'\<lparr>bytes_in := int k + int n\<rparr>"]) simp
qed

text \<open>
  What the loop over the chunks has done: \<open>s\<close> is the text that was there, \<open>w\<close> of its bytes were
  wanted.
\<close>

definition body_moved :: "connection \<Rightarrow> connection \<Rightarrow> chunkqueue \<Rightarrow> char list list \<Rightarrow> nat \<Rightarrow> char list \<Rightarrow> bool" where
  "body_moved con con' q rs w s \<longleftrightarrow> con' = con\<lparr>read_queue := q, request_content_queue := request_content_queue con'\<rparr> \<and>
     (\<exists>rs'. reading (request_content_queue con') rs' \<and> concat rs' = concat rs @ take w s) \<and>
     bytes_in (request_content_queue con') = bytes_in (request_content_queue con) + int (min w (length s)) \<and>
     (\<exists>ts'. valid (chunkqueue_remove_finished_chunks q) (\<lambda>(gone, q'). reading q' ts') \<and> concat ts' = drop w s)"

lemma unfinished_reading:
  assumes "shape cq (ds @ as) us" and "list_all is_finished (items cq ds)" and "texts_fine (items cq as)"
  shows "valid (chunkqueue_remove_finished_chunks cq) (\<lambda>(gone, cq'). reading cq' (texts cq as))"
proof -
  have "cq_rep cq (items cq ds @ items cq as)" using assms(1) by (auto simp: cq_rep_def items_append)
  from remove_finished_ok[OF this] dropWhile_finished[OF assms(2,3)] assms(3) show ?thesis
    by (auto simp: valid_def reading_def texts_def)
qed

lemma post_loop_ok:
  assumes "shape (read_queue con) (ds @ as) us" and "list_all is_finished (items (read_queue con) ds)"
    and "texts_fine (items (read_queue con) as)" and "reading (request_content_queue con) rs"
    and "bytes_in (request_content_queue con) = int k" and "k \<le> content_length (req con)"
    and "content_length (req con) \<le> UPLOAD_USING_TEMPFILE_THRESHOLD"
  shows "\<exists>con' q. post_loop io up con as = Some (up, con') \<and>
     body_moved con con' q rs (content_length (req con) - k) (concat (texts (read_queue con) as))"
  using assms
proof (induction as arbitrary: con ds rs k)
  case Nil
  from unfinished_reading[OF Nil(1-3)] Nil(4) show ?case
    by (intro exI[of _ con] exI[of _ "read_queue con"]) (auto simp: body_moved_def texts_def)
next
  case (Cons a as)
  let ?q = "read_queue con"
  let ?w = "content_length (req con) - k"
  show ?case
  proof (cases "k = content_length (req con)")
    case True
    with unfinished_reading[OF Cons.prems(1-3)] Cons.prems(4,5) show ?thesis
      by (intro exI[of _ con] exI[of _ "read_queue con"]) (auto simp: body_moved_def)
  next
    case False
    then have k: "k < content_length (req con)" using Cons.prems(6) by simp
    have sh: "shape ?q (ds @ a # as) us" using Cons.prems(1) .
    have "a < length (cells ?q)" "\<exists>c. cells ?q ! a = Some c"
      using sh lseg_bound[of "cells ?q" "cq_first ?q" "ds @ a # as" a] by (auto simp: shape_def)
    then obtain c where c: "get_chunk ?q a = Some c" by (auto simp: get_chunk_iff)
    have fine: "texts_fine (bare c # items ?q as)" using Cons.prems(3) c by (simp add: items_Cons get_chunk_iff)
    then have t: "text_chunk c" by (simp add: texts_fine_def)
    let ?t = "unread_text c"
    define n where "n = min ?w (length ?t)"
    let ?c = "c\<lparr>c_offset := c_offset c + int n\<rparr>"
    let ?q1 = "set_chunk ?q a ?c"
    obtain dst where dst: "post_chunk io up con a = Some (True, up, con\<lparr>read_queue := ?q1, request_content_queue := dst\<rparr>)"
      "reading dst (rs @ [take n ?t])" "bytes_in dst = int (k + n)"
      using post_chunk_ok[OF c t Cons.prems(4,5) k Cons.prems(7) n_def] by blast
    let ?con = "con\<lparr>read_queue := ?q1, request_content_queue := dst\<rparr>"
    have run: "post_loop io up con (a # as) = post_loop io up ?con as"
      using dst(1) Cons.prems(5) False by simp
    have sh1: "shape ?q1 (ds @ a # as) us" by (rule shape_keep_next[OF sh c]) simp
    have na: "a \<notin> set ds" "a \<notin> set as" using sh by (auto simp: shape_def)
    have i1: "items ?q1 ds = items ?q ds" "items ?q1 as = items ?q as" using na by simp_all
    have a1: "items ?q1 [a] = [bare ?c]" using c by (simp add: items_Cons set_chunk_def get_chunk_iff)
    have whole: "concat (texts ?q (a # as)) = ?t @ concat (texts ?q as)" using c by (simp add: texts_def items_Cons get_chunk_iff)
    have nl: "n \<le> length ?t" by (simp add: n_def)
    have k1: "int (k + n) = int (content_length (req con)) \<longleftrightarrow> ?w \<le> length ?t" using k by (auto simp: n_def)
    show ?thesis
    proof (cases "n = length ?t")
      case True
      then have "is_finished (bare ?c)" using text_chunk_advance(1)[OF t nl] by simp
      then have f: "list_all is_finished (items (read_queue ?con) (ds @ [a]))" using Cons.prems(2) i1(1) a1 by (simp add: items_append)
      have s: "shape (read_queue ?con) ((ds @ [a]) @ as) us" using sh1 by simp
      have tf: "texts_fine (items (read_queue ?con) as)" using texts_fine_tl[OF fine] i1(2) by simp
      have le: "k + n \<le> content_length (req ?con)" using k by (simp add: n_def)
      obtain con' q where ih: "post_loop io up ?con as = Some (up, con')"
        "body_moved ?con con' q (rs @ [take n ?t]) (content_length (req ?con) - (k + n)) (concat (texts (read_queue ?con) as))"
        using Cons.IH[OF s f tf, of "rs @ [take n ?t]" "k + n"] dst(2,3) le Cons.prems(7) by auto
      have tx: "texts (read_queue ?con) as = texts ?q as" using i1(2) by (simp add: texts_def)
      have w: "content_length (req ?con) - (k + n) = ?w - length ?t" "length ?t \<le> ?w" using True by (simp_all add: n_def)
      have "body_moved con con' q rs ?w (concat (texts ?q (a # as)))"
        using ih(2) dst(3) Cons.prems(5) w True unfolding body_moved_def whole tx by auto
      moreover have "post_loop io up con (a # as) = Some (up, con')" unfolding run by (rule ih(1))
      ultimately show ?thesis by (intro exI conjI)
    next
      case False
      then have n: "n = ?w" "?w < length ?t" by (auto simp: n_def)
      then have stop: "post_loop io up ?con as = Some (up, ?con)" using dst(3) k by (cases as) simp_all
      have "text_chunk ?c" using text_chunk_advance(2)[OF t nl] n by simp
      then have tf: "texts_fine (items ?q1 (a # as))" using fine a1 i1(2) by (simp add: items_Cons texts_fine_def)
      have f: "list_all is_finished (items ?q1 ds)" using Cons.prems(2) i1(1) by simp
      have "texts ?q1 (a # as) = drop n ?t # texts ?q as"
        using a1 i1(2) text_chunk_advance(3)[OF t nl] by (simp add: texts_def items_Cons)
      then have "concat (texts ?q1 (a # as)) = drop ?w (?t @ concat (texts ?q as))" using n by simp
      with unfinished_reading[OF sh1 f tf] dst(2,3) Cons.prems(5) n k have "body_moved con ?con ?q1 rs ?w (concat (texts ?q (a # as)))"
        unfolding body_moved_def whole by auto
      with stop run show ?thesis by auto
    qed
  qed
qed

lemma read_post_ok:
  assumes "reading (read_queue con) ts" and "reading (request_content_queue con) rs"
    and "bytes_in (request_content_queue con) = int k" and "k \<le> content_length (req con)"
    and "content_length (req con) \<le> UPLOAD_USING_TEMPFILE_THRESHOLD"
  shows "\<exists>con' q. read_post_state io up con = Some (up, if content_length (req con) - k \<le> length (concat ts)
       then con'\<lparr>state := CON_STATE_HANDLE_REQUEST\<rparr> else con') \<and> body_moved con con' q rs (content_length (req con) - k) (concat ts)"
proof -
  let ?q = "read_queue con"
  let ?w = "content_length (req con) - k"
  obtain as us where a: "shape ?q as us" "texts_fine (items ?q as)" "texts ?q as = ts" "chunks_of ?q = Some as"
    by (rule reading_shape[OF assms(1)])
  obtain con' q where r: "post_loop io up con as = Some (up, con')" "body_moved con con' q rs ?w (concat ts)"
    using post_loop_ok[of con "[]" as us rs k io up] a assms(2-5) by auto
  have "req con' = req con"
  proof -
    have "con' = con\<lparr>read_queue := q, request_content_queue := request_content_queue con'\<rparr>" using r(2) unfolding body_moved_def by blast
    then have "req con' = req (con\<lparr>read_queue := q, request_content_queue := request_content_queue con'\<rparr>)" by (rule arg_cong)
    then show ?thesis by simp
  qed
  moreover have "bytes_in (request_content_queue con') = int (k + min ?w (length (concat ts)))"
    using r(2) assms(3) unfolding body_moved_def by simp
  then have "bytes_in (request_content_queue con') = int (content_length (req con)) \<longleftrightarrow> ?w \<le> length (concat ts)"
    using assms(4) by auto
  ultimately show ?thesis using a(4) r by (auto simp: read_post_state_def)
qed

text \<open>
  C20: In the state READ_POST, with a body of at most a megabyte, the bytes that were pending and the
  ones the socket gives now go to the content of the request in order, up to the announced length; what
  is more stays in the read queue, as the start of the next request.  The request is handled as soon as,
  and not before, its body is complete.
\<close>

theorem read_post_keeps_bytes:
  assumes "reading (read_queue con) ts" and "state con = CON_STATE_READ_POST" and "sane_read inp"
    and "reading (request_content_queue con) rs" and "bytes_in (request_content_queue con) = int k"
    and "k \<le> content_length (req con)" and "content_length (req con) \<le> UPLOAD_USING_TEMPFILE_THRESHOLD"
  shows "valid (connection_handle_read_state io inp srv up con) (\<lambda>(r, up', con'). r = -1 \<or>
     (let s = concat (ts @ (if is_readable con then fresh inp else [])); w = content_length (req con) - k in
       (\<exists>rs' ts'. reading (request_content_queue con') rs' \<and> concat rs' = concat rs @ take w s \<and>
          reading (read_queue con') ts' \<and> concat ts' = drop w s) \<and>
       bytes_in (request_content_queue con') = int (k + min w (length s)) \<and>
       (state con' = CON_STATE_HANDLE_REQUEST \<longleftrightarrow> w \<le> length s)))"
proof -
  define new where "new = ts @ (if is_readable con then fresh inp else [])"
  define w where "w = content_length (req con) - k"
  obtain r con1 where 1: "read_step inp srv con = Some (r, con1)" "req con1 = req con"
     "request_content_queue con1 = request_content_queue con"
     "r \<noteq> -1 \<longrightarrow> will_read (read_queue con1) new \<and> state con1 = CON_STATE_READ_POST"
    using read_step_ok[OF assms(1,3), of srv] assms(2) unfolding new_def by auto
  show ?thesis
  proof (cases "r = -1")
    case True
    with 1(1) show ?thesis by (simp add: connection_handle_read_state_def read_step_def)
  next
    case False
    then obtain q where q: "drop_empty (length (cells (read_queue con1)) + 1) (read_queue con1) (cq_first (read_queue con1)) = Some q"
      "reading q new" using 1(4) by (auto simp: will_read_def valid_def)
    let ?con = "con1\<lparr>read_queue := q\<rparr>"
    obtain con2 q2 where p: "read_post_state io up ?con = Some (up, if w \<le> length (concat new)
       then con2\<lparr>state := CON_STATE_HANDLE_REQUEST\<rparr> else con2)" "body_moved ?con con2 q2 rs w (concat new)"
      using read_post_ok[of ?con new rs k io up] q(2) 1(2,3) assms(4-7) unfolding w_def by auto
    define con3 where "con3 = (if w \<le> length (concat new) then con2\<lparr>state := CON_STATE_HANDLE_REQUEST\<rparr> else con2)"
    let ?last = "if r = -2 \<and> CON_STATE_READ_POST = state con3 then con3\<lparr>state := CON_STATE_ERROR\<rparr> else con3"
    have c2: "con2 = ?con\<lparr>read_queue := q2, request_content_queue := request_content_queue con2\<rparr>"
      using p(2) unfolding body_moved_def by blast
    have "read_queue con2 = q2" by (subst c2) simp
    moreover have "state con2 = CON_STATE_READ_POST" using 1(4) False by (subst c2) simp
    ultimately have e: "read_queue ?last = q2" "state ?last = CON_STATE_HANDLE_REQUEST \<longleftrightarrow> w \<le> length (concat new)"
      "request_content_queue ?last = request_content_queue con2" by (simp_all add: con3_def)
    obtain gone q' ts' where g: "chunkqueue_remove_finished_chunks q2 = Some (gone, q')" "reading q' ts'" "concat ts' = drop w (concat new)"
      using p(2) unfolding body_moved_def valid_def by fast
    have "connection_handle_read_state io inp srv up con = Some (0, up, ?last\<lparr>read_queue := q'\<rparr>)"
      using 1(1) False q(1) assms(2) p(1) g(1) e(1) unfolding con3_def[symmetric]
      by (simp add: connection_handle_read_state_def read_step_def Let_def)
    moreover obtain rs' where "reading (request_content_queue con2) rs'" "concat rs' = concat rs @ take w (concat new)"
      "bytes_in (request_content_queue con2) = int (k + min w (length (concat new)))"
      using p(2) 1(3) assms(5) unfolding body_moved_def by auto
    ultimately show ?thesis using g(2,3) e unfolding new_def[symmetric] w_def[symmetric]
      by (auto simp: Let_def)
  qed
qed

definition sample_poster :: connection where
  "sample_poster = upd_req (\<lambda>q. q\<lparr>content_length := 20\<rparr>) (sample_reader\<lparr>state := CON_STATE_READ_POST\<rparr>)"

lemma sample_poster_facts:
  "read_queue sample_poster = chunkqueue_init" "state sample_poster = CON_STATE_READ_POST"
  "request_content_queue sample_poster = chunkqueue_init\<lparr>tempdirs := None\<rparr>" "content_length (req sample_poster) = 20"
  by (simp_all add: sample_poster_def upd_req_def sample_reader_def connection_init_def config_setup_connection_def sample_server_def)

lemma chunkqueue_init_bytes: "bytes_in chunkqueue_init = 0"
  by (simp add: chunkqueue_init_def)

theorem read_post_keeps_bytes_witness:
  "valid (connection_handle_read_state sample_upload_io sample_input sample_server sample_uploads sample_poster)
     (\<lambda>(r, up', con'). r = -1 \<or>
     (let s = concat ([] @ (if is_readable sample_poster then fresh sample_input else []));
          w = content_length (req sample_poster) - 0 in
       (\<exists>rs' ts'. reading (request_content_queue con') rs' \<and> concat rs' = concat [] @ take w s \<and>
          reading (read_queue con') ts' \<and> concat ts' = drop w s) \<and>
       bytes_in (request_content_queue con') = int (0 + min w (length s)) \<and>
       (state con' = CON_STATE_HANDLE_REQUEST \<longleftrightarrow> w \<le> length s)))"
  by (rule read_post_keeps_bytes)
    (simp_all add: sample_poster_facts reading_dirs reading_init sample_input_def sane_read_def header_end_def
       chunkqueue_init_bytes UPLOAD_USING_TEMPFILE_THRESHOLD_def)

end
