(* ===== verification/Plugin.thy ===== *)
theory Plugin
  imports Connection
begin

text \<open>
  The dispatch of \<open>plugin.c\<close>: at the start every plugin is entered into the slot of each hook it has, and
  a call asks the plugins of a slot in turn.  The hooks themselves are functions that are loaded at run time.
\<close>

section \<open>The code\<close>

datatype handler_t =
    HANDLER_UNSET | HANDLER_GO_ON | HANDLER_FINISHED | HANDLER_COMEBACK | HANDLER_WAIT_FOR_EVENT
  | HANDLER_ERROR | HANDLER_WAIT_FOR_FD

text \<open>A hook may change the server and the connection.\<close>

type_synonym hook = "server \<Rightarrow> connection \<Rightarrow> handler_t \<times> server \<times> connection"

record plugin =
  handle_uri_raw :: "hook option"
  handle_uri_clean :: "hook option"
  handle_docroot :: "hook option"
  handle_physical :: "hook option"
  handle_subrequest_start :: "hook option"
  handle_subrequest :: "hook option"
  handle_request_done :: "hook option"
  handle_connection_close :: "hook option"
  handle_joblist :: "hook option"

text \<open>The first free cell of a slot is taken; a slot is allocated with the first plugin that needs it.\<close>

fun fill_slot :: "'p option list \<Rightarrow> 'p \<Rightarrow> 'p option list" where
  "fill_slot [] p = []"
| "fill_slot (Some q # s) p = Some q # fill_slot s p"
| "fill_slot (None # s) p = Some p # s"

definition add_to_slot :: "nat \<Rightarrow> (plugin \<Rightarrow> hook option) \<Rightarrow> plugin \<Rightarrow> plugin option list option \<Rightarrow> plugin option list option" where
  "add_to_slot n sel p slot =
     (if sel p = None then slot
      else Some (fill_slot (case slot of None \<Rightarrow> replicate n None | Some s \<Rightarrow> s) p))"

definition plugin_slot :: "plugin list \<Rightarrow> (plugin \<Rightarrow> hook option) \<Rightarrow> plugin option list option" where
  "plugin_slot ps sel = fold (add_to_slot (length ps) sel) ps None"

fun call_slot :: "(plugin \<Rightarrow> hook option) \<Rightarrow> plugin option list \<Rightarrow> server \<Rightarrow> connection \<Rightarrow> (handler_t \<times> server \<times> connection) option" where
  "call_slot sel [] srv con = Some (HANDLER_GO_ON, srv, con)"
| "call_slot sel (None # s) srv con = Some (HANDLER_GO_ON, srv, con)"
| "call_slot sel (Some p # s) srv con = do {
     f \<leftarrow> sel p;
     let (r, srv, con) = f srv con;
     if r = HANDLER_GO_ON then call_slot sel s srv con
     else if r = HANDLER_UNSET then Some (HANDLER_ERROR, srv, con)
     else Some (r, srv, con) }"

definition plugins_call :: "(plugin \<Rightarrow> hook option) \<Rightarrow> plugin list \<Rightarrow> server \<Rightarrow> connection \<Rightarrow> (handler_t \<times> server \<times> connection) option" where
  "plugins_call sel ps srv con = (case plugin_slot ps sel of
       None \<Rightarrow> Some (HANDLER_GO_ON, srv, con)
     | Some s \<Rightarrow> call_slot sel s srv con)"

section \<open>What a call does\<close>

text \<open>The hooks are asked in the order of the plugins, up to the first that does not say to go on.\<close>

fun ask_hooks :: "hook list \<Rightarrow> server \<Rightarrow> connection \<Rightarrow> handler_t \<times> server \<times> connection" where
  "ask_hooks [] srv con = (HANDLER_GO_ON, srv, con)"
| "ask_hooks (f # fs) srv con = (let (r, srv, con) = f srv con in
     if r = HANDLER_GO_ON then ask_hooks fs srv con
     else (if r = HANDLER_UNSET then HANDLER_ERROR else r, srv, con))"

definition hooks_of :: "(plugin \<Rightarrow> hook option) \<Rightarrow> plugin list \<Rightarrow> hook list" where
  "hooks_of sel ps = List.map_filter sel ps"

lemma fill_slot_ok: "fill_slot (map Some qs @ replicate (Suc k) None) p = map Some (qs @ [p]) @ replicate k None"
  by (induction qs) auto

lemma slot_after:
  assumes "length ps \<le> n"
  shows "fold (add_to_slot n sel) ps None = (let qs = filter (\<lambda>p. sel p \<noteq> None) ps in
     if qs = [] then None else Some (map Some qs @ replicate (n - length qs) None))"
  using assms
proof (induction ps rule: rev_induct)
  case (snoc p ps)
  let ?qs = "filter (\<lambda>p. sel p \<noteq> None) ps"
  have "length ?qs < n" using length_filter_le[of "\<lambda>p. sel p \<noteq> None" ps] snoc.prems by (simp del: length_filter_le)
  then obtain k where k: "n - length ?qs = Suc k" "n - Suc (length ?qs) = k" by (metis Suc_diff_Suc)
  show ?case
  proof (cases "sel p = None")
    case True
    with snoc show ?thesis by (simp add: add_to_slot_def)
  next
    case False
    obtain m where m: "n = Suc m" using snoc.prems by (cases n) auto
    show ?thesis
    proof (cases "?qs = []")
      case True
      with False snoc fill_slot_ok[of "[]" m p] m show ?thesis by (simp add: add_to_slot_def)
    next
      case ne: False
      with False snoc fill_slot_ok[of ?qs k p] k show ?thesis by (simp add: add_to_slot_def Let_def)
    qed
  qed
qed simp

lemma call_slot_ok:
  assumes "list_all (\<lambda>p. sel p \<noteq> None) qs"
  shows "call_slot sel (map Some qs @ replicate k None) srv con = Some (ask_hooks (map (the \<circ> sel) qs) srv con)"
  using assms
proof (induction qs arbitrary: srv con)
  case Nil
  then show ?case by (cases k) auto
next
  case (Cons p qs)
  then show ?case by (auto simp: Let_def split: prod.splits)
qed

lemma plugins_call_ok: "plugins_call sel ps srv con = Some (ask_hooks (hooks_of sel ps) srv con)"
proof -
  let ?qs = "filter (\<lambda>p. sel p \<noteq> None) ps"
  have hooks: "hooks_of sel ps = map (the \<circ> sel) ?qs"
    unfolding hooks_of_def by (induction ps) (auto simp: List.map_filter_simps split: option.splits)
  have all: "list_all (\<lambda>p. sel p \<noteq> None) ?qs" by (simp add: list_all_iff)
  show ?thesis
    unfolding plugins_call_def plugin_slot_def slot_after[OF order_refl] hooks Let_def
    using call_slot_ok[OF all] by simp
qed


text \<open>
  C24: a call of the plugins asks exactly the plugins that have the hook, in the order they were loaded,
  and stops at the first that does not let the request go on.
\<close>

theorem plugins_call_in_order: "plugins_call sel ps srv con = Some (ask_hooks (hooks_of sel ps) srv con)"
  by (rule plugins_call_ok)

end
