(* ===== verification/ResponseHeader.thy ===== *)
theory ResponseHeader
  imports Network HttpChunk BufferCodec Plugin
begin

text \<open>
  The header of a response: \<open>http-header-glue.c\<close>, the tags of \<open>etag.c\<close>, and
  \<open>http_response_write_header\<close> of \<open>response.c\<close>.  The formatted dates and the reading of dates are
  parameters: \<open>http_date\<close> is \<open>strftime\<close> on \<open>gmtime\<close>, \<open>read_date\<close> is \<open>strptime\<close> with \<open>mktime\<close>.
\<close>

section \<open>The header list\<close>

text \<open>\<open>buffer_copy_string_len\<close> into a buffer: a null pointer leaves the buffer as it is.\<close>

definition copied :: "char list option \<Rightarrow> char list \<Rightarrow> char list" where
  "copied s b = (case s of None \<Rightarrow> b | Some s \<Rightarrow> terminated s)"

definition response_header_insert :: "char list \<Rightarrow> char list option \<Rightarrow> connection \<Rightarrow> connection option" where
  "response_header_insert name value con = do {
     let (ds, hs) = unused_or data_response_init (resp_headers (response con));
     v \<leftarrow> string_value ds;
     ds \<leftarrow> set_string (ds\<lparr>key := terminated name\<rparr>) (copied value v);
     (_, hs) \<leftarrow> array_insert_unique hs ds;
     Some (upd_resp (\<lambda>r. r\<lparr>resp_headers := hs\<rparr>) con) }"

text \<open>The value of an element found is overwritten up to the first NUL.\<close>

definition response_header_overwrite :: "char list \<Rightarrow> char list option \<Rightarrow> connection \<Rightarrow> connection option" where
  "response_header_overwrite name value con = do {
     (i, _) \<leftarrow> array_get_index (resp_headers (response con)) (terminated name);
     if i \<noteq> -1 then do {
       ds \<leftarrow> element_at (resp_headers (response con)) (nat i);
       v \<leftarrow> string_value ds;
       ds \<leftarrow> set_string ds (copied (map_option cstr value) v);
       Some (upd_resp (\<lambda>r. r\<lparr>resp_headers := (resp_headers r)\<lparr>adata := (adata (resp_headers r))[nat i := Some ds]\<rparr>\<rparr>) con) }
     else response_header_insert name value con }"

text \<open>
  The URL of a directory, with its slash.  \<open>own_name\<close> is the name of the connected socket: none if
  \<open>getsockname\<close> fails, or its address family (\<open>None\<close> if unknown) with the name looked up.
\<close>

definition http_response_redirect_to_directory :: "server \<Rightarrow> char list option option \<Rightarrow> connection \<Rightarrow> (int \<times> connection) option" where
  "http_response_redirect_to_directory srv own_name con = do {
     let scheme = (if is_ssl (conf con) then ''https://'' else ''http://'');
     let default_port = (\<not> is_ssl (conf con) \<and> srv_port srv = 80 \<or> is_ssl (conf con) \<and> srv_port srv = 443);
     let tail = butlast (uri_path (con_uri con)) @ ''/'' @
       (if query (con_uri con) = [] then [] else CHR ''?'' # butlast (query (con_uri con)));
     let host = (if authority (con_uri con) \<noteq> [] then Some (Some (butlast (authority (con_uri con))))
       else map_option (map_option (\<lambda>h. h @ (if default_port then [] else CHR '':'' # decimal (int (srv_port srv))))) own_name);
     case host of
       None \<Rightarrow> Some (0, con\<lparr>http_status := 500\<rparr>)
     | Some None \<Rightarrow> Some (-1, con)
     | Some (Some h) \<Rightarrow> do {
         con \<leftarrow> response_header_insert ''Location'' (Some (scheme @ h @ tail)) con;
         Some (0, con\<lparr>http_status := 301, file_finished := True\<rparr>) } }"

section \<open>Formatted dates\<close>

definition FILE_CACHE_MAX :: nat where "FILE_CACHE_MAX = 16"

text \<open>The first slot that holds the time, or that is free.\<close>

fun cache_slot :: "(int \<times> char list) list \<Rightarrow> int \<Rightarrow> nat \<Rightarrow> nat" where
  "cache_slot [] t i = i"
| "cache_slot ((m, s) # cs) t i = (if m = t \<or> m = 0 then i else cache_slot cs t (i + 1))"

definition strftime_cache_get :: "(int \<Rightarrow> char list) \<Rightarrow> server \<Rightarrow> int \<Rightarrow> (char list \<times> server) option" where
  "strftime_cache_get http_date srv last_mod = do {
     guard (length (mtime_cache srv) = FILE_CACHE_MAX);
     let i = cache_slot (mtime_cache srv) last_mod 0;
     if i < FILE_CACHE_MAX \<and> fst (mtime_cache srv ! i) = last_mod then Some (snd (mtime_cache srv ! i), srv)
     else
       let i = (if i = FILE_CACHE_MAX then 0 else i); s = terminated (http_date last_mod)
       in Some (s, srv\<lparr>mtime_cache := (mtime_cache srv)[i := (last_mod, s)]\<rparr>) }"

section \<open>Entity tags\<close>

text \<open>A buffer that was never used has no bytes to compare.\<close>

definition etag_is_equal :: "char list \<Rightarrow> char list \<Rightarrow> bool" where
  "etag_is_equal etag matches \<longleftrightarrow> etag \<noteq> [] \<and> cstr etag = matches"

record file_stat =
  st_ino :: int
  st_size :: int
  st_mtime :: int



definition etag_create :: "char list \<Rightarrow> file_stat \<Rightarrow> etag_flags \<Rightarrow> char list" where
  "etag_create etag st flags =
     (if \<not> ETAG_USE_INODE flags \<and> \<not> ETAG_USE_MTIME flags \<and> \<not> ETAG_USE_SIZE flags then etag
      else
        let etag = [];
            etag = (if ETAG_USE_INODE flags then appended (appended etag (decimal (st_ino st))) ''-'' else etag);
            etag = (if ETAG_USE_SIZE flags then appended (appended etag (decimal (st_size st))) ''-'' else etag)
        in if ETAG_USE_MTIME flags then appended etag (decimal (st_mtime st)) else etag)"

text \<open>The hash is over every used byte, the terminator included, with \<open>char\<close> signed.\<close>

definition etag_hash :: "char list \<Rightarrow> 32 word" where
  "etag_hash etag = foldl (\<lambda>h c. (push_bit 5 h XOR drop_bit 27 h) XOR word_of_int (schar c)) 0 etag"

definition etag_mutate :: "char list \<Rightarrow> char list" where
  "etag_mutate etag = terminated (DQUOTE # decimal (uint (etag_hash etag)) @ [DQUOTE])"

section \<open>Conditional requests\<close>

text \<open>The part of a date header in front of a semicolon.\<close>

definition date_part :: "char list \<Rightarrow> char list" where
  "date_part h = takeWhile (\<lambda>c. c \<noteq> CHR '';'') h"

text \<open>
  The comparison of \<open>If-Modified-Since\<close> with the time of the file; \<open>too_long\<close> and \<open>unreadable\<close> are
  what is done with a date that does not fit the buffer or cannot be read.
\<close>

definition since_check :: "(char list \<Rightarrow> int option) \<Rightarrow> int option \<Rightarrow> char list \<Rightarrow> char list \<Rightarrow> connection \<Rightarrow> (handler_t \<times> connection) option" where
  "since_check read_date bad since mtime con = do {
     let d = date_part since;
     if is_prefix d (cstr mtime) then Some (HANDLER_FINISHED, con\<lparr>http_status := 304\<rparr>)
     else if length d \<ge> 30 then
       Some (case bad of Some s \<Rightarrow> (HANDLER_FINISHED, con\<lparr>http_status := s\<rparr>) | None \<Rightarrow> (HANDLER_GO_ON, con))
     else case read_date d of
       None \<Rightarrow> Some (case bad of Some s \<Rightarrow> (HANDLER_FINISHED, con\<lparr>http_status := s\<rparr>) | None \<Rightarrow> (HANDLER_GO_ON, con))
     | Some t_header \<Rightarrow> do {
         t_file \<leftarrow> read_date (cstr mtime);
         Some (if t_file > t_header then (HANDLER_GO_ON, con) else (HANDLER_FINISHED, con\<lparr>http_status := 304\<rparr>)) } }"

definition http_response_handle_cachable :: "(char list \<Rightarrow> int option) \<Rightarrow> char list \<Rightarrow> connection \<Rightarrow> (handler_t \<times> connection) option" where
  "http_response_handle_cachable read_date mtime con =
     (let q = req con in
      if http_if_none_match q \<noteq> Null then do {
        tag \<leftarrow> deref_string (headers q) (http_if_none_match q);
        if etag_is_equal (phys_etag (physical con)) tag then
          if http_method q = HTTP_METHOD_GET \<or> http_method q = HTTP_METHOD_HEAD then
            if http_if_modified_since q \<noteq> Null then do {
              since \<leftarrow> deref_string (headers q) (http_if_modified_since q);
              since_check read_date (Some 412) since mtime con }
            else Some (HANDLER_FINISHED, con\<lparr>http_status := 304\<rparr>)
          else Some (HANDLER_FINISHED, con\<lparr>http_status := 412\<rparr>)
        else Some (HANDLER_GO_ON, con) }
      else if http_if_modified_since q \<noteq> Null then do {
        since \<leftarrow> deref_string (headers q) (http_if_modified_since q);
        since_check read_date None since mtime con }
      else Some (HANDLER_GO_ON, con))"

section \<open>Writing the header\<close>

definition status_line :: "connection \<Rightarrow> char list" where
  "status_line con = (if http_version (req con) = HTTP_VERSION_1_1 then ''HTTP/1.1 '' else ''HTTP/1.0 '') @
     decimal (http_status con) @ '' '' @ (case get_http_status_name (http_status con) of None \<Rightarrow> [] | Some n \<Rightarrow> n)"

definition connection_line :: "connection \<Rightarrow> char list" where
  "connection_line con =
     (if http_version (req con) \<noteq> HTTP_VERSION_1_1 \<or> keep_alive con = 0
      then [CR, LF] @ ''Connection: '' @ (if keep_alive con \<noteq> 0 then ''keep-alive'' else ''close'') else [])"

definition transfer_line :: "connection \<Rightarrow> char list" where
  "transfer_line con = (if transfer_encoding (response con) then [CR, LF] @ ''Transfer-Encoding: chunked'' else [])"

text \<open>Headers without a value, and those only meant for the server itself, are not sent.\<close>

definition header_sent :: "char list \<Rightarrow> char list \<Rightarrow> bool" where
  "header_sent k v \<longleftrightarrow> v \<noteq> [] \<and> k \<noteq> [] \<and> \<not> is_prefix ''X-LIGHTTPD-'' (cstr k) \<and> \<not> is_prefix ''X-Sendfile'' (cstr k)"

fun header_lines_loop :: "unit data_unset option list \<Rightarrow> char list \<Rightarrow> bool \<Rightarrow> bool \<Rightarrow> (char list \<times> bool \<times> bool) option" where
  "header_lines_loop [] b have_date have_server = Some (b, have_date, have_server)"
| "header_lines_loop (d # ds) b have_date have_server = do {
     du \<leftarrow> d;
     v \<leftarrow> string_value du;
     if header_sent (key du) v then
       header_lines_loop ds (b @ [CR, LF] @ butlast (key du) @ '': '' @ butlast v)
         (have_date \<or> key du = terminated ''Date'') (have_server \<or> key du = terminated ''Server'')
     else header_lines_loop ds b have_date have_server }"

definition date_string :: "(int \<Rightarrow> char list) \<Rightarrow> server \<Rightarrow> server" where
  "date_string http_date srv =
     (if cur_ts srv \<noteq> last_generated_date_ts srv
      then srv\<lparr>ts_date_str := terminated (http_date (cur_ts srv)), last_generated_date_ts := cur_ts srv\<rparr>
      else srv)"

definition date_line :: "server \<Rightarrow> char list" where
  "date_line srv = [CR, LF] @ ''Date: '' @ butlast (ts_date_str srv)"

text \<open>The name and version of the package come from the build.\<close>

definition server_line :: "char list \<Rightarrow> connection \<Rightarrow> char list" where
  "server_line package con =
     [CR, LF] @ ''Server: '' @
       (if server_tag (conf con) = [] then package
        else concat (map (enc_bytes ENCODING_HTTP_HEADER encoded_chars_http_header) (butlast (server_tag (conf con)))))"

definition http_response_write_header ::
    "(int \<Rightarrow> char list) \<Rightarrow> char list \<Rightarrow> server \<Rightarrow> connection \<Rightarrow> (server \<times> connection) option" where
  "http_response_write_header http_date package srv con = do {
     (a, cq) \<leftarrow> chunkqueue_get_prepend_buffer (write_queue con);
     let b = status_line con @ connection_line con @ transfer_line con;
     let hs = resp_headers (response con);
     guard (a_used hs \<le> length (adata hs));
     (b, have_date, have_server) \<leftarrow> header_lines_loop (take (a_used hs) (adata hs)) b False False;
     let srv = (if have_date then srv else date_string http_date srv);
     let b = (if have_date then b else b @ date_line srv);
     let b = (if have_server then b else b @ server_line package con);
     let b = b @ [CR, LF, CR, LF];
     cq \<leftarrow> put_mem cq a (terminated b);
     Some (srv, con\<lparr>write_queue := cq, bytes_header := int (length b)\<rparr>) }"

section \<open>The lines of a header\<close>

text \<open>What a client does: it reads lines that end in CR LF up to an empty one.\<close>

fun read_line :: "char list \<Rightarrow> (char list \<times> char list) option" where
  "read_line (c # d # s) =
     (if c = CR \<and> d = LF then Some ([], s) else map_option (\<lambda>(l, r). (c # l, r)) (read_line (d # s)))"
| "read_line _ = None"

lemma read_line_shorter: "read_line s = Some (l, r) \<Longrightarrow> length r < length s"
  by (induction s arbitrary: l rule: read_line.induct) (auto split: if_splits)

function read_header :: "char list \<Rightarrow> (char list list \<times> char list) option" where
  "read_header s = (case read_line s of
       None \<Rightarrow> None
     | Some (l, r) \<Rightarrow> if l = [] then Some ([], r) else map_option (\<lambda>(ls, r). (l # ls, r)) (read_header r))"
  by pat_completeness auto
termination by (relation "measure length") (auto dest: read_line_shorter)

declare read_header.simps [simp del]

lemma read_line_ok: "CR \<notin> set l \<Longrightarrow> read_line (l @ CR # LF # s) = Some (l, s)"
proof (induction l)
  case (Cons c l)
  then show ?case by (cases l) auto
qed simp

definition line_ok :: "char list \<Rightarrow> bool" where
  "line_ok l \<longleftrightarrow> l \<noteq> [] \<and> CR \<notin> set l"

lemma read_header_lines:
  "list_all line_ok ls \<Longrightarrow> read_header (concat (map (\<lambda>l. l @ [CR, LF]) ls) @ [CR, LF] @ s) = Some (ls, s)"
proof (induction ls)
  case Nil
  show ?case by (subst read_header.simps) simp
next
  case (Cons l ls)
  then have "read_line (l @ CR # LF # concat (map (\<lambda>l. l @ [CR, LF]) ls) @ [CR, LF] @ s) =
      Some (l, concat (map (\<lambda>l. l @ [CR, LF]) ls) @ [CR, LF] @ s)" by (intro read_line_ok) (simp add: line_ok_def)
  with Cons show ?case by (subst read_header.simps) (simp add: line_ok_def)
qed

definition sent_value :: "unit data_unset option \<Rightarrow> (char list \<times> char list) option" where
  "sent_value d = do { du \<leftarrow> d; v \<leftarrow> string_value du; if header_sent (key du) v then Some (butlast (key du), butlast v) else None }"

definition sent_headers :: "unit data_unset option list \<Rightarrow> (char list \<times> char list) list" where
  "sent_headers ds = map the (filter (\<lambda>x. x \<noteq> None) (map sent_value ds))"

definition field :: "char list \<times> char list \<Rightarrow> char list" where
  "field h = fst h @ '': '' @ snd h"

definition sends_header :: "char list \<Rightarrow> unit data_unset option list \<Rightarrow> bool" where
  "sends_header name ds \<longleftrightarrow> (\<exists>du v. Some du \<in> set ds \<and> string_value du = Some v \<and> header_sent (key du) v \<and> key du = terminated name)"

lemma header_lines_loop_ok:
  assumes "list_all (\<lambda>d. \<exists>du. d = Some du \<and> is_string du) ds"
  shows "header_lines_loop ds b x y = Some (b @ concat (map (\<lambda>h. [CR, LF] @ field h) (sent_headers ds)),
     x \<or> sends_header ''Date'' ds, y \<or> sends_header ''Server'' ds)"
  using assms
proof (induction ds arbitrary: b x y)
  case Nil
  then show ?case by (simp add: sent_headers_def sends_header_def)
next
  case (Cons d ds)
  then obtain du v where d: "d = Some du" "string_value du = Some v" by (auto simp: is_string_def)
  have sh: "sends_header n (d # ds) \<longleftrightarrow> header_sent (key du) v \<and> key du = terminated n \<or> sends_header n ds" for n
    using d by (auto simp: sends_header_def)
  show ?case
  proof (cases "header_sent (key du) v")
    case True
    then have "sent_headers (d # ds) = (butlast (key du), butlast v) # sent_headers ds"
      using d by (simp add: sent_headers_def sent_value_def)
    with True d Cons sh show ?thesis by (simp add: field_def disj_assoc)
  next
    case False
    then have "sent_headers (d # ds) = sent_headers ds" using d by (simp add: sent_headers_def sent_value_def)
    with False d Cons sh show ?thesis by simp
  qed
qed

definition used_elements :: "header_array \<Rightarrow> unit data_unset option list" where
  "used_elements hs = take (a_used hs) (adata hs)"

lemma used_elements_ok: "filled hs \<Longrightarrow> list_all (\<lambda>d. \<exists>du. d = Some du \<and> is_string du) (used_elements hs)"
  using filledD(1,3,4)[of hs] by (auto simp: used_elements_def list_all_length)

text \<open>The lines of the header, the status line first.\<close>

definition response_lines :: "(int \<Rightarrow> char list) \<Rightarrow> char list \<Rightarrow> server \<Rightarrow> connection \<Rightarrow> char list list" where
  "response_lines http_date package srv con =
     (let ds = used_elements (resp_headers (response con)) in
      [status_line con] @
      (if http_version (req con) \<noteq> HTTP_VERSION_1_1 \<or> keep_alive con = 0
       then [''Connection: '' @ (if keep_alive con \<noteq> 0 then ''keep-alive'' else ''close'')] else []) @
      (if transfer_encoding (response con) then [''Transfer-Encoding: chunked''] else []) @
      map field (sent_headers ds) @
      (if sends_header ''Date'' ds then [] else [''Date: '' @ http_date (cur_ts srv)]) @
      (if sends_header ''Server'' ds then [] else [drop 2 (server_line package con)]))"

text \<open>The cached date belongs to the second it was made in.\<close>

definition date_cached :: "(int \<Rightarrow> char list) \<Rightarrow> server \<Rightarrow> bool" where
  "date_cached http_date srv \<longleftrightarrow> last_generated_date_ts srv = cur_ts srv \<longrightarrow> ts_date_str srv = terminated (http_date (cur_ts srv))"

lemma date_string_ok: "date_cached http_date srv \<Longrightarrow> ts_date_str (date_string http_date srv) = terminated (http_date (cur_ts srv)) \<and>
    date_cached http_date (date_string http_date srv)"
  by (auto simp: date_cached_def date_string_def)

lemma crlf_lines: "concat (map (\<lambda>l. [CR, LF] @ l) ls) @ [CR, LF] = [CR, LF] @ concat (map (\<lambda>l. l @ [CR, LF]) ls)"
  by (induction ls) auto

definition header_text :: "char list list \<Rightarrow> char list" where
  "header_text ls = concat (map (\<lambda>l. l @ [CR, LF]) ls) @ [CR, LF]"

lemma server_line_drop: "server_line package con = [CR, LF] @ drop 2 (server_line package con)"
  by (simp add: server_line_def)

lemma prepend_put_ok:
  assumes "cq_rep cq cs"
  shows "\<exists>a q c q'. chunkqueue_get_prepend_buffer cq = Some (a, q) \<and> put_mem q a m = Some q' \<and> cq_rep q' (c # cs) \<and>
     ctype c = MEM_CHUNK \<and> c_offset c = 0 \<and> c_mem c = m"
proof -
  let ?f = "\<lambda>c. c\<lparr>ctype := MEM_CHUNK, c_offset := 0, c_mem := []\<rparr>"
  obtain a q c as us where p: "add_first ?f cq = Some (a, q)" "shape q (a # as) us" "items q (a # as) = bare (?f c) # cs"
    using add_first_ok[OF assms, of ?f] by (auto simp: valid_def)
  obtain d q' where q: "get_chunk q a = Some d" "put_mem q a m = Some q'" "shape q' (a # as) us"
    "items q' (a # as) = (bare d)\<lparr>c_mem := m\<rparr> # items q as" using put_mem_ok[of q "[]" a as us m] p(2) by auto
  have "bare d = bare (?f c)" "items q as = cs" using p(3) q(1) by (auto simp: items_Cons get_chunk_iff)
  then have "cq_rep q' ((bare (?f c))\<lparr>c_mem := m\<rparr> # cs)" using q(3,4) by (auto simp: cq_rep_def)
  with p(1) q(2) show ?thesis by (fastforce simp: chunkqueue_get_prepend_buffer_def)
qed

lemma write_header_ok:
  assumes "filled (resp_headers (response con))" and "cq_rep (write_queue con) cs" and "date_cached http_date srv"
  shows "\<exists>srv' q c. http_response_write_header http_date package srv con =
       Some (srv', con\<lparr>write_queue := q, bytes_header := int (length (header_text (response_lines http_date package srv con)))\<rparr>) \<and>
     (srv' = srv \<or> srv' = date_string http_date srv) \<and> date_cached http_date srv' \<and>
     cq_rep q (c # cs) \<and> ctype c = MEM_CHUNK \<and> c_offset c = 0 \<and>
     c_mem c = terminated (header_text (response_lines http_date package srv con))"
proof -
  let ?hs = "resp_headers (response con)"
  let ?ds = "used_elements ?hs"
  let ?t = "header_text (response_lines http_date package srv con)"
  let ?srv = "if sends_header ''Date'' ?ds then srv else date_string http_date srv"
  obtain a q c q' where q: "chunkqueue_get_prepend_buffer (write_queue con) = Some (a, q)" "put_mem q a (terminated ?t) = Some q'"
    "cq_rep q' (c # cs)" "ctype c = MEM_CHUNK" "c_offset c = 0" "c_mem c = terminated ?t"
    using prepend_put_ok[OF assms(2)] by blast
  have len: "a_used ?hs \<le> length (adata ?hs)" using filledD(1,3)[OF assms(1)] by simp
  note loop = header_lines_loop_ok[OF used_elements_ok[OF assms(1)], unfolded used_elements_def]
  let ?h = "concat (map (\<lambda>h. [CR, LF] @ field h) (sent_headers ?ds))"
  let ?d = "if sends_header ''Date'' ?ds then [] else date_line ?srv" and ?s = "if sends_header ''Server'' ?ds then [] else server_line package con"
  let ?x = "status_line con @ connection_line con @ transfer_line con @ ?h @ ?d @ ?s"
  let ?ls = "tl (response_lines http_date package srv con)"
  have d: "?d = (if sends_header ''Date'' ?ds then [] else [CR, LF] @ ''Date: '' @ http_date (cur_ts srv))"
    using date_string_ok[OF assms(3)] by (simp add: date_line_def)
  have "?x = status_line con @ concat (map (\<lambda>l. [CR, LF] @ l) ?ls)"
    unfolding d using server_line_drop[of package con]
    by (auto simp: response_lines_def Let_def connection_line_def transfer_line_def comp_def)
  then have "?x @ [CR, LF] @ [CR, LF] = status_line con @ (concat (map (\<lambda>l. [CR, LF] @ l) ?ls) @ [CR, LF]) @ [CR, LF]" by simp
  also have "\<dots> = ?t" unfolding crlf_lines by (simp add: header_text_def response_lines_def Let_def)
  finally have x: "?x @ [CR, LF, CR, LF] = ?t" by simp
  have "http_response_write_header http_date package srv con = Some (?srv, con\<lparr>write_queue := q', bytes_header := int (length ?t)\<rparr>)"
    using q(1,2) len loop x
    by (cases "sends_header ''Date'' ?ds"; cases "sends_header ''Server'' ?ds")
      (simp_all add: http_response_write_header_def used_elements_def Let_def del: length_append of_nat_add)
  moreover have "date_cached http_date ?srv" using date_string_ok[OF assms(3)] assms(3) by auto
  ultimately show ?thesis using q by (intro exI[of _ ?srv] exI[of _ q'] exI[of _ c]) auto
qed

section \<open>A client reads the header back\<close>

definition clean :: "char list \<Rightarrow> bool" where
  "clean s \<longleftrightarrow> CR \<notin> set s"

lemma clean_append [simp]: "clean (s @ t) \<longleftrightarrow> clean s \<and> clean t"
  by (auto simp: clean_def)

lemma clean_decimal: "clean (decimal v)"
proof -
  have "CR \<notin> set digit_chars" by (simp add: digit_chars_def)
  then have "0 \<le> u \<Longrightarrow> CR \<notin> set (lsd u)" for u using lsd_digits[of u] by blast
  then show ?thesis by (auto simp: clean_def decimal_def)
qed

lemma clean_status_name: "get_http_status_name i = Some n \<Longrightarrow> clean n"
proof -
  have "list_all (\<lambda>(k, v). clean v) (entries Keyvalue.http_status)" by (simp add: Keyvalue.http_status_def clean_def)
  then show "get_http_status_name i = Some n \<Longrightarrow> clean n"
    by (auto simp: get_http_status_name_def status.value_entry list_all_iff)
qed

lemma clean_encoded: "clean s \<Longrightarrow> clean (concat (map (enc_bytes ENCODING_HTTP_HEADER encoded_chars_http_header) s))"
  by (induction s) (auto simp: clean_def enc_bytes_def)

definition clean_headers :: "connection \<Rightarrow> bool" where
  "clean_headers con \<longleftrightarrow> (\<forall>(k, v) \<in> set (sent_headers (used_elements (resp_headers (response con)))). clean k \<and> clean v) \<and>
     clean (server_tag (conf con))"

lemma response_lines_ok:
  assumes "clean_headers con" and "clean package" and "clean (http_date (cur_ts srv))"
  shows "list_all line_ok (response_lines http_date package srv con)"
proof -
  have 1: "line_ok l" if "clean l" "l \<noteq> []" for l using that by (simp add: line_ok_def clean_def)
  have "clean (status_line con)"
    using clean_decimal clean_status_name by (auto simp: status_line_def clean_def split: option.splits)
  moreover have "status_line con \<noteq> []" by (simp add: status_line_def)
  moreover have "clean (butlast (server_tag (conf con)))" using assms(1) by (auto simp: clean_headers_def clean_def dest: in_set_butlastD)
  then have "clean (drop 2 (server_line package con))"
    using assms(2) clean_encoded by (auto simp: server_line_def clean_def)
  moreover have "drop 2 (server_line package con) \<noteq> []" by (simp add: server_line_def)
  moreover have "list_all line_ok (map field (sent_headers (used_elements (resp_headers (response con)))))"
    using assms(1) by (auto simp: list_all_iff clean_headers_def field_def line_ok_def clean_def)
  moreover have "clean (''Date: '' @ http_date (cur_ts srv))" using assms(3) by (simp add: clean_def)
  ultimately show ?thesis by (auto simp: response_lines_def Let_def intro!: 1) (auto simp: clean_def)
qed

text \<open>
  C21: the header that is put in front of a response, when no header to be sent contains a carriage
  return, is read back by a client line by line: the status line, \<open>Connection\<close> and
  \<open>Transfer-Encoding\<close> where they apply, every header to be sent in its order, and \<open>Date\<close> and \<open>Server\<close>
  exactly if the headers do not have them; the body begins right behind.  The rest of the queue
  and of the connection stays as it was.
\<close>

theorem response_header_reads_back:
  assumes "filled (resp_headers (response con))" and "cq_rep (write_queue con) cs" and "date_cached http_date srv"
    and "clean_headers con" and "clean package" and "clean (http_date (cur_ts srv))"
  shows "\<exists>srv' q c t. http_response_write_header http_date package srv con =
       Some (srv', con\<lparr>write_queue := q, bytes_header := int (length t)\<rparr>) \<and>
     cq_rep q (c # cs) \<and> chunk_bytes fs c = t \<and>
     (\<forall>body. read_header (t @ body) = Some (response_lines http_date package srv con, body))"
proof -
  let ?t = "header_text (response_lines http_date package srv con)"
  obtain srv' q c where r: "http_response_write_header http_date package srv con =
       Some (srv', con\<lparr>write_queue := q, bytes_header := int (length ?t)\<rparr>)" "cq_rep q (c # cs)"
    "ctype c = MEM_CHUNK" "c_offset c = 0" "c_mem c = terminated ?t"
    using write_header_ok[OF assms(1-3), of package] by blast
  have "chunk_bytes fs c = ?t" using r(3-5) by (simp add: chunk_bytes_def terminated_def)
  moreover have "read_header (?t @ body) = Some (response_lines http_date package srv con, body)" for body
    using read_header_lines[OF response_lines_ok[where http_date = http_date and srv = srv, OF assms(4-6)], of body] by (simp add: header_text_def)
  ultimately show ?thesis using r(1,2) by blast
qed

theorem response_header_reads_back_witness:
  "\<exists>srv' q c t. http_response_write_header (\<lambda>_. ''Thu, 01 Jan 1970 00:00:01 GMT'') ''lighttpd/1.4.19'' (sample_server\<lparr>cur_ts := 1\<rparr>)
       (connection_init sample_server) = Some (srv', (connection_init sample_server)\<lparr>write_queue := q, bytes_header := int (length t)\<rparr>) \<and>
     cq_rep q (c # []) \<and> chunk_bytes (\<lambda>_. []) c = t \<and>
     (\<forall>body. read_header (t @ body) = Some (response_lines (\<lambda>_. ''Thu, 01 Jan 1970 00:00:01 GMT'') ''lighttpd/1.4.19''
        (sample_server\<lparr>cur_ts := 1\<rparr>) (connection_init sample_server), body))"
proof (rule response_header_reads_back)
  show "filled (resp_headers (response (connection_init sample_server)))" using con_ok_init by (simp add: con_ok_def)
  show "cq_rep (write_queue (connection_init sample_server)) []"
    using init_rep by (simp add: connection_init_def config_setup_connection_def)
  show "clean_headers (connection_init sample_server)"
    by (simp add: clean_headers_def connection_init_def config_setup_connection_def sent_headers_def used_elements_def array_init_def
        sample_server_def clean_def)
qed (simp_all add: date_cached_def sample_server_def clean_def)

section \<open>Dates and conditional requests\<close>

text \<open>Every slot in use holds the text of its time.\<close>

definition dates_cached :: "(int \<Rightarrow> char list) \<Rightarrow> server \<Rightarrow> bool" where
  "dates_cached http_date srv \<longleftrightarrow> length (mtime_cache srv) = FILE_CACHE_MAX \<and>
     list_all (\<lambda>(m, s). m = 0 \<or> s = terminated (http_date m)) (mtime_cache srv)"

lemma cache_slot_ok: "i \<le> cache_slot cs t i \<and> cache_slot cs t i \<le> i + length cs \<and>
    (cache_slot cs t i < i + length cs \<longrightarrow> fst (cs ! (cache_slot cs t i - i)) \<in> {t, 0})"
proof (induction cs t i rule: cache_slot.induct)
  case (2 m s cs t i)
  show ?case
  proof (cases "m = t \<or> m = 0")
    case False
    let ?k = "cache_slot cs t (i + 1)"
    have "?k - i = Suc (?k - (i + 1))" using 2 False by linarith
    with 2 False show ?thesis by simp
  qed simp
qed simp

text \<open>
  C22: \<open>strftime_cache_get\<close> returns the text of any time but 0 and keeps the cache right, whatever it
  held before.
\<close>

theorem strftime_cache_right:
  assumes "dates_cached http_date srv" and "t \<noteq> 0"
  shows "valid (strftime_cache_get http_date srv t) (\<lambda>(s, srv'). s = terminated (http_date t) \<and> dates_cached http_date srv')"
proof -
  let ?cs = "mtime_cache srv"
  let ?i = "cache_slot ?cs t 0"
  have len: "length ?cs = FILE_CACHE_MAX" and all: "list_all (\<lambda>(m, s). m = 0 \<or> s = terminated (http_date m)) ?cs"
    using assms(1) by (simp_all add: dates_cached_def)
  have keep: "dates_cached http_date (srv\<lparr>mtime_cache := ?cs[j := (t, terminated (http_date t))]\<rparr>)" for j
    using len all set_update_subset_insert[of ?cs j "(t, terminated (http_date t))"]
    by (auto simp: dates_cached_def list_all_iff)
  show ?thesis
  proof (cases "?i < FILE_CACHE_MAX \<and> fst (?cs ! ?i) = t")
    case True
    then have "(\<lambda>(m, s). m = 0 \<or> s = terminated (http_date m)) (?cs ! ?i)" using all len by (simp add: list_all_length)
    with True assms have "snd (?cs ! ?i) = terminated (http_date t)" by (auto simp: case_prod_unfold)
    with True len assms(1) show ?thesis by (simp add: strftime_cache_get_def)
  next
    case False
    then show ?thesis using len keep by (auto simp: strftime_cache_get_def Let_def)
  qed
qed

theorem strftime_cache_right_witness:
  "valid (strftime_cache_get (\<lambda>_. ''x'') sample_server 5) (\<lambda>(s, srv'). s = terminated ''x'' \<and> dates_cached (\<lambda>_. ''x'') srv')"
  by (rule strftime_cache_right) (simp_all add: dates_cached_def sample_server_def FILE_CACHE_MAX_def list_all_iff)

text \<open>The time 0 is taken for a free slot, whose buffer was never used.\<close>

lemma epoch_has_no_text: "strftime_cache_get http_date sample_server 0 = Some ([], sample_server)"
  by (simp add: strftime_cache_get_def sample_server_def FILE_CACHE_MAX_def numeral_eq_Suc guard_def)

text \<open>An \<open>If-Modified-Since\<close> that is empty in front of its semicolon matches every file.\<close>

lemma empty_date_matches: "since_check read_date bad (CHR '';'' # s) mtime con = Some (HANDLER_FINISHED, con\<lparr>http_status := 304\<rparr>)"
  by (simp add: since_check_def date_part_def is_prefix_def)

text \<open>If none of the entity tags match, the answer is never 304, as RFC 2616 demands.\<close>

lemma tag_mismatch_not_304:
  assumes "http_if_none_match (req con) \<noteq> Null" and "deref_string (headers (req con)) (http_if_none_match (req con)) = Some tag"
    and "\<not> etag_is_equal (phys_etag (physical con)) tag"
  shows "http_response_handle_cachable read_date mtime con = Some (HANDLER_GO_ON, con)"
  using assms by (simp add: http_response_handle_cachable_def Let_def)

section \<open>Setting headers\<close>

lemma header_insert_ok:
  assumes "filled (resp_headers (response con))" and "a_used (resp_headers (response con)) < INT_MAX"
  shows "\<exists>hs. response_header_insert name value con = Some (upd_resp (\<lambda>r. r\<lparr>resp_headers := hs\<rparr>) con) \<and> filled hs \<and>
     a_used hs \<le> a_used (resp_headers (response con)) + 1"
proof -
  let ?a = "resp_headers (response con)"
  obtain ds a' where u: "unused_or data_response_init ?a = (ds, a')" "filled a'" "is_string ds" "a_used a' = a_used ?a"
    using filled_unused_or[OF assms(1) is_string_init(2)] by metis
  obtain v where v: "string_value ds = Some v" using u(3) by (auto simp: is_string_def)
  obtain ds' where ds': "set_string (ds\<lparr>key := terminated name\<rparr>) (copied value v) = Some ds'" "is_string ds'"
    using set_string_ok[of "ds\<lparr>key := terminated name\<rparr>"] u(3) by auto
  from filled_insert_unique[OF u(2) ds'(2)] assms(2) u(4)
  obtain r hs where "array_insert_unique a' ds' = Some (r, hs)" "filled hs" "a_used hs \<le> a_used ?a + 1" by (auto simp: valid_def)
  with u(1) v ds'(1) show ?thesis by (auto simp: response_header_insert_def)
qed

lemma header_overwrite_ok:
  assumes "filled (resp_headers (response con))" and "a_used (resp_headers (response con)) < INT_MAX"
  shows "\<exists>hs. response_header_overwrite name value con = Some (upd_resp (\<lambda>r. r\<lparr>resp_headers := hs\<rparr>) con) \<and> filled hs \<and>
     a_used hs \<le> a_used (resp_headers (response con)) + 1"
proof -
  let ?a = "resp_headers (response con)"
  obtain i p where i: "array_get_index ?a (terminated name) = Some (i, p)" "i = -1 \<or> 0 \<le> i \<and> i < int (a_used ?a)"
    using filled_get_index[OF assms(1), of "terminated name"] by blast
  show ?thesis
  proof (cases "i = -1")
    case True
    with i(1) header_insert_ok[OF assms, of name "value"] show ?thesis by (simp add: response_header_overwrite_def)
  next
    case False
    with i(2) have n: "nat i < a_used ?a" by linarith
    then obtain ds where ds: "adata ?a ! nat i = Some ds" "is_string ds" using filledD(4)[OF assms(1)] by blast
    obtain v where v: "string_value ds = Some v" using ds(2) by (auto simp: is_string_def)
    obtain ds' where ds': "set_string ds (copied (map_option cstr value) v) = Some ds'" "is_string ds'"
      using set_string_ok[OF ds(2)] by blast
    have "element_at ?a (nat i) = Some ds" using n ds(1) filledD(1,3)[OF assms(1)] by (simp add: element_at_def)
    moreover have "filled (?a\<lparr>adata := (adata ?a)[nat i := Some ds']\<rparr>)" by (rule filled_update[OF assms(1) n ds'(2)])
    ultimately show ?thesis using i(1) False v ds'(1)
      by (auto simp: response_header_overwrite_def upd_resp_def intro!: exI[of _ "?a\<lparr>adata := (adata ?a)[nat i := Some ds']\<rparr>"])
  qed
qed

end
