(* ===== verification/Config.thy ===== *)
theory Config
  imports Connection
begin

text \<open>
  The conditions of the configuration, \<open>configfile-glue.c\<close>, and how the options of the contexts whose
  condition holds are merged into a connection, \<open>config_patch_connection\<close> of \<open>configfile.c\<close>.

  A context knows the contexts around it by their index: its parent, and the branches of the if-else
  chain it belongs to.  Whether a regular expression matches is a parameter, given by context.
\<close>

section \<open>What a condition looks at\<close>

definition sock_addr_get_port :: "sock_addr \<Rightarrow> nat option" where
  "sock_addr_get_port a = (case a of Inet _ p \<Rightarrow> Some p | Inet6 _ p \<Rightarrow> Some p | Other_Address \<Rightarrow> None)"

text \<open>\<open>buffer_is_equal\<close> on used bytes.\<close>

definition equal_bytes :: "char list \<Rightarrow> char list \<Rightarrow> bool" where
  "equal_bytes a b \<longleftrightarrow> length a = length b \<and> (a = [] \<or> cstr a = cstr b)"

text \<open>The string behind the address of a context, given the contexts from index 1 on.\<close>

definition context_at :: "server \<Rightarrow> nat \<Rightarrow> data_config option" where
  "context_at srv i = (if 1 \<le> i \<and> i \<le> length (contexts srv) then Some (fst (contexts srv ! (i - 1))) else None)"

definition header_value :: "connection \<Rightarrow> char list \<Rightarrow> buffer_ref option" where
  "header_value con name = do {
     (i, _) \<leftarrow> array_get_index (headers (req con)) (terminated name);
     Some (if i = -1 then Empty_String else Header_Value (nat i)) }"

definition buffer_of :: "server \<Rightarrow> connection \<Rightarrow> buffer_ref \<Rightarrow> char list option" where
  "buffer_of srv con r = (case r of
       Authority \<Rightarrow> Some (authority (con_uri con))
     | Check_Buf \<Rightarrow> Some (cond_check_buf srv)
     | Tmp_Buf \<Rightarrow> Some (tmp_buf srv)
     | Empty_String \<Rightarrow> Some [NUL]
     | Dst_Addr_Buf \<Rightarrow> Some (dst_addr_buf con)
     | Scheme \<Rightarrow> Some (scheme (con_uri con))
     | Uri_Path \<Rightarrow> Some (uri_path (con_uri con))
     | Uri_Query \<Rightarrow> Some (query (con_uri con))
     | Srv_Token s \<Rightarrow> if s < length (srv_sockets srv) then Some (srv_token (srv_sockets srv ! s)) else None
     | Header_Value s \<Rightarrow> element_at (headers (req con)) s \<bind> string_value)"

text \<open>A condition on the host name; with == and != the port is added to, or taken from, the name sent.\<close>

definition host_subject :: "data_config \<Rightarrow> server \<Rightarrow> connection \<Rightarrow> (buffer_ref \<times> server) option" where
  "host_subject dc srv con =
     (let l = authority (con_uri con) in
      if l = [] then Some (Empty_String, srv)
      else if dc_cond dc = CONFIG_COND_NE \<or> dc_cond dc = CONFIG_COND_EQ then do {
        guard (dc_string dc \<noteq> []);
        let ck_colon = (CHR '':'' \<in> set (cstr (dc_string dc)));
        let val_colon = (CHR '':'' \<in> set (cstr l));
        if \<not> ck_colon \<and> \<not> val_colon then Some (Authority, srv)
        else if ck_colon then do {
          s \<leftarrow> srv_socket con;
          guard (s < length (srv_sockets srv));
          p \<leftarrow> sock_addr_get_port (sock_address (srv_sockets srv ! s));
          Some (Check_Buf, srv\<lparr>cond_check_buf := terminated (butlast l @ '':'' @ decimal (int p))\<rparr>) }
        else Some (Check_Buf, srv\<lparr>cond_check_buf := terminated (takeWhile (\<lambda>c. c \<noteq> CHR '':'') l)\<rparr>) }
      else Some (Authority, srv))"

text \<open>
  A condition on the address of the client.  An address with a mask is decided here; \<open>inet_aton\<close> is
  the function of the C library.  The shift that builds the mask is defined for 2 to 32 bits only.
\<close>

datatype subject = Decided cond_result_t | Compare buffer_ref

definition decided :: "bool \<Rightarrow> data_config \<Rightarrow> cond_result_t" where
  "decided same dc = (if same = (dc_cond dc = CONFIG_COND_EQ) then COND_RESULT_TRUE else COND_RESULT_FALSE)"

definition net_mask :: "int \<Rightarrow> 32 word option" where
  "net_mask nm_bits = do {
     guard (1 < nm_bits \<and> nm_bits \<le> 32);
     Some (NOT (push_bit (nat (32 - nm_bits)) 1 - 1)) }"

definition remote_ip_subject :: "(char list \<Rightarrow> 32 word option) \<Rightarrow> data_config \<Rightarrow> server \<Rightarrow> connection \<Rightarrow> (subject \<times> server) option" where
  "remote_ip_subject inet_aton dc srv con =
     (case dst_addr con of
       Inet ip _ \<Rightarrow>
         if dc_cond dc = CONFIG_COND_EQ \<or> dc_cond dc = CONFIG_COND_NE then do {
           guard (dc_string dc \<noteq> []);
           let s = cstr (dc_string dc);
           if CHR ''/'' \<notin> set s then Some (Compare Dst_Addr_Buf, srv)
           else do {
             let bits = tl (dropWhile (\<lambda>c. c \<noteq> CHR ''/'') s);
             let (l, e) = c_strtol bits;
             let nm_bits = to_int32 l;
             if bits = [] \<or> e < length bits then Some (Decided COND_RESULT_FALSE, srv)
             else do {
               let srv = srv\<lparr>cond_check_buf := terminated (takeWhile (\<lambda>c. c \<noteq> CHR ''/'') s)\<rparr>;
               case inet_aton (takeWhile (\<lambda>c. c \<noteq> CHR ''/'') s) of
                 None \<Rightarrow> Some (Decided COND_RESULT_FALSE, srv)
               | Some val_inp \<Rightarrow> do {
                   nm \<leftarrow> net_mask nm_bits;
                   Some (Decided (decided (val_inp AND nm = ip AND nm) dc), srv) } } } }
         else Some (Compare Dst_Addr_Buf, srv)
     | _ \<Rightarrow> Some (Compare Dst_Addr_Buf, srv))"

definition cond_subject :: "(char list \<Rightarrow> 32 word option) \<Rightarrow> data_config \<Rightarrow> server \<Rightarrow> connection \<Rightarrow> (subject \<times> server) option" where
  "cond_subject inet_aton dc srv con = (case dc_comp dc of
       COMP_HTTP_HOST \<Rightarrow> map_option (\<lambda>(r, srv). (Compare r, srv)) (host_subject dc srv con)
     | COMP_HTTP_REMOTE_IP \<Rightarrow> remote_ip_subject inet_aton dc srv con
     | COMP_HTTP_SCHEME \<Rightarrow> Some (Compare Scheme, srv)
     | COMP_HTTP_URL \<Rightarrow> Some (Compare Uri_Path, srv)
     | COMP_HTTP_QUERY_STRING \<Rightarrow> Some (Compare Uri_Query, srv)
     | COMP_SERVER_SOCKET \<Rightarrow> map_option (\<lambda>s. (Compare (Srv_Token s), srv)) (srv_socket con)
     | COMP_HTTP_REFERER \<Rightarrow> map_option (\<lambda>r. (Compare r, srv)) (header_value con ''Referer'')
     | COMP_HTTP_COOKIE \<Rightarrow> map_option (\<lambda>r. (Compare r, srv)) (header_value con ''Cookie'')
     | COMP_HTTP_USER_AGENT \<Rightarrow> map_option (\<lambda>r. (Compare r, srv)) (header_value con ''User-Agent'')
     | COMP_HTTP_REQUEST_METHOD \<Rightarrow> Some (Compare Tmp_Buf, case get_http_method_name (http_method (req con)) of
           None \<Rightarrow> srv
         | Some m \<Rightarrow> srv\<lparr>tmp_buf := terminated m\<rparr>)
     | _ \<Rightarrow> Some (Decided COND_RESULT_FALSE, srv))"

section \<open>Deciding a condition\<close>

text \<open>
  \<open>pcre i s\<close> is what \<open>pcre_exec\<close> returns for the expression of context \<open>i\<close>: the number of matches,
  and their offsets.  The subject is \<open>None\<close> when the buffer is unused, for which the length passed
  is -1.
\<close>

type_synonym pcre = "nat \<Rightarrow> char list option \<Rightarrow> int \<times> int list"

definition set_cache :: "nat \<Rightarrow> (cond_cache_t \<Rightarrow> cond_cache_t) \<Rightarrow> connection \<Rightarrow> connection option" where
  "set_cache i f con = do {
     guard (i < length (cond_cache con));
     Some (con\<lparr>cond_cache := (cond_cache con)[i := f (cond_cache con ! i)]\<rparr>) }"

definition compare_subject :: "pcre \<Rightarrow> nat \<Rightarrow> data_config \<Rightarrow> buffer_ref \<Rightarrow> server \<Rightarrow> connection \<Rightarrow> (cond_result_t \<times> connection) option" where
  "compare_subject pcre i dc r srv con = do {
     l \<leftarrow> buffer_of srv con r;
     if dc_cond dc = CONFIG_COND_NE \<or> dc_cond dc = CONFIG_COND_EQ then
       Some (decided (equal_bytes l (dc_string dc)) dc, con)
     else if dc_cond dc = CONFIG_COND_NOMATCH \<or> dc_cond dc = CONFIG_COND_MATCH then do {
       let (n, ms) = pcre i (if l = [] then None else Some (butlast l));
       con \<leftarrow> set_cache i (\<lambda>c. c\<lparr>cc_matches := ms, cc_patterncount := n\<rparr>) con;
       con \<leftarrow> (if n > 0 then set_cache i (\<lambda>c. c\<lparr>cc_comp_value := Some r, cc_comp_type := dc_comp dc\<rparr>) con else Some con);
       Some (if (n > 0) = (dc_cond dc = CONFIG_COND_MATCH) then COND_RESULT_TRUE else COND_RESULT_FALSE, con) }
     else Some (COND_RESULT_FALSE, con) }"

definition cached_result :: "nat \<Rightarrow> connection \<Rightarrow> cond_result_t option" where
  "cached_result i con = (if i < length (cond_cache con) then Some (cc_result (cond_cache con ! i)) else None)"

text \<open>The remaining branches of the chain are set to false.\<close>

fun chain_false :: "nat \<Rightarrow> server \<Rightarrow> nat option \<Rightarrow> connection \<Rightarrow> connection option" where
  "chain_false fuel srv None con = Some con"
| "chain_false 0 srv (Some i) con = None"
| "chain_false (Suc fuel) srv (Some i) con = do {
     dc \<leftarrow> context_at srv i;
     con \<leftarrow> set_cache i (\<lambda>c. c\<lparr>cc_result := COND_RESULT_FALSE\<rparr>) con;
     chain_false fuel srv (dc_next dc) con }"

text \<open>
  The condition of a context, and its cached result.  Parents and earlier branches have smaller
  indices, so the index plus one is enough fuel.
\<close>

function config_check_cond_nocache :: "nat \<Rightarrow> (char list \<Rightarrow> 32 word option) \<Rightarrow> pcre \<Rightarrow> server \<Rightarrow> connection \<Rightarrow> nat \<Rightarrow>
      (cond_result_t \<times> server \<times> connection) option"
and config_check_cond_cached :: "nat \<Rightarrow> (char list \<Rightarrow> 32 word option) \<Rightarrow> pcre \<Rightarrow> server \<Rightarrow> connection \<Rightarrow> nat \<Rightarrow>
      (cond_result_t \<times> server \<times> connection) option" where
  "config_check_cond_nocache fuel inet_aton pcre srv con i = do {
     dc \<leftarrow> context_at srv i;
     (r, srv, con) \<leftarrow> (case dc_parent dc of
         None \<Rightarrow> Some (COND_RESULT_TRUE, srv, con)
       | Some p \<Rightarrow> if p = 0 then Some (COND_RESULT_TRUE, srv, con) else config_check_cond_cached fuel inet_aton pcre srv con p);
     if r \<noteq> COND_RESULT_TRUE then Some (r, srv, con)
     else do {
       (r, srv, con) \<leftarrow> (case dc_prev dc of
           None \<Rightarrow> Some (COND_RESULT_UNSET, srv, con)
         | Some p \<Rightarrow> do {
             (_, srv, con) \<leftarrow> config_check_cond_cached fuel inet_aton pcre srv con p;
             r \<leftarrow> cached_result i con;
             Some (r, srv, con) });
       if r = COND_RESULT_FALSE then Some (COND_RESULT_FALSE, srv, con)
       else if dc_comp dc \<notin> conditional_is_valid con then Some (COND_RESULT_UNSET, srv, con)
       else do {
         (s, srv) \<leftarrow> cond_subject inet_aton dc srv con;
         (case s of
           Decided r \<Rightarrow> Some (r, srv, con)
         | Compare b \<Rightarrow> do { (r, con) \<leftarrow> compare_subject pcre i dc b srv con; Some (r, srv, con) }) } } }"
| "config_check_cond_cached 0 inet_aton pcre srv con i = None"
| "config_check_cond_cached (Suc fuel) inet_aton pcre srv con i = do {
     r \<leftarrow> cached_result i con;
     if r \<noteq> COND_RESULT_UNSET then Some (r, srv, con)
     else do {
       dc \<leftarrow> context_at srv i;
       (r, srv, con) \<leftarrow> config_check_cond_nocache fuel inet_aton pcre srv con i;
       con \<leftarrow> set_cache i (\<lambda>c. c\<lparr>cc_result := r\<rparr>) con;
       con \<leftarrow> (if r = COND_RESULT_TRUE then chain_false (length (contexts srv)) srv (dc_next dc) con else Some con);
       con \<leftarrow> set_cache i (\<lambda>c. c\<lparr>cc_comp_type := dc_comp dc\<rparr>) con;
       r \<leftarrow> cached_result i con;
       Some (r, srv, con) } }"

  by pat_completeness auto
termination by (relation "measure (case_sum (\<lambda>(f, _). 2 * f + 1) (\<lambda>(f, _). 2 * f))") auto

declare config_check_cond_nocache.simps [simp del] config_check_cond_cached.simps [simp del]

definition config_check_cond :: "(char list \<Rightarrow> 32 word option) \<Rightarrow> pcre \<Rightarrow> server \<Rightarrow> connection \<Rightarrow> nat \<Rightarrow>
    (bool \<times> server \<times> connection) option" where
  "config_check_cond inet_aton pcre srv con i = do {
     (r, srv, con) \<leftarrow> config_check_cond_cached (i + 1) inet_aton pcre srv con i;
     Some (r = COND_RESULT_TRUE, srv, con) }"

section \<open>Resetting the cache\<close>

definition config_cond_cache_reset_item :: "server \<Rightarrow> connection \<Rightarrow> comp_key_t \<Rightarrow> connection option" where
  "config_cond_cache_reset_item srv con item = do {
     let n = length (contexts srv) + 1;
     guard (n \<le> length (cond_cache con));
     Some (con\<lparr>cond_cache := map (\<lambda>c. if item = COMP_LAST_ELEMENT \<or> cc_comp_type c = item
         then c\<lparr>cc_result := COND_RESULT_UNSET, cc_patterncount := 0, cc_comp_value := None\<rparr> else c) (take n (cond_cache con)) @
       drop n (cond_cache con)\<rparr>) }"

definition config_cond_cache_reset :: "server \<Rightarrow> connection \<Rightarrow> connection option" where
  "config_cond_cache_reset srv con = do {
     con \<leftarrow> config_cond_cache_reset_item srv con COMP_LAST_ELEMENT;
     Some (con\<lparr>conditional_is_valid := {}\<rparr>) }"

text \<open>The text of a group of the last match of a context, for rewriting.\<close>

definition config_append_cond_match_buffer :: "server \<Rightarrow> connection \<Rightarrow> nat \<Rightarrow> char list \<Rightarrow> nat \<Rightarrow> (int \<times> char list) option" where
  "config_append_cond_match_buffer srv con i b n = do {
     guard (i < length (cond_cache con));
     let cache = cond_cache con ! i;
     if int n > cc_patterncount cache then Some (0, b)
     else do {
       r \<leftarrow> cc_comp_value cache;
       l \<leftarrow> buffer_of srv con r;
       guard (2 * n + 1 < length (cc_matches cache));
       let from = cc_matches cache ! (2 * n);
       let len = cc_matches cache ! (2 * n + 1) - from;
       if len = 0 then Some (1, b)
       else do {
         guard (0 \<le> from \<and> 0 \<le> len \<and> from + len \<le> int (length l));
         Some (1, appended b (take (nat len) (drop (nat from) l))) } } }"

section \<open>Merging options\<close>

text \<open>One option of a context, taken from the configuration \<open>s\<close> and the server name \<open>name\<close> that hold in it.\<close>

definition patch_option :: "specific_config \<Rightarrow> char list \<Rightarrow> char list \<Rightarrow> connection \<Rightarrow> connection" where
  "patch_option s name k con =
     (if equal_bytes k (terminated ''server.document-root'') then upd_conf (\<lambda>c. c\<lparr>document_root := document_root s\<rparr>) con
      else if equal_bytes k (terminated ''server.range-requests'') then upd_conf (\<lambda>c. c\<lparr>range_requests := range_requests s\<rparr>) con
      else if equal_bytes k (terminated ''server.error-handler-404'') then upd_conf (\<lambda>c. c\<lparr>conf_error_handler := conf_error_handler s\<rparr>) con
      else if equal_bytes k (terminated ''server.errorfile-prefix'') then upd_conf (\<lambda>c. c\<lparr>errorfile_prefix := errorfile_prefix s\<rparr>) con
      else if equal_bytes k (terminated ''server.max-keep-alive-requests'') then upd_conf (\<lambda>c. c\<lparr>max_keep_alive_requests := max_keep_alive_requests s\<rparr>) con
      else if equal_bytes k (terminated ''server.max-keep-alive-idle'') then upd_conf (\<lambda>c. c\<lparr>max_keep_alive_idle := max_keep_alive_idle s\<rparr>) con
      else if equal_bytes k (terminated ''server.max-write-idle'') then upd_conf (\<lambda>c. c\<lparr>max_write_idle := max_write_idle s\<rparr>) con
      else if equal_bytes k (terminated ''server.max-read-idle'') then upd_conf (\<lambda>c. c\<lparr>max_read_idle := max_read_idle s\<rparr>) con
      else if equal_bytes k (terminated ''mimetype.use-xattr'') then upd_conf (\<lambda>c. c\<lparr>use_xattr := use_xattr s\<rparr>) con
      else if equal_bytes k (terminated ''etag.use-inode'') then upd_conf (\<lambda>c. c\<lparr>conf_etag_flags := (conf_etag_flags c)\<lparr>ETAG_USE_INODE := ETAG_USE_INODE (conf_etag_flags s)\<rparr>\<rparr>) con
      else if equal_bytes k (terminated ''etag.use-mtime'') then upd_conf (\<lambda>c. c\<lparr>conf_etag_flags := (conf_etag_flags c)\<lparr>ETAG_USE_MTIME := ETAG_USE_MTIME (conf_etag_flags s)\<rparr>\<rparr>) con
      else if equal_bytes k (terminated ''etag.use-size'') then upd_conf (\<lambda>c. c\<lparr>conf_etag_flags := (conf_etag_flags c)\<lparr>ETAG_USE_SIZE := ETAG_USE_SIZE (conf_etag_flags s)\<rparr>\<rparr>) con
      else if equal_bytes k (terminated ''ssl.engine'') then upd_conf (\<lambda>c. c\<lparr>is_ssl := is_ssl s\<rparr>) con
      else if equal_bytes k (terminated ''server.follow-symlink'') then upd_conf (\<lambda>c. c\<lparr>follow_symlink := follow_symlink s\<rparr>) con
      else if equal_bytes k (terminated ''server.name'') then con\<lparr>server_name := copy_bytes name\<rparr>
      else if equal_bytes k (terminated ''server.tag'') then upd_conf (\<lambda>c. c\<lparr>server_tag := server_tag s\<rparr>) con
      else if equal_bytes k (terminated ''connection.kbytes-per-second'') then upd_conf (\<lambda>c. c\<lparr>kbytes_per_second := kbytes_per_second s\<rparr>) con
      else if equal_bytes k (terminated ''server.protocol-http11'') then upd_conf (\<lambda>c. c\<lparr>allow_http11 := allow_http11 s\<rparr>) con
      else if equal_bytes k (terminated ''server.force-lowercase-filenames'') then upd_conf (\<lambda>c. c\<lparr>force_lowercase_filenames := force_lowercase_filenames s\<rparr>) con
      else if equal_bytes k (terminated ''server.kbytes-per-second'') then upd_conf (\<lambda>c. c\<lparr>global_kbytes_per_second := global_kbytes_per_second s,
           global_bytes_per_second_cnt_ptr := global_bytes_per_second_cnt_ptr s\<rparr>) con
      else con)"

text \<open>The contexts from index \<open>i\<close> on.\<close>

fun patch_contexts :: "(char list \<Rightarrow> 32 word option) \<Rightarrow> pcre \<Rightarrow> comp_key_t \<Rightarrow> (data_config \<times> specific_config \<times> char list) list \<Rightarrow> nat \<Rightarrow>
    server \<Rightarrow> connection \<Rightarrow> (server \<times> connection) option" where
  "patch_contexts inet_aton pcre stage [] i srv con = Some (srv, con)"
| "patch_contexts inet_aton pcre stage ((dc, s, name) # cs) i srv con =
     (if dc_comp dc \<noteq> stage then patch_contexts inet_aton pcre stage cs (i + 1) srv con
      else do {
        (ok, srv, con) \<leftarrow> config_check_cond inet_aton pcre srv con i;
        patch_contexts inet_aton pcre stage cs (i + 1) srv (if ok then fold (patch_option s name) (dc_keys dc) con else con) })"

definition config_patch_connection ::
    "(char list \<Rightarrow> 32 word option) \<Rightarrow> pcre \<Rightarrow> server \<Rightarrow> connection \<Rightarrow> comp_key_t \<Rightarrow> (server \<times> connection) option" where
  "config_patch_connection inet_aton pcre srv con stage = do {
     let con = con\<lparr>conditional_is_valid := insert stage (conditional_is_valid con)\<rparr>;
     (srv, con) \<leftarrow> patch_contexts inet_aton pcre stage (contexts srv) 1 srv con;
     Some (srv, con\<lparr>con_etag_flags := conf_etag_flags (conf con)\<rparr>) }"

section \<open>What the conditions mean\<close>

text \<open>The verdict of the comparison of a context itself, whatever surrounds it.\<close>

definition verdict :: "pcre \<Rightarrow> nat \<Rightarrow> data_config \<Rightarrow> char list \<Rightarrow> cond_result_t" where
  "verdict pcre i dc l =
     (if dc_cond dc = CONFIG_COND_NE \<or> dc_cond dc = CONFIG_COND_EQ then decided (equal_bytes l (dc_string dc)) dc
      else if dc_cond dc = CONFIG_COND_NOMATCH \<or> dc_cond dc = CONFIG_COND_MATCH then
        if (fst (pcre i (if l = [] then None else Some (butlast l))) > 0) = (dc_cond dc = CONFIG_COND_MATCH)
        then COND_RESULT_TRUE else COND_RESULT_FALSE
      else COND_RESULT_FALSE)"

definition own_verdict :: "(char list \<Rightarrow> 32 word option) \<Rightarrow> pcre \<Rightarrow> server \<Rightarrow> connection \<Rightarrow> nat \<Rightarrow> cond_result_t option" where
  "own_verdict inet_aton pcre srv con i = do {
     dc \<leftarrow> context_at srv i;
     (s, srv') \<leftarrow> cond_subject inet_aton dc srv con;
     case s of Decided r \<Rightarrow> Some r | Compare b \<Rightarrow> do { l \<leftarrow> buffer_of srv' con b; Some (verdict pcre i dc l) } }"

text \<open>The branch behind a context in its if-else chain.\<close>

definition next_branch :: "server \<Rightarrow> nat \<Rightarrow> nat \<Rightarrow> bool" where
  "next_branch srv i j \<longleftrightarrow> (\<exists>dc. context_at srv i = Some dc \<and> dc_next dc = Some j)"

text \<open>
  A context applies if its own condition does, its parent applies, and no earlier branch of its chain does.
\<close>

function applies :: "(nat \<Rightarrow> bool) \<Rightarrow> server \<Rightarrow> nat \<Rightarrow> bool" where
  "applies own srv i \<longleftrightarrow> own i \<and>
     (\<forall>dc p. context_at srv i = Some dc \<longrightarrow> dc_parent dc = Some p \<longrightarrow> p \<noteq> 0 \<longrightarrow> (if p < i then applies own srv p else False)) \<and>
     (\<forall>j. (next_branch srv)\<^sup>+\<^sup>+ j i \<longrightarrow> j < i \<longrightarrow> \<not> applies own srv j)"
  by pat_completeness auto
termination by (relation "measure (\<lambda>(_, _, i). i)") auto

declare applies.simps [simp del]

text \<open>
  How the parser of the configuration links the contexts: everything points backwards but \<open>next\<close>, which
  is the inverse of \<open>prev\<close>, and the branches of a chain have the same parent.
\<close>

definition chains_ok :: "server \<Rightarrow> bool" where
  "chains_ok srv \<longleftrightarrow> (\<forall>i dc. context_at srv i = Some dc \<longrightarrow>
     (\<forall>p. dc_parent dc = Some p \<longrightarrow> p < i \<and> (p = 0 \<or> context_at srv p \<noteq> None)) \<and>
     (\<forall>p. dc_prev dc = Some p \<longrightarrow> p < i \<and> (\<exists>d. context_at srv p = Some d \<and> dc_next d = Some i \<and> dc_parent d = dc_parent dc)) \<and>
     (\<forall>p. dc_next dc = Some p \<longrightarrow> i < p \<and> (\<exists>d. context_at srv p = Some d \<and> dc_prev d = Some i)))"

lemma context_at_bound: "context_at srv i = Some dc \<Longrightarrow> 1 \<le> i \<and> i \<le> length (contexts srv)"
  by (simp add: context_at_def split: if_splits)

lemma next_less: "chains_ok srv \<Longrightarrow> next_branch srv i j \<Longrightarrow> i < j"
  unfolding chains_ok_def next_branch_def by blast

lemma next_branch_less: "chains_ok srv \<Longrightarrow> (next_branch srv)\<^sup>+\<^sup>+ i j \<Longrightarrow> i < j"
  by (erule tranclp.induct) (use next_less order.strict_trans in blast)+

lemma next_branch_parent: "chains_ok srv \<Longrightarrow> next_branch srv i j \<Longrightarrow>
    \<exists>dc d. context_at srv i = Some dc \<and> context_at srv j = Some d \<and> dc_parent dc = dc_parent d \<and> dc_prev d = Some i"
proof -
  assume w: "chains_ok srv" and "next_branch srv i j"
  then obtain dc d where *: "context_at srv i = Some dc" "dc_next dc = Some j" "context_at srv j = Some d" "dc_prev d = Some i"
    unfolding next_branch_def chains_ok_def by blast
  with w obtain dc' where "context_at srv i = Some dc'" "dc_parent dc' = dc_parent d" unfolding chains_ok_def by blast
  with * show ?thesis by auto
qed

lemma chain_parent: "chains_ok srv \<Longrightarrow> (next_branch srv)\<^sup>+\<^sup>+ i j \<Longrightarrow>
    \<exists>dc d. context_at srv i = Some dc \<and> context_at srv j = Some d \<and> dc_parent dc = dc_parent d"
proof (erule tranclp.induct)
  fix a b c
  assume w: "chains_ok srv" and "\<exists>dc d. context_at srv a = Some dc \<and> context_at srv b = Some d \<and> dc_parent dc = dc_parent d"
    and "next_branch srv b c"
  with next_branch_parent[OF w, of b c] show "\<exists>dc d. context_at srv a = Some dc \<and> context_at srv c = Some d \<and> dc_parent dc = dc_parent d"
    by auto
qed (use next_branch_parent in blast)

text \<open>Being earlier in the chain, seen from the previous branch.\<close>

lemma earlier_prev:
  assumes "chains_ok srv" and "context_at srv i = Some dc"
  shows "(next_branch srv)\<^sup>+\<^sup>+ j i \<longleftrightarrow> (\<exists>p. dc_prev dc = Some p \<and> (j = p \<or> (next_branch srv)\<^sup>+\<^sup>+ j p))"
proof
  assume "(next_branch srv)\<^sup>+\<^sup>+ j i"
  then show "\<exists>p. dc_prev dc = Some p \<and> (j = p \<or> (next_branch srv)\<^sup>+\<^sup>+ j p)"
    by (cases rule: tranclp.cases) (use next_branch_parent[OF assms(1)] assms(2) in fastforce)+
next
  assume "\<exists>p. dc_prev dc = Some p \<and> (j = p \<or> (next_branch srv)\<^sup>+\<^sup>+ j p)"
  then obtain p where p: "dc_prev dc = Some p" "j = p \<or> (next_branch srv)\<^sup>+\<^sup>+ j p" by blast
  then have "next_branch srv p i" using assms unfolding chains_ok_def next_branch_def by blast
  with p(2) show "(next_branch srv)\<^sup>+\<^sup>+ j i" by (auto intro: tranclp.trancl_into_trancl)
qed

lemma applies_iff:
  assumes "chains_ok srv" and "context_at srv i = Some dc"
  shows "applies own srv i \<longleftrightarrow> own i \<and> (\<forall>p. dc_parent dc = Some p \<longrightarrow> p \<noteq> 0 \<longrightarrow> applies own srv p) \<and>
     (\<forall>j. (next_branch srv)\<^sup>+\<^sup>+ j i \<longrightarrow> \<not> applies own srv j)"
proof -
  have "p < i" if "dc_parent dc = Some p" for p using assms that unfolding chains_ok_def by blast
  moreover have "j < i" if "(next_branch srv)\<^sup>+\<^sup>+ j i" for j using next_branch_less[OF assms(1) that] .
  ultimately show ?thesis using assms(2) by (subst applies.simps) auto
qed

lemma later_next:
  assumes "chains_ok srv" and "context_at srv i = Some dc"
  shows "(next_branch srv)\<^sup>+\<^sup>+ i k \<longleftrightarrow> (\<exists>q. dc_next dc = Some q \<and> (k = q \<or> (next_branch srv)\<^sup>+\<^sup>+ q k))"
proof
  have nx: "next_branch srv i q \<longleftrightarrow> dc_next dc = Some q" for q using assms(2) by (simp add: next_branch_def)
  assume l: "(next_branch srv)\<^sup>+\<^sup>+ i k"
  show "\<exists>q. dc_next dc = Some q \<and> (k = q \<or> (next_branch srv)\<^sup>+\<^sup>+ q k)"
    by (rule converse_tranclpE[OF l]) (simp_all add: nx)
next
  assume "\<exists>q. dc_next dc = Some q \<and> (k = q \<or> (next_branch srv)\<^sup>+\<^sup>+ q k)"
  then obtain q where q: "dc_next dc = Some q" "k = q \<or> (next_branch srv)\<^sup>+\<^sup>+ q k" by blast
  then have "next_branch srv i q" using assms(2) by (simp add: next_branch_def)
  with q(2) show "(next_branch srv)\<^sup>+\<^sup>+ i k" by (auto intro: tranclp_into_tranclp2)
qed

lemma chain_linear:
  assumes "chains_ok srv" and "context_at srv k = Some dc" and "(next_branch srv)\<^sup>+\<^sup>+ i k" and "(next_branch srv)\<^sup>+\<^sup>+ j k"
  shows "i = j \<or> (next_branch srv)\<^sup>+\<^sup>+ i j \<or> (next_branch srv)\<^sup>+\<^sup>+ j i"
  using assms(2-4)
proof (induction k arbitrary: dc rule: less_induct)
  case (less k)
  obtain p where p: "dc_prev dc = Some p" "i = p \<or> (next_branch srv)\<^sup>+\<^sup>+ i p" using earlier_prev[OF assms(1) less.prems(1)] less.prems(2) by blast
  have q: "j = p \<or> (next_branch srv)\<^sup>+\<^sup>+ j p" using earlier_prev[OF assms(1) less.prems(1)] less.prems(3) p(1) by auto
  obtain d where "context_at srv p = Some d" "p < k" using assms(1) less.prems(1) p(1) unfolding chains_ok_def by blast
  with less.IH p(2) q show ?case by blast
qed

section \<open>The cache agrees with the meaning\<close>

definition result_at :: "cond_cache_t list \<Rightarrow> nat \<Rightarrow> cond_result_t" where
  "result_at cc i = cc_result (cc ! i)"

text \<open>
  What is cached is right, and behind a branch that applies either nothing is decided or, as soon as
  that branch is, everything.
\<close>

definition cache_ok :: "(nat \<Rightarrow> bool) \<Rightarrow> server \<Rightarrow> cond_cache_t list \<Rightarrow> bool" where
  "cache_ok H srv cc \<longleftrightarrow> length (contexts srv) < length cc \<and> (\<forall>i. context_at srv i \<noteq> None \<longrightarrow>
     (result_at cc i = COND_RESULT_TRUE \<longrightarrow> H i) \<and> (result_at cc i = COND_RESULT_FALSE \<longrightarrow> \<not> H i) \<and>
     (\<forall>j. (next_branch srv)\<^sup>+\<^sup>+ j i \<longrightarrow> H j \<longrightarrow> (result_at cc i \<noteq> COND_RESULT_UNSET \<longleftrightarrow> result_at cc j = COND_RESULT_TRUE)))"

lemma cache_okI:
  assumes "length (contexts srv) < length cc"
    and "\<And>i. context_at srv i \<noteq> None \<Longrightarrow> result_at cc i = COND_RESULT_TRUE \<Longrightarrow> H i"
    and "\<And>i. context_at srv i \<noteq> None \<Longrightarrow> result_at cc i = COND_RESULT_FALSE \<Longrightarrow> \<not> H i"
    and "\<And>i j. context_at srv i \<noteq> None \<Longrightarrow> (next_branch srv)\<^sup>+\<^sup>+ j i \<Longrightarrow> H j \<Longrightarrow>
       result_at cc i \<noteq> COND_RESULT_UNSET \<longleftrightarrow> result_at cc j = COND_RESULT_TRUE"
  shows "cache_ok H srv cc"
  using assms unfolding cache_ok_def by blast

lemma cache_okD:
  assumes "cache_ok H srv cc"
  shows "length (contexts srv) < length cc"
    and "context_at srv i \<noteq> None \<Longrightarrow> result_at cc i = COND_RESULT_TRUE \<Longrightarrow> H i"
    and "context_at srv i \<noteq> None \<Longrightarrow> result_at cc i = COND_RESULT_FALSE \<Longrightarrow> \<not> H i"
    and "context_at srv i \<noteq> None \<Longrightarrow> (next_branch srv)\<^sup>+\<^sup>+ j i \<Longrightarrow> H j \<Longrightarrow>
       result_at cc i \<noteq> COND_RESULT_UNSET \<longleftrightarrow> result_at cc j = COND_RESULT_TRUE"
  using assms unfolding cache_ok_def by blast+

lemma cache_ok_cong: "cache_ok H srv cc \<Longrightarrow> length cc' = length cc \<Longrightarrow> (\<And>i. result_at cc' i = result_at cc i) \<Longrightarrow> cache_ok H srv cc'"
  by (simp add: cache_ok_def)

lemma result_at_update: "i < length cc \<Longrightarrow> result_at (cc[i := c]) j = (if i = j then cc_result c else result_at cc j)"
  by (simp add: result_at_def nth_list_update)

lemma chain_false_ok:
  assumes "chains_ok srv" and "length (contexts srv) < length (cond_cache con)"
    and "\<And>i. p = Some i \<Longrightarrow> context_at srv i \<noteq> None \<and> length (contexts srv) < fuel + i"
  shows "\<exists>cc. chain_false fuel srv p con = Some (con\<lparr>cond_cache := cc\<rparr>) \<and> length cc = length (cond_cache con) \<and>
     (\<forall>k. result_at cc k = (if \<exists>i. p = Some i \<and> (k = i \<or> (next_branch srv)\<^sup>+\<^sup>+ i k) then COND_RESULT_FALSE
        else result_at (cond_cache con) k))"
  using assms(2,3)
proof (induction fuel arbitrary: p con)
  case 0
  have "p = None"
  proof (rule ccontr)
    assume "p \<noteq> None"
    then obtain i where "p = Some i" by blast
    with 0(2)[OF this] context_at_bound[of srv i] show False by auto
  qed
  then show ?case by (intro exI[of _ "cond_cache con"]) simp
next
  case (Suc fuel)
  show ?case
  proof (cases p)
    case None
    then show ?thesis by (auto intro!: exI[of _ "cond_cache con"])
  next
    case (Some i)
    obtain dc where dc: "context_at srv i = Some dc" using Suc.prems(2)[OF Some] by blast
    have i: "i < length (cond_cache con)" using context_at_bound[OF dc] Suc.prems(1) by simp
    let ?cc = "(cond_cache con)[i := (cond_cache con ! i)\<lparr>cc_result := COND_RESULT_FALSE\<rparr>]"
    let ?con = "con\<lparr>cond_cache := ?cc\<rparr>"
    have run: "chain_false (Suc fuel) srv p con = chain_false fuel srv (dc_next dc) ?con"
      using Some dc i by (simp add: set_cache_def)
    have nx: "context_at srv q \<noteq> None \<and> length (contexts srv) < fuel + q" if "dc_next dc = Some q" for q
    proof -
      have "i < q" "context_at srv q \<noteq> None" using assms(1) dc that unfolding chains_ok_def by blast+
      with Suc.prems(2)[OF Some] show ?thesis by simp
    qed
    have len: "length (contexts srv) < length (cond_cache ?con)" using Suc.prems(1) by simp
    obtain cc where cc: "chain_false fuel srv (dc_next dc) ?con = Some (?con\<lparr>cond_cache := cc\<rparr>)"
      "length cc = length (cond_cache ?con)" "\<forall>k. result_at cc k =
        (if \<exists>q. dc_next dc = Some q \<and> (k = q \<or> (next_branch srv)\<^sup>+\<^sup>+ q k) then COND_RESULT_FALSE else result_at (cond_cache ?con) k)"
      using Suc.IH[OF len nx] by blast
    have "result_at cc k = (if \<exists>j. p = Some j \<and> (k = j \<or> (next_branch srv)\<^sup>+\<^sup>+ j k) then COND_RESULT_FALSE
        else result_at (cond_cache con) k)" for k
      using cc(3) later_next[OF assms(1) dc, of k] i Some by (auto simp: result_at_update)
    with run cc(1,2) show ?thesis by (intro exI[of _ cc]) simp
  qed
qed

text \<open>The comparison itself: its result is the verdict, and only scratch buffers and the matches change.\<close>

definition same_view :: "server \<Rightarrow> connection \<Rightarrow> server \<Rightarrow> connection \<Rightarrow> bool" where
  "same_view srv con srv' con' \<longleftrightarrow> (\<exists>x y cc. srv' = srv\<lparr>cond_check_buf := x, tmp_buf := y\<rparr> \<and> con' = con\<lparr>cond_cache := cc\<rparr>)"

lemma same_view_refl [simp]: "same_view srv con srv con"
  unfolding same_view_def
  by (rule exI[of _ "cond_check_buf srv"], rule exI[of _ "tmp_buf srv"], rule exI[of _ "cond_cache con"]) simp

lemma same_view_trans: "same_view srv con srv' con' \<Longrightarrow> same_view srv' con' srv'' con'' \<Longrightarrow> same_view srv con srv'' con''"
  by (auto simp: same_view_def) (rule exI, rule exI, rule refl)

lemma same_view_facts:
  assumes "same_view srv con srv' con'"
  shows "contexts srv' = contexts srv" "context_at srv' = context_at srv" "next_branch srv' = next_branch srv"
    "chains_ok srv' = chains_ok srv" "conditional_is_valid con' = conditional_is_valid con"
    "req con' = req con" "con_uri con' = con_uri con" "conf con' = conf con"
proof -
  obtain x y cc where s: "srv' = srv\<lparr>cond_check_buf := x, tmp_buf := y\<rparr>" "con' = con\<lparr>cond_cache := cc\<rparr>"
    using assms by (auto simp: same_view_def)
  then show "contexts srv' = contexts srv" "conditional_is_valid con' = conditional_is_valid con"
    "req con' = req con" "con_uri con' = con_uri con" "conf con' = conf con" by simp_all
  show c: "context_at srv' = context_at srv" by (simp add: s fun_eq_iff context_at_def)
  then show "next_branch srv' = next_branch srv" by (simp add: fun_eq_iff next_branch_def)
  show "chains_ok srv' = chains_ok srv" using c by (simp add: chains_ok_def)
qed

lemma buffer_of_view:
  assumes "same_view srv con srv' con'" and "b \<noteq> Check_Buf" and "b \<noteq> Tmp_Buf"
  shows "buffer_of srv' con' b = buffer_of srv con b"
  using assms by (cases b) (auto simp: same_view_def buffer_of_def)

text \<open>What is compared, as a string.\<close>

definition subject_text :: "(char list \<Rightarrow> 32 word option) \<Rightarrow> data_config \<Rightarrow> server \<Rightarrow> connection \<Rightarrow> (cond_result_t + char list) option" where
  "subject_text inet_aton dc srv con = do {
     (s, srv') \<leftarrow> cond_subject inet_aton dc srv con;
     case s of Decided r \<Rightarrow> Some (Inl r) | Compare b \<Rightarrow> map_option Inr (buffer_of srv' con b) }"

lemma own_verdict_text: "own_verdict inet_aton pcre srv con i = do {
     dc \<leftarrow> context_at srv i;
     t \<leftarrow> subject_text inet_aton dc srv con;
     Some (case t of Inl r \<Rightarrow> r | Inr l \<Rightarrow> verdict pcre i dc l) }"
  by (auto simp: own_verdict_def subject_text_def split: bind_splits subject.splits option.splits)

lemma subject_text_view:
  assumes "same_view srv con srv' con'" and "get_http_method_name (http_method (req con)) \<noteq> None"
  shows "subject_text inet_aton dc srv' con' = subject_text inet_aton dc srv con"
proof -
  obtain x y cc where s: "srv' = srv\<lparr>cond_check_buf := x, tmp_buf := y\<rparr>" "con' = con\<lparr>cond_cache := cc\<rparr>"
    using assms by (auto simp: same_view_def)
  have h: "header_value con' n = header_value con n" for n by (simp add: s header_value_def)
  show ?thesis
  proof (cases "dc_comp dc")
    case COMP_HTTP_HOST
    then show ?thesis
      by (auto simp: subject_text_def cond_subject_def host_subject_def s buffer_of_def Let_def guard_def split: bind_splits)
  next
    case COMP_HTTP_REMOTE_IP
    then show ?thesis
      by (auto simp: subject_text_def cond_subject_def remote_ip_subject_def s buffer_of_def Let_def guard_def
          split: bind_splits sock_addr.splits prod.splits option.splits)
  next
    case COMP_HTTP_REQUEST_METHOD
    then show ?thesis using assms(2) by (auto simp: subject_text_def cond_subject_def s buffer_of_def)
  qed (auto simp: subject_text_def cond_subject_def h buffer_of_def s header_value_def split: bind_splits option.splits)
qed

lemma same_view_scratch [simp]: "same_view srv con (srv\<lparr>cond_check_buf := x\<rparr>) con" "same_view srv con (srv\<lparr>tmp_buf := x\<rparr>) con"
proof -
  show "same_view srv con (srv\<lparr>cond_check_buf := x\<rparr>) con"
    unfolding same_view_def by (rule exI[of _ x], rule exI[of _ "tmp_buf srv"], rule exI[of _ "cond_cache con"]) simp
  show "same_view srv con (srv\<lparr>tmp_buf := x\<rparr>) con"
    unfolding same_view_def by (rule exI[of _ "cond_check_buf srv"], rule exI[of _ x], rule exI[of _ "cond_cache con"]) simp
qed

lemma cond_subject_view:
  assumes "cond_subject inet_aton dc srv con = Some (s, srv')"
  shows "same_view srv con srv' con"
proof (cases "dc_comp dc")
  case COMP_HTTP_HOST
  then show ?thesis using assms
    by (auto simp: cond_subject_def host_subject_def Let_def guard_def split: bind_splits if_splits)
next
  case COMP_HTTP_REMOTE_IP
  then show ?thesis using assms
    by (auto simp: cond_subject_def remote_ip_subject_def Let_def guard_def
        split: bind_splits if_splits sock_addr.splits prod.splits option.splits)
qed (use assms in \<open>auto simp: cond_subject_def split: option.splits\<close>)

lemma compare_own:
  assumes "own_verdict inet_aton pcre srv con i = Some v" and "context_at srv i = Some dc" and "i < length (cond_cache con)"
  shows "\<exists>srv' con'. do {
         (s, srv) \<leftarrow> cond_subject inet_aton dc srv con;
         case s of
           Decided r \<Rightarrow> Some (r, srv, con)
         | Compare b \<Rightarrow> do { (r, con) \<leftarrow> compare_subject pcre i dc b srv con; Some (r, srv, con) } } = Some (v, srv', con') \<and>
     same_view srv con srv' con' \<and> length (cond_cache con') = length (cond_cache con) \<and>
     result_at (cond_cache con') = result_at (cond_cache con)"
proof -
  obtain s srv' where s: "cond_subject inet_aton dc srv con = Some (s, srv')"
    using assms(1,2) by (auto simp: own_verdict_def split: bind_splits)
  have view: "same_view srv con srv' con" by (rule cond_subject_view[OF s])
  show ?thesis
  proof (cases s)
    case (Decided r)
    then show ?thesis using s view assms(1,2) by (auto simp: own_verdict_def intro!: exI[of _ srv'] exI[of _ con])
  next
    case (Compare b)
    then obtain l where l: "buffer_of srv' con b = Some l" "v = verdict pcre i dc l"
      using s assms(1,2) by (auto simp: own_verdict_def split: bind_splits)
    obtain con' where k: "compare_subject pcre i dc b srv' con = Some (v, con')" "same_view srv' con srv' con'"
      "length (cond_cache con') = length (cond_cache con)" "result_at (cond_cache con') = result_at (cond_cache con)"
    proof (cases "dc_cond dc = CONFIG_COND_NOMATCH \<or> dc_cond dc = CONFIG_COND_MATCH")
      case True
      obtain n ms where n: "pcre i (if l = [] then None else Some (butlast l)) = (n, ms)" by (cases "pcre i (if l = [] then None else Some (butlast l))")
      let ?c = "(cond_cache con ! i)\<lparr>cc_matches := ms, cc_patterncount := n\<rparr>"
      let ?c' = "if n > 0 then ?c\<lparr>cc_comp_value := Some b, cc_comp_type := dc_comp dc\<rparr> else ?c"
      let ?con = "con\<lparr>cond_cache := (cond_cache con)[i := ?c']\<rparr>"
      have "compare_subject pcre i dc b srv' con = Some (v, ?con)"
        using True l n assms(3) by (auto simp: compare_subject_def set_cache_def verdict_def)
      moreover have "same_view srv' con srv' ?con"
        unfolding same_view_def
        by (rule exI[of _ "cond_check_buf srv'"], rule exI[of _ "tmp_buf srv'"], rule exI[of _ "(cond_cache con)[i := ?c']"]) simp
      moreover have "length (cond_cache ?con) = length (cond_cache con)" by simp
      moreover have "result_at (cond_cache ?con) = result_at (cond_cache con)"
        using assms(3) by (simp add: fun_eq_iff result_at_update) (simp add: result_at_def)
      ultimately show thesis by (rule that[of ?con])
    next
      case False
      then have "compare_subject pcre i dc b srv' con = Some (v, con)"
        using l by (auto simp: compare_subject_def verdict_def)
      then show thesis by (rule that[of con]) simp_all
    qed
    show ?thesis
      by (rule exI[of _ srv'], rule exI[of _ con'])
        (use s Compare k same_view_trans[OF view k(2)] in simp)
  qed
qed

text \<open>Storing the result of a context, and of the branches behind it.\<close>

lemma store_false:
  assumes "cache_ok H srv cc" and "i < length cc" and "\<not> H i"
    and "\<And>j. (next_branch srv)\<^sup>+\<^sup>+ j i \<Longrightarrow> H j \<Longrightarrow> result_at cc j = COND_RESULT_TRUE"
    and "chains_ok srv" and "length cc' = length cc"
    and r: "\<And>k. result_at cc' k = (if k = i then COND_RESULT_FALSE else result_at cc k)"
  shows "cache_ok H srv cc'"
proof (rule cache_okI)
  note c = cache_okD[OF assms(1)]
  show "length (contexts srv) < length cc'" using c(1) assms(6) by simp
  show "H k" if "context_at srv k \<noteq> None" "result_at cc' k = COND_RESULT_TRUE" for k using that c(2) r by (auto split: if_splits)
  show "\<not> H k" if "context_at srv k \<noteq> None" "result_at cc' k = COND_RESULT_FALSE" for k
    using that c(3) assms(3) r by (auto split: if_splits)
  show "result_at cc' k \<noteq> COND_RESULT_UNSET \<longleftrightarrow> result_at cc' j = COND_RESULT_TRUE"
    if "context_at srv k \<noteq> None" "(next_branch srv)\<^sup>+\<^sup>+ j k" "H j" for k j
  proof -
    have "j \<noteq> k" "j \<noteq> i" using next_branch_less[OF assms(5) that(2)] assms(3) that(3) by auto
    then show ?thesis using c(4)[OF that] assms(4) that(2,3) r by auto
  qed
qed

lemma store_true:
  assumes "cache_ok H srv cc" and "i < length cc" and "H i" and "context_at srv i \<noteq> None"
    and later: "\<And>k. (next_branch srv)\<^sup>+\<^sup>+ i k \<Longrightarrow> \<not> H k" and earlier: "\<And>j. (next_branch srv)\<^sup>+\<^sup>+ j i \<Longrightarrow> \<not> H j"
    and "chains_ok srv" and "length cc' = length cc"
    and r: "\<And>k. result_at cc' k = (if k = i then COND_RESULT_TRUE else if (next_branch srv)\<^sup>+\<^sup>+ i k then COND_RESULT_FALSE else result_at cc k)"
  shows "cache_ok H srv cc'"
proof (rule cache_okI)
  note c = cache_okD[OF assms(1)]
  show "length (contexts srv) < length cc'" using c(1) assms(8) by simp
  show "H k" if "context_at srv k \<noteq> None" "result_at cc' k = COND_RESULT_TRUE" for k
    using that c(2) assms(3) r by (auto split: if_splits)
  show "\<not> H k" if "context_at srv k \<noteq> None" "result_at cc' k = COND_RESULT_FALSE" for k
    using that c(3) later r by (auto split: if_splits)
  show "result_at cc' k \<noteq> COND_RESULT_UNSET \<longleftrightarrow> result_at cc' j = COND_RESULT_TRUE"
    if k: "context_at srv k \<noteq> None" "(next_branch srv)\<^sup>+\<^sup>+ j k" "H j" for k j
  proof (cases "j = i")
    case True
    then show ?thesis using k(2) r next_branch_less[OF assms(7) k(2)] by simp
  next
    case False
    obtain dk where "context_at srv k = Some dk" using k(1) by blast
    then have "\<not> (next_branch srv)\<^sup>+\<^sup>+ i k"
      using chain_linear[OF assms(7) _ k(2), of dk i] False later earlier k(3) by blast
    moreover have "k \<noteq> i" using earlier k(2,3) by blast
    moreover have "\<not> (next_branch srv)\<^sup>+\<^sup>+ i j" using later k(3) by blast
    ultimately show ?thesis using c(4)[OF k] r False by simp
  qed
qed

text \<open>What the conditions need: comparisons that can be made, on a request whose method is known.\<close>

definition decidable_conditions :: "(char list \<Rightarrow> 32 word option) \<Rightarrow> pcre \<Rightarrow> server \<Rightarrow> connection \<Rightarrow> bool" where
  "decidable_conditions inet_aton pcre srv con \<longleftrightarrow> get_http_method_name (http_method (req con)) \<noteq> None \<and>
     (\<forall>i dc. context_at srv i = Some dc \<longrightarrow> dc_comp dc \<in> conditional_is_valid con \<and>
        (\<exists>v. own_verdict inet_aton pcre srv con i = Some v \<and> v \<noteq> COND_RESULT_UNSET))"

definition meaning :: "(char list \<Rightarrow> 32 word option) \<Rightarrow> pcre \<Rightarrow> server \<Rightarrow> connection \<Rightarrow> nat \<Rightarrow> bool" where
  "meaning inet_aton pcre srv con = applies (\<lambda>i. own_verdict inet_aton pcre srv con i = Some COND_RESULT_TRUE) srv"

definition verdict_of :: "bool \<Rightarrow> cond_result_t" where
  "verdict_of b = (if b then COND_RESULT_TRUE else COND_RESULT_FALSE)"

lemma own_verdict_view:
  assumes "same_view srv con srv' con'" and "get_http_method_name (http_method (req con)) \<noteq> None"
  shows "own_verdict inet_aton pcre srv' con' i = own_verdict inet_aton pcre srv con i"
  unfolding own_verdict_text same_view_facts(2)[OF assms(1)] subject_text_view[OF assms] by (rule refl)

lemma check_nocache_ok:
  assumes w: "chains_ok srv" and "decidable_conditions inet_aton pcre srv con" and H: "H = meaning inet_aton pcre srv con"
    and dc: "context_at srv i = Some dc" and view: "same_view srv con srv1 con1" and ok: "cache_ok H srv (cond_cache con1)"
    and IH: "\<And>p srv1 con1. p < i \<Longrightarrow> context_at srv p \<noteq> None \<Longrightarrow> same_view srv con srv1 con1 \<Longrightarrow> cache_ok H srv (cond_cache con1) \<Longrightarrow>
      \<exists>srv2 con2. config_check_cond_cached f inet_aton pcre srv1 con1 p = Some (verdict_of (H p), srv2, con2) \<and>
        same_view srv con srv2 con2 \<and> cache_ok H srv (cond_cache con2) \<and> result_at (cond_cache con2) p = verdict_of (H p)"
  shows "\<exists>srv2 con2. config_check_cond_nocache f inet_aton pcre srv1 con1 i = Some (verdict_of (H i), srv2, con2) \<and>
     same_view srv con srv2 con2 \<and> cache_ok H srv (cond_cache con2) \<and>
     (\<forall>j. (next_branch srv)\<^sup>+\<^sup>+ j i \<longrightarrow> H j \<longrightarrow> result_at (cond_cache con2) j = COND_RESULT_TRUE)"
proof -
  have own: "own_verdict inet_aton pcre srv con i \<noteq> None" "own_verdict inet_aton pcre srv con i \<noteq> Some COND_RESULT_UNSET"
    "dc_comp dc \<in> conditional_is_valid con" "get_http_method_name (http_method (req con)) \<noteq> None"
    using assms(2) dc unfolding decidable_conditions_def by fastforce+
  have Hi: "H k \<longleftrightarrow> own_verdict inet_aton pcre srv con k = Some COND_RESULT_TRUE \<and> (\<forall>p. dc_parent d = Some p \<longrightarrow> p \<noteq> 0 \<longrightarrow> H p) \<and>
     (\<forall>j. (next_branch srv)\<^sup>+\<^sup>+ j k \<longrightarrow> \<not> H j)" if "context_at srv k = Some d" for k d
    unfolding H meaning_def by (rule applies_iff[OF w that])
  define parent where "parent = (case dc_parent dc of
         None \<Rightarrow> Some (COND_RESULT_TRUE, srv1, con1)
       | Some p \<Rightarrow> if p = 0 then Some (COND_RESULT_TRUE, srv1, con1) else config_check_cond_cached f inet_aton pcre srv1 con1 p)"
  define P where "P \<longleftrightarrow> (\<forall>p. dc_parent dc = Some p \<longrightarrow> p \<noteq> 0 \<longrightarrow> H p)"
  obtain srv2 con2 where 2: "parent = Some (verdict_of P, srv2, con2)" "same_view srv con srv2 con2" "cache_ok H srv (cond_cache con2)"
  proof (cases "\<exists>p. dc_parent dc = Some p \<and> p \<noteq> 0")
    case True
    then obtain p where p: "dc_parent dc = Some p" "p \<noteq> 0" by blast
    then have "p < i" "context_at srv p \<noteq> None" using w dc unfolding chains_ok_def by blast+
    from IH[OF this view ok] p that show thesis by (auto simp: parent_def P_def)
  next
    case False
    then have "parent = Some (verdict_of P, srv1, con1)" by (auto simp: parent_def P_def verdict_of_def split: option.splits)
    with that view ok show thesis by blast
  qed
  have s2: "context_at srv1 = context_at srv" by (rule same_view_facts(2)[OF view])
  show ?thesis
  proof (cases P)
    case False
    then have "\<not> H i" using Hi[OF dc] by (auto simp: P_def)
    moreover have "\<not> H j" if l: "(next_branch srv)\<^sup>+\<^sup>+ j i" for j
    proof -
      obtain d where "context_at srv j = Some d" "dc_parent d = dc_parent dc" using chain_parent[OF w l] dc by auto
      with Hi[of j d] False show ?thesis by (auto simp: P_def)
    qed
    moreover have "config_check_cond_nocache f inet_aton pcre srv1 con1 i = Some (COND_RESULT_FALSE, srv2, con2)"
      using 2(1) False dc unfolding config_check_cond_nocache.simps s2 parent_def by (simp add: verdict_of_def)
    ultimately show ?thesis using 2(2,3) by (auto simp: verdict_of_def)
  next
    case True
    define prev where "prev = (case dc_prev dc of
           None \<Rightarrow> Some (COND_RESULT_UNSET, srv2, con2)
         | Some p \<Rightarrow> do {
             (_, srv, con) \<leftarrow> config_check_cond_cached f inet_aton pcre srv2 con2 p;
             r \<leftarrow> cached_result i con;
             Some (r, srv, con) })"
    obtain r srv3 con3 where 3: "prev = Some (r, srv3, con3)" "same_view srv con srv3 con3" "cache_ok H srv (cond_cache con3)"
      "\<forall>j. (next_branch srv)\<^sup>+\<^sup>+ j i \<longrightarrow> H j \<longrightarrow> result_at (cond_cache con3) j = COND_RESULT_TRUE \<and> r = result_at (cond_cache con3) i"
      "r = COND_RESULT_FALSE \<longrightarrow> \<not> H i"
    proof (cases "dc_prev dc")
      case None
      then have "\<not> (next_branch srv)\<^sup>+\<^sup>+ j i" for j using earlier_prev[OF w dc] by simp
      with None that[of COND_RESULT_UNSET srv2 con2] 2(2,3) show thesis by (simp add: prev_def)
    next
      case (Some p)
      have p: "p < i" "context_at srv p \<noteq> None" using w dc Some unfolding chains_ok_def by blast+
      obtain srv3 con3 where 3: "config_check_cond_cached f inet_aton pcre srv2 con2 p = Some (verdict_of (H p), srv3, con3)"
        "same_view srv con srv3 con3" "cache_ok H srv (cond_cache con3)" "result_at (cond_cache con3) p = verdict_of (H p)"
        using IH[OF p 2(2,3)] by blast
      have "i < length (cond_cache con3)" using cache_okD(1)[OF 3(3)] context_at_bound[OF dc] by simp
      then have "prev = Some (result_at (cond_cache con3) i, srv3, con3)"
        using 3(1) Some by (simp add: prev_def cached_result_def result_at_def)
      moreover have "result_at (cond_cache con3) j = COND_RESULT_TRUE" if j: "(next_branch srv)\<^sup>+\<^sup>+ j i" "H j" for j
      proof (cases "j = p")
        case True
        with 3(4) j(2) show ?thesis by (simp add: verdict_of_def)
      next
        case False
        then have "(next_branch srv)\<^sup>+\<^sup>+ j p" using earlier_prev[OF w dc] j(1) Some by auto
        moreover have "result_at (cond_cache con3) p \<noteq> COND_RESULT_UNSET" using 3(4) by (simp add: verdict_of_def)
        ultimately show ?thesis using cache_okD(4)[OF 3(3) p(2)] j(2) by blast
      qed
      moreover have "result_at (cond_cache con3) i = COND_RESULT_FALSE \<longrightarrow> \<not> H i" using cache_okD(3)[OF 3(3)] dc by blast
      ultimately show thesis using that[of "result_at (cond_cache con3) i" srv3 con3] 3(2,3) by blast
    qed
    have run: "config_check_cond_nocache f inet_aton pcre srv1 con1 i = do {
       (r, srv, con) \<leftarrow> prev;
       if r = COND_RESULT_FALSE then Some (COND_RESULT_FALSE, srv, con)
       else if dc_comp dc \<notin> conditional_is_valid con then Some (COND_RESULT_UNSET, srv, con)
       else do {
         (s, srv) \<leftarrow> cond_subject inet_aton dc srv con;
         case s of
           Decided r \<Rightarrow> Some (r, srv, con)
         | Compare b \<Rightarrow> do { (r, con) \<leftarrow> compare_subject pcre i dc b srv con; Some (r, srv, con) } } }"
      using 2(1) True dc unfolding config_check_cond_nocache.simps s2 parent_def prev_def by (simp add: verdict_of_def)
    show ?thesis
    proof (cases "r = COND_RESULT_FALSE")
      case True
      then have "\<not> H i" using 3(5) by blast
      moreover have "config_check_cond_nocache f inet_aton pcre srv1 con1 i = Some (COND_RESULT_FALSE, srv3, con3)"
        unfolding run using 3(1) True by simp
      ultimately show ?thesis using 3(2-4) by (auto simp: verdict_of_def)
    next
      case False
      have none: "\<not> H j" if j: "(next_branch srv)\<^sup>+\<^sup>+ j i" for j
      proof
        assume "H j"
        with 3(4) j have *: "result_at (cond_cache con3) j = COND_RESULT_TRUE" "r = result_at (cond_cache con3) i" by blast+
        then have "r \<noteq> COND_RESULT_UNSET" using cache_okD(4)[OF 3(3) _ j \<open>H j\<close>] dc by simp
        with False have "r = COND_RESULT_TRUE" by (cases r) auto
        then have "H i" using cache_okD(2)[OF 3(3)] dc *(2) by simp
        with Hi[OF dc] j \<open>H j\<close> show False by blast
      qed
      obtain v where v: "own_verdict inet_aton pcre srv con i = Some v" using own(1) by blast
      have "v = verdict_of (H i)" using Hi[OF dc] none True own(2) v by (cases v) (auto simp: verdict_of_def P_def)
      moreover have "own_verdict inet_aton pcre srv3 con3 i = Some v" using own_verdict_view[OF 3(2) own(4)] v by simp
      moreover have "context_at srv3 i = Some dc" using same_view_facts(2)[OF 3(2)] dc by simp
      moreover have "i < length (cond_cache con3)" using cache_okD(1)[OF 3(3)] context_at_bound[OF dc] by simp
      ultimately obtain srv4 con4 where 4: "do {
         (s, srv) \<leftarrow> cond_subject inet_aton dc srv3 con3;
         case s of
           Decided r \<Rightarrow> Some (r, srv, con3)
         | Compare b \<Rightarrow> do { (r, con) \<leftarrow> compare_subject pcre i dc b srv con3; Some (r, srv, con) } } = Some (verdict_of (H i), srv4, con4)"
        "same_view srv3 con3 srv4 con4" "length (cond_cache con4) = length (cond_cache con3)"
        "result_at (cond_cache con4) = result_at (cond_cache con3)"
        using compare_own[of inet_aton pcre srv3 con3 i v dc] by blast
      have "conditional_is_valid con3 = conditional_is_valid con" by (rule same_view_facts(5)[OF 3(2)])
      then have "config_check_cond_nocache f inet_aton pcre srv1 con1 i = Some (verdict_of (H i), srv4, con4)"
        unfolding run 3(1) using False own(3) 4(1) by simp
      moreover have "cache_ok H srv (cond_cache con4)" by (rule cache_ok_cong[OF 3(3) 4(3)]) (simp add: 4(4))
      ultimately show ?thesis using same_view_trans[OF 3(2) 4(2)] none by blast
    qed
  qed
qed

text \<open>One check, from any state of the cache that agrees with the meaning.\<close>

lemma check_cached_ok:
  assumes "chains_ok srv" and "decidable_conditions inet_aton pcre srv con" and H: "H = meaning inet_aton pcre srv con"
  shows "context_at srv i \<noteq> None \<Longrightarrow> i < fuel \<Longrightarrow> same_view srv con srv1 con1 \<Longrightarrow> cache_ok H srv (cond_cache con1) \<Longrightarrow>
    \<exists>srv2 con2. config_check_cond_cached fuel inet_aton pcre srv1 con1 i = Some (verdict_of (H i), srv2, con2) \<and>
      same_view srv con srv2 con2 \<and> cache_ok H srv (cond_cache con2) \<and> result_at (cond_cache con2) i = verdict_of (H i)"
proof (induction i arbitrary: fuel srv1 con1 rule: less_induct)
  case (less i)
  obtain dc where dc: "context_at srv i = Some dc" using less.prems(1) by blast
  obtain f where f: "fuel = Suc f" using less.prems(2) by (cases fuel) auto
  have m: "get_http_method_name (http_method (req con)) \<noteq> None" using assms(2) by (simp add: decidable_conditions_def)
  have Hi: "H i \<longleftrightarrow> own_verdict inet_aton pcre srv con i = Some COND_RESULT_TRUE \<and> (\<forall>p. dc_parent dc = Some p \<longrightarrow> p \<noteq> 0 \<longrightarrow> H p) \<and>
     (\<forall>j. (next_branch srv)\<^sup>+\<^sup>+ j i \<longrightarrow> \<not> H j)" unfolding H meaning_def by (rule applies_iff[OF assms(1) dc])
  have bound: "i < length cc" if "cache_ok H srv cc" for cc
    using cache_okD(1)[OF that] context_at_bound[OF dc] by simp
  have c1: "cached_result i con1 = Some (result_at (cond_cache con1) i)"
    using bound[OF less.prems(4)] by (simp add: cached_result_def result_at_def)
  show ?case
  proof (cases "result_at (cond_cache con1) i = COND_RESULT_UNSET")
    case False
    then have "result_at (cond_cache con1) i = verdict_of (H i)"
      using cache_okD(2,3)[OF less.prems(4,1)] by (cases "result_at (cond_cache con1) i") (auto simp: verdict_of_def)
    with False f c1 less.prems(3,4) show ?thesis by (auto simp: config_check_cond_cached.simps)
  next
    case True
    have IH: "\<And>p srv1 con1. p < i \<Longrightarrow> context_at srv p \<noteq> None \<Longrightarrow> same_view srv con srv1 con1 \<Longrightarrow> cache_ok H srv (cond_cache con1) \<Longrightarrow>
      \<exists>srv2 con2. config_check_cond_cached f inet_aton pcre srv1 con1 p = Some (verdict_of (H p), srv2, con2) \<and>
        same_view srv con srv2 con2 \<and> cache_ok H srv (cond_cache con2) \<and> result_at (cond_cache con2) p = verdict_of (H p)"
      using less.IH less.prems(2) f by auto
    obtain srv2 con2 where 2: "config_check_cond_nocache f inet_aton pcre srv1 con1 i = Some (verdict_of (H i), srv2, con2)"
      "same_view srv con srv2 con2" "cache_ok H srv (cond_cache con2)"
      "\<forall>j. (next_branch srv)\<^sup>+\<^sup>+ j i \<longrightarrow> H j \<longrightarrow> result_at (cond_cache con2) j = COND_RESULT_TRUE"
      using check_nocache_ok[OF assms(1,2) H dc less.prems(3,4) IH] by blast
    have i2: "i < length (cond_cache con2)" by (rule bound[OF 2(3)])
    let ?c3 = "(cond_cache con2)[i := (cond_cache con2 ! i)\<lparr>cc_result := verdict_of (H i)\<rparr>]"
    let ?con3 = "con2\<lparr>cond_cache := ?c3\<rparr>"
    have ctx: "contexts srv2 = contexts srv" "context_at srv2 = context_at srv" "next_branch srv2 = next_branch srv" "chains_ok srv2"
      "context_at srv1 = context_at srv"
      using same_view_facts(1-4)[OF 2(2)] same_view_facts(2)[OF less.prems(3)] assms(1) by auto
    define marked where "marked = (if H i then chain_false (length (contexts srv2)) srv2 (dc_next dc) ?con3 else Some ?con3)"
    have len3: "length (contexts srv2) < length (cond_cache ?con3)" using cache_okD(1)[OF 2(3)] ctx(1) by simp
    have nx: "context_at srv2 q \<noteq> None \<and> length (contexts srv2) < length (contexts srv2) + q" if "dc_next dc = Some q" for q
      using assms(1) dc that ctx(2) unfolding chains_ok_def by fastforce
    obtain cc where cc: "marked = Some (?con3\<lparr>cond_cache := cc\<rparr>)" "length cc = length (cond_cache con2)"
      "\<forall>k. result_at cc k = (if k = i then verdict_of (H i) else if H i \<and> (next_branch srv)\<^sup>+\<^sup>+ i k then COND_RESULT_FALSE
          else result_at (cond_cache con2) k)"
    proof (cases "H i")
      case True
      obtain cc where c: "chain_false (length (contexts srv2)) srv2 (dc_next dc) ?con3 = Some (?con3\<lparr>cond_cache := cc\<rparr>)"
        "length cc = length (cond_cache ?con3)" "\<forall>k. result_at cc k =
          (if \<exists>q. dc_next dc = Some q \<and> (k = q \<or> (next_branch srv2)\<^sup>+\<^sup>+ q k) then COND_RESULT_FALSE else result_at (cond_cache ?con3) k)"
        using chain_false_ok[OF ctx(4) len3 nx] by blast
      have "result_at cc k = (if k = i then verdict_of (H i) else if H i \<and> (next_branch srv)\<^sup>+\<^sup>+ i k then COND_RESULT_FALSE
          else result_at (cond_cache con2) k)" for k
      proof -
        have "(\<exists>q. dc_next dc = Some q \<and> (k = q \<or> (next_branch srv2)\<^sup>+\<^sup>+ q k)) \<longleftrightarrow> (next_branch srv)\<^sup>+\<^sup>+ i k"
          using later_next[OF assms(1) dc, of k] ctx(3) by simp
        moreover have "\<not> (next_branch srv)\<^sup>+\<^sup>+ i i" using next_branch_less[OF assms(1)] by blast
        ultimately show ?thesis using c(3) True i2 by (auto simp: result_at_update)
      qed
      with c True that show thesis by (simp add: marked_def)
    next
      case False
      have "result_at ?c3 k = (if k = i then verdict_of (H i) else if H i \<and> (next_branch srv)\<^sup>+\<^sup>+ i k then COND_RESULT_FALSE
          else result_at (cond_cache con2) k)" for k using False i2 by (simp add: result_at_update)
      with False that[of ?c3] show thesis by (simp add: marked_def)
    qed
    let ?c4 = "cc[i := (cc ! i)\<lparr>cc_comp_type := dc_comp dc\<rparr>]"
    have icc: "i < length cc" using i2 cc(2) by simp
    have r4: "result_at ?c4 k = result_at cc k" for k using icc by (simp add: result_at_update) (simp add: result_at_def)
    have "cache_ok H srv cc"
    proof (cases "H i")
      case True
      have "\<not> H k" if l: "(next_branch srv)\<^sup>+\<^sup>+ i k" for k
      proof -
        obtain d where "context_at srv k = Some d" using chain_parent[OF assms(1) l] by blast
        from applies_iff[OF assms(1) this] l True show ?thesis unfolding H meaning_def by blast
      qed
      moreover have "\<not> H j" if "(next_branch srv)\<^sup>+\<^sup>+ j i" for j using Hi True that by blast
      moreover have "result_at cc k = (if k = i then COND_RESULT_TRUE else if (next_branch srv)\<^sup>+\<^sup>+ i k then COND_RESULT_FALSE
          else result_at (cond_cache con2) k)" for k using cc(3) True by (simp add: verdict_of_def)
      ultimately show ?thesis using store_true[OF 2(3) i2 True less.prems(1) _ _ assms(1) cc(2)] by blast
    next
      case False
      have "result_at cc k = (if k = i then COND_RESULT_FALSE else result_at (cond_cache con2) k)" for k
        using cc(3) False by (simp add: verdict_of_def)
      then show ?thesis using store_false[OF 2(3) i2 False _ assms(1) cc(2)] 2(4) by blast
    qed
    then have "cache_ok H srv ?c4" by (rule cache_ok_cong) (simp_all add: r4)
    moreover have "config_check_cond_cached fuel inet_aton pcre srv1 con1 i = Some (verdict_of (H i), srv2, ?con3\<lparr>cond_cache := ?c4\<rparr>)"
    proof -
      have "verdict_of (H i) = COND_RESULT_TRUE \<longleftrightarrow> H i" by (simp add: verdict_of_def)
      moreover have "cc_result (cc ! i) = verdict_of (H i)" using cc(3) by (simp add: result_at_def)
      ultimately show ?thesis
        using f c1 True 2(1) dc ctx(5) i2 icc cc(1) unfolding marked_def
        by (simp add: config_check_cond_cached.simps set_cache_def cached_result_def)
    qed
    moreover have "same_view srv con srv2 (?con3\<lparr>cond_cache := ?c4\<rparr>)"
      using 2(2) unfolding same_view_def by (elim exE conjE) (intro exI conjI, assumption, simp)
    moreover have "result_at ?c4 i = verdict_of (H i)" using r4 cc(3) by simp
    ultimately show ?thesis by (intro exI[of _ srv2] exI[of _ "?con3\<lparr>cond_cache := ?c4\<rparr>"]) simp
  qed
qed

section \<open>Properties\<close>

fun run_checks :: "(char list \<Rightarrow> 32 word option) \<Rightarrow> pcre \<Rightarrow> nat list \<Rightarrow> server \<Rightarrow> connection \<Rightarrow> (bool list \<times> server \<times> connection) option" where
  "run_checks inet_aton pcre [] srv con = Some ([], srv, con)"
| "run_checks inet_aton pcre (i # is) srv con = do {
     (b, srv, con) \<leftarrow> config_check_cond inet_aton pcre srv con i;
     (bs, srv, con) \<leftarrow> run_checks inet_aton pcre is srv con;
     Some (b # bs, srv, con) }"

lemma run_checks_ok:
  assumes "chains_ok srv" and "decidable_conditions inet_aton pcre srv con" and "\<forall>i \<in> set is. context_at srv i \<noteq> None"
    and "same_view srv con srv1 con1" and "cache_ok (meaning inet_aton pcre srv con) srv (cond_cache con1)"
  shows "valid (run_checks inet_aton pcre is srv1 con1) (\<lambda>(bs, _, _). bs = map (meaning inet_aton pcre srv con) is)"
  using assms(3-5)
proof (induction "is" arbitrary: srv1 con1)
  case (Cons i "is")
  obtain srv2 con2 where 2: "config_check_cond_cached (i + 1) inet_aton pcre srv1 con1 i =
      Some (verdict_of (meaning inet_aton pcre srv con i), srv2, con2)"
    "same_view srv con srv2 con2" "cache_ok (meaning inet_aton pcre srv con) srv (cond_cache con2)"
    using check_cached_ok[OF assms(1,2) refl, of i "i + 1" srv1 con1] Cons.prems by auto
  then have "config_check_cond inet_aton pcre srv1 con1 i = Some (meaning inet_aton pcre srv con i, srv2, con2)"
    by (simp add: config_check_cond_def verdict_of_def)
  with Cons.IH[OF _ 2(2,3)] Cons.prems(1) show ?case by (auto simp: valid_def)
qed simp

lemma reset_cache_ok:
  assumes "config_cond_cache_reset_item srv con0 COMP_LAST_ELEMENT = Some con"
  shows "cache_ok H srv (cond_cache con)"
proof -
  have n: "length (contexts srv) < length (cond_cache con0)" and con: "cond_cache con =
      map (\<lambda>c. c\<lparr>cc_result := COND_RESULT_UNSET, cc_patterncount := 0, cc_comp_value := None\<rparr>) (take (length (contexts srv) + 1) (cond_cache con0)) @
      drop (length (contexts srv) + 1) (cond_cache con0)"
    using assms by (auto simp: config_cond_cache_reset_item_def guard_def split: if_splits)
  have u: "result_at (cond_cache con) i = COND_RESULT_UNSET" if "context_at srv i \<noteq> None" for i
    using that n unfolding con by (auto simp: result_at_def nth_append dest!: context_at_bound)
  show ?thesis
  proof (rule cache_okI)
    show "length (contexts srv) < length (cond_cache con)" using n con by simp
    show "result_at (cond_cache con) i \<noteq> COND_RESULT_UNSET \<longleftrightarrow> result_at (cond_cache con) j = COND_RESULT_TRUE"
      if "context_at srv i \<noteq> None" "(next_branch srv)\<^sup>+\<^sup>+ j i" for i j
    proof -
      have "context_at srv j \<noteq> None" using that(2) by (rule converse_tranclpE) (auto simp: next_branch_def)
      with u that(1) show ?thesis by simp
    qed
  qed (simp_all add: u)
qed

text \<open>
  C23: once the cache of conditions is reset and all that they look at is known, any sequence of checks
  answers for each context as it is written: its own comparison holds, the context it is nested in
  applies, and no earlier branch of its if-else chain does.  Neither the cache nor the scratch
  buffers the comparisons share change an answer.
\<close>

theorem config_checks_mean:
  assumes "config_cond_cache_reset_item srv con0 COMP_LAST_ELEMENT = Some con"
    and "chains_ok srv" and "decidable_conditions inet_aton pcre srv con" and "\<forall>i \<in> set is. context_at srv i \<noteq> None"
  shows "valid (run_checks inet_aton pcre is srv con) (\<lambda>(bs, _, _). bs = map (meaning inet_aton pcre srv con) is)"
  by (rule run_checks_ok[OF assms(2-4) same_view_refl reset_cache_ok[OF assms(1)]])

definition sample_context :: "comp_key_t \<Rightarrow> char list \<Rightarrow> nat option \<Rightarrow> nat option \<Rightarrow> char list list \<Rightarrow> data_config" where
  "sample_context c s p n ks = \<lparr>dc_comp = c, dc_cond = CONFIG_COND_EQ, dc_string = terminated s, dc_parent = Some 0,
     dc_prev = p, dc_next = n, dc_keys = map terminated ks\<rparr>"

definition sample_config :: specific_config where
  "sample_config = (default_conf sample_server)\<lparr>document_root := terminated ''/x'', server_tag := terminated ''tag''\<rparr>"

text \<open>\<open>$HTTP["url"] == "/x" { document-root } else $HTTP["host"] == "h" { tag }\<close>\<close>

definition config_server :: server where
  "config_server = sample_server\<lparr>contexts :=
     [(sample_context COMP_HTTP_URL ''/x'' None (Some 2) [''server.document-root''], sample_config, []),
      (sample_context COMP_HTTP_HOST ''h'' (Some 1) None [''server.tag''], sample_config, [])]\<rparr>"

definition config_connection :: connection where
  "config_connection = upd_uri (\<lambda>u. u\<lparr>authority := terminated ''h'', uri_path := terminated ''/x''\<rparr>)
     ((connection_init config_server)\<lparr>conditional_is_valid := {COMP_HTTP_HOST, COMP_HTTP_URL}\<rparr>)"

lemma config_server_contexts: "context_at config_server i =
    (if i = 1 then Some (sample_context COMP_HTTP_URL ''/x'' None (Some 2) [''server.document-root''])
     else if i = 2 then Some (sample_context COMP_HTTP_HOST ''h'' (Some 1) None [''server.tag'']) else None)"
  by (auto simp: context_at_def config_server_def nth_Cons split: nat.splits)

lemma config_connection_facts: "authority (con_uri config_connection) = [CHR ''h'', NUL]" "uri_path (con_uri config_connection) = [CHR ''/'', CHR ''x'', NUL]"
    "http_method (req config_connection) = HTTP_METHOD_GET" "conditional_is_valid config_connection = {COMP_HTTP_HOST, COMP_HTTP_URL}"
    "contexts config_server \<noteq> []" "length (contexts config_server) = 2"
    "cond_cache config_connection = replicate 3 \<lparr>cc_result = COND_RESULT_UNSET, cc_patterncount = 0,
        cc_matches = [], cc_comp_value = None, cc_comp_type = COMP_UNSET\<rparr>"
  by (simp_all add: config_connection_def upd_uri_def connection_init_def config_setup_connection_def config_server_def
      terminated_def numeral_3_eq_3)

lemma sample_verdicts: "own_verdict (\<lambda>_. None) (\<lambda>_ _. (0, [])) config_server config_connection 1 = Some COND_RESULT_TRUE"
    "own_verdict (\<lambda>_. None) (\<lambda>_ _. (0, [])) config_server config_connection 2 = Some COND_RESULT_TRUE"
  by (simp_all add: own_verdict_def config_server_contexts sample_context_def cond_subject_def host_subject_def buffer_of_def
      verdict_def decided_def config_connection_facts equal_bytes_def terminated_def cstr_def Let_def)

theorem config_checks_mean_witness:
  "valid (run_checks (\<lambda>_. None) (\<lambda>_ _. (0, [])) [2, 1] config_server config_connection)
     (\<lambda>(bs, _, _). bs = map (meaning (\<lambda>_. None) (\<lambda>_ _. (0, [])) config_server config_connection) [2, 1])"
proof (rule config_checks_mean[where ?con0.0 = config_connection])
  show "config_cond_cache_reset_item config_server config_connection COMP_LAST_ELEMENT = Some config_connection"
    by (simp add: config_cond_cache_reset_item_def config_connection_facts numeral_3_eq_3)
  show "chains_ok config_server"
    by (auto simp: chains_ok_def config_server_contexts sample_context_def split: if_splits)
  show "decidable_conditions (\<lambda>_. None) (\<lambda>_ _. (0, [])) config_server config_connection"
    using sample_verdicts method_name_defined[of HTTP_METHOD_GET]
    by (auto simp: decidable_conditions_def config_connection_facts config_server_contexts sample_context_def split: if_splits)
  show "\<forall>i \<in> set [2, 1]. context_at config_server i \<noteq> None" by (simp add: config_server_contexts)
qed

section \<open>Where the code does not do what it means to\<close>

text \<open>
  A condition on \<open>host:port\<close> never holds for a client that sends \<open>host:port\<close>: the port is appended
  a second time.
\<close>

lemma host_port_never_equal:
  assumes "dc_comp dc = COMP_HTTP_HOST" and "dc_cond dc = CONFIG_COND_EQ" and "context_at srv i = Some dc"
    and "authority (con_uri con) = dc_string dc" and "dc_string dc = terminated s" and "NUL \<notin> set s" and "CHR '':'' \<in> set s"
    and "own_verdict inet_aton pcre srv con i = Some v"
  shows "v = COND_RESULT_FALSE"
proof -
  have "cstr (terminated s) = s" using assms(6) by (simp add: terminated_def)
  with assms show ?thesis
    by (auto simp: own_verdict_def cond_subject_def host_subject_def Let_def buffer_of_def verdict_def decided_def equal_bytes_def
        terminated_def guard_def split: bind_splits if_splits)
qed

text \<open>A mask of 0 bits, which is meant to match every address, is a shift by the width of the type.\<close>

lemma mask_of_zero: "net_mask 0 = None"
  by (simp add: net_mask_def)

text \<open>A group with the number of the groups that matched is taken for one of them.\<close>

lemma group_behind_last:
  assumes "i < length (cond_cache con)" and "cc_patterncount (cond_cache con ! i) = 1" and "cc_comp_value (cond_cache con ! i) = Some Empty_String"
    and "cc_matches (cond_cache con ! i) = [0, 1, 0, 1]"
  shows "config_append_cond_match_buffer srv con i [] 1 = Some (1, appended [] [NUL])"
  using assms by (simp add: config_append_cond_match_buffer_def buffer_of_def)

text \<open>
  The branches of a chain are decided at different stages.  Here the host is known before the path: the
  else branch is merged first, and then the branch in front of it as well.
\<close>

lemma both_branches_merged:
  "do {
     con \<leftarrow> config_cond_cache_reset config_server config_connection;
     (srv, con) \<leftarrow> config_patch_connection (\<lambda>_. None) (\<lambda>_ _. (0, [])) config_server con COMP_HTTP_HOST;
     (srv, con) \<leftarrow> config_patch_connection (\<lambda>_. None) (\<lambda>_ _. (0, [])) srv con COMP_HTTP_URL;
     Some (document_root (conf con), server_tag (conf con)) } = Some (terminated ''/x'', terminated ''tag'')"
  by code_simp

text \<open>
  Resetting the conditions on one item only, as \<open>mod_extforward\<close> does for the address of the client,
  forgets that an earlier branch of the chain applies: its else branch then applies as well.
\<close>

lemma else_branch_after_reset:
  "do {
     let srv = sample_server\<lparr>contexts :=
       [(sample_context COMP_HTTP_HOST ''h'' None (Some 2) [], sample_config, []),
        (sample_context COMP_HTTP_REMOTE_IP ''1.2.3.4'' (Some 1) None [], sample_config, [])]\<rparr>;
     let con = config_connection\<lparr>dst_addr_buf := terminated ''1.2.3.4'', conditional_is_valid := {COMP_HTTP_HOST, COMP_HTTP_REMOTE_IP}\<rparr>;
     (b2, srv, con) \<leftarrow> config_check_cond (\<lambda>_. None) (\<lambda>_ _. (0, [])) srv con 2;
     (b1, srv, con) \<leftarrow> config_check_cond (\<lambda>_. None) (\<lambda>_ _. (0, [])) srv con 1;
     con \<leftarrow> config_cond_cache_reset_item srv con COMP_HTTP_REMOTE_IP;
     (b3, srv, con) \<leftarrow> config_check_cond (\<lambda>_. None) (\<lambda>_ _. (0, [])) srv con 2;
     Some (b1, b2, b3) } = Some (True, False, True)"
  by code_simp

end
