(* ===== verification/ResponsePrepare.thy ===== *)
theory ResponsePrepare
  imports ResponseHeader Config BufferSpec
begin

text \<open>
  \<open>http_response_prepare\<close> of \<open>response.c\<close>: from the request line to the file that is served.  The URL is
  split, decoded and simplified, the document root is put in front, and the file is looked up, with what
  follows it taken as the path info.  Plugins are asked in between.
\<close>

section \<open>The surroundings\<close>

text \<open>
  An entry of the stat cache, the answer to the \<open>n\<close>-th look-up of a path, and what else the request
  meets: the plugins, regular expressions, \<open>inet_aton\<close>, and the name of the own socket.  The
  content type is a buffer, \<open>None\<close> if it has no memory.
\<close>

record stat_entry =
  sce_symlink :: bool
  sce_dir :: bool
  sce_reg :: bool
  sce_length :: int
  sce_content_type :: "char list option"

datatype stat_answer = Found stat_entry | Missing errno_t

record env =
  plugins :: "plugin list"
  env_aton :: "char list \<Rightarrow> 32 word option"
  env_pcre :: pcre
  env_stat :: "nat \<Rightarrow> char list \<Rightarrow> stat_answer"
  env_own_name :: "char list option option"

section \<open>The parts of the URL\<close>

text \<open>\<open>buffer_to_lower\<close> works up to the first NUL.\<close>

definition lowered :: "char list \<Rightarrow> char list" where
  "lowered b = map to_lower_char (cstr b) @ drop (length (cstr b)) b"

definition with_slash :: "char list \<Rightarrow> char list" where
  "with_slash b = (if length b > 1 \<and> b ! (length b - 2) \<noteq> CHR ''/'' then appended b ''/'' else b)"

definition append_len :: "char list \<Rightarrow> char list \<Rightarrow> char list" where
  "append_len b s = (if s = [] then b else appended b s)"

definition split_uri :: "connection \<Rightarrow> connection option" where
  "split_uri con = do {
     guard (uri (req con) \<noteq> []);
     let u = cstr (uri (req con));
     let con = (if CHR ''#'' \<in> set u then upd_req (\<lambda>q. q\<lparr>uri := terminated (takeWhile (\<lambda>c. c \<noteq> CHR ''#'') u)\<rparr>) con else con);
     let u = cstr (uri (req con));
     Some (if CHR ''?'' \<in> set u
       then upd_uri (\<lambda>x. x\<lparr>query := terminated (tl (dropWhile (\<lambda>c. c \<noteq> CHR ''?'') u)),
              path_raw := terminated (takeWhile (\<lambda>c. c \<noteq> CHR ''?'') u)\<rparr>) con
       else upd_uri (\<lambda>x. x\<lparr>query := [], path_raw := copy_bytes (uri (req con))\<rparr>) con) }"

text \<open>The path is decoded in a scratch buffer and simplified into \<open>uri.path\<close>.\<close>

definition buffer_with :: "char list \<Rightarrow> buffer" where
  "buffer_with b = \<lparr>ptr = (if b = [] then None else Some (map Some b)), used = length b, bsize = length b\<rparr>"

definition clean_path :: "server \<Rightarrow> connection \<Rightarrow> (server \<times> connection) option" where
  "clean_path srv con = do {
     guard (path_raw (con_uri con) \<noteq> []);
     (_, b) \<leftarrow> buffer_urldecode_path (Some (buffer_with (copy_bytes (path_raw (con_uri con)))));
     b \<leftarrow> b;
     (_, d) \<leftarrow> buffer_path_simplify False (Some (buffer_with (uri_path (con_uri con)))) (Some b);
     d \<leftarrow> d;
     t \<leftarrow> block_bytes b (used b);
     p \<leftarrow> block_bytes d (used d);
     Some (srv\<lparr>tmp_buf := t\<rparr>, upd_uri (\<lambda>x. x\<lparr>uri_path := p\<rparr>) con) }"

definition is_star :: "char list \<Rightarrow> char list \<Rightarrow> bool option" where
  "is_star a b = do { c \<leftarrow> byte_at a 0; if c = CHR ''*'' then map_option (\<lambda>c. c = NUL) (byte_at b 1) else Some False }"

text \<open>A call of the plugins that may end the preparation; the other results go on.\<close>

definition stops :: "handler_t \<Rightarrow> bool" where
  "stops r \<longleftrightarrow> r = HANDLER_FINISHED \<or> r = HANDLER_COMEBACK \<or> r = HANDLER_WAIT_FOR_EVENT \<or> r = HANDLER_ERROR"

type_synonym step_result = "(handler_t option \<times> server \<times> connection) option"

definition ask :: "(plugin \<Rightarrow> hook option) \<Rightarrow> env \<Rightarrow> server \<Rightarrow> connection \<Rightarrow> step_result" where
  "ask sel e srv con = do {
     (r, srv, con) \<leftarrow> plugins_call sel (plugins e) srv con;
     Some (if stops r then Some r else None, srv, con) }"

text \<open>Steps in sequence: \<open>None\<close> goes on with the next step, a result ends the preparation.\<close>

definition go_on :: "step_result \<Rightarrow> (server \<Rightarrow> connection \<Rightarrow> step_result) \<Rightarrow> step_result" where
  "go_on m f = do { (r, srv, con) \<leftarrow> m; if r = None then f srv con else Some (r, srv, con) }"

fun patch_all :: "env \<Rightarrow> comp_key_t list \<Rightarrow> server \<Rightarrow> connection \<Rightarrow> (server \<times> connection) option" where
  "patch_all e [] srv con = Some (srv, con)"
| "patch_all e (c # cs) srv con = do {
     (srv, con) \<leftarrow> config_patch_connection (env_aton e) (env_pcre e) srv con c;
     patch_all e cs srv con }"

text \<open>The conditions on the connection, then scheme and authority, the conditions on headers, and the URL.\<close>

definition prepare_raw :: "env \<Rightarrow> server \<Rightarrow> connection \<Rightarrow> step_result" where
  "prepare_raw e srv con = do {
     con \<leftarrow> config_cond_cache_reset srv con;
     let con = config_setup_connection srv con;
     (srv, con) \<leftarrow> patch_all e [COMP_SERVER_SOCKET] srv con;
     let con = upd_uri (\<lambda>x. x\<lparr>scheme := terminated (if is_ssl (conf con) then ''https'' else ''http'')\<rparr>) con;
     host \<leftarrow> (if http_host (req con) = Null then Some (authority (con_uri con))
              else map_option copy_bytes (deref_buffer (headers (req con)) (http_host (req con))));
     let con = upd_uri (\<lambda>x. x\<lparr>authority := lowered host\<rparr>) con;
     (srv, con) \<leftarrow> patch_all e [COMP_HTTP_SCHEME, COMP_HTTP_HOST, COMP_HTTP_REMOTE_IP, COMP_HTTP_REFERER,
       COMP_HTTP_USER_AGENT, COMP_HTTP_COOKIE, COMP_HTTP_REQUEST_METHOD] srv con;
     con \<leftarrow> split_uri con;
     let con = (if request_count con > max_keep_alive_requests (conf con) then con\<lparr>keep_alive := 0\<rparr> else con);
     ask handle_uri_raw e srv con }"

definition prepare_clean :: "env \<Rightarrow> server \<Rightarrow> connection \<Rightarrow> step_result" where
  "prepare_clean e srv con = do {
     star \<leftarrow> (if http_method (req con) = HTTP_METHOD_OPTIONS then is_star (path_raw (con_uri con)) (path_raw (con_uri con)) else Some False);
     (srv, con) \<leftarrow> (if star then Some (srv, upd_uri (\<lambda>x. x\<lparr>uri_path := copy_bytes (path_raw x)\<rparr>) con) else clean_path srv con);
     (srv, con) \<leftarrow> patch_all e [COMP_HTTP_URL, COMP_HTTP_QUERY_STRING] srv con;
     let con = (if \<not> allow_http11 (conf con) then upd_req (\<lambda>q. q\<lparr>http_version := HTTP_VERSION_1_0\<rparr>) con else con);
     ask handle_uri_clean e srv con }"

text \<open>\<open>OPTIONS *\<close> is answered at once; else the document root is looked for.\<close>

definition prepare_docroot :: "env \<Rightarrow> server \<Rightarrow> connection \<Rightarrow> step_result" where
  "prepare_docroot e srv con = do {
     star \<leftarrow> (if http_method (req con) = HTTP_METHOD_OPTIONS then is_star (uri_path (con_uri con)) (path_raw (con_uri con)) else Some False);
     if star then do {
       con \<leftarrow> response_header_insert ''Allow'' (Some ''OPTIONS, GET, HEAD, POST'') con;
       Some (Some HANDLER_FINISHED, srv, con\<lparr>http_status := 200, file_finished := True\<rparr>) }
     else
       let con = upd_phys (\<lambda>p. p\<lparr>doc_root := copy_bytes (document_root (conf con)), rel_path := copy_bytes (uri_path (con_uri con))\<rparr>) con
       in ask handle_docroot e srv con }"

definition prepare_physical :: "env \<Rightarrow> server \<Rightarrow> connection \<Rightarrow> step_result" where
  "prepare_physical e srv con =
     (let con = (if force_lowercase_filenames (conf con) then upd_phys (\<lambda>p. p\<lparr>rel_path := lowered (rel_path p)\<rparr>) con else con);
          con = (if server_name con = [] then con\<lparr>server_name := copy_bytes (authority (con_uri con))\<rparr> else con);
          base = with_slash (copy_bytes (doc_root (physical con)));
          rel = rel_path (physical con);
          path = append_len base (butlast (if rel \<noteq> [] \<and> hd rel = CHR ''/'' then tl rel else rel));
          con = upd_phys (\<lambda>p. p\<lparr>basedir := copy_bytes base, phys_path := path\<rparr>) con
      in ask handle_physical e srv con)"

section \<open>The file\<close>

definition give_up :: "int \<Rightarrow> server \<Rightarrow> connection \<Rightarrow> step_result" where
  "give_up status srv con = Some (Some HANDLER_FINISHED, srv, upd_phys (\<lambda>p. p\<lparr>phys_path := []\<rparr>) (con\<lparr>http_status := status\<rparr>))"

text \<open>The last slash of a string.\<close>

definition last_slash :: "char list \<Rightarrow> nat option" where
  "last_slash s = (let r = dropWhile (\<lambda>c. c \<noteq> CHR ''/'') (rev s) in if r = [] then None else Some (length r - 1))"

text \<open>
  The path is cut at its slashes from the right until a file is found.  \<open>slash\<close> is where it was cut
  last, \<open>info\<close> where the path info begins; the loop stops in front of the base directory.
\<close>

fun pathinfo_loop :: "nat \<Rightarrow> env \<Rightarrow> nat \<Rightarrow> char list \<Rightarrow> nat \<Rightarrow> nat option \<Rightarrow> nat option \<Rightarrow>
    (stat_entry option \<times> char list \<times> nat option) option" where
  "pathinfo_loop 0 e k t base slash info = None"
| "pathinfo_loop (Suc fuel) e k t base slash info =
     (let path = (case slash of None \<Rightarrow> t | Some i \<Rightarrow> terminated (take i t)) in
      case env_stat e k (cstr path) of
        Found sce \<Rightarrow> Some (Some sce, path, info)
      | Missing _ \<Rightarrow>
          let slash = last_slash (case info of None \<Rightarrow> cstr t | Some i \<Rightarrow> take i (cstr t));
              info = (case slash of None \<Rightarrow> info | Some i \<Rightarrow> Some i)
          in (case slash of
               None \<Rightarrow> Some (None, path, info)
             | Some i \<Rightarrow> if base \<ge> 2 \<and> i > base - 2 then pathinfo_loop fuel e (k + 1) t base slash info
                 else Some (None, path, info)))"

definition prepare_file :: "env \<Rightarrow> server \<Rightarrow> connection \<Rightarrow> step_result" where
  "prepare_file e srv con = do {
     let path = phys_path (physical con);
     guard (path \<noteq> []);
     case env_stat e 0 (cstr path) of
       Found sce \<Rightarrow>
         if sce_symlink sce \<and> \<not> follow_symlink (conf con) then give_up 403 srv con
         else if sce_dir sce then do {
           guard (length path \<ge> 2);
           if path ! (length path - 2) \<noteq> CHR ''/'' then do {
             (_, con) \<leftarrow> http_response_redirect_to_directory srv (env_own_name e) con;
             Some (Some HANDLER_FINISHED, srv, con) }
           else Some (None, srv, con) }
         else Some (None, srv, con)
     | Missing errno \<Rightarrow>
         if errno = EACCES then give_up 403 srv con
         else if errno = ENOENT then give_up 404 srv con
         else if errno \<noteq> ENOTDIR then give_up 500 srv con
         else do {
           let t = copy_bytes path;
           let srv = srv\<lparr>tmp_buf := t\<rparr>;
           (found, path, cut) \<leftarrow> pathinfo_loop (length t + 2) e 1 t (length (basedir (physical con))) None None;
           let con = upd_phys (\<lambda>p. p\<lparr>phys_path := path\<rparr>) con;
           case found of
             None \<Rightarrow> give_up 404 srv con
           | Some sce \<Rightarrow>
               if \<not> sce_reg sce then give_up 404 srv con
               else if sce_symlink sce \<and> \<not> follow_symlink (conf con) then give_up 403 srv con
               else case cut of
                 None \<Rightarrow> Some (None, srv, con)
               | Some i \<Rightarrow> do {
                   let info = drop i (cstr t);
                   guard (length info < length (uri_path (con_uri con)));
                   Some (None, srv, upd_uri (\<lambda>x. x\<lparr>uri_path := terminated (take (length (uri_path x) - length info - 1) (uri_path x))\<rparr>)
                     (upd_req (\<lambda>q. q\<lparr>pathinfo := terminated info\<rparr>) con)) } } }"

section \<open>The whole\<close>

definition prepare_path :: "env \<Rightarrow> server \<Rightarrow> connection \<Rightarrow> step_result" where
  "prepare_path e srv con =
     (if mode con = DIRECT \<and> phys_path (physical con) = [] then
        go_on (prepare_raw e srv con) (\<lambda>srv con.
        go_on (prepare_clean e srv con) (\<lambda>srv con.
        go_on (prepare_docroot e srv con) (prepare_physical e)))
      else Some (None, srv, con))"

text \<open>A file nobody wanted is forbidden, the empty request of \<open>OPTIONS\<close> is fine.\<close>

definition prepare_subrequest :: "env \<Rightarrow> server \<Rightarrow> connection \<Rightarrow> step_result" where
  "prepare_subrequest e srv con = do {
     (r, srv, con) \<leftarrow> plugins_call handle_subrequest_start (plugins e) srv con;
     if r \<noteq> HANDLER_GO_ON then Some (Some r, srv, con)
     else if mode con = DIRECT \<and> http_status con = 0 then
       Some (Some HANDLER_FINISHED, srv, con\<lparr>http_status := if http_method (req con) = HTTP_METHOD_OPTIONS then 200 else 403\<rparr>)
     else Some (None, srv, con) }"

definition http_response_prepare :: "env \<Rightarrow> server \<Rightarrow> connection \<Rightarrow> (handler_t \<times> server \<times> connection) option" where
  "http_response_prepare e srv con =
     (if mode con = DIRECT \<and> http_status con \<noteq> 0 \<and> http_status con \<noteq> 200 then do {
        cq \<leftarrow> (if \<not> file_finished con then map_option snd (chunkqueue_reset (write_queue con)) else Some (write_queue con));
        Some (HANDLER_FINISHED, srv, con\<lparr>write_queue := cq\<rparr>) }
      else do {
        (r, srv, con) \<leftarrow> go_on (prepare_path e srv con) (\<lambda>srv con.
          if mode con = DIRECT then go_on (prepare_file e srv con) (prepare_subrequest e) else Some (None, srv, con));
        case r of
          Some r \<Rightarrow> Some (r, srv, con)
        | None \<Rightarrow> do {
            (r, srv, con) \<leftarrow> plugins_call handle_subrequest (plugins e) srv con;
            Some (if r = HANDLER_GO_ON then HANDLER_FINISHED else r, srv, con) } })"

section \<open>The path info\<close>

lemma last_slash_None: "last_slash s = None \<Longrightarrow> CHR ''/'' \<notin> set s"
  by (auto simp: last_slash_def Let_def dropWhile_eq_Nil_conv split: if_splits)

lemma last_slash_Some:
  assumes "last_slash s = Some j"
  shows "j < length s" "s ! j = CHR ''/''" "\<And>k. j < k \<Longrightarrow> k < length s \<Longrightarrow> s ! k \<noteq> CHR ''/''"
proof -
  define a where "a = takeWhile (\<lambda>c. c \<noteq> CHR ''/'') (rev s)"
  define b where "b = dropWhile (\<lambda>c. c \<noteq> CHR ''/'') (rev s)"
  have s: "rev s = a @ b" by (simp add: a_def b_def)
  have b: "b \<noteq> []" "j = length b - 1" using assms by (auto simp: last_slash_def Let_def b_def split: if_splits)
  then have hd: "hd b = CHR ''/''" using hd_dropWhile[of "\<lambda>c. c \<noteq> CHR ''/''" "rev s"] by (simp add: b_def)
  obtain b' where b': "b = CHR ''/'' # b'" using b(1) hd by (cases b) simp_all
  have "s = rev b' @ CHR ''/'' # rev a" using s b' by (metis append.assoc append_Cons append_Nil rev_append rev_rev_ident rev.simps(2))
  moreover have j: "j = length (rev b')" using b(2) b' by simp
  ultimately show "j < length s" "s ! j = CHR ''/''" by (simp_all add: nth_append)
  fix k assume k: "j < k" "k < length s"
  have "s ! k = rev a ! (k - Suc j)" using \<open>s = _\<close> j k(1) by (simp add: nth_append)
  moreover have "k - Suc j < length (rev a)" using \<open>s = _\<close> j k by simp
  ultimately have "s ! k \<in> set a" by (metis nth_mem set_rev)
  moreover have "CHR ''/'' \<notin> set a" unfolding a_def using set_takeWhileD by fastforce
  ultimately show "s ! k \<noteq> CHR ''/''" by metis
qed

text \<open>Where a path may be cut: at its slashes behind the base directory, from the right.\<close>

definition cuts :: "nat \<Rightarrow> char list \<Rightarrow> nat \<Rightarrow> nat list" where
  "cuts base p n = rev (filter (\<lambda>i. p ! i = CHR ''/'' \<and> base \<ge> 2 \<and> i > base - 2) [0..<n])"

fun first_found :: "env \<Rightarrow> nat \<Rightarrow> char list \<Rightarrow> nat list \<Rightarrow> (stat_entry \<times> nat) option" where
  "first_found e k p [] = None"
| "first_found e k p (i # is) = (case env_stat e k (take i p) of Found s \<Rightarrow> Some (s, i) | Missing _ \<Rightarrow> first_found e (k + 1) p is)"

lemma filter_upt_none: "j \<le> n \<Longrightarrow> \<forall>k. j \<le> k \<and> k < n \<longrightarrow> \<not> P k \<Longrightarrow> filter P [0..<n] = filter P [0..<j]"
  using upt_add_eq_append[of 0 j "n - j"] by (auto simp: filter_empty_conv)

lemma cuts_step:
  assumes "last_slash (take n p) = Some j" and "n \<le> length p"
  shows "cuts base p n = (if base \<ge> 2 \<and> j > base - 2 then j # cuts base p j else [])"
proof -
  note l = last_slash_Some[OF assms(1)]
  have j: "j < n" using l(1) assms(2) by simp
  have at: "p ! j = CHR ''/''" using l(2) j by simp
  let ?P = "\<lambda>i. p ! i = CHR ''/'' \<and> base \<ge> 2 \<and> i > base - 2"
  have "\<not> ?P k" if "Suc j \<le> k" "k < n" for k using l(3)[of k] that assms(2) by simp
  then have 1: "filter ?P [0..<n] = filter ?P [0..<Suc j]" using j by (intro filter_upt_none) auto
  show ?thesis
  proof (cases "base \<ge> 2 \<and> j > base - 2")
    case True
    with 1 at show ?thesis by (simp add: cuts_def)
  next
    case False
    then have "\<not> ?P k" if "k < Suc j" for k using that by auto
    then have "filter ?P [0..<Suc j] = []" by (auto simp: filter_empty_conv)
    with 1 False show ?thesis by (simp add: cuts_def)
  qed
qed

lemma cuts_none:
  assumes "last_slash (take n p) = None" and "n \<le> length p"
  shows "cuts base p n = []"
proof -
  have "p ! k \<noteq> CHR ''/''" if "k < n" for k
    using last_slash_None[OF assms(1)] that assms(2) by (metis in_set_conv_nth length_take min.absorb2 nth_take)
  then show ?thesis by (auto simp: cuts_def filter_empty_conv)
qed

definition found_at :: "char list \<Rightarrow> (stat_entry \<times> nat) option \<Rightarrow> stat_entry option \<times> char list \<times> nat option \<Rightarrow> bool" where
  "found_at p r = (\<lambda>(found, path, cut). found = map_option fst r \<and>
     (\<forall>s i. r = Some (s, i) \<longrightarrow> path = terminated (take i p) \<and> (case cut of None \<Rightarrow> i = length p | Some j \<Rightarrow> i = j)))"

lemma pathinfo_cut_ok:
  assumes "NUL \<notin> set p" and "i \<le> length p" and "i < fuel"
  shows "valid (pathinfo_loop fuel e k (terminated p) base (Some i) (Some i)) (found_at p (first_found e k p (i # cuts base p i)))"
  using assms(2,3)
proof (induction i arbitrary: fuel k rule: less_induct)
  case (less i)
  obtain n where fuel: "fuel = Suc n" using less.prems(2) by (cases fuel) auto
  have no: "NUL \<notin> set (take i p)" using assms(1) by (auto dest: in_set_takeD)
  have path: "take i (terminated p) = take i p" using less.prems(1) by (simp add: terminated_def)
  have c: "cstr (terminated (take i p)) = take i p" "cstr (terminated p) = p" using no assms(1) by (simp_all add: terminated_def)
  show ?case
  proof (cases "env_stat e k (take i p)")
    case (Found s)
    then show ?thesis by (simp add: fuel path c found_at_def)
  next
    case (Missing x)
    show ?thesis
    proof (cases "last_slash (take i p)")
      case None
      with Missing cuts_none[OF None less.prems(1), of base] show ?thesis by (simp add: fuel path c found_at_def Let_def)
    next
      case (Some j)
      have j: "j < i" using last_slash_Some(1)[OF Some] by simp
      show ?thesis
      proof (cases "base \<ge> 2 \<and> j > base - 2")
        case False
        with Missing Some cuts_step[OF Some less.prems(1), of base] show ?thesis by (auto simp: fuel path c found_at_def Let_def)
      next
        case True
        have "valid (pathinfo_loop n e (k + 1) (terminated p) base (Some j) (Some j)) (found_at p (first_found e (k + 1) p (j # cuts base p j)))"
          using less.IH[OF j, of n "k + 1"] j less.prems fuel by simp
        with True Missing Some cuts_step[OF Some less.prems(1), of base] show ?thesis by (simp add: fuel path c Let_def)
      qed
    qed
  qed
qed

lemma pathinfo_loop_ok:
  assumes "NUL \<notin> set p"
  shows "valid (pathinfo_loop (length (terminated p) + 2) e k (terminated p) base None None)
     (found_at p (first_found e k p (length p # cuts base p (length p))))"
proof -
  define m where "m = length p + 2"
  have fuel: "length (terminated p) + 2 = Suc m" by (simp add: terminated_def m_def)
  have c: "cstr (terminated p) = p" using assms by (simp add: terminated_def)
  show ?thesis
  proof (cases "env_stat e k p")
    case (Found s)
    then show ?thesis unfolding fuel by (simp add: c found_at_def)
  next
    case (Missing x)
    show ?thesis
    proof (cases "last_slash p")
      case None
      with Missing cuts_none[of "length p" p base] show ?thesis unfolding fuel by (simp add: c found_at_def Let_def)
    next
      case (Some j)
      note l = last_slash_Some[OF Some]
      show ?thesis
      proof (cases "base \<ge> 2 \<and> j > base - 2")
        case False
        with Missing Some cuts_step[of "length p" p j base] show ?thesis unfolding fuel by (auto simp: c found_at_def Let_def)
      next
        case True
        have "valid (pathinfo_loop m e (k + 1) (terminated p) base (Some j) (Some j))
            (found_at p (first_found e (k + 1) p (j # cuts base p j)))"
          using pathinfo_cut_ok[OF assms, of j m e "k + 1" base] l(1) by (simp add: m_def)
        with True Missing Some cuts_step[of "length p" p j base] show ?thesis unfolding fuel by (simp add: c Let_def)
      qed
    qed
  qed
qed

text \<open>
  C25: the search for the file of a path with path info always ends, and with the answer wanted: it asks
  for the whole path and then for the path cut at each of its slashes behind the base directory, from
  the right, and takes the first that exists; what was cut off is the path info.
\<close>

theorem pathinfo_first_found:
  assumes "NUL \<notin> set p"
  shows "\<exists>r. pathinfo_loop (length (terminated p) + 2) e k (terminated p) base None None = Some r \<and>
     found_at p (first_found e k p (length p # cuts base p (length p))) r"
  using pathinfo_loop_ok[OF assms] by (auto simp: valid_def)

lemma pathinfo_first_found_witness:
  "\<exists>r. pathinfo_loop (length (terminated ''/srv/a.php/x/y'') + 2)
       \<lparr>plugins = [], env_aton = \<lambda>_. None, env_pcre = \<lambda>_ _. (0, []),
        env_stat = \<lambda>_ p. if p = ''/srv/a.php'' then Found \<lparr>sce_symlink = False, sce_dir = False, sce_reg = True, sce_length = 0, sce_content_type = None\<rparr>
          else Missing ENOTDIR, env_own_name = None\<rparr> 1 (terminated ''/srv/a.php/x/y'') 6 None None = Some r \<and>
     found_at ''/srv/a.php/x/y'' (first_found
       \<lparr>plugins = [], env_aton = \<lambda>_. None, env_pcre = \<lambda>_ _. (0, []),
        env_stat = \<lambda>_ p. if p = ''/srv/a.php'' then Found \<lparr>sce_symlink = False, sce_dir = False, sce_reg = True, sce_length = 0, sce_content_type = None\<rparr>
          else Missing ENOTDIR, env_own_name = None\<rparr> 1 ''/srv/a.php/x/y'' (length ''/srv/a.php/x/y'' # cuts 6 ''/srv/a.php/x/y'' (length ''/srv/a.php/x/y''))) r"
  by (rule pathinfo_first_found) simp

end
