(* ===== verification/SafePath.thy ===== *)
theory SafePath
  imports ResponsePrepare
begin

text \<open>
  The file that \<open>http_response_prepare\<close> settles on lies below the document root, whatever the URL.
\<close>

section \<open>What the configuration leaves alone\<close>

definition same_url :: "connection \<Rightarrow> connection \<Rightarrow> bool" where
  "same_url c c' \<longleftrightarrow> con_uri c' = con_uri c \<and> physical c' = physical c \<and> mode c' = mode c \<and> req c' = req c"

lemma same_url_refl [simp]: "same_url c c"
  by (simp add: same_url_def)

lemma same_url_trans: "same_url a b \<Longrightarrow> same_url b c \<Longrightarrow> same_url a c"
  by (simp add: same_url_def)

lemma same_url_simps [simp]: "same_url c (c\<lparr>cond_cache := cc\<rparr>)" "same_url c (upd_conf f c)" "same_url c (c\<lparr>server_name := n\<rparr>)"
  "same_url c (c\<lparr>conditional_is_valid := v\<rparr>)" "same_url c (c\<lparr>keep_alive := k\<rparr>)" "same_url c (c\<lparr>con_etag_flags := fl\<rparr>)"
  by (simp_all add: same_url_def upd_conf_def)

lemma set_cache_url: "set_cache i f con = Some con' \<Longrightarrow> same_url con con'"
  by (auto simp: set_cache_def guard_def split: bind_splits if_splits)

lemma chain_false_url: "chain_false fuel srv p con = Some con' \<Longrightarrow> same_url con con'"
proof (induction fuel srv p con arbitrary: con' rule: chain_false.induct)
  case (3 fuel srv i con)
  then obtain dc con1 where "set_cache i (\<lambda>c. c\<lparr>cc_result := COND_RESULT_FALSE\<rparr>) con = Some con1"
    "chain_false fuel srv (dc_next dc) con1 = Some con'" "context_at srv i = Some dc" by (auto split: bind_splits)
  with 3(1) set_cache_url show ?case by (metis same_url_trans)
qed simp_all

lemma compare_url: "compare_subject pcre i dc b srv con = Some (r, con') \<Longrightarrow> same_url con con'"
proof -
  assume a: "compare_subject pcre i dc b srv con = Some (r, con')"
  then obtain l where l: "buffer_of srv con b = Some l" by (auto simp: compare_subject_def split: bind_splits)
  obtain n ms where p: "pcre i (if l = [] then None else Some (butlast l)) = (n, ms)" by (cases "pcre i (if l = [] then None else Some (butlast l))")
  show ?thesis
  proof (cases "dc_cond dc = CONFIG_COND_NOMATCH \<or> dc_cond dc = CONFIG_COND_MATCH")
    case True
    then have ne: "dc_cond dc \<noteq> CONFIG_COND_NE" "dc_cond dc \<noteq> CONFIG_COND_EQ" by auto
    from a l p True ne obtain con1 where 1: "set_cache i (\<lambda>c. c\<lparr>cc_matches := ms, cc_patterncount := n\<rparr>) con = Some con1"
      "(if n > 0 then set_cache i (\<lambda>c. c\<lparr>cc_comp_value := Some b, cc_comp_type := dc_comp dc\<rparr>) con1 else Some con1) = Some con'"
      by (auto simp: compare_subject_def Let_def split: bind_splits if_splits)
    then have "same_url con1 con'" by (auto dest: set_cache_url split: if_splits)
    with set_cache_url[OF 1(1)] show ?thesis by (rule same_url_trans)
  next
    case False
    with a l show ?thesis by (auto simp: compare_subject_def split: if_splits)
  qed
qed

lemma check_cond_url:
  "config_check_cond_nocache fuel ia pcre srv con i = Some (r, srv', con') \<Longrightarrow> same_url con con'"
  "config_check_cond_cached fuel ia pcre srv con i = Some (r, srv', con') \<Longrightarrow> same_url con con'"
proof (induction fuel ia pcre srv con i and fuel ia pcre srv con i arbitrary: r srv' con' and r srv' con'
    rule: config_check_cond_nocache_config_check_cond_cached.induct)
  case (1 fuel ia pcre srv con i)
  from "1.prems" obtain dc r1 srv1 con1 where 1: "context_at srv i = Some dc"
    "(case dc_parent dc of None \<Rightarrow> Some (COND_RESULT_TRUE, srv, con)
       | Some p \<Rightarrow> if p = 0 then Some (COND_RESULT_TRUE, srv, con) else config_check_cond_cached fuel ia pcre srv con p) = Some (r1, srv1, con1)"
    by (auto simp: config_check_cond_nocache.simps split: bind_splits)
  have u1: "same_url con con1"
    using 1(2) "1.IH"(1)[OF 1(1)] by (auto split: option.splits if_splits)
  show ?case
  proof (cases "r1 = COND_RESULT_TRUE")
    case False
    with "1.prems" 1 u1 show ?thesis by (simp add: config_check_cond_nocache.simps)
  next
    case True
    from "1.prems" 1 True obtain r2 srv2 con2 where 2:
      "(case dc_prev dc of None \<Rightarrow> Some (COND_RESULT_UNSET, srv1, con1)
         | Some p \<Rightarrow> do { (_, srv, con) \<leftarrow> config_check_cond_cached fuel ia pcre srv1 con1 p; r \<leftarrow> cached_result i con; Some (r, srv, con) }) =
        Some (r2, srv2, con2)" by (auto simp: config_check_cond_nocache.simps split: bind_splits)
    have u2: "same_url con con2"
    proof (cases "dc_prev dc")
      case None
      with 2 u1 show ?thesis by simp
    next
      case (Some p)
      with 2 obtain r' where "config_check_cond_cached fuel ia pcre srv1 con1 p = Some (r', srv2, con2)" by (auto split: bind_splits)
      from "1.IH"(2)[OF 1 refl refl _ Some this] True u1 same_url_trans show ?thesis by blast
    qed
    show ?thesis
    proof (cases "r2 = COND_RESULT_FALSE \<or> dc_comp dc \<notin> conditional_is_valid con2")
      case True
      with "1.prems" 1 \<open>r1 = _\<close> 2 u2 show ?thesis by (auto simp: config_check_cond_nocache.simps split: if_splits)
    next
      case False
      with "1.prems" 1 \<open>r1 = _\<close> 2 obtain s srv3 where 3: "cond_subject ia dc srv2 con2 = Some (s, srv3)"
        "(case s of Decided r \<Rightarrow> Some (r, srv3, con2)
          | Compare b \<Rightarrow> do { (r, con) \<leftarrow> compare_subject pcre i dc b srv3 con2; Some (r, srv3, con) }) = Some (r, srv', con')"
        by (auto simp: config_check_cond_nocache.simps split: bind_splits)
      then have "same_url con2 con'" by (auto dest: compare_url split: subject.splits bind_splits)
      with u2 show ?thesis by (rule same_url_trans)
    qed
  qed
next
  case (2 ia pcre srv con i)
  then show ?case by (simp add: config_check_cond_cached.simps)
next
  case (3 fuel ia pcre srv con i)
  from "3.prems" obtain r0 where r0: "cached_result i con = Some r0" by (auto simp: config_check_cond_cached.simps split: bind_splits)
  show ?case
  proof (cases "r0 = COND_RESULT_UNSET")
    case False
    with "3.prems" r0 show ?thesis by (simp add: config_check_cond_cached.simps)
  next
    case True
    from "3.prems" r0 True obtain dc r1 srv1 con1 con2 con3 where
      a: "context_at srv i = Some dc" "config_check_cond_nocache fuel ia pcre srv con i = Some (r1, srv1, con1)"
      "set_cache i (\<lambda>c. c\<lparr>cc_result := r1\<rparr>) con1 = Some con2"
      "(if r1 = COND_RESULT_TRUE then chain_false (length (contexts srv1)) srv1 (dc_next dc) con2 else Some con2) = Some con3"
      "set_cache i (\<lambda>c. c\<lparr>cc_comp_type := dc_comp dc\<rparr>) con3 = Some con'"
      by (auto simp: config_check_cond_cached.simps split: bind_splits)
    have "same_url con con1" by (rule "3.IH"[OF r0 _ a(1,2)]) (simp add: True)
    moreover have "same_url con2 con3" using a(4) by (auto dest: chain_false_url split: if_splits)
    ultimately show ?thesis using set_cache_url[OF a(3)] set_cache_url[OF a(5)] same_url_trans by blast
  qed
qed

lemma if_url: "same_url c x \<Longrightarrow> same_url c y \<Longrightarrow> same_url c (if b then x else y)"
  by simp

lemma patch_option_url: "same_url con (patch_option s name k con)"
  unfolding patch_option_def by (intro if_url same_url_simps same_url_refl)

lemma patch_options_url: "same_url con (fold (patch_option s name) ks con)"
  by (induction ks arbitrary: con) (auto intro: same_url_trans[OF patch_option_url])

lemma patch_contexts_url: "patch_contexts ia pcre st cs i srv con = Some (srv', con') \<Longrightarrow> same_url con con'"
proof (induction ia pcre st cs i srv con arbitrary: srv' con' rule: patch_contexts.induct)
  case (2 ia pcre st dc s name cs i srv con)
  show ?case
  proof (cases "dc_comp dc \<noteq> st")
    case True
    with 2 show ?thesis by simp
  next
    case False
    with 2(3) obtain ok srv1 con1 where 1: "config_check_cond ia pcre srv con i = Some (ok, srv1, con1)"
      "patch_contexts ia pcre st cs (i + 1) srv1 (if ok then fold (patch_option s name) (dc_keys dc) con1 else con1) = Some (srv', con')"
      by (auto split: bind_splits)
    have "same_url con con1" using 1(1) check_cond_url(2) by (auto simp: config_check_cond_def split: bind_splits)
    moreover have "same_url con1 (if ok then fold (patch_option s name) (dc_keys dc) con1 else con1)" by (simp add: patch_options_url)
    moreover have "same_url (if ok then fold (patch_option s name) (dc_keys dc) con1 else con1) con'"
      using 2(2)[OF False 1(1)] 1(2) False by simp
    ultimately show ?thesis using same_url_trans by blast
  qed
qed simp

lemma patch_connection_url: "config_patch_connection ia pcre srv con st = Some (srv', con') \<Longrightarrow> same_url con con'"
proof -
  assume "config_patch_connection ia pcre srv con st = Some (srv', con')"
  then obtain con1 where 1: "patch_contexts ia pcre st (contexts srv) 1 srv (con\<lparr>conditional_is_valid := insert st (conditional_is_valid con)\<rparr>) = Some (srv', con1)"
    "con' = con1\<lparr>con_etag_flags := conf_etag_flags (conf con1)\<rparr>" by (auto simp: config_patch_connection_def Let_def split: bind_splits)
  have "same_url (con\<lparr>conditional_is_valid := insert st (conditional_is_valid con)\<rparr>) con1" by (rule patch_contexts_url[OF 1(1)])
  with 1(2) show ?thesis by (simp add: same_url_def)
qed

lemma patch_all_url: "patch_all e cs srv con = Some (srv', con') \<Longrightarrow> same_url con con'"
proof (induction e cs srv con arbitrary: srv' con' rule: patch_all.induct)
  case (2 e c cs srv con)
  then obtain srv1 con1 where "config_patch_connection (env_aton e) (env_pcre e) srv con c = Some (srv1, con1)"
    "patch_all e cs srv1 con1 = Some (srv', con')" by (auto split: bind_splits)
  then show ?case using same_url_trans[OF patch_connection_url 2(1)[OF _ refl]] by simp
qed simp

section \<open>What plugins leave alone\<close>

definition hook_keeps :: "(connection \<Rightarrow> connection \<Rightarrow> bool) \<Rightarrow> hook \<Rightarrow> bool" where
  "hook_keeps R h \<longleftrightarrow> (\<forall>srv con. R con (snd (snd (h srv con))))"

text \<open>A plugin for virtual hosts may set the document root; the others leave the URL and the file alone.\<close>

definition same_but_root :: "connection \<Rightarrow> connection \<Rightarrow> bool" where
  "same_but_root c c' \<longleftrightarrow> con_uri c' = con_uri c \<and> (\<exists>r. physical c' = (physical c)\<lparr>doc_root := r\<rparr>) \<and> mode c' = mode c \<and> req c' = req c"

definition tame_plugins :: "plugin list \<Rightarrow> bool" where
  "tame_plugins ps \<longleftrightarrow> (\<forall>p \<in> set ps. (\<forall>h. handle_uri_raw p = Some h \<or> handle_uri_clean p = Some h \<or> handle_physical p = Some h \<longrightarrow>
       hook_keeps same_url h) \<and> (\<forall>h. handle_docroot p = Some h \<longrightarrow> hook_keeps same_but_root h))"

lemma ask_hooks_keeps:
  assumes "\<And>c. R c c" and "\<And>a b c. R a b \<Longrightarrow> R b c \<Longrightarrow> R a c" and "\<forall>h \<in> set hs. hook_keeps R h"
  shows "ask_hooks hs srv con = (r, srv', con') \<Longrightarrow> R con con'"
  using assms(3)
proof (induction hs srv con rule: ask_hooks.induct)
  case (1 srv con)
  then show ?case using assms(1) by simp
next
  case (2 f fs srv con)
  obtain r1 srv1 con1 where f: "f srv con = (r1, srv1, con1)" by (cases "f srv con")
  have "R con (snd (snd (f srv con)))" using 2(3) by (simp add: hook_keeps_def)
  then have "R con con1" by (simp add: f)
  show ?case
  proof (cases "r1 = HANDLER_GO_ON")
    case True
    have "R con1 con'" by (rule "2.IH"[OF f[symmetric] refl refl True]) (use 2(2,3) f True in simp_all)
    with \<open>R con con1\<close> show ?thesis by (rule assms(2))
  next
    case False
    with 2(2) f \<open>R con con1\<close> show ?thesis by simp
  qed
qed

lemma ask_keeps:
  assumes "\<And>c. R c c" and "\<And>a b c. R a b \<Longrightarrow> R b c \<Longrightarrow> R a c" and "\<forall>p \<in> set (plugins e). \<forall>h. sel p = Some h \<longrightarrow> hook_keeps R h"
    and "ask sel e srv con = Some (r, srv', con')"
  shows "R con con'"
proof -
  have "\<forall>h \<in> set (hooks_of sel (plugins e)). hook_keeps R h"
    using assms(3) by (auto simp: hooks_of_def List.map_filter_def)
  moreover obtain r' where "ask_hooks (hooks_of sel (plugins e)) srv con = (r', srv', con')"
    using assms(4) by (auto simp: ask_def plugins_call_ok split: prod.splits)
  ultimately show ?thesis using ask_hooks_keeps[of R] assms(1,2) by blast
qed

lemma same_but_root_rules: "same_but_root c c" "same_but_root a b \<Longrightarrow> same_but_root b c \<Longrightarrow> same_but_root a c"
proof -
  have "physical c = (physical c)\<lparr>doc_root := doc_root (physical c)\<rparr>" by simp
  then show "same_but_root c c" unfolding same_but_root_def by blast
  assume a: "same_but_root a b" "same_but_root b c"
  then obtain r r' where "physical b = (physical a)\<lparr>doc_root := r\<rparr>" "physical c = (physical b)\<lparr>doc_root := r'\<rparr>"
    by (auto simp: same_but_root_def)
  then have "physical c = (physical a)\<lparr>doc_root := r'\<rparr>" by simp
  with a show "same_but_root a c" by (auto simp: same_but_root_def)
qed

lemma ask_url:
  assumes "tame_plugins (plugins e)" and "ask sel e srv con = Some (r, srv', con')"
  shows "sel \<in> {handle_uri_raw, handle_uri_clean, handle_physical} \<Longrightarrow> same_url con con'"
    "sel = handle_docroot \<Longrightarrow> same_but_root con con'"
proof -
  assume "sel \<in> {handle_uri_raw, handle_uri_clean, handle_physical}"
  then have "\<forall>p \<in> set (plugins e). \<forall>h. sel p = Some h \<longrightarrow> hook_keeps same_url h" using assms(1) by (auto simp: tame_plugins_def)
  from ask_keeps[OF same_url_refl same_url_trans this assms(2)] show "same_url con con'" .
next
  assume "sel = handle_docroot"
  then have "\<forall>p \<in> set (plugins e). \<forall>h. sel p = Some h \<longrightarrow> hook_keeps same_but_root h" using assms(1) by (auto simp: tame_plugins_def)
  from ask_keeps[OF same_but_root_rules this assms(2)] show "same_but_root con con'" .
qed

section \<open>The path of the URL\<close>

lemma bind_someE: "m \<bind> f = Some y \<Longrightarrow> (\<And>x. m = Some x \<Longrightarrow> f x = Some y \<Longrightarrow> P) \<Longrightarrow> P"
  by (cases m) auto

lemma pair_someE: "(case p of (a, b) \<Rightarrow> f a b) = Some y \<Longrightarrow> (\<And>a b. p = (a, b) \<Longrightarrow> f a b = Some y \<Longrightarrow> P) \<Longrightarrow> P"
  by (cases p) auto

definition url_path :: "char list \<Rightarrow> char list" where
  "url_path u = takeWhile (\<lambda>c. c \<noteq> CHR ''?'') (takeWhile (\<lambda>c. c \<noteq> CHR ''#'') u)"

lemma split_uri_ok:
  assumes "uri (req con) = terminated u" and "NUL \<notin> set u" and "split_uri con = Some con'"
  shows "path_raw (con_uri con') = terminated (url_path u)" "physical con' = physical con" "mode con' = mode con"
    "http_method (req con') = http_method (req con)"
proof -
  let ?v = "takeWhile (\<lambda>c. c \<noteq> CHR ''#'') u"
  have v: "NUL \<notin> set ?v" using assms(2) by (auto dest: set_takeWhileD)
  have c: "cstr (terminated u) = u" "cstr (terminated ?v) = ?v" using assms(2) v by (simp_all add: terminated_def)
  have all: "d \<notin> set x \<Longrightarrow> takeWhile (\<lambda>c. c \<noteq> d) x = x" for d :: char and x by (auto simp: takeWhile_eq_all_conv)
  have same: "CHR ''#'' \<notin> set u \<Longrightarrow> ?v = u" by (rule all)
  have whole: "copy_bytes (terminated x) = terminated (takeWhile (\<lambda>c. c \<noteq> CHR ''?'') x)" if "CHR ''?'' \<notin> set x" for x
    unfolding all[OF that] by (simp add: copy_bytes_def terminated_def)
  define con1 where "con1 = (if CHR ''#'' \<in> set u then upd_req (\<lambda>q. q\<lparr>uri := terminated ?v\<rparr>) con else con)"
  have u1: "uri (req con1) = terminated ?v"
  proof (cases "CHR ''#'' \<in> set u")
    case False
    show ?thesis unfolding same[OF False] con1_def if_not_P[OF False] by (rule assms(1))
  qed (simp add: con1_def upd_req_def)
  have k1: "physical con1 = physical con" "mode con1 = mode con" "http_method (req con1) = http_method (req con)"
    by (simp_all add: con1_def upd_req_def)
  have "terminated u \<noteq> []" by (simp add: terminated_def)
  with assms(1,3) c have con': "con' = (if CHR ''?'' \<in> set ?v
       then upd_uri (\<lambda>x. x\<lparr>query := terminated (tl (dropWhile (\<lambda>c. c \<noteq> CHR ''?'') ?v)),
              path_raw := terminated (takeWhile (\<lambda>c. c \<noteq> CHR ''?'') ?v)\<rparr>) con1
       else upd_uri (\<lambda>x. x\<lparr>query := [], path_raw := copy_bytes (terminated ?v)\<rparr>) con1)"
    unfolding split_uri_def Let_def assms(1) c(1) con1_def[symmetric] u1 c(2) by simp
  have "path_raw (con_uri con') = terminated (url_path u) \<and> physical con' = physical con \<and> mode con' = mode con \<and>
    http_method (req con') = http_method (req con)"
    using k1 whole[of ?v] by (simp add: con' upd_uri_def url_path_def)
  then show "path_raw (con_uri con') = terminated (url_path u)" "physical con' = physical con" "mode con' = mode con"
    "http_method (req con') = http_method (req con)" by simp_all
qed

lemma url_path_NUL: "NUL \<notin> set u \<Longrightarrow> NUL \<notin> set (url_path u)"
  by (auto simp: url_path_def dest!: set_takeWhileD)

definition same_file :: "connection \<Rightarrow> connection \<Rightarrow> bool" where
  "same_file c c' \<longleftrightarrow> physical c' = physical c \<and> mode c' = mode c \<and> req c' = req c"

lemma same_file_trans: "same_file a b \<Longrightarrow> same_file b c \<Longrightarrow> same_file a c"
  by (simp add: same_file_def)

lemma same_file_simps [simp]: "same_file c (upd_uri f c)" "same_file c (config_setup_connection srv c)"
  by (simp_all add: same_file_def upd_uri_def config_setup_connection_def)

lemma same_url_file: "same_url a b \<Longrightarrow> same_file a b"
  by (simp add: same_file_def same_url_def)

lemma prepare_raw_ok:
  assumes "prepare_raw e srv con = Some (None, srv', con')" and "uri (req con) = terminated u" and "NUL \<notin> set u" and "tame_plugins (plugins e)"
  shows "path_raw (con_uri con') = terminated (url_path u)" "physical con' = physical con" "mode con' = mode con"
    "http_method (req con') = http_method (req con)"
proof -
  from assms(1) obtain con1 srv2 con2 host srv3 con3 con4 where
    1: "config_cond_cache_reset srv con = Some con1"
    "patch_all e [COMP_SERVER_SOCKET] srv (config_setup_connection srv con1) = Some (srv2, con2)"
    "patch_all e [COMP_HTTP_SCHEME, COMP_HTTP_HOST, COMP_HTTP_REMOTE_IP, COMP_HTTP_REFERER,
       COMP_HTTP_USER_AGENT, COMP_HTTP_COOKIE, COMP_HTTP_REQUEST_METHOD] srv2
       (upd_uri (\<lambda>x. x\<lparr>authority := lowered host\<rparr>) (upd_uri (\<lambda>x. x\<lparr>scheme := terminated (if is_ssl (conf con2) then ''https'' else ''http'')\<rparr>) con2)) = Some (srv3, con3)"
    "split_uri con3 = Some con4"
    "ask handle_uri_raw e srv3 (if request_count con4 > max_keep_alive_requests (conf con4) then con4\<lparr>keep_alive := 0\<rparr> else con4) = Some (None, srv', con')"
    unfolding prepare_raw_def Let_def by (elim bind_someE pair_someE) (rule that; simp)
  have a: "same_file con con1"
    using 1(1) by (auto simp: config_cond_cache_reset_def config_cond_cache_reset_item_def Let_def guard_def same_file_def split: bind_splits if_splits)
  have "same_file con con3"
    by (rule same_file_trans[OF a same_file_trans[OF same_file_simps(2) same_file_trans[OF same_url_file[OF patch_all_url[OF 1(2)]]
      same_file_trans[OF same_file_simps(1) same_file_trans[OF same_file_simps(1) same_url_file[OF patch_all_url[OF 1(3)]]]]]]])
  then have c3: "physical con3 = physical con" "mode con3 = mode con" "req con3 = req con" by (simp_all add: same_file_def)
  have "uri (req con3) = terminated u" using c3 assms(2) by simp
  note s = split_uri_ok[OF this assms(3) 1(4)]
  have "same_url (if request_count con4 > max_keep_alive_requests (conf con4) then con4\<lparr>keep_alive := 0\<rparr> else con4) con'"
    using ask_url(1)[OF assms(4) 1(5)] by simp
  moreover have "same_url con4 (if request_count con4 > max_keep_alive_requests (conf con4) then con4\<lparr>keep_alive := 0\<rparr> else con4)" by simp
  ultimately have "same_url con4 con'" using same_url_trans by blast
  then show "path_raw (con_uri con') = terminated (url_path u)" "physical con' = physical con" "mode con' = mode con"
    "http_method (req con') = http_method (req con)" using s c3 by (simp_all add: same_url_def)
qed

section \<open>The cleaned path\<close>

lemma buffer_with_rep: "buf_rep (buffer_with b) b"
  by (simp add: buf_rep_def buffer_with_def holds_def block_def)

lemma block_bytes_all: "buf_rep b bs \<Longrightarrow> block_bytes b (used b) = Some bs"
  using block_bytes_rep[of b bs "length bs"] by (simp add: buf_rep_def)

definition cleaned :: "char list \<Rightarrow> char list" where
  "cleaned u = simplified (urldec False (url_path u))"

lemma clean_path_ok:
  assumes "path_raw (con_uri con) = terminated (url_path u)" and "NUL \<notin> set u" and "drop_spaces (urldec False (url_path u)) \<noteq> []"
    and "clean_path srv con = Some (srv', con')"
  shows "con' = upd_uri (\<lambda>x. x\<lparr>uri_path := terminated (cleaned u)\<rparr>) con"
proof -
  let ?r = "url_path u"
  have n: "NUL \<notin> set ?r" "NUL \<notin> set (urldec False ?r)" using url_path_NUL[OF assms(2)] urldec_NUL by blast+
  have copy: "copy_bytes (terminated ?r) = terminated ?r" by (simp add: copy_bytes_def terminated_def)
  have "buf_rep (buffer_with (copy_bytes (terminated ?r))) (terminated ?r)" unfolding copy by (rule buffer_with_rep)
  from urldecode_ok[OF this n(1), of False] obtain b where b: "buffer_urldecode_path (Some (buffer_with (copy_bytes (terminated ?r)))) = Some (0, Some b)"
    "buf_rep b (terminated (urldec False ?r))" by (auto simp: valid_def ok_rep_def buffer_urldecode_path_def)
  from path_simplify_ok[OF b(2) buffer_with_rep n(2) assms(3), of False "uri_path (con_uri con)"] obtain d where
    d: "buffer_path_simplify False (Some (buffer_with (uri_path (con_uri con)))) (Some b) = Some (0, Some d)"
    "buf_rep d (terminated (simplified (urldec False ?r)))" by (auto simp: valid_def ok_rep_def)
  have "terminated ?r \<noteq> []" by (simp add: terminated_def)
  with assms(1,4) b(1) d(1) block_bytes_all[OF b(2)] block_bytes_all[OF d(2)] show ?thesis
    by (simp add: clean_path_def cleaned_def)
qed

lemma prepare_clean_ok:
  assumes "prepare_clean e srv con = Some (None, srv', con')" and "path_raw (con_uri con) = terminated (url_path u)" and "NUL \<notin> set u"
    and "drop_spaces (urldec False (url_path u)) \<noteq> []" and "tame_plugins (plugins e)" and "http_method (req con) \<noteq> HTTP_METHOD_OPTIONS"
  shows "uri_path (con_uri con') = terminated (cleaned u)" "physical con' = physical con" "mode con' = mode con"
    "http_method (req con') = http_method (req con)"
proof -
  from assms(1,6) obtain srv1 con1 srv2 con2 where 1: "clean_path srv con = Some (srv1, con1)"
    "patch_all e [COMP_HTTP_URL, COMP_HTTP_QUERY_STRING] srv1 con1 = Some (srv2, con2)"
    "ask handle_uri_clean e srv2 (if \<not> allow_http11 (conf con2) then upd_req (\<lambda>q. q\<lparr>http_version := HTTP_VERSION_1_0\<rparr>) con2 else con2) = Some (None, srv', con')"
    unfolding prepare_clean_def Let_def if_not_P[OF assms(6)] if_False bind.bind_lunit by (elim bind_someE pair_someE) (rule that; simp)
  have c1: "con1 = upd_uri (\<lambda>x. x\<lparr>uri_path := terminated (cleaned u)\<rparr>) con" by (rule clean_path_ok[OF assms(2-4) 1(1)])
  have c2: "same_url con1 con2" by (rule patch_all_url[OF 1(2)])
  have c3: "same_url (if \<not> allow_http11 (conf con2) then upd_req (\<lambda>q. q\<lparr>http_version := HTTP_VERSION_1_0\<rparr>) con2 else con2) con'"
    using ask_url(1)[OF assms(5) 1(3)] by simp
  show "uri_path (con_uri con') = terminated (cleaned u)" "physical con' = physical con" "mode con' = mode con"
    "http_method (req con') = http_method (req con)"
    using c1 c2 c3 by (auto simp: same_url_def upd_uri_def upd_req_def split: if_splits)
qed

lemma prepare_docroot_ok:
  assumes "prepare_docroot e srv con = Some (None, srv', con')" and "uri_path (con_uri con) = terminated s"
    and "tame_plugins (plugins e)" and "http_method (req con) \<noteq> HTTP_METHOD_OPTIONS"
  shows "rel_path (physical con') = terminated s" "mode con' = mode con"
proof -
  let ?c = "upd_phys (\<lambda>p. p\<lparr>doc_root := copy_bytes (document_root (conf con)), rel_path := copy_bytes (uri_path (con_uri con))\<rparr>) con"
  have "ask handle_docroot e srv ?c = Some (None, srv', con')" using assms(1,4) by (simp add: prepare_docroot_def)
  then have "same_but_root ?c con'" using ask_url(2)[OF assms(3)] by simp
  then show "rel_path (physical con') = terminated s" "mode con' = mode con" using assms(2)
    by (auto simp: same_but_root_def upd_phys_def copy_bytes_def terminated_def)
qed

section \<open>Paths without dots\<close>

definition dotless :: "char list \<Rightarrow> bool" where
  "dotless p \<longleftrightarrow> list_all (\<lambda>c. c \<notin> {''.'', ''..''}) (components p)"

lemma to_lower_marks: "to_lower_char c = CHR ''/'' \<longleftrightarrow> c = CHR ''/''" "to_lower_char c = CHR ''.'' \<longleftrightarrow> c = CHR ''.''" "to_lower_char c = NUL \<longleftrightarrow> c = NUL"
proof -
  have "\<forall>c. (to_lower_char c = CHR ''/'' \<longleftrightarrow> c = CHR ''/'') \<and> (to_lower_char c = CHR ''.'' \<longleftrightarrow> c = CHR ''.'') \<and> (to_lower_char c = NUL \<longleftrightarrow> c = NUL)"
    by (simp only: char_cases) (simp add: char_eval to_lower_char_def is_upper_def set_bit5_def char_of_def bit_0)
  then show "to_lower_char c = CHR ''/'' \<longleftrightarrow> c = CHR ''/''" "to_lower_char c = CHR ''.'' \<longleftrightarrow> c = CHR ''.''" "to_lower_char c = NUL \<longleftrightarrow> c = NUL" by blast+
qed

lemma components_lower: "components (map to_lower_char s) = map (map to_lower_char) (components s)"
proof (induction s)
  case (Cons c s)
  then show ?case by (cases "components s") (auto simp: to_lower_marks)
qed simp

lemma dotless_lower: "dotless s \<Longrightarrow> dotless (map to_lower_char s)"
proof -
  assume a: "dotless s"
  have "map to_lower_char c = ''.'' \<longleftrightarrow> c = ''.''" "map to_lower_char c = ''..'' \<longleftrightarrow> c = ''..''" for c
    by (auto simp: to_lower_marks map_eq_Cons_conv)
  with a show ?thesis by (simp add: dotless_def components_lower list_all_iff)
qed

lemma dotless_tail: "dotless (CHR ''/'' # s) \<Longrightarrow> dotless s"
  by (simp add: dotless_def)

lemma dotless_cut: "dotless p \<Longrightarrow> p ! k = CHR ''/'' \<Longrightarrow> k < length p \<Longrightarrow> dotless (take k p)"
proof -
  assume a: "dotless p" "p ! k = CHR ''/''" "k < length p"
  have "p = take k p @ ''/'' @ drop (Suc k) p" using id_take_nth_drop[OF a(3)] a(2) by simp
  with a(1) show ?thesis unfolding dotless_def by (metis components_snoc_slash list_all_append)
qed

lemma dotless_cleaned: "dotless (cleaned u)"
proof -
  obtain ts e where "components (cleaned u) = [] # ts @ (if e then [[]] else [])" "list_all (\<lambda>t. t \<notin> {[], ''.'', ''..''}) ts"
    using simplified_components[of "urldec False (url_path u)"] unfolding cleaned_def by blast
  then show ?thesis by (auto simp: dotless_def list_all_iff)
qed

lemma cleaned_root: "\<exists>s. cleaned u = CHR ''/'' # s"
  using simplified_root[of "urldec False (url_path u)"] unfolding cleaned_def by (cases "simplified (urldec False (url_path u))") auto

section \<open>The file that is found\<close>

text \<open>The path of the file is the base directory with a path behind it that has no dots.\<close>

definition below_root :: "connection \<Rightarrow> bool" where
  "below_root con \<longleftrightarrow> (basedir (physical con) \<noteq> [] \<longrightarrow> last (basedir (physical con)) = NUL) \<and>
     (\<exists>p. phys_path (physical con) = append_len (basedir (physical con)) p \<and> dotless p)"

lemma lowered_terminated: "NUL \<notin> set s \<Longrightarrow> lowered (terminated s) = terminated (map to_lower_char s)"
  by (simp add: lowered_def terminated_def)

lemma prepare_physical_ok:
  assumes "prepare_physical e srv con = Some (None, srv', con')" and "rel_path (physical con) = terminated (CHR ''/'' # s)"
    and "dotless s" and "NUL \<notin> set s" and "tame_plugins (plugins e)"
  shows "below_root con'" "mode con' = mode con"
proof -
  define rel where "rel = (if force_lowercase_filenames (conf con) then map to_lower_char s else s)"
  define base where "base = with_slash (copy_bytes (doc_root (physical con)))"
  define con1 where "con1 = (if force_lowercase_filenames (conf con) then upd_phys (\<lambda>p. p\<lparr>rel_path := lowered (rel_path p)\<rparr>) con else con)"
  define con2 where "con2 = (if server_name con1 = [] then con1\<lparr>server_name := copy_bytes (authority (con_uri con1))\<rparr> else con1)"
  have lower: "lowered (terminated (CHR ''/'' # s)) = terminated (CHR ''/'' # map to_lower_char s)"
    using lowered_terminated[of "CHR ''/'' # s"] assms(4) by (simp add: to_lower_marks)
  have r: "rel_path (physical con2) = terminated (CHR ''/'' # rel)" "doc_root (physical con2) = doc_root (physical con)" "mode con2 = mode con"
    using assms(2) lower by (simp_all add: con2_def con1_def rel_def upd_phys_def)
  have rel_tail: "butlast (if rel_path (physical con2) \<noteq> [] \<and> hd (rel_path (physical con2)) = CHR ''/'' then tl (rel_path (physical con2))
      else rel_path (physical con2)) = rel" unfolding r(1) by (simp add: terminated_def)
  let ?con3 = "upd_phys (\<lambda>p. p\<lparr>basedir := copy_bytes base, phys_path := append_len base rel\<rparr>) con2"
  have "ask handle_physical e srv ?con3 = Some (None, srv', con')"
    using assms(1) unfolding prepare_physical_def Let_def con1_def[symmetric] con2_def[symmetric] rel_tail r(2) base_def[symmetric] .
  then have k: "same_url ?con3 con'" using ask_url(1)[OF assms(5)] by simp
  have "copy_bytes base = base" by (auto simp: base_def with_slash_def copy_bytes_def appended_def terminated_def butlast_append)
  moreover have "base \<noteq> [] \<longrightarrow> last base = NUL" by (auto simp: base_def with_slash_def copy_bytes_def appended_def terminated_def)
  moreover have "dotless rel" using assms(3) dotless_lower by (simp add: rel_def)
  ultimately show "below_root con'" using k by (auto simp: below_root_def same_url_def upd_phys_def)
  show "mode con' = mode con" using k r(3) by (simp add: same_url_def upd_phys_def)
qed

lemma go_onE: "go_on m f = Some (None, x, y) \<Longrightarrow> (\<And>srv con. m = Some (None, srv, con) \<Longrightarrow> f srv con = Some (None, x, y) \<Longrightarrow> P) \<Longrightarrow> P"
  by (auto simp: go_on_def split: bind_splits if_splits)

lemma prepare_path_ok:
  assumes "prepare_path e srv con = Some (None, srv', con')" and "mode con = DIRECT" and "phys_path (physical con) = []"
    and "uri (req con) = terminated u" and "NUL \<notin> set u" and "drop_spaces (urldec False (url_path u)) \<noteq> []"
    and "tame_plugins (plugins e)" and "http_method (req con) \<noteq> HTTP_METHOD_OPTIONS"
  shows "below_root con'" "mode con' = DIRECT"
proof -
  from assms(1-3) obtain srv1 con1 srv2 con2 srv3 con3 where 1: "prepare_raw e srv con = Some (None, srv1, con1)"
    "prepare_clean e srv1 con1 = Some (None, srv2, con2)" "prepare_docroot e srv2 con2 = Some (None, srv3, con3)"
    "prepare_physical e srv3 con3 = Some (None, srv', con')"
    unfolding prepare_path_def by (simp del: bind_eq_Some_conv) (elim go_onE)
  note r = prepare_raw_ok[OF 1(1) assms(4,5,7)]
  have m1: "http_method (req con1) \<noteq> HTTP_METHOD_OPTIONS" using r(4) assms(8) by simp
  note c = prepare_clean_ok[OF 1(2) r(1) assms(5,6,7) m1]
  have m2: "http_method (req con2) \<noteq> HTTP_METHOD_OPTIONS" using c(4) m1 by simp
  note d = prepare_docroot_ok[OF 1(3) c(1) assms(7) m2]
  obtain s where s: "cleaned u = CHR ''/'' # s" using cleaned_root by blast
  have "dotless s" using dotless_cleaned[of u] dotless_tail s by simp
  moreover have "NUL \<notin> set s" using simplified_NUL[of "urldec False (url_path u)"] s urldec_NUL[OF url_path_NUL[OF assms(5)]]
    by (simp add: cleaned_def)
  ultimately show "below_root con'" "mode con' = DIRECT"
    using prepare_physical_ok[OF 1(4) _ _ _ assms(7), of s] d s r(3) c(3) assms(2) by simp_all
qed

text \<open>Every path the loop tries is the whole one or one cut at a slash behind the base directory.\<close>

definition cut_path :: "char list \<Rightarrow> nat \<Rightarrow> nat option \<Rightarrow> char list" where
  "cut_path t base slash = (case slash of None \<Rightarrow> t | Some i \<Rightarrow> terminated (take i t))"

definition good_cut :: "char list \<Rightarrow> nat \<Rightarrow> nat option \<Rightarrow> bool" where
  "good_cut t base slash \<longleftrightarrow> (case slash of None \<Rightarrow> True | Some i \<Rightarrow> 2 \<le> base \<and> base - 2 < i \<and> i < length (cstr t) \<and> t ! i = CHR ''/'')"

lemma cstr_nth: "i < length (cstr s) \<Longrightarrow> cstr s ! i = s ! i"
  unfolding cstr_def by (rule takeWhile_nth)

lemma pathinfo_path:
  assumes "pathinfo_loop fuel e k t base slash info = Some (f, path, c)" and "good_cut t base slash"
  shows "\<exists>s. good_cut t base s \<and> path = cut_path t base s"
  using assms
proof (induction fuel arbitrary: k slash info)
  case (Suc n)
  let ?path = "cut_path t base slash"
  let ?text = "case info of None \<Rightarrow> cstr t | Some i \<Rightarrow> take i (cstr t)"
  have step: "pathinfo_loop (Suc n) e k t base slash info = (case env_stat e k (cstr ?path) of
        Found sce \<Rightarrow> Some (Some sce, ?path, info)
      | Missing _ \<Rightarrow> (case last_slash ?text of
           None \<Rightarrow> Some (None, ?path, info)
         | Some i \<Rightarrow> if base \<ge> 2 \<and> i > base - 2 then pathinfo_loop n e (k + 1) t base (Some i) (Some i) else Some (None, ?path, Some i)))"
    by (auto simp: cut_path_def Let_def split: option.splits stat_answer.splits)
  show ?case
  proof (cases "path = ?path")
    case True
    with Suc.prems(2) show ?thesis by blast
  next
    case False
    with Suc.prems(1) obtain i where i: "last_slash ?text = Some i" "base \<ge> 2" "i > base - 2"
      "pathinfo_loop n e (k + 1) t base (Some i) (Some i) = Some (f, path, c)"
      unfolding step by (auto split: option.splits stat_answer.splits if_splits)
    have "i < length (cstr t)" "cstr t ! i = CHR ''/''" using last_slash_Some(1,2)[OF i(1)] by (auto split: option.splits)
    then have "good_cut t base (Some i)" using i(2,3) by (simp add: good_cut_def cstr_nth)
    from Suc.IH[OF i(4) this] show ?thesis .
  qed
qed simp

lemma append_len_length: "append_len b p \<noteq> b \<Longrightarrow> append_len b p = butlast b @ terminated p"
  by (simp add: append_len_def appended_def terminated_def split: if_splits)

lemma cut_below_root:
  assumes "t = append_len b p" and "dotless p" and "good_cut t (length b) s" and "b \<noteq> [] \<longrightarrow> last b = NUL"
  shows "\<exists>q. cut_path t (length b) s = append_len b q \<and> dotless q"
proof (cases s)
  case None
  with assms(1,2) show ?thesis by (auto simp: cut_path_def)
next
  case (Some i)
  have i: "2 \<le> length b" "length b - 2 < i" "i < length (cstr t)" "t ! i = CHR ''/''" using assms(3) by (simp_all add: good_cut_def Some)
  have lt: "i < length t" using i(3) length_takeWhile_le[of _ t] unfolding cstr_def by (rule less_le_trans)
  have b: "b \<noteq> []" "last b = NUL" "b = butlast b @ [NUL]" using i(1) assms(4) append_butlast_last_id[of b] by fastforce+
  have "t \<noteq> b"
  proof
    assume "t = b"
    with lt i(2) have "i = length b - 1" by simp
    with \<open>t = b\<close> b(1,2) i(4) show False by (simp add: last_conv_nth)
  qed
  then have t: "t = butlast b @ terminated p" using append_len_length assms(1) by metis
  define k where "k = i - length (butlast b)"
  have ik: "i = length (butlast b) + k" using i(1,2) by (simp add: k_def)
  have at: "terminated p ! k = CHR ''/''" using i(4) unfolding t ik by (simp only: nth_append_length_plus)
  have "k < length (terminated p)" using lt unfolding t ik by simp
  then have k: "k < length p" "p ! k = CHR ''/''" using at by (cases "k = length p"; simp add: terminated_def nth_append)+
  have "take i t = butlast b @ take k p" using k(1) unfolding t ik by (simp add: terminated_def)
  then have "cut_path t (length b) s = butlast b @ take k p @ [NUL]" by (simp add: cut_path_def Some terminated_def)
  also have "\<dots> = append_len b (take k p)"   proof (cases "take k p = []")
    case True
    then show ?thesis unfolding True using b(3) by (simp add: append_len_def)
  qed (simp add: append_len_def appended_def)
  finally show ?thesis using dotless_cut[OF assms(2) k(2,1)] by blast
qed

lemma prepare_file_ok:
  assumes "prepare_file e srv con = Some (None, srv', con')" and "below_root con"
  shows "below_root con'"
proof -
  let ?path = "phys_path (physical con)" and ?b = "basedir (physical con)"
  obtain p where p: "?path = append_len ?b p" "dotless p" "?b \<noteq> [] \<longrightarrow> last ?b = NUL" using assms(2) by (auto simp: below_root_def)
  have ne: "?path \<noteq> []" using assms(1) by (auto simp: prepare_file_def guard_def split: if_splits)
  have give: "give_up s a b \<noteq> Some (None, x, y)" for s a b x y by (simp add: give_up_def)
  show ?thesis
  proof (cases "env_stat e 0 (cstr ?path)")
    case (Found sce)
    then have "con' = con" using assms(1) give
      by (auto simp: prepare_file_def Let_def guard_def split: if_splits bind_splits)
    with assms(2) show ?thesis by simp
  next
    case (Missing x)
    have copy: "copy_bytes ?path = ?path"
    proof -
      have "last ?path = NUL" using p ne by (auto simp: append_len_def appended_def)
      then show ?thesis using ne append_butlast_last_id[OF ne] by (simp add: copy_bytes_def terminated_def)
    qed
    from assms(1) Missing ne give have "x = ENOTDIR" by (auto simp: prepare_file_def split: if_splits)
    with assms(1) Missing ne obtain found path cut where l:
      "pathinfo_loop (length ?path + 2) e 1 ?path (length ?b) None None = Some (found, path, cut)"
      "phys_path (physical con') = path \<and> basedir (physical con') = ?b"
      by (auto simp: prepare_file_def copy give Let_def guard_def upd_phys_def upd_uri_def upd_req_def split: bind_splits option.splits if_splits)
    have "good_cut ?path (length ?b) None" by (simp add: good_cut_def)
    from pathinfo_path[OF l(1) this] obtain s where "good_cut ?path (length ?b) s" "path = cut_path ?path (length ?b) s" by blast
    with cut_below_root[OF p(1,2) _ p(3)] l(2) p(3) show ?thesis by (auto simp: below_root_def)
  qed
qed

section \<open>Properties\<close>

text \<open>
  C26: whatever path the client asks for, with \<open>..\<close>, encoded or not, in it: when a request that starts
  anew gets as far as a file, the file lies below the document root.  Its path is the base
  directory followed by a path in which no component is a dot or two dots; that also holds
  for a path that was cut to find a path info.  Plugins may set the document root, answer
  the request or change whatever else, but their hooks for the URL and the physical path leave the URL, the path
  and the mode alone: this is not so of \<open>mod_alias\<close> and \<open>mod_rewrite\<close>, which replace the path or the URL.  The request is not an \<open>OPTIONS\<close>
  and its decoded path is not blank.
\<close>

theorem file_below_root:
  assumes "go_on (prepare_path e srv con) (prepare_file e) = Some (None, srv', con')" and "mode con = DIRECT"
    and "phys_path (physical con) = []" and "uri (req con) = terminated u" and "NUL \<notin> set u"
    and "drop_spaces (urldec False (url_path u)) \<noteq> []" and "tame_plugins (plugins e)" and "http_method (req con) \<noteq> HTTP_METHOD_OPTIONS"
  shows "below_root con'"
  using assms(1)
proof (rule go_onE)
  fix srv1 con1 assume 1: "prepare_path e srv con = Some (None, srv1, con1)" "prepare_file e srv1 con1 = Some (None, srv', con')"
  show "below_root con'" by (rule prepare_file_ok[OF 1(2) prepare_path_ok(1)[OF 1(1) assms(2-)]])
qed

text \<open>A request for \<open>/a/%2e%2e/b\<close> to a server on which every file exists.\<close>

definition found_env :: env where
  "found_env = \<lparr>plugins = [], env_aton = \<lambda>_. None, env_pcre = \<lambda>_ _. (0, []), env_stat = \<lambda>_ _. Found
     \<lparr>sce_symlink = False, sce_dir = False, sce_reg = True, sce_length = 0, sce_content_type = None\<rparr>, env_own_name = None\<rparr>"

definition dotted :: connection where
  "dotted = upd_req (\<lambda>q. q\<lparr>uri := terminated ''/a/%2e%2e/b''\<rparr>) (connection_init sample_server)"

lemma file_below_root_witness:
  "below_root (snd (snd (the (go_on (prepare_path found_env sample_server dotted) (prepare_file found_env)))))"
proof -
  have "map_option fst (go_on (prepare_path found_env sample_server dotted) (prepare_file found_env)) = Some None" by code_simp
  then obtain srv' con' where run: "go_on (prepare_path found_env sample_server dotted) (prepare_file found_env) = Some (None, srv', con')"
    by (cases "go_on (prepare_path found_env sample_server dotted) (prepare_file found_env)") auto
  have "below_root con'"
  proof (rule file_below_root[OF run, where u = "''/a/%2e%2e/b''"])
    show "drop_spaces (urldec False (url_path ''/a/%2e%2e/b'')) \<noteq> []" by code_simp
  qed (simp_all add: dotted_def upd_req_def connection_init_def config_setup_connection_def found_env_def tame_plugins_def)
  then show ?thesis by (simp add: run)
qed

end
