(* ===== verification/ResponseFields.thy ===== *)
theory ResponseFields
  imports ResponseHeader RequestRender
begin

text \<open>
  The headers of a response as a map from names: what setting one does to the others, and how a header
  that is set appears among the lines that are sent.
\<close>

section \<open>Well-formed header lists\<close>

definition resp_ok :: "header_array \<Rightarrow> bool" where
  "resp_ok hs \<longleftrightarrow> listed hs \<and> (\<forall>d \<in> set (elements hs). \<exists>k. key d = terminated k)"

definition field_at :: "char list \<Rightarrow> header_array \<Rightarrow> char list option" where
  "field_at name hs = do { d \<leftarrow> find_elem (elements hs) (fold_key (terminated name)); string_value d }"

lemma fold_terminated: "fold_key (terminated a) = fold_key (terminated b) \<longleftrightarrow> fold_key a = fold_key b"
  by (simp add: fold_key_def terminated_def)

lemma resp_ok_init: "resp_ok array_init"
proof -
  have "adata (array_init :: header_array) = []" by (simp add: array_init_def)
  moreover have "arr_inv (array_init :: header_array)" "elements (array_init :: header_array) = []" by (rule array_init_inv)+
  ultimately show ?thesis by (simp add: resp_ok_def listed_def strings_ok_def every_element_def)
qed

lemma resp_okD: "resp_ok hs \<Longrightarrow> filled hs" "resp_ok hs \<Longrightarrow> arr_inv hs" "resp_ok hs \<Longrightarrow> strings_ok hs"
  by (auto simp: resp_ok_def listed_def intro: arr_inv_filled)

lemma elements_length: "arr_inv hs \<Longrightarrow> length (elements hs) = a_used hs"
  unfolding arr_inv_def using rep_lengths(1) rep_elements by metis

lemma elements_string: "resp_ok hs \<Longrightarrow> d \<in> set (elements hs) \<Longrightarrow> is_string d"
proof -
  assume a: "resp_ok hs" "d \<in> set (elements hs)"
  obtain es ns where r: "arr_rep hs es ns" using resp_okD(2)[OF a(1)] by (auto simp: arr_inv_def)
  with a(2) have "Some d \<in> set (take (a_used hs) (adata hs))" using rep_elements[OF r] rep_facts(4)[OF r] by simp
  then show ?thesis using resp_okD(3)[OF a(1)] by (auto simp: strings_ok_def dest: in_set_takeD)
qed

lemma insert_elem_keys: "key d \<in> key ` set (insert_elem es e) \<Longrightarrow> key d \<in> insert (key e) (key ` set es)"
proof (induction es)
  case (Cons x xs)
  then show ?case by (cases "fk x = fk e") auto
qed simp

lemma find_insert_other: "k \<noteq> fk e \<Longrightarrow> find_elem (insert_elem es e) k = find_elem es k"
  by (simp add: find_insert)

section \<open>Setting a header\<close>

lemma store_string:
  assumes "listed a" and "is_string new" and "\<not> is_index_key new" and "tame (terminated k)" and "a_used a < INT_MAX"
  obtains ds b v ds' b' where "unused_or new a = (ds, b)" "string_value ds = Some v"
    "set_string (ds\<lparr>key := terminated k\<rparr>) (g v) = Some ds'" "array_insert_unique b ds' = Some (0, b')" "listed b'"
    "elements b' = insert_elem (elements a) ds'" "key ds' = terminated k" "string_value ds' = Some (g v)"
    "a_used b' \<le> a_used a + 1"
proof -
  have l: "arr_inv a" "strings_ok a" "every_element (\<lambda>d. \<not> is_index_key d) a" using assms(1) by (simp_all add: listed_def)
  obtain ds b where b: "unused_or new a = (ds, b)" "arr_inv b" "strings_ok b" "is_string ds" "elements b = elements a"
    "a_used b = a_used a" by (rule unused_or_ok[OF l(1,2) assms(2)])
  have n: "\<not> is_index_key ds" "every_element (\<lambda>d. \<not> is_index_key d) b"
    using unused_or_all[OF l(3) _ arr_inv_filled[OF l(1,2)] b(1)] assms(3) by simp_all
  obtain v where v: "string_value ds = Some v" using b(4) by (auto simp: is_string_def)
  have "is_string (ds\<lparr>key := terminated k\<rparr>)" using b(4) by simp
  from set_string_ok[OF this, of "g v"] obtain ds' where ds': "set_string (ds\<lparr>key := terminated k\<rparr>) (g v) = Some ds'"
    "is_string ds'" "string_value ds' = Some (g v)" "key ds' = terminated k" "\<not> is_index_key ds'" using n(1) by auto
  have kd: "keyed b ds' = ds'" using ds'(4,5) by (simp add: keyed_def terminated_def)
  have "tame (key (keyed b ds'))" using assms(4) ds'(4) by (simp add: kd)
  from insert_unique_ok[OF b(2) this] assms(5) b(6) obtain b' where ins: "array_insert_unique b ds' = Some (0, b')" "arr_inv b'"
    "elements b' = insert_elem (elements b) ds'" "a_used b' \<le> a_used b + 1" by (auto simp: kd valid_def)
  have "filled b" using arr_inv_filled[OF b(2,3)] .
  with filled_insert_unique[OF this ds'(2)] ins(1) assms(5) b(6) have "filled b'" by (auto simp: valid_def)
  then have "strings_ok b'" by (rule filledD(8))
  moreover have "every_element (\<lambda>d. \<not> is_index_key d) b'"
    using insert_unique_all[OF n(2) _ _ \<open>filled b\<close> ins(1)] ds'(5) by (simp add: kd)
  ultimately show ?thesis
    using that[OF b(1) v ds'(1) ins(1)] ins(2-4) ds'(3,4) b(5,6) by (simp add: listed_def)
qed

text \<open>What a change of one header keeps.\<close>

definition other_fields :: "char list \<Rightarrow> header_array \<Rightarrow> header_array \<Rightarrow> bool" where
  "other_fields name hs hs' \<longleftrightarrow> (\<forall>n. fold_key n \<noteq> fold_key name \<longrightarrow> field_at n hs' = field_at n hs)"

lemma insert_field:
  assumes "resp_ok (resp_headers (response con))" and "tame (terminated name)" and "a_used (resp_headers (response con)) < INT_MAX"
  obtains hs where "response_header_insert name s con = Some (upd_resp (\<lambda>r. r\<lparr>resp_headers := hs\<rparr>) con)" "resp_ok hs"
    "a_used hs \<le> a_used (resp_headers (response con)) + 1" "other_fields name (resp_headers (response con)) hs"
    "\<And>x. s = Some x \<Longrightarrow> find_elem (elements (resp_headers (response con))) (fold_key (terminated name)) = None \<Longrightarrow>
       field_at name hs = Some (terminated x)"
proof -
  let ?a = "resp_headers (response con)"
  have l: "listed ?a" using assms(1) by (simp add: resp_ok_def)
  obtain ds b v ds' b' where r: "unused_or data_response_init ?a = (ds, b)" "string_value ds = Some v"
    "set_string (ds\<lparr>key := terminated name\<rparr>) (copied s v) = Some ds'" "array_insert_unique b ds' = Some (0, b')" "listed b'"
    "elements b' = insert_elem (elements ?a) ds'" "key ds' = terminated name" "string_value ds' = Some (copied s v)"
    "a_used b' \<le> a_used ?a + 1"
    by (rule store_string[OF l is_string_init(2) _ assms(2,3), of "copied s"]) (simp add: data_response_init_def data_string_init_def)
  have run: "response_header_insert name s con = Some (upd_resp (\<lambda>r. r\<lparr>resp_headers := b'\<rparr>) con)"
    using r(1-4) by (simp add: response_header_insert_def)
  have "\<exists>k. key d = terminated k" if "d \<in> set (elements b')" for d
  proof -
    have "key d \<in> insert (key ds') (key ` set (elements ?a))" using insert_elem_keys that r(6) by (metis imageI)
    then show ?thesis using assms(1) r(7) by (auto simp: resp_ok_def)
  qed
  then have ok: "resp_ok b'" using r(5) by (simp add: resp_ok_def)
  have other: "other_fields name ?a b'"
    using r(6,7) by (simp add: other_fields_def field_at_def find_insert_other fold_terminated)
  show ?thesis
  proof (rule that[OF run ok r(9) other])
    fix x assume x: "s = Some x" "find_elem (elements ?a) (fold_key (terminated name)) = None"
    then have "find_elem (elements b') (fold_key (terminated name)) = Some ds'" using r(6,7) by (simp add: find_insert)
    then show "field_at name b' = Some (terminated x)" using r(8) x(1) by (simp add: field_at_def copied_def)
  qed
qed

lemma set_element:
  assumes "resp_ok hs" and "j < a_used hs" and "set_string (elements hs ! j) v = Some d"
  shows "resp_ok (hs\<lparr>adata := (adata hs)[j := Some d]\<rparr>)" "elements (hs\<lparr>adata := (adata hs)[j := Some d]\<rparr>) = (elements hs)[j := d]"
    "key d = key (elements hs ! j)" "string_value d = Some v"
proof -
  obtain es ns where rep: "arr_rep hs es ns" using resp_okD(2)[OF assms(1)] by (auto simp: arr_inv_def)
  note el = rep_elements[OF rep] and len = rep_lengths(1)[OF rep]
  let ?hs = "hs\<lparr>adata := (adata hs)[j := Some d]\<rparr>"
  have mem: "es ! j \<in> set (elements hs)" using el len assms(2) by simp
  obtain d' where "set_string (es ! j) v = Some d'" "is_string d'" "string_value d' = Some v" "key d' = key (es ! j)"
    "is_index_key d' = is_index_key (es ! j)" using set_string_ok[OF elements_string[OF assms(1) mem], of v] by blast
  then have d: "is_string d" "string_value d = Some v" "key d = key (es ! j)" "is_index_key d = is_index_key (es ! j)"
    using assms(3) el by simp_all
  have u: "arr_rep ?hs (es[j := d]) ns" using update_rep[OF rep assms(2), of d] d(3) rep_tame[OF rep assms(2)] by simp
  have ad: "adata hs ! j = Some (es ! j)" using rep_adata[OF rep assms(2)] .
  have "strings_ok ?hs" using resp_okD(3)[OF assms(1)] d(1) set_update_subset_insert[of "adata hs" j "Some d"]
    by (auto simp: strings_ok_def)
  moreover have ev: "every_element (\<lambda>d. \<not> is_index_key d) hs" using assms(1) by (simp add: resp_ok_def listed_def)
  have "\<not> is_index_key (es ! j)"
    using every_element_nth[OF ev _ ad] assms(2) rep_facts(1,3)[OF rep] by simp
  then have "every_element (\<lambda>d. \<not> is_index_key d) ?hs" using every_element_update[OF ev] d(4) by simp
  moreover have "arr_inv ?hs" using u by (auto simp: arr_inv_def)
  moreover have eu: "elements ?hs = es[j := d]" using rep_elements[OF u] .
  moreover have "\<exists>k. key x = terminated k" if "x \<in> set (es[j := d])" for x
    using that set_update_subset_insert[of es j d] assms(1) d(3) mem el by (auto simp: resp_ok_def)
  ultimately show "resp_ok ?hs" by (simp add: resp_ok_def listed_def)
  show "elements ?hs = (elements hs)[j := d]" using eu el by simp
  show "key d = key (elements hs ! j)" "string_value d = Some v" using d el by simp_all
qed

lemma find_update:
  assumes "arr_inv hs" and "j < a_used hs" and "fk d = fk (elements hs ! j)"
  shows "find_elem ((elements hs)[j := d]) k = (if k = fk d then Some d else find_elem (elements hs) k)"
proof -
  obtain es ns where rep: "arr_rep hs es ns" using assms(1) by (auto simp: arr_inv_def)
  note el = rep_elements[OF rep] and len = rep_lengths(1)[OF rep]
  have "replace_elem es d = es[j := d]"
    using elem_old[of j es d] assms(2,3) rep_keys_inj[OF rep, of _ j] len el by (metis less_irrefl order.strict_trans)
  with find_replace[of es d k] el show ?thesis by simp
qed

lemma get_index_listed:
  assumes "resp_ok hs" and "tame (terminated name)"
  shows "(find_elem (elements hs) (fold_key (terminated name)) = None \<and> (\<exists>p. array_get_index hs (terminated name) = Some (-1, p))) \<or>
     (\<exists>j p. j < a_used hs \<and> fk (elements hs ! j) = fold_key (terminated name) \<and> array_get_index hs (terminated name) = Some (int j, p) \<and>
       element_at hs j = Some (elements hs ! j) \<and> find_elem (elements hs) (fold_key (terminated name)) = Some (elements hs ! j))"
proof -
  obtain es ns where rep: "arr_rep hs es ns" using resp_okD(2)[OF assms(1)] by (auto simp: arr_inv_def)
  note el = rep_elements[OF rep] and len = rep_lengths(1)[OF rep]
  show ?thesis
    using find_elem_index[of es "fold_key (terminated name)"]
  proof (elim disjE exE conjE)
    fix j assume j: "j < length es" "fk (es ! j) = fold_key (terminated name)" "find_elem es (fold_key (terminated name)) = Some (es ! j)"
    have "element_at hs j = Some (es ! j)"
      using rep_adata[OF rep, of j] j(1) len rep_facts(1,3)[OF rep] by (simp add: element_at_def)
    moreover obtain p where "array_get_index hs (terminated name) = Some (int j, p)"
      using get_index_found[OF rep assms(2), of j] j len by auto
    ultimately have "j < a_used hs \<and> fk (elements hs ! j) = fold_key (terminated name) \<and> array_get_index hs (terminated name) = Some (int j, p) \<and>
       element_at hs j = Some (elements hs ! j) \<and> find_elem (elements hs) (fold_key (terminated name)) = Some (elements hs ! j)"
      using j len el by simp
    then show ?thesis by blast
  next
    assume "find_elem es (fold_key (terminated name)) = None" "\<forall>j < length es. fk (es ! j) \<noteq> fold_key (terminated name)"
    then show ?thesis using get_index_missing[OF rep assms(2)] len el by auto
  qed
qed

lemma overwrite_field:
  assumes "resp_ok (resp_headers (response con))" and "tame (terminated name)" and "a_used (resp_headers (response con)) < INT_MAX"
  obtains hs where "response_header_overwrite name s con = Some (upd_resp (\<lambda>r. r\<lparr>resp_headers := hs\<rparr>) con)" "resp_ok hs"
    "a_used hs \<le> a_used (resp_headers (response con)) + 1" "other_fields name (resp_headers (response con)) hs"
    "\<And>x. s = Some x \<Longrightarrow> NUL \<notin> set x \<Longrightarrow> field_at name hs = Some (terminated x)"
proof -
  let ?a = "resp_headers (response con)"
  from get_index_listed[OF assms(1,2)] show ?thesis
  proof (elim disjE exE conjE)
    fix p assume none: "find_elem (elements ?a) (fold_key (terminated name)) = None" "array_get_index ?a (terminated name) = Some (-1, p)"
    then have o: "response_header_overwrite name s con = response_header_insert name s con" by (simp add: response_header_overwrite_def)
    obtain hs where "response_header_insert name s con = Some (upd_resp (\<lambda>r. r\<lparr>resp_headers := hs\<rparr>) con)" "resp_ok hs"
      "a_used hs \<le> a_used ?a + 1" "other_fields name ?a hs" "\<And>x. s = Some x \<Longrightarrow> find_elem (elements ?a) (fold_key (terminated name)) = None \<Longrightarrow>
       field_at name hs = Some (terminated x)" by (rule insert_field[where s = s, OF assms]) (rule that; (assumption | simp))
    then show ?thesis using that o none(1) by simp
  next
    fix j p assume j: "j < a_used ?a" "fk (elements ?a ! j) = fold_key (terminated name)" "array_get_index ?a (terminated name) = Some (int j, p)"
      "element_at ?a j = Some (elements ?a ! j)"
    have str: "is_string (elements ?a ! j)"
      using elements_string[OF assms(1)] j(1) elements_length[OF resp_okD(2)[OF assms(1)]] by simp
    then obtain v where v: "string_value (elements ?a ! j) = Some v" by (auto simp: is_string_def)
    obtain d where d: "set_string (elements ?a ! j) (copied (map_option cstr s) v) = Some d" using set_string_ok[OF str] by blast
    note e = set_element[OF assms(1) j(1) d]
    let ?hs = "?a\<lparr>adata := (adata ?a)[j := Some d]\<rparr>"
    have find: "find_elem (elements ?hs) k = (if k = fold_key (terminated name) then Some d else find_elem (elements ?a) k)" for k
      using find_update[OF resp_okD(2)[OF assms(1)] j(1), of d k] e(2,3) j(2) by simp
    have "response_header_overwrite name s con = Some (upd_resp (\<lambda>r. r\<lparr>resp_headers := ?hs\<rparr>) con)"
      using j(3,4) v d by (simp add: response_header_overwrite_def upd_resp_def)
    moreover have "other_fields name ?a ?hs" by (simp add: other_fields_def field_at_def find fold_terminated)
    moreover have "field_at name ?hs = Some (terminated x)" if "s = Some x" "NUL \<notin> set x" for x
      using that e(4) by (simp add: field_at_def find copied_def)
    ultimately show ?thesis using that[of ?hs] e(1) by simp
  qed
qed

lemma tame_names [simp]: "tame (terminated ''Allow'')" "tame (terminated ''Content-Type'')" "tame (terminated ''Content-Length'')"
  by (simp_all add: tame_def terminated_def char_eval)

section \<open>The lines of a header that is set\<close>

text \<open>The values of the lines with a name, as a client sees them.\<close>

definition sent_as :: "char list \<Rightarrow> header_array \<Rightarrow> char list list" where
  "sent_as name hs = map snd (filter (\<lambda>h. fold_key (fst h) = fold_key name) (sent_headers (used_elements hs)))"

lemma sent_headers_Cons: "sent_headers (Some d # ds) =
    (case sent_value (Some d) of None \<Rightarrow> [] | Some h \<Rightarrow> [h]) @ sent_headers ds"
  by (simp add: sent_headers_def split: option.splits)

lemma used_elements_map: "arr_inv hs \<Longrightarrow> used_elements hs = map Some (elements hs)"
  using rep_elements rep_facts(4) unfolding arr_inv_def used_elements_def by metis

lemma distinct_keys: "arr_inv hs \<Longrightarrow> distinct (map (\<lambda>d. fk d) (elements hs))"
proof -
  assume "arr_inv hs"
  then obtain es ns where rep: "arr_rep hs es ns" by (auto simp: arr_inv_def)
  have "distinct (map (\<lambda>d. fk d) es)"
    using rep_keys_inj[OF rep] rep_lengths(1)[OF rep] by (simp add: distinct_conv_nth) metis
  then show ?thesis using rep_elements[OF rep] by simp
qed

lemma sent_of_elements:
  assumes "distinct (map (\<lambda>d. fk d) es)" and "\<forall>d \<in> set es. \<exists>k. key d = terminated k"
  shows "map snd (filter (\<lambda>h. fold_key (fst h) = fold_key name) (sent_headers (map Some es))) =
     (case do { d \<leftarrow> find_elem es (fold_key (terminated name)); sent_value (Some d) } of None \<Rightarrow> [] | Some h \<Rightarrow> [snd h])"
  using assms
proof (induction es)
  case Nil
  then show ?case by (simp add: sent_headers_def find_elem_def)
next
  case (Cons d es)
  from Cons.prems obtain k where k: "key d = terminated k" by auto
  have key: "fk d = fold_key (terminated name) \<longleftrightarrow> fold_key k = fold_key name" by (simp add: k fold_terminated)
  have name: "fst h = k" if "sent_value (Some d) = Some h" for h
    using that k by (auto simp: sent_value_def terminated_def bind_eq_Some_conv split: if_splits)
  let ?f = "\<lambda>h. fold_key (fst h) = fold_key name"
  have IH: "map snd (filter ?f (sent_headers (map Some es))) =
     (case do { d \<leftarrow> find_elem es (fold_key (terminated name)); sent_value (Some d) } of None \<Rightarrow> [] | Some h \<Rightarrow> [snd h])"
    using Cons by simp
  show ?case
  proof (cases "fk d = fold_key (terminated name)")
    case True
    have "fk d \<notin> (\<lambda>d. fk d) ` set es" using Cons.prems(1) by simp
    then have "\<forall>x \<in> set es. fk x \<noteq> fold_key (terminated name)" using True by (metis imageI)
    then have none: "find_elem es (fold_key (terminated name)) = None" by (simp add: find_elem_def find_None_iff)
    have "find_elem (d # es) (fold_key (terminated name)) = Some d" using True by (simp add: find_elem_def)
    with IH none True key name show ?thesis by (simp add: sent_headers_Cons split: option.splits)
  next
    case False
    then have "find_elem (d # es) (fold_key (terminated name)) = find_elem es (fold_key (terminated name))" by (simp add: find_elem_def)
    with IH False key name show ?thesis by (simp add: sent_headers_Cons split: option.splits)
  qed
qed

lemma sent_as_field:
  assumes "resp_ok hs"
  shows "sent_as name hs = (case do { d \<leftarrow> find_elem (elements hs) (fold_key (terminated name)); sent_value (Some d) } of
     None \<Rightarrow> [] | Some h \<Rightarrow> [snd h])"
  unfolding sent_as_def used_elements_map[OF resp_okD(2)[OF assms]]
  by (rule sent_of_elements[OF distinct_keys[OF resp_okD(2)[OF assms]]]) (use assms in \<open>simp add: resp_ok_def\<close>)

lemma not_internal:
  assumes "fold_key k = fold_key (CHR ''C'' # n)"
  shows "\<not> is_prefix ''X-LIGHTTPD-'' (cstr (k @ [NUL]))" "\<not> is_prefix ''X-Sendfile'' (cstr (k @ [NUL]))"
proof -
  obtain c k' where k: "k = c # k'" using assms by (cases k) (simp_all add: fold_key_def)
  then have c: "to_lower_char c = to_lower_char (CHR ''C'')" using assms by (simp add: fold_key_eq)
  then have "c \<noteq> CHR ''X''" by (auto simp: to_lower_char_def is_upper_def char_eval set_bit5_def char_of_def bit_0)
  then show "\<not> is_prefix ''X-LIGHTTPD-'' (cstr (k @ [NUL]))" "\<not> is_prefix ''X-Sendfile'' (cstr (k @ [NUL]))"
    using k by (auto simp: is_prefix_def cstr_def)
qed

lemma sent_as_set:
  assumes "resp_ok hs" and "field_at (CHR ''C'' # n) hs = Some (terminated x)"
  shows "sent_as (CHR ''C'' # n) hs = [x]"
proof -
  obtain d where d: "find_elem (elements hs) (fold_key (terminated (CHR ''C'' # n))) = Some d" "string_value d = Some (terminated x)"
    using assms(2) by (auto simp: field_at_def bind_eq_Some_conv)
  then have f: "fk d = fold_key (terminated (CHR ''C'' # n))" "d \<in> set (elements hs)" by (auto simp: find_elem_def find_Some_iff)
  then obtain k where k: "key d = terminated k" using assms(1) by (auto simp: resp_ok_def)
  then have "fold_key k = fold_key (CHR ''C'' # n)" using f(1) by (simp add: fold_terminated)
  from not_internal[OF this] have "header_sent (key d) (terminated x)" using k by (simp add: header_sent_def terminated_def)
  then show ?thesis using d by (simp add: sent_as_field[OF assms(1)] sent_value_def terminated_def)
qed

lemma sent_as_empty:
  assumes "resp_ok hs" and "field_at name hs \<in> {None, Some []}"
  shows "sent_as name hs = []"
proof (cases "find_elem (elements hs) (fold_key (terminated name))")
  case (Some d)
  then have "string_value d \<in> {None, Some []}" using assms(2) by (simp add: field_at_def)
  then have "sent_value (Some d) = None" by (auto simp: sent_value_def header_sent_def)
  with Some show ?thesis by (simp add: sent_as_field[OF assms(1)])
qed (simp add: sent_as_field[OF assms(1)])

end
