(* ===== verification/WritePrepare.thy ===== *)
theory WritePrepare
  imports ResponsePrepare ResponseFields
begin

text \<open>
  \<open>connection_handle_write_prepare\<close> and \<open>connection_handle_write\<close> of \<open>connections.c\<close>: the last touch
  on a response before its header is written, and the step that writes it.
\<close>

section \<open>The code\<close>

text \<open>The methods for which a response is left as it is.\<close>

definition known_method :: "http_method_t \<Rightarrow> bool" where
  "known_method m \<longleftrightarrow> m \<in> {HTTP_METHOD_GET, HTTP_METHOD_POST, HTTP_METHOD_HEAD, HTTP_METHOD_PUT, HTTP_METHOD_MKCOL,
     HTTP_METHOD_DELETE, HTTP_METHOD_COPY, HTTP_METHOD_MOVE, HTTP_METHOD_PROPFIND, HTTP_METHOD_PROPPATCH, HTTP_METHOD_LOCK,
     HTTP_METHOD_UNLOCK}"

text \<open>The response is finished without a body.\<close>

definition drop_body :: "connection \<Rightarrow> connection option" where
  "drop_body con = do {
     (_, cq) \<leftarrow> chunkqueue_reset (write_queue con);
     Some (upd_resp (\<lambda>r. r\<lparr>transfer_encoding := False\<rparr>) (con\<lparr>write_queue := cq, file_finished := True\<rparr>)) }"

definition method_status :: "connection \<Rightarrow> connection option" where
  "method_status con =
     (if mode con \<noteq> DIRECT \<or> known_method (http_method (req con)) then Some con
      else if http_method (req con) = HTTP_METHOD_OPTIONS then
        if (http_status con = 0 \<or> http_status con = 200) \<and> uri_path (con_uri con) \<noteq> [] \<and> hd (uri_path (con_uri con)) \<noteq> CHR ''*'' then do {
          con \<leftarrow> response_header_insert ''Allow'' (Some ''OPTIONS, GET, HEAD, POST'') con;
          drop_body (con\<lparr>parsed_content_length := False, http_status := 200\<rparr>) }
        else Some con
      else Some (con\<lparr>http_status := if http_status con \<in> {400, 414, 505, 207} then http_status con else 501\<rparr>))"

definition error_status :: "int \<Rightarrow> bool" where
  "error_status s \<longleftrightarrow> s \<in> {400, 401, 403, 404, 408, 409, 411, 416, 423, 500, 501, 503, 505}"

definition body_status :: "int \<Rightarrow> bool" where
  "body_status s \<longleftrightarrow> s \<in> {207, 200, 201, 300, 301, 302, 303, 307, 206}"

definition quoted :: "char list \<Rightarrow> char list" where
  "quoted s = DQUOTE # s @ [DQUOTE]"

definition page_title :: "int \<Rightarrow> char list" where
  "page_title s = decimal s @ '' - '' @ (case get_http_status_name s of None \<Rightarrow> [] | Some n \<Rightarrow> n)"

definition error_page :: "int \<Rightarrow> char list" where
  "error_page s = concat (map (\<lambda>l. l @ [LF])
     [''<?xml version='' @ quoted ''1.0'' @ '' encoding='' @ quoted ''iso-8859-1'' @ ''?>'',
      ''<!DOCTYPE html PUBLIC '' @ quoted ''-//W3C//DTD XHTML 1.0 Transitional//EN'',
      ''         '' @ quoted ''http://www.w3.org/TR/xhtml1/DTD/xhtml1-transitional.dtd'' @ ''>'',
      ''<html xmlns='' @ quoted ''http://www.w3.org/1999/xhtml'' @ '' xml:lang='' @ quoted ''en'' @ '' lang='' @ quoted ''en'' @ ''>'',
      '' <head>'',
      ''  <title>'' @ page_title s @ ''</title>'',
      '' </head>'',
      '' <body>'',
      ''  <h1>'' @ page_title s @ ''</h1>'',
      '' </body>'',
      ''</html>''])"

text \<open>The configured file for the status, if there is one; else the page above.\<close>

definition error_file :: "env \<Rightarrow> server \<Rightarrow> connection \<Rightarrow> (server \<times> connection) option" where
  "error_file e srv con =
     (if errorfile_prefix (conf con) = [] then Some (srv, con)
      else do {
        let name = append_len (copy_bytes (errorfile_prefix (conf con)))
          (case get_http_status_body_name (http_status con) of None \<Rightarrow> [] | Some n \<Rightarrow> n);
        let con = upd_phys (\<lambda>p. p\<lparr>phys_path := name\<rparr>) con;
        case env_stat e 0 (cstr name) of
          Missing _ \<Rightarrow> Some (srv, con)
        | Found sce \<Rightarrow> do {
            (_, srv, c) \<leftarrow> http_chunk_append_file srv (Some (con\<lparr>file_finished := True\<rparr>)) name 0 (sce_length sce);
            con \<leftarrow> c;
            con \<leftarrow> response_header_overwrite ''Content-Type'' (map_option butlast (sce_content_type sce)) con;
            Some (srv, con) } })"

definition error_body :: "env \<Rightarrow> server \<Rightarrow> connection \<Rightarrow> (server \<times> connection) option" where
  "error_body e srv con =
     (if mode con \<noteq> DIRECT then Some (srv, con)
      else do {
        (srv, con) \<leftarrow> error_file e srv (upd_phys (\<lambda>p. p\<lparr>phys_path := []\<rparr>) (con\<lparr>file_finished := False\<rparr>));
        if file_finished con then Some (srv, con)
        else do {
          (a, cq) \<leftarrow> chunkqueue_get_append_buffer (write_queue con);
          cq \<leftarrow> put_mem cq a (terminated (error_page (http_status con)));
          let con = upd_phys (\<lambda>p. p\<lparr>phys_path := []\<rparr>) (con\<lparr>file_finished := True, write_queue := cq\<rparr>);
          con \<leftarrow> response_header_overwrite ''Content-Type'' (Some ''text/html'') con;
          Some (srv, con) } })"

definition status_body :: "env \<Rightarrow> server \<Rightarrow> connection \<Rightarrow> (server \<times> connection) option" where
  "status_body e srv con =
     (if error_status (http_status con) then error_body e srv con
      else if body_status (http_status con) then Some (srv, con)
      else map_option (Pair srv) (drop_body (con\<lparr>parsed_content_length := False\<rparr>)))"

text \<open>An element that is there is made empty, so it is not sent.\<close>

definition hide_header :: "char list \<Rightarrow> connection \<Rightarrow> connection option" where
  "hide_header name con = do {
     (i, _) \<leftarrow> array_get_index (resp_headers (response con)) (terminated name);
     if i \<noteq> -1 then do {
       ds \<leftarrow> element_at (resp_headers (response con)) (nat i);
       ds \<leftarrow> set_string ds [];
       Some (upd_resp (\<lambda>r. r\<lparr>resp_headers := (resp_headers r)\<lparr>adata := (adata (resp_headers r))[nat i := Some ds]\<rparr>\<rparr>) con) }
     else Some con }"

definition no_body_status :: "int \<Rightarrow> bool" where
  "no_body_status s \<longleftrightarrow> 100 \<le> s \<and> s < 200 \<or> s = 204 \<or> s = 304"

definition announce :: "server \<Rightarrow> connection \<Rightarrow> (server \<times> connection) option" where
  "announce srv con =
     (if file_finished con then
        if \<not> parsed_content_length con \<and> \<not> transfer_encoding (response con) then do {
          qlen \<leftarrow> chunkqueue_length (write_queue con);
          if no_body_status (http_status con) then map_option (Pair srv) (hide_header ''Content-Length'' con)
          else if qlen > 0 \<or> http_method (req con) \<noteq> HTTP_METHOD_HEAD then do {
            con \<leftarrow> response_header_overwrite ''Content-Length'' (Some (decimal qlen)) con;
            Some (srv\<lparr>tmp_buf := terminated (decimal qlen)\<rparr>, con) }
          else Some (srv, con) }
        else Some (srv, con)
      else
        let con = (if \<not> parsed_content_length con \<and> \<not> transfer_encoding (response con) then con\<lparr>keep_alive := 0\<rparr> else con);
            con = (if parsed_connection con \<and> keep_alive con \<noteq> 0 \<and> resp_keep_alive (response con) = 0 then con\<lparr>keep_alive := 0\<rparr> else con)
        in Some (srv, con))"

definition connection_handle_write_prepare ::
    "env \<Rightarrow> (int \<Rightarrow> char list) \<Rightarrow> char list \<Rightarrow> server \<Rightarrow> connection \<Rightarrow> (server \<times> connection) option" where
  "connection_handle_write_prepare e http_date package srv con = do {
     con \<leftarrow> method_status con;
     let con = (if http_status con = 0 then con\<lparr>http_status := 403\<rparr> else con);
     (srv, con) \<leftarrow> status_body e srv con;
     (srv, con) \<leftarrow> announce srv con;
     con \<leftarrow> (if http_method (req con) = HTTP_METHOD_HEAD then drop_body con else Some con);
     http_response_write_header http_date package srv con }"

text \<open>After a write that took everything the response ends, after a failed one the connection does.\<close>

definition connection_handle_write ::
    "backend \<Rightarrow> net_io \<Rightarrow> wire \<Rightarrow> server \<Rightarrow> connection \<Rightarrow> (wire \<times> server \<times> connection) option" where
  "connection_handle_write backend io w srv con = do {
     (r, w, srv, con, cq) \<leftarrow> network_write_chunkqueue backend io w srv con (write_queue con);
     let con = con\<lparr>write_queue := cq\<rparr>;
     if r = 0 then
       if file_finished con then do {
         let con = con\<lparr>state := CON_STATE_RESPONSE_END\<rparr>;
         (_, srv) \<leftarrow> joblist_append srv con;
         Some (w, srv, con) }
       else Some (w, srv, con)
     else if r = -1 \<or> r = -2 then do {
       let con = con\<lparr>state := CON_STATE_ERROR\<rparr>;
       (_, srv) \<leftarrow> joblist_append srv con;
       Some (w, srv, con) }
     else if r = 1 then Some (w, srv, con\<lparr>is_writable := False\<rparr>)
     else Some (w, srv, con) }"

section \<open>Queues that nothing was sent of\<close>

definition whole :: "(char list \<Rightarrow> char list) \<Rightarrow> chunk \<Rightarrow> bool" where
  "whole fs c \<longleftrightarrow> c_offset c = 0 \<and> (case ctype c of
       MEM_CHUNK \<Rightarrow> True
     | FILE_CHUNK \<Rightarrow> 0 \<le> f_start c \<and> 0 \<le> f_length c \<and> f_start c + f_length c \<le> int (length (fs (cstr (f_name c))))
     | UNUSED_CHUNK \<Rightarrow> False)"

definition whole_queue :: "(char list \<Rightarrow> char list) \<Rightarrow> chunkqueue \<Rightarrow> char list \<Rightarrow> bool" where
  "whole_queue fs q s \<longleftrightarrow> (\<exists>cs. cq_rep q cs \<and> list_all (whole fs) cs \<and> pending fs cs = s)"

lemma whole_bare [simp]: "whole fs (bare c) = whole fs c"
  by (simp add: whole_def split: chunk_type.splits)

lemma chunk_length_bare [simp]: "chunk_length (bare c) = chunk_length c"
  by (simp add: chunk_length_def split: chunk_type.splits)

lemma whole_length: "whole fs c \<Longrightarrow> chunk_length c = int (length (chunk_bytes fs c))"
  by (auto simp: whole_def chunk_length_def chunk_bytes_def of_nat_diff Suc_le_eq split: chunk_type.splits)

lemma whole_lengths: "list_all (whole fs) cs \<Longrightarrow> sum_list (map chunk_length cs) = int (length (pending fs cs))"
  by (induction cs) (auto simp: whole_length)

lemma queue_length:
  assumes "whole_queue fs q s"
  shows "chunkqueue_length q = Some (int (length s))"
proof -
  obtain as us where a: "shape q as us" "list_all (whole fs) (items q as)" "pending fs (items q as) = s"
    using assms by (auto simp: whole_queue_def cq_rep_def)
  have l: "lseg (cells q) (cq_first q) as" "distinct as" using a(1) by (auto simp: shape_def)
  show ?thesis
    using sum_loop_ok[OF l(1) lseg_length[OF l], of chunk_length 0] whole_lengths[OF a(2)] a(3)
    by (simp add: chunkqueue_length_def)
qed

lemma reset_whole:
  assumes "whole_queue fs q s"
  obtains gone q' where "chunkqueue_reset q = Some (gone, q')" "whole_queue fs q' []"
proof -
  obtain cs where cs: "cq_rep q cs" "list_all (whole fs) cs" using assms by (auto simp: whole_queue_def)
  have "\<forall>c \<in> set cs. ctype c \<noteq> UNUSED_CHUNK" using cs(2) by (auto simp: list_all_iff whole_def split: chunk_type.splits)
  from chunkqueue_reset_empty_ok[OF cs(1) this] obtain gone q' where "chunkqueue_reset q = Some (gone, q')" "cq_rep q' []" by blast
  moreover have "whole_queue fs q' []" unfolding whole_queue_def using calculation(2) by (intro exI[of _ "[]"]) simp
  ultimately show ?thesis using that by blast
qed

lemma add_last_whole:
  assumes "whole_queue fs q s" and "\<And>c. c_next (f c) = c_next c" and "\<And>c. whole fs (f c) \<and> chunk_bytes fs (f c) = t"
  shows "valid (add_last f q) (\<lambda>(a, q'). whole_queue fs q' (s @ t))"
proof -
  obtain cs where cs: "cq_rep q cs" "list_all (whole fs) cs" "pending fs cs = s" using assms(1) by (auto simp: whole_queue_def)
  obtain a q' c where "add_last f q = Some (a, q')" "cq_rep q' (cs @ [bare (f c)])"
    using add_last_ok[of q cs f, OF cs(1) assms(2)] by (auto simp: valid_def)
  then show ?thesis using cs(2,3) assms(3) by (auto simp: whole_queue_def intro!: exI[of _ "cs @ [bare (f c)]"])
qed

text \<open>The error page is written into a buffer at the end of the queue.\<close>

lemma append_put_whole:
  assumes "whole_queue fs q s"
  obtains a q1 q2 where "chunkqueue_get_append_buffer q = Some (a, q1)" "put_mem q1 a (terminated m) = Some q2"
    "whole_queue fs q2 (s @ m)"
proof -
  obtain cs where cs: "cq_rep q cs" "list_all (whole fs) cs" "pending fs cs = s" using assms(1) by (auto simp: whole_queue_def)
  let ?f = "\<lambda>c. c\<lparr>ctype := MEM_CHUNK, c_offset := 0, c_mem := []\<rparr>"
  obtain a q1 c as us where 1: "add_last ?f q = Some (a, q1)" "shape q1 (as @ [a]) us" "items q1 (as @ [a]) = cs @ [bare (?f c)]"
    using add_last_ok[OF cs(1), of ?f] by (auto simp: valid_def)
  obtain d q2 where 2: "get_chunk q1 a = Some d" "put_mem q1 a (terminated m) = Some q2" "shape q2 (as @ [a]) us"
    "items q2 (as @ [a]) = items q1 as @ [(bare d)\<lparr>c_mem := terminated m\<rparr>]" using put_mem_ok[of q1 as a "[]" us "terminated m"] 1(2) by (simp del: items_append) blast
  have "bare d = bare (?f c)" "items q1 as = cs" using 1(3) 2(1) by (auto simp: items_append items_Cons get_chunk_iff)
  then have rep: "cq_rep q2 (cs @ [(bare (?f c))\<lparr>c_mem := terminated m\<rparr>])" using 2(3,4) by (auto simp: cq_rep_def)
  have "whole fs ((bare (?f c))\<lparr>c_mem := terminated m\<rparr>)" "chunk_bytes fs ((bare (?f c))\<lparr>c_mem := terminated m\<rparr>) = m"
    by (simp_all add: whole_def chunk_bytes_def terminated_def)
  then have "whole_queue fs q2 (s @ m)"
    using rep cs(2,3) unfolding whole_queue_def by (intro exI[of _ "cs @ [(bare (?f c))\<lparr>c_mem := terminated m\<rparr>]"]) simp
  moreover have "chunkqueue_get_append_buffer q = Some (a, q1)" using 1(1) by (simp add: chunkqueue_get_append_buffer_def)
  ultimately show ?thesis using that 2(2) by blast
qed

lemma append_file_whole:
  assumes "whole_queue fs q s" and "0 \<le> n" and "n \<le> int (length (fs (cstr (copy_bytes fn))))"
  shows "valid (chunkqueue_append_file q fn 0 n) (\<lambda>(r, q'). whole_queue fs q' (s @ take (nat n) (fs (cstr (copy_bytes fn)))))"
proof (cases "n = 0")
  case False
  then show ?thesis using assms
    by (auto simp: chunkqueue_append_file_def valid_bind_iff chunk_bytes_def whole_def
        intro!: valid_weaken[OF add_last_whole[where t = "take (nat n) (fs (cstr (copy_bytes fn)))"]])
qed (use assms in \<open>simp add: chunkqueue_append_file_def\<close>)

section \<open>The steps\<close>

definition resp_state :: "(char list \<Rightarrow> char list) \<Rightarrow> nat \<Rightarrow> connection \<Rightarrow> char list \<Rightarrow> bool" where
  "resp_state fs n con s \<longleftrightarrow> resp_ok (resp_headers (response con)) \<and> a_used (resp_headers (response con)) + n \<le> INT_MAX \<and>
     whole_queue fs (write_queue con) s"

definition kept :: "connection \<Rightarrow> connection \<Rightarrow> bool" where
  "kept con con' \<longleftrightarrow> req con' = req con \<and> mode con' = mode con \<and> conf con' = conf con"

text \<open>A file is as long as the stat cache says.\<close>

definition files_known :: "env \<Rightarrow> (char list \<Rightarrow> char list) \<Rightarrow> bool" where
  "files_known e fs \<longleftrightarrow> (\<forall>n p sce. env_stat e n p = Found sce \<longrightarrow> 0 \<le> sce_length sce \<and> sce_length sce \<le> int (length (fs p)))"

lemma resp_stateD:
  assumes "resp_state fs (Suc n) con s"
  shows "resp_ok (resp_headers (response con))" "a_used (resp_headers (response con)) < INT_MAX" "whole_queue fs (write_queue con) s"
  using assms by (auto simp: resp_state_def)

lemma resp_state_set:
  assumes "resp_state fs (Suc n) con s" and "resp_ok hs" and "a_used hs \<le> a_used (resp_headers (response con)) + 1"
  shows "resp_state fs n (upd_resp (\<lambda>r. r\<lparr>resp_headers := hs\<rparr>) con) s"
  using assms by (auto simp: resp_state_def upd_resp_def)

lemma resp_state_less: "resp_state fs (Suc n) con s \<Longrightarrow> resp_state fs n con s"
  by (simp add: resp_state_def)

lemma drop_body_ok:
  assumes "resp_state fs n con s"
  obtains q where "drop_body con = Some (upd_resp (\<lambda>r. r\<lparr>transfer_encoding := False\<rparr>) (con\<lparr>write_queue := q, file_finished := True\<rparr>))"
    "whole_queue fs q []"
proof -
  obtain gone q where "chunkqueue_reset (write_queue con) = Some (gone, q)" "whole_queue fs q []"
    using reset_whole assms unfolding resp_state_def by blast
  with that show ?thesis by (simp add: drop_body_def)
qed

lemma method_status_ok:
  assumes "resp_state fs (Suc n) con s"
  shows "valid (method_status con) (\<lambda>con'. (\<exists>s'. resp_state fs n con' s' \<and> (known_method (http_method (req con)) \<longrightarrow> s' = s)) \<and> kept con con' \<and>
     (transfer_encoding (response con') \<longrightarrow> transfer_encoding (response con)))"
proof -
  consider "mode con \<noteq> DIRECT \<or> known_method (http_method (req con))"
    | "mode con = DIRECT" "http_method (req con) = HTTP_METHOD_OPTIONS" "\<not> known_method (http_method (req con))"
    | "mode con = DIRECT" "http_method (req con) \<noteq> HTTP_METHOD_OPTIONS" "\<not> known_method (http_method (req con))" by blast
  then show ?thesis
  proof cases
    case 1
    with resp_state_less[OF assms] show ?thesis by (auto simp: method_status_def kept_def)
  next
    case 2
    obtain hs where hs: "response_header_insert ''Allow'' (Some ''OPTIONS, GET, HEAD, POST'') con = Some (upd_resp (\<lambda>r. r\<lparr>resp_headers := hs\<rparr>) con)"
      "resp_ok hs" "a_used hs \<le> a_used (resp_headers (response con)) + 1"
      by (rule insert_field[where name = "''Allow''" and s = "Some ''OPTIONS, GET, HEAD, POST''", OF resp_stateD(1)[OF assms] tame_names(1) resp_stateD(2)[OF assms]]) (rule that; assumption)
    let ?c = "(upd_resp (\<lambda>r. r\<lparr>resp_headers := hs\<rparr>) con)\<lparr>parsed_content_length := False, http_status := 200\<rparr>"
    have c: "resp_state fs n ?c s" using resp_state_set[OF assms hs(2,3)] by (simp add: resp_state_def upd_resp_def)
    obtain q where "drop_body ?c = Some (upd_resp (\<lambda>r. r\<lparr>transfer_encoding := False\<rparr>) (?c\<lparr>write_queue := q, file_finished := True\<rparr>))"
      "whole_queue fs q []" by (rule drop_body_ok[OF c])
    with 2 hs(1) c resp_state_less[OF assms] show ?thesis
      by (auto simp: method_status_def kept_def resp_state_def upd_resp_def)
  next
    case 3
    with resp_state_less[OF assms] show ?thesis by (auto simp: method_status_def kept_def resp_state_def)
  qed
qed

lemma append_file_ok:
  assumes "resp_state fs n con s" and "\<not> transfer_encoding (response con)" and "0 \<le> l" and "l \<le> int (length (fs (cstr (copy_bytes fn))))"
  obtains q s' where "http_chunk_append_file srv (Some con) fn 0 l = Some (0, srv, Some (con\<lparr>write_queue := q\<rparr>))" "whole_queue fs q s'"
proof -
  obtain r q where q: "chunkqueue_append_file (write_queue con) fn 0 l = Some (r, q)"
    "whole_queue fs q (s @ take (nat l) (fs (cstr (copy_bytes fn))))"
    using append_file_whole[of fs "write_queue con" s l fn] assms(1,3,4) by (auto simp: resp_state_def valid_def)
  with assms(2) that show ?thesis
    by (simp add: http_chunk_append_file_def append_size_def append_line_end_def chunked_def)
qed

lemma copied_name: "append_len (copy_bytes b) s = copy_bytes (append_len (copy_bytes b) s)"
  by (auto simp: append_len_def copy_bytes_def appended_def terminated_def butlast_append)

definition error_page_used :: "env \<Rightarrow> connection \<Rightarrow> bool" where
  "error_page_used e con \<longleftrightarrow> errorfile_prefix (conf con) = [] \<or>
     (\<exists>x. env_stat e 0 (cstr (append_len (copy_bytes (errorfile_prefix (conf con)))
        (case get_http_status_body_name (http_status con) of None \<Rightarrow> [] | Some n \<Rightarrow> n))) = Missing x)"

lemma error_file_ok:
  assumes "resp_state fs (Suc n) con s" and "\<not> transfer_encoding (response con)" and "files_known e fs" and "\<not> file_finished con"
  shows "valid (error_file e srv con) (\<lambda>(srv', con'). srv' = srv \<and> kept con con' \<and> http_status con' = http_status con \<and>
     \<not> transfer_encoding (response con') \<and> parsed_content_length con' = parsed_content_length con \<and>
     (if error_page_used e con then \<not> file_finished con' \<and> resp_state fs (Suc n) con' s
      else file_finished con' \<and> (\<exists>s'. resp_state fs n con' s')))"
proof -
  let ?name = "append_len (copy_bytes (errorfile_prefix (conf con))) (case get_http_status_body_name (http_status con) of None \<Rightarrow> [] | Some n \<Rightarrow> n)"
  let ?con = "upd_phys (\<lambda>p. p\<lparr>phys_path := ?name\<rparr>) con"
  consider "errorfile_prefix (conf con) = []" | x where "errorfile_prefix (conf con) \<noteq> []" "env_stat e 0 (cstr ?name) = Missing x"
    | sce where "errorfile_prefix (conf con) \<noteq> []" "env_stat e 0 (cstr ?name) = Found sce" by (cases "env_stat e 0 (cstr ?name)") auto
  then show ?thesis
  proof cases
    case 1
    with assms show ?thesis by (simp add: error_file_def kept_def error_page_used_def)
  next
    case 2
    then have "error_page_used e con" by (auto simp: error_page_used_def)
    with 2 assms show ?thesis by (auto simp: error_file_def kept_def resp_state_def upd_phys_def)
  next
    case 3
    let ?c1 = "?con\<lparr>file_finished := True\<rparr>"
    have st: "resp_state fs (Suc n) ?c1 s" "\<not> transfer_encoding (response ?c1)" using assms(1,2) by (simp_all add: resp_state_def upd_phys_def)
    have "0 \<le> sce_length sce" "sce_length sce \<le> int (length (fs (cstr (copy_bytes ?name))))"
      using assms(3) 3(2) copied_name[of "errorfile_prefix (conf con)"] unfolding files_known_def by (metis, metis)
    from append_file_ok[OF st this] obtain q s' where q:
      "http_chunk_append_file srv (Some ?c1) ?name 0 (sce_length sce) = Some (0, srv, Some (?c1\<lparr>write_queue := q\<rparr>))" "whole_queue fs q s'" by blast
    let ?c2 = "?c1\<lparr>write_queue := q\<rparr>"
    have st2: "resp_state fs (Suc n) ?c2 s'" using st(1) q(2) by (simp add: resp_state_def)
    obtain hs where hs: "response_header_overwrite ''Content-Type'' (map_option butlast (sce_content_type sce)) ?c2 =
        Some (upd_resp (\<lambda>r. r\<lparr>resp_headers := hs\<rparr>) ?c2)" "resp_ok hs" "a_used hs \<le> a_used (resp_headers (response ?c2)) + 1"
      by (rule overwrite_field[where name = "''Content-Type''" and s = "map_option butlast (sce_content_type sce)",
            OF resp_stateD(1)[OF st2] tame_names(2) resp_stateD(2)[OF st2]]) (rule that; assumption)
    have "error_file e srv con = Some (srv, upd_resp (\<lambda>r. r\<lparr>resp_headers := hs\<rparr>) ?c2)"
      using 3 q(1) hs(1) by (simp add: error_file_def Let_def)
    moreover have "resp_state fs n (upd_resp (\<lambda>r. r\<lparr>resp_headers := hs\<rparr>) ?c2) s'" by (rule resp_state_set[OF st2 hs(2,3)])
    moreover have "\<not> error_page_used e con" using 3 by (simp add: error_page_used_def)
    ultimately show ?thesis using assms(2) by (auto simp: kept_def upd_resp_def upd_phys_def)
  qed
qed

lemma error_body_ok:
  assumes "resp_state fs (Suc n) con s" and "mode con = DIRECT \<longrightarrow> \<not> transfer_encoding (response con)" and "files_known e fs"
  shows "valid (error_body e srv con) (\<lambda>(srv', con'). srv' = srv \<and> kept con con' \<and> http_status con' = http_status con \<and>
     (mode con = DIRECT \<longrightarrow> parsed_content_length con' = parsed_content_length con \<and> file_finished con') \<and>
     (transfer_encoding (response con') \<longrightarrow> transfer_encoding (response con)) \<and> (\<exists>s'. resp_state fs n con' s' \<and>
     (mode con = DIRECT \<and> error_page_used e con \<longrightarrow> s' = s @ error_page (http_status con) \<and>
        field_at ''Content-Type'' (resp_headers (response con')) = Some (terminated ''text/html''))))"
proof (cases "mode con = DIRECT")
  case False
  with resp_state_less[OF assms(1)] show ?thesis by (auto simp: error_body_def kept_def)
next
  case True
  let ?c = "upd_phys (\<lambda>p. p\<lparr>phys_path := []\<rparr>) (con\<lparr>file_finished := False\<rparr>)"
  have c: "resp_state fs (Suc n) ?c s" "\<not> transfer_encoding (response ?c)" "\<not> file_finished ?c"
    using assms(1,2) True by (simp_all add: resp_state_def upd_phys_def)
  have page: "error_page_used e ?c = error_page_used e con" by (simp add: error_page_used_def upd_phys_def)
  obtain con1 where 1: "error_file e srv ?c = Some (srv, con1)" "kept ?c con1" "http_status con1 = http_status ?c"
    "\<not> transfer_encoding (response con1)" "parsed_content_length con1 = parsed_content_length ?c"
    "if error_page_used e con then \<not> file_finished con1 \<and> resp_state fs (Suc n) con1 s
      else file_finished con1 \<and> (\<exists>s'. resp_state fs n con1 s')"
    using error_file_ok[OF c(1,2) assms(3) c(3), of srv] unfolding page by (auto simp: valid_def)
  have k: "kept con con1" using 1(2) by (simp add: kept_def upd_phys_def)
  show ?thesis
  proof (cases "error_page_used e con")
    case False
    then have "error_body e srv con = Some (srv, con1)" using True 1(1,6) by (simp add: error_body_def)
    with False k 1 show ?thesis by (auto simp: upd_phys_def)
  next
    case page: True
    then have st: "\<not> file_finished con1" "resp_state fs (Suc n) con1 s" using 1(6) by simp_all
    let ?m = "error_page (http_status con1)"
    obtain a q1 q2 where q: "chunkqueue_get_append_buffer (write_queue con1) = Some (a, q1)" "put_mem q1 a (terminated ?m) = Some q2"
      "whole_queue fs q2 (s @ ?m)" using append_put_whole[OF resp_stateD(3)[OF st(2)]] by blast
    let ?c2 = "upd_phys (\<lambda>p. p\<lparr>phys_path := []\<rparr>) (con1\<lparr>file_finished := True, write_queue := q2\<rparr>)"
    have st2: "resp_state fs (Suc n) ?c2 (s @ ?m)" using st(2) q(3) by (simp add: resp_state_def upd_phys_def)
    obtain hs where hs: "response_header_overwrite ''Content-Type'' (Some ''text/html'') ?c2 = Some (upd_resp (\<lambda>r. r\<lparr>resp_headers := hs\<rparr>) ?c2)"
      "resp_ok hs" "a_used hs \<le> a_used (resp_headers (response ?c2)) + 1" "field_at ''Content-Type'' hs = Some (terminated ''text/html'')"
      by (rule overwrite_field[where name = "''Content-Type''" and s = "Some ''text/html''",
            OF resp_stateD(1)[OF st2] tame_names(2) resp_stateD(2)[OF st2]]) (rule that; (assumption | simp))
    have run: "error_body e srv con = Some (srv, upd_resp (\<lambda>r. r\<lparr>resp_headers := hs\<rparr>) ?c2)"
      using True 1(1) st(1) q(1,2) hs(1) by (simp add: error_body_def Let_def)
    have "resp_state fs n (upd_resp (\<lambda>r. r\<lparr>resp_headers := hs\<rparr>) ?c2) (s @ ?m)" by (rule resp_state_set[OF st2 hs(2,3)])
    moreover have "http_status con1 = http_status con" using 1(3) by (simp add: upd_phys_def)
    ultimately show ?thesis
      using run k hs(4) 1(4,5) by (auto simp: kept_def upd_resp_def upd_phys_def intro!: exI[of _ "s @ ?m"])
  qed
qed

definition bodiless :: "int \<Rightarrow> bool" where
  "bodiless t \<longleftrightarrow> \<not> error_status t \<and> \<not> body_status t"

lemma status_body_ok:
  assumes "resp_state fs (Suc n) con s" and "mode con = DIRECT \<longrightarrow> \<not> transfer_encoding (response con)" and "files_known e fs"
  shows "valid (status_body e srv con) (\<lambda>(srv', con'). srv' = srv \<and> kept con con' \<and> http_status con' = http_status con \<and>
     (mode con = DIRECT \<and> error_status (http_status con) \<longrightarrow> parsed_content_length con' = parsed_content_length con \<and> file_finished con') \<and>
     (transfer_encoding (response con') \<longrightarrow> transfer_encoding (response con)) \<and>
     (bodiless (http_status con) \<longrightarrow> \<not> transfer_encoding (response con') \<and> \<not> parsed_content_length con' \<and> file_finished con') \<and>
     (\<exists>s'. resp_state fs n con' s' \<and> (bodiless (http_status con) \<longrightarrow> s' = []) \<and>
     (mode con = DIRECT \<and> error_status (http_status con) \<and> error_page_used e con \<longrightarrow> s' = s @ error_page (http_status con) \<and>
        field_at ''Content-Type'' (resp_headers (response con')) = Some (terminated ''text/html''))))"
proof -
  consider "error_status (http_status con)" | "\<not> error_status (http_status con)" "body_status (http_status con)" | "bodiless (http_status con)"
    by (auto simp: bodiless_def)
  then show ?thesis
  proof cases
    case 1
    then have "\<not> bodiless (http_status con)" by (simp add: bodiless_def)
    with 1 error_body_ok[OF assms, of srv] show ?thesis by (auto simp: status_body_def valid_def)
  next
    case 2
    then have "\<not> bodiless (http_status con)" by (simp add: bodiless_def)
    with 2 resp_state_less[OF assms(1)] show ?thesis by (auto simp: status_body_def kept_def)
  next
    case 3
    then have e: "\<not> error_status (http_status con)" "\<not> body_status (http_status con)" by (simp_all add: bodiless_def)
    let ?c = "con\<lparr>parsed_content_length := False\<rparr>"
    have "resp_state fs n ?c s" using assms(1) by (simp add: resp_state_def)
    then obtain q where "drop_body ?c = Some (upd_resp (\<lambda>r. r\<lparr>transfer_encoding := False\<rparr>) (?c\<lparr>write_queue := q, file_finished := True\<rparr>))"
      "whole_queue fs q []" by (rule drop_body_ok)
    with e assms(1) show ?thesis by (auto simp: status_body_def kept_def resp_state_def upd_resp_def)
  qed
qed

lemma hide_ok:
  assumes "resp_ok (resp_headers (response con))" and "tame (terminated name)"
  obtains hs where "hide_header name con = Some (upd_resp (\<lambda>r. r\<lparr>resp_headers := hs\<rparr>) con)" "resp_ok hs"
    "a_used hs = a_used (resp_headers (response con))" "field_at name hs \<in> {None, Some []}"
    "other_fields name (resp_headers (response con)) hs"
proof -
  let ?a = "resp_headers (response con)"
  from get_index_listed[OF assms] show ?thesis
  proof (elim disjE exE conjE)
    fix p assume none: "find_elem (elements ?a) (fold_key (terminated name)) = None" "array_get_index ?a (terminated name) = Some (-1, p)"
    then have "hide_header name con = Some con" by (simp add: hide_header_def)
    then have "hide_header name con = Some (upd_resp (\<lambda>r. r\<lparr>resp_headers := ?a\<rparr>) con)" by (simp add: upd_resp_def)
    then show ?thesis by (rule that) (use assms none in \<open>simp_all add: field_at_def other_fields_def\<close>)
  next
    fix j p assume j: "j < a_used ?a" "fk (elements ?a ! j) = fold_key (terminated name)" "array_get_index ?a (terminated name) = Some (int j, p)"
      "element_at ?a j = Some (elements ?a ! j)"
    have str: "is_string (elements ?a ! j)"
      using elements_string[OF assms(1)] j(1) elements_length[OF resp_okD(2)[OF assms(1)]] by simp
    obtain d where d: "set_string (elements ?a ! j) [] = Some d" using set_string_ok[OF str] by blast
    note e = set_element[OF assms(1) j(1) d]
    let ?hs = "?a\<lparr>adata := (adata ?a)[j := Some d]\<rparr>"
    have find: "find_elem (elements ?hs) k = (if k = fold_key (terminated name) then Some d else find_elem (elements ?a) k)" for k
      using find_update[OF resp_okD(2)[OF assms(1)] j(1), of d k] e(2,3) j(2) by simp
    have "hide_header name con = Some (upd_resp (\<lambda>r. r\<lparr>resp_headers := ?hs\<rparr>) con)"
      using j(3,4) d by (simp add: hide_header_def upd_resp_def)
    then show ?thesis by (rule that) (use e(1,4) in \<open>simp_all add: field_at_def find other_fields_def fold_terminated\<close>)
  qed
qed

definition length_told :: "connection \<Rightarrow> char list \<Rightarrow> bool" where
  "length_told con body \<longleftrightarrow> sent_as ''Content-Length'' (resp_headers (response con)) = [decimal (int (length body))]"

text \<open>What telling the length leaves as it is.\<close>

definition same_response :: "connection \<Rightarrow> connection \<Rightarrow> bool" where
  "same_response con con' \<longleftrightarrow> kept con con' \<and> http_status con' = http_status con \<and>
     parsed_content_length con' = parsed_content_length con \<and> file_finished con' = file_finished con \<and>
     transfer_encoding (response con') = transfer_encoding (response con) \<and>
     other_fields ''Content-Length'' (resp_headers (response con)) (resp_headers (response con'))"

lemma other_fields_refl: "other_fields n hs hs"
  by (simp add: other_fields_def)

lemma announce_ok:
  assumes "resp_state fs (Suc 0) con s"
  shows "valid (announce srv con) (\<lambda>(srv', con'). (srv' = srv \<or> (\<exists>t. srv' = srv\<lparr>tmp_buf := t\<rparr>)) \<and> same_response con con' \<and>
     resp_state fs 0 con' s \<and>
     (\<not> parsed_content_length con \<and> \<not> transfer_encoding (response con) \<longrightarrow>
       (file_finished con \<and> no_body_status (http_status con) \<longrightarrow> sent_as ''Content-Length'' (resp_headers (response con')) = []) \<and>
       ((file_finished con \<or> keep_alive con' \<noteq> 0) \<and> \<not> no_body_status (http_status con) \<and> http_method (req con) \<noteq> HTTP_METHOD_HEAD \<longrightarrow> length_told con' s)))"
proof -
  let ?a = "resp_headers (response con)"
  note less = resp_state_less[OF assms]
  consider (told) "parsed_content_length con \<or> transfer_encoding (response con)"
    | (going) "\<not> parsed_content_length con" "\<not> transfer_encoding (response con)" "\<not> file_finished con"
    | (none) "\<not> parsed_content_length con" "\<not> transfer_encoding (response con)" "file_finished con" "no_body_status (http_status con)"
    | (telling) "\<not> parsed_content_length con" "\<not> transfer_encoding (response con)" "file_finished con" "\<not> no_body_status (http_status con)" by blast
  then show ?thesis
  proof cases
    case told
    then have r: "announce srv con = Some (srv, con) \<or> announce srv con = Some (srv, con\<lparr>keep_alive := 0\<rparr>)"
    proof (cases "file_finished con")
      case True
      with told have "announce srv con = Some (srv, con)" unfolding announce_def by auto
      then show ?thesis by (rule disjI1)
    next
      case False
      with told have "announce srv con = Some (srv, if parsed_connection con \<and> keep_alive con \<noteq> 0 \<and> resp_keep_alive (response con) = 0
          then con\<lparr>keep_alive := 0\<rparr> else con)" unfolding announce_def Let_def by (elim disjE) (simp_all only: if_False simp_thms)
      then show ?thesis by (cases "parsed_connection con \<and> keep_alive con \<noteq> 0 \<and> resp_keep_alive (response con) = 0")
          (simp_all only: if_True if_False simp_thms)
    qed
    have "same_response con con" "same_response con (con\<lparr>keep_alive := 0\<rparr>)" "resp_state fs 0 (con\<lparr>keep_alive := 0\<rparr>) s"
      using less by (simp_all add: same_response_def kept_def other_fields_refl resp_state_def)
    with r told less show ?thesis by (elim disjE) simp_all
  next
    case going
    then have r: "announce srv con = Some (srv, con\<lparr>keep_alive := 0\<rparr>)" by (simp add: announce_def Let_def)
    have "same_response con (con\<lparr>keep_alive := 0\<rparr>)" "resp_state fs 0 (con\<lparr>keep_alive := 0\<rparr>) s"
      using less by (simp_all add: same_response_def kept_def other_fields_refl resp_state_def)
    with r going show ?thesis by simp
  next
    case none
    obtain hs where hs: "hide_header ''Content-Length'' con = Some (upd_resp (\<lambda>r. r\<lparr>resp_headers := hs\<rparr>) con)" "resp_ok hs"
      "a_used hs = a_used ?a" "field_at ''Content-Length'' hs \<in> {None, Some []}" "other_fields ''Content-Length'' ?a hs"
      by (rule hide_ok[where name = "''Content-Length''", OF resp_stateD(1)[OF assms] tame_names(3)]) (rule that; assumption)
    have "resp_state fs 0 (upd_resp (\<lambda>r. r\<lparr>resp_headers := hs\<rparr>) con) s" using resp_state_set[OF assms hs(2)] hs(3) by simp
    with none hs queue_length[OF resp_stateD(3)[OF assms]] sent_as_empty[OF hs(2,4)] show ?thesis
      by (simp add: announce_def same_response_def kept_def upd_resp_def)
  next
    case telling
    let ?v = "decimal (int (length s))"
    obtain hs where hs: "response_header_overwrite ''Content-Length'' (Some ?v) con = Some (upd_resp (\<lambda>r. r\<lparr>resp_headers := hs\<rparr>) con)"
      "resp_ok hs" "a_used hs \<le> a_used ?a + 1" "other_fields ''Content-Length'' ?a hs"
      "field_at ''Content-Length'' hs = Some (terminated ?v)"
      by (rule overwrite_field[where name = "''Content-Length''" and s = "Some ?v", OF resp_stateD(1)[OF assms] tame_names(3) resp_stateD(2)[OF assms]])
        (rule that; (assumption | simp add: decimal_no_NUL))
    have st: "resp_state fs 0 (upd_resp (\<lambda>r. r\<lparr>resp_headers := hs\<rparr>) con) s" by (rule resp_state_set[OF assms hs(2,3)])
    show ?thesis
    proof (cases "length s > 0 \<or> http_method (req con) \<noteq> HTTP_METHOD_HEAD")
      case True
      have run: "announce srv con = Some (srv\<lparr>tmp_buf := terminated ?v\<rparr>, upd_resp (\<lambda>r. r\<lparr>resp_headers := hs\<rparr>) con)"
        using telling True hs(1) queue_length[OF resp_stateD(3)[OF assms]] by (auto simp: announce_def)
      show ?thesis unfolding run valid_Some prod.case
        using st telling sent_as_set[OF hs(2,5)] hs(4) by (auto simp: same_response_def kept_def upd_resp_def length_told_def)
    next
      case False
      then have "announce srv con = Some (srv, con)"
        using telling queue_length[OF resp_stateD(3)[OF assms]] by (auto simp: announce_def)
      with False less telling(4) show ?thesis by (auto simp: same_response_def kept_def other_fields_refl)
    qed
  qed
qed

section \<open>The response as a client gets it\<close>

text \<open>
  No status 0, no body where there may be none, and a body whose end the client can find: by
  its length, by the chunked encoding, by a length the backend gave, or by the end of the connection.
\<close>

definition framed :: "connection \<Rightarrow> char list \<Rightarrow> bool" where
  "framed con body \<longleftrightarrow> http_status con \<noteq> 0 \<and>
     (http_method (req con) = HTTP_METHOD_HEAD \<or> bodiless (http_status con) \<longrightarrow> body = []) \<and>
     (no_body_status (http_status con) \<longrightarrow> sent_as ''Content-Length'' (resp_headers (response con)) = []) \<and>
     (keep_alive con = 0 \<or> http_method (req con) = HTTP_METHOD_HEAD \<or> no_body_status (http_status con) \<or>
      transfer_encoding (response con) \<or> parsed_content_length con \<or> length_told con body)"

definition sent_header :: "(int \<Rightarrow> char list) \<Rightarrow> char list \<Rightarrow> server \<Rightarrow> connection \<Rightarrow> char list" where
  "sent_header http_date package srv con = header_text (response_lines http_date package srv con)"

lemma response_lines_queue: "response_lines http_date package srv (con\<lparr>write_queue := q, bytes_header := n\<rparr>) = response_lines http_date package srv con"
  "cur_ts srv' = cur_ts srv \<Longrightarrow> response_lines http_date package srv' con = response_lines http_date package srv con"
  by (simp_all add: response_lines_def Let_def status_line_def server_line_def)

lemma write_header_stream:
  assumes "resp_state fs 0 con s" and "date_cached http_date srv"
  shows "valid (http_response_write_header http_date package srv con) (\<lambda>(srv', con').
     (\<exists>q n. con' = con\<lparr>write_queue := q, bytes_header := n\<rparr>) \<and> holds_stream fs (write_queue con') (sent_header http_date package srv con' @ s))"
proof -
  obtain cs where cs: "cq_rep (write_queue con) cs" "pending fs cs = s" using assms(1) by (auto simp: resp_state_def whole_queue_def)
  have f: "filled (resp_headers (response con))" using assms(1) resp_okD(1) by (simp add: resp_state_def)
  let ?t = "header_text (response_lines http_date package srv con)"
  obtain srv' q c where w: "http_response_write_header http_date package srv con = Some (srv', con\<lparr>write_queue := q, bytes_header := int (length ?t)\<rparr>)"
    "cq_rep q (c # cs)" "ctype c = MEM_CHUNK" "c_offset c = 0" "c_mem c = terminated ?t"
    using write_header_ok[OF f cs(1) assms(2), of package] by blast
  have "chunk_bytes fs c = ?t" using w(3-5) by (simp add: chunk_bytes_def terminated_def)
  then have "holds_stream fs q (?t @ s)" using holds_streamI[OF w(2), of fs "?t @ s"] cs(2) by simp
  then have "holds_stream fs (write_queue (con\<lparr>write_queue := q, bytes_header := int (length ?t)\<rparr>))
      (sent_header http_date package srv (con\<lparr>write_queue := q, bytes_header := int (length ?t)\<rparr>) @ s)"
    by (simp add: sent_header_def response_lines_queue(1))
  moreover have "\<exists>p n. con\<lparr>write_queue := q, bytes_header := int (length ?t)\<rparr> = con\<lparr>write_queue := p, bytes_header := n\<rparr>"
    by (intro exI, rule refl)
  ultimately show ?thesis unfolding w(1) valid_Some prod.case by (rule conjI[rotated])
qed

text \<open>The steps up to the header, with what the error page adds.\<close>

lemma write_prepare_ok:
  assumes "resp_state fs 3 con s" and "date_cached http_date srv" and "mode con = DIRECT \<longrightarrow> \<not> transfer_encoding (response con)"
    and "files_known e fs"
  shows "valid (connection_handle_write_prepare e http_date package srv con) (\<lambda>(srv', con'). \<exists>body.
     holds_stream fs (write_queue con') (sent_header http_date package srv con' @ body) \<and> framed con' body \<and> req con' = req con \<and>
     (mode con = DIRECT \<and> known_method (http_method (req con)) \<and> http_method (req con) \<noteq> HTTP_METHOD_HEAD \<and>
      error_status (http_status con) \<and> error_page_used e con \<longrightarrow>
        http_status con' = http_status con \<and> body = s @ error_page (http_status con) \<and>
        sent_as ''Content-Type'' (resp_headers (response con')) = [''text/html''] \<and>
        (parsed_content_length con \<or> length_told con' body)))"
proof -
  let ?page = "mode con = DIRECT \<and> known_method (http_method (req con)) \<and> http_method (req con) \<noteq> HTTP_METHOD_HEAD \<and>
      error_status (http_status con) \<and> error_page_used e con"
  obtain con1 s1 where 1: "method_status con = Some con1" "resp_state fs 2 con1 s1" "kept con con1"
    "transfer_encoding (response con1) \<longrightarrow> transfer_encoding (response con)" "known_method (http_method (req con)) \<longrightarrow> s1 = s"
    using method_status_ok[of fs 2 con s] assms(1) by (auto simp: valid_def numeral_2_eq_2 numeral_3_eq_3)
  have same: "con1 = con" if "known_method (http_method (req con))" using 1(1) that by (simp add: method_status_def)
  define con2 where "con2 = (if http_status con1 = 0 then con1\<lparr>http_status := 403\<rparr> else con1)"
  have 2: "resp_state fs 2 con2 s1" "kept con con2" "http_status con2 \<noteq> 0" "mode con2 = DIRECT \<longrightarrow> \<not> transfer_encoding (response con2)"
    using 1 assms(3) by (auto simp: con2_def resp_state_def kept_def)
  obtain con3 s3 where 3: "status_body e srv con2 = Some (srv, con3)" "kept con2 con3" "http_status con3 = http_status con2"
    "resp_state fs 1 con3 s3"
    "bodiless (http_status con2) \<longrightarrow> \<not> transfer_encoding (response con3) \<and> \<not> parsed_content_length con3 \<and> file_finished con3 \<and> s3 = []"
    "transfer_encoding (response con3) \<longrightarrow> transfer_encoding (response con2)"
    "mode con2 = DIRECT \<and> error_status (http_status con2) \<longrightarrow> parsed_content_length con3 = parsed_content_length con2 \<and> file_finished con3"
    "mode con2 = DIRECT \<and> error_status (http_status con2) \<and> error_page_used e con2 \<longrightarrow> s3 = s1 @ error_page (http_status con2) \<and>
        field_at ''Content-Type'' (resp_headers (response con3)) = Some (terminated ''text/html'')"
    using status_body_ok[of fs 1 con2 s1 e srv] 2(1,4) assms(4) by (auto simp: valid_def numeral_2_eq_2)
  obtain srv4 con4 where 4: "announce srv con3 = Some (srv4, con4)" "srv4 = srv \<or> (\<exists>t. srv4 = srv\<lparr>tmp_buf := t\<rparr>)"
    "same_response con3 con4" "resp_state fs 0 con4 s3"
    "\<not> parsed_content_length con3 \<and> \<not> transfer_encoding (response con3) \<longrightarrow>
       (file_finished con3 \<and> no_body_status (http_status con3) \<longrightarrow> sent_as ''Content-Length'' (resp_headers (response con4)) = []) \<and>
       ((file_finished con3 \<or> keep_alive con4 \<noteq> 0) \<and> \<not> no_body_status (http_status con3) \<and> http_method (req con3) \<noteq> HTTP_METHOD_HEAD \<longrightarrow> length_told con4 s3)"
    using announce_ok[of fs con3 s3 srv] 3(4) by (auto simp: valid_def)
  have r: "req con2 = req con" "req con3 = req con" "req con4 = req con" using 2(2) 3(2) 4(3) by (simp_all add: kept_def same_response_def)
  obtain con5 s5 where 5: "(if http_method (req con4) = HTTP_METHOD_HEAD then drop_body con4 else Some con4) = Some con5"
    "resp_state fs 0 con5 s5" "req con5 = req con" "http_status con5 = http_status con4" "keep_alive con5 = keep_alive con4"
    "resp_headers (response con5) = resp_headers (response con4)" "parsed_content_length con5 = parsed_content_length con4"
    "if http_method (req con) = HTTP_METHOD_HEAD then s5 = [] else con5 = con4 \<and> s5 = s3"
  proof (cases "http_method (req con4) = HTTP_METHOD_HEAD")
    case True
    obtain q where q: "drop_body con4 = Some (upd_resp (\<lambda>r. r\<lparr>transfer_encoding := False\<rparr>) (con4\<lparr>write_queue := q, file_finished := True\<rparr>))"
      "whole_queue fs q []" by (rule drop_body_ok[OF 4(4)])
    show ?thesis
      by (rule that[of "upd_resp (\<lambda>r. r\<lparr>transfer_encoding := False\<rparr>) (con4\<lparr>write_queue := q, file_finished := True\<rparr>)" "[]"])
        (use True q 4(4) r in \<open>simp_all add: resp_state_def upd_resp_def\<close>)
  next
    case False
    with that[of con4 s3] 4(4) r show ?thesis by simp
  qed
  have d: "date_cached http_date srv4" "cur_ts srv4 = cur_ts srv" using 4(2) assms(2) by (auto simp: date_cached_def)
  obtain srv6 con6 where 6: "http_response_write_header http_date package srv4 con5 = Some (srv6, con6)"
    "\<exists>q n. con6 = con5\<lparr>write_queue := q, bytes_header := n\<rparr>" "holds_stream fs (write_queue con6) (sent_header http_date package srv4 con6 @ s5)"
    using write_header_stream[OF 5(2) d(1), of package] by (auto simp: valid_def)
  have eq: "req con6 = req con5" "http_status con6 = http_status con5" "keep_alive con6 = keep_alive con5" "response con6 = response con5"
    "parsed_content_length con6 = parsed_content_length con5" using 6(2) by auto
  have hdr: "sent_header http_date package srv4 con6 = sent_header http_date package srv con6"
    unfolding sent_header_def by (subst response_lines_queue(2)[OF d(2)]) simp
  have st: "http_status con6 = http_status con2" using eq 5(4) 4(3) 3(3) by (simp add: same_response_def)
  have run: "connection_handle_write_prepare e http_date package srv con = Some (srv6, con6)"
    using 1(1) 3(1) 4(1) 5(1) 6(1) by (simp add: connection_handle_write_prepare_def con2_def[symmetric] Let_def)
  have told: "length_told con6 s3" if "length_told con4 s3" using that eq 5(6) by (simp add: length_told_def)
  have nb: "no_body_status t \<Longrightarrow> bodiless t" for t by (auto simp: no_body_status_def bodiless_def error_status_def body_status_def)
  have framed: "framed con6 s5"
    unfolding framed_def
  proof (intro conjI impI)
    show "http_status con6 \<noteq> 0" using st 2(3) by simp
    show "s5 = []" if "http_method (req con6) = HTTP_METHOD_HEAD \<or> bodiless (http_status con6)"
      using that 5(3,8) 3(5) st eq(1) by (auto split: if_splits)
    show "sent_as ''Content-Length'' (resp_headers (response con6)) = []" if "no_body_status (http_status con6)"
      using nb[OF that] that st 3(3,5) 4(5) eq(4) 5(6) by auto
    show "keep_alive con6 = 0 \<or> http_method (req con6) = HTTP_METHOD_HEAD \<or> no_body_status (http_status con6) \<or>
      transfer_encoding (response con6) \<or> parsed_content_length con6 \<or> length_told con6 s5"
    proof (cases "http_method (req con) = HTTP_METHOD_HEAD")
      case True
      then show ?thesis using eq(1) 5(3) by simp
    next
      case False
      with 5(8) have "con5 = con4" "s5 = s3" by simp_all
      with False show ?thesis using 4(3,5) eq st 3(3) r told by (auto simp: same_response_def)
    qed
  qed
  have page: "http_status con6 = http_status con \<and> s5 = s @ error_page (http_status con) \<and>
        sent_as ''Content-Type'' (resp_headers (response con6)) = [''text/html''] \<and>
        (parsed_content_length con \<or> length_told con6 s5)" if p: ?page
  proof -
    have c1: "con1 = con" using same p by blast
    have nz: "http_status con \<noteq> 0" using p by (auto simp: error_status_def)
    then have c2: "con2 = con" by (simp add: con2_def c1)
    have nbs: "\<not> no_body_status (http_status con)" using nb p by (auto simp: bodiless_def)
    have h: "con5 = con4" "s5 = s3" using 5(8) p by simp_all
    have s1: "s1 = s" using 1(5) p by blast
    have s3: "s3 = s @ error_page (http_status con)" "field_at ''Content-Type'' (resp_headers (response con3)) = Some (terminated ''text/html'')"
      using 3(8) p c2 s1 by simp_all
    have fin: "parsed_content_length con3 = parsed_content_length con" "file_finished con3" "\<not> transfer_encoding (response con3)"
      using 3(6,7) p c2 assms(3) by auto
    have ok4: "resp_ok (resp_headers (response con4))" using 4(4) by (simp add: resp_state_def)
    have "fold_key ''Content-Type'' \<noteq> fold_key ''Content-Length''" by (simp add: fold_key_def)
    then have "field_at ''Content-Type'' (resp_headers (response con4)) = field_at ''Content-Type'' (resp_headers (response con3))"
      using 4(3) by (simp add: same_response_def other_fields_def)
    with sent_as_set[OF ok4] s3(2) have type: "sent_as ''Content-Type'' (resp_headers (response con4)) = [''text/html'']" by simp
    have "parsed_content_length con \<or> length_told con4 s3"
      using 4(5) fin nbs 3(3) c2 r(2) p by auto
    with told type s3(1) h st c2 eq show ?thesis by auto
  qed
  show ?thesis unfolding run using 6(3) framed page 5(3) eq(1) hdr by auto
qed


section \<open>Properties\<close>

text \<open>
  C27: whatever the handlers of a request left behind, the response that is sent has a status, it has no
  body where there may be none (a \<open>HEAD\<close> request, the statuses 1xx, 204, 205, 304 and others that
  are only a header), and a client that goes on to use the connection can find the end of the
  body: exactly one \<open>Content-Length\<close> with its length, or the chunked encoding, or a length that
  came from a backend.  The bytes queued are the header followed by the body.
\<close>

theorem response_framed:
  assumes "resp_state fs 3 con s" and "date_cached http_date srv" and "mode con = DIRECT \<longrightarrow> \<not> transfer_encoding (response con)"
    and "files_known e fs"
  shows "\<exists>srv' con' body. connection_handle_write_prepare e http_date package srv con = Some (srv', con') \<and>
     holds_stream fs (write_queue con') (sent_header http_date package srv con' @ body) \<and> framed con' body"
  using write_prepare_ok[OF assms, of package] by (auto simp: valid_def)

text \<open>
  C28: a request the server refuses itself, with a status of an error, a method it knows other than \<open>HEAD\<close> and no file
  configured for the status, gets the page of that status as its HTML body, behind what was queued, under the status it was
  refused with, and its length is announced, whether or not the connection is kept (unless a backend gave a length
  before).
\<close>

theorem error_gets_page:
  assumes "resp_state fs 3 con s" and "date_cached http_date srv" and "\<not> transfer_encoding (response con)" and "files_known e fs"
    and "mode con = DIRECT" and "known_method (http_method (req con))" and "http_method (req con) \<noteq> HTTP_METHOD_HEAD"
    and "error_status (http_status con)" and "error_page_used e con"
  shows "\<exists>srv' con'. connection_handle_write_prepare e http_date package srv con = Some (srv', con') \<and>
     http_status con' = http_status con \<and> sent_as ''Content-Type'' (resp_headers (response con')) = [''text/html''] \<and>
     holds_stream fs (write_queue con') (sent_header http_date package srv con' @ s @ error_page (http_status con)) \<and>
     (parsed_content_length con \<or> length_told con' (s @ error_page (http_status con)))"
  using write_prepare_ok[OF assms(1,2) _ assms(4), of package] assms(3,5-) by (auto simp: valid_def)

definition plain_env :: env where
  "plain_env = \<lparr>plugins = [], env_aton = \<lambda>_. None, env_pcre = \<lambda>_ _. (0, []), env_stat = \<lambda>_ _. Missing ENOENT, env_own_name = None\<rparr>"

definition refused :: connection where
  "refused = (connection_init sample_server)\<lparr>http_status := 404\<rparr>"

lemma refused_facts: "resp_state (\<lambda>_. []) 3 refused []" "\<not> transfer_encoding (response refused)" "mode refused = DIRECT"
    "known_method (http_method (req refused))" "http_method (req refused) \<noteq> HTTP_METHOD_HEAD" "error_status (http_status refused)"
    "error_page_used plain_env refused" "files_known plain_env (\<lambda>_. [])" "date_cached (\<lambda>_. ''now'') (sample_server\<lparr>cur_ts := 1\<rparr>)"
  using resp_ok_init init_rep
  by (simp_all add: refused_def connection_init_def config_setup_connection_def resp_state_def whole_queue_def known_method_def
      error_status_def error_page_used_def plain_env_def files_known_def date_cached_def sample_server_def array_init_def INT_MAX_def
      exI[of _ "[]"])

lemma response_framed_witness:
  "\<exists>srv' con' body. connection_handle_write_prepare plain_env (\<lambda>_. ''now'') ''lighttpd'' (sample_server\<lparr>cur_ts := 1\<rparr>) refused = Some (srv', con') \<and>
     holds_stream (\<lambda>_. []) (write_queue con') (sent_header (\<lambda>_. ''now'') ''lighttpd'' (sample_server\<lparr>cur_ts := 1\<rparr>) con' @ body) \<and> framed con' body"
  by (rule response_framed[OF refused_facts(1,9) _ refused_facts(8)]) (simp add: refused_facts(2))

lemma error_gets_page_witness:
  "\<exists>srv' con'. connection_handle_write_prepare plain_env (\<lambda>_. ''now'') ''lighttpd'' (sample_server\<lparr>cur_ts := 1\<rparr>) refused = Some (srv', con') \<and>
     http_status con' = http_status refused \<and> sent_as ''Content-Type'' (resp_headers (response con')) = [''text/html''] \<and>
     holds_stream (\<lambda>_. []) (write_queue con') (sent_header (\<lambda>_. ''now'') ''lighttpd'' (sample_server\<lparr>cur_ts := 1\<rparr>) con' @ [] @ error_page (http_status refused)) \<and>
     (parsed_content_length refused \<or> length_told con' ([] @ error_page (http_status refused)))"
  by (rule error_gets_page[OF refused_facts(1,9,2,8,3-7)])

end
