(* ===== verification/ConnMachine.thy ===== *)
theory ConnMachine
  imports ReadState WritePrepare
begin

text \<open>
  The state machine of a connection: \<open>connection_close\<close>, \<open>connection_accept\<close>,
  \<open>connection_handle_fdevent\<close> and \<open>connection_state_machine\<close> of \<open>connections.c\<close>.  Connections lie in a
  heap, where closing one moves another inside the pool.
\<close>

section \<open>The world of a connection\<close>

text \<open>
  What the machine meets, numbered by the rounds of its loop: the plugins and the stat cache, what the
  socket has to read, whether \<open>shutdown\<close> succeeds and what \<open>FIONREAD\<close> answers while the connection is
  being closed; and the rest that a build or a run fixes.
\<close>

record outside =
  o_env :: "nat \<Rightarrow> env"
  o_read :: "nat \<Rightarrow> read_in"
  o_shutdown :: "nat \<Rightarrow> bool"
  o_pending :: "nat \<Rightarrow> int option"
  o_backend :: backend
  o_net :: net_io
  o_upload :: upload_io
  o_date :: "int \<Rightarrow> char list"
  o_package :: "char list"
  o_reset :: "server \<Rightarrow> connection \<Rightarrow> connection"

record world =
  w_srv :: server
  w_heap :: "connection list"
  w_wire :: wire
  w_uploads :: uploads
  w_round :: nat

definition upd_srv :: "(server \<Rightarrow> server) \<Rightarrow> world \<Rightarrow> world" where
  "upd_srv f w = w\<lparr>w_srv := f (w_srv w)\<rparr>"

text \<open>An operation on the connection at an address.\<close>

definition on_con :: "nat \<Rightarrow> (world \<Rightarrow> connection \<Rightarrow> ('r \<times> world \<times> connection) option) \<Rightarrow> world \<Rightarrow> ('r \<times> world) option" where
  "on_con a f w = do {
     con \<leftarrow> at_address (w_heap w) a;
     (r, w, con) \<leftarrow> f w con;
     Some (r, w\<lparr>w_heap := (w_heap w)[a := con]\<rparr>) }"

section \<open>Closing\<close>

definition unregister :: "world \<Rightarrow> connection \<Rightarrow> (unit \<times> world \<times> connection) option" where
  "unregister w con = do {
     (i, b) \<leftarrow> fdevent_event_del (ev (w_srv w)) (fde_ndx con) (fd con);
     b \<leftarrow> fdevent_unregister b (fd con);
     Some ((), upd_srv (\<lambda>srv. srv\<lparr>ev := b, cur_fds := cur_fds srv - 1\<rparr>) w, con\<lparr>fde_ndx := i\<rparr>) }"

definition set_state :: "connection_state_t \<Rightarrow> world \<Rightarrow> connection \<Rightarrow> (unit \<times> world \<times> connection) option" where
  "set_state s w con = Some ((), w, con\<lparr>state := s\<rparr>)"

definition connection_close :: "nat \<Rightarrow> world \<Rightarrow> world option" where
  "connection_close a w = do {
     (_, w) \<leftarrow> on_con a unregister w;
     (_, srv, heap) \<leftarrow> connection_del (w_srv w) (w_heap w) (Some a);
     (_, w) \<leftarrow> on_con a (set_state CON_STATE_CONNECT) (w\<lparr>w_srv := srv, w_heap := heap\<rparr>);
     Some w }"

section \<open>The states\<close>

text \<open>Each returns whether the loop goes round again although the state may be the same.\<close>

definition step_request_start :: "world \<Rightarrow> connection \<Rightarrow> (bool \<times> world \<times> connection) option" where
  "step_request_start w con = (let t = cur_ts (w_srv w) in
     Some (False, w, con\<lparr>request_start := t, read_idle_ts := t, request_count := request_count con + 1, loops_per_request := 0,
       state := CON_STATE_READ\<rparr>))"

definition step_request_end :: "world \<Rightarrow> connection \<Rightarrow> (bool \<times> world \<times> connection) option" where
  "step_request_end w con = do {
     (r, srv, con) \<leftarrow> http_request_parse (w_srv w) con;
     Some (False, w\<lparr>w_srv := srv\<rparr>, con\<lparr>state := if r \<noteq> 0 then CON_STATE_READ_POST else CON_STATE_HANDLE_REQUEST\<rparr>) }"

text \<open>A request that ends in 403 or 404 is given to the error handler once.\<close>

definition wants_error_handler :: "connection \<Rightarrow> bool" where
  "wants_error_handler con \<longleftrightarrow> mode con = DIRECT \<and> (http_status con = 404 \<or> http_status con = 403) \<and> \<not> in_error_handler con \<and>
     (conf_error_handler (conf con) \<noteq> [] \<or> error_handler con \<noteq> [])"

definition call_error_handler :: "connection \<Rightarrow> connection" where
  "call_error_handler con =
     upd_phys (\<lambda>p. p\<lparr>phys_path := []\<rparr>)
       (upd_req (\<lambda>q. q\<lparr>uri := copy_bytes (if error_handler con = [] then conf_error_handler (conf con) else error_handler con)\<rparr>)
         (con\<lparr>error_handler_saved_status := http_status con, http_status := 0, in_error_handler := True,
              state := CON_STATE_HANDLE_REQUEST\<rparr>))"

definition request_finished :: "connection \<Rightarrow> connection" where
  "request_finished con =
     (let con = (if mode con = DIRECT \<and> (http_status con = 404 \<or> http_status con = 403) \<and> in_error_handler con
                 then con\<lparr>http_status := error_handler_saved_status con\<rparr> else con);
          con = (if http_status con = 0 then con\<lparr>http_status := 200\<rparr> else con)
      in con\<lparr>state := CON_STATE_RESPONSE_START\<rparr>)"

definition step_handle_request :: "outside \<Rightarrow> world \<Rightarrow> connection \<Rightarrow> (bool \<times> world \<times> connection) option" where
  "step_handle_request out w con = do {
     (r, srv, con) \<leftarrow> http_response_prepare (o_env out (w_round w)) (w_srv w) con;
     let w = w\<lparr>w_srv := srv\<rparr>;
     (case r of
       HANDLER_FINISHED \<Rightarrow>
         if wants_error_handler con then Some (True, w, call_error_handler con)
         else Some (False, w, request_finished con)
     | HANDLER_WAIT_FOR_FD \<Rightarrow> do {
         (_, srv) \<leftarrow> fdwaitqueue_append (srv\<lparr>want_fds := want_fds srv + 1\<rparr>) con;
         Some (False, w\<lparr>w_srv := srv\<rparr>, con\<lparr>state := CON_STATE_HANDLE_REQUEST\<rparr>) }
     | HANDLER_COMEBACK \<Rightarrow> Some (True, w, con\<lparr>state := CON_STATE_HANDLE_REQUEST\<rparr>)
     | HANDLER_WAIT_FOR_EVENT \<Rightarrow> Some (False, w, con\<lparr>state := CON_STATE_HANDLE_REQUEST\<rparr>)
     | HANDLER_ERROR \<Rightarrow> Some (False, w, con\<lparr>state := CON_STATE_ERROR\<rparr>)
     | _ \<Rightarrow> Some (False, w, con)) }"

definition step_response_start :: "outside \<Rightarrow> world \<Rightarrow> connection \<Rightarrow> (bool \<times> world \<times> connection) option" where
  "step_response_start out w con = do {
     (srv, con) \<leftarrow> connection_handle_write_prepare (o_env out (w_round w)) (o_date out) (o_package out) (w_srv w) con;
     Some (False, w\<lparr>w_srv := srv\<rparr>, con\<lparr>state := CON_STATE_WRITE\<rparr>) }"

text \<open>The plugins are told; what they answer is only logged.\<close>

definition tell_plugins :: "(plugin \<Rightarrow> hook option) \<Rightarrow> outside \<Rightarrow> world \<Rightarrow> connection \<Rightarrow> (unit \<times> world \<times> connection) option" where
  "tell_plugins sel out w con = do {
     (_, srv, con) \<leftarrow> plugins_call sel (plugins (o_env out (w_round w))) (w_srv w) con;
     Some ((), w\<lparr>w_srv := srv\<rparr>, con) }"

definition reset_con :: "outside \<Rightarrow> world \<Rightarrow> connection \<Rightarrow> (unit \<times> world \<times> connection) option" where
  "reset_con out w con = do {
     (_, con) \<leftarrow> connection_reset (o_reset out) (w_srv w) con;
     Some ((), w, con) }"

definition step_response_end :: "outside \<Rightarrow> nat \<Rightarrow> world \<Rightarrow> (bool \<times> world) option" where
  "step_response_end out a w = do {
     (_, w) \<leftarrow> on_con a (tell_plugins handle_request_done out) w;
     let w = upd_srv (\<lambda>srv. srv\<lparr>con_written := con_written srv + 1\<rparr>) w;
     con \<leftarrow> at_address (w_heap w) a;
     w \<leftarrow> (if keep_alive con \<noteq> 0 then map_option snd (on_con a (set_state CON_STATE_REQUEST_START) w)
       else do {
         (_, w) \<leftarrow> on_con a (tell_plugins handle_connection_close out) w;
         w \<leftarrow> connection_close a w;
         Some (upd_srv (\<lambda>srv. srv\<lparr>con_closed := con_closed srv + 1\<rparr>) w) });
     (_, w) \<leftarrow> on_con a (reset_con out) w;
     Some (False, w) }"

definition step_connect :: "world \<Rightarrow> connection \<Rightarrow> (bool \<times> world \<times> connection) option" where
  "step_connect w con = do {
     (_, cq) \<leftarrow> chunkqueue_reset (read_queue con);
     Some (False, w, con\<lparr>read_queue := cq, request_count := 0\<rparr>) }"

text \<open>What is still to read is thrown away; \<open>b\<close> is read uninitialised when \<open>ioctl\<close> fails.\<close>

definition drain :: "int option \<Rightarrow> connection \<Rightarrow> connection option" where
  "drain answer con = do { b \<leftarrow> answer; Some (if b > 0 then con else con\<lparr>close_timeout_ts := 0\<rparr>) }"

definition step_close :: "outside \<Rightarrow> nat \<Rightarrow> world \<Rightarrow> (bool \<times> world) option" where
  "step_close out a w = do {
     (_, w) \<leftarrow> on_con a (\<lambda>w con. do {
       con \<leftarrow> (if keep_alive con \<noteq> 0 then drain (o_pending out (w_round w)) con else Some (con\<lparr>close_timeout_ts := 0\<rparr>));
       Some ((), w, con) }) w;
     con \<leftarrow> at_address (w_heap w) a;
     w \<leftarrow> (if cur_ts (w_srv w) - close_timeout_ts con > 1 then connection_close a w else Some w);
     Some (False, w) }"

definition step_read :: "outside \<Rightarrow> world \<Rightarrow> connection \<Rightarrow> (bool \<times> world \<times> connection) option" where
  "step_read out w con = do {
     (_, up, con) \<leftarrow> connection_handle_read_state (o_upload out) (o_read out (w_round w)) (w_srv w) (w_uploads w) con;
     Some (False, w\<lparr>w_uploads := up\<rparr>, con) }"

definition step_write :: "outside \<Rightarrow> world \<Rightarrow> connection \<Rightarrow> (bool \<times> world \<times> connection) option" where
  "step_write out w con =
     (if \<not> chunkqueue_is_empty (write_queue con) \<and> is_writable con then do {
        (t, srv, con) \<leftarrow> connection_handle_write (o_backend out) (o_net out) (w_wire w) (w_srv w) con;
        Some (False, w\<lparr>w_wire := t, w_srv := srv\<rparr>,
          if state con = CON_STATE_WRITE then con\<lparr>write_request_ts := cur_ts srv\<rparr> else con) }
      else Some (False, w, con))"

definition step_error :: "outside \<Rightarrow> nat \<Rightarrow> world \<Rightarrow> (bool \<times> world) option" where
  "step_error out a w = do {
     con \<leftarrow> at_address (w_heap w) a;
     w \<leftarrow> (if http_status con \<noteq> 0 then map_option snd (on_con a (tell_plugins handle_request_done out) w) else Some w);
     con \<leftarrow> at_address (w_heap w) a;
     w \<leftarrow> (if mode con \<noteq> DIRECT then map_option snd (on_con a (tell_plugins handle_connection_close out) w) else Some w);
     (_, w) \<leftarrow> on_con a (reset_con out) w;
     con \<leftarrow> at_address (w_heap w) a;
     w \<leftarrow> (if keep_alive con = 1 \<and> o_shutdown out (w_round w)
       then map_option snd (on_con a (\<lambda>w con. Some ((), w, con\<lparr>close_timeout_ts := cur_ts (w_srv w), state := CON_STATE_CLOSE\<rparr>)) w)
       else connection_close a w);
     (_, w) \<leftarrow> on_con a (\<lambda>w con. Some ((), w, con\<lparr>keep_alive := 0\<rparr>)) w;
     Some (False, upd_srv (\<lambda>srv. srv\<lparr>con_closed := con_closed srv + 1\<rparr>) w) }"

section \<open>The loop\<close>

definition machine_step :: "outside \<Rightarrow> nat \<Rightarrow> world \<Rightarrow> (bool \<times> world) option" where
  "machine_step out a w = do {
     con \<leftarrow> at_address (w_heap w) a;
     (case state con of
       CON_STATE_REQUEST_START \<Rightarrow> on_con a step_request_start w
     | CON_STATE_REQUEST_END \<Rightarrow> on_con a step_request_end w
     | CON_STATE_HANDLE_REQUEST \<Rightarrow> on_con a (step_handle_request out) w
     | CON_STATE_RESPONSE_START \<Rightarrow> on_con a (step_response_start out) w
     | CON_STATE_RESPONSE_END \<Rightarrow> step_response_end out a w
     | CON_STATE_CONNECT \<Rightarrow> on_con a step_connect w
     | CON_STATE_CLOSE \<Rightarrow> step_close out a w
     | CON_STATE_READ_POST \<Rightarrow> on_con a (step_read out) w
     | CON_STATE_READ \<Rightarrow> on_con a (step_read out) w
     | CON_STATE_WRITE \<Rightarrow> on_con a (step_write out) w
     | CON_STATE_ERROR \<Rightarrow> step_error out a w) }"

text \<open>One round; the loop ends when the state stays and nobody asked to come back.\<close>

definition machine_turn :: "outside \<Rightarrow> nat \<Rightarrow> world \<Rightarrow> (bool \<times> world) option" where
  "machine_turn out a w = do {
     con \<leftarrow> at_address (w_heap w) a;
     (again, w) \<leftarrow> machine_step out a w;
     con' \<leftarrow> at_address (w_heap w) a;
     Some (again \<or> state con' \<noteq> state con, w\<lparr>w_round := w_round w + 1\<rparr>) }"

partial_function (option) machine_loop :: "outside \<Rightarrow> nat \<Rightarrow> world \<Rightarrow> world option" where
  "machine_loop out a w = do {
     (go, w) \<leftarrow> machine_turn out a w;
     if go then machine_loop out a w else Some w }"

text \<open>At the end the events the state waits for are registered.\<close>

definition events_of :: "connection \<Rightarrow> int option" where
  "events_of con =
     (if state con = CON_STATE_READ_POST \<or> state con = CON_STATE_READ \<or> state con = CON_STATE_CLOSE then Some FDEVENT_IN
      else if state con = CON_STATE_WRITE \<and> \<not> chunkqueue_is_empty (write_queue con) \<and> \<not> is_writable con \<and> \<not> traffic_limit_reached con
      then Some FDEVENT_OUT else None)"

definition register_events :: "world \<Rightarrow> connection \<Rightarrow> (unit \<times> world \<times> connection) option" where
  "register_events w con = do {
     (i, b) \<leftarrow> (case events_of con of
         Some e \<Rightarrow> fdevent_event_add (ev (w_srv w)) (fde_ndx con) (fd con) e
       | None \<Rightarrow> fdevent_event_del (ev (w_srv w)) (fde_ndx con) (fd con));
     Some ((), upd_srv (\<lambda>srv. srv\<lparr>ev := b\<rparr>) w, con\<lparr>fde_ndx := i\<rparr>) }"

definition connection_state_machine :: "outside \<Rightarrow> nat \<Rightarrow> world \<Rightarrow> (int \<times> world) option" where
  "connection_state_machine out a w = do {
     w \<leftarrow> machine_loop out a w;
     (_, w) \<leftarrow> on_con a register_events w;
     Some (0, w) }"

section \<open>Events and new connections\<close>

definition handle_revents :: "int \<Rightarrow> connection \<Rightarrow> connection" where
  "handle_revents revents con =
     (let con = (if has_events revents FDEVENT_IN then con\<lparr>is_readable := True\<rparr> else con);
          con = (if has_events revents FDEVENT_OUT then con\<lparr>is_writable := True\<rparr> else con)
      in if \<not> has_events revents (NOT (FDEVENT_IN OR FDEVENT_OUT)) then con
         else if has_events revents FDEVENT_HUP then
           if state con = CON_STATE_CLOSE then con\<lparr>close_timeout_ts := 0\<rparr> else con\<lparr>state := CON_STATE_ERROR\<rparr>
         else if has_events revents FDEVENT_ERR then con\<lparr>state := CON_STATE_ERROR\<rparr>
         else con)"

text \<open>It reads and writes what it can; the machine runs later, from the job list.\<close>

definition connection_handle_fdevent :: "outside \<Rightarrow> nat \<Rightarrow> int \<Rightarrow> world \<Rightarrow> (handler_t \<times> world) option" where
  "connection_handle_fdevent out a revents w = do {
     con \<leftarrow> at_address (w_heap w) a;
     (_, srv) \<leftarrow> joblist_append (w_srv w) con;
     let w = w\<lparr>w_srv := srv\<rparr>;
     (_, w) \<leftarrow> on_con a (\<lambda>w con. Some ((), w, handle_revents revents con)) w;
     con \<leftarrow> at_address (w_heap w) a;
     w \<leftarrow> (if state con = CON_STATE_READ \<or> state con = CON_STATE_READ_POST
       then map_option snd (on_con a (step_read out) w) else Some w);
     con \<leftarrow> at_address (w_heap w) a;
     w \<leftarrow> (if state con = CON_STATE_WRITE then map_option snd (on_con a (step_write out) w) else Some w);
     con \<leftarrow> at_address (w_heap w) a;
     w \<leftarrow> (if state con = CON_STATE_CLOSE
       then map_option snd (on_con a (\<lambda>w con. do { con \<leftarrow> drain (o_pending out (w_round w)) con; Some ((), w, con) }) w)
       else Some w);
     Some (HANDLER_FINISHED, w\<lparr>w_round := w_round w + 1\<rparr>) }"

text \<open>\<open>accepted\<close> is what \<open>accept\<close> answers, \<open>fcntl_ok\<close> whether the descriptor can be made non-blocking.\<close>

definition connection_accept ::
    "outside \<Rightarrow> (sock_addr \<Rightarrow> char list) \<Rightarrow> (int \<times> sock_addr) option \<Rightarrow> bool \<Rightarrow> nat \<Rightarrow> world \<Rightarrow> (nat option \<times> world) option" where
  "connection_accept out get_ip accepted fcntl_ok listener w =
     (if max_conns (w_srv w) \<le> con_used (conns (w_srv w)) then Some (None, w)
      else case accepted of
        None \<Rightarrow> Some (None, w)
      | Some (cnt, cnt_addr) \<Rightarrow> do {
          let srv = (w_srv w)\<lparr>cur_fds := cur_fds (w_srv w) + 1, con_opened := con_opened (w_srv w) + 1\<rparr>;
          (_, a, srv, heap) \<leftarrow> connections_get_new_connection (o_reset out) srv (w_heap w);
          b \<leftarrow> fdevent_register (ev srv) cnt Connection_Fdevent a;
          con \<leftarrow> at_address heap a;
          let con = con\<lparr>fd := cnt, fde_ndx := -1, state := CON_STATE_REQUEST_START, connection_start := cur_ts srv,
            dst_addr := cnt_addr, dst_addr_buf := terminated (get_ip cnt_addr), srv_socket := Some listener\<rparr>;
          Some (if fcntl_ok then Some a else None, w\<lparr>w_srv := srv\<lparr>ev := b\<rparr>, w_heap := heap[a := con]\<rparr>) })"

text \<open>The names of the states (\<open>connections-glue.c\<close>).\<close>

fun connection_get_state :: "connection_state_t \<Rightarrow> string" where
  "connection_get_state CON_STATE_CONNECT = ''connect''"
| "connection_get_state CON_STATE_READ = ''read''"
| "connection_get_state CON_STATE_READ_POST = ''readpost''"
| "connection_get_state CON_STATE_WRITE = ''write''"
| "connection_get_state CON_STATE_CLOSE = ''close''"
| "connection_get_state CON_STATE_ERROR = ''error''"
| "connection_get_state CON_STATE_HANDLE_REQUEST = ''handle-req''"
| "connection_get_state CON_STATE_REQUEST_START = ''req-start''"
| "connection_get_state CON_STATE_REQUEST_END = ''req-end''"
| "connection_get_state CON_STATE_RESPONSE_START = ''resp-start''"
| "connection_get_state CON_STATE_RESPONSE_END = ''resp-end''"

fun connection_get_short_state :: "connection_state_t \<Rightarrow> string" where
  "connection_get_short_state CON_STATE_CONNECT = ''.''"
| "connection_get_short_state CON_STATE_READ = ''r''"
| "connection_get_short_state CON_STATE_READ_POST = ''R''"
| "connection_get_short_state CON_STATE_WRITE = ''W''"
| "connection_get_short_state CON_STATE_CLOSE = ''C''"
| "connection_get_short_state CON_STATE_ERROR = ''E''"
| "connection_get_short_state CON_STATE_HANDLE_REQUEST = ''h''"
| "connection_get_short_state CON_STATE_REQUEST_START = ''q''"
| "connection_get_short_state CON_STATE_REQUEST_END = ''Q''"
| "connection_get_short_state CON_STATE_RESPONSE_START = ''s''"
| "connection_get_short_state CON_STATE_RESPONSE_END = ''S''"

end
