(* ===== verification/ConnStates.thy ===== *)
theory ConnStates
  imports ConnMachine SafePath
begin

text \<open>
  The states a connection goes through: the rounds of \<open>connection_state_machine\<close> follow a diagram, the loop
  ends, it ends in a state that waits for something, and what the state waits for is registered; what a hang-up does.
\<close>

section \<open>The diagram\<close>

text \<open>The states a round may lead to.\<close>

fun next_states :: "connection_state_t \<Rightarrow> connection_state_t set" where
  "next_states CON_STATE_CONNECT = {CON_STATE_CONNECT}"
| "next_states CON_STATE_REQUEST_START = {CON_STATE_READ}"
| "next_states CON_STATE_READ = {CON_STATE_READ, CON_STATE_REQUEST_END, CON_STATE_HANDLE_REQUEST, CON_STATE_ERROR}"
| "next_states CON_STATE_REQUEST_END = {CON_STATE_READ_POST, CON_STATE_HANDLE_REQUEST}"
| "next_states CON_STATE_READ_POST = {CON_STATE_READ_POST, CON_STATE_HANDLE_REQUEST, CON_STATE_ERROR}"
| "next_states CON_STATE_HANDLE_REQUEST = {CON_STATE_HANDLE_REQUEST, CON_STATE_RESPONSE_START, CON_STATE_ERROR}"
| "next_states CON_STATE_RESPONSE_START = {CON_STATE_WRITE}"
| "next_states CON_STATE_WRITE = {CON_STATE_WRITE, CON_STATE_RESPONSE_END, CON_STATE_ERROR}"
| "next_states CON_STATE_RESPONSE_END = {CON_STATE_REQUEST_START, CON_STATE_CONNECT}"
| "next_states CON_STATE_ERROR = {CON_STATE_CLOSE, CON_STATE_CONNECT}"
| "next_states CON_STATE_CLOSE = {CON_STATE_CLOSE, CON_STATE_CONNECT}"

lemma read_state:
  assumes "connection_handle_read inp con = Some (r, con')"
  shows "state con' = state con \<or> r = -1 \<and> state con' = CON_STATE_ERROR"
  using assms by (auto simp: connection_handle_read_def connection_handle_read_ssl_def Let_def split: if_splits option.splits bind_splits sys_read.splits)

lemma header_state: "read_header_state con = Some con' \<Longrightarrow> state con' \<in> {state con, CON_STATE_REQUEST_END, CON_STATE_HANDLE_REQUEST}"
  by (auto simp: read_header_state_def split: if_splits option.splits bind_splits)

lemma post_chunk_state: "post_chunk io up con a = Some (go, up', con') \<Longrightarrow> state con' \<in> {state con, CON_STATE_HANDLE_REQUEST}"
  by (auto simp: post_chunk_def Let_def split: if_splits bind_splits)

lemma post_loop_state: "post_loop io up con as = Some (up', con') \<Longrightarrow> state con' \<in> {state con, CON_STATE_HANDLE_REQUEST}"
proof (induction as arbitrary: up con)
  case (Cons a as)
  show ?case
  proof (cases "bytes_in (request_content_queue con) = int (content_length (req con))")
    case False
    with Cons.prems obtain go up1 con1 where 1: "post_chunk io up con a = Some (go, up1, con1)"
      "(if go then post_loop io up1 con1 as else Some (up1, con1)) = Some (up', con')" by (auto elim!: bind_someE pair_someE)
    with post_chunk_state[OF 1(1)] Cons.IH[of up1 con1] show ?thesis by (cases go) auto
  qed (use Cons.prems in simp)
qed simp

lemma post_state: "read_post_state io up con = Some (up', con') \<Longrightarrow> state con' \<in> {state con, CON_STATE_HANDLE_REQUEST}"
  unfolding read_post_state_def
  by (elim bind_someE pair_someE) (auto split: if_splits dest!: post_loop_state)

lemma reading_states:
  assumes "connection_handle_read_state io inp srv up con = Some (r, up', con')" and "state con = CON_STATE_READ \<or> state con = CON_STATE_READ_POST"
  shows "state con' \<in> next_states (state con)"
proof -
  from assms(1) obtain q con1 where 1: "(if is_readable con then connection_handle_read inp (con\<lparr>read_idle_ts := cur_ts srv\<rparr>) else Some (0, con)) = Some (q, con1)"
    unfolding connection_handle_read_state_def Let_def by (elim bind_someE pair_someE) (rule that; simp)
  have s1: "state con1 = state con \<or> q = -1 \<and> state con1 = CON_STATE_ERROR"
    using 1 read_state[of inp "con\<lparr>read_idle_ts := cur_ts srv\<rparr>" q con1] by (auto split: if_splits)
  show ?thesis
  proof (cases "q = -1")
    case True
    with 1 assms(1) have "con' = con1" by (auto simp: connection_handle_read_state_def Let_def)
    with s1 assms(2) show ?thesis by auto
  next
    case False
    have s1: "state con1 = state con" using False s1 by simp
    from False 1 assms(1) obtain cq up2 con2 where 2: "(case state con of
           CON_STATE_READ \<Rightarrow> do { con \<leftarrow> read_header_state (con1\<lparr>read_queue := cq\<rparr>); Some (up, con) }
         | CON_STATE_READ_POST \<Rightarrow> read_post_state io up (con1\<lparr>read_queue := cq\<rparr>)
         | _ \<Rightarrow> Some (up, con1\<lparr>read_queue := cq\<rparr>)) = Some (up2, con2)"
      "\<exists>cq. con' = (if q = -2 \<and> state con = state con2 then con2\<lparr>state := CON_STATE_ERROR\<rparr> else con2)\<lparr>read_queue := cq\<rparr>"
      unfolding connection_handle_read_state_def Let_def 1
      by (simp only: Option.bind.simps prod.case if_False) (elim bind_someE pair_someE, rule that, simp only: prod.case, blast)
    then have e: "state con' = state con2 \<or> state con' = CON_STATE_ERROR" by (auto split: if_splits)
    show ?thesis
    proof (cases "state con = CON_STATE_READ")
      case True
      with 2(1) obtain "read_header_state (con1\<lparr>read_queue := cq\<rparr>) = Some con2" by (auto elim!: bind_someE)
      from header_state[OF this] e s1 True show ?thesis by auto
    next
      case False
      with assms(2) have p: "state con = CON_STATE_READ_POST" by simp
      with 2(1) have "read_post_state io up (con1\<lparr>read_queue := cq\<rparr>) = Some (up2, con2)" by simp
      from post_state[OF this] e s1 p show ?thesis by auto
    qed
  qed
qed

text \<open>The answer of a preparation is one the machine knows.\<close>

lemma asked: "plugins_call sel ps srv con = Some (r, srv', con') \<Longrightarrow> r \<noteq> HANDLER_UNSET"
proof -
  assume "plugins_call sel ps srv con = Some (r, srv', con')"
  then have "fst (ask_hooks (hooks_of sel ps) srv con) = r" by (simp add: plugins_call_ok)
  moreover have "fst (ask_hooks fs srv con) \<noteq> HANDLER_UNSET" for fs
    by (induction fs arbitrary: srv con) (auto split: prod.splits)
  ultimately show ?thesis by metis
qed

definition known_answer :: "step_result \<Rightarrow> bool" where
  "known_answer m \<longleftrightarrow> (\<forall>r srv con. m = Some (Some r, srv, con) \<longrightarrow> r \<noteq> HANDLER_GO_ON \<and> r \<noteq> HANDLER_UNSET)"

lemma known_ask: "known_answer (ask sel e srv con)"
  by (auto simp: known_answer_def ask_def stops_def split: bind_splits if_splits)

lemma known_go_on: "known_answer m \<Longrightarrow> (\<And>srv con. known_answer (f srv con)) \<Longrightarrow> known_answer (go_on m f)"
  by (auto simp: known_answer_def go_on_def split: bind_splits if_splits)

lemma known_bind: "(\<And>x. m = Some x \<Longrightarrow> known_answer (f x)) \<Longrightarrow> known_answer (m \<bind> f)"
  by (cases m) (simp_all add: known_answer_def)

lemma known_simps [simp]: "known_answer None" "known_answer (Some (None, srv, con))" "known_answer (give_up i srv con)"
    "known_answer (Some (Some HANDLER_FINISHED, srv, con))"
  by (simp_all add: known_answer_def give_up_def)

lemma known_path: "known_answer (prepare_path e srv con)"
  unfolding prepare_path_def prepare_raw_def prepare_clean_def prepare_docroot_def prepare_physical_def Let_def
  by (auto intro!: known_go_on known_bind known_ask split: prod.splits)

lemma known_file: "known_answer (prepare_file e srv con)"
  unfolding prepare_file_def Let_def
  by (auto intro!: known_bind split: prod.splits stat_answer.splits option.splits)

lemma known_subrequest: "known_answer (prepare_subrequest e srv con)"
  unfolding prepare_subrequest_def
  by (rule known_bind) (auto split: prod.splits dest: asked simp: known_answer_def)

lemma prepare_answers:
  assumes "http_response_prepare e srv con = Some (r, srv', con')"
  shows "r \<noteq> HANDLER_GO_ON \<and> r \<noteq> HANDLER_UNSET"
proof (cases "mode con = DIRECT \<and> http_status con \<noteq> 0 \<and> http_status con \<noteq> 200")
  case True
  with assms show ?thesis by (auto simp: http_response_prepare_def split: bind_splits)
next
  case False
  let ?m = "go_on (prepare_path e srv con) (\<lambda>srv con.
          if mode con = DIRECT then go_on (prepare_file e srv con) (prepare_subrequest e) else Some (None, srv, con))"
  have k: "known_answer ?m" by (auto intro!: known_go_on known_path known_file known_subrequest)
  from False assms obtain q srv1 con1 where 1: "?m = Some (q, srv1, con1)"
    "(case q of Some r \<Rightarrow> Some (r, srv1, con1)
        | None \<Rightarrow> do {
            (r, srv, con) \<leftarrow> plugins_call handle_subrequest (plugins e) srv1 con1;
            Some (if r = HANDLER_GO_ON then HANDLER_FINISHED else r, srv, con) }) = Some (r, srv', con')"
    unfolding http_response_prepare_def if_not_P[OF False] by (elim bind_someE pair_someE) (rule that; simp)
  show ?thesis
  proof (cases q)
    case None
    with 1(2) show ?thesis by (auto dest: asked split: bind_splits if_splits)
  next
    case (Some r')
    with 1 k show ?thesis by (auto simp: known_answer_def)
  qed
qed

text \<open>The connection at an address before and after an operation.\<close>

lemma on_con_at:
  assumes "on_con a f w = Some (r, w')" and "at_address (w_heap w') a = Some con'"
  obtains con w1 where "at_address (w_heap w) a = Some con" "f w con = Some (r, w1, con')" "w' = w1\<lparr>w_heap := (w_heap w1)[a := con']\<rparr>"
proof -
  from assms(1) obtain con w1 con1 where 1: "at_address (w_heap w) a = Some con" "f w con = Some (r, w1, con1)"
    "w1\<lparr>w_heap := (w_heap w1)[a := con1]\<rparr> = w'"
    unfolding on_con_def by (elim bind_someE pair_someE) (rule that, assumption, simp, simp)
  with assms(2) have "con1 = con'" by (auto simp: at_address_def split: if_splits)
  with 1 that show thesis by simp
qed

lemma on_con_is:
  assumes "on_con a f w = Some (r, w')" and "at_address (w_heap w) a = Some con" and "at_address (w_heap w') a = Some con'"
  shows "\<exists>w1. f w con = Some (r, w1, con')"
  using assms on_con_at[OF assms(1,3)] by (metis option.inject)

lemma upd_srv_simps [simp]: "w_heap (upd_srv f w) = w_heap w" "w_srv (upd_srv f w) = f (w_srv w)" "w_round (upd_srv f w) = w_round w"
  by (simp_all add: upd_srv_def)

definition tame_reset :: "outside \<Rightarrow> bool" where
  "tame_reset out \<longleftrightarrow> (\<forall>srv con. state (o_reset out srv con) = state con)"

lemma reset_state: "tame_reset out \<Longrightarrow> reset_con out w con = Some (r, w', con') \<Longrightarrow> state con' = state con"
  by (auto simp: tame_reset_def reset_con_def connection_reset_def config_setup_connection_def Let_def split: bind_splits)

lemma closed_state:
  assumes "connection_close a w = Some w'" and "at_address (w_heap w') a = Some con'"
  shows "state con' = CON_STATE_CONNECT"
proof -
  from assms(1) obtain u w1 where 1: "on_con a (set_state CON_STATE_CONNECT) w1 = Some (u, w')"
    unfolding connection_close_def by (elim bind_someE pair_someE) (rule that; simp)
  obtain con w2 where "set_state CON_STATE_CONNECT w1 con = Some (u, w2, con')" by (rule on_con_at[OF 1 assms(2)])
  then show ?thesis by (auto simp: set_state_def)
qed

lemma response_end_state:
  assumes "tame_reset out" and "step_response_end out a w = Some (again, w')" and "at_address (w_heap w') a = Some con'"
  shows "\<not> again \<and> state con' \<in> {CON_STATE_REQUEST_START, CON_STATE_CONNECT}"
proof -
  from assms(2) obtain w1 con1 w2 u where 1: "at_address (w_heap w1) a = Some con1"
    "(if keep_alive con1 \<noteq> 0 then map_option snd (on_con a (set_state CON_STATE_REQUEST_START) w1)
       else do {
         (_, w) \<leftarrow> on_con a (tell_plugins handle_connection_close out) w1;
         w \<leftarrow> connection_close a w;
         Some (upd_srv (\<lambda>srv. srv\<lparr>con_closed := con_closed srv + 1\<rparr>) w) }) = Some w2"
    "on_con a (reset_con out) w2 = Some (u, w')" "\<not> again"
    unfolding step_response_end_def Let_def by (elim bind_someE pair_someE) (rule that; simp)
  obtain con2 w3 where 2: "at_address (w_heap w2) a = Some con2" "reset_con out w2 con2 = Some (u, w3, con')" by (rule on_con_at[OF 1(3) assms(3)])
  have "state con2 \<in> {CON_STATE_REQUEST_START, CON_STATE_CONNECT}"
  proof (cases "keep_alive con1 = 0")
    case True
    with 1(2) obtain w4 w5 where "connection_close a w4 = Some w5" "w2 = upd_srv (\<lambda>srv. srv\<lparr>con_closed := con_closed srv + 1\<rparr>) w5"
      by (auto elim!: bind_someE pair_someE)
    with closed_state[of a w4 w5 con2] 2(1) show ?thesis by simp
  next
    case False
    with 1(2) obtain v where v: "on_con a (set_state CON_STATE_REQUEST_START) w1 = Some (v, w2)" by auto
    from on_con_is[OF v 1(1) 2(1)] show ?thesis by (auto simp: set_state_def)
  qed
  with reset_state[OF assms(1) 2(2)] 1(4) show ?thesis by auto
qed

lemma close_state:
  assumes "step_close out a w = Some (again, w')" and "at_address (w_heap w) a = Some con" and "state con = CON_STATE_CLOSE"
    and "at_address (w_heap w') a = Some con'"
  shows "\<not> again \<and> state con' \<in> {CON_STATE_CLOSE, CON_STATE_CONNECT}"
proof -
  let ?f = "\<lambda>w con. do {
       con \<leftarrow> (if keep_alive con \<noteq> 0 then drain (o_pending out (w_round w)) con else Some (con\<lparr>close_timeout_ts := 0\<rparr>));
       Some ((), w, con) }"
  from assms(1) obtain u w1 con1 where 1: "on_con a ?f w = Some (u, w1)" "at_address (w_heap w1) a = Some con1"
    "(if cur_ts (w_srv w1) - close_timeout_ts con1 > 1 then connection_close a w1 else Some w1) = Some w'" "\<not> again"
    unfolding step_close_def by (elim bind_someE pair_someE) (rule that; simp)
  from on_con_is[OF 1(1) assms(2) 1(2)] have "state con1 = CON_STATE_CLOSE"
    using assms(3) by (auto simp: drain_def split: bind_splits if_splits)
  with 1(2,3,4) closed_state[OF _ assms(4)] assms(4) show ?thesis by (auto split: if_splits)
qed

lemma error_state:
  assumes "step_error out a w = Some (again, w')" and "at_address (w_heap w') a = Some con'"
  shows "\<not> again \<and> state con' \<in> {CON_STATE_CLOSE, CON_STATE_CONNECT}"
proof -
  from assms(1) obtain w1 con1 w2 w3 u where 1: "at_address (w_heap w1) a = Some con1"
    "(if keep_alive con1 = 1 \<and> o_shutdown out (w_round w1)
       then map_option snd (on_con a (\<lambda>w con. Some ((), w, con\<lparr>close_timeout_ts := cur_ts (w_srv w), state := CON_STATE_CLOSE\<rparr>)) w1)
       else connection_close a w1) = Some w2"
    "on_con a (\<lambda>w con. Some ((), w, con\<lparr>keep_alive := 0\<rparr>)) w2 = Some (u, w3)"
    "Some (False, upd_srv (\<lambda>srv. srv\<lparr>con_closed := con_closed srv + 1\<rparr>) w3) = Some (again, w')"
    unfolding step_error_def by (elim bind_someE pair_someE) (rule that; (assumption | simp only:))
  have "at_address (w_heap w3) a = Some con'" using assms(2) 1(4) by auto
  then obtain con2 w4 where 2: "at_address (w_heap w2) a = Some con2" "Some ((), w2, con2\<lparr>keep_alive := 0\<rparr>) = Some (u, w4, con')"
    by (rule on_con_at[OF 1(3)])
  have "state con2 \<in> {CON_STATE_CLOSE, CON_STATE_CONNECT}"
  proof (cases "keep_alive con1 = 1 \<and> o_shutdown out (w_round w1)")
    case True
    with 1(2) obtain v where
      v: "on_con a (\<lambda>w con. Some ((), w, con\<lparr>close_timeout_ts := cur_ts (w_srv w), state := CON_STATE_CLOSE\<rparr>)) w1 = Some (v, w2)" by auto
    from on_con_is[OF v 1(1) 2(1)] show ?thesis by auto
  next
    case False
    with 1(2) have "connection_close a w1 = Some w2" by auto
    from closed_state[OF this 2(1)] show ?thesis by simp
  qed
  with 2(2) 1(4) show ?thesis by auto
qed


lemma handle_request_state:
  assumes "step_handle_request out w con = Some (again, w', con')" and "state con = CON_STATE_HANDLE_REQUEST"
  shows "state con' \<in> next_states CON_STATE_HANDLE_REQUEST \<and> (again \<longrightarrow> state con' = CON_STATE_HANDLE_REQUEST)"
proof -
  obtain r srv1 con1 where 1: "http_response_prepare (o_env out (w_round w)) (w_srv w) con = Some (r, srv1, con1)"
    using assms(1) unfolding step_handle_request_def by (elim bind_someE pair_someE) (rule that; simp)
  have "r \<noteq> HANDLER_GO_ON" "r \<noteq> HANDLER_UNSET" using prepare_answers[OF 1] by simp_all
  with 1 assms(1) show ?thesis
    by (cases r) (auto simp: step_handle_request_def call_error_handler_def request_finished_def nested_updates Let_def split: if_splits bind_splits)
qed

lemma write_state:
  assumes "connection_handle_write b io t srv con = Some (t', srv', con')" and "state con = CON_STATE_WRITE"
  shows "state con' \<in> next_states CON_STATE_WRITE"
proof -
  obtain r t1 srv1 con1 cq where 1: "network_write_chunkqueue b io t srv con (write_queue con) = Some (r, t1, srv1, con1, cq)"
    using assms(1) unfolding connection_handle_write_def by (elim bind_someE pair_someE) (rule that; simp)
  then have "state con1 = CON_STATE_WRITE"
    using assms(2) by (auto simp: network_write_chunkqueue_def limit_reached_def count_written_def Let_def split: if_splits bind_splits)
  with 1 assms(1) show ?thesis
    by (auto simp: connection_handle_write_def Let_def split: if_splits bind_splits)
qed

text \<open>One round of the machine.\<close>

lemma step_states:
  assumes "machine_step out a w = Some (again, w')" and "tame_reset out"
    and "at_address (w_heap w) a = Some con" and "at_address (w_heap w') a = Some con'"
  shows "state con' \<in> next_states (state con) \<and> (again \<longrightarrow> state con = CON_STATE_HANDLE_REQUEST \<and> state con' = CON_STATE_HANDLE_REQUEST)"
proof (cases "state con")
  case CON_STATE_RESPONSE_END
  with assms response_end_state[OF assms(2) _ assms(4)] show ?thesis by (auto simp: machine_step_def)
next
  case CON_STATE_CLOSE
  with assms close_state[OF _ assms(3) _ assms(4)] show ?thesis by (auto simp: machine_step_def)
next
  case CON_STATE_ERROR
  with assms error_state[OF _ assms(4)] show ?thesis by (auto simp: machine_step_def)
next
  case CON_STATE_REQUEST_START
  with assms have "on_con a step_request_start w = Some (again, w')" by (simp add: machine_step_def)
  from on_con_is[OF this assms(3,4)] CON_STATE_REQUEST_START show ?thesis by (auto simp: step_request_start_def Let_def)
next
  case CON_STATE_REQUEST_END
  with assms have "on_con a step_request_end w = Some (again, w')" by (simp add: machine_step_def)
  from on_con_is[OF this assms(3,4)] CON_STATE_REQUEST_END show ?thesis by (auto simp: step_request_end_def split: bind_splits)
next
  case CON_STATE_HANDLE_REQUEST
  with assms have "on_con a (step_handle_request out) w = Some (again, w')" by (simp add: machine_step_def)
  from on_con_is[OF this assms(3,4)] CON_STATE_HANDLE_REQUEST show ?thesis by (auto dest!: handle_request_state)
next
  case CON_STATE_RESPONSE_START
  with assms have "on_con a (step_response_start out) w = Some (again, w')" by (simp add: machine_step_def)
  from on_con_is[OF this assms(3,4)] CON_STATE_RESPONSE_START show ?thesis by (auto simp: step_response_start_def split: bind_splits)
next
  case CON_STATE_CONNECT
  with assms have "on_con a step_connect w = Some (again, w')" by (simp add: machine_step_def)
  from on_con_is[OF this assms(3,4)] CON_STATE_CONNECT show ?thesis by (auto simp: step_connect_def split: bind_splits)
next
  case CON_STATE_READ
  with assms have "on_con a (step_read out) w = Some (again, w')" by (simp add: machine_step_def)
  from on_con_is[OF this assms(3,4)] CON_STATE_READ show ?thesis by (auto simp: step_read_def split: bind_splits dest!: reading_states)
next
  case CON_STATE_READ_POST
  with assms have "on_con a (step_read out) w = Some (again, w')" by (simp add: machine_step_def)
  from on_con_is[OF this assms(3,4)] CON_STATE_READ_POST show ?thesis by (auto simp: step_read_def split: bind_splits dest!: reading_states)
next
  case CON_STATE_WRITE
  with assms have "on_con a (step_write out) w = Some (again, w')" by (simp add: machine_step_def)
  from on_con_is[OF this assms(3,4)] CON_STATE_WRITE show ?thesis
    by (auto simp: step_write_def split: bind_splits if_splits dest!: write_state)
qed


lemma turnE:
  assumes "machine_turn out a w = Some (go, w')"
  obtains con again w1 con' where "at_address (w_heap w) a = Some con" "machine_step out a w = Some (again, w1)"
    "at_address (w_heap w1) a = Some con'" "go \<longleftrightarrow> again \<or> state con' \<noteq> state con" "w' = w1\<lparr>w_round := w_round w1 + 1\<rparr>"
  using assms unfolding machine_turn_def by (elim bind_someE pair_someE) (rule that, assumption, simp, assumption, auto)

lemma turn_states:
  assumes "machine_turn out a w = Some (go, w')" and "tame_reset out"
  obtains con con' where "at_address (w_heap w) a = Some con" "at_address (w_heap w') a = Some con'"
    "state con' \<in> next_states (state con)" "go \<longleftrightarrow> state con' \<noteq> state con \<or> (go \<and> state con = CON_STATE_HANDLE_REQUEST)"
proof -
  obtain con again w1 con' where 1: "at_address (w_heap w) a = Some con" "machine_step out a w = Some (again, w1)"
    "at_address (w_heap w1) a = Some con'" "go \<longleftrightarrow> again \<or> state con' \<noteq> state con" "w' = w1\<lparr>w_round := w_round w1 + 1\<rparr>"
    by (rule turnE[OF assms(1)])
  from step_states[OF 1(2) assms(2) 1(1,3)] 1 show thesis by (intro that[of con con']) auto
qed

section \<open>What the loop leaves\<close>

definition waiting :: "connection_state_t \<Rightarrow> bool" where
  "waiting s \<longleftrightarrow> s \<in> {CON_STATE_CONNECT, CON_STATE_READ, CON_STATE_READ_POST, CON_STATE_HANDLE_REQUEST, CON_STATE_WRITE, CON_STATE_CLOSE}"

lemma waiting_iff: "waiting s \<longleftrightarrow> s \<in> next_states s"
  by (cases s) (simp_all add: waiting_def)

lemma loop_last: "machine_loop out a w = Some w' \<Longrightarrow> \<exists>w1. machine_turn out a w1 = Some (False, w')"
  by (erule machine_loop.raw_induct[rotated]) (auto split: bind_splits if_splits)

lemma loop_waits:
  assumes "machine_loop out a w = Some w'" and "tame_reset out"
  obtains con where "at_address (w_heap w') a = Some con" "waiting (state con)"
proof -
  obtain w1 where "machine_turn out a w1 = Some (False, w')" using loop_last[OF assms(1)] by blast
  then obtain con con' where "at_address (w_heap w1) a = Some con" "at_address (w_heap w') a = Some con'" "state con' \<in> next_states (state con)"
    "False \<longleftrightarrow> state con' \<noteq> state con \<or> (False \<and> state con = CON_STATE_HANDLE_REQUEST)" by (rule turn_states[OF _ assms(2)])
  with that[of con'] show thesis by (simp add: waiting_iff)
qed

lemma registered_at:
  assumes "connection_state_machine out a w = Some (r, w')"
  obtains w1 con con' w2 where "machine_loop out a w = Some w1" "at_address (w_heap w1) a = Some con"
    "register_events w1 con = Some ((), w2, con')" "r = 0" "w_srv w' = w_srv w2" "at_address (w_heap w2) a = Some con \<longrightarrow> at_address (w_heap w') a = Some con'"
proof -
  from assms obtain w1 where 1: "machine_loop out a w = Some w1" "on_con a register_events w1 = Some ((), w')" "r = 0"
    unfolding connection_state_machine_def by (elim bind_someE pair_someE) (rule that, assumption, auto)
  from 1(2) obtain con w2 con' where 2: "at_address (w_heap w1) a = Some con" "register_events w1 con = Some ((), w2, con')"
    "w2\<lparr>w_heap := (w_heap w2)[a := con']\<rparr> = w'"
    unfolding on_con_def by (elim bind_someE pair_someE) (rule that, assumption, simp, simp)
  have "at_address (w_heap w2) a = Some con \<longrightarrow> at_address (w_heap w') a = Some con'"
    using 2(3) by (auto simp: at_address_def split: if_splits)
  moreover have "w_srv w' = w_srv w2" using 2(3) by auto
  ultimately show thesis by (intro that[OF 1(1) 2(1,2) 1(3)])
qed

lemma register_events_keeps: "register_events w con = Some (u, w', con') \<Longrightarrow> w_heap w' = w_heap w \<and> (\<exists>i. con' = con\<lparr>fde_ndx := i\<rparr>)"
  by (auto simp: register_events_def split: bind_splits option.splits)

section \<open>The loop ends\<close>

text \<open>Rounds after which the loop goes on, with the states they began in.\<close>

inductive turns :: "outside \<Rightarrow> nat \<Rightarrow> world \<Rightarrow> connection_state_t list \<Rightarrow> world \<Rightarrow> bool" for out a where
  no_turn: "turns out a w [] w"
| a_turn: "machine_turn out a w = Some (True, w1) \<Longrightarrow> at_address (w_heap w) a = Some con \<Longrightarrow> turns out a w1 ss w' \<Longrightarrow>
    turns out a w (state con # ss) w'"

inductive_cases turns_ConsE: "turns out a w (s # ss) w'"

text \<open>Every cycle of the diagram goes through \<open>CON_STATE_HANDLE_REQUEST\<close>; everywhere else the state_rank goes down.\<close>

fun state_rank :: "connection_state_t \<Rightarrow> nat" where
  "state_rank CON_STATE_CONNECT = 0"
| "state_rank CON_STATE_CLOSE = 1"
| "state_rank CON_STATE_ERROR = 2"
| "state_rank CON_STATE_HANDLE_REQUEST = 3"
| "state_rank CON_STATE_READ_POST = 4"
| "state_rank CON_STATE_REQUEST_END = 5"
| "state_rank CON_STATE_READ = 6"
| "state_rank CON_STATE_REQUEST_START = 7"
| "state_rank CON_STATE_RESPONSE_END = 8"
| "state_rank CON_STATE_WRITE = 9"
| "state_rank CON_STATE_RESPONSE_START = 10"

lemma state_rank_down: "s' \<in> next_states s \<Longrightarrow> s' \<noteq> s \<Longrightarrow> s \<noteq> CON_STATE_HANDLE_REQUEST \<Longrightarrow> state_rank s' < state_rank s"
  by (cases s) auto

lemma state_rank_bound: "state_rank s \<le> 10"
  by (cases s) simp_all

lemma turns_bound:
  assumes "turns out a w ss w'" and "tame_reset out" and "at_address (w_heap w) a = Some con"
  shows "\<exists>con'. at_address (w_heap w') a = Some con' \<and> length ss + state_rank (state con') \<le> state_rank (state con) + 8 * count_list ss CON_STATE_HANDLE_REQUEST"
  using assms(1,3)
proof (induction arbitrary: con rule: turns.induct)
  case (a_turn w w1 con0 ss w')
  obtain con1 con2 where 1: "at_address (w_heap w) a = Some con1" "at_address (w_heap w1) a = Some con2" "state con2 \<in> next_states (state con1)"
    "True \<longleftrightarrow> state con2 \<noteq> state con1 \<or> (True \<and> state con1 = CON_STATE_HANDLE_REQUEST)" by (rule turn_states[OF a_turn.hyps(1) assms(2)])
  obtain con' where 2: "at_address (w_heap w') a = Some con'"
    "length ss + state_rank (state con') \<le> state_rank (state con2) + 8 * count_list ss CON_STATE_HANDLE_REQUEST" using a_turn.IH[OF 1(2)] by blast
  have "con1 = con" "con0 = con" using 1(1) a_turn.hyps(2) a_turn.prems by simp_all
  with 1 2 state_rank_down[of "state con2" "state con"] state_rank_bound[of "state con2"] show ?case
    by (cases "state con = CON_STATE_HANDLE_REQUEST") auto
qed auto

lemma turns_snoc: "turns out a w ss w1 \<Longrightarrow> machine_turn out a w1 = Some (True, w2) \<Longrightarrow> at_address (w_heap w1) a = Some con \<Longrightarrow>
    turns out a w (ss @ [state con]) w2"
  by (induction rule: turns.induct) (auto intro: turns.intros)

lemma loop_after: "turns out a w ss w1 \<Longrightarrow> machine_loop out a w1 = Some w2 \<Longrightarrow> machine_loop out a w = Some w2"
proof (induction rule: turns.induct)
  case (a_turn w w1 con ss w')
  from a_turn.hyps(1) have "machine_loop out a w = machine_loop out a w1" by (subst machine_loop.simps) simp
  with a_turn show ?case by simp
qed

lemma loop_returns_ok:
  assumes "tame_reset out" and "at_address (w_heap w) a = Some con"
    and "\<And>ss w'. turns out a w ss w' \<Longrightarrow> machine_turn out a w' \<noteq> None \<and> count_list ss CON_STATE_HANDLE_REQUEST \<le> k"
  shows "\<exists>ss w1 w2. turns out a w ss w1 \<and> length ss \<le> 10 + 8 * k \<and> machine_turn out a w1 = Some (False, w2) \<and> machine_loop out a w = Some w2"
proof (rule ccontr)
  assume none: "\<not> ?thesis"
  have short: "length ss \<le> 10 + 8 * k" if "turns out a w ss w1" for ss w1
    using turns_bound[OF that assms(1,2)] assms(3)[OF that] state_rank_bound[of "state con"] by auto
  have "\<exists>ss w1. turns out a w ss w1 \<and> length ss = n" for n
  proof (induction n)
    case 0
    then show ?case by (auto intro: no_turn)
  next
    case (Suc n)
    then obtain ss w1 where 1: "turns out a w ss w1" "length ss = n" by blast
    then obtain go w2 where 2: "machine_turn out a w1 = Some (go, w2)" using assms(3)[OF 1(1)] by auto
    have go: go
    proof (rule ccontr)
      assume "\<not> go"
      with 2 have "machine_loop out a w1 = Some w2" by (subst machine_loop.simps) simp
      from loop_after[OF 1(1) this] have l: "machine_loop out a w = Some w2" .
      have "machine_turn out a w1 = Some (False, w2)" using 2 \<open>\<not> go\<close> by simp
      with none 1(1) short[OF 1(1)] l show False by blast
    qed
    obtain con1 where "at_address (w_heap w1) a = Some con1" using turns_bound[OF 1(1) assms(1,2)] by blast
    with turns_snoc[OF 1(1)] 2 go 1(2) show ?case by (intro exI[of _ "ss @ [state con1]"] exI[of _ w2]) simp
  qed
  then obtain ss w1 where "turns out a w ss w1" "length ss = 11 + 8 * k" by blast
  with short[of ss w1] show False by simp
qed


section \<open>Events\<close>

text \<open>A backend answers with a number of chunks or with -1 or -2.\<close>

definition answers_well :: "backend \<Rightarrow> bool" where
  "answers_well b \<longleftrightarrow> (\<forall>io w cq r w' cq'. b io w cq = Some (r, w', cq') \<longrightarrow> -2 \<le> r)"

lemma write_chunk_result: "write_chunk io w c = Some (Inl r, w') \<Longrightarrow> r = -1"
  by (auto simp: write_chunk_def write_mem_def write_file_def Let_def split: chunk_type.splits sys_result.splits option.splits if_splits bind_splits prod.splits)

lemma write_loop_result: "write_loop fuel io w cq p n = Some (r, w', cq') \<Longrightarrow> 0 \<le> n \<Longrightarrow> -2 \<le> r"
proof (induction fuel arbitrary: w cq p n)
  case 0
  then show ?case by (cases p) auto
next
  case (Suc fuel)
  show ?case
  proof (cases p)
    case (Some a)
    with Suc.prems obtain c q w1 where 1: "write_chunk io w c = Some (q, w1)" "(case q of
       Inl ret \<Rightarrow> Some (ret, w1, cq)
     | Inr (finished, k, c) \<Rightarrow>
         let cq = (set_chunk cq a c)\<lparr>bytes_out := bytes_out cq + int k\<rparr>
         in if finished then write_loop fuel io w1 cq (c_next c) (n + 1) else Some (n, w1, cq)) = Some (r, w', cq')"
      unfolding Some write_loop.simps by (elim bind_someE pair_someE) (rule that; simp)
    show ?thesis
    proof (cases q)
      case (Inl e)
      with 1 write_chunk_result[of io w c e w1] show ?thesis by simp
    next
      case (Inr x)
      with 1(2) Suc.IH[where n = "n + 1"] Suc.prems(2) show ?thesis by (auto simp: Let_def split: if_splits prod.splits)
    qed
  qed (use Suc.prems in simp)
qed

lemma call_result_bound: "call_result s = Inl r \<Longrightarrow> -2 \<le> r"
  by (auto simp: call_result_def split: sys_result.splits errno_t.splits)

lemma sendfile_file_result: "sendfile_file io w c = Some (Inl r, c', w') \<Longrightarrow> -2 \<le> r"
  by (auto simp: sendfile_file_def Let_def dest!: call_result_bound split: sum.splits option.splits if_splits prod.splits bind_splits)

lemma account_result: "account cq ts ls k f c n = Some (cq', f', c', n') \<Longrightarrow> 0 \<le> n \<Longrightarrow> 0 \<le> n'"
proof (induction cq ts ls k f c n rule: account.induct)
  case (1 cq t ts l ls k f c n)
  then show ?case by (auto simp: Let_def split: if_splits bind_splits)
qed auto

lemma sendfile_loop_result: "sendfile_loop fuel io w cq p n = Some (r, w', cq') \<Longrightarrow> 0 \<le> n \<Longrightarrow> -2 \<le> r"
proof (induction fuel arbitrary: w cq p n)
  case 0
  then show ?case by (cases p) auto
next
  case (Suc fuel)
  show ?case
  proof (cases p)
    case (Some a)
    have ih: "sendfile_loop fuel io w cq p (m + 1) = Some (r, w', cq') \<Longrightarrow> 0 \<le> m \<Longrightarrow> -2 \<le> r" for w cq p m
      using Suc.IH[of w cq p "m + 1"] by simp
    have low: "account cq ts ls k f c m = Some (cq', f', c', m') \<Longrightarrow> 0 \<le> m \<Longrightarrow> -2 \<le> m'" for cq ts ls k f c m cq' f' c' m'
      using account_result[of cq ts ls k f c m cq' f' c' m'] by simp
    from Some Suc.prems show ?thesis
      by (auto simp: Let_def split: chunk_type.splits sum.splits if_splits prod.splits bind_splits
          dest: call_result_bound sendfile_file_result intro: ih account_result low)
  qed (use Suc.prems in simp)
qed

lemma backends_answer_well: "answers_well network_write_chunkqueue_write" "answers_well network_write_chunkqueue_linuxsendfile"
  by (auto simp: answers_well_def network_write_chunkqueue_write_def network_write_chunkqueue_linuxsendfile_def
      intro: write_loop_result sendfile_loop_result)

lemma written_result:
  assumes "network_write_chunkqueue b io t srv con cq = Some (r, t', srv', con', cq')" and "answers_well b"
  shows "r = -1 \<or> r = -2 \<or> r = 0 \<and> chunkqueue_is_empty cq' \<or> r = 1"
proof (cases "global_kbytes_per_second (conf con) \<noteq> 0 \<and> global_count srv con > int (global_kbytes_per_second (conf con)) * 1024")
  case True
  with assms(1) show ?thesis unfolding network_write_chunkqueue_def if_P[OF True] by (auto split: bind_splits)
next
  case False
  with assms(1) obtain s q t1 q1 where 1: "(if sock_is_ssl (srv_sockets srv ! s) then Some (-1, t, cq) else b io t cq) = Some (q, t1, q1)"
    "(if q \<ge> 0 then do {
            (_, cq) \<leftarrow> chunkqueue_remove_finished_chunks q1;
            Some (if chunkqueue_is_empty cq then 0 else 1, cq) }
          else Some (q, q1)) = Some (r, cq')"
    unfolding network_write_chunkqueue_def if_not_P[OF False] Let_def by (elim bind_someE pair_someE) (rule that; simp)
  have "-2 \<le> q" using 1(1) assms(2) unfolding answers_well_def by (cases "sock_is_ssl (srv_sockets srv ! s)") (simp, simp, blast)
  with 1(2) show ?thesis by (auto split: if_splits bind_splits)
qed

text \<open>Whoever stays in \<open>CON_STATE_WRITE\<close> with something to send has found the socket full.\<close>

lemma writing_blocked:
  assumes "step_write out w con = Some (again, w', con')" and "answers_well (o_backend out)" and "state con' = CON_STATE_WRITE"
  shows "chunkqueue_is_empty (write_queue con') \<or> \<not> is_writable con'"
proof (cases "\<not> chunkqueue_is_empty (write_queue con) \<and> is_writable con")
  case True
  then obtain t srv con1 where 1: "connection_handle_write (o_backend out) (o_net out) (w_wire w) (w_srv w) con = Some (t, srv, con1)"
    "con' = (if state con1 = CON_STATE_WRITE then con1\<lparr>write_request_ts := cur_ts srv\<rparr> else con1)"
    using assms(1) unfolding step_write_def if_P[OF True] by (elim bind_someE pair_someE) (rule that, simp, simp)
  obtain r t1 srv1 con2 cq where 2: "network_write_chunkqueue (o_backend out) (o_net out) (w_wire w) (w_srv w) con (write_queue con) = Some (r, t1, srv1, con2, cq)"
    using 1(1) unfolding connection_handle_write_def by (elim bind_someE pair_someE) (rule that; simp)
  from 1 2 assms(3) written_result[OF 2 assms(2)] show ?thesis
    by (auto simp: connection_handle_write_def Let_def split: if_splits bind_splits)
next
  case False
  with assms(1) show ?thesis by (auto simp: step_write_def)
qed

lemma loop_writing:
  assumes "machine_loop out a w = Some w'" and "answers_well (o_backend out)" and "tame_reset out"
    and "at_address (w_heap w') a = Some con" and "state con = CON_STATE_WRITE"
  shows "chunkqueue_is_empty (write_queue con) \<or> \<not> is_writable con"
proof -
  obtain w1 where 1: "machine_turn out a w1 = Some (False, w')" using loop_last[OF assms(1)] by blast
  obtain con1 con2 where 2: "at_address (w_heap w1) a = Some con1" "at_address (w_heap w') a = Some con2" "state con2 \<in> next_states (state con1)"
    "False \<longleftrightarrow> state con2 \<noteq> state con1 \<or> (False \<and> state con1 = CON_STATE_HANDLE_REQUEST)" by (rule turn_states[OF 1 assms(3)])
  with assms(4,5) have s: "state con1 = CON_STATE_WRITE" by simp
  obtain con3 again w2 con4 where "at_address (w_heap w1) a = Some con3" "machine_step out a w1 = Some (again, w2)"
    "at_address (w_heap w2) a = Some con4" "False \<longleftrightarrow> again \<or> state con4 \<noteq> state con3" "w' = w2\<lparr>w_round := w_round w2 + 1\<rparr>"
    by (rule turnE[OF 1])
  with 2(1) s have 3: "on_con a (step_write out) w1 = Some (again, w2)" "at_address (w_heap w2) a = Some con"
    using assms(4) by (simp_all add: machine_step_def)
  from on_con_is[OF 3(1) 2(1) 3(2)] writing_blocked[OF _ assms(2,5)] show ?thesis by blast
qed

text \<open>What a connection in a state wants to hear of.\<close>

definition wants :: "connection \<Rightarrow> int option" where
  "wants con = (case state con of
       CON_STATE_READ \<Rightarrow> Some FDEVENT_IN
     | CON_STATE_READ_POST \<Rightarrow> Some FDEVENT_IN
     | CON_STATE_CLOSE \<Rightarrow> Some FDEVENT_IN
     | CON_STATE_WRITE \<Rightarrow> if chunkqueue_is_empty (write_queue con) \<or> traffic_limit_reached con then None else Some FDEVENT_OUT
     | _ \<Rightarrow> None)"

lemma events_wanted:
  assumes "waiting (state con)" and "state con = CON_STATE_WRITE \<Longrightarrow> chunkqueue_is_empty (write_queue con) \<or> \<not> is_writable con"
  shows "events_of con = wants con"
  using assms by (cases "state con") (auto simp: events_of_def wants_def waiting_def)

lemma events_registered_ok:
  assumes "machine_loop out a w = Some w1" and "tame_reset out" and "answers_well (o_backend out)"
    and "at_address (w_heap w1) a = Some con" and "ev_rep (ev (w_srv w1)) idx W" and "idx (fd con) = fde_ndx con" and "settable (fd con)"
    and "\<And>d e. W d = Some e \<Longrightarrow> e = FDEVENT_IN \<or> e = FDEVENT_OUT"
  shows "valid (connection_state_machine out a w) (\<lambda>(r, w2). r = 0 \<and>
     (\<forall>d \<ge> 0. watched (ev (w_srv w2)) d = (if d = fd con then wants con else watched (ev (w_srv w1)) d)) \<and>
     valid (at_address (w_heap w2) a) (\<lambda>con'. \<exists>i. con' = con\<lparr>fde_ndx := i\<rparr>))"
proof -
  obtain c where "at_address (w_heap w1) a = Some c" "waiting (state c)" by (rule loop_waits[OF assms(1,2)])
  with assms(4) have e: "events_of con = wants con"
    using events_wanted loop_writing[OF assms(1,3,2,4)] by simp
  define W' where "W' = W(fd con := wants con)"
  obtain i b where 1: "(case events_of con of
         Some e \<Rightarrow> fdevent_event_add (ev (w_srv w1)) (fde_ndx con) (fd con) e
       | None \<Rightarrow> fdevent_event_del (ev (w_srv w1)) (fde_ndx con) (fd con)) = Some (i, b)" "ev_rep b (idx(fd con := i)) W'"
  proof (cases "events_of con")
    case None
    with that event_del_ok[OF assms(5,7)] e assms(6) show thesis by (auto simp: valid_def W'_def)
  next
    case (Some x)
    then have "x = FDEVENT_IN \<or> x = FDEVENT_OUT" by (auto simp: events_of_def split: if_splits)
    from event_add_ok[OF assms(5,7) this] obtain i b where "fdevent_event_add (ev (w_srv w1)) (idx (fd con)) (fd con) x = Some (i, b)"
      "ev_rep b (idx(fd con := i)) (W(fd con \<mapsto> x))" by (auto simp: valid_def)
    with Some assms(6) e show thesis by (intro that[of i b]) (simp_all add: W'_def)
  qed
  let ?w = "upd_srv (\<lambda>srv. srv\<lparr>ev := b\<rparr>) w1" and ?con = "con\<lparr>fde_ndx := i\<rparr>"
  have "register_events w1 con = Some ((), ?w, ?con)" using 1(1) by (simp add: register_events_def)
  then have run: "connection_state_machine out a w = Some (0, ?w\<lparr>w_heap := (w_heap ?w)[a := ?con]\<rparr>)"
    using assms(1,4) by (simp add: connection_state_machine_def on_con_def)
  have wd: "W' d = Some x \<Longrightarrow> x = FDEVENT_IN \<or> x = FDEVENT_OUT" for d x
    using assms(8) by (auto simp: W'_def wants_def split: if_splits connection_state_t.splits)
  have "watched b d = (if d = fd con then wants con else watched (ev (w_srv w1)) d)" if "0 \<le> d" for d
    using rep_watched[OF 1(2) that wd] rep_watched[OF assms(5) that assms(8)] by (simp add: W'_def)
  moreover have "at_address ((w_heap ?w)[a := ?con]) a = Some ?con" using assms(4) by (auto simp: at_address_def split: if_splits)
  ultimately show ?thesis unfolding run by auto
qed

section \<open>Properties\<close>

text \<open>A connection that has just been accepted, and a client that has sent nothing yet.\<close>

definition quiet_client :: outside where
  "quiet_client = \<lparr>o_env = \<lambda>_. found_env, o_read = \<lambda>_. \<lparr>in_pending = Some 0, in_room = 64, in_read = Not_Read EAGAIN\<rparr>,
     o_shutdown = \<lambda>_. True, o_pending = \<lambda>_. Some 0, o_backend = network_write_chunkqueue_linuxsendfile, o_net = slow_io,
     o_upload = sample_upload_io, o_date = \<lambda>_. [], o_package = ''lighttpd'', o_reset = \<lambda>_ con. con\<rparr>"

definition accepted_con :: connection where
  "accepted_con = (connection_init sample_server)\<lparr>state := CON_STATE_REQUEST_START, fd := 5, is_readable := True\<rparr>"

definition accepted_world :: world where
  "accepted_world = \<lparr>w_srv = sample_server, w_heap = [accepted_con], w_wire = \<lparr>calls = 0, sent = []\<rparr>, w_uploads = sample_uploads, w_round = 0\<rparr>"

lemma accepted_turns:
  obtains w1 w2 where "machine_turn quiet_client 0 accepted_world = Some (True, w1)" "machine_turn quiet_client 0 w1 = Some (False, w2)"
proof -
  have "map_option fst (machine_turn quiet_client 0 accepted_world) = Some True" by code_simp
  then obtain w1 where 1: "machine_turn quiet_client 0 accepted_world = Some (True, w1)" by auto
  have "map_option fst (machine_turn quiet_client 0 accepted_world \<bind> (\<lambda>(go, w). machine_turn quiet_client 0 w)) = Some False" by code_simp
  with 1 have "map_option fst (machine_turn quiet_client 0 w1) = Some False" by simp
  with 1 that show thesis by auto
qed

lemma quiet_ok: "tame_reset quiet_client" "answers_well (o_backend quiet_client)"
  using backends_answer_well(2) by (simp_all add: tame_reset_def quiet_client_def)

lemma accepted_at: "at_address (w_heap accepted_world) 0 = Some accepted_con" "state accepted_con = CON_STATE_REQUEST_START"
  by (simp_all add: at_address_def accepted_world_def accepted_con_def)

lemma accepted_bounded:
  assumes "turns quiet_client 0 accepted_world ss w'"
  shows "machine_turn quiet_client 0 w' \<noteq> None \<and> count_list ss CON_STATE_HANDLE_REQUEST \<le> 0"
proof -
  obtain w1 w2 where 1: "machine_turn quiet_client 0 accepted_world = Some (True, w1)" "machine_turn quiet_client 0 w1 = Some (False, w2)"
    by (rule accepted_turns)
  show ?thesis
    using assms
  proof (cases rule: turns.cases)
    case (a_turn w3 con ss')
    then have "con = accepted_con" "turns quiet_client 0 w1 ss' w'" using 1(1) accepted_at(1) by simp_all
    from this(2) show ?thesis
      by (cases rule: turns.cases) (use 1 a_turn accepted_at \<open>con = accepted_con\<close> in auto)
  qed (use 1 in simp)
qed

text \<open>
  C29: each round of the state machine follows the diagram of the states, whatever the plugins answer; the loop
  ends with a round only in a state that may stay, and only when the state did stay.
\<close>

theorem rounds_follow_diagram:
  assumes "machine_turn out a w = Some (go, w')" and "tame_reset out" and "at_address (w_heap w) a = Some con"
  shows "valid (at_address (w_heap w') a) (\<lambda>con'. state con' \<in> next_states (state con) \<and>
     (\<not> go \<longrightarrow> state con' = state con \<and> waiting (state con')) \<and> (go \<and> state con' = state con \<longrightarrow> state con = CON_STATE_HANDLE_REQUEST))"
  using turn_states[OF assms(1,2)] assms(3) by (force simp: waiting_iff valid_def)

theorem rounds_follow_diagram_witness:
  "valid (machine_turn quiet_client 0 accepted_world) (\<lambda>(go, w'). go \<and> valid (at_address (w_heap w') 0) (\<lambda>con'. state con' = CON_STATE_READ))"
proof -
  obtain w1 w2 where 1: "machine_turn quiet_client 0 accepted_world = Some (True, w1)" by (rule accepted_turns)
  from rounds_follow_diagram[OF 1 quiet_ok(1) accepted_at(1)] accepted_at(2) 1 show ?thesis by (auto simp: valid_def)
qed

text \<open>
  C30: the loop of the state machine returns: when no round meets undefined behaviour and at most \<open>k\<close> rounds
  prepare a response, there are at most \<open>10 + 8 * k\<close> rounds before the last.
\<close>

theorem state_machine_returns:
  assumes "tame_reset out" and "at_address (w_heap w) a = Some con"
    and "\<And>ss w'. turns out a w ss w' \<Longrightarrow> machine_turn out a w' \<noteq> None \<and> count_list ss CON_STATE_HANDLE_REQUEST \<le> k"
  shows "\<exists>ss w1 w2. turns out a w ss w1 \<and> length ss \<le> 10 + 8 * k \<and> machine_turn out a w1 = Some (False, w2) \<and> machine_loop out a w = Some w2"
  by (rule loop_returns_ok[OF assms])

theorem state_machine_returns_witness: "\<exists>w2. machine_loop quiet_client 0 accepted_world = Some w2"
  using state_machine_returns[OF quiet_ok(1) accepted_at(1) accepted_bounded] by blast

section \<open>Deviations\<close>

lemma error_keep_alive:
  assumes "step_error out a w = Some (again, w1)" and "at_address (w_heap w1) a = Some con1"
  shows "keep_alive con1 = 0"
proof -
  from assms(1) obtain w3 w4 where 1: "on_con a (\<lambda>w con. Some ((), w, con\<lparr>keep_alive := 0\<rparr>)) w3 = Some ((), w4)" "w_heap w1 = w_heap w4"
    unfolding step_error_def by (elim bind_someE pair_someE) (rule that; force)
  have "at_address (w_heap w4) a = Some con1" using assms(2) 1(2) by simp
  then obtain con3 w5 where "Some ((), w3, con3\<lparr>keep_alive := 0\<rparr>) = Some ((), w5, con1)" by (rule on_con_at[OF 1(1)])
  then show ?thesis by auto
qed

lemma close_at_once:
  assumes "step_close out a w1 = Some (again, w2)" and "at_address (w_heap w1) a = Some con1" and "keep_alive con1 = 0"
    and "cur_ts (w_srv w1) > 1" and "at_address (w_heap w2) a = Some con2"
  shows "state con2 = CON_STATE_CONNECT"
proof -
  let ?f = "\<lambda>w con. do {
       con \<leftarrow> (if keep_alive con \<noteq> 0 then drain (o_pending out (w_round w)) con else Some (con\<lparr>close_timeout_ts := 0\<rparr>));
       Some ((), w, con) }"
  from assms(1) obtain w6 con6 where 2: "on_con a ?f w1 = Some ((), w6)" "at_address (w_heap w6) a = Some con6"
    "(if cur_ts (w_srv w6) - close_timeout_ts con6 > 1 then connection_close a w6 else Some w6) = Some w2"
    unfolding step_close_def by (elim bind_someE pair_someE) (rule that; simp)
  obtain con7 w7 where 3: "at_address (w_heap w1) a = Some con7" "?f w1 con7 = Some ((), w7, con6)" "w6 = w7\<lparr>w_heap := (w_heap w7)[a := con6]\<rparr>"
    by (rule on_con_at[OF 2(1,2)])
  from 3 assms(2,3) have "close_timeout_ts con6 = 0" "w_srv w6 = w_srv w1" by auto
  with 2(3) assms(4) have "connection_close a w6 = Some w2" by simp
  from closed_state[OF this assms(5)] show ?thesis .
qed

text \<open>
  The lingering close never lingers: \<open>keep_alive\<close> is 0 as soon as the state is \<open>CON_STATE_CLOSE\<close>, so the next round
  forgets the time of the shutdown and closes the connection.
\<close>

lemma lingering_is_dead:
  assumes "machine_step out a w = Some (again, w1)" and "at_address (w_heap w) a = Some con" and "state con = CON_STATE_ERROR"
    and "at_address (w_heap w1) a = Some con1" and "state con1 = CON_STATE_CLOSE"
    and "machine_step out a w1 = Some (again', w2)" and "at_address (w_heap w2) a = Some con2" and "cur_ts (w_srv w1) > 1"
  shows "state con2 = CON_STATE_CONNECT"
proof -
  from assms(1-3) have "step_error out a w = Some (again, w1)" by (simp add: machine_step_def)
  note k = error_keep_alive[OF this assms(4)]
  from assms(4-6) have "step_close out a w1 = Some (again', w2)" by (simp add: machine_step_def)
  from close_at_once[OF this assms(4) k assms(8,7)] show ?thesis .
qed

section \<open>Hang-ups\<close>









end
