(* ===== verification/Accept.thy ===== *)
theory Accept
  imports ConnStates
begin

text \<open>
  What \<open>connection_accept\<close> and \<open>connection_close\<close> do to the pool of connections, the count of open descriptors
  and the table of handlers.
\<close>

section \<open>Accepting\<close>

lemma pool_update:
  assumes "pool_rep l heap as n" and "con_ok c" and "ndx c = ndx (heap ! a)"
  shows "pool_rep l (heap[a := c]) as n"
proof -
  have e: "heap[a := c] ! b = heap ! b \<or> b = a \<and> heap[a := c] ! b = c" for b
    by (cases "a < length heap") (auto simp: nth_list_update not_less list_update_beyond)
  have 1: "con_ok (heap ! b) \<Longrightarrow> con_ok (heap[a := c] ! b)" for b using e[of b] assms(2) by metis
  have 2: "ndx (heap[a := c] ! b) = ndx (heap ! b)" for b using e[of b] assms(3) by metis
  show ?thesis using assms(1) 1 unfolding pool_rep_def length_list_update 2 by blast
qed

lemma get_new_server: "connections_get_new_connection pr srv heap = Some (gone, a, srv', heap') \<Longrightarrow> \<exists>l. srv' = srv\<lparr>conns := l\<rparr>"
  by (auto simp: connections_get_new_connection_def Let_def split: bind_splits prod.splits)

text \<open>The connection an accepted client gets.\<close>

definition new_client :: "server \<Rightarrow> connection \<Rightarrow> int \<Rightarrow> sock_addr \<Rightarrow> nat \<Rightarrow> bool" where
  "new_client srv con cnt addr listener \<longleftrightarrow> state con = CON_STATE_REQUEST_START \<and> fd con = cnt \<and> fde_ndx con = -1 \<and>
     connection_start con = cur_ts srv \<and> dst_addr con = addr \<and> srv_socket con = Some listener \<and> fresh_request con"

definition accepts :: "(int \<times> sock_addr) option \<Rightarrow> server \<Rightarrow> bool" where
  "accepts accepted srv \<longleftrightarrow> accepted \<noteq> None \<and> con_used (conns srv) < max_conns srv"

lemma accept_ok:
  assumes "pool_inv (w_srv w) (w_heap w)" and "resets (o_reset out)" and "accepts (Some (cnt, addr)) (w_srv w)"
    and "0 \<le> cnt" and "nat cnt < length (fdarray (ev (w_srv w)))"
  shows "valid (connection_accept out ip (Some (cnt, addr)) fcntl_ok listener w) (\<lambda>(r, w'). \<exists>a con. r = (if fcntl_ok then Some a else None) \<and>
     a \<notin> in_use (w_srv w) \<and> in_use (w_srv w') = insert a (in_use (w_srv w)) \<and> at_address (w_heap w') a = Some con \<and>
     new_client (w_srv w) con cnt addr listener \<and> pool_inv (w_srv w') (w_heap w') \<and>
     (\<forall>b \<in> in_use (w_srv w). w_heap w' ! b = w_heap w ! b) \<and> cur_fds (w_srv w') = cur_fds (w_srv w) + 1 \<and>
     con_opened (w_srv w') = con_opened (w_srv w) + 1 \<and> con_used (conns (w_srv w')) \<le> max_conns (w_srv w') \<and>
     fdevent_get_handler (ev (w_srv w')) cnt = Some Connection_Fdevent \<and> fdevent_get_context (ev (w_srv w')) cnt = Some a)"
proof -
  let ?srv = "(w_srv w)\<lparr>cur_fds := cur_fds (w_srv w) + 1, con_opened := con_opened (w_srv w) + 1\<rparr>"
  obtain as n where p: "pool_rep (conns (w_srv w)) (w_heap w) as n" using assms(1) by (auto simp: pool_inv_def)
  then have p': "pool_rep (conns ?srv) (w_heap w) as n" by simp
  have n: "con_used (conns (w_srv w)) = n" "n < max_conns (w_srv w)" using p assms(3) by (auto simp: pool_rep_def accepts_def)
  obtain gone a srv heap as' where 1: "connections_get_new_connection (o_reset out) ?srv (w_heap w) = Some (gone, a, srv, heap)"
    "pool_rep (conns srv) heap as' (n + 1)" "a \<notin> in_use ?srv" "in_use srv = insert a (in_use ?srv)" "a < length heap" "fresh_request (heap ! a)"
    "ndx (heap ! a) = int n" "\<forall>b \<in> in_use ?srv. heap ! b = w_heap w ! b"
    using get_new_connection_ok[OF p' assms(2)] by (auto simp: valid_def)
  have srv: "\<exists>l. srv = ?srv\<lparr>conns := l\<rparr>" by (rule get_new_server[OF 1(1)])
  then have ev: "ev srv = ev (w_srv w)" and cnt: "cur_fds srv = cur_fds (w_srv w) + 1" "con_opened srv = con_opened (w_srv w) + 1"
    "max_conns srv = max_conns (w_srv w)" "cur_ts srv = cur_ts (w_srv w)" by auto
  obtain b where b: "fdevent_register (ev srv) cnt Connection_Fdevent a = Some b" "fdevent_get_handler b cnt = Some Connection_Fdevent"
    "fdevent_get_context b cnt = Some a" using fdevent_register_ok[of cnt "ev srv" Connection_Fdevent a] assms(4,5) ev by (auto simp: valid_def)
  define con where "con = (heap ! a)\<lparr>fd := cnt, fde_ndx := -1, state := CON_STATE_REQUEST_START, connection_start := cur_ts srv,
            dst_addr := addr, dst_addr_buf := terminated (ip addr), srv_socket := Some listener\<rparr>"
  have res: "connection_accept out ip (Some (cnt, addr)) fcntl_ok listener w =
      Some (if fcntl_ok then Some a else None, w\<lparr>w_srv := srv\<lparr>ev := b\<rparr>, w_heap := heap[a := con]\<rparr>)"
    unfolding connection_accept_def using n 1(1,5) b(1) by (simp add: at_address_def con_def Let_def)
  have new: "new_client (w_srv w) con cnt addr listener" using 1(6) cnt by (simp add: new_client_def con_def fresh_request_def)
  have "con_ok (heap ! a)"
  proof -
    have "a \<in> set as'" using 1(4) pool_in_use[OF 1(2)] by (auto dest: in_set_takeD)
    with 1(2) show ?thesis by (auto simp: pool_rep_def)
  qed
  then have "pool_rep (conns srv) (heap[a := con]) as' (n + 1)" by (intro pool_update[OF 1(2)]) (simp_all add: con_def con_ok_def)
  moreover have "heap[a := con] ! c = w_heap w ! c" if "c \<in> in_use (w_srv w)" for c
  proof -
    have "c \<noteq> a" "heap ! c = w_heap w ! c" using that 1(3,8) by (auto simp: in_use_def)
    then show ?thesis by simp
  qed
  ultimately show ?thesis
    unfolding res using 1(3,4,5) new b cnt n by (auto simp: pool_inv_def in_use_def at_address_def pool_rep_def)
qed

section \<open>Closing\<close>

lemma event_del_handlers: "fdevent_event_del b i d = Some (j, b') \<Longrightarrow> fdarray b' = fdarray b"
  by (auto simp: fdevent_event_del_def fdevent_poll_event_del_def fdevent_select_event_del_def unused_room_def Let_def
      split: if_splits option.splits bind_splits)

lemma fdarray_watched: "watched (b\<lparr>fdarray := x\<rparr>) = watched b"
  by (auto simp: watched_def fun_eq_iff)

lemma unregistered:
  assumes "ev_rep (ev (w_srv w)) idx W" and "idx (fd con) = fde_ndx con" and "settable (fd con)" and "nat (fd con) < length (fdarray (ev (w_srv w)))"
    and "\<And>d e. W d = Some e \<Longrightarrow> e = FDEVENT_IN \<or> e = FDEVENT_OUT"
  obtains b where "unregister w con = Some ((), upd_srv (\<lambda>srv. srv\<lparr>ev := b, cur_fds := cur_fds srv - 1\<rparr>) w, con\<lparr>fde_ndx := -1\<rparr>)"
    "fdnode_at b (fd con) = None" "\<forall>d \<ge> 0. watched b d = (if d = fd con then None else watched (ev (w_srv w)) d)"
proof -
  obtain b where b: "fdevent_event_del (ev (w_srv w)) (fde_ndx con) (fd con) = Some (-1, b)" "ev_rep b (idx(fd con := -1)) (W(fd con := None))"
    using event_del_ok[OF assms(1,3)] assms(2) by (auto simp: valid_def)
  have f: "0 \<le> fd con" "nat (fd con) < length (fdarray b)" using assms(3,4) event_del_handlers[OF b(1)] by (simp_all add: settable_def)
  let ?b = "b\<lparr>fdarray := (fdarray b)[nat (fd con) := None]\<rparr>"
  have u: "fdevent_unregister b (fd con) = Some ?b" using f by (simp add: fdevent_unregister_def)
  have "watched b d = (W(fd con := None)) d" if "0 \<le> d" for d
  proof (rule rep_watched[OF b(2) that])
    show "x = FDEVENT_IN \<or> x = FDEVENT_OUT" if "(W(fd con := None)) d' = Some x" for d' x
      using assms(5)[of d' x] that by (simp split: if_splits)
  qed
  moreover have "watched (ev (w_srv w)) d = W d" if "0 \<le> d" for d by (rule rep_watched[OF assms(1) that assms(5)])
  ultimately have wd: "watched ?b d = (if d = fd con then None else watched (ev (w_srv w)) d)" if "0 \<le> d" for d
    using that by (simp add: fdarray_watched)
  show thesis
  proof (rule that[of ?b])
    show "unregister w con = Some ((), upd_srv (\<lambda>srv. srv\<lparr>ev := ?b, cur_fds := cur_fds srv - 1\<rparr>) w, con\<lparr>fde_ndx := -1\<rparr>)"
      using b(1) u by (simp add: unregister_def)
    show "fdnode_at ?b (fd con) = None" using f by (simp add: fdnode_at_def)
  qed (use wd in simp)
qed

text \<open>A connection in use can be closed.\<close>

lemma close_ok:
  assumes "pool_inv (w_srv w) (w_heap w)" and "a \<in> in_use (w_srv w)" and "at_address (w_heap w) a = Some con"
    and "ev_rep (ev (w_srv w)) idx W" and "idx (fd con) = fde_ndx con" and "settable (fd con)" and "nat (fd con) < length (fdarray (ev (w_srv w)))"
    and "\<And>d e. W d = Some e \<Longrightarrow> e = FDEVENT_IN \<or> e = FDEVENT_OUT"
  shows "valid (connection_close a w) (\<lambda>w'. in_use (w_srv w') = in_use (w_srv w) - {a} \<and> pool_inv (w_srv w') (w_heap w') \<and>
     cur_fds (w_srv w') = cur_fds (w_srv w) - 1 \<and> fdevent_get_handler (ev (w_srv w')) (fd con) = None \<and>
     (\<forall>d \<ge> 0. watched (ev (w_srv w')) d = (if d = fd con then None else watched (ev (w_srv w)) d)) \<and>
     at_address (w_heap w') a = Some (con\<lparr>fde_ndx := -1, ndx := -1, state := CON_STATE_CONNECT\<rparr>) \<and>
     (\<forall>b < length (w_heap w). b \<noteq> a \<longrightarrow> (\<exists>i. w_heap w' ! b = (w_heap w ! b)\<lparr>ndx := i\<rparr>)))"
proof -
  obtain b where b: "unregister w con = Some ((), upd_srv (\<lambda>srv. srv\<lparr>ev := b, cur_fds := cur_fds srv - 1\<rparr>) w, con\<lparr>fde_ndx := -1\<rparr>)"
    "fdnode_at b (fd con) = None" "\<forall>d \<ge> 0. watched b d = (if d = fd con then None else watched (ev (w_srv w)) d)"
    by (rule unregistered[OF assms(4-8)])
  let ?srv = "(w_srv w)\<lparr>ev := b, cur_fds := cur_fds (w_srv w) - 1\<rparr>" and ?h = "(w_heap w)[a := con\<lparr>fde_ndx := -1\<rparr>]"
  obtain as n where p: "pool_rep (conns (w_srv w)) (w_heap w) as n" using assms(1) by (auto simp: pool_inv_def)
  have a: "a < length (w_heap w)" "con = w_heap w ! a" using assms(3) by (auto simp: at_address_def split: if_splits)
  obtain i where i: "i < n" "as ! i = a" using assms(2) pool_in_use[OF p] by (auto simp: in_set_conv_nth)
  have "i < length as" using p i(1) by (simp add: pool_rep_def)
  then have ok: "con_ok (w_heap w ! a)" using rep_entry(3)[OF p] i(2) by blast
  have p1: "pool_rep (conns ?srv) ?h as n"
    using pool_update[OF p, of "con\<lparr>fde_ndx := -1\<rparr>" a] ok a(2) by (simp add: con_ok_def)
  obtain srv heap as' where d: "connection_del ?srv ?h (Some a) = Some (0, srv, heap)" "pool_rep (conns srv) heap as' (n - 1)"
    "in_use srv = in_use ?srv - {a}" "ndx (heap ! a) = -1" "only_ndx ?h heap"
    using connection_del_ok[OF p1 i(1)] i(2) by (auto simp: valid_def)
  have srv: "\<exists>l. srv = ?srv\<lparr>conns := l\<rparr>"
    using d(1) by (auto simp: connection_del_def Let_def split: bind_splits option.splits if_splits)
  have h: "length heap = length (w_heap w)" using d(5) by (simp add: only_ndx_def)
  obtain j where j: "heap ! a = (con\<lparr>fde_ndx := -1\<rparr>)\<lparr>ndx := j\<rparr>" using d(5) a by (auto simp: only_ndx_def)
  let ?heap = "heap[a := (heap ! a)\<lparr>state := CON_STATE_CONNECT\<rparr>]"
  have run: "connection_close a w = Some (w\<lparr>w_srv := srv, w_heap := ?heap\<rparr>)"
    using b(1) d(1) a h assms(3) by (simp add: connection_close_def on_con_def set_state_def at_address_def upd_srv_def)
  have "con_ok (heap ! a)" using ok a(2) j by (simp add: con_ok_def)
  then have "pool_rep (conns srv) ?heap as' (n - 1)" by (intro pool_update[OF d(2)]) (simp_all add: con_ok_def)
  moreover have "\<exists>i. ?heap ! c = (w_heap w ! c)\<lparr>ndx := i\<rparr>" if "c < length (w_heap w)" "c \<noteq> a" for c
  proof -
    have "\<exists>i. heap ! c = (?h ! c)\<lparr>ndx := i\<rparr>" using that d(5) unfolding only_ndx_def length_list_update by blast
    with that show ?thesis by simp
  qed
  moreover have "fdevent_get_handler b (fd con) = None" using b(2) by (simp add: fdevent_get_handler_def)
  ultimately show ?thesis
    unfolding run using d(3,4) srv b(3) a h j by (auto simp: pool_inv_def in_use_def at_address_def)
qed

section \<open>Properties\<close>

text \<open>
  C34: an accepted client gets a connection that was not in use, in its initial state and registered for events of its
  descriptor, while all other connections stay as they are; there are never more connections than allowed.  When
  the descriptor cannot be made non-blocking the caller is not told of the connection, although it is in use.
\<close>

theorem accept_opens:
  assumes "pool_inv (w_srv w) (w_heap w)" and "resets (o_reset out)" and "accepts (Some (cnt, addr)) (w_srv w)"
    and "0 \<le> cnt" and "nat cnt < length (fdarray (ev (w_srv w)))"
  shows "valid (connection_accept out ip (Some (cnt, addr)) fcntl_ok listener w) (\<lambda>(r, w'). \<exists>a con. r = (if fcntl_ok then Some a else None) \<and>
     a \<notin> in_use (w_srv w) \<and> in_use (w_srv w') = insert a (in_use (w_srv w)) \<and> at_address (w_heap w') a = Some con \<and>
     new_client (w_srv w) con cnt addr listener \<and> pool_inv (w_srv w') (w_heap w') \<and>
     (\<forall>b \<in> in_use (w_srv w). w_heap w' ! b = w_heap w ! b) \<and> cur_fds (w_srv w') = cur_fds (w_srv w) + 1 \<and>
     con_opened (w_srv w') = con_opened (w_srv w) + 1 \<and> con_used (conns (w_srv w')) \<le> max_conns (w_srv w') \<and>
     fdevent_get_handler (ev (w_srv w')) cnt = Some Connection_Fdevent \<and> fdevent_get_context (ev (w_srv w')) cnt = Some a)"
  by (rule accept_ok[OF assms])

definition idle_world :: world where
  "idle_world = accepted_world\<lparr>w_heap := []\<rparr>"

lemma idle_world_ok:
  "pool_inv (w_srv idle_world) (w_heap idle_world)" "resets (o_reset quiet_client)" "accepts (Some (5, Other_Address)) (w_srv idle_world)"
  "0 \<le> (5 :: int)" "nat 5 < length (fdarray (ev (w_srv idle_world)))"
  by (simp_all add: idle_world_def accepted_world_def sample_server_def pool_inv_def pool_rep_def no_connections_def resets_def
      quiet_client_def accepts_def fdevent_init_def Let_def)

theorem accept_opens_witness:
  "valid (connection_accept quiet_client (\<lambda>_. ''?'') (Some (5, Other_Address)) True 0 idle_world) (\<lambda>(r, w'). r \<noteq> None \<and> cur_fds (w_srv w') = 1)"
  using accept_opens[OF idle_world_ok, of "\<lambda>_. ''?''" True 0]
  by (auto simp: valid_def idle_world_def accepted_world_def sample_server_def)

text \<open>
  C35: closing a connection in use removes it from the pool, which stays as it must be, forgets its handler and its events
  and counts one descriptor less; of the other connections only the index in the pool changes, and no other
  descriptor is watched for anything else than before.
\<close>

theorem close_frees:
  assumes "pool_inv (w_srv w) (w_heap w)" and "a \<in> in_use (w_srv w)" and "at_address (w_heap w) a = Some con"
    and "ev_rep (ev (w_srv w)) idx W" and "idx (fd con) = fde_ndx con" and "settable (fd con)" and "nat (fd con) < length (fdarray (ev (w_srv w)))"
    and "\<And>d e. W d = Some e \<Longrightarrow> e = FDEVENT_IN \<or> e = FDEVENT_OUT"
  shows "valid (connection_close a w) (\<lambda>w'. in_use (w_srv w') = in_use (w_srv w) - {a} \<and> pool_inv (w_srv w') (w_heap w') \<and>
     cur_fds (w_srv w') = cur_fds (w_srv w) - 1 \<and> fdevent_get_handler (ev (w_srv w')) (fd con) = None \<and>
     (\<forall>d \<ge> 0. watched (ev (w_srv w')) d = (if d = fd con then None else watched (ev (w_srv w)) d)) \<and>
     valid (at_address (w_heap w') a) (\<lambda>con'. state con' = CON_STATE_CONNECT \<and> ndx con' = -1 \<and> fde_ndx con' = -1) \<and>
     (\<forall>b < length (w_heap w). b \<noteq> a \<longrightarrow> (\<exists>i. w_heap w' ! b = (w_heap w ! b)\<lparr>ndx := i\<rparr>)))"
  by (rule valid_weaken[OF close_ok[OF assms]]) simp_all

lemma accept_events: "connection_accept out ip acc f l w = Some (r, w') \<Longrightarrow> ev_rep (ev (w_srv w)) idx W \<Longrightarrow> ev_rep (ev (w_srv w')) idx W"
proof -
  assume acc: "connection_accept out ip acc f l w = Some (r, w')" and rep: "ev_rep (ev (w_srv w)) idx W"
  have reg: "ev_rep b' idx W" if "fdevent_register b fd h c = Some b'" "ev_rep b idx W" for b b' fd h c
  proof -
    from that(1) obtain x where "b' = b\<lparr>fdarray := x\<rparr>" by (auto simp: fdevent_register_def)
    moreover have "ev_rep (b\<lparr>fdarray := x\<rparr>) idx W = ev_rep b idx W"
      by (simp add: ev_rep_def poll_rep_def poll_cells_def select_rep_def)
    ultimately show ?thesis using that(2) by (simp only:)
  qed
  show ?thesis
  proof (cases "max_conns (w_srv w) \<le> con_used (conns (w_srv w)) \<or> acc = None")
    case True
    with acc rep show ?thesis by (auto simp: connection_accept_def split: if_splits)
  next
    case False
    then obtain cnt addr where a: "acc = Some (cnt, addr)" by (cases acc) auto
    have room: "\<not> max_conns (w_srv w) \<le> con_used (conns (w_srv w))" using False by simp
    from acc obtain gone c srv heap b where 1:
      "connections_get_new_connection (o_reset out) ((w_srv w)\<lparr>cur_fds := cur_fds (w_srv w) + 1, con_opened := con_opened (w_srv w) + 1\<rparr>) (w_heap w)
         = Some (gone, c, srv, heap)"
      "fdevent_register (ev srv) cnt Connection_Fdevent c = Some b" "ev (w_srv w') = b"
      unfolding connection_accept_def a if_not_P[OF room] Let_def option.case prod.case
      by (elim bind_someE pair_someE) (rule that, simp, simp, auto)
    from get_new_server[OF 1(1)] rep have "ev_rep (ev srv) idx W" by auto
    with reg[OF 1(2)] 1(3) show ?thesis by simp
  qed
qed

theorem close_frees_witness:
  "valid (connection_accept quiet_client (\<lambda>_. ''?'') (Some (5, Other_Address)) True 0 idle_world)
     (\<lambda>(r, w'). \<exists>a. r = Some a \<and> valid (connection_close a w') (\<lambda>w''. in_use (w_srv w'') = {} \<and> cur_fds (w_srv w'') = 0))"
proof -
  from accept_ok[OF idle_world_ok, of "\<lambda>_. ''?''" True 0] obtain w' a con where 1:
    "connection_accept quiet_client (\<lambda>_. ''?'') (Some (5, Other_Address)) True 0 idle_world = Some (Some a, w')"
    "in_use (w_srv w') = insert a (in_use (w_srv idle_world))" "at_address (w_heap w') a = Some con"
    "new_client (w_srv idle_world) con 5 Other_Address 0" "pool_inv (w_srv w') (w_heap w')" "cur_fds (w_srv w') = cur_fds (w_srv idle_world) + 1"
    "fdevent_get_handler (ev (w_srv w')) 5 = Some Connection_Fdevent" by (auto simp: valid_def)
  have "ev_rep (ev (w_srv idle_world)) (\<lambda>_. -1) (\<lambda>_. None)"
    unfolding idle_world_def accepted_world_def sample_server_def
    by (simp add: fdevent_init_rep[of 1025 FDEVENT_HANDLER_POLL] fdevent_init_def Let_def)
  with accept_events[OF 1(1)] have e: "ev_rep (ev (w_srv w')) (\<lambda>_. -1) (\<lambda>_. None)" by blast
  have f: "fd con = 5" "fde_ndx con = -1" using 1(4) by (simp_all add: new_client_def)
  have "nat 5 < length (fdarray (ev (w_srv w')))" using 1(7) by (auto simp: fdevent_get_handler_def fdnode_at_def split: bind_splits)
  then have c: "valid (connection_close a w') (\<lambda>w''. in_use (w_srv w'') = in_use (w_srv w') - {a} \<and> cur_fds (w_srv w'') = cur_fds (w_srv w') - 1)"
    using close_frees[OF 1(5) _ 1(3) e] f 1(2) by (auto simp: settable_def FD_SETSIZE_def elim!: valid_weaken)
  have "in_use (w_srv idle_world) = {}" "cur_fds (w_srv idle_world) = 0"
    by (simp_all add: idle_world_def accepted_world_def sample_server_def in_use_def no_connections_def)
  with c 1(2,6) have "valid (connection_close a w') (\<lambda>w''. in_use (w_srv w'') = {} \<and> cur_fds (w_srv w'') = 0)" by simp
  with 1(1) show ?thesis by simp
qed

section \<open>Deviations\<close>

text \<open>When \<open>fcntl\<close> fails the connection stays in the pool and its descriptor open, but nobody serves it.\<close>

lemma accept_leaks:
  assumes "pool_inv (w_srv w) (w_heap w)" and "resets (o_reset out)" and "accepts (Some (cnt, addr)) (w_srv w)"
    and "0 \<le> cnt" and "nat cnt < length (fdarray (ev (w_srv w)))"
  shows "valid (connection_accept out ip (Some (cnt, addr)) False listener w) (\<lambda>(r, w'). r = None \<and>
     (\<exists>a. a \<in> in_use (w_srv w') - in_use (w_srv w) \<and> cur_fds (w_srv w') = cur_fds (w_srv w) + 1))"
  by (rule valid_weaken[OF accept_ok[OF assms, of ip False listener]]) auto

end
