(* ===== verification/ConnEvents.thy ===== *)
theory ConnEvents
  imports ConnStates
begin

text \<open>
  The connection and the event backend: nothing on the way of a request touches the descriptor of the connection or its
  place in the backend except \<open>connection_close\<close> and the end of \<open>connection_state_machine\<close>, so that every run of the
  state machine leaves the connection with the events its state waits for.
\<close>

section \<open>What does not touch the backend\<close>

definition con_wire :: "connection \<Rightarrow> int \<times> int" where
  "con_wire con = (fd con, fde_ndx con)"

lemma con_wire_upd [simp]: "con_wire (upd_req f con) = con_wire con" "con_wire (upd_resp g con) = con_wire con"
    "con_wire (upd_uri h con) = con_wire con" "con_wire (upd_phys k con) = con_wire con" "con_wire (upd_conf c con) = con_wire con"
  by (simp_all add: con_wire_def nested_updates)

subsection \<open>Requests\<close>

lemma refuse_wire [simp]: "con_wire (refuse i b con) = con_wire con"
  by (simp add: refuse_def Let_def con_wire_def upd_resp_def)

text \<open>The descriptor is still \<open>v\<close>, however the request line ends.\<close>

definition line_wire :: "int \<times> int \<Rightarrow> line_step \<Rightarrow> bool" where
  "line_wire v m \<longleftrightarrow> (\<forall>c. m = Some (Inl c) \<longrightarrow> con_wire c = v) \<and> (\<forall>p i j c. m = Some (Inr (p, i, j, c)) \<longrightarrow> con_wire c = v)"

lemma line_wire_Some [simp]: "line_wire v (Some (Inl c)) \<longleftrightarrow> con_wire c = v" "line_wire v (Some (Inr (p, i, j, c))) \<longleftrightarrow> con_wire c = v"
    "line_wire v None"
  by (auto simp: line_wire_def)

lemma line_wire_bind: "(\<And>x. m = Some x \<Longrightarrow> line_wire v (f x)) \<Longrightarrow> line_wire v (m \<bind> f)"
  by (cases m) simp_all

lemma con_wire_rec [simp]: "con_wire (con\<lparr>http_status := a\<rparr>) = con_wire con" "con_wire (con\<lparr>parse_request := b\<rparr>) = con_wire con"
    "con_wire (con\<lparr>keep_alive := d\<rparr>) = con_wire con" "con_wire (con\<lparr>header_len := e\<rparr>) = con_wire con" "con_wire (con\<lparr>req := q\<rparr>) = con_wire con"
  by (simp_all add: con_wire_def)

lemma con_wire_more [simp]: "con_wire (con\<lparr>server_name := f\<rparr>) = con_wire con" "con_wire (con\<lparr>conf := g\<rparr>) = con_wire con"
    "con_wire (con\<lparr>conditional_is_valid := h\<rparr>) = con_wire con" "con_wire (con\<lparr>con_etag_flags := k\<rparr>) = con_wire con"
    "con_wire (con\<lparr>write_queue := l\<rparr>) = con_wire con" "con_wire (con\<lparr>read_queue := m\<rparr>) = con_wire con"
    "con_wire (con\<lparr>file_finished := n\<rparr>) = con_wire con" "con_wire (con\<lparr>parsed_content_length := x\<rparr>) = con_wire con"
    "con_wire (con\<lparr>bytes_header := y\<rparr>) = con_wire con" "con_wire (con\<lparr>state := z\<rparr>) = con_wire con" "con_wire (con\<lparr>is_readable := i\<rparr>) = con_wire con"
    "con_wire (con\<lparr>is_writable := j\<rparr>) = con_wire con" "con_wire (con\<lparr>request_content_queue := r\<rparr>) = con_wire con"
    "con_wire (con\<lparr>traffic_limit_reached := t\<rparr>) = con_wire con"
  by (simp_all add: con_wire_def)

lemma uri_step_wire: "con_wire con = v \<Longrightarrow> line_wire v (request_uri_step p i u q con)"
  by (auto simp: request_uri_step_def Let_def intro!: line_wire_bind)

lemma version_step_wire: "con_wire con = v \<Longrightarrow> line_wire v (request_version_step p i u q con)"
  by (auto simp: request_version_step_def intro!: line_wire_bind uri_step_wire split: sum.split)

lemma line_done_wire: "con_wire con = v \<Longrightarrow> line_wire v (request_line_done p i f s m u con)"
  by (auto simp: request_line_done_def Let_def intro!: line_wire_bind version_step_wire)

lemma line_loop_wire: "con_wire con = v \<Longrightarrow> line_wire v (request_line_loop p i f s m u con)"
proof (induction p i f s m u con rule: request_line_loop.induct)
  case (1 p i f s m u con)
  then show ?case
    by (subst request_line_loop.simps) (auto simp: line_done_wire split: option.split)
qed

text \<open>The same for the lines of the header.\<close>

definition parse_wire :: "int \<times> int \<Rightarrow> parse_step \<Rightarrow> bool" where
  "parse_wire v m \<longleftrightarrow> (\<forall>a c. m = Some (Inl (a, c)) \<longrightarrow> con_wire c = v) \<and> (\<forall>st. m = Some (Inr st) \<longrightarrow> con_wire (ps_con st) = v)"

lemma parse_wire_Some [simp]: "parse_wire v (Some (Inl (a, c))) \<longleftrightarrow> con_wire c = v" "parse_wire v (Some (Inr st)) \<longleftrightarrow> con_wire (ps_con st) = v"
    "parse_wire v None" "parse_wire v (abort c st) \<longleftrightarrow> con_wire c = v"
  by (auto simp: parse_wire_def abort_def)

lemma parse_wire_bind: "(\<And>x. m = Some x \<Longrightarrow> parse_wire v (f x)) \<Longrightarrow> parse_wire v (m \<bind> f)"
  by (cases m) simp_all

lemma store_wire: "store_header ds con = Some (con', p) \<Longrightarrow> con_wire con' = con_wire con"
  by (auto simp: store_header_def Let_def split: bind_splits)

lemma store_plain_wire: "con_wire (ps_con st) = v \<Longrightarrow> parse_wire v (store_plain ds st)"
  by (auto simp: store_plain_def intro!: parse_wire_bind dest!: store_wire)

lemma store_once_wire: "con_wire (ps_con st) = v \<Longrightarrow> parse_wire v (store_once g s ds st)"
  by (auto simp: store_once_def intro!: parse_wire_bind dest!: store_wire)

lemma connection_header_wire: "con_wire (ps_con st) = v \<Longrightarrow> parse_wire v (connection_header ds x st)"
  by (auto simp: connection_header_def intro!: parse_wire_bind store_plain_wire)

lemma content_length_wire: "con_wire (ps_con st) = v \<Longrightarrow> parse_wire v (content_length_header ds x st)"
  by (auto simp: content_length_header_def Let_def case_prod_unfold intro!: parse_wire_bind store_plain_wire dest!: store_wire)

lemma since_header_wire: "con_wire (ps_con st) = v \<Longrightarrow> parse_wire v (if_modified_since_header ds x st)"
  by (auto simp: if_modified_since_header_def Let_def intro!: parse_wire_bind store_once_wire)

lemma range_header_wire: "con_wire (ps_con st) = v \<Longrightarrow> parse_wire v (range_header ds x st)"
  by (auto simp: range_header_def Let_def intro!: parse_wire_bind store_plain_wire dest!: store_wire)

lemma expect_header_wire: "con_wire (ps_con st) = v \<Longrightarrow> parse_wire v (expect_header ds st)"
  by (auto simp: expect_header_def intro!: parse_wire_bind dest!: store_wire)

lemma header_field_wire: "con_wire (ps_con st) = v \<Longrightarrow> parse_wire v (header_field ds k x st)"
  unfolding header_field_def Let_def
  by (simp add: connection_header_wire content_length_wire store_once_wire expect_header_wire since_header_wire range_header_wire store_plain_wire)

lemma key_step_wire: "con_wire (ps_con st) = v \<Longrightarrow> parse_wire v (key_step st c)"
  by (auto simp: key_step_def Let_def split: option.split)

lemma field_line_wire: "con_wire (ps_con st) = v \<Longrightarrow> parse_wire v (field_line st)"
  by (auto simp: field_line_def Let_def case_prod_unfold intro!: parse_wire_bind header_field_wire)

lemma fold_line_wire: "con_wire (ps_con st) = v \<Longrightarrow> parse_wire v (fold_line st)"
  by (auto simp: fold_line_def Let_def intro!: parse_wire_bind split: option.split)

lemma line_end_wire:
  assumes "con_wire (ps_con st) = v"
  shows "parse_wire v (line_end st)"
proof -
  let ?st = "st\<lparr>ps_bytes := (ps_bytes st)[ps_i st := NUL, ps_i st + 1 := NUL]\<rparr>"
  have w: "parse_wire v (if in_folding ?st then fold_line ?st else field_line ?st)"
    using assms fold_line_wire[of ?st v] field_line_wire[of ?st v] by simp
  show ?thesis
    unfolding line_end_def Let_def
  proof (rule parse_wire_bind)
    fix x assume x: "(if in_folding ?st then fold_line ?st else field_line ?st) = Some x"
    show "parse_wire v (case x of Inl x \<Rightarrow> Some (Inl x) | Inr s \<Rightarrow> Some (Inr (s\<lparr>ps_i := ps_i st + 1, ps_first := ps_i st + 2, is_key := True,
        ps_value := None, in_folding := False\<rparr>)))"
      using w unfolding x by (cases x) auto
  qed
qed

lemma value_step_wire: "con_wire (ps_con st) = v \<Longrightarrow> parse_wire v (value_step st c)"
  by (auto simp: value_step_def Let_def line_end_wire split: option.split)

lemma header_step_wire: "con_wire (ps_con st) = v \<Longrightarrow> parse_wire v (header_step st)"
  by (auto simp: header_step_def key_step_wire value_step_wire intro!: parse_wire_bind)

lemma header_loop_wire: "con_wire (ps_con st) = v \<Longrightarrow> parse_wire v (header_loop fuel st)"
proof (induction fuel st rule: header_loop.induct)
  case (1 fuel st)
  show ?case
  proof (cases "ps_i st < length (ps_bytes st) \<and> \<not> ps_done st")
    case False
    with 1(2) show ?thesis by (subst header_loop.simps) simp
  next
    case True
    show ?thesis
    proof (cases fuel)
      case 0
      with True show ?thesis by (subst header_loop.simps) simp
    next
      case (Suc n)
      have w: "parse_wire v (header_step st)" by (rule header_step_wire[OF 1(2)])
      show ?thesis
      proof (cases "header_step st")
        case None
        with True Suc show ?thesis by (subst header_loop.simps) simp
      next
        case (Some x)
        show ?thesis
        proof (cases x)
          case (Inl y)
          with w Some True Suc show ?thesis by (subst header_loop.simps) simp
        next
          case (Inr st')
          with w Some True Suc 1(1)[of n x st'] show ?thesis by (subst header_loop.simps) simp
        qed
      qed
    qed
  qed
qed

lemma checks_wire: "content_checks l b con = (r, con') \<Longrightarrow> con_wire con' = con_wire con"
    "method_checks l b con = (r, con') \<Longrightarrow> con_wire con' = con_wire con"
  by (auto simp: content_checks_def method_checks_def Let_def split: if_splits)

lemma final_checks_wire: "final_checks l w b con = Some (r, con') \<Longrightarrow> con_wire con' = con_wire con"
  by (auto simp: final_checks_def host_checks_def Let_def checks_wire split: if_splits bind_splits)

text \<open>A result with a server and a connection that has the backend \<open>b\<close> and the descriptor \<open>v\<close>.\<close>

definition keeps :: "int \<times> int \<Rightarrow> fdevents \<Rightarrow> ('r \<times> server \<times> connection) option \<Rightarrow> bool" where
  "keeps v b m \<longleftrightarrow> (\<forall>r srv con. m = Some (r, srv, con) \<longrightarrow> con_wire con = v \<and> ev srv = b)"

lemma keeps_simps [simp]: "keeps v b (Some (r, srv, con)) \<longleftrightarrow> con_wire con = v \<and> ev srv = b" "keeps v b None"
  by (auto simp: keeps_def)

lemma keeps_bind: "(\<And>x. m = Some x \<Longrightarrow> keeps v b (f x)) \<Longrightarrow> keeps v b (m \<bind> f)"
  by (cases m) simp_all

lemma request_parse_wire: "con_wire con = v \<Longrightarrow> ev srv = b \<Longrightarrow> keeps v b (http_request_parse srv con)"
  unfolding http_request_parse_def Let_def
proof (intro keeps_bind)
  fix p x assume v: "con_wire con = v" "ev srv = b" and x: "request_line_loop p 0 0 0 0 0 (con\<lparr>parse_request := p\<rparr>) = Some x"
  have lw: "line_wire v (Some x)" using line_loop_wire[of "con\<lparr>parse_request := p\<rparr>" v p 0 0 0 0 0] x v by simp
  have hw: "keeps v b (header_loop n (start_state p i first (split_vals srv) c) \<bind> (\<lambda>r. case r of
        Inl (vals, con) \<Rightarrow> Some (0, srv\<lparr>split_vals := vals\<rparr>, con)
      | Inr st \<Rightarrow> final_checks (max_request_size srv) (keep_alive_set st) (con_length_set st)
          ((ps_con st)\<lparr>parse_request := ps_bytes st, header_len := ps_i st\<rparr>) \<bind> (\<lambda>(r, con). Some (r, srv\<lparr>split_vals := ps_vals st\<rparr>, con))))"
    if c: "con_wire c = v" for n p i first c
  proof (rule keeps_bind)
    fix z assume z: "header_loop n (start_state p i first (split_vals srv) c) = Some z"
    have "parse_wire v (Some z)" unfolding z[symmetric] by (rule header_loop_wire) (simp add: start_state_def c)
    then show "keeps v b (case z of
        Inl (vals, con) \<Rightarrow> Some (0, srv\<lparr>split_vals := vals\<rparr>, con)
      | Inr st \<Rightarrow> final_checks (max_request_size srv) (keep_alive_set st) (con_length_set st)
          ((ps_con st)\<lparr>parse_request := ps_bytes st, header_len := ps_i st\<rparr>) \<bind> (\<lambda>(r, con). Some (r, srv\<lparr>split_vals := ps_vals st\<rparr>, con)))"
      using v(2) by (cases z) (auto simp: case_prod_unfold dest!: final_checks_wire intro!: keeps_bind)
  qed
  show "keeps v b (case x of Inl con \<Rightarrow> Some (0, srv, con)
      | Inr (p, i, first, con) \<Rightarrow>
         if length (uri (req con)) = 1 then Some (0, srv, refuse 400 True con)
         else header_loop (length p) (start_state p i first (split_vals srv) con) \<bind> (\<lambda>r. case r of
             Inl (vals, con) \<Rightarrow> Some (0, srv\<lparr>split_vals := vals\<rparr>, con)
           | Inr st \<Rightarrow> final_checks (max_request_size srv) (keep_alive_set st) (con_length_set st)
               ((ps_con st)\<lparr>parse_request := ps_bytes st, header_len := ps_i st\<rparr>) \<bind> (\<lambda>(r, con). Some (r, srv\<lparr>split_vals := ps_vals st\<rparr>, con))))"
  proof (cases x)
    case (Inl c)
    with lw v show ?thesis by simp
  next
    case (Inr y)
    obtain p1 i first c where y: "y = (p1, i, first, c)" by (cases y)
    have "con_wire c = v" using lw Inr y by simp
    with hw[of c "length p1" p1 i first] v show ?thesis unfolding Inr y by simp
  qed
qed

subsection \<open>Configuration\<close>

lemma set_cache_wire: "set_cache i f con = Some con' \<Longrightarrow> con_wire con' = con_wire con"
  by (auto simp: set_cache_def con_wire_def split: bind_splits if_splits)

lemma chain_false_wire: "chain_false fuel srv p con = Some con' \<Longrightarrow> con_wire con' = con_wire con"
proof (induction fuel srv p con rule: chain_false.induct)
  case (3 fuel srv i con)
  from "3.prems" obtain dc c where 1: "context_at srv i = Some dc" "set_cache i (\<lambda>c. c\<lparr>cc_result := COND_RESULT_FALSE\<rparr>) con = Some c"
    "chain_false fuel srv (dc_next dc) c = Some con'" by (auto elim!: bind_someE)
  from "3.IH"[OF 1] set_cache_wire[OF 1(2)] show ?case by simp
qed simp_all

lemma subject_wire: "cond_subject a dc srv con = Some (s, srv') \<Longrightarrow> ev srv' = ev srv"
  by (auto simp: cond_subject_def host_subject_def remote_ip_subject_def Let_def
      split: comp_key_t.splits bind_splits if_splits sock_addr.splits option.splits prod.splits)

lemma compare_wire: "compare_subject pcre i dc r srv con = Some (x, con') \<Longrightarrow> con_wire con' = con_wire con"
  by (auto simp: compare_subject_def Let_def dest!: set_cache_wire split: bind_splits if_splits prod.splits)

lemma keeps_then:
  assumes "keeps v b m" and "\<And>r srv con. con_wire con = v \<Longrightarrow> ev srv = b \<Longrightarrow> keeps v b (f (r, srv, con))"
  shows "keeps v b (m \<bind> f)"
proof (rule keeps_bind)
  fix x assume m: "m = Some x"
  obtain r srv con where x: "x = (r, srv, con)" by (cases x)
  have "con_wire con = v" "ev srv = b" using assms(1) unfolding m x by simp_all
  from assms(2)[OF this, of r] show "keeps v b (f x)" unfolding x .
qed

lemma keeps_if: "(P \<Longrightarrow> keeps v b m) \<Longrightarrow> (\<not> P \<Longrightarrow> keeps v b n) \<Longrightarrow> keeps v b (if P then m else n)"
  by simp

lemma nocache_wire:
  assumes "\<And>srv con p. con_wire con = v \<Longrightarrow> ev srv = b \<Longrightarrow> keeps v b (config_check_cond_cached fuel a pcre srv con p)"
    and "con_wire con = v" and "ev srv = b"
  shows "keeps v b (config_check_cond_nocache fuel a pcre srv con i)"
  unfolding config_check_cond_nocache.simps
proof (rule keeps_bind)
  fix dc
  have last: "keeps v b (cond_subject a dc s c \<bind> (\<lambda>(sb, s). case sb of Decided r \<Rightarrow> Some (r, s, c)
         | Compare x \<Rightarrow> compare_subject pcre i dc x s c \<bind> (\<lambda>(r, c). Some (r, s, c))))" if "con_wire c = v" "ev s = b" for s c
    using that by (auto simp: case_prod_unfold intro!: keeps_bind dest!: subject_wire compare_wire split: subject.split)
  have prev: "keeps v b (case dc_prev dc of None \<Rightarrow> Some (COND_RESULT_UNSET, s, c)
         | Some p \<Rightarrow> config_check_cond_cached fuel a pcre s c p \<bind> (\<lambda>(_, s, c). cached_result i c \<bind> (\<lambda>r. Some (r, s, c))))"
    if "con_wire c = v" "ev s = b" for s c
  proof (cases "dc_prev dc")
    case (Some p)
    have "keeps v b (config_check_cond_cached fuel a pcre s c p \<bind> (\<lambda>(_, s, c). cached_result i c \<bind> (\<lambda>r. Some (r, s, c))))"
      by (rule keeps_then[OF assms(1)[OF that]]) (auto intro: keeps_bind)
    with Some show ?thesis by simp
  qed (use that in simp)
  have parent: "keeps v b (case dc_parent dc of None \<Rightarrow> Some (COND_RESULT_TRUE, srv, con)
       | Some p \<Rightarrow> if p = 0 then Some (COND_RESULT_TRUE, srv, con) else config_check_cond_cached fuel a pcre srv con p)"
    using assms by (auto split: option.split)
  show "keeps v b ((case dc_parent dc of None \<Rightarrow> Some (COND_RESULT_TRUE, srv, con)
       | Some p \<Rightarrow> if p = 0 then Some (COND_RESULT_TRUE, srv, con) else config_check_cond_cached fuel a pcre srv con p) \<bind> (\<lambda>(r, srv, con).
     if r \<noteq> COND_RESULT_TRUE then Some (r, srv, con)
     else (case dc_prev dc of None \<Rightarrow> Some (COND_RESULT_UNSET, srv, con)
         | Some p \<Rightarrow> config_check_cond_cached fuel a pcre srv con p \<bind> (\<lambda>(_, srv, con). cached_result i con \<bind> (\<lambda>r. Some (r, srv, con)))) \<bind> (\<lambda>(r, srv, con).
       if r = COND_RESULT_FALSE then Some (COND_RESULT_FALSE, srv, con)
       else if dc_comp dc \<notin> conditional_is_valid con then Some (COND_RESULT_UNSET, srv, con)
       else cond_subject a dc srv con \<bind> (\<lambda>(sb, srv). case sb of Decided r \<Rightarrow> Some (r, srv, con)
         | Compare x \<Rightarrow> compare_subject pcre i dc x srv con \<bind> (\<lambda>(r, con). Some (r, srv, con))))))"
    apply (rule keeps_then[OF parent], simp only: prod.case, rule keeps_if, simp)
    apply (rule keeps_then, erule (1) prev, simp only: prod.case)
    apply (intro keeps_if, simp, simp, erule (1) last)
    done
qed

lemma check_wire: "con_wire con = v \<Longrightarrow> ev srv = b \<Longrightarrow> keeps v b (config_check_cond_cached fuel a pcre srv con i)"
proof (induction fuel arbitrary: srv con i)
  case (Suc fuel)
  note nc = nocache_wire[OF Suc.IH Suc.prems]
  show ?case
    unfolding config_check_cond_cached.simps
    apply (rule keeps_bind, rule keeps_if, simp add: Suc.prems, rule keeps_bind)
    apply (rule keeps_then[OF nc], simp only: prod.case)
    apply (auto intro!: keeps_bind dest!: set_cache_wire chain_false_wire split: if_splits)
    done
qed (simp add: config_check_cond_cached.simps)

lemma patch_option_wire [simp]: "con_wire (patch_option s name k con) = con_wire con"
  by (simp add: patch_option_def)

lemma patched_wire [simp]: "con_wire (fold (patch_option s name) ks con) = con_wire con"
  by (induction ks arbitrary: con) simp_all

lemma patch_contexts_wire: "patch_contexts a pcre ck cs i srv con = Some (srv', con') \<Longrightarrow> con_wire con' = con_wire con \<and> ev srv' = ev srv"
proof (induction a pcre ck cs i srv con rule: patch_contexts.induct)
  case (2 a pcre ck dc s name cs i srv con)
  show ?case
  proof (cases "dc_comp dc = ck")
    case False
    with 2 show ?thesis by simp
  next
    case True
    with "2.prems" obtain ok srv1 con1 where 1: "config_check_cond a pcre srv con i = Some (ok, srv1, con1)"
      "patch_contexts a pcre ck cs (i + 1) srv1 (if ok then fold (patch_option s name) (dc_keys dc) con1 else con1) = Some (srv', con')"
      by (auto elim!: bind_someE)
    have "con_wire con1 = con_wire con \<and> ev srv1 = ev srv"
      using 1(1) check_wire[of con "con_wire con" srv "ev srv" "i + 1" a pcre i] by (auto simp: config_check_cond_def keeps_def split: bind_splits)
    with "2.IH"(2)[OF _ 1(1) refl refl 1(2)] True show ?thesis by auto
  qed
qed simp

lemma patch_wire: "config_patch_connection a pcre srv con ck = Some (srv', con') \<Longrightarrow> con_wire con' = con_wire con \<and> ev srv' = ev srv"
  by (auto simp: config_patch_connection_def Let_def dest!: patch_contexts_wire split: bind_splits)

lemma patch_all_wire: "patch_all e cs srv con = Some (srv', con') \<Longrightarrow> con_wire con' = con_wire con \<and> ev srv' = ev srv"
proof (induction cs arbitrary: srv con)
  case (Cons c cs)
  from Cons.prems obtain srv1 con1 where 1: "config_patch_connection (env_aton e) (env_pcre e) srv con c = Some (srv1, con1)"
    "patch_all e cs srv1 con1 = Some (srv', con')" by (auto elim!: bind_someE)
  from patch_wire[OF 1(1)] Cons.IH[OF 1(2)] show ?case by simp
qed simp

subsection \<open>Hooks and the preparation of a response\<close>

text \<open>
  The backend is in order, and the descriptor \<open>d\<close> has the index \<open>i\<close> in it.  Hooks may watch descriptors of their own,
  but they leave the backend in order and the descriptor of the connection alone.
\<close>

definition events_at :: "fdevents \<Rightarrow> int \<times> int \<Rightarrow> bool" where
  "events_at b = (\<lambda>(d, i). settable d \<and> (\<exists>idx W. ev_rep b idx W \<and> idx d = i \<and> (\<forall>d e. W d = Some e \<longrightarrow> e = FDEVENT_IN \<or> e = FDEVENT_OUT)))"

definition minds :: "server \<Rightarrow> connection \<Rightarrow> server \<Rightarrow> connection \<Rightarrow> bool" where
  "minds srv con srv' con' \<longleftrightarrow> con_wire con' = con_wire con \<and> (events_at (ev srv) (con_wire con) \<longrightarrow> events_at (ev srv') (con_wire con))"

definition hooks_mind :: "plugin list \<Rightarrow> bool" where
  "hooks_mind ps \<longleftrightarrow> (\<forall>p \<in> set ps. \<forall>h. Some h \<in> {handle_uri_raw p, handle_uri_clean p, handle_docroot p, handle_physical p,
       handle_subrequest_start p, handle_subrequest p, handle_request_done p, handle_connection_close p} \<longrightarrow>
     (\<forall>srv con. minds srv con (fst (snd (h srv con))) (snd (snd (h srv con)))))"

definition hook_fields :: "(plugin \<Rightarrow> hook option) set" where
  "hook_fields = {handle_uri_raw, handle_uri_clean, handle_docroot, handle_physical, handle_subrequest_start, handle_subrequest,
     handle_request_done, handle_connection_close}"

lemma minds_refl: "con_wire con' = con_wire con \<Longrightarrow> ev srv' = ev srv \<Longrightarrow> minds srv con srv' con'"
  by (simp add: minds_def)

lemma minds_trans: "minds srv con srv1 con1 \<Longrightarrow> minds srv1 con1 srv2 con2 \<Longrightarrow> minds srv con srv2 con2"
  by (simp add: minds_def)

text \<open>What every hook of a list does, and what is transitive, all of them do.\<close>

lemma asked_rel:
  assumes "\<And>srv con. R srv con srv con" and "\<And>srv con srv1 con1 srv2 con2. R srv con srv1 con1 \<Longrightarrow> R srv1 con1 srv2 con2 \<Longrightarrow> R srv con srv2 con2"
    and "\<forall>h \<in> set fs. \<forall>srv con. R srv con (fst (snd (h srv con))) (snd (snd (h srv con)))"
  shows "R srv con (fst (snd (ask_hooks fs srv con))) (snd (snd (ask_hooks fs srv con)))"
  using assms(3)
proof (induction fs arbitrary: srv con)
  case Nil
  show ?case by (simp add: assms(1))
next
  case (Cons f fs)
  obtain r srv1 con1 where f: "f srv con = (r, srv1, con1)" by (cases "f srv con")
  have 1: "R srv con srv1 con1" using Cons.prems f by (metis fst_conv list.set_intros(1) snd_conv)
  have "\<forall>h \<in> set fs. \<forall>srv con. R srv con (fst (snd (h srv con))) (snd (snd (h srv con)))" using Cons.prems by simp
  from assms(2)[OF 1 Cons.IH[OF this]] 1 show ?case by (simp add: f)
qed

lemma asked_minds:
  assumes "\<forall>h \<in> set fs. \<forall>srv con. minds srv con (fst (snd (h srv con))) (snd (snd (h srv con)))"
  shows "minds srv con (fst (snd (ask_hooks fs srv con))) (snd (snd (ask_hooks fs srv con)))"
  by (rule asked_rel[where R = minds, OF _ _ assms]) (rule minds_refl minds_trans; simp)+

text \<open>A result that minds the connection.\<close>

definition minding :: "server \<Rightarrow> connection \<Rightarrow> ('r \<times> server \<times> connection) option \<Rightarrow> bool" where
  "minding srv con m \<longleftrightarrow> (\<forall>r srv' con'. m = Some (r, srv', con') \<longrightarrow> minds srv con srv' con')"

lemma minding_simps [simp]: "minding srv con None" "minding srv con (Some (r, srv', con')) \<longleftrightarrow> minds srv con srv' con'"
  by (auto simp: minding_def)

lemma minding_bind: "(\<And>x. m = Some x \<Longrightarrow> minding srv con (f x)) \<Longrightarrow> minding srv con (m \<bind> f)"
  by (cases m) simp_all

lemma minding_then:
  assumes "minding srv con m" and "\<And>r srv1 con1. minds srv con srv1 con1 \<Longrightarrow> minding srv1 con1 (f (r, srv1, con1))"
  shows "minding srv con (m \<bind> f)"
proof (rule minding_bind)
  fix x assume m: "m = Some x"
  obtain r srv1 con1 where x: "x = (r, srv1, con1)" by (cases x)
  have 1: "minds srv con srv1 con1" using assms(1) unfolding m x by simp
  from assms(2)[OF this, of r] minds_trans[OF 1] show "minding srv con (f x)" unfolding x minding_def by blast
qed

lemma minding_call:
  assumes "hooks_mind ps" and "sel \<in> hook_fields" and "con_wire con1 = con_wire con" and "ev srv1 = ev srv"
  shows "minding srv con (plugins_call sel ps srv1 con1)"
proof -
  have "\<forall>h \<in> set (hooks_of sel ps). \<forall>srv con. minds srv con (fst (snd (h srv con))) (snd (snd (h srv con)))"
    using assms(1,2) by (fastforce simp: hooks_mind_def hook_fields_def hooks_of_def List.map_filter_def)
  from asked_minds[OF this, of srv1 con1] have "minds srv con (fst (snd (ask_hooks (hooks_of sel ps) srv1 con1))) (snd (snd (ask_hooks (hooks_of sel ps) srv1 con1)))"
    using assms(3,4) by (simp add: minds_def)
  then show ?thesis by (auto simp: plugins_call_ok minding_def)
qed

lemma minding_ask:
  assumes "hooks_mind (plugins e)" and "sel \<in> hook_fields" and "con_wire con1 = con_wire con" and "ev srv1 = ev srv"
  shows "minding srv con (ask sel e srv1 con1)"
  unfolding ask_def by (rule minding_then[OF minding_call[OF assms]]) (simp add: minds_refl)

lemma minding_go_on:
  assumes "minding srv con m" and "\<And>srv1 con1. minding srv1 con1 (f srv1 con1)"
  shows "minding srv con (go_on m f)"
  unfolding go_on_def by (rule minding_then[OF assms(1)]) (simp add: minds_refl assms(2))

lemma fields: "handle_uri_raw \<in> hook_fields" "handle_uri_clean \<in> hook_fields" "handle_docroot \<in> hook_fields" "handle_physical \<in> hook_fields"
    "handle_subrequest_start \<in> hook_fields" "handle_subrequest \<in> hook_fields" "handle_request_done \<in> hook_fields" "handle_connection_close \<in> hook_fields"
  by (simp_all add: hook_fields_def)

lemma header_insert_wire: "response_header_insert n x con = Some con' \<Longrightarrow> con_wire con' = con_wire con"
  by (auto simp: response_header_insert_def Let_def split: bind_splits prod.splits)

lemma header_overwrite_wire: "response_header_overwrite n x con = Some con' \<Longrightarrow> con_wire con' = con_wire con"
  by (auto simp: response_header_overwrite_def Let_def dest!: header_insert_wire split: bind_splits if_splits)

lemma redirect_wire: "http_response_redirect_to_directory srv o_name con = Some (r, con') \<Longrightarrow> con_wire con' = con_wire con"
  by (auto simp: http_response_redirect_to_directory_def Let_def dest!: header_insert_wire split: bind_splits if_splits option.splits)

lemma cache_reset_wire: "config_cond_cache_reset srv con = Some con' \<Longrightarrow> con_wire con' = con_wire con"
  by (auto simp: config_cond_cache_reset_def config_cond_cache_reset_item_def con_wire_def Let_def split: bind_splits)

lemma setup_wire [simp]: "con_wire (config_setup_connection srv con) = con_wire con"
  by (simp add: config_setup_connection_def)

lemma split_uri_wire: "split_uri con = Some con' \<Longrightarrow> con_wire con' = con_wire con"
  by (auto simp: split_uri_def Let_def split: bind_splits if_splits)

lemma clean_path_wire: "clean_path srv con = Some (srv', con') \<Longrightarrow> con_wire con' = con_wire con \<and> ev srv' = ev srv"
  by (auto simp: clean_path_def split: bind_splits)

lemma raw_minds: "hooks_mind (plugins e) \<Longrightarrow> minding srv con (prepare_raw e srv con)"
  unfolding prepare_raw_def Let_def
  by (auto intro!: minding_bind minding_ask fields dest!: cache_reset_wire patch_all_wire split_uri_wire simp del: patch_all.simps)

lemma clean_minds: "hooks_mind (plugins e) \<Longrightarrow> minding srv con (prepare_clean e srv con)"
  unfolding prepare_clean_def Let_def
  by (auto intro!: minding_bind minding_ask fields dest!: patch_all_wire clean_path_wire simp del: patch_all.simps split: if_splits)

lemma docroot_minds: "hooks_mind (plugins e) \<Longrightarrow> minding srv con (prepare_docroot e srv con)"
  unfolding prepare_docroot_def Let_def
  by (auto intro!: minding_bind minding_ask fields minds_refl dest!: header_insert_wire simp: con_wire_def[of "_ \<lparr> http_status := _ , file_finished := _ \<rparr>"])

lemma physical_minds: "hooks_mind (plugins e) \<Longrightarrow> minding srv con (prepare_physical e srv con)"
  unfolding prepare_physical_def Let_def by (rule minding_ask) (auto intro: fields)

lemma path_minds: "hooks_mind (plugins e) \<Longrightarrow> minding srv con (prepare_path e srv con)"
  unfolding prepare_path_def by (auto intro!: minding_go_on raw_minds clean_minds docroot_minds physical_minds minds_refl)

lemma give_up_minds: "con_wire con' = con_wire con \<Longrightarrow> ev srv' = ev srv \<Longrightarrow> minding srv con (give_up i srv' con')"
  by (simp add: give_up_def minds_refl)

lemma file_minds: "minding srv con (prepare_file e srv con)"
  unfolding prepare_file_def Let_def
  by (auto intro!: minding_bind give_up_minds minds_refl dest!: redirect_wire split: stat_answer.split option.split prod.split)

lemma subrequest_minds: "hooks_mind (plugins e) \<Longrightarrow> minding srv con (prepare_subrequest e srv con)"
  unfolding prepare_subrequest_def
  by (rule minding_then[OF minding_call[OF _ fields(5)]]) (auto intro!: minds_refl)

lemma prepare_minds:
  assumes "hooks_mind (plugins e)"
  shows "minding srv con (http_response_prepare e srv con)"
proof (cases "mode con = DIRECT \<and> http_status con \<noteq> 0 \<and> http_status con \<noteq> 200")
  case True
  then show ?thesis unfolding http_response_prepare_def if_P[OF True] by (auto intro!: minding_bind minds_refl)
next
  case False
  show ?thesis
    unfolding http_response_prepare_def if_not_P[OF False]
  proof (rule minding_then)
    show "minding srv con (go_on (prepare_path e srv con) (\<lambda>srv con.
          if mode con = DIRECT then go_on (prepare_file e srv con) (prepare_subrequest e) else Some (None, srv, con)))"
      by (auto intro!: minding_go_on path_minds file_minds subrequest_minds minds_refl assms)
    show "minding srv1 con1 (case (q, srv1, con1) of (r, srv, con) \<Rightarrow> (case r of Some r \<Rightarrow> Some (r, srv, con)
        | None \<Rightarrow> plugins_call handle_subrequest (plugins e) srv con \<bind> (\<lambda>(r, srv, con).
            Some (if r = HANDLER_GO_ON then HANDLER_FINISHED else r, srv, con))))" for q srv1 con1
      by (auto intro!: minds_refl minding_then[OF minding_call[OF assms fields(6)]] split: option.split)
  qed
qed

subsection \<open>Writing\<close>

lemma append_file_wire: "http_chunk_append_file srv (Some con) fn x len = Some (r, srv', Some con') \<Longrightarrow> con_wire con' = con_wire con \<and> ev srv' = ev srv"
  by (auto simp: http_chunk_append_file_def append_size_def append_line_end_def http_chunk_append_len_def Let_def split: bind_splits if_splits)

lemma drop_body_wire: "drop_body con = Some con' \<Longrightarrow> con_wire con' = con_wire con"
  by (auto simp: drop_body_def split: bind_splits)

lemma method_status_wire: "method_status con = Some con' \<Longrightarrow> con_wire con' = con_wire con"
  by (auto simp: method_status_def dest!: header_insert_wire drop_body_wire split: bind_splits if_splits)

lemma error_file_wire: "error_file e srv con = Some (srv', con') \<Longrightarrow> con_wire con' = con_wire con \<and> ev srv' = ev srv"
  by (auto simp: error_file_def Let_def dest!: header_overwrite_wire append_file_wire split: bind_splits if_splits stat_answer.splits)

lemma error_body_wire: "error_body e srv con = Some (srv', con') \<Longrightarrow> con_wire con' = con_wire con \<and> ev srv' = ev srv"
  by (auto simp: error_body_def Let_def dest!: header_overwrite_wire error_file_wire split: bind_splits if_splits)

lemma status_body_wire: "status_body e srv con = Some (srv', con') \<Longrightarrow> con_wire con' = con_wire con \<and> ev srv' = ev srv"
  by (auto simp: status_body_def dest!: error_body_wire drop_body_wire split: if_splits)

lemma hide_header_wire: "hide_header n con = Some con' \<Longrightarrow> con_wire con' = con_wire con"
  by (auto simp: hide_header_def split: bind_splits if_splits)

lemma announce_wire: "announce srv con = Some (srv', con') \<Longrightarrow> con_wire con' = con_wire con \<and> ev srv' = ev srv"
  by (auto simp: announce_def Let_def dest!: hide_header_wire header_overwrite_wire split: bind_splits if_splits)

lemma write_header_wire: "http_response_write_header d p srv con = Some (srv', con') \<Longrightarrow> con_wire con' = con_wire con \<and> ev srv' = ev srv"
  by (auto simp: http_response_write_header_def date_string_def Let_def split: bind_splits if_splits)

lemma write_prepare_wire: "connection_handle_write_prepare e d p srv con = Some (srv', con') \<Longrightarrow> con_wire con' = con_wire con \<and> ev srv' = ev srv"
  by (auto simp: connection_handle_write_prepare_def Let_def dest!: write_header_wire announce_wire status_body_wire method_status_wire drop_body_wire
      split: bind_splits if_splits)

lemma joblist_wire: "joblist_append srv con = Some (r, srv') \<Longrightarrow> ev srv' = ev srv"
  by (auto simp: joblist_append_def split: if_splits bind_splits)

lemma network_wire: "network_write_chunkqueue b io w srv con cq = Some (r, w', srv', con', cq') \<Longrightarrow> con_wire con' = con_wire con \<and> ev srv' = ev srv"
  by (auto simp: network_write_chunkqueue_def limit_reached_def count_written_def set_global_count_def con_wire_def Let_def dest!: joblist_wire
      split: if_splits bind_splits)

lemma handle_write_wire: "connection_handle_write b io w srv con = Some (w', srv', con') \<Longrightarrow> con_wire con' = con_wire con \<and> ev srv' = ev srv"
  by (auto simp: connection_handle_write_def Let_def dest!: network_wire joblist_wire split: if_splits bind_splits)

subsection \<open>Reading and resetting\<close>

lemma handle_read_wire: "connection_handle_read inp con = Some (r, con') \<Longrightarrow> con_wire con' = con_wire con"
  by (auto simp: connection_handle_read_def connection_handle_read_ssl_def Let_def con_wire_def split: if_splits option.splits bind_splits sys_read.splits)

lemma header_state_wire: "read_header_state con = Some con' \<Longrightarrow> con_wire con' = con_wire con"
  by (auto simp: read_header_state_def con_wire_def upd_req_def split: if_splits option.splits bind_splits)

lemma post_chunk_wire: "post_chunk io up con a = Some (go, up', con') \<Longrightarrow> con_wire con' = con_wire con"
  by (auto simp: post_chunk_def Let_def con_wire_def split: if_splits bind_splits)

lemma post_loop_wire: "post_loop io up con as = Some (up', con') \<Longrightarrow> con_wire con' = con_wire con"
proof (induction as arbitrary: up con)
  case (Cons a as)
  show ?case
  proof (cases "bytes_in (request_content_queue con) = int (content_length (req con))")
    case False
    with Cons.prems obtain go up1 con1 where 1: "post_chunk io up con a = Some (go, up1, con1)"
      "(if go then post_loop io up1 con1 as else Some (up1, con1)) = Some (up', con')" by (auto elim!: bind_someE pair_someE)
    with post_chunk_wire[OF 1(1)] Cons.IH[of up1 con1] show ?thesis by (cases go) auto
  qed (use Cons.prems in simp)
qed simp

lemma post_state_wire: "read_post_state io up con = Some (up', con') \<Longrightarrow> con_wire con' = con_wire con"
  unfolding read_post_state_def by (elim bind_someE pair_someE) (auto split: if_splits dest!: post_loop_wire)

lemma read_idle_wire [simp]: "con_wire (con\<lparr>read_idle_ts := t\<rparr>) = con_wire con"
  by (simp add: con_wire_def)

lemma read_state_wire: "connection_handle_read_state io inp srv up con = Some (r, up', con') \<Longrightarrow> con_wire con' = con_wire con"
  unfolding connection_handle_read_state_def Let_def
  by (elim bind_someE pair_someE)
    (auto dest!: handle_read_wire header_state_wire post_state_wire split: if_splits bind_splits connection_state_t.splits)

definition resets_mind :: "outside \<Rightarrow> bool" where
  "resets_mind out \<longleftrightarrow> (\<forall>srv con. con_wire (o_reset out srv con) = con_wire con)"

lemma reset_wire: "connection_reset pr srv con = Some (r, con') \<Longrightarrow> con_wire (pr srv con) = con_wire con \<Longrightarrow> con_wire con' = con_wire con"
  by (auto simp: connection_reset_def config_setup_connection_def con_wire_def Let_def split: bind_splits)

section \<open>The state machine\<close>

text \<open>The backend knows the descriptor \<open>d\<close> of the connection under the index the connection has.\<close>

definition wired :: "nat \<Rightarrow> int \<Rightarrow> world \<Rightarrow> bool" where
  "wired a d w \<longleftrightarrow> (\<exists>con. at_address (w_heap w) a = Some con \<and> fd con = d \<and> events_at (ev (w_srv w)) (con_wire con))"

definition keeps_wired :: "(world \<Rightarrow> connection \<Rightarrow> ('r \<times> world \<times> connection) option) \<Rightarrow> bool" where
  "keeps_wired f \<longleftrightarrow> (\<forall>w con r w' con'. f w con = Some (r, w', con') \<longrightarrow> w_heap w' = w_heap w \<and>
     (events_at (ev (w_srv w)) (con_wire con) \<longrightarrow> fd con' = fd con \<and> events_at (ev (w_srv w')) (con_wire con')))"

lemma keeps_wired_minds:
  assumes "\<And>w con r w' con'. f w con = Some (r, w', con') \<Longrightarrow> w_heap w' = w_heap w \<and> minds (w_srv w) con (w_srv w') con'"
  shows "keeps_wired f"
proof -
  have "fd con' = fd con" if "minds srv con srv' con'" for srv srv' and con con' :: connection
    using that by (simp add: minds_def con_wire_def)
  with assms show ?thesis unfolding keeps_wired_def minds_def by metis
qed

lemma on_con_wired:
  assumes "on_con a f w = Some (r, w')" and "wired a d w" and "keeps_wired f"
  shows "wired a d w'"
proof -
  from assms(1) obtain con w1 con1 where 1: "at_address (w_heap w) a = Some con" "f w con = Some (r, w1, con1)"
    "w1\<lparr>w_heap := (w_heap w1)[a := con1]\<rparr> = w'"
    unfolding on_con_def by (elim bind_someE pair_someE) (rule that, assumption, simp, simp)
  have k: "w_heap w1 = w_heap w" "events_at (ev (w_srv w)) (con_wire con) \<Longrightarrow> fd con1 = fd con"
    "events_at (ev (w_srv w)) (con_wire con) \<Longrightarrow> events_at (ev (w_srv w1)) (con_wire con1)"
    using assms(3) 1(2) unfolding keeps_wired_def by blast+
  have "fd con = d" "events_at (ev (w_srv w)) (con_wire con)" using assms(2) 1(1) by (auto simp: wired_def)
  moreover have "a < length (w_heap w1)" using 1(1) k(1) by (auto simp: at_address_def split: if_splits)
  ultimately show ?thesis using 1(3) k(2,3) by (auto simp: wired_def at_address_def)
qed

lemma wired_srv: "wired a d w \<Longrightarrow> ev (f (w_srv w)) = ev (w_srv w) \<Longrightarrow> wired a d (upd_srv f w)"
  by (simp add: wired_def upd_srv_def)

lemma wired_round [simp]: "wired a d (w\<lparr>w_round := n\<rparr>) = wired a d w"
  by (simp add: wired_def)

subsection \<open>Closing\<close>

lemma ev_rep_handlers: "ev_rep (b\<lparr>fdarray := x\<rparr>) idx W = ev_rep b idx W"
  by (simp add: ev_rep_def poll_rep_def poll_cells_def select_rep_def)

lemma unregister_wired: "keeps_wired unregister"
  unfolding keeps_wired_def
proof (intro allI impI)
  fix w con r w' con' assume un: "unregister w con = Some (r, w', con')"
  then obtain i b1 b2 where 1: "fdevent_event_del (ev (w_srv w)) (fde_ndx con) (fd con) = Some (i, b1)" "fdevent_unregister b1 (fd con) = Some b2"
    "Some ((), upd_srv (\<lambda>srv. srv\<lparr>ev := b2, cur_fds := cur_fds srv - 1\<rparr>) w, con\<lparr>fde_ndx := i\<rparr>) = Some (r, w', con')"
    unfolding unregister_def by (elim bind_someE pair_someE) (rule that; (assumption | simp only:))
  then have w': "w' = upd_srv (\<lambda>srv. srv\<lparr>ev := b2, cur_fds := cur_fds srv - 1\<rparr>) w" "con' = con\<lparr>fde_ndx := i\<rparr>" by simp_all
  from 1(2) obtain x where b2: "b2 = b1\<lparr>fdarray := x\<rparr>" by (auto simp: fdevent_unregister_def split: bind_splits)
  have "fd con' = fd con \<and> events_at (ev (w_srv w')) (con_wire con')" if e: "events_at (ev (w_srv w)) (con_wire con)"
  proof -
    obtain idx W where 2: "settable (fd con)" "ev_rep (ev (w_srv w)) idx W" "idx (fd con) = fde_ndx con"
      "\<forall>d e. W d = Some e \<longrightarrow> e = FDEVENT_IN \<or> e = FDEVENT_OUT" using e by (auto simp: events_at_def con_wire_def)
    have "ev_rep b1 (idx(fd con := i)) (W(fd con := None))" using event_del_ok[OF 2(2,1)] 2(3) 1(1) by (auto simp: valid_def)
    then have "events_at b2 (fd con, i)"
      unfolding events_at_def prod.case b2 ev_rep_handlers using 2(1,4)
      by (intro conjI exI[of _ "idx(fd con := i)"] exI[of _ "W(fd con := None)"]) (simp_all split: if_splits)
    then show ?thesis by (simp add: w' con_wire_def)
  qed
  then show "w_heap w' = w_heap w \<and> (events_at (ev (w_srv w)) (con_wire con) \<longrightarrow> fd con' = fd con \<and> events_at (ev (w_srv w')) (con_wire con'))"
    by (simp add: w')
qed

lemma set_ndx_wire: "set_ndx heap b i = Some heap' \<Longrightarrow> length heap' = length heap \<and> (\<forall>c < length heap. con_wire (heap' ! c) = con_wire (heap ! c))"
  by (auto simp: set_ndx_def at_address_def con_wire_def nth_list_update split: bind_splits if_splits)

lemma del_wire:
  assumes "connection_del srv heap (Some a) = Some (r, srv', heap')"
  shows "ev srv' = ev srv \<and> length heap' = length heap \<and> (\<forall>c < length heap. con_wire (heap' ! c) = con_wire (heap ! c))"
proof (cases "ndx (heap ! a) = -1")
  case True
  with assms show ?thesis by (auto simp: connection_del_def at_address_def Let_def split: bind_splits if_splits)
next
  case False
  from assms obtain con where c: "at_address heap a = Some con" by (auto simp: connection_del_def split: bind_splits)
  with False have n: "ndx con \<noteq> -1" by (auto simp: at_address_def split: if_splits)
  let ?l = "conns srv" and ?i = "nat (ndx con)"
  from assms c n obtain l heap1 heap2 where 1:
    "(if ?i \<noteq> con_used ?l - 1 then do {
               guard (?i < length (con_ptr ?l) \<and> con_used ?l \<le> length (con_ptr ?l));
               temp \<leftarrow> con_ptr ?l ! ?i;
               final \<leftarrow> con_ptr ?l ! (con_used ?l - 1);
               heap \<leftarrow> set_ndx heap final (int ?i);
               heap \<leftarrow> set_ndx heap temp (-1);
               Some (?l\<lparr>con_ptr := (con_ptr ?l)[?i := Some final, con_used ?l - 1 := Some temp]\<rparr>, heap) }
             else Some (?l, heap)) = Some (l, heap1)" "set_ndx heap1 a (-1) = Some heap2" "Some (0, srv\<lparr>conns := l\<lparr>con_used := con_used l - 1\<rparr>\<rparr>, heap2) = Some (r, srv', heap')"
    unfolding connection_del_def option.case Let_def c Option.bind.simps if_not_P[OF n]
    by (elim bind_someE pair_someE) (rule that; (assumption | simp only:))
  have "length heap1 = length heap \<and> (\<forall>c < length heap. con_wire (heap1 ! c) = con_wire (heap ! c))"
    using 1(1) by (auto dest!: set_ndx_wire split: if_splits bind_splits)
  with set_ndx_wire[OF 1(2)] 1(3) show ?thesis by auto
qed

lemma set_state_wired: "keeps_wired (set_state s)"
  by (rule keeps_wired_minds) (auto simp: set_state_def intro!: minds_refl)

lemma close_wired:
  assumes "connection_close a w = Some w'" and "wired a d w"
  shows "wired a d w'"
proof -
  from assms(1) obtain u w1 r srv heap v where 1: "on_con a unregister w = Some (u, w1)" "connection_del (w_srv w1) (w_heap w1) (Some a) = Some (r, srv, heap)"
    "on_con a (set_state CON_STATE_CONNECT) (w1\<lparr>w_srv := srv, w_heap := heap\<rparr>) = Some (v, w')"
    unfolding connection_close_def by (elim bind_someE pair_someE) (rule that, simp, simp, simp)
  have "wired a d w1" by (rule on_con_wired[OF 1(1) assms(2) unregister_wired])
  then have "wired a d (w1\<lparr>w_srv := srv, w_heap := heap\<rparr>)"
    using del_wire[OF 1(2)] by (auto simp: wired_def at_address_def con_wire_def split: if_splits)
  from on_con_wired[OF 1(3) this set_state_wired] show ?thesis .
qed

subsection \<open>The steps\<close>

definition minds_outside :: "outside \<Rightarrow> bool" where
  "minds_outside out \<longleftrightarrow> (\<forall>i. hooks_mind (plugins (o_env out i))) \<and> resets_mind out"

lemma tell_wired:
  assumes "minds_outside out" and "sel \<in> hook_fields"
  shows "keeps_wired (tell_plugins sel out)"
proof (rule keeps_wired_minds)
  fix w con r w' con' assume t: "tell_plugins sel out w con = Some (r, w', con')"
  have "minding (w_srv w) con (plugins_call sel (plugins (o_env out (w_round w))) (w_srv w) con)"
    by (rule minding_call) (use assms in \<open>simp_all add: minds_outside_def\<close>)
  with t show "w_heap w' = w_heap w \<and> minds (w_srv w) con (w_srv w') con'"
    by (auto simp: tell_plugins_def minding_def split: bind_splits)
qed

lemma reset_wired: "minds_outside out \<Longrightarrow> keeps_wired (reset_con out)"
  by (rule keeps_wired_minds) (auto simp: reset_con_def minds_outside_def resets_mind_def intro!: minds_refl dest!: reset_wire split: bind_splits)

lemma start_wired: "keeps_wired step_request_start"
  by (rule keeps_wired_minds) (auto simp: step_request_start_def Let_def con_wire_def intro!: minds_refl)

lemma end_wired: "keeps_wired step_request_end"
proof (rule keeps_wired_minds)
  fix w con r w' con' assume "step_request_end w con = Some (r, w', con')"
  moreover have "keeps (con_wire con) (ev (w_srv w)) (http_request_parse (w_srv w) con)" by (rule request_parse_wire) simp_all
  ultimately show "w_heap w' = w_heap w \<and> minds (w_srv w) con (w_srv w') con'"
    by (auto simp: step_request_end_def keeps_def intro!: minds_refl split: bind_splits)
qed

lemma request_wired:
  assumes "minds_outside out"
  shows "keeps_wired (step_handle_request out)"
proof (rule keeps_wired_minds)
  fix w con again w' con' assume s: "step_handle_request out w con = Some (again, w', con')"
  then obtain r srv1 con1 where 1: "http_response_prepare (o_env out (w_round w)) (w_srv w) con = Some (r, srv1, con1)"
    unfolding step_handle_request_def by (elim bind_someE pair_someE) (rule that; simp)
  have "minding (w_srv w) con (http_response_prepare (o_env out (w_round w)) (w_srv w) con)"
    by (rule prepare_minds) (use assms in \<open>simp add: minds_outside_def\<close>)
  with 1 have m: "minds (w_srv w) con srv1 con1" by (simp add: minding_def)
  have "w_heap w' = w_heap w \<and> ev (w_srv w') = ev srv1 \<and> con_wire con' = con_wire con1"
    using s 1 by (auto simp: step_handle_request_def call_error_handler_def request_finished_def fdwaitqueue_append_def con_wire_def nested_updates Let_def
        split: handler_t.splits if_splits bind_splits)
  with m show "w_heap w' = w_heap w \<and> minds (w_srv w) con (w_srv w') con'" by (simp add: minds_def)
qed

lemma response_start_wired: "keeps_wired (step_response_start out)"
  by (rule keeps_wired_minds) (auto simp: step_response_start_def intro!: minds_refl dest!: write_prepare_wire split: bind_splits)

lemma connect_wired: "keeps_wired step_connect"
  by (rule keeps_wired_minds) (auto simp: step_connect_def con_wire_def intro!: minds_refl split: bind_splits)

lemma read_wired: "keeps_wired (step_read out)"
  by (rule keeps_wired_minds) (auto simp: step_read_def intro!: minds_refl dest!: read_state_wire split: bind_splits)

lemma write_wired: "keeps_wired (step_write out)"
  by (rule keeps_wired_minds)
    (auto simp: step_write_def con_wire_def[of "_ \<lparr> write_request_ts := _ \<rparr>"] con_wire_def intro!: minds_refl dest!: handle_write_wire split: bind_splits if_splits)

lemma simple_wired: "(\<And>con. con_wire (f con) = con_wire con) \<Longrightarrow> keeps_wired (\<lambda>w con. Some ((), w, f con))"
  by (rule keeps_wired_minds) (auto intro: minds_refl)

lemma response_end_wired:
  assumes "step_response_end out a w = Some (again, w')" and "minds_outside out" and "wired a d w"
  shows "wired a d w'"
proof -
  from assms(1) obtain u0 w0 w2 u and con1 :: connection where 1: "on_con a (tell_plugins handle_request_done out) w = Some (u0, w0)"
    "(if keep_alive con1 \<noteq> 0 then map_option snd (on_con a (set_state CON_STATE_REQUEST_START) (upd_srv (\<lambda>srv. srv\<lparr>con_written := con_written srv + 1\<rparr>) w0))
       else do {
         (_, w) \<leftarrow> on_con a (tell_plugins handle_connection_close out) (upd_srv (\<lambda>srv. srv\<lparr>con_written := con_written srv + 1\<rparr>) w0);
         w \<leftarrow> connection_close a w;
         Some (upd_srv (\<lambda>srv. srv\<lparr>con_closed := con_closed srv + 1\<rparr>) w) }) = Some w2"
    "on_con a (reset_con out) w2 = Some (u, w')"
    unfolding step_response_end_def Let_def by (elim bind_someE pair_someE) (rule that; simp)
  have "wired a d w0" by (rule on_con_wired[OF 1(1) assms(3) tell_wired[OF assms(2) fields(7)]])
  then have w0: "wired a d (upd_srv (\<lambda>srv. srv\<lparr>con_written := con_written srv + 1\<rparr>) w0)" by (rule wired_srv) simp
  have "wired a d w2"
  proof (cases "keep_alive con1 = 0")
    case True
    with 1(2) obtain u1 w3 w4 where 2: "on_con a (tell_plugins handle_connection_close out) (upd_srv (\<lambda>srv. srv\<lparr>con_written := con_written srv + 1\<rparr>) w0) = Some (u1, w3)"
      "connection_close a w3 = Some w4" "upd_srv (\<lambda>srv. srv\<lparr>con_closed := con_closed srv + 1\<rparr>) w4 = w2" by (auto elim!: bind_someE pair_someE)
    have "wired a d w4" by (rule close_wired[OF 2(2) on_con_wired[OF 2(1) w0 tell_wired[OF assms(2) fields(8)]]])
    then show ?thesis unfolding 2(3)[symmetric] by (rule wired_srv) simp
  next
    case False
    with 1(2) obtain v where "on_con a (set_state CON_STATE_REQUEST_START) (upd_srv (\<lambda>srv. srv\<lparr>con_written := con_written srv + 1\<rparr>) w0) = Some (v, w2)" by auto
    from on_con_wired[OF this w0 set_state_wired] show ?thesis .
  qed
  from on_con_wired[OF 1(3) this reset_wired[OF assms(2)]] show ?thesis .
qed

lemma step_close_wired:
  assumes "step_close out a w = Some (again, w')" and "wired a d w"
  shows "wired a d w'"
proof -
  let ?f = "\<lambda>w con. do {
       con \<leftarrow> (if keep_alive con \<noteq> 0 then drain (o_pending out (w_round w)) con else Some (con\<lparr>close_timeout_ts := 0\<rparr>));
       Some ((), w, con) }"
  from assms(1) obtain u w1 and con1 :: connection where 1: "on_con a ?f w = Some (u, w1)"
    "(if cur_ts (w_srv w1) - close_timeout_ts con1 > 1 then connection_close a w1 else Some w1) = Some w'"
    unfolding step_close_def by (elim bind_someE pair_someE) (rule that; simp)
  have "keeps_wired ?f" by (rule keeps_wired_minds) (auto simp: drain_def con_wire_def intro!: minds_refl split: bind_splits if_splits)
  from on_con_wired[OF 1(1) assms(2) this] 1(2) close_wired[of a w1 w' d] show ?thesis by (auto split: if_splits)
qed

lemma step_error_wired:
  assumes "step_error out a w = Some (again, w')" and "minds_outside out" and "wired a d w"
  shows "wired a d w'"
proof -
  from assms(1) obtain con con1 con3 :: connection and w1 w2 w3 w4 w5 u v where 1:
    "(if http_status con \<noteq> 0 then map_option snd (on_con a (tell_plugins handle_request_done out) w) else Some w) = Some w1"
    "(if mode con1 \<noteq> DIRECT then map_option snd (on_con a (tell_plugins handle_connection_close out) w1) else Some w1) = Some w2"
    "on_con a (reset_con out) w2 = Some (u, w3)"
    "(if keep_alive con3 = 1 \<and> o_shutdown out (w_round w3)
       then map_option snd (on_con a (\<lambda>w con. Some ((), w, con\<lparr>close_timeout_ts := cur_ts (w_srv w), state := CON_STATE_CLOSE\<rparr>)) w3)
       else connection_close a w3) = Some w4"
    "on_con a (\<lambda>w con. Some ((), w, con\<lparr>keep_alive := 0\<rparr>)) w4 = Some (v, w5)"
    "Some (False, upd_srv (\<lambda>srv. srv\<lparr>con_closed := con_closed srv + 1\<rparr>) w5) = Some (again, w')"
    unfolding step_error_def by (elim bind_someE pair_someE) (rule that; (assumption | simp only:))
  have "wired a d w1" using 1(1) assms(3) on_con_wired[OF _ assms(3) tell_wired[OF assms(2) fields(7)]] by (auto split: if_splits)
  then have "wired a d w2" using 1(2) on_con_wired[OF _ _ tell_wired[OF assms(2) fields(8)], of a w1] by (auto split: if_splits)
  from on_con_wired[OF 1(3) this reset_wired[OF assms(2)]] have w3: "wired a d w3" .
  have "keeps_wired (\<lambda>w con. Some ((), w, con\<lparr>close_timeout_ts := cur_ts (w_srv w), state := CON_STATE_CLOSE\<rparr>))"
    by (rule keeps_wired_minds) (auto simp: con_wire_def intro!: minds_refl)
  from 1(4) on_con_wired[OF _ w3 this] close_wired[OF _ w3] have "wired a d w4" by (auto split: if_splits)
  from on_con_wired[OF 1(5) this simple_wired] have "wired a d w5" by simp
  with 1(6) show ?thesis by (auto intro: wired_srv)
qed

lemma machine_step_wired:
  assumes "machine_step out a w = Some (again, w')" and "minds_outside out" and "wired a d w"
  shows "wired a d w'"
proof -
  from assms(3) obtain con where c: "at_address (w_heap w) a = Some con" by (auto simp: wired_def)
  have o: "wired a d w'" if "on_con a f w = Some (again, w')" "keeps_wired f" for f by (rule on_con_wired[OF that(1) assms(3) that(2)])
  from assms(1) c show ?thesis
    by (cases "state con") (auto simp: machine_step_def intro: o start_wired end_wired request_wired[OF assms(2)] response_start_wired connect_wired
        read_wired write_wired response_end_wired[OF _ assms(2,3)] step_close_wired[OF _ assms(3)] step_error_wired[OF _ assms(2,3)])
qed

lemma machine_turn_wired:
  assumes "machine_turn out a w = Some (go, w')" and "minds_outside out" and "wired a d w"
  shows "wired a d w'"
proof -
  obtain con again w1 con' where 1: "at_address (w_heap w) a = Some con" "machine_step out a w = Some (again, w1)"
    "at_address (w_heap w1) a = Some con'" "go \<longleftrightarrow> again \<or> state con' \<noteq> state con" "w' = w1\<lparr>w_round := w_round w1 + 1\<rparr>"
    by (rule turnE[OF assms(1)])
  from machine_step_wired[OF 1(2) assms(2,3)] 1(5) show ?thesis by simp
qed

lemma turns_wired: "turns out a w ss w' \<Longrightarrow> minds_outside out \<Longrightarrow> wired a d w \<Longrightarrow> wired a d w'"
  by (induction rule: turns.induct) (auto dest: machine_turn_wired)

lemma wants_index [simp]: "wants (con\<lparr>fde_ndx := i\<rparr>) = wants con"
  by (simp add: wants_def)

lemma settles_ok:
  assumes "tame_reset out" and "minds_outside out" and "answers_well (o_backend out)" and "wired a d w"
    and "\<And>ss w'. turns out a w ss w' \<Longrightarrow> machine_turn out a w' \<noteq> None \<and> count_list ss CON_STATE_HANDLE_REQUEST \<le> k"
  shows "\<exists>w2 con. connection_state_machine out a w = Some (0, w2) \<and> at_address (w_heap w2) a = Some con \<and> fd con = d \<and>
     waiting (state con) \<and> watched (ev (w_srv w2)) d = wants con"
proof -
  obtain con0 where "at_address (w_heap w) a = Some con0" using assms(4) by (auto simp: wired_def)
  from loop_returns_ok[OF assms(1) this assms(5)] obtain ss w0 w1 where 1: "turns out a w ss w0" "machine_turn out a w0 = Some (False, w1)"
    "machine_loop out a w = Some w1" by blast
  have "wired a d w1" by (rule machine_turn_wired[OF 1(2) assms(2) turns_wired[OF 1(1) assms(2,4)]])
  then obtain con idx W where 2: "at_address (w_heap w1) a = Some con" "fd con = d" "settable (fd con)" "ev_rep (ev (w_srv w1)) idx W"
    "idx (fd con) = fde_ndx con" "\<forall>d e. W d = Some e \<longrightarrow> e = FDEVENT_IN \<or> e = FDEVENT_OUT"
    by (auto simp: wired_def events_at_def con_wire_def)
  have w: "waiting (state con)" using loop_waits[OF 1(3) assms(1)] 2(1) by auto
  have d: "0 \<le> fd con" using 2(3) by (simp add: settable_def)
  obtain r w2 i where 3: "connection_state_machine out a w = Some (r, w2)" "r = 0"
    "\<forall>d \<ge> 0. watched (ev (w_srv w2)) d = (if d = fd con then wants con else watched (ev (w_srv w1)) d)"
    "at_address (w_heap w2) a = Some (con\<lparr>fde_ndx := i\<rparr>)"
    using events_registered_ok[OF 1(3) assms(1,3) 2(1,4,5,3)] 2(6) by (auto simp: valid_def)
  with 2(2) w d show ?thesis by (intro exI[of _ w2] exI[of _ "con\<lparr>fde_ndx := i\<rparr>"]) simp
qed

text \<open>
  C32: nobody waits for ever: \<open>connection_state_machine\<close> returns and leaves the connection in a state that waits for
  something, and then the event backend watches the descriptor of the connection for input when the connection reads or
  lingers, for output when it writes, has something to send and is not throttled, and else not at all.  This holds when
  no round meets undefined behaviour and at most \<open>k\<close> rounds prepare a response, and when the hooks of the plugins, which may
  watch descriptors of their own, leave the backend in order and the descriptor of the connection alone.
\<close>

theorem events_registered:
  assumes "tame_reset out" and "minds_outside out" and "answers_well (o_backend out)" and "wired a d w"
    and "\<And>ss w'. turns out a w ss w' \<Longrightarrow> machine_turn out a w' \<noteq> None \<and> count_list ss CON_STATE_HANDLE_REQUEST \<le> k"
  shows "\<exists>w2 con. connection_state_machine out a w = Some (0, w2) \<and> at_address (w_heap w2) a = Some con \<and> fd con = d \<and>
     waiting (state con) \<and> watched (ev (w_srv w2)) d = wants con"
  by (rule settles_ok[OF assms])

lemma quiet_minds: "minds_outside quiet_client"
  by (simp add: minds_outside_def quiet_client_def found_env_def hooks_mind_def resets_mind_def)

lemma accepted_wired: "wired 0 5 accepted_world"
proof -
  have "ev_rep (ev (w_srv accepted_world)) (\<lambda>_. -1) (\<lambda>_. None)"
    unfolding accepted_world_def sample_server_def
    by (simp add: fdevent_init_rep[of 1025 FDEVENT_HANDLER_POLL] fdevent_init_def Let_def)
  then show ?thesis
    unfolding wired_def using accepted_at(1)
    by (intro exI[of _ accepted_con]) (auto simp: events_at_def con_wire_def accepted_con_def connection_init_def config_setup_connection_def
        settable_def FD_SETSIZE_def intro!: exI[of _ "\<lambda>_. -1"] exI[of _ "\<lambda>_. None"])
qed

theorem events_registered_witness:
  "\<exists>w2 con. connection_state_machine quiet_client 0 accepted_world = Some (0, w2) \<and> at_address (w_heap w2) 0 = Some con \<and> fd con = 5 \<and>
     waiting (state con) \<and> watched (ev (w_srv w2)) 5 = wants con"
  by (rule events_registered[OF quiet_ok(1) quiet_minds quiet_ok(2) accepted_wired accepted_bounded])

end
