(* ===== verification/ConnClose.thy ===== *)
theory ConnClose
  imports Accept ConnEvents
begin

text \<open>
  A connection in the state \<open>CON_STATE_ERROR\<close> is gone when \<open>connection_state_machine\<close> returns, and it does return: the rounds
  ERROR, CLOSE and CONNECT one after the other, without undefined behaviour.
\<close>

section \<open>Hooks that leave the connection in order\<close>

text \<open>Between two requests a connection can be reset, and what was read beyond the request is a well-formed queue.\<close>

definition well_kept :: "connection \<Rightarrow> bool" where
  "well_kept con \<longleftrightarrow> con_ok con \<and> (\<exists>cs. cq_rep (read_queue con) cs)"

definition tidy :: "server \<Rightarrow> connection \<Rightarrow> server \<Rightarrow> connection \<Rightarrow> bool" where
  "tidy srv con srv' con' \<longleftrightarrow> minds srv con srv' con' \<and> conns srv' = conns srv \<and> cur_ts srv' = cur_ts srv \<and>
     length (fdarray (ev srv')) = length (fdarray (ev srv)) \<and> ndx con' = ndx con \<and> (well_kept con \<longrightarrow> well_kept con')"

text \<open>
  The hooks for the end of a request and of a connection, and the reset of the plugins, keep the pool, the clock, the
  size of the table of handlers and the events of the connection.
\<close>

definition orderly :: "outside \<Rightarrow> bool" where
  "orderly out \<longleftrightarrow>
     (\<forall>i. \<forall>p \<in> set (plugins (o_env out i)). \<forall>h. handle_request_done p = Some h \<or> handle_connection_close p = Some h \<longrightarrow>
        (\<forall>srv con. tidy srv con (fst (snd (h srv con))) (snd (snd (h srv con))))) \<and>
     (\<forall>srv con. tidy srv con srv (o_reset out srv con))"

lemma tidy_trans: "tidy srv con srv1 con1 \<Longrightarrow> tidy srv1 con1 srv2 con2 \<Longrightarrow> tidy srv con srv2 con2"
  unfolding tidy_def using minds_trans by metis

lemma tidy_con: "con_wire con' = con_wire con \<Longrightarrow> ndx con' = ndx con \<Longrightarrow> (well_kept con \<Longrightarrow> well_kept con') \<Longrightarrow> tidy srv con srv con'"
  by (simp add: tidy_def minds_refl)

lemma told_tidy:
  assumes "orderly out" and "sel = handle_request_done \<or> sel = handle_connection_close"
  shows "valid (tell_plugins sel out w con) (\<lambda>(_, w', con'). w_heap w' = w_heap w \<and> tidy (w_srv w) con (w_srv w') con')"
proof -
  let ?fs = "hooks_of sel (plugins (o_env out (w_round w)))"
  have "\<forall>h \<in> set ?fs. \<forall>srv con. tidy srv con (fst (snd (h srv con))) (snd (snd (h srv con)))"
    using assms by (auto simp: hooks_of_def List.map_filter_def orderly_def)
  from asked_rel[where R = tidy and srv = "w_srv w" and con = con, OF _ tidy_trans this]
  have "tidy (w_srv w) con (fst (snd (ask_hooks ?fs (w_srv w) con))) (snd (snd (ask_hooks ?fs (w_srv w) con)))"
    by (simp add: tidy_con)
  then show ?thesis by (auto simp: tell_plugins_def plugins_call_ok split: prod.splits)
qed

lemma reset_rest:
  assumes "connection_reset pr srv con = Some (r, con')"
  shows "ndx con' = ndx (pr srv con) \<and> read_queue con' = read_queue (pr srv con) \<and> con_wire con' = con_wire (pr srv con)"
  using assms by (auto simp: connection_reset_def config_setup_connection_def con_wire_def Let_def split: bind_splits)

lemma reset_tidy:
  assumes "orderly out" and "well_kept con"
  shows "valid (reset_con out w con) (\<lambda>(_, w', con'). w_heap w' = w_heap w \<and> tidy (w_srv w) con (w_srv w') con')"
proof -
  have t: "tidy (w_srv w) con (w_srv w) (o_reset out (w_srv w) con)" using assms(1) by (simp add: orderly_def)
  then have k: "well_kept (o_reset out (w_srv w) con)" using assms(2) by (simp add: tidy_def)
  then obtain r con' where 1: "connection_reset (o_reset out) (w_srv w) con = Some (r, con')" "con_ok con'"
    using connection_reset_ok[of "o_reset out" "w_srv w" con] by (auto simp: well_kept_def)
  from reset_rest[OF 1(1)] k t 1(2) have "tidy (w_srv w) con (w_srv w) con'"
    by (auto simp: tidy_def minds_def well_kept_def)
  with 1(1) show ?thesis by (simp add: reset_con_def)
qed

section \<open>A client that is connected, and one that is gone\<close>

definition open_client :: "nat \<Rightarrow> int \<Rightarrow> world \<Rightarrow> bool" where
  "open_client a d w \<longleftrightarrow> valid (at_address (w_heap w) a) well_kept \<and> wired a d w \<and> pool_inv (w_srv w) (w_heap w) \<and> a \<in> in_use (w_srv w) \<and>
     nat d < length (fdarray (ev (w_srv w)))"

text \<open>The connections in use and the clock.\<close>

definition usage :: "world \<Rightarrow> nat set \<times> int" where
  "usage w = (in_use (w_srv w), cur_ts (w_srv w))"

lemma open_srv: "ev (f (w_srv w)) = ev (w_srv w) \<Longrightarrow> conns (f (w_srv w)) = conns (w_srv w) \<Longrightarrow> open_client a d (upd_srv f w) = open_client a d w"
  by (simp add: open_client_def wired_def pool_inv_def in_use_def)

lemma usage_srv: "cur_ts (f (w_srv w)) = cur_ts (w_srv w) \<Longrightarrow> conns (f (w_srv w)) = conns (w_srv w) \<Longrightarrow> usage (upd_srv f w) = usage w"
  by (simp add: usage_def in_use_def)

lemma usage_round [simp]: "usage (w\<lparr>w_round := n\<rparr>) = usage w"
  by (simp add: usage_def)

lemma open_round [simp]: "open_client a d (w\<lparr>w_round := n\<rparr>) = open_client a d w"
  by (simp add: open_client_def)

lemma on_con_open:
  assumes "open_client a d w"
    and "\<And>con. at_address (w_heap w) a = Some con \<Longrightarrow> well_kept con \<Longrightarrow>
      valid (f w con) (\<lambda>(r, w', con'). w_heap w' = w_heap w \<and> tidy (w_srv w) con (w_srv w') con' \<and> P r con')"
  shows "valid (on_con a f w) (\<lambda>(r, w'). open_client a d w' \<and> usage w' = usage w \<and> valid (at_address (w_heap w') a) (P r))"
proof -
  obtain con where con: "at_address (w_heap w) a = Some con" "well_kept con" using assms(1) by (auto simp: open_client_def valid_def)
  obtain r w1 con1 where f: "f w con = Some (r, w1, con1)" "w_heap w1 = w_heap w" "tidy (w_srv w) con (w_srv w1) con1" "P r con1"
    using assms(2)[OF con] by (auto simp: valid_def)
  have a: "a < length (w_heap w)" "w_heap w ! a = con" using con(1) by (auto simp: at_address_def split: if_splits)
  have k: "well_kept con1" "ndx con1 = ndx con" "conns (w_srv w1) = conns (w_srv w)" "cur_ts (w_srv w1) = cur_ts (w_srv w)"
    "length (fdarray (ev (w_srv w1))) = length (fdarray (ev (w_srv w)))" "minds (w_srv w) con (w_srv w1) con1"
    using f(3) con(2) by (simp_all add: tidy_def)
  let ?w = "w1\<lparr>w_heap := (w_heap w)[a := con1]\<rparr>"
  obtain as n where p: "pool_rep (conns (w_srv w)) (w_heap w) as n" using assms(1) by (auto simp: open_client_def pool_inv_def)
  have "pool_rep (conns (w_srv w)) ((w_heap w)[a := con1]) as n" by (rule pool_update[OF p]) (use k a in \<open>simp_all add: well_kept_def\<close>)
  then have "pool_inv (w_srv ?w) (w_heap ?w)" using k(3) by (auto simp: pool_inv_def)
  moreover have "wired a d ?w" using assms(1) a k(6) by (auto simp: open_client_def wired_def at_address_def minds_def con_wire_def)
  ultimately have "open_client a d ?w" using assms(1) a k(1,3,5) by (simp add: open_client_def at_address_def in_use_def)
  then show ?thesis using f con(1) a k by (simp add: on_con_def usage_def in_use_def at_address_def)
qed

text \<open>The connection is out of the pool, and nothing is left of its descriptor.\<close>

definition gone_client :: "nat set \<Rightarrow> nat \<Rightarrow> int \<Rightarrow> world \<Rightarrow> bool" where
  "gone_client U a d w \<longleftrightarrow>
     valid (at_address (w_heap w) a) (\<lambda>con. state con = CON_STATE_CONNECT \<and> ndx con = -1 \<and> con_ok con \<and> (\<exists>cs. cq_rep (read_queue con) cs)) \<and>
     wired a d w \<and> pool_inv (w_srv w) (w_heap w) \<and> in_use (w_srv w) = U - {a} \<and> fdnode_at (ev (w_srv w)) d = None \<and>
     watched (ev (w_srv w)) d = None"

lemma close_gone:
  assumes "open_client a d w"
  shows "valid (connection_close a w) (\<lambda>w'. gone_client (in_use (w_srv w)) a d w' \<and> cur_ts (w_srv w') = cur_ts (w_srv w))"
proof -
  obtain con where con: "at_address (w_heap w) a = Some con" "well_kept con" using assms by (auto simp: open_client_def valid_def)
  obtain idx W where e: "fd con = d" "settable (fd con)" "ev_rep (ev (w_srv w)) idx W" "idx (fd con) = fde_ndx con"
    "\<And>d e. W d = Some e \<Longrightarrow> e = FDEVENT_IN \<or> e = FDEVENT_OUT"
    using assms con(1) unfolding open_client_def wired_def events_at_def con_wire_def by auto
  have o: "pool_inv (w_srv w) (w_heap w)" "a \<in> in_use (w_srv w)" "nat (fd con) < length (fdarray (ev (w_srv w)))" "wired a d w"
    using assms e(1) by (simp_all add: open_client_def)
  obtain w' where w': "connection_close a w = Some w'" "in_use (w_srv w') = in_use (w_srv w) - {a}" "pool_inv (w_srv w') (w_heap w')"
    "fdevent_get_handler (ev (w_srv w')) d = None" "watched (ev (w_srv w')) d = None"
    "at_address (w_heap w') a = Some (con\<lparr>fde_ndx := -1, ndx := -1, state := CON_STATE_CONNECT\<rparr>)"
  proof -
    have d: "0 \<le> d" using e(1,2) by (simp add: settable_def)
    have "valid (connection_close a w) (\<lambda>w'. in_use (w_srv w') = in_use (w_srv w) - {a} \<and> pool_inv (w_srv w') (w_heap w') \<and>
        fdevent_get_handler (ev (w_srv w')) d = None \<and> watched (ev (w_srv w')) d = None \<and>
        at_address (w_heap w') a = Some (con\<lparr>fde_ndx := -1, ndx := -1, state := CON_STATE_CONNECT\<rparr>))"
      by (rule valid_weaken[OF close_ok[OF o(1,2) con(1) e(3,4,2) o(3)]], erule e(5)) (use d e(1) in simp)
    with that show thesis by (auto simp: valid_def)
  qed
  have "cur_ts (w_srv w') = cur_ts (w_srv w)"
  proof -
    from w'(1) obtain u w1 r srv heap v where 1: "on_con a unregister w = Some (u, w1)" "connection_del (w_srv w1) (w_heap w1) (Some a) = Some (r, srv, heap)"
      "on_con a (set_state CON_STATE_CONNECT) (w1\<lparr>w_srv := srv, w_heap := heap\<rparr>) = Some (v, w')"
      unfolding connection_close_def by (elim bind_someE pair_someE) (rule that, simp, simp, simp)
    have "cur_ts (w_srv w1) = cur_ts (w_srv w)" using 1(1) by (auto simp: on_con_def unregister_def split: bind_splits)
    moreover have "cur_ts srv = cur_ts (w_srv w1)" using 1(2) by (auto simp: connection_del_def Let_def split: bind_splits option.splits if_splits)
    ultimately show ?thesis using 1(3) by (auto simp: on_con_def set_state_def split: bind_splits)
  qed
  moreover have "con_ok (con\<lparr>fde_ndx := -1, ndx := -1, state := CON_STATE_CONNECT\<rparr>)" using con(2) by (simp add: well_kept_def con_ok_def)
  moreover have "fdnode_at (ev (w_srv w')) d = None" using w'(4) by (auto simp: fdevent_get_handler_def split: option.splits bind_splits)
  ultimately show ?thesis
    using w' con(2) close_wired[OF w'(1) o(4)] by (simp add: gone_client_def well_kept_def)
qed

lemma gone_srv: "ev (f (w_srv w)) = ev (w_srv w) \<Longrightarrow> conns (f (w_srv w)) = conns (w_srv w) \<Longrightarrow> gone_client U a d (upd_srv f w) = gone_client U a d w"
  by (simp add: gone_client_def wired_def pool_inv_def in_use_def)

lemma gone_round [simp]: "gone_client U a d (w\<lparr>w_round := n\<rparr>) = gone_client U a d w"
  by (simp add: gone_client_def)

lemma on_con_gone:
  assumes "gone_client U a d w"
    and "\<And>con. at_address (w_heap w) a = Some con \<Longrightarrow> \<exists>cs. cq_rep (read_queue con) cs \<Longrightarrow>
      valid (f w con) (\<lambda>(r, w', con'). w' = w \<and> con_wire con' = con_wire con \<and> ndx con' = ndx con \<and> state con' = state con \<and>
        (con_ok con \<longrightarrow> con_ok con') \<and> (\<exists>cs. cq_rep (read_queue con') cs) \<and> Q r)"
  shows "valid (on_con a f w) (\<lambda>(r, w'). gone_client U a d w' \<and> w_srv w' = w_srv w \<and> Q r)"
proof -
  obtain con where con: "at_address (w_heap w) a = Some con" "state con = CON_STATE_CONNECT" "ndx con = -1" "con_ok con" "\<exists>cs. cq_rep (read_queue con) cs"
    using assms(1) by (auto simp: gone_client_def valid_def)
  obtain r con1 where f: "f w con = Some (r, w, con1)" "con_wire con1 = con_wire con" "ndx con1 = ndx con" "state con1 = state con"
    "con_ok con1" "\<exists>cs. cq_rep (read_queue con1) cs" "Q r" using assms(2)[OF con(1,5)] con(4) by (auto simp: valid_def)
  have a: "a < length (w_heap w)" "w_heap w ! a = con" using con(1) by (auto simp: at_address_def split: if_splits)
  obtain as n where p: "pool_rep (conns (w_srv w)) (w_heap w) as n" using assms(1) by (auto simp: gone_client_def pool_inv_def)
  have "pool_rep (conns (w_srv w)) ((w_heap w)[a := con1]) as n" by (rule pool_update[OF p]) (use f a in simp_all)
  then have "pool_inv (w_srv w) ((w_heap w)[a := con1])" by (auto simp: pool_inv_def)
  moreover have "fd con = d" "events_at (ev (w_srv w)) (con_wire con)" using assms(1) con(1) by (auto simp: gone_client_def wired_def)
  then have "wired a d (w\<lparr>w_heap := (w_heap w)[a := con1]\<rparr>)"
    using a f(2) unfolding wired_def by (intro exI[of _ con1]) (simp add: at_address_def con_wire_def)
  ultimately show ?thesis
    using assms(1) f con a by (simp add: on_con_def gone_client_def at_address_def)
qed

section \<open>The rounds\<close>

lemma open_told:
  assumes "orderly out" and "open_client a d w" and "sel = handle_request_done \<or> sel = handle_connection_close"
  shows "valid (map_option snd (on_con a (tell_plugins sel out) w)) (\<lambda>w'. open_client a d w' \<and> usage w' = usage w)"
proof -
  have "valid (on_con a (tell_plugins sel out) w) (\<lambda>(r, w'). open_client a d w' \<and> usage w' = usage w \<and> valid (at_address (w_heap w') a) (\<lambda>_. True))"
    by (rule on_con_open[OF assms(2)]) (rule valid_weaken[OF told_tidy[OF assms(1,3)]], auto)
  then show ?thesis by (auto simp: valid_def)
qed

lemma open_reset:
  assumes "orderly out" and "open_client a d w"
  shows "valid (on_con a (reset_con out) w) (\<lambda>(_, w'). open_client a d w' \<and> usage w' = usage w)"
proof -
  have "valid (on_con a (reset_con out) w) (\<lambda>(r, w'). open_client a d w' \<and> usage w' = usage w \<and> valid (at_address (w_heap w') a) (\<lambda>_. True))"
    by (rule on_con_open[OF assms(2)]) (rule valid_weaken[OF reset_tidy[OF assms(1)]], auto)
  then show ?thesis by (auto simp: valid_def)
qed

text \<open>An update of the connection itself.\<close>

lemma open_update:
  assumes "open_client a d w" and "\<And>con. con_wire (g con) = con_wire con \<and> ndx (g con) = ndx con \<and> (well_kept con \<longrightarrow> well_kept (g con))"
    and "\<And>con. P con (g con)" and "at_address (w_heap w) a = Some con"
  shows "valid (on_con a (\<lambda>w con. Some ((), w, g con)) w) (\<lambda>(_, w'). open_client a d w' \<and> usage w' = usage w \<and> valid (at_address (w_heap w') a) (P con))"
  by (rule valid_weaken[OF on_con_open[where P = "\<lambda>_. P con", OF assms(1)]]) (use assms(2-4) in \<open>auto intro: tidy_con\<close>)

lemma keeps_alive_rec [simp]:
  "well_kept (con\<lparr>keep_alive := k\<rparr>) = well_kept con" "well_kept (con\<lparr>close_timeout_ts := t\<rparr>) = well_kept con"
  "well_kept (con\<lparr>state := s\<rparr>) = well_kept con" "well_kept (con\<lparr>traffic_limit_reached := b\<rparr>) = well_kept con"
  by (simp_all add: well_kept_def con_ok_def)

text \<open>After the round in \<open>CON_STATE_ERROR\<close> the connection lingers without keep-alive, or is gone.\<close>

definition after_error :: "nat set \<times> int \<Rightarrow> nat \<Rightarrow> int \<Rightarrow> world \<Rightarrow> bool" where
  "after_error u a d w \<longleftrightarrow>
     open_client a d w \<and> usage w = u \<and> valid (at_address (w_heap w) a) (\<lambda>con. state con = CON_STATE_CLOSE \<and> keep_alive con = 0) \<or>
     gone_client (fst u) a d w \<and> cur_ts (w_srv w) = snd u"

lemma error_ends:
  assumes "orderly out" and "open_client a d w"
  shows "valid (step_error out a w) (\<lambda>(again, w'). \<not> again \<and> after_error (usage w) a d w')"
proof -
  have at: "\<exists>con. at_address (w_heap w) a = Some con" if "open_client a d w" for w using that by (auto simp: open_client_def valid_def)
  obtain con where con: "at_address (w_heap w) a = Some con" using at[OF assms(2)] by blast
  obtain w1 where 1: "(if http_status con \<noteq> 0 then map_option snd (on_con a (tell_plugins handle_request_done out) w) else Some w) = Some w1"
    "open_client a d w1" "usage w1 = usage w" using open_told[OF assms(1,2), of handle_request_done] assms(2) by (cases "http_status con = 0") (auto simp: valid_def)
  obtain con1 where con1: "at_address (w_heap w1) a = Some con1" using at[OF 1(2)] by blast
  obtain w2 where 2: "(if mode con1 \<noteq> DIRECT then map_option snd (on_con a (tell_plugins handle_connection_close out) w1) else Some w1) = Some w2"
    "open_client a d w2" "usage w2 = usage w" using open_told[OF assms(1) 1(2), of handle_connection_close] 1(2,3) by (cases "mode con1 = DIRECT") (auto simp: valid_def)
  obtain u w3 where 3: "on_con a (reset_con out) w2 = Some (u, w3)" "open_client a d w3" "usage w3 = usage w"
    using open_reset[OF assms(1) 2(2)] 2(3) by (auto simp: valid_def)
  obtain con3 where con3: "at_address (w_heap w3) a = Some con3" using at[OF 3(2)] by blast
  let ?linger = "\<lambda>w con. Some ((), w, con\<lparr>close_timeout_ts := cur_ts (w_srv w), state := CON_STATE_CLOSE\<rparr>)"
  let ?off = "\<lambda>w con. Some ((), w, con\<lparr>keep_alive := 0\<rparr>)"
  let ?w4 = "if keep_alive con3 = 1 \<and> o_shutdown out (w_round w3) then map_option snd (on_con a ?linger w3) else connection_close a w3"
  have "valid ?w4 (\<lambda>w4. valid (on_con a ?off w4) (\<lambda>(_, w5). after_error (usage w) a d w5))"
  proof (cases "keep_alive con3 = 1 \<and> o_shutdown out (w_round w3)")
    case True
    have "valid (on_con a ?linger w3) (\<lambda>(_, w4). open_client a d w4 \<and> usage w4 = usage w3 \<and> valid (at_address (w_heap w4) a) (\<lambda>con. state con = CON_STATE_CLOSE))"
      by (rule valid_weaken[OF on_con_open[where P = "\<lambda>_ con. state con = CON_STATE_CLOSE", OF 3(2)]])
        (auto intro: tidy_con simp: con_wire_def)
    then obtain v w4 where 4: "on_con a ?linger w3 = Some (v, w4)" "open_client a d w4" "usage w4 = usage w"
      "valid (at_address (w_heap w4) a) (\<lambda>con. state con = CON_STATE_CLOSE)" using 3(3) by (auto simp: valid_def)
    obtain con4 where con4: "at_address (w_heap w4) a = Some con4" "state con4 = CON_STATE_CLOSE" using 4(4) by (auto simp: valid_def)
    have "valid (on_con a ?off w4) (\<lambda>(_, w5). open_client a d w5 \<and> usage w5 = usage w4 \<and>
        valid (at_address (w_heap w5) a) (\<lambda>con. state con = CON_STATE_CLOSE \<and> keep_alive con = 0))"
      by (rule valid_weaken[OF on_con_open[where P = "\<lambda>_ con. state con = CON_STATE_CLOSE \<and> keep_alive con = 0", OF 4(2)]])
        (use con4 in \<open>auto intro: tidy_con simp: con_wire_def\<close>)
    then have "valid (on_con a ?off w4) (\<lambda>(_, w5). after_error (usage w) a d w5)"
      by (rule valid_weaken) (use 4(3) in \<open>auto simp: after_error_def\<close>)
    with True 4(1) show ?thesis by simp
  next
    case False
    obtain w4 where 4: "connection_close a w3 = Some w4" "gone_client (in_use (w_srv w3)) a d w4" "cur_ts (w_srv w4) = cur_ts (w_srv w3)"
      using close_gone[OF 3(2)] by (auto simp: valid_def)
    have "valid (on_con a ?off w4) (\<lambda>(_, w5). gone_client (in_use (w_srv w3)) a d w5 \<and> w_srv w5 = w_srv w4 \<and> True)"
      by (rule on_con_gone[OF 4(2), where Q = "\<lambda>_. True"]) (simp add: con_wire_def con_ok_def)
    then have "valid (on_con a ?off w4) (\<lambda>(_, w5). after_error (usage w) a d w5)"
    proof (rule valid_weaken)
      have t: "in_use (w_srv w3) = fst (usage w)" "cur_ts (w_srv w4) = snd (usage w)" using 4(3) 3(3) by (simp_all add: usage_def)
      show "case x of (_, w5) \<Rightarrow> after_error (usage w) a d w5"
        if "case x of (_, w5) \<Rightarrow> gone_client (in_use (w_srv w3)) a d w5 \<and> w_srv w5 = w_srv w4 \<and> True" for x :: "unit \<times> world"
        using that t by (simp add: after_error_def split: prod.splits)
    qed
    with False 4(1) show ?thesis by (simp only: if_False valid_Some)
  qed
  then obtain w4 v w5 where 5: "?w4 = Some w4" "on_con a ?off w4 = Some (v, w5)" "after_error (usage w) a d w5" by (auto simp: valid_def)
  have "step_error out a w = Some (False, upd_srv (\<lambda>srv. srv\<lparr>con_closed := con_closed srv + 1\<rparr>) w5)"
    by (simp only: step_error_def con 1(1) con1 2(1) 3(1) con3 5(1,2) Option.bind.simps prod.case)
  moreover have "after_error (usage w) a d (upd_srv (\<lambda>srv. srv\<lparr>con_closed := con_closed srv + 1\<rparr>) w5)"
    using 5(3) by (simp add: after_error_def open_srv usage_srv gone_srv)
  ultimately show ?thesis by simp
qed

lemma close_ends:
  assumes "open_client a d w" and "at_address (w_heap w) a = Some con" and "keep_alive con = 0" and "cur_ts (w_srv w) > 1"
  shows "valid (step_close out a w) (\<lambda>(again, w'). \<not> again \<and> gone_client (in_use (w_srv w)) a d w' \<and> cur_ts (w_srv w') = cur_ts (w_srv w))"
proof -
  let ?f = "\<lambda>w con. do {
       con \<leftarrow> (if keep_alive con \<noteq> 0 then drain (o_pending out (w_round w)) con else Some (con\<lparr>close_timeout_ts := 0\<rparr>));
       Some ((), w, con) }"
  have "valid (on_con a ?f w) (\<lambda>(_, w'). open_client a d w' \<and> usage w' = usage w \<and> valid (at_address (w_heap w') a) (\<lambda>con. close_timeout_ts con = 0))"
    by (rule valid_weaken[OF on_con_open[where P = "\<lambda>_ con. close_timeout_ts con = 0", OF assms(1)]])
      (use assms(2,3) in \<open>auto intro: tidy_con simp: con_wire_def\<close>)
  then obtain u w1 con1 where 1: "on_con a ?f w = Some (u, w1)" "open_client a d w1" "usage w1 = usage w"
    "at_address (w_heap w1) a = Some con1" "close_timeout_ts con1 = 0" by (auto simp: valid_def)
  have t: "cur_ts (w_srv w1) = cur_ts (w_srv w)" "in_use (w_srv w1) = in_use (w_srv w)" using 1(3) by (simp_all add: usage_def)
  obtain w2 where 2: "connection_close a w1 = Some w2" "gone_client (in_use (w_srv w)) a d w2" "cur_ts (w_srv w2) = cur_ts (w_srv w)"
    using close_gone[OF 1(2)] t by (auto simp: valid_def)
  have "cur_ts (w_srv w1) - close_timeout_ts con1 > 1" using t(1) 1(5) assms(4) by simp
  then have "step_close out a w = Some (False, w2)"
    by (simp only: step_close_def 1(1,4) 2(1) Option.bind.simps prod.case if_True)
  with 2(2,3) show ?thesis by simp
qed

lemma connect_ends:
  assumes "gone_client U a d w"
  shows "valid (on_con a step_connect w) (\<lambda>(again, w'). gone_client U a d w' \<and> w_srv w' = w_srv w \<and> \<not> again)"
proof (rule on_con_gone[OF assms])
  fix con :: connection assume "\<exists>cs. cq_rep (read_queue con) cs"
  then obtain cs where "cq_rep (read_queue con) cs" by blast
  from reset_ok[OF this] obtain gone cq cs' where "chunkqueue_reset (read_queue con) = Some (gone, cq)" "cq_rep cq cs'" by blast
  then show "valid (step_connect w con) (\<lambda>(again, w', con'). w' = w \<and> con_wire con' = con_wire con \<and> ndx con' = ndx con \<and> state con' = state con \<and>
        (con_ok con \<longrightarrow> con_ok con') \<and> (\<exists>cs. cq_rep (read_queue con') cs) \<and> \<not> again)"
    by (auto simp: step_connect_def con_wire_def con_ok_def)
qed

section \<open>The loop\<close>

lemma loop_valid:
  assumes "valid (machine_turn out a w) (\<lambda>(go, w1). if go then valid (machine_loop out a w1) Q else Q w1)"
  shows "valid (machine_loop out a w) Q"
proof -
  from assms obtain go w1 where 1: "machine_turn out a w = Some (go, w1)" "if go then valid (machine_loop out a w1) Q else Q w1" by (auto simp: valid_def)
  then show ?thesis by (subst machine_loop.simps) (cases go; simp)
qed

lemma turn_valid:
  assumes "at_address (w_heap w) a = Some con"
    and "valid (machine_step out a w) (\<lambda>(again, w'). valid (at_address (w_heap w') a) (\<lambda>con'. R (again \<or> state con' \<noteq> state con) (w'\<lparr>w_round := w_round w' + 1\<rparr>)))"
  shows "valid (machine_turn out a w) (\<lambda>(go, w'). R go w')"
  using assms by (auto simp: machine_turn_def valid_def)

lemma gone_loop:
  assumes "gone_client U a d w"
  shows "valid (machine_loop out a w) (\<lambda>w'. gone_client U a d w' \<and> w_srv w' = w_srv w)"
proof -
  obtain con where con: "at_address (w_heap w) a = Some con" "state con = CON_STATE_CONNECT" using assms by (auto simp: gone_client_def valid_def)
  let ?Q = "\<lambda>w'. gone_client U a d w' \<and> w_srv w' = w_srv w"
  have "machine_step out a w = on_con a step_connect w" using con by (simp add: machine_step_def)
  then have "valid (machine_turn out a w) (\<lambda>(go, w'). \<not> go \<and> ?Q w')"
    using connect_ends[OF assms] con(2) by (intro turn_valid[OF con(1)]) (auto simp: gone_client_def valid_def)
  then show ?thesis by (intro loop_valid) (auto elim!: valid_weaken)
qed

lemma after_error_loop:
  assumes "after_error u a d w" and "snd u > 1"
  shows "valid (machine_loop out a w) (gone_client (fst u) a d) \<and> valid (at_address (w_heap w) a) (\<lambda>con. state con \<noteq> CON_STATE_ERROR)"
proof (cases "gone_client (fst u) a d w")
  case True
  then have "valid (at_address (w_heap w) a) (\<lambda>con. state con \<noteq> CON_STATE_ERROR)" by (auto simp: gone_client_def valid_def)
  with valid_weaken[OF gone_loop[OF True]] show ?thesis by blast
next
  case False
  with assms(1) have o: "open_client a d w" "usage w = u" "valid (at_address (w_heap w) a) (\<lambda>con. state con = CON_STATE_CLOSE \<and> keep_alive con = 0)"
    by (auto simp: after_error_def)
  obtain con where con: "at_address (w_heap w) a = Some con" "state con = CON_STATE_CLOSE" "keep_alive con = 0" using o(3) by (auto simp: valid_def)
  have t: "cur_ts (w_srv w) > 1" "in_use (w_srv w) = fst u" using o(2) assms(2) by (auto simp: usage_def)
  have "machine_step out a w = step_close out a w" using con by (simp add: machine_step_def)
  then have "valid (machine_turn out a w) (\<lambda>(go, w'). go \<and> gone_client (fst u) a d w')"
    using close_ends[OF o(1) con(1,3) t(1), of out] con(2) t(2) by (intro turn_valid[OF con(1)]) (auto simp: gone_client_def valid_def)
  then obtain w' where w': "machine_turn out a w = Some (True, w')" "gone_client (fst u) a d w'" by (auto simp: valid_def)
  have "valid (machine_loop out a w') (gone_client (fst u) a d)" by (rule valid_weaken[OF gone_loop[OF w'(2)]]) simp
  then have "valid (machine_loop out a w) (gone_client (fst u) a d)" by (intro loop_valid) (simp add: w'(1))
  with con show ?thesis by simp
qed

lemma error_loop:
  assumes "orderly out" and "open_client a d w" and "at_address (w_heap w) a = Some con" and "state con = CON_STATE_ERROR" and "cur_ts (w_srv w) > 1"
  shows "valid (machine_loop out a w) (gone_client (in_use (w_srv w)) a d)"
proof -
  have t: "snd (usage w) > 1" using assms(5) by (simp add: usage_def)
  obtain w1 where 1: "step_error out a w = Some (False, w1)" "after_error (usage w) a d w1"
    using error_ends[OF assms(1,2)] by (auto simp: valid_def)
  obtain con1 where con1: "at_address (w_heap w1) a = Some con1" "state con1 \<noteq> CON_STATE_ERROR"
    using after_error_loop[OF 1(2) t] by (auto simp: valid_def)
  have "machine_turn out a w = Some (True, w1\<lparr>w_round := w_round w1 + 1\<rparr>)"
    using assms(3,4) 1(1) con1 by (simp add: machine_turn_def machine_step_def)
  moreover have "after_error (usage w) a d (w1\<lparr>w_round := w_round w1 + 1\<rparr>)" using 1(2) by (simp add: after_error_def)
  from after_error_loop[OF this t] have "valid (machine_loop out a (w1\<lparr>w_round := w_round w1 + 1\<rparr>)) (gone_client (in_use (w_srv w)) a d)"
    by (simp add: usage_def)
  ultimately show ?thesis by (intro loop_valid) simp
qed

text \<open>The descriptor of a connection that is gone is not registered again.\<close>

definition closed_client :: "nat set \<Rightarrow> nat \<Rightarrow> int \<Rightarrow> world \<Rightarrow> bool" where
  "closed_client U a d w \<longleftrightarrow> valid (at_address (w_heap w) a) (\<lambda>con. state con = CON_STATE_CONNECT) \<and> pool_inv (w_srv w) (w_heap w) \<and>
     in_use (w_srv w) = U - {a} \<and> fdevent_get_handler (ev (w_srv w)) d = None \<and> watched (ev (w_srv w)) d = None"

lemma register_gone:
  assumes "gone_client U a d w"
  shows "valid (on_con a register_events w) (\<lambda>(_, w'). closed_client U a d w' \<and> valid (at_address (w_heap w') a) con_ok)"
proof -
  obtain con where con: "at_address (w_heap w) a = Some con" "state con = CON_STATE_CONNECT" "con_ok con"
    using assms by (auto simp: gone_client_def valid_def)
  have a: "a < length (w_heap w)" "w_heap w ! a = con" using con(1) by (auto simp: at_address_def split: if_splits)
  obtain idx W where e: "fd con = d" "settable (fd con)" "ev_rep (ev (w_srv w)) idx W" "idx (fd con) = fde_ndx con"
    "\<And>d e. W d = Some e \<Longrightarrow> e = FDEVENT_IN \<or> e = FDEVENT_OUT"
    using assms con(1) unfolding gone_client_def wired_def events_at_def con_wire_def by auto
  obtain i b where b: "fdevent_event_del (ev (w_srv w)) (fde_ndx con) (fd con) = Some (i, b)" "ev_rep b (idx(fd con := i)) (W(fd con := None))"
    using event_del_ok[OF e(3,2)] e(4) by (auto simp: valid_def)
  have "watched b d = (W(fd con := None)) d"
  proof (rule rep_watched[OF b(2)])
    show "x = FDEVENT_IN \<or> x = FDEVENT_OUT" if "(W(fd con := None)) d' = Some x" for d' x
      using e(5)[of d' x] that by (simp split: if_splits)
  qed (use e(1,2) in \<open>simp add: settable_def\<close>)
  then have w: "watched b d = None" using e(1) by simp
  have "fdnode_at b d = None" using event_del_handlers[OF b(1)] assms by (simp add: gone_client_def fdnode_at_def)
  then have h: "fdevent_get_handler b d = None" by (simp add: fdevent_get_handler_def)
  obtain as n where p: "pool_rep (conns (w_srv w)) (w_heap w) as n" using assms by (auto simp: gone_client_def pool_inv_def)
  have "pool_rep (conns (w_srv w)) ((w_heap w)[a := con\<lparr>fde_ndx := i\<rparr>]) as n"
    by (rule pool_update[OF p]) (use con a in \<open>simp_all add: con_ok_def\<close>)
  then have "pool_inv ((w_srv w)\<lparr>ev := b\<rparr>) ((w_heap w)[a := con\<lparr>fde_ndx := i\<rparr>])" by (auto simp: pool_inv_def)
  then have "closed_client U a d (w\<lparr>w_srv := (w_srv w)\<lparr>ev := b\<rparr>, w_heap := (w_heap w)[a := con\<lparr>fde_ndx := i\<rparr>]\<rparr>)"
    using assms con(2) a w h unfolding closed_client_def gone_client_def by (simp add: at_address_def in_use_def)
  moreover have "con_ok (con\<lparr>fde_ndx := i\<rparr>)" using con(3) by (simp add: con_ok_def)
  ultimately show ?thesis
    using a by (simp add: on_con_def con(1) register_events_def events_of_def con(2) b(1) upd_srv_def at_address_def)
qed

lemma error_closed:
  assumes "orderly out" and "open_client a d w" and "at_address (w_heap w) a = Some con" and "state con = CON_STATE_ERROR" and "cur_ts (w_srv w) > 1"
  shows "valid (connection_state_machine out a w) (\<lambda>(r, w'). r = 0 \<and> closed_client (in_use (w_srv w)) a d w' \<and> valid (at_address (w_heap w') a) con_ok)"
proof -
  obtain w1 where 1: "machine_loop out a w = Some w1" "gone_client (in_use (w_srv w)) a d w1" using error_loop[OF assms] by (auto simp: valid_def)
  obtain u w2 where 2: "on_con a register_events w1 = Some (u, w2)" "closed_client (in_use (w_srv w)) a d w2" "valid (at_address (w_heap w2) a) con_ok"
    using register_gone[OF 1(2)] by (auto simp: valid_def)
  then show ?thesis by (simp add: connection_state_machine_def 1(1))
qed

end
