(* ===== verification/ServerLoop.thy ===== *)
theory ServerLoop
  imports ConnClose "HOL-Library.Signed_Division"
begin

text \<open>
  The main loop of \<open>server.c\<close>: once a second every connection is checked for timeouts and traffic limits, the
  listening sockets are switched off and on, waiting connections get descriptors, events are given to their
  handlers and the job list is worked off; and \<open>network_server_handle_fdevent\<close> of \<open>network.c\<close>, which accepts.
  Signals for the log files and the pid file are left out, and so are the hooks of the plugins that are not about
  one connection (a parameter); the products with 0.8 and 0.9 are compared exactly.
\<close>

section \<open>What a round meets\<close>

text \<open>
  The answers of \<open>accept\<close>, of the call that makes its descriptor non-blocking and of the handlers of the plugins
  are numbered by the rounds of the state machine.
\<close>

record round_in =
  l_graceful :: bool
  l_time :: int
  l_trigger :: "server \<Rightarrow> server"
  l_get_ip :: "sock_addr \<Rightarrow> char list"
  l_accept :: "nat \<Rightarrow> (int \<times> sock_addr) option"
  l_fcntl :: "nat \<Rightarrow> bool"
  l_poll :: "(int \<Rightarrow> int \<Rightarrow> int) option"
  l_select :: "(int set \<times> int set \<times> int set) option"
  l_handler :: "nat \<Rightarrow> nat \<Rightarrow> int \<Rightarrow> world \<Rightarrow> handler_t \<times> world"

section \<open>A new second\<close>

text \<open>Whether the connection changed, so that its state machine has to run.\<close>

definition read_timeout :: "server \<Rightarrow> connection \<Rightarrow> bool" where
  "read_timeout srv con \<longleftrightarrow> (state con = CON_STATE_READ \<or> state con = CON_STATE_READ_POST) \<and>
     cur_ts srv - read_idle_ts con >
       int (if request_count con = 1 then max_read_idle (conf con) else max_keep_alive_idle (conf con))"

definition write_timeout :: "server \<Rightarrow> connection \<Rightarrow> bool" where
  "write_timeout srv con \<longleftrightarrow> state con = CON_STATE_WRITE \<and> write_request_ts con \<noteq> 0 \<and>
     cur_ts srv - write_request_ts con > int (max_write_idle (conf con))"

definition slow_enough :: "server \<Rightarrow> connection \<Rightarrow> bool" where
  "slow_enough srv con =
     (let t = cur_ts srv - connection_start con; t_diff = (if t = 0 then 1 else t)
      in kbytes_per_second (conf con) = 0 \<or> bytes_written con sdiv t_diff < int (kbytes_per_second (conf con)) * 1024)"

definition second_check :: "server \<Rightarrow> connection \<Rightarrow> bool \<times> connection" where
  "second_check srv con =
     (let (changed, con) = (if read_timeout srv con then (True, con\<lparr>state := CON_STATE_ERROR\<rparr>) else (False, con));
          (changed, con) = (if write_timeout srv con then (True, con\<lparr>state := CON_STATE_ERROR\<rparr>) else (changed, con))
      in if traffic_limit_reached con \<and> slow_enough srv con then (True, con\<lparr>traffic_limit_reached := False\<rparr>) else (changed, con))"

definition second_con :: "outside \<Rightarrow> nat \<Rightarrow> world \<Rightarrow> world option" where
  "second_con out a w = do {
     (changed, w) \<leftarrow> on_con a (\<lambda>w con. let (changed, con) = second_check (w_srv w) con in Some (changed, w, con)) w;
     w \<leftarrow> (if changed then map_option snd (connection_state_machine out a w) else Some w);
     (_, w) \<leftarrow> on_con a (\<lambda>w con. Some ((), w, con\<lparr>bytes_written_cur_second := 0\<rparr>)) w;
     con \<leftarrow> at_address (w_heap w) a;
     Some (upd_srv (set_global_count 0 con) w) }"

text \<open>The number of connections is read again in each turn, as connections may be closed.\<close>

partial_function (option) second_loop :: "outside \<Rightarrow> nat \<Rightarrow> world \<Rightarrow> world option" where
  "second_loop out i w =
     (if i < con_used (conns (w_srv w)) then do {
        guard (i < length (con_ptr (conns (w_srv w))));
        a \<leftarrow> con_ptr (conns (w_srv w)) ! i;
        w \<leftarrow> second_con out a w;
        second_loop out (i + 1) w }
      else Some w)"

definition new_second :: "outside \<Rightarrow> round_in \<Rightarrow> world \<Rightarrow> world option" where
  "new_second out l w =
     (if l_time l \<noteq> cur_ts (w_srv w) then second_loop out 0 (upd_srv (\<lambda>srv. (l_trigger l srv)\<lparr>cur_ts := l_time l\<rparr>) w) else Some w)"

section \<open>The listening sockets\<close>

fun sockets_add :: "fdevents \<Rightarrow> server_socket list \<Rightarrow> (fdevents \<times> server_socket list) option" where
  "sockets_add b [] = Some (b, [])"
| "sockets_add b (s # ss) = do {
     (i, b) \<leftarrow> fdevent_event_add b (sock_fde_ndx s) (sock_fd s) FDEVENT_IN;
     (b, ss) \<leftarrow> sockets_add b ss;
     Some (b, s\<lparr>sock_fde_ndx := i\<rparr> # ss) }"

fun sockets_del :: "bool \<Rightarrow> fdevents \<Rightarrow> server_socket list \<Rightarrow> (fdevents \<times> server_socket list) option" where
  "sockets_del graceful b [] = Some (b, [])"
| "sockets_del graceful b (s # ss) = do {
     (i, b) \<leftarrow> fdevent_event_del b (sock_fde_ndx s) (sock_fd s);
     let s = s\<lparr>sock_fde_ndx := i\<rparr>;
     (s, b) \<leftarrow> (if graceful then do { b \<leftarrow> fdevent_unregister b (sock_fd s); Some (s\<lparr>sock_fd := -1\<rparr>, b) } else Some (s, b));
     (b, ss) \<leftarrow> sockets_del graceful b ss;
     Some (b, s # ss) }"

definition enough_free :: "server \<Rightarrow> bool" where
  "enough_free srv \<longleftrightarrow> 10 * (cur_fds srv + want_fds srv) < 8 * int (max_fds srv) \<and>
     10 * con_used (conns srv) < 9 * max_conns srv"

definition out_of_fds :: "server \<Rightarrow> bool" where
  "out_of_fds srv \<longleftrightarrow> 10 * (cur_fds srv + want_fds srv) > 9 * int (max_fds srv)"

definition check_sockets :: "bool \<Rightarrow> server \<Rightarrow> server option" where
  "check_sockets graceful srv =
     (if sockets_disabled srv then
        if enough_free srv \<and> \<not> graceful then do {
          (b, ss) \<leftarrow> sockets_add (ev srv) (srv_sockets srv);
          Some (srv\<lparr>ev := b, srv_sockets := ss, sockets_disabled := False\<rparr>) }
        else Some srv
      else if out_of_fds srv \<or> con_used (conns srv) > max_conns srv \<or> graceful then do {
        (b, ss) \<leftarrow> sockets_del graceful (ev srv) (srv_sockets srv);
        Some (srv\<lparr>ev := b, srv_sockets := ss, sockets_disabled := True\<rparr>) }
      else Some srv)"

section \<open>Waiting connections\<close>

fun share_fds :: "nat \<Rightarrow> outside \<Rightarrow> world \<Rightarrow> world option" where
  "share_fds 0 out w = Some w"
| "share_fds (Suc n) out w = do {
     (con, q) \<leftarrow> fdwaitqueue_unshift (fdwaitqueue (w_srv w));
     let w = upd_srv (\<lambda>srv. srv\<lparr>fdwaitqueue := q\<rparr>) w;
     (case con of
       None \<Rightarrow> Some w
     | Some a \<Rightarrow> do {
         (_, w) \<leftarrow> connection_state_machine out a w;
         share_fds n out (upd_srv (\<lambda>srv. srv\<lparr>want_fds := want_fds srv - 1\<rparr>) w) }) }"

definition serve_waiting :: "outside \<Rightarrow> world \<Rightarrow> world option" where
  "serve_waiting out w =
     (if want_fds (w_srv w) \<noteq> 0 then share_fds (nat (int (max_fds (w_srv w)) - cur_fds (w_srv w) - 16)) out w else Some w)"

section \<open>Events\<close>

definition call_joblist :: "outside \<Rightarrow> nat \<Rightarrow> world \<Rightarrow> world option" where
  "call_joblist out a w = map_option snd (on_con a (tell_plugins handle_joblist out) w)"

fun accept_loop :: "nat \<Rightarrow> outside \<Rightarrow> round_in \<Rightarrow> nat \<Rightarrow> world \<Rightarrow> world option" where
  "accept_loop 0 out l s w = Some w"
| "accept_loop (Suc loops) out l s w = do {
     (r, w) \<leftarrow> connection_accept out (l_get_ip l) (l_accept l (w_round w)) (l_fcntl l (w_round w)) s w;
     (case r of
       None \<Rightarrow> Some w
     | Some a \<Rightarrow> do {
         (_, w) \<leftarrow> connection_state_machine out a w;
         w \<leftarrow> call_joblist out a w;
         accept_loop loops out l s w }) }"

definition network_server_handle_fdevent :: "outside \<Rightarrow> round_in \<Rightarrow> nat \<Rightarrow> int \<Rightarrow> world \<Rightarrow> (handler_t \<times> world) option" where
  "network_server_handle_fdevent out l s revents w =
     (if revents \<noteq> FDEVENT_IN then Some (HANDLER_ERROR, w)
      else do { w \<leftarrow> accept_loop 100 out l s w; Some (HANDLER_GO_ON, w) })"

text \<open>The handler that was registered with its context; an error of a handler ends the server.\<close>

definition call_handler :: "outside \<Rightarrow> round_in \<Rightarrow> fdevent_handler \<Rightarrow> nat \<Rightarrow> int \<Rightarrow> world \<Rightarrow> world option" where
  "call_handler out l h ctx revents w = do {
     (r, w) \<leftarrow> (case h of
         Connection_Fdevent \<Rightarrow> connection_handle_fdevent out ctx revents w
       | Server_Fdevent \<Rightarrow> network_server_handle_fdevent out l ctx revents w
       | Plugin_Fdevent p \<Rightarrow> Some (l_handler l p ctx revents w));
     guard (r \<noteq> HANDLER_ERROR);
     Some w }"

fun event_loop :: "nat \<Rightarrow> outside \<Rightarrow> round_in \<Rightarrow> int \<Rightarrow> world \<Rightarrow> world option" where
  "event_loop 0 out l i w = Some w"
| "event_loop (Suc n) out l i w = do {
     i \<leftarrow> fdevent_event_next_fdndx (ev (w_srv w)) i;
     guard (0 \<le> i);
     revents \<leftarrow> fdevent_event_get_revent (ev (w_srv w)) (nat i);
     d \<leftarrow> fdevent_event_get_fd (ev (w_srv w)) (nat i);
     h \<leftarrow> fdevent_get_handler (ev (w_srv w)) d;
     ctx \<leftarrow> fdevent_get_context (ev (w_srv w)) d;
     w \<leftarrow> call_handler out l h ctx revents w;
     event_loop n out l i w }"

definition handle_events :: "outside \<Rightarrow> round_in \<Rightarrow> world \<Rightarrow> world option" where
  "handle_events out l w = do {
     (n, b) \<leftarrow> (if ev_type (ev (w_srv w)) = FDEVENT_HANDLER_POLL then fdevent_poll_poll (ev (w_srv w)) (l_poll l)
       else if ev_type (ev (w_srv w)) = FDEVENT_HANDLER_SELECT then Some (fdevent_select_poll (ev (w_srv w)) (l_select l))
       else None);
     event_loop (nat n) out l (-1) (upd_srv (\<lambda>srv. srv\<lparr>ev := b\<rparr>) w) }"

section \<open>The job list\<close>

partial_function (option) joblist_loop :: "outside \<Rightarrow> nat \<Rightarrow> world \<Rightarrow> world option" where
  "joblist_loop out i w =
     (if i < con_used (joblist (w_srv w)) then do {
        guard (i < length (con_ptr (joblist (w_srv w))));
        a \<leftarrow> con_ptr (joblist (w_srv w)) ! i;
        (_, w) \<leftarrow> connection_state_machine out a w;
        w \<leftarrow> call_joblist out a w;
        (_, w) \<leftarrow> on_con a (\<lambda>w con. Some ((), w, con\<lparr>in_joblist := False\<rparr>)) w;
        joblist_loop out (i + 1) w }
      else Some (upd_srv (\<lambda>srv. srv\<lparr>joblist := (joblist srv)\<lparr>con_used := 0\<rparr>\<rparr>) w))"

section \<open>A round\<close>

text \<open>Whether the server shuts down, and the world after the round.\<close>

definition server_round :: "outside \<Rightarrow> round_in \<Rightarrow> world \<Rightarrow> (bool \<times> world) option" where
  "server_round out l w = do {
     w \<leftarrow> new_second out l w;
     srv \<leftarrow> check_sockets (l_graceful l) (w_srv w);
     let w = w\<lparr>w_srv := srv\<rparr>;
     let down = (l_graceful l \<and> con_used (conns (w_srv w)) = 0);
     w \<leftarrow> serve_waiting out w;
     w \<leftarrow> handle_events out l w;
     w \<leftarrow> joblist_loop out 0 w;
     Some (down, w) }"

fun main_loop :: "outside \<Rightarrow> round_in list \<Rightarrow> world \<Rightarrow> world option" where
  "main_loop out [] w = Some w"
| "main_loop out (l # ls) w = do { (down, w) \<leftarrow> server_round out l w; if down then Some w else main_loop out ls w }"

section \<open>Idle clients\<close>

lemma timed_out:
  assumes "read_timeout srv con \<or> write_timeout srv con"
  shows "fst (second_check srv con)" "state (snd (second_check srv con)) = CON_STATE_ERROR"
  using assms by (auto simp: second_check_def Let_def write_timeout_def)

lemma check_tidy: "tidy srv con srv (snd (second_check srv con))"
proof -
  have "con_wire (snd (second_check srv con)) = con_wire con \<and> ndx (snd (second_check srv con)) = ndx con \<and>
      well_kept (snd (second_check srv con)) = well_kept con"
    by (simp add: second_check_def Let_def con_wire_def)
  then show ?thesis by (intro tidy_con) simp_all
qed

lemma second_con_ok:
  assumes "orderly out" and "open_client a d w" and "at_address (w_heap w) a = Some con"
    and "read_timeout (w_srv w) con \<or> write_timeout (w_srv w) con" and "cur_ts (w_srv w) > 1"
  shows "valid (second_con out a w) (closed_client (in_use (w_srv w)) a d)"
proof -
  let ?check = "\<lambda>w con. let (changed, con) = second_check (w_srv w) con in Some (changed, w, con)"
  have "valid (on_con a ?check w) (\<lambda>(r, w1). open_client a d w1 \<and> usage w1 = usage w \<and>
      valid (at_address (w_heap w1) a) (\<lambda>con'. r \<and> state con' = CON_STATE_ERROR))"
    by (rule on_con_open[OF assms(2)]) (use assms(3) timed_out[OF assms(4)] check_tidy in \<open>auto simp: case_prod_unfold Let_def\<close>)
  then obtain w1 con1 where 1: "on_con a ?check w = Some (True, w1)" "open_client a d w1" "usage w1 = usage w" "at_address (w_heap w1) a = Some con1"
    "state con1 = CON_STATE_ERROR" by (auto simp: valid_def)
  have t: "cur_ts (w_srv w1) > 1" "in_use (w_srv w1) = in_use (w_srv w)" using 1(3) assms(5) by (simp_all add: usage_def)
  obtain w2 con2 where 2: "connection_state_machine out a w1 = Some (0, w2)" "closed_client (in_use (w_srv w)) a d w2"
    "at_address (w_heap w2) a = Some con2" "con_ok con2" using error_closed[OF assms(1) 1(2,4,5) t(1)] t(2) by (auto simp: valid_def)
  let ?c = "con2\<lparr>bytes_written_cur_second := 0\<rparr>"
  let ?w = "upd_srv (set_global_count 0 ?c) (w2\<lparr>w_heap := (w_heap w2)[a := ?c]\<rparr>)"
  have a: "a < length (w_heap w2)" "w_heap w2 ! a = con2" using 2(3) by (auto simp: at_address_def split: if_splits)
  have "second_con out a w = Some ?w" using a 1(1) 2(1,3) by (simp add: second_con_def on_con_def at_address_def)
  moreover obtain as n where "pool_rep (conns (w_srv w2)) (w_heap w2) as n" using 2(2) by (auto simp: closed_client_def pool_inv_def)
  then have "pool_rep (conns (w_srv w2)) ((w_heap w2)[a := ?c]) as n" by (rule pool_update) (use 2(4) a in \<open>simp_all add: con_ok_def\<close>)
  then have "closed_client (in_use (w_srv w)) a d ?w"
    using 2(2) a by (auto simp: closed_client_def pool_inv_def set_global_count_def in_use_def at_address_def)
  ultimately show ?thesis by simp
qed

section \<open>The sockets follow the flag\<close>

definition sockets_known :: "(int \<Rightarrow> int) \<Rightarrow> server_socket list \<Rightarrow> bool" where
  "sockets_known idx ss \<longleftrightarrow> (\<forall>s \<in> set ss. settable (sock_fd s) \<and> idx (sock_fd s) = sock_fde_ndx s) \<and> distinct (map sock_fd ss)"

lemma sockets_known_upd:
  assumes "sockets_known idx (s # ss)"
  shows "sockets_known (idx(sock_fd s := i)) ss"
proof -
  have "sock_fd t \<noteq> sock_fd s" if "t \<in> set ss" for t using assms that by (auto simp: sockets_known_def image_iff)
  with assms show ?thesis by (simp add: sockets_known_def)
qed

text \<open>What the loops over the sockets leave in the backend and in the sockets.\<close>

definition switched :: "int option \<Rightarrow> (int \<Rightarrow> int) \<Rightarrow> (int \<Rightarrow> int option) \<Rightarrow> server_socket list \<Rightarrow> fdevents \<times> server_socket list \<Rightarrow> bool" where
  "switched e idx W ss = (\<lambda>(b', ss'). \<exists>idx'. ev_rep b' idx' (\<lambda>d. if d \<in> sock_fd ` set ss then e else W d) \<and> sockets_known idx' ss' \<and>
     map sock_fd ss' = map sock_fd ss \<and> (\<forall>d. d \<notin> sock_fd ` set ss \<longrightarrow> idx' d = idx d))"

lemma switched_Cons:
  assumes "switched e (idx(sock_fd s := i)) (W(sock_fd s := e)) ss (b', ss')" and "sockets_known idx (s # ss)"
  shows "switched e idx W (s # ss) (b', s\<lparr>sock_fde_ndx := i\<rparr> # ss')"
proof -
  from assms(1) obtain idx' where 1: "ev_rep b' idx' (\<lambda>d. if d \<in> sock_fd ` set ss then e else (W(sock_fd s := e)) d)" "sockets_known idx' ss'"
    "map sock_fd ss' = map sock_fd ss" "\<forall>d. d \<notin> sock_fd ` set ss \<longrightarrow> idx' d = (idx(sock_fd s := i)) d" by (auto simp: switched_def)
  have n: "sock_fd s \<notin> sock_fd ` set ss" using assms(2) by (auto simp: sockets_known_def)
  have w: "(\<lambda>d. if d \<in> sock_fd ` set ss then e else (W(sock_fd s := e)) d) = (\<lambda>d. if d \<in> sock_fd ` set (s # ss) then e else W d)"
    by auto
  have "sock_fd s \<notin> set (map sock_fd ss')" unfolding 1(3) using n by simp
  then have "sockets_known idx' (s\<lparr>sock_fde_ndx := i\<rparr> # ss')" using 1(2,4) n assms(2) by (simp add: sockets_known_def)
  moreover have "\<forall>d. d \<notin> sock_fd ` set (s # ss) \<longrightarrow> idx' d = idx d" using 1(4) by auto
  moreover have "map sock_fd (s\<lparr>sock_fde_ndx := i\<rparr> # ss') = map sock_fd (s # ss)" using 1(3) by simp
  ultimately show ?thesis using 1(1)[unfolded w] unfolding switched_def prod.case by blast
qed

lemma sockets_add_ok:
  assumes "ev_rep b idx W" and "sockets_known idx ss"
  shows "valid (sockets_add b ss) (switched (Some FDEVENT_IN) idx W ss)"
  using assms
proof (induction ss arbitrary: b idx W)
  case Nil
  then show ?case by (auto simp: switched_def)
next
  case (Cons s ss)
  have s: "settable (sock_fd s)" "idx (sock_fd s) = sock_fde_ndx s" using Cons.prems(2) by (simp_all add: sockets_known_def)
  obtain i b1 where 1: "fdevent_event_add b (sock_fde_ndx s) (sock_fd s) FDEVENT_IN = Some (i, b1)" "ev_rep b1 (idx(sock_fd s := i)) (W(sock_fd s \<mapsto> FDEVENT_IN))"
    using event_add_ok[OF Cons.prems(1) s(1), of FDEVENT_IN] s(2) by (auto simp: valid_def)
  obtain r where r: "sockets_add b1 ss = Some r" "switched (Some FDEVENT_IN) (idx(sock_fd s := i)) (W(sock_fd s \<mapsto> FDEVENT_IN)) ss r"
    using Cons.IH[OF 1(2) sockets_known_upd[OF Cons.prems(2)]] unfolding valid_def by blast
  obtain b2 ss2 where 2: "r = (b2, ss2)" by (cases r)
  from switched_Cons[OF r(2)[unfolded 2] Cons.prems(2)] 1(1) r(1) 2 show ?case by simp
qed

lemma sockets_del_ok:
  assumes "ev_rep b idx W" and "sockets_known idx ss"
  shows "valid (sockets_del False b ss) (switched None idx W ss)"
  using assms
proof (induction ss arbitrary: b idx W)
  case Nil
  then show ?case by (auto simp: switched_def)
next
  case (Cons s ss)
  have s: "settable (sock_fd s)" "idx (sock_fd s) = sock_fde_ndx s" using Cons.prems(2) by (simp_all add: sockets_known_def)
  obtain i b1 where 1: "fdevent_event_del b (sock_fde_ndx s) (sock_fd s) = Some (i, b1)" "ev_rep b1 (idx(sock_fd s := i)) (W(sock_fd s := None))"
    using event_del_ok[OF Cons.prems(1) s(1)] s(2) by (auto simp: valid_def)
  obtain r where r: "sockets_del False b1 ss = Some r" "switched None (idx(sock_fd s := i)) (W(sock_fd s := None)) ss r"
    using Cons.IH[OF 1(2) sockets_known_upd[OF Cons.prems(2)]] unfolding valid_def by blast
  obtain b2 ss2 where 2: "r = (b2, ss2)" by (cases r)
  from switched_Cons[OF r(2)[unfolded 2] Cons.prems(2)] 1(1) r(1) 2 show ?case by (simp add: Let_def)
qed

text \<open>Every listening socket is watched exactly while the sockets are not disabled.\<close>

definition listening :: "server \<Rightarrow> bool" where
  "listening srv \<longleftrightarrow> (\<exists>idx W. ev_rep (ev srv) idx W \<and> sockets_known idx (srv_sockets srv) \<and>
     (\<forall>d e. W d = Some e \<longrightarrow> e = FDEVENT_IN \<or> e = FDEVENT_OUT) \<and>
     (\<forall>s \<in> set (srv_sockets srv). W (sock_fd s) = (if sockets_disabled srv then None else Some FDEVENT_IN)))"

lemma check_sockets_ok:
  assumes "listening srv"
  shows "valid (check_sockets False srv) (\<lambda>srv'. listening srv' \<and> map sock_fd (srv_sockets srv') = map sock_fd (srv_sockets srv) \<and>
     (\<forall>d \<ge> 0. d \<notin> sock_fd ` set (srv_sockets srv) \<longrightarrow> watched (ev srv') d = watched (ev srv) d) \<and>
     sockets_disabled srv' = (if sockets_disabled srv then \<not> enough_free srv else out_of_fds srv \<or> con_used (conns srv) > max_conns srv))"
proof -
  obtain idx W where l: "ev_rep (ev srv) idx W" "sockets_known idx (srv_sockets srv)" "\<And>d e. W d = Some e \<Longrightarrow> e = FDEVENT_IN \<or> e = FDEVENT_OUT"
    "\<forall>s \<in> set (srv_sockets srv). W (sock_fd s) = (if sockets_disabled srv then None else Some FDEVENT_IN)" using assms by (auto simp: listening_def)
  have after: "listening (srv\<lparr>ev := b, srv_sockets := ss, sockets_disabled := dis\<rparr>) \<and> map sock_fd ss = map sock_fd (srv_sockets srv) \<and>
      (\<forall>d \<ge> 0. d \<notin> sock_fd ` set (srv_sockets srv) \<longrightarrow> watched b d = watched (ev srv) d)"
    if sw: "switched (if dis then None else Some FDEVENT_IN) idx W (srv_sockets srv) (b, ss)" for b ss dis
  proof -
    let ?e = "if dis then None else Some FDEVENT_IN" and ?F = "sock_fd ` set (srv_sockets srv)"
    let ?W = "\<lambda>d. if d \<in> ?F then ?e else W d"
    obtain idx' where 1: "ev_rep b idx' ?W" "sockets_known idx' ss" "map sock_fd ss = map sock_fd (srv_sockets srv)" using sw by (auto simp: switched_def)
    have F: "sock_fd ` set ss = ?F" using arg_cong[OF 1(3), of set] by simp
    have io: "?W d = Some e \<Longrightarrow> e = FDEVENT_IN \<or> e = FDEVENT_OUT" for d e using l(3)[of d e] by (auto split: if_splits)
    have "watched b d = watched (ev srv) d" if "0 \<le> d" "d \<notin> ?F" for d
      using rep_watched[OF 1(1) that(1) io] rep_watched[OF l(1) that(1) l(3)] that(2) by simp
    moreover have "\<forall>s \<in> set ss. ?W (sock_fd s) = ?e" using F by auto
    then have "listening (srv\<lparr>ev := b, srv_sockets := ss, sockets_disabled := dis\<rparr>)"
      unfolding listening_def using 1(1,2) io by (intro exI[of _ idx'] exI[of _ ?W]) simp
    ultimately show ?thesis using 1(3) by blast
  qed
  show ?thesis
  proof (cases "sockets_disabled srv")
    case True
    show ?thesis
    proof (cases "enough_free srv")
      case free: True
      obtain b ss where "sockets_add (ev srv) (srv_sockets srv) = Some (b, ss)" "switched (Some FDEVENT_IN) idx W (srv_sockets srv) (b, ss)"
        using sockets_add_ok[OF l(1,2)] by (auto simp: valid_def)
      with after[of False b ss] True free show ?thesis by (simp add: check_sockets_def)
    qed (use True assms in \<open>simp add: check_sockets_def\<close>)
  next
    case False
    show ?thesis
    proof (cases "out_of_fds srv \<or> con_used (conns srv) > max_conns srv")
      case full: True
      obtain b ss where "sockets_del False (ev srv) (srv_sockets srv) = Some (b, ss)" "switched None idx W (srv_sockets srv) (b, ss)"
        using sockets_del_ok[OF l(1,2)] by (auto simp: valid_def)
      with after[of True b ss] False full show ?thesis by (simp add: check_sockets_def)
    qed (use False assms in \<open>simp add: check_sockets_def\<close>)
  qed
qed


section \<open>Properties\<close>

text \<open>
  C36: a client that is idle for longer than the limit, or to which nothing could be written for longer than the limit, is
  disconnected when the check of a new second reaches its connection: the check returns, and the connection is out of the
  pool, in the state \<open>CON_STATE_CONNECT\<close>, with neither handler nor events left for its descriptor.  This needs a connection that
  is in use and registered in order, hooks for the end of a request and of a connection that keep the pool, the clock and
  the registration of the connection, and a clock later than the first second of 1970.
\<close>

theorem idle_connection_closed:
  assumes "orderly out" and "open_client a d w" and "at_address (w_heap w) a = Some con"
    and "read_timeout (w_srv w) con \<or> write_timeout (w_srv w) con" and "cur_ts (w_srv w) > 1"
  shows "valid (second_con out a w) (\<lambda>w'. valid (at_address (w_heap w') a) (\<lambda>con'. state con' = CON_STATE_CONNECT) \<and>
     pool_inv (w_srv w') (w_heap w') \<and> in_use (w_srv w') = in_use (w_srv w) - {a} \<and>
     fdevent_get_handler (ev (w_srv w')) d = None \<and> watched (ev (w_srv w')) d = None)"
  by (rule valid_weaken[OF second_con_ok[OF assms]]) (simp add: closed_client_def)

text \<open>A client that has sent nothing for a thousand seconds.\<close>

definition idle_con :: connection where
  "idle_con = accepted_con\<lparr>state := CON_STATE_READ, ndx := 0\<rparr>"

definition idle_client :: world where
  "idle_client = accepted_world\<lparr>w_heap := [idle_con], w_srv := sample_server\<lparr>cur_ts := 1000, ev := the (fdevent_init 8 FDEVENT_HANDLER_POLL),
     conns := \<lparr>con_ptr = [Some 0], con_size = 1, con_used = 1\<rparr>\<rparr>\<rparr>"

lemma idle_client_open: "open_client 0 5 idle_client"
proof -
  obtain b where b: "fdevent_init 8 FDEVENT_HANDLER_POLL = Some b" "length (fdarray b) = 8" by (simp add: fdevent_init_def Let_def)
  have k: "con_ok idle_con" "\<exists>cs. cq_rep (read_queue idle_con) cs"
    using con_ok_init[of sample_server] init_rep by (auto simp: idle_con_def accepted_con_def con_ok_def connection_init_def config_setup_connection_def)
  have f: "fd idle_con = 5" "fde_ndx idle_con = -1" "ndx idle_con = 0"
    by (simp_all add: idle_con_def accepted_con_def connection_init_def config_setup_connection_def)
  have "events_at b (5, -1)" using fdevent_init_rep[OF b(1)] by (auto simp: events_at_def settable_def FD_SETSIZE_def intro!: exI[of _ "\<lambda>_. -1"])
  then show ?thesis
    using k f b by (auto simp: open_client_def well_kept_def wired_def con_wire_def at_address_def idle_client_def pool_inv_def pool_rep_def in_use_def
        intro!: exI[of _ "[0]"] exI[of _ 1])
qed

theorem idle_connection_closed_witness:
  "valid (second_con quiet_client 0 idle_client) (\<lambda>w'. in_use (w_srv w') = {} \<and> watched (ev (w_srv w')) 5 = None)"
proof -
  have o: "orderly quiet_client" by (simp add: orderly_def quiet_client_def found_env_def tidy_con)
  have t: "read_timeout (w_srv idle_client) idle_con"
    by (simp add: read_timeout_def idle_client_def idle_con_def accepted_con_def connection_init_def config_setup_connection_def sample_server_def)
  have a: "at_address (w_heap idle_client) 0 = Some idle_con" by (simp add: at_address_def idle_client_def)
  have c: "cur_ts (w_srv idle_client) > 1" "in_use (w_srv idle_client) = {0}" by (simp_all add: idle_client_def in_use_def)
  from idle_connection_closed[OF o idle_client_open a _ c(1)] t c(2) show ?thesis by (auto elim!: valid_weaken)
qed

text \<open>
  C37: the listening sockets are watched exactly while they are not marked as disabled; they are disabled above nine tenths of
  the descriptors or above the limit of connections and enabled again below eight and nine tenths, and no other
  descriptor is touched.  This is what happens while the server is not shutting down gracefully; then the sockets are
  closed for good (lemma \<open>graceful_closes\<close>).
\<close>

theorem sockets_follow_flag:
  assumes "listening srv"
  shows "valid (check_sockets False srv) (\<lambda>srv'. listening srv' \<and> map sock_fd (srv_sockets srv') = map sock_fd (srv_sockets srv) \<and>
     (\<forall>d \<ge> 0. d \<notin> sock_fd ` set (srv_sockets srv) \<longrightarrow> watched (ev srv') d = watched (ev srv) d) \<and>
     sockets_disabled srv' = (if sockets_disabled srv then \<not> enough_free srv else out_of_fds srv \<or> con_used (conns srv) > max_conns srv))"
  by (rule check_sockets_ok[OF assms])

text \<open>A server that ran out of descriptors.\<close>

definition disabled_server :: server where
  "disabled_server = sample_server\<lparr>sockets_disabled := True\<rparr>"

theorem sockets_follow_flag_witness: "valid (check_sockets False disabled_server) (\<lambda>srv'. \<not> sockets_disabled srv' \<and> listening srv')"
proof -
  have e: "ev_rep (ev disabled_server) (\<lambda>_. -1) (\<lambda>_. None)"
    unfolding disabled_server_def sample_server_def
    by (simp add: fdevent_init_rep[of 1025 FDEVENT_HANDLER_POLL] fdevent_init_def Let_def)
  have s: "srv_sockets disabled_server = [\<lparr>sock_address = Inet 0 80, sock_fd = 4, sock_fde_ndx = -1, sock_is_ssl = False, srv_token = []\<rparr>]"
    "sockets_disabled disabled_server" by (simp_all add: disabled_server_def sample_server_def)
  have "listening disabled_server"
    unfolding listening_def using e s
    by (intro exI[of _ "\<lambda>_. -1"] exI[of _ "\<lambda>_. None"]) (simp add: sockets_known_def settable_def FD_SETSIZE_def)
  from sockets_follow_flag[OF this] show ?thesis
    by (rule valid_weaken) (simp add: disabled_server_def sample_server_def enough_free_def no_connections_def)
qed

section \<open>Deviations\<close>

text \<open>
  \<open>connection_accept\<close> never goes above the limit of connections, so the limit never disables the sockets: a server that has
  all its connections keeps being told of clients it does not accept.
\<close>

lemma limit_never_disables:
  assumes "con_used (conns srv) \<le> max_conns srv" and "\<not> out_of_fds srv" and "\<not> sockets_disabled srv"
  shows "check_sockets False srv = Some srv"
  using assms by (simp add: check_sockets_def)

text \<open>Anything but plain input on a listening socket ends the server.\<close>

lemma strange_event_ends_server: "revents \<noteq> FDEVENT_IN \<Longrightarrow> call_handler out l Server_Fdevent s revents w = None"
  by (simp add: call_handler_def network_server_handle_fdevent_def)

section \<open>Shutting down\<close>

lemma sockets_closed:
  assumes "ev_rep b idx W" and "sockets_known idx ss" and "\<forall>s \<in> set ss. nat (sock_fd s) < length (fdarray b)"
  shows "valid (sockets_del True b ss) (\<lambda>(b', ss'). (\<exists>idx'. ev_rep b' idx' (\<lambda>d. if d \<in> sock_fd ` set ss then None else W d)) \<and>
     (\<forall>s \<in> set ss'. sock_fd s = -1))"
  using assms
proof (induction ss arbitrary: b idx W)
  case Nil
  then show ?case by auto
next
  case (Cons s ss)
  have s: "settable (sock_fd s)" "idx (sock_fd s) = sock_fde_ndx s" using Cons.prems(2) by (simp_all add: sockets_known_def)
  obtain i b1 where 1: "fdevent_event_del b (sock_fde_ndx s) (sock_fd s) = Some (i, b1)" "ev_rep b1 (idx(sock_fd s := i)) (W(sock_fd s := None))"
    using event_del_ok[OF Cons.prems(1) s(1)] s(2) by (auto simp: valid_def)
  have f: "fdarray b1 = fdarray b" by (rule event_del_handlers[OF 1(1)])
  let ?b = "b1\<lparr>fdarray := (fdarray b1)[nat (sock_fd s) := None]\<rparr>"
  have u: "fdevent_unregister b1 (sock_fd s) = Some ?b" using s(1) f Cons.prems(3) by (simp add: fdevent_unregister_def settable_def)
  have e: "ev_rep ?b (idx(sock_fd s := i)) (W(sock_fd s := None))" using 1(2) by (simp add: ev_rep_handlers)
  obtain b2 ss2 idx2 where 2: "sockets_del True ?b ss = Some (b2, ss2)" "\<forall>s \<in> set ss2. sock_fd s = -1"
    "ev_rep b2 idx2 (\<lambda>d. if d \<in> sock_fd ` set ss then None else (W(sock_fd s := None)) d)"
    using Cons.IH[OF e sockets_known_upd[OF Cons.prems(2)]] Cons.prems(3) f by (auto simp: valid_def)
  have "(\<lambda>d. if d \<in> sock_fd ` set ss then None else (W(sock_fd s := None)) d) = (\<lambda>d. if d \<in> sock_fd ` set (s # ss) then None else W d)" by auto
  with 2(3) have "ev_rep b2 idx2 (\<lambda>d. if d \<in> sock_fd ` set (s # ss) then None else W d)" by simp
  with 1(1) u 2(1,2) show ?case by (auto simp: Let_def)
qed

text \<open>A server that is told to shut down gracefully closes its listening sockets and never opens them again.\<close>

lemma graceful_closes:
  assumes "listening srv" and "\<not> sockets_disabled srv" and "\<forall>s \<in> set (srv_sockets srv). nat (sock_fd s) < length (fdarray (ev srv))"
  shows "valid (check_sockets True srv) (\<lambda>srv'. sockets_disabled srv' \<and> (\<forall>s \<in> set (srv_sockets srv'). sock_fd s = -1) \<and>
     (\<forall>s \<in> set (srv_sockets srv). watched (ev srv') (sock_fd s) = None) \<and> check_sockets True srv' = Some srv')"
proof -
  obtain idx W where l: "ev_rep (ev srv) idx W" "sockets_known idx (srv_sockets srv)" "\<And>d e. W d = Some e \<Longrightarrow> e = FDEVENT_IN \<or> e = FDEVENT_OUT"
    using assms(1) by (auto simp: listening_def)
  let ?W = "\<lambda>d. if d \<in> sock_fd ` set (srv_sockets srv) then None else W d"
  obtain b ss idx' where 1: "sockets_del True (ev srv) (srv_sockets srv) = Some (b, ss)" "ev_rep b idx' ?W" "\<forall>s \<in> set ss. sock_fd s = -1"
    using sockets_closed[OF l(1,2) assms(3)] by (auto simp: valid_def)
  have "watched b (sock_fd s) = None" if "s \<in> set (srv_sockets srv)" for s
  proof -
    have "watched b (sock_fd s) = ?W (sock_fd s)"
      by (rule rep_watched[OF 1(2)]) (use l(2,3) that in \<open>auto simp: sockets_known_def settable_def split: if_splits\<close>)
    with that show ?thesis by simp
  qed
  with 1(1,3) assms(2) show ?thesis by (simp add: check_sockets_def)
qed

end
