(* ===== verification/StaticFile.thy ===== *)
theory StaticFile
  imports WritePrepare
begin

text \<open>
  \<open>mod_staticfile.c\<close>: sending a file, whole or the ranges a client asks for.  The options of the module that hold
  for the request are given; the file is given by what the stat cache knows of it.
\<close>

section \<open>Ranges\<close>

text \<open>One range of a \<open>Range\<close> header: where it begins and ends, whether another may follow, and the text behind it;
  or an error with the status it sets.\<close>

datatype range_spec = Good int int bool "char list" | Bad "int option"

definition range_ended :: "char list \<Rightarrow> nat \<Rightarrow> int \<Rightarrow> int \<Rightarrow> range_spec" where
  "range_ended s e a b =
     (if e = length s then Good a b False []
      else if s ! e = CHR '','' then Good a b True (drop (e + 1) s)
      else Bad None)"

definition one_range :: "int \<Rightarrow> char list \<Rightarrow> nat \<Rightarrow> range_spec" where
  "one_range sz s dash =
     (if dash = 0 then
        let (le, err) = c_strtol s in if le = 0 then Bad (Some 416) else range_ended s err (sz + le) (sz - 1)
      else if dash + 1 = length s \<or> s ! (dash + 1) = CHR '','' then
        let (la, err) = c_strtol s in if err = dash then range_ended s (err + 1) la (sz - 1) else Bad None
      else
        let (la, err) = c_strtol s in
        if err = dash then
          let (le, err) = c_strtol (drop (dash + 1) s)
          in if la > le then Bad None else range_ended s (dash + 1 + err) la le
        else Bad None)"

record range_state =
  rs_queue :: chunkqueue
  rs_length :: int
  rs_start :: int
  rs_end :: int
  rs_multi :: bool

definition boundary :: string where "boundary = ''fkj49sn38dcn3''"

text \<open>The header of a part of a multipart response.\<close>

definition part_header :: "int \<Rightarrow> char list option \<Rightarrow> int \<Rightarrow> int \<Rightarrow> char list" where
  "part_header sz content_type a b =
     [CR, LF] @ ''--'' @ boundary @ [CR, LF] @ ''Content-Range: bytes '' @ decimal a @ ''-'' @ decimal b @ ''/'' @ decimal sz @
     [CR, LF] @ ''Content-Type: '' @ (case content_type of None \<Rightarrow> [] | Some t \<Rightarrow> butlast t) @ [CR, LF, CR, LF]"

definition append_text :: "char list \<Rightarrow> range_state \<Rightarrow> range_state option" where
  "append_text s st = do {
     (a, cq) \<leftarrow> chunkqueue_get_append_buffer (rs_queue st);
     cq \<leftarrow> put_mem cq a (terminated s);
     Some (st\<lparr>rs_queue := cq, rs_length := rs_length st + int (length s)\<rparr>) }"

definition append_range :: "int \<Rightarrow> char list \<Rightarrow> char list option \<Rightarrow> range_state \<Rightarrow> range_state option" where
  "append_range sz path content_type st = do {
     st \<leftarrow> (if rs_multi st then append_text (part_header sz content_type (rs_start st) (rs_end st)) st else Some st);
     let len = rs_end st - rs_start st + 1;
     (_, cq) \<leftarrow> chunkqueue_append_file (rs_queue st) path (rs_start st) len;
     Some (st\<lparr>rs_queue := cq, rs_length := rs_length st + len\<rparr>) }"

text \<open>The range is cut to the file.\<close>

definition enter_range :: "int \<Rightarrow> int \<Rightarrow> int \<Rightarrow> bool \<Rightarrow> range_state \<Rightarrow> range_state" where
  "enter_range sz a b again st =
     st\<lparr>rs_start := (if a < 0 then 0 else a), rs_end := (if b > sz - 1 then sz - 1 else b), rs_multi := rs_multi st \<or> again\<rparr>"

lemma range_ended_shorter: "range_ended s e a b = Good a' b' m rest \<Longrightarrow> 0 < length s \<Longrightarrow> length rest < length s"
  by (auto simp: range_ended_def split: if_splits)

lemma one_range_shorter: "one_range sz s k = Good a b m rest \<Longrightarrow> k < length s \<Longrightarrow> length rest < length s"
  by (auto simp: one_range_def Let_def split: if_splits prod.splits dest!: range_ended_shorter)

text \<open>The result is an error with its status, or none.\<close>

function ranges :: "int \<Rightarrow> char list \<Rightarrow> char list option \<Rightarrow> char list \<Rightarrow> range_state \<Rightarrow> (int option option \<times> range_state) option" where
  "ranges sz path content_type s st = (case index_of (CHR ''-'') s of
       None \<Rightarrow> Some (None, st)
     | Some dash \<Rightarrow> (case one_range sz s dash of
         Bad status \<Rightarrow> Some (Some status, st)
       | Good a b again rest \<Rightarrow>
           let st' = enter_range sz a b again st in
           if rs_start st' > sz - 1 then Some (Some (Some 416), st')
           else do { st' \<leftarrow> append_range sz path content_type st'; ranges sz path content_type rest st' }))"
  by pat_completeness auto

termination
  by (relation "measure (\<lambda>(sz, path, ct, s, st). length s)") (auto dest: one_range_shorter index_of_Some)

declare ranges.simps [simp del]

definition http_response_parse_range :: "int \<Rightarrow> connection \<Rightarrow> (int \<times> connection) option" where
  "http_response_parse_range sz con = do {
     ds \<leftarrow> array_get_element (resp_headers (response con)) ''Content-Type'';
     content_type \<leftarrow> (case ds of None \<Rightarrow> Some None | Some ds \<Rightarrow> map_option Some (string_value ds));
     s \<leftarrow> deref_string (headers (req con)) (http_range (req con));
     (error, st) \<leftarrow> ranges sz (phys_path (physical con)) content_type s
       \<lparr>rs_queue = write_queue con, rs_length = 0, rs_start = 0, rs_end = sz - 1, rs_multi = False\<rparr>;
     case error of
       Some status \<Rightarrow> Some (-1, upd_resp (\<lambda>r. r\<lparr>resp_content_length := rs_length st\<rparr>)
         (con\<lparr>write_queue := rs_queue st, http_status := (case status of None \<Rightarrow> http_status con | Some i \<Rightarrow> i)\<rparr>))
     | None \<Rightarrow>
         if rs_multi st then do {
           st \<leftarrow> append_text ([CR, LF] @ ''--'' @ boundary @ ''--'' @ [CR, LF]) st;
           let con = upd_resp (\<lambda>r. r\<lparr>resp_content_length := rs_length st\<rparr>) (con\<lparr>write_queue := rs_queue st\<rparr>);
           con \<leftarrow> response_header_overwrite ''Content-Type'' (Some (''multipart/byteranges; boundary='' @ boundary)) con;
           Some (0, con) }
         else do {
           let con = upd_resp (\<lambda>r. r\<lparr>resp_content_length := rs_length st\<rparr>) (con\<lparr>write_queue := rs_queue st\<rparr>);
           con \<leftarrow> response_header_insert ''Content-Range''
             (Some (''bytes '' @ decimal (rs_start st) @ ''-'' @ decimal (rs_end st) @ ''/'' @ decimal sz)) con;
           Some (0, con) } }"

section \<open>The file\<close>

record static_conf =
  exclude_ext :: "char list list"
  etags_used :: bool

record static_file =
  sf_stat :: stat_entry
  sf_mtime :: int
  sf_etag :: "char list"

definition excluded :: "char list \<Rightarrow> char list \<Rightarrow> bool" where
  "excluded path ext \<longleftrightarrow> ext \<noteq> [] \<and> length ext \<le> length path \<and> drop (length path - length ext) (butlast path) = butlast ext"

definition any_etag_flag :: "connection \<Rightarrow> bool" where
  "any_etag_flag con \<longleftrightarrow> ETAG_USE_INODE (con_etag_flags con) \<or> ETAG_USE_MTIME (con_etag_flags con) \<or> ETAG_USE_SIZE (con_etag_flags con)"

text \<open>The content type; whether the response may be cached.\<close>

definition static_type :: "static_file \<Rightarrow> connection \<Rightarrow> (bool \<times> connection) option" where
  "static_type f con = do {
     ds \<leftarrow> array_get_element (resp_headers (response con)) ''Content-Type'';
     if ds \<noteq> None then Some (True, con)
     else case sce_content_type (sf_stat f) of
       Some (c # t) \<Rightarrow> do { con \<leftarrow> response_header_overwrite ''Content-Type'' (Some (butlast (c # t))) con; Some (True, con) }
     | _ \<Rightarrow> do { con \<leftarrow> response_header_overwrite ''Content-Type'' (Some ''application/octet-stream'') con; Some (False, con) } }"

definition static_etag :: "static_conf \<Rightarrow> static_file \<Rightarrow> connection \<Rightarrow> connection option" where
  "static_etag cf f con =
     (if etags_used cf \<and> any_etag_flag con \<and> sf_etag f \<noteq> [] then do {
        ds \<leftarrow> array_get_element (resp_headers (response con)) ''ETag'';
        if ds = None then
          let con = upd_phys (\<lambda>p. p\<lparr>phys_etag := etag_mutate (sf_etag f)\<rparr>) con
          in response_header_overwrite ''ETag'' (Some (butlast (phys_etag (physical con)))) con
        else Some con }
      else Some con)"

text \<open>The modification time as it is sent.\<close>

definition static_mtime :: "(int \<Rightarrow> char list) \<Rightarrow> static_file \<Rightarrow> server \<Rightarrow> connection \<Rightarrow> (char list \<times> server \<times> connection) option" where
  "static_mtime http_date f srv con = do {
     ds \<leftarrow> array_get_element (resp_headers (response con)) ''Last-Modified'';
     case ds of
       None \<Rightarrow> do {
         (mtime, srv) \<leftarrow> strftime_cache_get http_date srv (sf_mtime f);
         con \<leftarrow> response_header_overwrite ''Last-Modified'' (if mtime = [] then None else Some (butlast mtime)) con;
         Some (mtime, srv, con) }
     | Some ds \<Rightarrow> do { v \<leftarrow> string_value ds; Some (v, srv, con) } }"

text \<open>Whether the condition \<open>If-Range\<close> lets the range be sent.\<close>

definition if_range :: "char list option \<Rightarrow> connection \<Rightarrow> bool option" where
  "if_range mtime con = do {
     ds \<leftarrow> array_get_element (headers (req con)) ''If-Range'';
     case ds of
       None \<Rightarrow> Some True
     | Some ds \<Rightarrow> do {
         v \<leftarrow> string_value ds;
         c \<leftarrow> byte_at v 0;
         Some (if c = DQUOTE then v = phys_etag (physical con) else mtime = Some v) } }"

definition static_body :: "int \<Rightarrow> char list option \<Rightarrow> server \<Rightarrow> connection \<Rightarrow> (handler_t \<times> server \<times> connection) option" where
  "static_body sz mtime srv con = do {
     do_range \<leftarrow> (if http_range (req con) \<noteq> Null \<and> range_requests (conf con) then if_range mtime con else Some False);
     if do_range then do {
       (r, con) \<leftarrow> http_response_parse_range sz (con\<lparr>file_finished := True\<rparr>);
       Some (HANDLER_FINISHED, srv, if r = 0 then con\<lparr>http_status := 206\<rparr> else con) }
     else do {
       (_, srv, con) \<leftarrow> http_chunk_append_file srv (Some con) (phys_path (physical con)) 0 sz;
       con \<leftarrow> con;
       Some (HANDLER_FINISHED, srv, con\<lparr>http_status := 200, file_finished := True\<rparr>) } }"

text \<open>\<open>get_entry\<close> is the stat cache.\<close>

definition mod_staticfile_subrequest ::
    "static_conf \<Rightarrow> (char list \<Rightarrow> static_file option) \<Rightarrow> (int \<Rightarrow> char list) \<Rightarrow> (char list \<Rightarrow> int option) \<Rightarrow> server \<Rightarrow> connection \<Rightarrow>
     (handler_t \<times> server \<times> connection) option" where
  "mod_staticfile_subrequest cf get_entry http_date read_date srv con =
     (if http_status con \<noteq> 0 \<or> uri_path (con_uri con) = [] \<or> phys_path (physical con) = [] \<or> mode con \<noteq> DIRECT \<or>
         http_method (req con) \<notin> {HTTP_METHOD_GET, HTTP_METHOD_POST, HTTP_METHOD_HEAD} \<or>
         list_ex (excluded (phys_path (physical con))) (exclude_ext cf)
      then Some (HANDLER_GO_ON, srv, con)
      else case get_entry (cstr (phys_path (physical con))) of
        None \<Rightarrow> Some (HANDLER_FINISHED, srv, con\<lparr>http_status := 403\<rparr>)
      | Some f \<Rightarrow>
          if sce_symlink (sf_stat f) \<and> \<not> follow_symlink (conf con) then
            Some (HANDLER_FINISHED, srv, upd_phys (\<lambda>p. p\<lparr>phys_path := []\<rparr>) (con\<lparr>http_status := 403\<rparr>))
          else if \<not> sce_reg (sf_stat f) then Some (HANDLER_FINISHED, srv, con\<lparr>http_status := 404\<rparr>)
          else do {
            (allow_caching, con) \<leftarrow> static_type f con;
            con \<leftarrow> (if range_requests (conf con) then response_header_overwrite ''Accept-Ranges'' (Some ''bytes'') con else Some con);
            if allow_caching then do {
              con \<leftarrow> static_etag cf f con;
              (mtime, srv, con) \<leftarrow> static_mtime http_date f srv con;
              (r, con) \<leftarrow> http_response_handle_cachable read_date mtime con;
              if r = HANDLER_FINISHED then Some (HANDLER_FINISHED, srv, con)
              else static_body (sce_length (sf_stat f)) (Some mtime) srv con }
            else static_body (sce_length (sf_stat f)) None srv con })"


section \<open>What a range sends\<close>

lemma strtol_sign:
  assumes "c_strtol s = (v, e)" and "e \<noteq> 0" and "CHR ''-'' \<notin> set (take e s)"
  shows "0 \<le> v"
proof -
  obtain ng ds e' where n: "number_subject s = (ng, ds, e')" by (cases "number_subject s") auto
  have "\<not> ng"
  proof
    assume ng
    let ?r = "dropWhile is_space s" and ?w = "takeWhile is_space s"
    from \<open>ng\<close> n have hd: "?r \<noteq> []" "hd ?r = CHR ''-''" by (auto simp: number_subject_def Let_def)
    from n assms(1,2) hd have e: "e = length ?w + 1 + length ds"
      by (auto simp: number_subject_def c_strtol_def Let_def split: if_splits)
    have s: "s = ?w @ CHR ''-'' # tl ?r" using hd by (metis list.collapse takeWhile_dropWhile_id)
    have "take e s = ?w @ take (e - length ?w) (CHR ''-'' # tl ?r)" by (subst s) (simp add: e)
    moreover have "CHR ''-'' \<in> set (take (e - length ?w) (CHR ''-'' # tl ?r))" by (simp add: e)
    ultimately show False using assms(3) by simp
  qed
  with n assms(1) show ?thesis by (auto simp: c_strtol_def LONG_MAX_def)
qed

text \<open>A range that is taken lies within the file.\<close>

lemma range_within:
  assumes "one_range sz s k = Good a b m rest" and "index_of (CHR ''-'') s = Some k" and "rs_start (enter_range sz a b m st) \<le> sz - 1"
  shows "0 \<le> rs_start (enter_range sz a b m st)" "rs_start (enter_range sz a b m st) \<le> rs_end (enter_range sz a b m st)"
    "rs_end (enter_range sz a b m st) < sz"
proof -
  have k: "k < length s" "s ! k = CHR ''-''" "CHR ''-'' \<notin> set (take k s)" using index_of_Some[OF assms(2)] by simp_all
  have e: "range_ended s x c d = Good a b m rest \<Longrightarrow> a = c \<and> b = d" for x c d by (auto simp: range_ended_def split: if_splits)
  have "a \<le> b \<and> 0 \<le> b \<or> b = sz - 1"
  proof (cases "k = 0")
    case True
    then show ?thesis using assms(1) e by (auto simp: one_range_def Let_def split: prod.splits if_splits)
  next
    case False
    obtain la err where la: "c_strtol s = (la, err)" by (cases "c_strtol s")
    have pos: "0 \<le> la" if "err = k" using strtol_sign[OF la] that False k(3) by simp
    show ?thesis
    proof (cases "k + 1 = length s \<or> s ! (k + 1) = CHR '',''")
      case True
      with False assms(1) la e show ?thesis by (auto simp: one_range_def Let_def split: prod.splits if_splits)
    next
      case no: False
      obtain le err2 where le: "c_strtol (drop (k + 1) s) = (le, err2)" by (cases "c_strtol (drop (k + 1) s)")
      from False no assms(1) la le have 1: "err = k" "la \<le> le" "range_ended s (k + 1 + err2) la le = Good a b m rest"
        by (auto simp: one_range_def Let_def split: if_splits)
      with e[OF 1(3)] pos show ?thesis by auto
    qed
  qed
  moreover have "a \<le> sz - 1 \<or> 0 < sz" using assms(3) by (auto simp: enter_range_def split: if_splits)
  ultimately show "0 \<le> rs_start (enter_range sz a b m st)" "rs_start (enter_range sz a b m st) \<le> rs_end (enter_range sz a b m st)"
    "rs_end (enter_range sz a b m st) < sz"
    using assms(3) by (auto simp: enter_range_def split: if_splits)
qed

lemma append_put_stream:
  assumes "holds_stream fs q s"
  obtains a q1 q2 where "chunkqueue_get_append_buffer q = Some (a, q1)" "put_mem q1 a (terminated m) = Some q2" "holds_stream fs q2 (s @ m)"
proof -
  obtain cs where cs: "cq_rep q cs" "pending fs cs = s" using assms by (auto simp: holds_stream_def)
  let ?f = "\<lambda>c. c\<lparr>ctype := MEM_CHUNK, c_offset := 0, c_mem := []\<rparr>"
  obtain a q1 c as us where 1: "add_last ?f q = Some (a, q1)" "shape q1 (as @ [a]) us" "items q1 (as @ [a]) = cs @ [bare (?f c)]"
    using add_last_ok[OF cs(1), of ?f] by (auto simp: valid_def)
  obtain d q2 where 2: "get_chunk q1 a = Some d" "put_mem q1 a (terminated m) = Some q2" "shape q2 (as @ [a]) us"
    "items q2 (as @ [a]) = items q1 as @ [(bare d)\<lparr>c_mem := terminated m\<rparr>]" using put_mem_ok[of q1 as a "[]" us "terminated m"] 1(2) by (simp del: items_append) blast
  have "bare d = bare (?f c)" "items q1 as = cs" using 1(3) 2(1) by (auto simp: items_append items_Cons get_chunk_iff)
  then have "cq_rep q2 (cs @ [(bare (?f c))\<lparr>c_mem := terminated m\<rparr>])" using 2(3,4) by (auto simp: cq_rep_def)
  then have "holds_stream fs q2 (s @ m)" using cs(2) by (intro holds_streamI) (assumption, simp add: chunk_bytes_def terminated_def)
  moreover have "chunkqueue_get_append_buffer q = Some (a, q1)" using 1(1) by (simp add: chunkqueue_get_append_buffer_def)
  ultimately show thesis using that 2(2) by blast
qed

lemma append_text_ok:
  assumes "holds_stream fs (rs_queue st) s"
  shows "valid (append_text t st) (\<lambda>st'. \<exists>q. st' = st\<lparr>rs_queue := q, rs_length := rs_length st + int (length t)\<rparr> \<and> holds_stream fs q (s @ t))"
proof -
  obtain a q1 q2 where "chunkqueue_get_append_buffer (rs_queue st) = Some (a, q1)" "put_mem q1 a (terminated t) = Some q2" "holds_stream fs q2 (s @ t)"
    by (rule append_put_stream[OF assms])
  then show ?thesis by (auto simp: append_text_def)
qed

text \<open>What is sent for the bytes from \<open>a\<close> to \<open>b\<close>.\<close>

definition range_text :: "bool \<Rightarrow> char list option \<Rightarrow> char list \<Rightarrow> int \<times> int \<Rightarrow> char list" where
  "range_text multi content_type file = (\<lambda>(a, b). (if multi then part_header (int (length file)) content_type a b else []) @
     take (nat (b - a + 1)) (drop (nat a) file))"

definition ranges_within :: "char list \<Rightarrow> (int \<times> int) list \<Rightarrow> bool" where
  "ranges_within file rs \<longleftrightarrow> (\<forall>(a, b) \<in> set rs. 0 \<le> a \<and> a \<le> b \<and> b < int (length file))"

lemma append_range_ok:
  assumes "holds_stream fs (rs_queue st) s" and "file = fs (cstr (copy_bytes path))"
    and "0 \<le> rs_start st" and "rs_start st \<le> rs_end st" and "rs_end st < int (length file)"
  shows "valid (append_range (int (length file)) path ct st) (\<lambda>st'. let t = range_text (rs_multi st) ct file (rs_start st, rs_end st) in
     \<exists>q. st' = st\<lparr>rs_queue := q, rs_length := rs_length st + int (length t)\<rparr> \<and> holds_stream fs q (s @ t))"
proof -
  let ?h = "if rs_multi st then part_header (int (length file)) ct (rs_start st) (rs_end st) else []"
  let ?len = "rs_end st - rs_start st + 1"
  let ?t = "take (nat ?len) (drop (nat (rs_start st)) file)"
  obtain q where 1: "(if rs_multi st then append_text (part_header (int (length file)) ct (rs_start st) (rs_end st)) st else Some st) =
      Some (st\<lparr>rs_queue := q, rs_length := rs_length st + int (length ?h)\<rparr>)" "holds_stream fs q (s @ ?h)"
  proof (cases "rs_multi st")
    case True
    with append_text_ok[OF assms(1), of "part_header (int (length file)) ct (rs_start st) (rs_end st)"] that show thesis by (auto simp: valid_def)
  next
    case False
    with that[of "rs_queue st"] assms(1) show thesis by simp
  qed
  obtain q2 where 2: "chunkqueue_append_file q path (rs_start st) ?len = Some (0, q2)" "holds_stream fs q2 ((s @ ?h) @ ?t)"
    using append_file_stream[OF 1(2), of path "rs_start st" ?len] assms(2) by (auto simp: valid_def result_stream_def)
  have "int (length ?t) = ?len" using assms(3-5) by simp
  then have "append_range (int (length file)) path ct st =
      Some (st\<lparr>rs_queue := q2, rs_length := rs_length st + int (length (?h @ ?t))\<rparr>)"
    unfolding append_range_def 1(1) using 2(1) by (simp add: Let_def algebra_simps)
  moreover have "range_text (rs_multi st) ct file (rs_start st, rs_end st) = ?h @ ?t" by (simp add: range_text_def)
  moreover have "holds_stream fs q2 (s @ ?h @ ?t)" using 2(2) by simp
  ultimately show ?thesis unfolding Let_def by (simp only: valid_Some) blast
qed

text \<open>The loop over the header; \<open>ts\<close> are the ranges taken.\<close>

lemma ranges_ok:
  assumes "holds_stream fs (rs_queue st) s" and "file = fs (cstr (copy_bytes path))"
  shows "valid (ranges (int (length file)) path ct hdr st) (\<lambda>(error, st'). \<exists>rs multi. ranges_within file rs \<and>
     holds_stream fs (rs_queue st') (s @ concat (map (range_text multi ct file) rs)) \<and>
     rs_length st' = rs_length st + int (length (concat (map (range_text multi ct file) rs))) \<and>
     (rs_multi st \<longrightarrow> multi) \<and> (error = None \<longrightarrow> multi = rs_multi st' \<and>
       (if rs = [] then st' = st else (rs_start st', rs_end st') = last rs) \<and> (\<not> multi \<longrightarrow> length rs \<le> 1)))"
  using assms(1)
proof (induction "length hdr" arbitrary: hdr st s rule: less_induct)
  case less
  let ?sz = "int (length file)"
  show ?case
  proof (cases "index_of (CHR ''-'') hdr")
    case None
    then have "ranges ?sz path ct hdr st = Some (None, st)" by (subst ranges.simps) simp
    with less.prems show ?thesis by (auto intro!: exI[of _ "[]"] simp: ranges_within_def)
  next
    case (Some k)
    show ?thesis
    proof (cases "one_range ?sz hdr k")
      case (Bad status)
      with Some have "ranges ?sz path ct hdr st = Some (Some status, st)" by (subst ranges.simps) simp
      with less.prems show ?thesis by (auto intro!: exI[of _ "[]"] simp: ranges_within_def)
    next
      case (Good a b m rest)
      let ?st = "enter_range ?sz a b m st"
      have q: "rs_queue ?st = rs_queue st" "rs_length ?st = rs_length st" "rs_multi ?st = (rs_multi st \<or> m)" by (simp_all add: enter_range_def)
      show ?thesis
      proof (cases "rs_start ?st > ?sz - 1")
        case True
        with Some Good have "ranges ?sz path ct hdr st = Some (Some (Some 416), ?st)" by (subst ranges.simps) (simp add: Let_def)
        with less.prems q show ?thesis by (auto intro!: exI[of _ "[]"] simp: ranges_within_def)
      next
        case False
        have w: "0 \<le> rs_start ?st" "rs_start ?st \<le> rs_end ?st" "rs_end ?st < ?sz" using range_within[OF Good Some, of st] False by simp_all
        let ?t = "range_text (rs_multi ?st) ct file (rs_start ?st, rs_end ?st)"
        have h: "holds_stream fs (rs_queue ?st) s" using less.prems q by simp
        obtain q2 where 1: "append_range ?sz path ct ?st = Some (?st\<lparr>rs_queue := q2, rs_length := rs_length ?st + int (length ?t)\<rparr>)"
          "holds_stream fs q2 (s @ ?t)" using append_range_ok[OF h assms(2) w, of ct] by (auto simp: valid_def Let_def)
        let ?st2 = "?st\<lparr>rs_queue := q2, rs_length := rs_length ?st + int (length ?t)\<rparr>"
        have shorter: "length rest < length hdr" using one_range_shorter[OF Good] index_of_Some[OF Some] by simp
        have run: "ranges ?sz path ct hdr st = ranges ?sz path ct rest ?st2"
          using Some Good False 1(1) by (subst ranges.simps) (simp add: Let_def)
        have last: "rest = []" if "\<not> m" using Good that by (auto simp: one_range_def range_ended_def Let_def split: if_splits prod.splits)
        have h2: "holds_stream fs (rs_queue ?st2) (s @ ?t)" using 1(2) by simp
        have w1: "ranges_within file [(rs_start ?st, rs_end ?st)]" using w by (simp add: ranges_within_def)
        show ?thesis
        proof (cases "rs_multi ?st")
          case no: False
          with q(3) last have "rest = []" by simp
          then have "ranges ?sz path ct hdr st = Some (None, ?st2)" unfolding run by (subst ranges.simps) simp
          with no h2 w1 q show ?thesis by (auto intro!: exI[of _ "[(rs_start ?st, rs_end ?st)]"] exI[of _ False])
        next
          case multi: True
          from less.hyps[OF shorter h2] obtain error st' rs mu where 2: "ranges ?sz path ct rest ?st2 = Some (error, st')" "ranges_within file rs"
            "holds_stream fs (rs_queue st') ((s @ ?t) @ concat (map (range_text mu ct file) rs))"
            "rs_length st' = rs_length ?st2 + int (length (concat (map (range_text mu ct file) rs)))"
            "rs_multi ?st2 \<longrightarrow> mu" "error = None \<longrightarrow> mu = rs_multi st' \<and>
               (if rs = [] then st' = ?st2 else (rs_start st', rs_end st') = last rs)" unfolding valid_def by (auto split: prod.splits)
          have mu: "mu" using 2(5) multi by simp
          let ?rs = "(rs_start ?st, rs_end ?st) # rs"
          have "ranges_within file ?rs" using w1 2(2) by (auto simp: ranges_within_def)
          moreover have "holds_stream fs (rs_queue st') (s @ concat (map (range_text True ct file) ?rs))" using 2(3) mu multi by simp
          moreover have "rs_length st' = rs_length st + int (length (concat (map (range_text True ct file) ?rs)))" using 2(4) mu multi q by simp
          moreover have "error = None \<longrightarrow> rs_multi st' \<and> (rs_start st', rs_end st') = last ?rs" using 2(6) mu by (auto split: if_splits)
          ultimately show ?thesis unfolding run 2(1) valid_Some prod.case by (intro exI[of _ ?rs] exI[of _ True]) simp
        qed
      qed
    qed
  qed
qed

lemma stored_element_ok:
  assumes "filled a"
  shows "\<exists>d. array_get_element a k = Some d \<and> (\<forall>ds. d = Some ds \<longrightarrow> is_string ds)"
proof -
  obtain r p where r: "array_get_index a (k @ [NUL]) = Some (r, p)" "r = -1 \<or> 0 \<le> r \<and> r < int (a_used a)"
    using filled_get_index[OF assms] by metis
  show ?thesis
  proof (cases "r = -1")
    case True
    then show ?thesis using r(1) by (simp add: array_get_element_def)
  next
    case False
    with r(2) have "nat r < a_used a" by linarith
    then obtain du where "adata a ! nat r = Some du" "is_string du" using filledD(4)[OF assms] by blast
    then show ?thesis using r(1) False by (simp add: array_get_element_def)
  qed
qed

definition range_closing :: "char list" where
  "range_closing = [CR, LF] @ ''--'' @ boundary @ ''--'' @ [CR, LF]"

text \<open>The bytes sent for the ranges \<open>rs\<close> with the answer \<open>r\<close>.\<close>

definition range_bytes :: "int \<Rightarrow> bool \<Rightarrow> char list option \<Rightarrow> char list \<Rightarrow> (int \<times> int) list \<Rightarrow> char list" where
  "range_bytes r multi content_type file rs = concat (map (range_text multi content_type file) rs) @ (if r = 0 \<and> multi then range_closing else [])"

lemma range_body_ok:
  assumes "filled (resp_headers (response con))" and "a_used (resp_headers (response con)) < INT_MAX"
    and "deref_string (headers (req con)) (http_range (req con)) = Some hdr" and "holds_stream fs (write_queue con) []"
    and "file = fs (cstr (copy_bytes (phys_path (physical con))))"
  shows "valid (http_response_parse_range (int (length file)) con) (\<lambda>(r, con'). \<exists>rs multi ct. ranges_within file rs \<and>
     (r = 0 \<or> r = -1) \<and> holds_stream fs (write_queue con') (range_bytes r multi ct file rs) \<and>
     resp_content_length (response con') = int (length (range_bytes r multi ct file rs)) \<and> (r = 0 \<and> \<not> multi \<longrightarrow> length rs \<le> 1))"
proof -
  let ?sz = "int (length file)" and ?path = "phys_path (physical con)"
  obtain d where d: "array_get_element (resp_headers (response con)) ''Content-Type'' = Some d" "\<forall>ds. d = Some ds \<longrightarrow> is_string ds"
    using stored_element_ok[OF assms(1)] by blast
  obtain ct where ct: "(case d of None \<Rightarrow> Some None | Some ds \<Rightarrow> map_option Some (string_value ds)) = Some ct"
    using d(2) by (cases d) (auto simp: is_string_def)
  let ?st = "\<lparr>rs_queue = write_queue con, rs_length = 0, rs_start = 0, rs_end = ?sz - 1, rs_multi = False\<rparr>"
  have q: "holds_stream fs (rs_queue ?st) []" using assms(4) by simp
  obtain error st rs multi where st: "ranges ?sz ?path ct hdr ?st = Some (error, st)" "ranges_within file rs"
    "holds_stream fs (rs_queue st) (concat (map (range_text multi ct file) rs))"
    "rs_length st = int (length (concat (map (range_text multi ct file) rs)))"
    "error = None \<longrightarrow> multi = rs_multi st \<and> (\<not> multi \<longrightarrow> length rs \<le> 1)"
    using ranges_ok[OF q assms(5), of ct hdr] unfolding valid_def by (auto split: prod.splits)
  note run = http_response_parse_range_def d(1) ct assms(3) st(1)
  show ?thesis
  proof (cases error)
    case (Some status)
    have "range_bytes (-1) multi ct file rs = concat (map (range_text multi ct file) rs)" by (simp add: range_bytes_def)
    with Some st(2-4) show ?thesis
      by (simp add: run upd_resp_def) (rule exI[of _ rs], simp, rule exI[of _ multi], rule exI[of _ ct], simp)
  next
    case None
    with st(5) have m: "multi = rs_multi st" "\<not> multi \<Longrightarrow> length rs \<le> 1" by simp_all
    show ?thesis
    proof (cases multi)
      case True
      obtain q where 1: "append_text range_closing st = Some (st\<lparr>rs_queue := q, rs_length := rs_length st + int (length range_closing)\<rparr>)"
        "holds_stream fs q (range_bytes 0 True ct file rs)" using append_text_ok[OF st(3), of range_closing] True by (auto simp: valid_def range_bytes_def)
      let ?c = "upd_resp (\<lambda>r. r\<lparr>resp_content_length := rs_length st + int (length range_closing)\<rparr>) (con\<lparr>write_queue := q\<rparr>)"
      have "filled (resp_headers (response ?c))" "a_used (resp_headers (response ?c)) < INT_MAX" using assms(1,2) by (simp_all add: upd_resp_def)
      from header_overwrite_ok[OF this, of "''Content-Type''" "Some (''multipart/byteranges; boundary='' @ boundary)"]
      obtain hs where "response_header_overwrite ''Content-Type'' (Some (''multipart/byteranges; boundary='' @ boundary)) ?c =
         Some (upd_resp (\<lambda>r. r\<lparr>resp_headers := hs\<rparr>) ?c)" by blast
      moreover have "rs_length st + int (length range_closing) = int (length (range_bytes 0 True ct file rs))" using st(4) True by (simp add: range_bytes_def)
      ultimately have "http_response_parse_range ?sz con = Some (0, upd_resp (\<lambda>r. r\<lparr>resp_headers := hs\<rparr>) ?c)" using None m(1) True 1(1)
        by (simp add: run range_closing_def Let_def)
      moreover have "holds_stream fs (write_queue (upd_resp (\<lambda>r. r\<lparr>resp_headers := hs\<rparr>) ?c)) (range_bytes 0 True ct file rs)"
        "resp_content_length (response (upd_resp (\<lambda>r. r\<lparr>resp_headers := hs\<rparr>) ?c)) = int (length (range_bytes 0 True ct file rs))"
        using 1(2) st(4) by (simp_all add: upd_resp_def range_bytes_def True)
      ultimately show ?thesis using st(2) by (simp only: valid_Some prod.case) blast
    next
      case False
      let ?c = "upd_resp (\<lambda>r. r\<lparr>resp_content_length := rs_length st\<rparr>) (con\<lparr>write_queue := rs_queue st\<rparr>)"
      let ?v = "Some (''bytes '' @ decimal (rs_start st) @ ''-'' @ decimal (rs_end st) @ ''/'' @ decimal ?sz)"
      have "filled (resp_headers (response ?c))" "a_used (resp_headers (response ?c)) < INT_MAX" using assms(1,2) by (simp_all add: upd_resp_def)
      from header_insert_ok[OF this, of "''Content-Range''" ?v]
      obtain hs where "response_header_insert ''Content-Range'' ?v ?c = Some (upd_resp (\<lambda>r. r\<lparr>resp_headers := hs\<rparr>) ?c)" by blast
      then have "http_response_parse_range ?sz con = Some (0, upd_resp (\<lambda>r. r\<lparr>resp_headers := hs\<rparr>) ?c)" using None m(1) False
        by (simp add: run Let_def)
      moreover have "holds_stream fs (write_queue (upd_resp (\<lambda>r. r\<lparr>resp_headers := hs\<rparr>) ?c)) (range_bytes 0 False ct file rs)"
        "resp_content_length (response (upd_resp (\<lambda>r. r\<lparr>resp_headers := hs\<rparr>) ?c)) = int (length (range_bytes 0 False ct file rs))"
        using st(3,4) False by (simp_all add: upd_resp_def range_bytes_def)
      ultimately show ?thesis using st(2) m(2)[OF False] by (simp only: valid_Some prod.case) blast
    qed
  qed
qed

section \<open>What a request is answered with\<close>

text \<open>Only headers and the entity tag are set, at most \<open>n\<close> new headers.\<close>

definition headers_set :: "nat \<Rightarrow> connection \<Rightarrow> connection \<Rightarrow> bool" where
  "headers_set n con con' \<longleftrightarrow> (\<exists>hs tag. con' = upd_resp (\<lambda>r. r\<lparr>resp_headers := hs\<rparr>) (upd_phys (\<lambda>p. p\<lparr>phys_etag := tag\<rparr>) con) \<and>
     filled hs \<and> a_used hs \<le> a_used (resp_headers (response con)) + n)"

definition headers_room :: "nat \<Rightarrow> connection \<Rightarrow> bool" where
  "headers_room n con \<longleftrightarrow> filled (resp_headers (response con)) \<and> a_used (resp_headers (response con)) + n \<le> INT_MAX"

lemma headers_set_refl: "headers_room n con \<Longrightarrow> headers_set m con con"
  unfolding headers_set_def headers_room_def by (intro exI[of _ "resp_headers (response con)"] exI[of _ "phys_etag (physical con)"]) (simp add: upd_resp_def upd_phys_def)

lemma headers_set_room: "headers_set n con con' \<Longrightarrow> headers_room (n + m) con \<Longrightarrow> headers_room m con'"
  unfolding headers_set_def headers_room_def by (auto simp: upd_resp_def upd_phys_def)

lemma headers_set_trans: "headers_set n a b \<Longrightarrow> headers_set m b c \<Longrightarrow> headers_set (n + m) a c"
  unfolding headers_set_def upd_resp_def upd_phys_def by clarsimp (rule exI, rule conjI, rule exI, rule refl, simp)

lemma headers_set_kept:
  assumes "headers_set n con con'"
  shows "req con' = req con" "mode con' = mode con" "conf con' = conf con" "write_queue con' = write_queue con"
    "phys_path (physical con') = phys_path (physical con)" "transfer_encoding (response con') = transfer_encoding (response con)"
    "http_status con' = http_status con"
  using assms by (auto simp: headers_set_def upd_resp_def upd_phys_def)

lemma headers_set_etag: "headers_room n con \<Longrightarrow> headers_set m con (upd_phys (\<lambda>p. p\<lparr>phys_etag := tag\<rparr>) con)"
  unfolding headers_set_def headers_room_def by (intro exI[of _ "resp_headers (response con)"] exI[of _ "tag"]) (simp add: upd_resp_def upd_phys_def)

lemma overwrite_sets:
  assumes "headers_room (Suc n) con"
  obtains con' where "response_header_overwrite name value con = Some con'" "headers_set 1 con con'"
proof -
  have "filled (resp_headers (response con))" "a_used (resp_headers (response con)) < INT_MAX" using assms by (simp_all add: headers_room_def)
  from header_overwrite_ok[OF this, of name "value"] obtain hs where
    hs: "response_header_overwrite name value con = Some (upd_resp (\<lambda>r. r\<lparr>resp_headers := hs\<rparr>) con)" "filled hs"
    "a_used hs \<le> a_used (resp_headers (response con)) + 1" by blast
  have "headers_set 1 con (upd_resp (\<lambda>r. r\<lparr>resp_headers := hs\<rparr>) con)" unfolding headers_set_def
    using hs(2,3) by (intro exI[of _ hs] exI[of _ "phys_etag (physical con)"]) (simp add: upd_resp_def upd_phys_def)
  with hs(1) show thesis by (rule that)
qed

lemma room_element:
  assumes "headers_room n con"
  obtains d where "array_get_element (resp_headers (response con)) k = Some d" "\<forall>ds. d = Some ds \<longrightarrow> is_string ds"
  using stored_element_ok[of "resp_headers (response con)" k] assms unfolding headers_room_def by blast

lemma static_type_ok:
  assumes "headers_room (Suc n) con"
  obtains b con' where "static_type f con = Some (b, con')" "headers_set 1 con con'"
proof -
  obtain d where d: "array_get_element (resp_headers (response con)) ''Content-Type'' = Some d" by (rule room_element[OF assms])
  show thesis
  proof (cases "d = None")
    case False
    with d that[of True con] headers_set_refl[OF assms] show thesis by (simp add: static_type_def)
  next
    case True
    show thesis
    proof (cases "sce_content_type (sf_stat f) = None \<or> sce_content_type (sf_stat f) = Some []")
      case no: True
      obtain con' where "response_header_overwrite ''Content-Type'' (Some ''application/octet-stream'') con = Some con'" "headers_set 1 con con'"
        by (rule overwrite_sets[OF assms])
      moreover from this(1) no True d have "static_type f con = Some (False, con')" by (auto simp: static_type_def)
      ultimately show thesis using that by blast
    next
      case False
      then obtain c t where ct: "sce_content_type (sf_stat f) = Some (c # t)" by (metis list.exhaust option.exhaust)
      obtain con' where "response_header_overwrite ''Content-Type'' (Some (butlast (c # t))) con = Some con'" "headers_set 1 con con'"
        by (rule overwrite_sets[OF assms])
      moreover from this(1) ct True d have "static_type f con = Some (True, con')" by (simp add: static_type_def)
      ultimately show thesis using that by blast
    qed
  qed
qed

lemma static_etag_ok:
  assumes "headers_room (Suc n) con"
  obtains con' where "static_etag cf f con = Some con'" "headers_set 1 con con'"
proof -
  obtain d where d: "array_get_element (resp_headers (response con)) ''ETag'' = Some d" by (rule room_element[OF assms])
  show thesis
  proof (cases "etags_used cf \<and> any_etag_flag con \<and> sf_etag f \<noteq> [] \<and> d = None")
    case False
    then have "static_etag cf f con = Some con" using d by (auto simp: static_etag_def)
    with that headers_set_refl[OF assms] show thesis by blast
  next
    case True
    let ?c = "upd_phys (\<lambda>p. p\<lparr>phys_etag := etag_mutate (sf_etag f)\<rparr>) con"
    have e: "headers_set 0 con ?c" by (rule headers_set_etag[OF assms])
    then have "headers_room (Suc n) ?c" using headers_set_room[of 0 con ?c "Suc n"] assms by simp
    then obtain con' where 1: "response_header_overwrite ''ETag'' (Some (butlast (phys_etag (physical ?c)))) ?c = Some con'" "headers_set 1 ?c con'"
      by (rule overwrite_sets)
    then have "static_etag cf f con = Some con'" using True d by (simp add: static_etag_def Let_def)
    moreover have "headers_set 1 con con'" using headers_set_trans[OF e 1(2)] by simp
    ultimately show thesis by (rule that)
  qed
qed

lemma static_mtime_ok:
  assumes "headers_room (Suc n) con" and "length (mtime_cache srv) = FILE_CACHE_MAX"
  obtains m srv' con' where "static_mtime http_date f srv con = Some (m, srv', con')" "headers_set 1 con con'"
proof -
  obtain d where d: "array_get_element (resp_headers (response con)) ''Last-Modified'' = Some d" "\<forall>ds. d = Some ds \<longrightarrow> is_string ds"
    by (rule room_element[OF assms(1)])
  show thesis
  proof (cases d)
    case (Some ds)
    with d(2) obtain v where "string_value ds = Some v" by (auto simp: is_string_def)
    with Some d(1) have "static_mtime http_date f srv con = Some (v, srv, con)" by (simp add: static_mtime_def)
    with that headers_set_refl[OF assms(1)] show thesis by blast
  next
    case None
    obtain m srv' where m: "strftime_cache_get http_date srv (sf_mtime f) = Some (m, srv')"
      using assms(2) by (cases "strftime_cache_get http_date srv (sf_mtime f)") (auto simp: strftime_cache_get_def Let_def split: if_splits)
    obtain con' where "response_header_overwrite ''Last-Modified'' (if m = [] then None else Some (butlast m)) con = Some con'" "headers_set 1 con con'"
      by (rule overwrite_sets[OF assms(1)])
    moreover from this(1) None d(1) m have "static_mtime http_date f srv con = Some (m, srv', con')" by (simp add: static_mtime_def)
    ultimately show thesis using that by blast
  qed
qed

text \<open>The request is one the module answers with a file.\<close>

definition serves :: "static_conf \<Rightarrow> (char list \<Rightarrow> static_file option) \<Rightarrow> connection \<Rightarrow> static_file \<Rightarrow> bool" where
  "serves cf get_entry con f \<longleftrightarrow> http_status con = 0 \<and> uri_path (con_uri con) \<noteq> [] \<and> phys_path (physical con) \<noteq> [] \<and> mode con = DIRECT \<and>
     http_method (req con) \<in> {HTTP_METHOD_GET, HTTP_METHOD_POST, HTTP_METHOD_HEAD} \<and>
     \<not> list_ex (excluded (phys_path (physical con))) (exclude_ext cf) \<and> get_entry (cstr (phys_path (physical con))) = Some f \<and>
     sce_reg (sf_stat f) \<and> (sce_symlink (sf_stat f) \<longrightarrow> follow_symlink (conf con))"

lemma static_body_whole:
  assumes "http_range (req con) = Null \<or> \<not> range_requests (conf con)" and "holds_stream fs (write_queue con) []"
    and "\<not> transfer_encoding (response con)" and "sz = int (length (fs (cstr (copy_bytes (phys_path (physical con))))))"
  obtains q where "static_body sz m srv con = Some (HANDLER_FINISHED, srv, con\<lparr>write_queue := q, http_status := 200, file_finished := True\<rparr>)"
    "holds_stream fs q (fs (cstr (copy_bytes (phys_path (physical con)))))"
proof -
  obtain q where q: "chunkqueue_append_file (write_queue con) (phys_path (physical con)) 0 sz = Some (0, q)"
    "holds_stream fs q (fs (cstr (copy_bytes (phys_path (physical con)))))"
    using append_file_stream[OF assms(2), of "phys_path (physical con)" 0 sz] assms(4) by (auto simp: valid_def result_stream_def)
  then have "http_chunk_append_file srv (Some con) (phys_path (physical con)) 0 sz = Some (0, srv, Some (con\<lparr>write_queue := q\<rparr>))"
    using assms(3) by (simp add: http_chunk_append_file_def append_size_def append_line_end_def chunked_def)
  then have "static_body sz m srv con = Some (HANDLER_FINISHED, srv, con\<lparr>write_queue := q, http_status := 200, file_finished := True\<rparr>)"
    using assms(1) by (auto simp: static_body_def)
  with q(2) show thesis by (rule that[rotated])
qed

lemma subrequest_ok:
  assumes "serves cf get_entry con f" and "headers_room 4 con" and "length (mtime_cache srv) = FILE_CACHE_MAX"
    and "http_if_none_match (req con) = Null" and "http_if_modified_since (req con) = Null"
  obtains c m srv' where "mod_staticfile_subrequest cf get_entry http_date read_date srv con = static_body (sce_length (sf_stat f)) m srv' c"
    "headers_set 4 con c"
proof -
  have s: "sce_reg (sf_stat f)" "\<not> (sce_symlink (sf_stat f) \<and> \<not> follow_symlink (conf con))" "get_entry (cstr (phys_path (physical con))) = Some f"
    "\<not> (http_status con \<noteq> 0 \<or> uri_path (con_uri con) = [] \<or> phys_path (physical con) = [] \<or> mode con \<noteq> DIRECT \<or>
        http_method (req con) \<notin> {HTTP_METHOD_GET, HTTP_METHOD_POST, HTTP_METHOD_HEAD} \<or>
        list_ex (excluded (phys_path (physical con))) (exclude_ext cf))" using assms(1) by (simp_all add: serves_def)
  have room: "headers_room (Suc 3) con" using assms(2) by simp
  obtain b c1 where 1: "static_type f con = Some (b, c1)" "headers_set 1 con c1" by (rule static_type_ok[OF room])
  have room1: "headers_room (Suc 2) c1" using headers_set_room[of 1 con c1 "Suc 2"] 1(2) assms(2) by (simp add: numeral_eq_Suc)
  obtain c2 where 2: "(if range_requests (conf c1) then response_header_overwrite ''Accept-Ranges'' (Some ''bytes'') c1 else Some c1) = Some c2"
    "headers_set 1 c1 c2"
  proof (cases "range_requests (conf c1)")
    case True
    obtain c2 where "response_header_overwrite ''Accept-Ranges'' (Some ''bytes'') c1 = Some c2" "headers_set 1 c1 c2" by (rule overwrite_sets[OF room1])
    with True that show thesis by simp
  next
    case False
    with that[of c1] headers_set_refl[OF room1] show thesis by simp
  qed
  have k1: "conf c1 = conf con" using headers_set_kept[OF 1(2)] by simp
  have set2: "headers_set 2 con c2" using headers_set_trans[OF 1(2) 2(2)] by (simp add: numeral_eq_Suc)
  have run: "mod_staticfile_subrequest cf get_entry http_date read_date srv con = (if b then do {
              con \<leftarrow> static_etag cf f c2;
              (mtime, srv, con) \<leftarrow> static_mtime http_date f srv con;
              (r, con) \<leftarrow> http_response_handle_cachable read_date mtime con;
              if r = HANDLER_FINISHED then Some (HANDLER_FINISHED, srv, con)
              else static_body (sce_length (sf_stat f)) (Some mtime) srv con }
            else static_body (sce_length (sf_stat f)) None srv c2)"
    using 2(1) unfolding mod_staticfile_subrequest_def if_not_P[OF s(4)] s(3) option.case if_not_P[OF s(2)] 1(1)
    by (simp add: s(1))
  show thesis
  proof (cases b)
    case False
    with run have "mod_staticfile_subrequest cf get_entry http_date read_date srv con = static_body (sce_length (sf_stat f)) None srv c2" by simp
    moreover have "headers_set 4 con c2" using set2 by (auto simp: headers_set_def)
    ultimately show thesis by (rule that)
  next
    case True
    have room2: "headers_room (Suc 1) c2" using headers_set_room[of 2 con c2 2] set2 assms(2) by (simp add: numeral_eq_Suc)
    obtain c3 where 3: "static_etag cf f c2 = Some c3" "headers_set 1 c2 c3" by (rule static_etag_ok[OF room2])
    have room3: "headers_room (Suc 0) c3" using headers_set_room[of 1 c2 c3 1] 3(2) room2 by (simp add: numeral_eq_Suc)
    obtain m srv' c4 where 4: "static_mtime http_date f srv c3 = Some (m, srv', c4)" "headers_set 1 c3 c4"
      by (rule static_mtime_ok[OF room3 assms(3)])
    have set4: "headers_set 4 con c4" using headers_set_trans[OF set2 headers_set_trans[OF 3(2) 4(2)]] by (simp add: numeral_eq_Suc)
    then have "http_response_handle_cachable read_date m c4 = Some (HANDLER_GO_ON, c4)"
      using assms(4,5) headers_set_kept[OF set4] by (simp add: http_response_handle_cachable_def)
    with True run 3(1) 4(1) have "mod_staticfile_subrequest cf get_entry http_date read_date srv con = static_body (sce_length (sf_stat f)) (Some m) srv' c4" by simp
    then show thesis using set4 by (rule that)
  qed
qed

text \<open>
  C38: a request for a regular file that asks for no range and sets no condition is answered with 200 and exactly the
  bytes of the file, whatever headers other modules have set already.
\<close>

theorem whole_file_served:
  assumes "serves cf get_entry con f" and "headers_room 4 con" and "length (mtime_cache srv) = FILE_CACHE_MAX"
    and "http_if_none_match (req con) = Null" and "http_if_modified_since (req con) = Null"
    and "http_range (req con) = Null \<or> \<not> range_requests (conf con)" and "holds_stream fs (write_queue con) []"
    and "\<not> transfer_encoding (response con)" and "file = fs (cstr (copy_bytes (phys_path (physical con))))" and "sce_length (sf_stat f) = int (length file)"
  shows "\<exists>srv' con'. mod_staticfile_subrequest cf get_entry http_date read_date srv con = Some (HANDLER_FINISHED, srv', con') \<and>
     http_status con' = 200 \<and> file_finished con' \<and> holds_stream fs (write_queue con') file"
proof -
  obtain c m srv' where 1: "mod_staticfile_subrequest cf get_entry http_date read_date srv con = static_body (sce_length (sf_stat f)) m srv' c"
    "headers_set 4 con c" by (rule subrequest_ok[OF assms(1-5)])
  note k = headers_set_kept[OF 1(2)]
  obtain q where "static_body (sce_length (sf_stat f)) m srv' c = Some (HANDLER_FINISHED, srv', c\<lparr>write_queue := q, http_status := 200, file_finished := True\<rparr>)"
    "holds_stream fs q file"
    using static_body_whole[of c fs "sce_length (sf_stat f)" m srv'] assms(6-10) k by metis
  with 1(1) show ?thesis by simp
qed

text \<open>
  C39: the module queues something only for a \<open>GET\<close>, \<open>POST\<close> or \<open>HEAD\<close> that nobody else handles, of a path without an
  excluded extension, for a regular file, and for a symbolic link only where links are followed.
\<close>

theorem only_served_files:
  assumes "mod_staticfile_subrequest cf get_entry http_date read_date srv con = Some (r, srv', con')"
  shows "write_queue con' = write_queue con \<or> (\<exists>f. serves cf get_entry con f)"
proof (rule disjCI)
  assume no: "\<not> (\<exists>f. serves cf get_entry con f)"
  show "write_queue con' = write_queue con"
  proof (cases "http_status con \<noteq> 0 \<or> uri_path (con_uri con) = [] \<or> phys_path (physical con) = [] \<or> mode con \<noteq> DIRECT \<or>
         http_method (req con) \<notin> {HTTP_METHOD_GET, HTTP_METHOD_POST, HTTP_METHOD_HEAD} \<or>
         list_ex (excluded (phys_path (physical con))) (exclude_ext cf)")
    case True
    with assms show ?thesis by (simp only: mod_staticfile_subrequest_def if_P) simp
  next
    case False
    note a = assms[unfolded mod_staticfile_subrequest_def if_not_P[OF False]]
    show ?thesis
    proof (cases "get_entry (cstr (phys_path (physical con)))")
      case None
      with a show ?thesis by auto
    next
      case (Some f)
      then have "sce_symlink (sf_stat f) \<and> \<not> follow_symlink (conf con) \<or> \<not> sce_reg (sf_stat f)"
        using no False by (auto simp: serves_def)
      then show ?thesis using a[unfolded Some option.case] by (auto simp: upd_phys_def split: if_splits)
    qed
  qed
qed

text \<open>
  C40: whatever ranges a client asks for, every range that is sent lies within the file, the bytes queued are exactly those
  of the ranges, each behind its part header and with the closing boundary when there are several, and the length kept
  for the response is the number of bytes queued.
\<close>

theorem range_body:
  assumes "filled (resp_headers (response con))" and "a_used (resp_headers (response con)) < INT_MAX"
    and "deref_string (headers (req con)) (http_range (req con)) = Some hdr" and "holds_stream fs (write_queue con) []"
    and "file = fs (cstr (copy_bytes (phys_path (physical con))))"
  shows "\<exists>r con' rs multi ct. http_response_parse_range (int (length file)) con = Some (r, con') \<and> ranges_within file rs \<and>
     (r = 0 \<or> r = -1) \<and> holds_stream fs (write_queue con') (range_bytes r multi ct file rs) \<and>
     resp_content_length (response con') = int (length (range_bytes r multi ct file rs)) \<and> (r = 0 \<and> \<not> multi \<longrightarrow> length rs \<le> 1)"
proof -
  from range_body_ok[OF assms] obtain x where x: "http_response_parse_range (int (length file)) con = Some x"
    "case x of (r, con') \<Rightarrow> \<exists>rs multi ct. ranges_within file rs \<and> (r = 0 \<or> r = -1) \<and>
       holds_stream fs (write_queue con') (range_bytes r multi ct file rs) \<and>
       resp_content_length (response con') = int (length (range_bytes r multi ct file rs)) \<and> (r = 0 \<and> \<not> multi \<longrightarrow> length rs \<le> 1)"
    unfolding valid_def by (elim exE conjE) (rule that)
  obtain r con' where "x = (r, con')" by (cases x)
  with x show ?thesis by (simp only: prod.case) blast
qed

section \<open>A concrete request\<close>

definition range_con :: "char list \<Rightarrow> connection" where
  "range_con hdr = (connection_init sample_server)\<lparr>
     req := (req (connection_init sample_server))\<lparr>http_method := HTTP_METHOD_GET,
       headers := array_init\<lparr>adata := [Some (data_string_init\<lparr>payload := DString (terminated (''bytes='' @ hdr))\<rparr>)], a_used := 1, a_size := 1\<rparr>,
       http_range := Slot 0 6\<rparr>\<rparr>"

definition sample_file :: static_file where
  "sample_file = \<lparr>sf_stat = \<lparr>sce_symlink = False, sce_dir = False, sce_reg = True, sce_length = 3, sce_content_type = None\<rparr>, sf_mtime = 1, sf_etag = []\<rparr>"

definition plain_con :: connection where
  "plain_con = upd_uri (\<lambda>u. u\<lparr>uri_path := terminated ''/x''\<rparr>) (upd_phys (\<lambda>p. p\<lparr>phys_path := terminated ''/x''\<rparr>)
     ((connection_init sample_server)\<lparr>req := (req (connection_init sample_server))\<lparr>http_method := HTTP_METHOD_GET\<rparr>\<rparr>))"

text \<open>Without a dash the header asks for no range, but is answered like one: with 206 and an empty body.\<close>

lemma no_dash_no_range: "CHR ''-'' \<notin> set hdr \<Longrightarrow> ranges sz path ct hdr st = Some (None, st)"
proof -
  assume no: "CHR ''-'' \<notin> set hdr"
  have "index_of (CHR ''-'') hdr = None"
  proof (cases "index_of (CHR ''-'') hdr")
    case (Some i)
    then have "CHR ''-'' \<in> set hdr" using index_of_Some[OF Some] nth_mem by metis
    with no show ?thesis by simp
  qed
  then show ?thesis by (subst ranges.simps) simp
qed

text \<open>A reversed range is an error without a status, and nothing of the file is sent for it.\<close>

lemma reversed_range: "ranges 10 path ct ''5-3'' st = Some (Some None, st)"
proof -
  have "index_of (CHR ''-'') ''5-3'' = Some 1" by code_simp
  moreover have "one_range 10 ''5-3'' 1 = Bad None" by code_simp
  ultimately show ?thesis by (subst ranges.simps) simp
qed

lemma plain_serves: "serves \<lparr>exclude_ext = [terminated ''.php''], etags_used = True\<rparr> (\<lambda>_. Some sample_file) plain_con sample_file"
  by (simp add: serves_def plain_con_def sample_file_def connection_init_def config_setup_connection_def upd_uri_def upd_phys_def excluded_def terminated_def)

lemma plain_facts:
  "headers_room 4 plain_con" "length (mtime_cache sample_server) = FILE_CACHE_MAX" "http_if_none_match (req plain_con) = Null"
  "http_if_modified_since (req plain_con) = Null" "http_range (req plain_con) = Null" "holds_stream fs (write_queue plain_con) []"
  "\<not> transfer_encoding (response plain_con)"
  using filled_init init_rep
  by (simp_all add: plain_con_def connection_init_def config_setup_connection_def upd_uri_def upd_phys_def headers_room_def sample_server_def FILE_CACHE_MAX_def
      holds_stream_def INT_MAX_def exI[of _ "[]"] array_init_def)

theorem whole_file_served_witness:
  "\<exists>srv' con'. mod_staticfile_subrequest \<lparr>exclude_ext = [terminated ''.php''], etags_used = True\<rparr> (\<lambda>_. Some sample_file) (\<lambda>_. ''x'') (\<lambda>_. None) sample_server plain_con =
     Some (HANDLER_FINISHED, srv', con') \<and> http_status con' = 200 \<and> file_finished con' \<and> holds_stream (\<lambda>_. ''abc'') (write_queue con') ''abc''"
  by (rule whole_file_served[OF plain_serves plain_facts(1-4) disjI1[OF plain_facts(5)] plain_facts(6,7)]) (simp_all add: sample_file_def)

theorem only_served_files_witness: "\<exists>r srv' con'. mod_staticfile_subrequest \<lparr>exclude_ext = [], etags_used = True\<rparr> (\<lambda>_. None) (\<lambda>_. ''x'') (\<lambda>_. None) sample_server plain_con =
     Some (r, srv', con') \<and> write_queue con' = write_queue plain_con"
proof -
  have 1: "mod_staticfile_subrequest \<lparr>exclude_ext = [], etags_used = True\<rparr> (\<lambda>_. None) (\<lambda>_. ''x'') (\<lambda>_. None) sample_server plain_con =
     Some (HANDLER_FINISHED, sample_server, plain_con\<lparr>http_status := 403\<rparr>)"
    by (simp add: mod_staticfile_subrequest_def plain_con_def connection_init_def config_setup_connection_def upd_uri_def upd_phys_def terminated_def)
  then show ?thesis using only_served_files[OF 1] by (auto simp: serves_def)
qed

theorem range_body_witness:
  "\<exists>r con' rs multi ct. http_response_parse_range (int (length ''abcde'')) (range_con ''1-2,-1'') = Some (r, con') \<and> ranges_within ''abcde'' rs \<and>
     (r = 0 \<or> r = -1) \<and> holds_stream (\<lambda>_. ''abcde'') (write_queue con') (range_bytes r multi ct ''abcde'' rs) \<and>
     resp_content_length (response con') = int (length (range_bytes r multi ct ''abcde'' rs)) \<and> (r = 0 \<and> \<not> multi \<longrightarrow> length rs \<le> 1)"
proof (rule range_body)
  show "deref_string (headers (req (range_con ''1-2,-1''))) (http_range (req (range_con ''1-2,-1''))) = Some ''1-2,-1''"
    by (simp add: range_con_def deref_string_def element_at_def string_value_def data_string_init_def str_at_terminated cstr_def terminated_def str_at_def)
qed (use filled_init init_rep in \<open>simp_all add: range_con_def connection_init_def config_setup_connection_def holds_stream_def exI[of _ "[]"] array_init_def INT_MAX_def\<close>)

end
