(* ===== verification/Spec2Isabelle.thy ===== *)
theory Spec2Isabelle
  imports BufferSpec RequestRender HttpChunk ReadState SafePath WritePrepare ServerLoop StaticFile
begin

text \<open>
  A verification development for the HTTP server of the storage nodes of ylem: lighttpd 1.4.19, in C, under
  src/storage/src/lighttpd/src.  All file names below are relative to that directory.

  \<^bold>\<open>The program.\<close>  The server is one process with one loop.  \<open>main\<close> (server.c) asks an event backend (fdevent*.c) which
  descriptors are ready and calls the handler registered for each: that of a listening socket accepts clients
  (network.c, connections.c), that of a connection reads or writes what it can and puts the connection on the job list
  (joblist.c); then \<open>connection_state_machine\<close> (connections.c) runs for every connection of the job list.  It reads a request
  into a queue of chunks (chunk.c), parses it (request.c) into header arrays (array.c) of byte buffers (buffer.c), finds
  the options that hold for it (configfile-glue.c, configfile.c) and the file it means (response.c), asks the plugins
  (plugin.c, mod_staticfile.c) in between, writes the header of the response (response.c, http-header-glue.c) and its
  body (http_chunk.c) into a queue, and has the queue written to the socket (network*.c).  Once a second the loop looks for
  connections that took too long.

  \<^bold>\<open>How C is modelled\<close> (theory Prelude).  A step that has undefined behaviour (an access outside a block or to a byte
  that was never written, a null pointer, signed overflow, an assertion, SEGFAULT()) has the value \<open>None\<close>; every other
  step has the value \<open>Some\<close>.  \<open>valid m Q\<close> says that \<open>m\<close> is defined and its result satisfies \<open>Q\<close>: it is total correctness and
  memory safety in one.  A block of memory is a list of cells, each \<open>None\<close> until it is written.  Structures are records with
  the members of the C code, enumerations datatypes.  Unsigned sizes and counters are \<open>nat\<close>, signed ones \<open>int\<close>; where a
  width matters (the size of a chunk, \<open>long\<close> in decimal, \<open>strtol\<close>, hashes, masks of addresses) the wrap is written out or the
  value is a word.  \<open>malloc\<close> succeeds.  Where the code links structures by pointers and relies on it (chunks in a queue,
  connections in the pool), there is a store and addresses into it.

  \<^bold>\<open>The theories\<close>, from the bottom up, with the code they model and what their lemmas show.

  \<^item> Buffer, Numbers, BufferText, BufferCodec, UrlDecode, BufferPath (buffer.c): the growable buffer with its allocation,
    numbers as text, search and case, the encoding tables, \<open>buffer_urldecode_internal\<close> with its two indices into one buffer,
    \<open>buffer_path_simplify\<close> with its two pointers, in place or not.  \<open>buf_rep b t\<close> relates a buffer to the string in it; each
    operation has a lemma that it is defined and what string it leaves, and BufferSpec composes them: any sequence of
    operations refines the same on strings.  The locale \<open>string_buffer\<close> is the contract its clients use.  No path keeps a
    component \<open>..\<close>, encoding and decoding are inverse, and decoding yields no control character.
  \<^item> CharClass (buffer.c): byte classes and \<open>buffer_caseless_compare\<close>, byte by byte and a word at a time; it is
    an order only on keys without the bytes between Z and a.
  \<^item> Keyvalue (keyvalue.c): the tables of methods, versions and statuses, as interpretations of the locale \<open>name_table\<close>,
    and growing vectors.
  \<^item> ArrayMap (array.c, data_*.c): the sorted array with its halving search; \<open>arr_inv\<close> is its invariant, the locale
    \<open>header_map\<close> its contract as a map from keys.  HeaderArray shows what survives with arbitrary keys.
  \<^item> Chunk (chunk.c): the linked queue with its cache of recycled chunks, as cells with next pointers.  \<open>cq_rep\<close> relates
    it to a list of chunks, \<open>holds_stream\<close> to the bytes still to be sent; the locale \<open>byte_sink\<close> is what
    its clients append through.
  \<^item> CLib: \<open>strncmp\<close>, \<open>strtol\<close> and others of the C library the code calls, on byte lists.
  \<^item> Base, Connection (base.h, connections.c, configfile.c): the records of a connection and of the server, \<open>connection_init\<close>
    and \<open>connection_reset\<close> (a reset connection has no trace of the last request).
  \<^item> Hostname, RequestLine, RequestSplit, RequestHeaders, Request (request.c): \<open>request_check_hostname\<close> (exactly an explicit
    grammar), \<open>http_request_split_value\<close>, and \<open>http_request_parse\<close> with the loop over the bytes of the header, its state in a
    record and one function for each case of its switch.  RequestRender writes a request out and shows that the parser
    inverts it; Request shows what an accepted request satisfies.
  \<^item> Queues (joblist.c, connections.c): the vectors of connections and the pool; \<open>pool_rep\<close> is the invariant that a
    connection in use knows its own place.
  \<^item> NetworkWrite, NetworkSendfile, Network (network_write.c, network_linux_sendfile.c, network.c): the two backends, as
    interpretations of the locale \<open>network_backend\<close>, and the limits and counters around them, the counter of all connections
    being the one of the context whose limit holds.  No byte is lost, repeated or reordered.
  \<^item> FdEvent (fdevent.c, fdevent_poll.c, fdevent_select.c): handlers and the backends poll and select, as interpretations of
    the locale \<open>event_backend\<close>; \<open>ev_rep b idx W\<close> says that the backend \<open>b\<close> keeps descriptor \<open>d\<close> at index \<open>idx d\<close> and watches it for
    \<open>W d\<close>.  \<open>watched\<close> is what the kernel is asked for.
  \<^item> HttpChunk (http_chunk.c): appending to a response with and without the chunked encoding, against a decoder of it.
  \<^item> ReadState (connections.c): \<open>connection_handle_read\<close> and the states READ and READ_POST.
  \<^item> Plugin (plugin.c): the slots of the hooks and a call of a slot.
  \<^item> Config (configfile-glue.c, configfile.c): the conditions of the contexts with their cache, against their meaning, and
    the options of the contexts that apply.
  \<^item> ResponsePrepare, SafePath (response.c): \<open>http_response_prepare\<close> in its parts, the search for a path info, and that the
    file lies below the document root.
  \<^item> ResponseHeader, ResponseFields (http-header-glue.c, etag.c, response.c): setting response headers, the cache of formatted
    dates, tags, conditional requests and \<open>http_response_write_header\<close>, against a reader of it.
  \<^item> WritePrepare (connections.c): \<open>connection_handle_write_prepare\<close> and \<open>connection_handle_write\<close>: statuses, error pages, the
    length that is announced.
  \<^item> StaticFile (mod_staticfile.c): \<open>mod_staticfile_subrequest\<close> and \<open>http_response_parse_range\<close>.
  \<^item> ConnMachine (connections.c, connections-glue.c): \<open>connection_close\<close>, \<open>connection_accept\<close>, \<open>connection_handle_fdevent\<close>, and
    \<open>connection_state_machine\<close> with one \<open>step_\<close> function for each state.  A \<open>world\<close> is the server, the store of connections, the
    socket and the temporary files, with the number of the round.
  \<^item> ConnStates: each round follows the diagram of the states, the loop ends, and what a hang-up does.  ConnEvents: every run
    leaves the connection waiting, with its descriptor watched for what its state waits for.  Accept: opening and
    closing.  ConnClose: a connection with an error is gone when the machine returns.
  \<^item> ServerLoop (server.c, network.c): a round of the main loop, the check of a new second, the listening sockets, waiting
    connections, events and the job list.

  \<^bold>\<open>What is outside\<close> is a parameter, an argument of the definitions that use it, and what is relied on is a named
  hypothesis of the theorem: the kernel (what a read, a write, \<open>accept\<close>, \<open>ioctl\<close>, \<open>shutdown\<close>, \<open>poll\<close> and \<open>select\<close> answer, numbered by
  calls or rounds, with \<open>io_ok\<close> for the bounds of the answers), the stat cache (\<open>env_stat\<close>), the formatted dates and addresses,
  regular expressions and \<open>inet_aton\<close>, and the plugins, which are lists of hooks that may change server and connection.  The
  theorems need of the hooks, where they are called: \<open>tame_plugins\<close> (leave URL, path and mode alone; not so of mod_alias.c and
  mod_rewrite.c), \<open>minds_outside\<close> (leave the event backend in order and the descriptor of the connection alone), \<open>orderly\<close>
  (that, and keep the pool and the clock), \<open>tame_reset\<close> and \<open>resets\<close> (the reset of the plugins keeps the state and a connection
  that can be reset).  Each property with hypotheses has a witness at a concrete input.

  \<^bold>\<open>Loops.\<close>  Most loops are structural or have a measure.  Loops along a list in memory have as fuel the number of cells
  of the store (\<open>write_loop\<close>, \<open>sendfile_loop\<close>, \<open>remove_loop\<close>, \<open>mark_loop\<close>, the walks of ReadState) or of contexts (\<open>chain_false\<close>,
  \<open>config_check_cond_cached\<close>), the header loop of the parser the length of the request; running out is \<open>None\<close>, and the
  lemmas that the operations are \<open>valid\<close> show that it is enough.  \<open>machine_loop\<close>, \<open>second_loop\<close> and \<open>joblist_loop\<close> may run for ever
  and are \<open>partial_function (option)\<close>: that the first returns is theorem \<open>state_machine_returns\<close> of ConnStates, from a measure on
  the states that goes down in every round but one that prepares a response, of which at most \<open>k\<close> are taken as given
  (a plugin may ask for another round for ever); for a connection in error \<open>error_closed\<close> of ConnClose proves it outright.

  \<^bold>\<open>What is not modelled.\<close>  The stat cache and the plugins but mod_staticfile.c (parameters), start-up, signals, logs,
  processes, the parser of the configuration file (generated code), OpenSSL, and the backends epoll, kqueue, devpoll,
  real-time signals, writev alone and other sendfiles: the build has poll, select, \<open>write\<close> and \<open>sendfile\<close>.  Logging has no
  effect on the state and is left out.  The products with 0.8 and 0.9 in server.c are compared exactly.  The other parts of
  ylem (tracker, monitor, front end, clients) are Perl, PHP and C++.

  \<^bold>\<open>Deviations.\<close>  Lemmas in sections named so show where the code does not do what it or a document says, among them
  \<open>stale_temp_mark\<close>, \<open>split_value_leading_comma\<close>, \<open>size_line_wraps\<close>, \<open>both_branches_merged\<close>, \<open>lingering_is_dead\<close>,
  \<open>accept_leaks\<close>, \<open>limit_never_disables\<close>, \<open>strange_event_ends_server\<close>, \<open>no_dash_no_range\<close> and \<open>reversed_range\<close>.
\<close>

end
